(* ===== verification/Prelude.thy ===== *)
theory Prelude
  imports "HOL-Library.Word" "HOL-Library.Monad_Syntax" "HOL-Library.Code_Target_Nat"
begin

text \<open>
  Shared vocabulary of the development: the machine types of the sources, the collections of
  simplification rules, ordered association lists (the model of \<^verbatim>\<open>std::map\<close>), chains of 32-bit links
  (the model of the intrusive lists and of the free list) and a few facts on lists, options and
  words that several components use.
\<close>

unbundle bit_operations_syntax

section \<open>Machine types\<close>

text \<open>
  Unsigned integers whose wrap-around the code relies on, or could suffer from, are words. Slot
  numbers, level numbers and container sizes are natural numbers: every use is below a bound that
  the invariants state. Signed 64-bit prices are integers, and overflow of a signed operation is undefined behaviour in C++. Where prices of any size can reach a
  signed operation the model says what happens: \<open>checked_i64\<close> is undefined (\<open>None\<close>) out of range, and \<open>wrap_i64\<close> is the two's complement result a compiler
  produces, for operations whose callers the model keeps total.
\<close>

type_synonym u8 = "8 word"
type_synonym u16 = "16 word"
type_synonym u32 = "32 word"
type_synonym u64 = "64 word"

definition i64_range :: "int \<Rightarrow> bool" where
  "i64_range x \<longleftrightarrow> - (2 ^ 63) \<le> x \<and> x < 2 ^ 63"

definition checked_i64 :: "int \<Rightarrow> int option" where
  "checked_i64 x = (if i64_range x then Some x else None)"

definition wrap_i64 :: "int \<Rightarrow> int" where
  "wrap_i64 x = (x + 0x8000000000000000) mod 0x10000000000000000 - 0x8000000000000000"

lemma wrap_i64_range: "i64_range x \<Longrightarrow> wrap_i64 x = x"
  by (simp add: wrap_i64_def i64_range_def mod_pos_pos_trivial)

named_theorems exsim_defs \<open>definitions unfolded by the component proofs\<close>
named_theorems chain_simps \<open>rewriting of chains of links\<close>

section \<open>Lists and options\<close>

lemma bind_Some_iff [simp]: "(Option.bind x f = Some y) = (\<exists>z. x = Some z \<and> f z = Some y)"
  by (cases x) auto

lemma takeWhile_upt_least:
  assumes "j < n" and "P j" and "\<And>i. i < j \<Longrightarrow> \<not> P i"
  shows "length (takeWhile (\<lambda>i. \<not> P i) [0..<n]) = j"
proof -
  have "[0..<n] = [0..<j] @ j # [Suc j..<n]"
    using assms(1) upt_add_eq_append [of 0 j "n - j"] upt_conv_Cons [of j n] by simp
  moreover have "takeWhile (\<lambda>i. \<not> P i) [0..<j] = [0..<j]"
    using assms(3) by (simp add: takeWhile_eq_all_conv)
  ultimately show ?thesis
    using assms(2,3) by (simp add: takeWhile_append)
qed

lemma filter_upt_split:
  assumes "k < n" and "P k" and "\<And>i. a \<le> i \<Longrightarrow> i < k \<Longrightarrow> \<not> P i" and "a \<le> k"
  shows "filter P [a..<n] = k # filter P [Suc k..<n]"
proof -
  have "[a..<n] = [a..<k] @ k # [Suc k..<n]"
    using assms(1,4) upt_add_eq_append [of a k "n - k"] upt_conv_Cons [of k n] by simp
  moreover have "filter P [a..<k] = []"
    using assms(3) by (auto simp: filter_empty_conv)
  ultimately show ?thesis
    using assms(2) by simp
qed

lemma filter_upt_none:
  assumes "\<And>i. a \<le> i \<Longrightarrow> i < n \<Longrightarrow> \<not> P i"
  shows "filter P [a..<n] = []"
  using assms by (auto simp: filter_empty_conv)

section \<open>Ordered association lists\<close>

text \<open>
  \<^verbatim>\<open>std::map\<close> iterates in key order, so it is modelled by its in-order listing. \<open>om_alter\<close> is
  \<^verbatim>\<open>operator[]\<close> followed by an update of the mapped value (absent keys are inserted at their place
  in the order \<open>lt\<close>), \<open>om_erase\<close> is \<^verbatim>\<open>erase\<close> and look-up is \<^const>\<open>map_of\<close>.
\<close>

fun om_alter :: "('k \<Rightarrow> 'k \<Rightarrow> bool) \<Rightarrow> 'k \<Rightarrow> ('v option \<Rightarrow> 'v) \<Rightarrow> ('k \<times> 'v) list \<Rightarrow> ('k \<times> 'v) list" where
  "om_alter lt k f [] = [(k, f None)]"
| "om_alter lt k f ((k', v) # m) =
     (if k = k' then (k', f (Some v)) # m
      else if lt k k' then (k, f None) # (k', v) # m
      else (k', v) # om_alter lt k f m)"

definition om_erase :: "'k \<Rightarrow> ('k \<times> 'v) list \<Rightarrow> ('k \<times> 'v) list" where
  "om_erase k m = filter (\<lambda>p. fst p \<noteq> k) m"

lemma om_erase_simps [simp]:
  "om_erase k [] = []"
  "om_erase k ((k', v) # m) = (if k' = k then om_erase k m else (k', v) # om_erase k m)"
  by (auto simp: om_erase_def)

lemma om_erase_absent: "k \<notin> fst ` set m \<Longrightarrow> om_erase k m = m"
  by (induction m) (auto simp: om_erase_def)

lemma set_om_erase: "set (om_erase k m) = {p \<in> set m. fst p \<noteq> k}"
  by (auto simp: om_erase_def)

lemma map_of_om_erase: "map_of (om_erase k m) = (map_of m)(k := None)"
  by (induction m) (auto simp: fun_eq_iff)

lemma map_of_om_alter:
  "sorted_wrt lt (map fst m) \<Longrightarrow> (\<And>a b c. lt a b \<Longrightarrow> lt b c \<Longrightarrow> lt a c) \<Longrightarrow> (\<And>a. \<not> lt a a) \<Longrightarrow>
   map_of (om_alter lt k f m) = (map_of m)(k \<mapsto> f (map_of m k))"
proof (induction m)
  case (Cons p m)
  obtain k' v where p: "p = (k', v)" by (cases p)
  have "k \<notin> fst ` set m" if "lt k k'"
    using that Cons.prems unfolding p by (auto simp: image_iff) (metis fst_conv)
  then have "map_of m k = None" if "lt k k'"
    using that by (simp add: map_of_eq_None_iff)
  with Cons show ?case by (auto simp: p fun_eq_iff)
qed simp

lemma set_om_alter_keys: "fst ` set (om_alter lt k f m) = insert k (fst ` set m)"
  by (induction lt k f m rule: om_alter.induct) auto

lemma sorted_om_alter:
  fixes k :: "'k::linorder"
  shows "sorted_wrt (<) (map fst m) \<Longrightarrow> sorted_wrt (<) (map fst (om_alter (<) k f m))"
proof (induction m)
  case (Cons p m)
  obtain k' v where p: "p = (k', v)" by (cases p)
  have "set (map fst (om_alter (<) k f m)) = insert k (fst ` set m)" by (simp add: set_om_alter_keys)
  then show ?case using Cons by (auto simp: p)
qed simp

lemma lookup_om_alter:
  fixes k :: "'k::linorder"
  shows "sorted_wrt (<) (map fst m) \<Longrightarrow> map_of (om_alter (<) k f m) = (map_of m)(k \<mapsto> f (map_of m k))"
  by (rule map_of_om_alter) auto

lemma set_om_alter:
  fixes k :: "'k::linorder"
  shows "sorted_wrt (<) (map fst m) \<Longrightarrow> set (om_alter (<) k f m) \<subseteq> insert (k, f (map_of m k)) (set m)"
proof (induction m)
  case (Cons p m)
  obtain k' v where p: "p = (k', v)" by (cases p)
  have "map_of m k = None" if "k < k'" using that Cons.prems by (force simp: p map_of_eq_None_iff)
  then show ?case using Cons by (auto simp: p)
qed simp

lemma sorted_om_erase: "sorted_wrt (<) (map fst m) \<Longrightarrow> sorted_wrt (<) (map fst (om_erase (k :: 'k::linorder) m))"
  by (induction m) (auto simp: om_erase_def)

section \<open>Chains of links\<close>

text \<open>
  Slots are indices, \<open>kNil\<close> is the null link. \<open>chain h x xs y\<close>: following the links \<open>h\<close> from
  \<open>x\<close> visits exactly the slots \<open>xs\<close> and arrives at \<open>y\<close>.
\<close>

definition kNil :: nat where
  "kNil = 4294967295"

fun chain :: "(nat \<Rightarrow> nat) \<Rightarrow> nat \<Rightarrow> nat list \<Rightarrow> nat \<Rightarrow> bool" where
  "chain h x [] y = (x = y)"
| "chain h x (a # as) y = (x = a \<and> a \<noteq> kNil \<and> chain h (h a) as y)"

lemma chain_append [chain_simps]:
  "chain h x (as @ bs) y = (\<exists>z. chain h x as z \<and> chain h z bs y)"
  by (induction as arbitrary: x) auto

lemma chain_cong: "(\<And>a. a \<in> set as \<Longrightarrow> h a = h' a) \<Longrightarrow> chain h x as y = chain h' x as y"
  by (induction as arbitrary: x) auto

lemma chain_upd_other [chain_simps]: "u \<notin> set as \<Longrightarrow> chain (h(u := v)) x as y = chain h x as y"
  by (rule chain_cong) auto

lemma chain_kNil_start: "chain h kNil as y = (as = [] \<and> y = kNil)"
  by (cases as) auto

lemma chain_nonempty: "chain h x as kNil \<Longrightarrow> x \<noteq> kNil \<Longrightarrow> \<exists>bs. as = x # bs \<and> chain h (h x) bs kNil"
  by (cases as) auto

lemma chain_not_kNil: "chain h x as y \<Longrightarrow> a \<in> set as \<Longrightarrow> a \<noteq> kNil"
  by (induction as arbitrary: x) auto

lemma chain_snoc:
  "chain h x as kNil \<Longrightarrow> as \<noteq> [] \<Longrightarrow> distinct as \<Longrightarrow> s \<notin> set as \<Longrightarrow> s \<noteq> kNil \<Longrightarrow>
   chain (h(s := kNil, last as := s)) x (as @ [s]) kNil"
proof (induction as arbitrary: x)
  case (Cons a as)
  show ?case
  proof (cases "as = []")
    case True
    with Cons.prems show ?thesis by auto
  next
    case False
    with Cons.prems have "last as \<noteq> a" by (metis distinct.simps(2) last_in_set)
    with False Cons show ?thesis by auto
  qed
qed simp

section \<open>Words\<close>

lemma unat_and_mask: "unat (x AND mask n :: 'a::len word) = unat x mod 2 ^ n"
  by (simp flip: take_bit_eq_mask take_bit_eq_mod add: unsigned_take_bit_eq)

text \<open>
  \<^verbatim>\<open>std::countr_zero\<close>, \<^verbatim>\<open>std::countl_zero\<close>, \<^verbatim>\<open>std::bit_width\<close> and \<^verbatim>\<open>std::bit_ceil\<close> of the C++ library.
\<close>

definition countr_zero :: "'a::len word \<Rightarrow> nat" where
  "countr_zero w = length (takeWhile (\<lambda>i. \<not> bit w i) [0..<LENGTH('a)])"

definition countl_zero :: "'a::len word \<Rightarrow> nat" where
  "countl_zero w = length (takeWhile (\<lambda>i. \<not> bit w (LENGTH('a) - Suc i)) [0..<LENGTH('a)])"

fun bit_width :: "nat \<Rightarrow> nat" where
  "bit_width n = (if n = 0 then 0 else Suc (bit_width (n div 2)))"

declare bit_width.simps [simp del]

definition bit_ceil :: "nat \<Rightarrow> nat" where
  "bit_ceil x = 2 ^ bit_width (x - 1)"

lemma bit_width_less: "n < 2 ^ bit_width n"
proof (induction n rule: bit_width.induct)
  case (1 n)
  show ?case
  proof (cases "n = 0")
    case False
    with 1 have "n div 2 < 2 ^ bit_width (n div 2)" by simp
    with False show ?thesis by (simp add: bit_width.simps [of n])
  qed (simp add: bit_width.simps)
qed

lemma bit_ceil_ge: "x \<le> bit_ceil x"
  using bit_width_less [of "x - 1"] by (simp add: bit_ceil_def)

lemma word_bit_exists: "w \<noteq> (0 :: 'a::len word) \<Longrightarrow> \<exists>i < LENGTH('a). bit w i"
  by (metis bit_imp_le_length bit_word_eqI bit_0_eq bot_apply bot_bool_def)

lemma countr_zero_props:
  assumes "w \<noteq> (0 :: 'a::len word)"
  shows "countr_zero w < LENGTH('a)" "bit w (countr_zero w)"
    "\<And>i. i < countr_zero w \<Longrightarrow> \<not> bit w i"
proof -
  let ?j = "LEAST i. bit w i"
  from word_bit_exists [OF assms] obtain i where i: "i < LENGTH('a)" "bit w i" by blast
  have j: "bit w ?j" using i(2) by (rule LeastI)
  have lt: "?j < LENGTH('a)" using j by (rule bit_imp_le_length)
  have eq: "countr_zero w = ?j" unfolding countr_zero_def
    using lt j not_less_Least by (rule takeWhile_upt_least)
  show "countr_zero w < LENGTH('a)" "bit w (countr_zero w)" using lt j eq by auto
  show "\<And>i. i < countr_zero w \<Longrightarrow> \<not> bit w i" using eq not_less_Least by metis
qed

lemma countl_zero_props:
  assumes "w \<noteq> (0 :: 'a::len word)"
  shows "countl_zero w < LENGTH('a)" "bit w (LENGTH('a) - Suc (countl_zero w))"
    "\<And>i. LENGTH('a) - Suc (countl_zero w) < i \<Longrightarrow> \<not> bit w i"
proof -
  let ?P = "\<lambda>i. bit w (LENGTH('a) - Suc i)"
  let ?j = "LEAST i. ?P i"
  from word_bit_exists [OF assms] obtain i where i: "i < LENGTH('a)" "bit w i" by blast
  then have "?P (LENGTH('a) - Suc i)" by simp
  then have j: "?P ?j" and le: "?j \<le> LENGTH('a) - Suc i" by (rule LeastI, rule Least_le)
  with i have lt: "?j < LENGTH('a)" by linarith
  have eq: "countl_zero w = ?j" unfolding countl_zero_def
    using lt j not_less_Least by (rule takeWhile_upt_least [where P = ?P])
  show "countl_zero w < LENGTH('a)" "bit w (LENGTH('a) - Suc (countl_zero w))" using lt j eq by auto
  fix i assume "LENGTH('a) - Suc (countl_zero w) < i"
  show "\<not> bit w i"
  proof
    assume b: "bit w i"
    then have "i < LENGTH('a)" by (rule bit_imp_le_length)
    then have "?P (LENGTH('a) - Suc i)" using b by simp
    then have "?j \<le> LENGTH('a) - Suc i" by (rule Least_le)
    with \<open>LENGTH('a) - Suc (countl_zero w) < i\<close> \<open>i < LENGTH('a)\<close> eq show False by linarith
  qed
qed

text \<open>Masking with \<open>2 ^ k - 1\<close> is reduction modulo \<open>2 ^ k\<close>, for successors and for differences.\<close>

lemma unat_succ_mask:
  "k \<le> LENGTH('a) \<Longrightarrow> unat ((i + 1) AND mask k :: 'a::len word) = (unat i + 1) mod 2 ^ k"
  by (simp add: unat_and_mask unat_word_ariths mod_mod_cancel le_imp_power_dvd)

lemma unat_diff_mask:
  assumes "k \<le> LENGTH('a)"
  shows "unat ((i - j) AND mask k :: 'a::len word) = (unat i + 2 ^ k - unat j mod 2 ^ k) mod 2 ^ k"
proof -
  have "int (unat ((i - j) AND mask k)) = uint (i - j) mod 2 ^ k"
    by (simp add: unat_and_mask zmod_int)
  also have "\<dots> = (uint i - uint j) mod 2 ^ LENGTH('a) mod 2 ^ k"
    by (simp add: uint_word_ariths)
  also have "\<dots> = (uint i - uint j) mod 2 ^ k"
    using assms by (simp add: mod_mod_cancel le_imp_power_dvd)
  also have "\<dots> = (uint i + 2 ^ k - uint j mod 2 ^ k) mod 2 ^ k"
    by (metis (no_types, opaque_lifting) add_diff_eq diff_add_eq mod_add_self2 mod_diff_right_eq)
  also have "\<dots> = int ((unat i + 2 ^ k - unat j mod 2 ^ k) mod 2 ^ k)"
  proof -
    have "unat j mod 2 ^ k \<le> unat i + 2 ^ k"
      by (meson le_add2 le_trans mod_less_divisor nat_less_le zero_less_numeral zero_less_power)
    then show ?thesis by (simp add: zmod_int of_nat_diff)
  qed
  finally show ?thesis by (simp only: of_nat_eq_iff)
qed

lemma word_neq_0_less: "(0 < x) = (x \<noteq> (0 :: 'a::len word))"
  using word_gt_0 by blast

lemma unat_split: "x \<le> y \<Longrightarrow> unat x + unat (y - x) = unat (y :: 'a::len word)"
  by (simp add: unat_sub word_le_nat_alt)

lemma unat_of_small: "m < 2 ^ 64 \<Longrightarrow> unat (of_nat m :: u64) = m"
  by (simp add: unat_of_nat)

end
