(* ===== verification/Common.thy ===== *)
theory Common
  imports Prelude
begin

text \<open>
  The domain types of \<^verbatim>\<open>include/exsim/common.hpp\<close>: the enumerations, the inbound command, the
  outbound event with its constructors, the per-order override of self-trade prevention and the
  configuration of a book.
\<close>

section \<open>Enumerations\<close>

type_synonym OrderId = u64
type_synonym Price = int
type_synonym Qty = u64
type_synonym SymbolId = u32
type_synonym OwnerId = u32

datatype Side = Buy | Sell
datatype OrdType = Limit | Market
datatype Tif = Day | Ioc | Fok
datatype MsgType = NewOrder | Cancel | Modify
datatype Stp = StpNone | CancelResting | CancelIncoming | DecrementCancel
datatype EventType = Accepted | Rejected | Trade | Canceled | Modified

datatype Reason =
    RNone | InvalidOrderId | InvalidQty | InvalidPrice | DuplicateOrderId | UnknownOrder
  | UnknownSymbol | WouldCross | BookFull | UserCanceled | IocExpired | FokUnfilled | SelfTrade
  | RiskMaxQty | RiskMaxNotional | RiskCollar | RiskRateLimit | RiskHalted | UnknownOwner

definition kFlagPostOnly :: u8 where "kFlagPostOnly = 1"
definition kStpMask :: u8 where "kStpMask = 6"
definition kStpShift :: nat where "kStpShift = 1"

fun stp_code :: "Stp \<Rightarrow> u8" where
  "stp_code StpNone = 0"
| "stp_code CancelResting = 1"
| "stp_code CancelIncoming = 2"
| "stp_code DecrementCancel = 3"

text \<open>The value of the two mode bits read back as the enumeration (\<^verbatim>\<open>static_cast<Stp>\<close>).\<close>

definition stp_of_code :: "u8 \<Rightarrow> Stp" where
  "stp_of_code v = (if v = 1 then CancelResting else if v = 2 then CancelIncoming
     else if v = 3 then DecrementCancel else StpNone)"

definition stp_flag :: "Stp \<Rightarrow> u8" where
  "stp_flag s = push_bit kStpShift (stp_code s)"

definition effective_stp :: "u8 \<Rightarrow> Stp \<Rightarrow> Stp" where
  "effective_stp flags book_default =
     (let v = drop_bit kStpShift (flags AND kStpMask)
      in if v \<noteq> 0 then stp_of_code v else book_default)"

fun opposite :: "Side \<Rightarrow> Side" where
  "opposite Buy = Sell"
| "opposite Sell = Buy"

section \<open>Commands and events\<close>

record Command =
  c_order_id :: OrderId
  c_price :: Price
  c_seq :: u64
  c_ts :: u64
  c_qty :: Qty
  c_owner :: OwnerId
  c_symbol :: SymbolId
  c_type :: MsgType
  c_side :: Side
  c_ord_type :: OrdType
  c_tif :: Tif
  c_flags :: u8

text \<open>
  \<^verbatim>\<open>request\<close> is zero, which is no enumerator, in every event but a rejection: it is an option.
\<close>

record Event =
  e_order_id :: OrderId
  e_maker_id :: OrderId
  e_price :: Price
  e_qty :: Qty
  e_leaves :: Qty
  e_symbol :: SymbolId
  e_type :: EventType
  e_reason :: Reason
  e_side :: Side
  e_request :: "MsgType option"

definition accepted_event :: "SymbolId \<Rightarrow> OrderId \<Rightarrow> Side \<Rightarrow> Price \<Rightarrow> Qty \<Rightarrow> Event" where
  "accepted_event sm oid sd px qty =
     \<lparr>e_order_id = oid, e_maker_id = 0, e_price = px, e_qty = qty, e_leaves = 0, e_symbol = sm,
      e_type = Accepted, e_reason = RNone, e_side = sd, e_request = None\<rparr>"

definition rejected_event :: "Command \<Rightarrow> Reason \<Rightarrow> Event" where
  "rejected_event c r =
     \<lparr>e_order_id = c_order_id c, e_maker_id = 0, e_price = 0, e_qty = 0, e_leaves = 0,
      e_symbol = c_symbol c, e_type = Rejected, e_reason = r, e_side = c_side c,
      e_request = Some (c_type c)\<rparr>"

definition trade_event ::
    "SymbolId \<Rightarrow> OrderId \<Rightarrow> OrderId \<Rightarrow> Side \<Rightarrow> Price \<Rightarrow> Qty \<Rightarrow> Qty \<Rightarrow> Event" where
  "trade_event sm taker maker taker_side px qty maker_leaves =
     \<lparr>e_order_id = taker, e_maker_id = maker, e_price = px, e_qty = qty, e_leaves = maker_leaves,
      e_symbol = sm, e_type = Trade, e_reason = RNone, e_side = taker_side, e_request = None\<rparr>"

definition canceled_event ::
    "SymbolId \<Rightarrow> OrderId \<Rightarrow> Side \<Rightarrow> Price \<Rightarrow> Qty \<Rightarrow> Reason \<Rightarrow> Event" where
  "canceled_event sm oid sd px qty r =
     \<lparr>e_order_id = oid, e_maker_id = 0, e_price = px, e_qty = qty, e_leaves = 0, e_symbol = sm,
      e_type = Canceled, e_reason = r, e_side = sd, e_request = None\<rparr>"

definition modified_event :: "SymbolId \<Rightarrow> OrderId \<Rightarrow> Side \<Rightarrow> Price \<Rightarrow> Qty \<Rightarrow> Event" where
  "modified_event sm oid sd px qty =
     \<lparr>e_order_id = oid, e_maker_id = 0, e_price = px, e_qty = qty, e_leaves = 0, e_symbol = sm,
      e_type = Modified, e_reason = RNone, e_side = sd, e_request = None\<rparr>"

definition stp_decrement_event :: "SymbolId \<Rightarrow> OrderId \<Rightarrow> Side \<Rightarrow> Price \<Rightarrow> Qty \<Rightarrow> Event" where
  "stp_decrement_event sm oid sd px new_qty =
     (modified_event sm oid sd px new_qty)\<lparr>e_reason := SelfTrade\<rparr>"

section \<open>Configuration and views\<close>

record BookConfig =
  cfg_min_price :: Price
  cfg_num_levels :: nat
  cfg_max_orders :: nat
  cfg_stp :: Stp

definition default_BookConfig :: BookConfig where
  "default_BookConfig = \<lparr>cfg_min_price = 0, cfg_num_levels = 65536, cfg_max_orders = 262144,
     cfg_stp = StpNone\<rparr>"

record OrderView =
  ov_price :: Price
  ov_qty :: Qty
  ov_side :: Side
  ov_owner :: OwnerId

lemmas event_defs = accepted_event_def rejected_event_def trade_event_def canceled_event_def
  modified_event_def stp_decrement_event_def

section \<open>Facts\<close>

lemma opposite_opposite [simp]: "opposite (opposite s) = s"
  by (cases s) auto

lemma opposite_neq [simp]: "opposite s \<noteq> s" "s \<noteq> opposite s"
  by (cases s; simp)+

text \<open>Event types of the constructors, the facts the stream properties use.\<close>

lemma event_type_simps [simp]:
  "e_type (accepted_event sm i sd px q) = Accepted"
  "e_type (rejected_event c r) = Rejected"
  "e_type (trade_event sm t m sd px q l) = Trade"
  "e_type (canceled_event sm i sd px q r) = Canceled"
  "e_type (modified_event sm i sd px q) = Modified"
  "e_type (stp_decrement_event sm i sd px q) = Modified"
  by (simp_all add: event_defs)

lemma trade_event_simps [simp]:
  "e_order_id (trade_event sm t m sd px q l) = t"
  "e_maker_id (trade_event sm t m sd px q l) = m"
  "e_price (trade_event sm t m sd px q l) = px"
  "e_qty (trade_event sm t m sd px q l) = q"
  "e_leaves (trade_event sm t m sd px q l) = l"
  "e_side (trade_event sm t m sd px q l) = sd"
  "e_symbol (trade_event sm t m sd px q l) = sm"
  by (simp_all add: event_defs)

lemma stp_flag_codes:
  "stp_flag StpNone = 0" "stp_flag CancelResting = 2"
  "stp_flag CancelIncoming = 4" "stp_flag DecrementCancel = 6"
  by (simp_all add: stp_flag_def kStpShift_def)

text \<open>The override bits: an order carrying the flag of a mode other than None is matched under it.\<close>

lemma effective_stp_flag:
  "effective_stp (stp_flag s) d = (if s = StpNone then d else s)"
  by (cases s) (simp_all add: effective_stp_def stp_flag_codes kStpMask_def kStpShift_def stp_of_code_def)

end
