(* ===== verification/Order_Index.thy ===== *)
theory Order_Index
  imports Common "HOL-Library.Multiset"
begin

text \<open>
  \<^verbatim>\<open>include/exsim/order_index.hpp\<close>: the open-addressing table from order id to store slot, with Robin
  Hood insertion and backward-shift deletion. The loops of the source have no bound of their own:
  they are partial functions into \<^typ>\<open>'a option\<close>, \<open>None\<close> meaning that the loop does not end, and the
  interface laws proved here say that they do end on a well-formed table. The hash policy is a
  template parameter of the class and a field of the record.
\<close>

section \<open>Model\<close>

subsection \<open>Hash policies\<close>

definition scatter_fingerprint :: "u64 \<Rightarrow> nat \<Rightarrow> u32" where
  "scatter_fingerprint k0 bits =
     (let k = k0 XOR drop_bit 33 k0;
          k = k * 0xff51afd7ed558ccd;
          k = k XOR drop_bit 33 k;
          k = k * 0xc4ceb9fe1a85ec53;
          k = k XOR drop_bit 33 k
      in ucast k)"

definition locality_fingerprint :: "u64 \<Rightarrow> nat \<Rightarrow> u32" where
  "locality_fingerprint k bits = ucast (k XOR drop_bit bits k)"

subsection \<open>The table\<close>

record Slot =
  sl_fp :: u32
  sl_value :: nat

record OrderIndex =
  ix_hash :: "OrderId \<Rightarrow> nat \<Rightarrow> u32"
  ix_mask :: u32
  ix_bits :: nat
  ix_slots :: "Slot list"
  ix_size :: nat

definition ix_init :: "(OrderId \<Rightarrow> nat \<Rightarrow> u32) \<Rightarrow> nat \<Rightarrow> OrderIndex" where
  "ix_init h max_entries =
     (let mk = word_of_nat (bit_ceil (max (2 * max_entries) 16) - 1) :: u32
      in \<lparr>ix_hash = h, ix_mask = mk, ix_bits = countr_zero (ucast mk + 1 :: u64),
          ix_slots = replicate (unat mk + 1) \<lparr>sl_fp = 0, sl_value = kNil\<rparr>, ix_size = 0\<rparr>)"

definition fingerprint :: "OrderIndex \<Rightarrow> OrderId \<Rightarrow> u32" where
  "fingerprint ix key = ix_hash ix key (ix_bits ix)"

definition dist :: "u32 \<Rightarrow> u32 \<Rightarrow> u32 \<Rightarrow> u32" where
  "dist mk i fp = (i - fp) AND mk"

text \<open>\<^verbatim>\<open>find\<close>: the store slot of the key, \<open>kNil\<close> if it is absent.\<close>

partial_function (option) find_loop ::
    "u32 \<Rightarrow> Slot list \<Rightarrow> OrderId \<Rightarrow> (nat \<Rightarrow> OrderId) \<Rightarrow> u32 \<Rightarrow> u32 \<Rightarrow> u32 \<Rightarrow> nat option" where
  "find_loop mk sl key key_of fp i d =
     (let s = sl ! unat i in
      if sl_value s = kNil \<or> dist mk i (sl_fp s) < d then Some kNil
      else if sl_fp s = fp \<and> key_of (sl_value s) = key then Some (sl_value s)
      else find_loop mk sl key key_of fp ((i + 1) AND mk) (d + 1))"

definition ix_find :: "OrderIndex \<Rightarrow> OrderId \<Rightarrow> (nat \<Rightarrow> OrderId) \<Rightarrow> nat option" where
  "ix_find ix key key_of =
     (let fp = fingerprint ix key
      in find_loop (ix_mask ix) (ix_slots ix) key key_of fp (fp AND ix_mask ix) 0)"

text \<open>\<^verbatim>\<open>insert\<close>: the entry further from its home keeps the slot, the displaced one probes on.\<close>

partial_function (option) insert_loop ::
    "u32 \<Rightarrow> Slot list \<Rightarrow> Slot \<Rightarrow> u32 \<Rightarrow> u32 \<Rightarrow> Slot list option" where
  "insert_loop mk sl cur i d =
     (if sl_value (sl ! unat i) = kNil then Some (sl[unat i := cur])
      else
        (let sd = dist mk i (sl_fp (sl ! unat i)) in
         if sd < d then insert_loop mk (sl[unat i := cur]) (sl ! unat i) ((i + 1) AND mk) (sd + 1)
         else insert_loop mk sl cur ((i + 1) AND mk) (d + 1)))"

definition ix_insert :: "OrderIndex \<Rightarrow> OrderId \<Rightarrow> nat \<Rightarrow> OrderIndex option" where
  "ix_insert ix key value =
     (let fp = fingerprint ix key in
      do { sl \<leftarrow> insert_loop (ix_mask ix) (ix_slots ix) \<lparr>sl_fp = fp, sl_value = value\<rparr> (fp AND ix_mask ix) 0;
           Some (ix\<lparr>ix_slots := sl, ix_size := ix_size ix + 1\<rparr>) })"

text \<open>\<^verbatim>\<open>remove_at\<close>: shift later entries back up to the first empty slot or entry in its home slot.\<close>

partial_function (option) shift_loop :: "u32 \<Rightarrow> Slot list \<Rightarrow> u32 \<Rightarrow> u32 \<Rightarrow> Slot list option" where
  "shift_loop mk sl hole j =
     (if sl_value (sl ! unat j) \<noteq> kNil \<and> dist mk j (sl_fp (sl ! unat j)) \<noteq> 0
      then shift_loop mk (sl[unat hole := sl ! unat j]) j ((j + 1) AND mk)
      else Some (sl[unat hole := (sl ! unat hole)\<lparr>sl_value := kNil\<rparr>]))"

definition remove_at :: "OrderIndex \<Rightarrow> u32 \<Rightarrow> OrderIndex option" where
  "remove_at ix hole =
     do { sl \<leftarrow> shift_loop (ix_mask ix) (ix_slots ix) hole ((hole + 1) AND ix_mask ix);
          Some (ix\<lparr>ix_slots := sl, ix_size := ix_size ix - 1\<rparr>) }"

partial_function (option) seek_loop :: "u32 \<Rightarrow> Slot list \<Rightarrow> nat \<Rightarrow> u32 \<Rightarrow> u32 option" where
  "seek_loop mk sl value i =
     (if sl_value (sl ! unat i) \<noteq> value then seek_loop mk sl value ((i + 1) AND mk) else Some i)"

definition ix_erase_known :: "OrderIndex \<Rightarrow> OrderId \<Rightarrow> nat \<Rightarrow> OrderIndex option" where
  "ix_erase_known ix key value =
     (let fp = fingerprint ix key in
      do { i \<leftarrow> seek_loop (ix_mask ix) (ix_slots ix) value (fp AND ix_mask ix);
           remove_at ix i })"

partial_function (option) erase_loop ::
    "OrderIndex \<Rightarrow> OrderId \<Rightarrow> (nat \<Rightarrow> OrderId) \<Rightarrow> u32 \<Rightarrow> u32 \<Rightarrow> u32 \<Rightarrow> (OrderIndex \<times> nat) option" where
  "erase_loop ix key key_of fp i d =
     (let s = ix_slots ix ! unat i in
      if sl_value s = kNil \<or> dist (ix_mask ix) i (sl_fp s) < d then Some (ix, kNil)
      else if sl_fp s = fp \<and> key_of (sl_value s) = key
      then do { ix' \<leftarrow> remove_at ix i; Some (ix', sl_value s) }
      else erase_loop ix key key_of fp ((i + 1) AND ix_mask ix) (d + 1))"

definition ix_erase :: "OrderIndex \<Rightarrow> OrderId \<Rightarrow> (nat \<Rightarrow> OrderId) \<Rightarrow> (OrderIndex \<times> nat) option" where
  "ix_erase ix key key_of =
     (let fp = fingerprint ix key
      in erase_loop ix key key_of fp (fp AND ix_mask ix) 0)"

lemmas index_loops_code [code] = find_loop.simps insert_loop.simps shift_loop.simps seek_loop.simps erase_loop.simps

definition slot_count :: "OrderIndex \<Rightarrow> nat" where
  "slot_count ix = unat (ix_mask ix) + 1"

definition robin_hood_ordered :: "OrderIndex \<Rightarrow> bool" where
  "robin_hood_ordered ix =
     list_all (\<lambda>n.
       let i = word_of_nat n :: u32; p = (i - 1) AND ix_mask ix; s = ix_slots ix ! unat i; t = ix_slots ix ! unat p;
           d = dist (ix_mask ix) i (sl_fp s)
       in sl_value s = kNil \<or>
          \<not> (d > 0 \<and> (sl_value t = kNil \<or> d > dist (ix_mask ix) p (sl_fp t) + 1)))
     [0..<slot_count ix]"

section \<open>Positions and distances\<close>

text \<open>
  The proofs work on natural numbers: positions below the table size \<open>m\<close>, the cyclic successor and
  the cyclic distance of a position from a home slot.
\<close>

definition nxt :: "nat \<Rightarrow> nat \<Rightarrow> nat" where
  "nxt m p = (p + 1) mod m"

definition dn :: "nat \<Rightarrow> nat \<Rightarrow> nat \<Rightarrow> nat" where
  "dn m p h = (p + m - h) mod m"

definition home :: "nat \<Rightarrow> Slot \<Rightarrow> nat" where
  "home m s = unat (sl_fp s) mod m"

definition occ :: "Slot list \<Rightarrow> nat \<Rightarrow> bool" where
  "occ sl p \<longleftrightarrow> sl_value (sl ! p) \<noteq> kNil"

definition dp :: "Slot list \<Rightarrow> nat \<Rightarrow> nat" where
  "dp sl p = dn (length sl) p (home (length sl) (sl ! p))"

text \<open>Robin Hood order, stated for a slot and its successor.\<close>

definition rh :: "Slot list \<Rightarrow> bool" where
  "rh sl \<longleftrightarrow> (\<forall>p < length sl. occ sl (nxt (length sl) p) \<longrightarrow> 0 < dp sl (nxt (length sl) p) \<longrightarrow>
      occ sl p \<and> dp sl (nxt (length sl) p) \<le> dp sl p + 1)"

definition ents :: "Slot list \<Rightarrow> Slot multiset" where
  "ents sl = filter_mset (\<lambda>s. sl_value s \<noteq> kNil) (mset sl)"

lemma nxt_less: "0 < m \<Longrightarrow> nxt m p < m"
  by (simp add: nxt_def)

lemma nxt_cases: "p < m \<Longrightarrow> nxt m p = (if p + 1 = m then 0 else p + 1)"
  by (auto simp: nxt_def)

lemma dn_cases: "p < m \<Longrightarrow> h < m \<Longrightarrow> dn m p h = (if h \<le> p then p - h else p + m - h)"
  by (auto simp: dn_def mod_if)

lemma dn_less: "0 < m \<Longrightarrow> dn m p h < m"
  by (simp add: dn_def)

lemma dn_self [simp]: "p < m \<Longrightarrow> dn m p p = 0"
  by (simp add: dn_def)

lemma dn_zero: "p < m \<Longrightarrow> h < m \<Longrightarrow> dn m p h = 0 \<longleftrightarrow> p = h"
  by (auto simp: dn_cases)

lemma dn_nxt: "p < m \<Longrightarrow> h < m \<Longrightarrow> nxt m p \<noteq> h \<Longrightarrow> dn m (nxt m p) h = dn m p h + 1"
  by (auto simp: dn_cases nxt_cases)

lemma dn_nxt_wrap: "p < m \<Longrightarrow> h < m \<Longrightarrow> nxt m p = h \<Longrightarrow> dn m p h = m - 1"
  by (auto simp: dn_cases nxt_cases split: if_splits)

text \<open>The number of steps from a position to another one shrinks with each step.\<close>

lemma dn_step: "p < m \<Longrightarrow> e < m \<Longrightarrow> p \<noteq> e \<Longrightarrow> dn m e p = dn m e (nxt m p) + 1"
  by (auto simp: dn_cases nxt_cases)

lemma home_less: "0 < m \<Longrightarrow> home m s < m"
  by (simp add: home_def)

lemma dp_less: "sl \<noteq> [] \<Longrightarrow> dp sl p < length sl"
  by (simp add: dp_def dn_less)

lemma nxt_surj: "q < m \<Longrightarrow> \<exists>p < m. nxt m p = q"
  by (rule exI [of _ "if q = 0 then m - 1 else q - 1"]) (auto simp: nxt_cases)

text \<open>Every slot between the home of an entry and the entry is occupied, at least as far from its home.\<close>

lemma rh_run:
  assumes "rh sl" and "p < length sl" and "h < length sl" and "occ sl p" and "dn (length sl) p h \<le> dp sl p"
    and "q < length sl" and "dn (length sl) q h \<le> dn (length sl) p h"
  shows "occ sl q \<and> dn (length sl) q h \<le> dp sl q"
  using assms(6,7)
proof (induction "dn (length sl) p q" arbitrary: q)
  case 0
  then have "p = q" using assms(2) by (simp add: dn_zero)
  with assms show ?case by simp
next
  case (Suc k)
  let ?m = "length sl"
  have pq: "p \<noteq> q" using Suc.hyps(2) Suc.prems by auto
  have n: "nxt ?m q < ?m" using Suc.prems by (auto intro: nxt_less)
  have nh: "nxt ?m q \<noteq> h"
    using Suc.prems pq assms(2,3) dn_nxt_wrap [of q ?m h] dn_less [of ?m p h]
    by (cases "p = h") (auto simp: dn_cases split: if_splits)
  then have d: "dn ?m (nxt ?m q) h = dn ?m q h + 1"
    using Suc.prems assms(3) by (simp add: dn_nxt)
  have "dn ?m q h \<noteq> dn ?m p h"
    using pq Suc.prems assms(2,3) by (auto simp: dn_cases split: if_splits)
  with d Suc.prems have "dn ?m (nxt ?m q) h \<le> dn ?m p h" by simp
  moreover have "k = dn ?m p (nxt ?m q)"
    using Suc.hyps(2) dn_step [of q ?m p] Suc.prems pq assms(2) by simp
  ultimately have "occ sl (nxt ?m q)" "dn ?m q h + 1 \<le> dp sl (nxt ?m q)"
    using Suc.hyps(1) [of "nxt ?m q"] n d by auto
  with assms(1) Suc.prems(1) show ?case unfolding rh_def by fastforce
qed

section \<open>The loops on a well-formed table\<close>

text \<open>A table of \<open>2 ^ k\<close> slots and its mask; word arithmetic on positions becomes \<open>nxt\<close> and \<open>dn\<close>.\<close>

definition tbl :: "u32 \<Rightarrow> Slot list \<Rightarrow> bool" where
  "tbl mk sl \<longleftrightarrow> (\<exists>k. 1 \<le> k \<and> k \<le> 32 \<and> mk = mask k \<and> length sl = 2 ^ k)"

lemma tbl_length: "tbl mk sl \<Longrightarrow> 1 < length sl"
  using power_increasing [of 1 _ "2::nat"] by (force simp: tbl_def)

lemma tbl_mask: "tbl mk sl \<Longrightarrow> length sl = unat mk + 1"
proof -
  assume "tbl mk sl"
  then obtain k where k: "k \<le> 32" "mk = mask k" "length sl = 2 ^ k" by (auto simp: tbl_def)
  have "unat (mask k :: u32) = mask k"
    using k(1) by (simp add: unat_eq_nat_uint uint_mask_eq min_def nat_mask_eq)
  then show ?thesis using k by (simp add: mask_eq_exp_minus_1)
qed

lemma tbl_length_le: "tbl mk sl \<Longrightarrow> length sl \<le> 2 ^ 32"
  using power_increasing [of _ 32 "2::nat"] by (auto simp: tbl_def)

lemma tbl_update [simp]: "tbl mk (sl[i := x]) = tbl mk sl"
  by (simp add: tbl_def)

lemma tbl_succ: "tbl mk sl \<Longrightarrow> unat ((i + 1) AND mk) = nxt (length sl) (unat i)"
  by (auto simp: tbl_def nxt_def unat_succ_mask)

lemma tbl_home: "tbl mk sl \<Longrightarrow> unat (fp AND mk) = unat fp mod length sl"
  by (auto simp: tbl_def unat_and_mask)

lemma tbl_dist: "tbl mk sl \<Longrightarrow> unat (dist mk i fp) = dn (length sl) (unat i) (unat fp mod length sl)"
  by (auto simp: tbl_def dist_def dn_def unat_diff_mask)

lemma tbl_dist_at: "tbl mk sl \<Longrightarrow> unat (dist mk i (sl_fp (sl ! unat i))) = dp sl (unat i)"
  by (simp add: tbl_dist dp_def home_def)

lemma tbl_pos: "tbl mk sl \<Longrightarrow> unat ((i + 1) AND mk) < length sl"
  unfolding tbl_succ [of mk sl i] using tbl_length [of mk sl] by (intro nxt_less) auto

text \<open>Distances stay below the table size, so the 32-bit counter does not wrap.\<close>

lemma unat_inc: "tbl mk sl \<Longrightarrow> unat d + 1 < length sl \<Longrightarrow> unat (d + 1 :: u32) = unat d + 1"
  using tbl_length_le [of mk sl] by (simp add: unat_word_ariths)

lemma find_loop_hit:
  assumes "tbl mk sl" and "rh sl" and "p < length sl" and "occ sl p"
    and "sl_fp (sl ! p) = fp" and "key_of (sl_value (sl ! p)) = key"
    and uniq: "\<And>q. q < length sl \<Longrightarrow> occ sl q \<Longrightarrow> sl_fp (sl ! q) = fp \<Longrightarrow>
                 key_of (sl_value (sl ! q)) = key \<Longrightarrow> sl_value (sl ! q) = sl_value (sl ! p)"
  shows "unat i < length sl \<Longrightarrow> unat d = dn (length sl) (unat i) (home (length sl) (sl ! p)) \<Longrightarrow>
     unat d \<le> dp sl p \<Longrightarrow> find_loop mk sl key key_of fp i d = Some (sl_value (sl ! p))"
proof (induction "dn (length sl) p (unat i)" arbitrary: i d)
  case 0
  then have "unat i = p" using assms(3) by (simp add: dn_zero)
  moreover have "\<not> dist mk i (sl_fp (sl ! unat i)) < d"
    using 0 tbl_dist_at [OF assms(1), of i] \<open>unat i = p\<close> by (simp add: word_less_nat_alt)
  ultimately show ?case
    using assms(4-6) by (subst find_loop.simps) (simp add: occ_def Let_def)
next
  case (Suc n)
  let ?m = "length sl" and ?h = "home (length sl) (sl ! p)"
  have m: "0 < ?m" using assms(3) by auto
  have h: "?h < ?m" using m by (rule home_less)
  have dp: "dp sl p = dn ?m p ?h" by (simp add: dp_def)
  have o: "occ sl (unat i)" and le: "unat d \<le> dp sl (unat i)"
    using rh_run [OF assms(2,3) h assms(4) _ Suc.prems(1)] Suc.prems dp by auto
  have ne: "unat i \<noteq> p" using Suc.hyps(2) Suc.prems by auto
  then have lt: "unat d < dp sl p"
    using Suc.prems dp assms(3) h by (auto simp: dn_cases split: if_splits)
  have nh: "nxt ?m (unat i) \<noteq> ?h"
    using dn_nxt_wrap [OF Suc.prems(1) h] Suc.prems lt dn_less [OF m, of p ?h] dp by auto
  have d1: "unat (d + 1) = unat d + 1"
    using unat_inc [OF assms(1)] lt dn_less [OF m, of p ?h] dp by simp
  have "find_loop mk sl key key_of fp ((i + 1) AND mk) (d + 1) = Some (sl_value (sl ! p))"
  proof (rule Suc.hyps(1))
    show "n = dn ?m p (unat ((i + 1) AND mk))"
      using Suc.hyps(2) dn_step [OF Suc.prems(1) assms(3) ne] by (simp add: tbl_succ [OF assms(1)])
    show "unat ((i + 1) AND mk) < ?m" by (rule tbl_pos [OF assms(1)])
    show "unat (d + 1) = dn ?m (unat ((i + 1) AND mk)) ?h"
      using dn_nxt [OF Suc.prems(1) h nh] Suc.prems(2) d1 by (simp add: tbl_succ [OF assms(1)])
    show "unat (d + 1) \<le> dp sl p" using lt d1 by simp
  qed
  moreover have "\<not> dist mk i (sl_fp (sl ! unat i)) < d"
    using le by (simp add: word_less_nat_alt tbl_dist_at [OF assms(1)])
  ultimately show ?case
    using o uniq [OF Suc.prems(1) o] by (subst find_loop.simps) (auto simp: occ_def Let_def)
qed

lemma find_loop_miss:
  assumes "tbl mk sl" and "e < length sl" and "\<not> occ sl e"
    and none: "\<And>q. q < length sl \<Longrightarrow> occ sl q \<Longrightarrow> sl_fp (sl ! q) = fp \<Longrightarrow> key_of (sl_value (sl ! q)) \<noteq> key"
  shows "unat i < length sl \<Longrightarrow> find_loop mk sl key key_of fp i d = Some kNil"
proof (induction "dn (length sl) e (unat i)" arbitrary: i d)
  case 0
  then have "unat i = e" using assms(2) by (simp add: dn_zero)
  with assms(3) show ?case by (subst find_loop.simps) (simp add: occ_def)
next
  case (Suc n)
  have ne: "unat i \<noteq> e" using Suc.hyps(2) Suc.prems by auto
  have "n = dn (length sl) e (unat ((i + 1) AND mk))"
    using Suc.hyps(2) dn_step [OF Suc.prems assms(2) ne] by (simp add: tbl_succ [OF assms(1)])
  then have "find_loop mk sl key key_of fp ((i + 1) AND mk) (d + 1) = Some kNil"
    using Suc.hyps(1) tbl_pos [OF assms(1)] by blast
  then show ?case
    using none [OF Suc.prems] by (subst find_loop.simps) (auto simp: occ_def Let_def)
qed

text \<open>Insertion: the entry in hand sits at most one further from home than its predecessor.\<close>

definition carry :: "Slot list \<Rightarrow> Slot \<Rightarrow> nat \<Rightarrow> bool" where
  "carry sl cur i \<longleftrightarrow> i < length sl \<and> sl_value cur \<noteq> kNil \<and>
     (\<forall>p < length sl. nxt (length sl) p = i \<longrightarrow> 0 < dn (length sl) i (home (length sl) cur) \<longrightarrow>
        occ sl p \<and> dn (length sl) i (home (length sl) cur) \<le> dp sl p + 1)"

lemma dp_update:
  "p < length sl \<Longrightarrow> q < length sl \<Longrightarrow> dp (sl[p := x]) q = (if q = p then dn (length sl) p (home (length sl) x) else dp sl q)"
  by (auto simp: dp_def nth_list_update)

lemma occ_update:
  "p < length sl \<Longrightarrow> occ (sl[p := x]) q = (if q = p then sl_value x \<noteq> kNil else occ sl q)"
  by (auto simp: occ_def nth_list_update)

lemma ents_update:
  "p < length sl \<Longrightarrow> ents (sl[p := x]) =
     (if occ sl p then ents sl - {#sl ! p#} else ents sl) + (if sl_value x \<noteq> kNil then {#x#} else {#})"
  by (auto simp: ents_def mset_update occ_def filter_mset_add_mset filter_diff_mset)

lemma nxt_inj: "p < m \<Longrightarrow> q < m \<Longrightarrow> nxt m p = nxt m q \<Longrightarrow> p = q"
  by (auto simp: nxt_cases split: if_splits)

lemma nxt_neq: "1 < m \<Longrightarrow> p < m \<Longrightarrow> nxt m p \<noteq> p"
  by (auto simp: nxt_cases)

text \<open>Writing an entry that fits both neighbours keeps the order.\<close>

lemma rh_write:
  assumes "rh sl" and "1 < length sl" and "i < length sl" and "carry sl cur i"
    and "\<And>q. q = nxt (length sl) i \<Longrightarrow> occ sl q \<Longrightarrow> 0 < dp sl q \<Longrightarrow>
           dp sl q \<le> dn (length sl) i (home (length sl) cur) + 1"
  shows "rh (sl[i := cur])"
  unfolding rh_def
proof (intro allI impI)
  let ?m = "length sl"
  fix p
  assume p: "p < length (sl[i := cur])"
    and o: "occ (sl[i := cur]) (nxt (length (sl[i := cur])) p)"
    and d: "0 < dp (sl[i := cur]) (nxt (length (sl[i := cur])) p)"
  have n: "nxt ?m p < ?m" using p by (auto intro: nxt_less)
  have np: "nxt ?m p \<noteq> p" using nxt_neq [OF assms(2), of p] p by simp
  have "occ (sl[i := cur]) p \<and> dp (sl[i := cur]) (nxt ?m p) \<le> dp (sl[i := cur]) p + 1"
  proof (cases "nxt ?m p = i")
    case True
    then have "p \<noteq> i" using np by simp
    with True p d o assms(3,4) show ?thesis
      by (auto simp: dp_update occ_update carry_def)
  next
    case False
    with p o d n assms(3) have old: "occ sl (nxt ?m p)" "0 < dp sl (nxt ?m p)"
      by (auto simp: dp_update occ_update)
    show ?thesis
    proof (cases "p = i")
      case True
      with False old n assms(3,4) assms(5) [of "nxt ?m i"] show ?thesis
        by (auto simp: dp_update occ_update carry_def)
    next
      case pi: False
      with False old p n assms(1,3) show ?thesis
        by (auto simp: dp_update occ_update rh_def)
    qed
  qed
  then show "occ (sl[i := cur]) p \<and>
      dp (sl[i := cur]) (nxt (length (sl[i := cur])) p) \<le> dp (sl[i := cur]) p + 1" by simp
qed

text \<open>With an empty slot in the table, an entry in hand at an occupied slot is not a full round from home.\<close>

lemma carry_bound:
  assumes "rh sl" and "1 < length sl" and "e < length sl" and "\<not> occ sl e" and "carry sl cur i" and "occ sl i"
  shows "dn (length sl) i (home (length sl) cur) + 1 < length sl"
proof (rule ccontr)
  let ?m = "length sl" and ?h = "home (length sl) cur"
  assume "\<not> dn ?m i ?h + 1 < ?m"
  moreover have "dn ?m i ?h < ?m" using assms(2) by (intro dn_less) auto
  ultimately have full: "dn ?m i ?h = ?m - 1" by simp
  have h: "?h < ?m" using assms(2) by (intro home_less) auto
  have i: "i < ?m" using assms(5) by (simp add: carry_def)
  obtain p where p: "p < ?m" "nxt ?m p = i" using nxt_surj [OF i] by blast
  have pos: "0 < dn ?m i ?h" using full assms(2) by simp
  with p assms(5) have op: "occ sl p" "dn ?m i ?h \<le> dp sl p + 1" by (auto simp: carry_def)
  have "i \<noteq> ?h" using pos i by auto
  then have dp: "dn ?m i ?h = dn ?m p ?h + 1" using dn_nxt [OF p(1) h] p(2) by simp
  have "e \<noteq> i" using assms(4,6) by auto
  then have "dn ?m e ?h \<noteq> dn ?m i ?h"
    using assms(3) i h by (auto simp: dn_cases split: if_splits)
  moreover have "dn ?m e ?h < ?m" using assms(3) by (intro dn_less) auto
  ultimately have "dn ?m e ?h \<le> dn ?m p ?h" using full dp by linarith
  then have "occ sl e"
    using rh_run [OF assms(1) p(1) h op(1) _ assms(3)] op(2) dp by auto
  with assms(4) show False by simp
qed

lemma dp_bound:
  assumes "rh sl" and "1 < length sl" and "e < length sl" and "\<not> occ sl e" and "i < length sl" and "occ sl i"
  shows "dp sl i + 1 < length sl"
proof -
  have "carry sl (sl ! i) i"
    using assms(1,5,6) unfolding carry_def rh_def by (auto simp: occ_def dp_def)
  from carry_bound [OF assms(1-4) this assms(6)] show ?thesis by (simp add: dp_def)
qed

lemma insert_loop_ok:
  assumes "e < length sl0"
  shows "tbl mk sl \<Longrightarrow> length sl = length sl0 \<Longrightarrow> rh sl \<Longrightarrow> \<not> occ sl e \<Longrightarrow> carry sl cur (unat i) \<Longrightarrow>
     unat d = dn (length sl) (unat i) (home (length sl) cur) \<Longrightarrow>
     \<exists>sl'. insert_loop mk sl cur i d = Some sl' \<and> tbl mk sl' \<and> rh sl' \<and> length sl' = length sl \<and>
           ents sl' = add_mset cur (ents sl)"
proof (induction "dn (length sl0) e (unat i)" arbitrary: sl cur i d)
  case 0
  have i: "unat i < length sl" using 0 by (simp add: carry_def)
  then have "unat i = e" using 0 assms by (simp add: dn_zero)
  then show ?case
    using 0 i tbl_length [OF "0.prems"(1)] rh_write [OF "0.prems"(3) _ i "0.prems"(5)]
    by (subst insert_loop.simps) (auto simp: occ_def ents_update carry_def rh_def)
next
  case (Suc n)
  let ?m = "length sl" and ?i = "unat i"
  note T = Suc.prems(1)
  have m: "1 < ?m" using T by (rule tbl_length)
  have i: "?i < ?m" using Suc.prems by (simp add: carry_def)
  have ne: "?i \<noteq> e" using Suc.hyps(2) i Suc.prems(2) by auto
  have next_i: "unat ((i + 1) AND mk) = nxt ?m ?i" by (rule tbl_succ [OF T])
  have n: "n = dn (length sl0) e (unat ((i + 1) AND mk))"
    using Suc.hyps(2) dn_step [OF i, of e] ne assms Suc.prems(2) next_i by simp
  have ni: "nxt ?m ?i < ?m" using m by (intro nxt_less) auto
  show ?case
  proof (cases "occ sl ?i")
    case False
    then show ?thesis
      using Suc.prems i m rh_write [OF Suc.prems(3) m i Suc.prems(5)]
      by (subst insert_loop.simps) (auto simp: occ_def ents_update carry_def rh_def)
  next
    case True
    let ?sd = "dist mk i (sl_fp (sl ! ?i))"
    have sd: "unat ?sd = dp sl ?i" by (rule tbl_dist_at [OF T])
    have sd_bound: "dp sl ?i + 1 < ?m"
      using dp_bound [OF Suc.prems(3) m _ Suc.prems(4) i True] assms Suc.prems(2) by simp
    show ?thesis
    proof (cases "?sd < d")
      case swap: True
      let ?sl = "sl[?i := cur]" and ?cur = "sl ! ?i"
      have less: "dp sl ?i < unat d" using swap sd by (simp add: word_less_nat_alt)
      have r: "rh ?sl"
        using less Suc.prems(3,6) i True
        by (intro rh_write [OF Suc.prems(3) m i Suc.prems(5)]) (auto simp: rh_def)
      have e: "\<not> occ ?sl e" using Suc.prems(4) ne i by (simp add: occ_update)
      have sdi: "unat (?sd + 1) = dp sl ?i + 1" using unat_inc [OF T] sd sd_bound by simp
      have h: "home ?m ?cur < ?m" using m by (intro home_less) auto
      have nh: "nxt ?m ?i \<noteq> home ?m ?cur"
        using dn_nxt_wrap [OF i h] sd_bound by (auto simp: dp_def)
      have dd: "dn ?m (nxt ?m ?i) (home ?m ?cur) = dp sl ?i + 1"
        using dn_nxt [OF i h nh] by (simp add: dp_def)
      have "carry ?sl ?cur (nxt ?m ?i)"
        unfolding carry_def
        using ni True dd less Suc.prems(5,6) i
        by (auto simp: occ_def dp_update carry_def dest!: nxt_inj [OF _ i])
      then obtain sl' where "insert_loop mk ?sl ?cur ((i + 1) AND mk) (?sd + 1) = Some sl'" "tbl mk sl'" "rh sl'"
          "length sl' = ?m" "ents sl' = add_mset ?cur (ents ?sl)"
        using Suc.hyps(1) [OF n, of ?sl ?cur "?sd + 1"] T r e Suc.prems(2) sdi dd next_i by auto
      moreover have "add_mset ?cur (ents ?sl) = add_mset cur (ents sl)"
      proof -
        have "?cur \<in># ents sl" using True i by (simp add: ents_def occ_def)
        then show ?thesis using True i Suc.prems(5) by (simp add: ents_update carry_def)
      qed
      ultimately show ?thesis
        using True swap by (subst insert_loop.simps) (auto simp: occ_def Let_def)
    next
      case stay: False
      have le: "unat d \<le> dp sl ?i" using stay sd by (simp add: word_less_nat_alt)
      have dinc: "unat (d + 1) = unat d + 1" using unat_inc [OF T] le sd_bound by simp
      have h: "home ?m cur < ?m" using m by (intro home_less) auto
      have nh: "nxt ?m ?i \<noteq> home ?m cur"
        using dn_nxt_wrap [OF i h] Suc.prems(6) le sd_bound by auto
      have dd: "dn ?m (nxt ?m ?i) (home ?m cur) = unat d + 1"
        using dn_nxt [OF i h nh] Suc.prems(6) by simp
      have "carry sl cur (nxt ?m ?i)"
        unfolding carry_def using ni True dd le Suc.prems(5) i
        by (auto simp: carry_def dest!: nxt_inj [OF _ i])
      then show ?thesis
        using Suc.hyps(1) [OF n, of sl cur "d + 1"] T Suc.prems dinc dd next_i stay True
        by (subst insert_loop.simps) (auto simp: occ_def Let_def)
    qed
  qed
qed

text \<open>Backward shift: while the loop runs the hole holds a copy of the entry moved out of it.\<close>

lemma shift_loop_ok:
  assumes "e < length sl0"
  shows "tbl mk sl \<Longrightarrow> length sl = length sl0 \<Longrightarrow> rh sl \<Longrightarrow> \<not> occ sl e \<Longrightarrow> unat hole < length sl \<Longrightarrow>
     occ sl (unat hole) \<Longrightarrow> unat j = nxt (length sl) (unat hole) \<Longrightarrow>
     \<exists>sl'. shift_loop mk sl hole j = Some sl' \<and> tbl mk sl' \<and> rh sl' \<and> length sl' = length sl \<and>
           ents sl' = ents sl - {#sl ! unat hole#}"
proof (induction "dn (length sl0) e (unat hole)" arbitrary: sl hole j rule: less_induct)
  case less
  let ?m = "length sl" and ?h = "unat hole" and ?j = "unat j"
  note T = less.prems(1)
  have m: "1 < ?m" using T by (rule tbl_length)
  have j: "?j < ?m" using less.prems(7) m by (auto intro: nxt_less)
  have jh: "?j \<noteq> ?h" using nxt_neq [OF m less.prems(5)] less.prems(7) by simp
  have dj: "unat (dist mk j (sl_fp (sl ! ?j))) = dp sl ?j" by (rule tbl_dist_at [OF T])
  show ?case
  proof (cases "occ sl ?j \<and> dp sl ?j \<noteq> 0")
    case True
    let ?sl = "sl[?h := sl ! ?j]"
    have ej: "e \<noteq> ?j" "e \<noteq> ?h" using True less.prems(4,6) by auto
    have hj: "home ?m (sl ! ?j) < ?m" using m by (intro home_less) auto
    have nh: "nxt ?m ?h \<noteq> home ?m (sl ! ?j)"
      using True j less.prems(7) by (auto simp: dp_def)
    have d1: "dn ?m ?h (home ?m (sl ! ?j)) + 1 = dp sl ?j"
      using dn_nxt [OF less.prems(5) hj nh] less.prems(7) by (simp add: dp_def)
    have dh: "dp sl ?j \<le> dp sl ?h + 1"
      using less.prems(3,5,7) True unfolding rh_def by auto
    have c: "carry sl (sl ! ?j) ?h"
      unfolding carry_def
    proof (intro conjI allI impI)
      show "?h < ?m" by (rule less.prems(5))
      show "sl_value (sl ! ?j) \<noteq> kNil" using True by (simp add: occ_def)
      fix p assume p: "p < ?m" "nxt ?m p = ?h" "0 < dn ?m ?h (home ?m (sl ! ?j))"
      then have "0 < dp sl ?h" using d1 dh by simp
      with p less.prems(3,6) have "occ sl p \<and> dp sl ?h \<le> dp sl p + 1" unfolding rh_def by auto
      then show "occ sl p" "dn ?m ?h (home ?m (sl ! ?j)) \<le> dp sl p + 1" using d1 dh by auto
    qed
    have r: "rh ?sl"
      using d1 less.prems(7) by (intro rh_write [OF less.prems(3) m less.prems(5) c]) simp
    have dec: "dn (length sl0) e ?j < dn (length sl0) e ?h"
      using dn_step [OF less.prems(5), of e] assms less.prems(2,7) ej by simp
    have "\<exists>sl'. shift_loop mk ?sl j ((j + 1) AND mk) = Some sl' \<and> tbl mk sl' \<and> rh sl' \<and> length sl' = length ?sl \<and>
        ents sl' = ents ?sl - {#?sl ! ?j#}"
      using less.prems j jh True r ej T
      by (intro less.hyps [OF dec]) (auto simp: occ_update tbl_succ [OF T])
    moreover have "ents ?sl - {#?sl ! ?j#} = ents sl - {#sl ! ?h#}"
      using True less.prems(5,6) jh by (simp add: ents_update occ_def)
    moreover have "dist mk j (sl_fp (sl ! ?j)) \<noteq> 0" using True dj by auto
    ultimately show ?thesis
      using True by (subst shift_loop.simps) (auto simp: occ_def)
  next
    case False
    let ?sl = "sl[?h := (sl ! ?h)\<lparr>sl_value := kNil\<rparr>]"
    have "shift_loop mk sl hole j = Some ?sl"
      using False dj by (subst shift_loop.simps) (auto simp: occ_def unat_eq_0)
    moreover have "rh ?sl"
      unfolding rh_def
    proof (intro allI impI)
      fix p assume p: "p < length ?sl" "occ ?sl (nxt (length ?sl) p)" "0 < dp ?sl (nxt (length ?sl) p)"
      have n: "nxt ?m p < ?m" using m by (intro nxt_less) auto
      have a: "nxt ?m p \<noteq> ?h" using p less.prems(5) by (auto simp: occ_update)
      with p n less.prems(5) have b: "occ sl (nxt ?m p)" "0 < dp sl (nxt ?m p)"
        by (auto simp: occ_update dp_update)
      have "p \<noteq> ?h" using False b less.prems(7) by auto
      with a b p n less.prems(3,5) show "occ ?sl p \<and> dp ?sl (nxt (length ?sl) p) \<le> dp ?sl p + 1"
        by (auto simp: occ_update dp_update rh_def)
    qed
    moreover have "ents ?sl = ents sl - {#sl ! ?h#}"
      using less.prems(5,6) by (simp add: ents_update)
    ultimately show ?thesis using T by auto
  qed
qed

lemma seek_loop_ok:
  assumes "tbl mk sl" and "p < length sl" and "sl_value (sl ! p) = v"
    and "\<And>q. q < length sl \<Longrightarrow> sl_value (sl ! q) = v \<Longrightarrow> q = p"
  shows "unat i < length sl \<Longrightarrow> \<exists>j. seek_loop mk sl v i = Some j \<and> unat j = p"
proof (induction "dn (length sl) p (unat i)" arbitrary: i)
  case 0
  then have "unat i = p" using assms(2) by (simp add: dn_zero)
  with assms(3) show ?case by (subst seek_loop.simps) simp
next
  case (Suc n)
  have ne: "unat i \<noteq> p" using Suc.hyps(2) Suc.prems by auto
  have "n = dn (length sl) p (unat ((i + 1) AND mk))"
    using Suc.hyps(2) dn_step [OF Suc.prems assms(2) ne] by (simp add: tbl_succ [OF assms(1)])
  then have "\<exists>j. seek_loop mk sl v ((i + 1) AND mk) = Some j \<and> unat j = p"
    using Suc.hyps(1) tbl_pos [OF assms(1)] by blast
  then show ?case
    using assms(4) [OF Suc.prems] ne by (subst seek_loop.simps) auto
qed

section \<open>The interface\<close>

text \<open>
  What a client of the index relies on. The table stores no keys, so its contents are pairs of a
  fingerprint and a store slot; \<open>key_of\<close> resolves a slot to the id stored there. The laws are total
  correctness statements: on a well-formed table every loop ends.
\<close>

locale slot_index =
  fixes invar :: "'ix \<Rightarrow> bool"
    and contents :: "'ix \<Rightarrow> (u32 \<times> nat) set"
    and count :: "'ix \<Rightarrow> nat"
    and slots :: "'ix \<Rightarrow> nat"
    and fpr :: "'ix \<Rightarrow> OrderId \<Rightarrow> u32"
    and find :: "'ix \<Rightarrow> OrderId \<Rightarrow> (nat \<Rightarrow> OrderId) \<Rightarrow> nat option"
    and insert_at :: "'ix \<Rightarrow> OrderId \<Rightarrow> nat \<Rightarrow> 'ix option"
    and erase_slot :: "'ix \<Rightarrow> OrderId \<Rightarrow> nat \<Rightarrow> 'ix option"
    and erase_key :: "'ix \<Rightarrow> OrderId \<Rightarrow> (nat \<Rightarrow> OrderId) \<Rightarrow> ('ix \<times> nat) option"
  assumes slots_inj: "invar ix \<Longrightarrow> (f, v) \<in> contents ix \<Longrightarrow> (f', v) \<in> contents ix \<Longrightarrow> f = f'"
    and slot_not_nil: "invar ix \<Longrightarrow> (f, v) \<in> contents ix \<Longrightarrow> v \<noteq> kNil"
    and count_contents: "invar ix \<Longrightarrow> count ix = card (contents ix) \<and> finite (contents ix)"
    and find_hit: "invar ix \<Longrightarrow> (fpr ix k, v) \<in> contents ix \<Longrightarrow> key_of v = k \<Longrightarrow>
      (\<And>w. (fpr ix k, w) \<in> contents ix \<Longrightarrow> key_of w = k \<Longrightarrow> w = v) \<Longrightarrow> find ix k key_of = Some v"
    and find_miss: "invar ix \<Longrightarrow> (\<And>w. (fpr ix k, w) \<in> contents ix \<Longrightarrow> key_of w \<noteq> k) \<Longrightarrow>
      find ix k key_of = Some kNil"
    and insert_law: "invar ix \<Longrightarrow> count ix + 1 < slots ix \<Longrightarrow> v \<noteq> kNil \<Longrightarrow> v \<notin> snd ` contents ix \<Longrightarrow>
      \<exists>ix'. insert_at ix k v = Some ix' \<and> invar ix' \<and> slots ix' = slots ix \<and> fpr ix' = fpr ix \<and>
            contents ix' = insert (fpr ix k, v) (contents ix)"
    and erase_slot_law: "invar ix \<Longrightarrow> (fpr ix k, v) \<in> contents ix \<Longrightarrow>
      \<exists>ix'. erase_slot ix k v = Some ix' \<and> invar ix' \<and> slots ix' = slots ix \<and> fpr ix' = fpr ix \<and>
            contents ix' = contents ix - {(fpr ix k, v)}"
    and erase_key_hit: "invar ix \<Longrightarrow> (fpr ix k, v) \<in> contents ix \<Longrightarrow> key_of v = k \<Longrightarrow>
      (\<And>w. (fpr ix k, w) \<in> contents ix \<Longrightarrow> key_of w = k \<Longrightarrow> w = v) \<Longrightarrow>
      \<exists>ix'. erase_key ix k key_of = Some (ix', v) \<and> erase_slot ix k v = Some ix'"
    and erase_key_miss: "invar ix \<Longrightarrow> (\<And>w. (fpr ix k, w) \<in> contents ix \<Longrightarrow> key_of w \<noteq> k) \<Longrightarrow>
      erase_key ix k key_of = Some (ix, kNil)"
begin

text \<open>
  The view of the order book: the index represents the set \<open>L\<close> of live slots, each under the id
  \<open>idf\<close> gives it, and ids are unique.
\<close>

definition represents :: "'ix \<Rightarrow> (nat \<Rightarrow> OrderId) \<Rightarrow> nat set \<Rightarrow> bool" where
  "represents ix idf L \<longleftrightarrow> invar ix \<and> inj_on idf L \<and> contents ix = (\<lambda>s. (fpr ix (idf s), s)) ` L"

lemma represents_cong:
  "(\<And>s. s \<in> L \<Longrightarrow> idf s = idg s) \<Longrightarrow> represents ix idf L = represents ix idg L"
  by (auto simp: represents_def inj_on_def image_iff)

lemma represents_count:
  assumes "represents ix idf L"
  shows "count ix = card L" and "finite L" and "kNil \<notin> L"
proof -
  have inj: "inj_on (\<lambda>s. (fpr ix (idf s), s)) L" by (auto simp: inj_on_def)
  show "count ix = card L" "finite L"
    using assms count_contents [of ix] card_image [OF inj] finite_imageD [OF _ inj]
    by (auto simp: represents_def)
  show "kNil \<notin> L" using assms slot_not_nil [of ix _ kNil] by (auto simp: represents_def)
qed

lemma represents_find:
  assumes "represents ix idf L"
  shows "s \<in> L \<Longrightarrow> find ix (idf s) idf = Some s"
    and "k \<notin> idf ` L \<Longrightarrow> find ix k idf = Some kNil"
  using assms
  by (auto simp: represents_def inj_on_def intro!: find_hit find_miss)

lemma represents_insert:
  assumes "represents ix idf L" and "s \<notin> L" and "s \<noteq> kNil" and "k \<notin> idf ` L" and "card L + 1 < slots ix"
  shows "\<exists>ix'. insert_at ix k s = Some ix' \<and> slots ix' = slots ix \<and> represents ix' (idf(s := k)) (insert s L)"
proof -
  have "invar ix" "count ix + 1 < slots ix" "s \<notin> snd ` contents ix"
    using assms represents_count(1) [OF assms(1)] by (auto simp: represents_def)
  from insert_law [OF this(1,2) assms(3) this(3), of k] obtain ix' where
    "insert_at ix k s = Some ix'" "invar ix'" "slots ix' = slots ix" "fpr ix' = fpr ix"
    "contents ix' = insert (fpr ix k, s) (contents ix)" by blast
  then show ?thesis
    using assms by (auto simp: represents_def inj_on_def image_iff)
qed

lemma represents_erase_slot:
  assumes "represents ix idf L" and "s \<in> L"
  shows "\<exists>ix'. erase_slot ix (idf s) s = Some ix' \<and> slots ix' = slots ix \<and> represents ix' idf (L - {s})"
proof -
  have "invar ix" "(fpr ix (idf s), s) \<in> contents ix"
    using assms by (auto simp: represents_def)
  from erase_slot_law [OF this] obtain ix' where
    "erase_slot ix (idf s) s = Some ix'" "invar ix'" "slots ix' = slots ix" "fpr ix' = fpr ix"
    "contents ix' = contents ix - {(fpr ix (idf s), s)}" by blast
  then show ?thesis
    using assms by (auto simp: represents_def inj_on_def)
qed

lemma represents_erase_key:
  assumes "represents ix idf L"
  shows "s \<in> L \<Longrightarrow> \<exists>ix'. erase_key ix (idf s) idf = Some (ix', s) \<and> erase_slot ix (idf s) s = Some ix'"
    and "k \<notin> idf ` L \<Longrightarrow> erase_key ix k idf = Some (ix, kNil)"
  using assms
  by (auto simp: represents_def inj_on_def intro!: erase_key_hit erase_key_miss)

end

section \<open>The Robin Hood table provides the interface\<close>

definition vals :: "Slot list \<Rightarrow> nat list" where
  "vals sl = map sl_value (filter (\<lambda>s. sl_value s \<noteq> kNil) sl)"

definition ix_invar :: "OrderIndex \<Rightarrow> bool" where
  "ix_invar ix \<longleftrightarrow> tbl (ix_mask ix) (ix_slots ix) \<and> rh (ix_slots ix) \<and> distinct (vals (ix_slots ix)) \<and>
     ix_size ix = size (ents (ix_slots ix)) \<and> ix_size ix < length (ix_slots ix)"

definition ix_contents :: "OrderIndex \<Rightarrow> (u32 \<times> nat) set" where
  "ix_contents ix = (\<lambda>s. (sl_fp s, sl_value s)) ` set_mset (ents (ix_slots ix))"

lemma mset_vals: "mset (vals sl) = image_mset sl_value (ents sl)"
  by (simp add: vals_def ents_def)

lemma in_vals: "k < length sl \<Longrightarrow> occ sl k \<Longrightarrow> sl_value (sl ! k) \<in> set (vals sl)"
  by (auto simp: vals_def occ_def)

lemma vals_less:
  "distinct (vals sl) \<Longrightarrow> p < q \<Longrightarrow> q < length sl \<Longrightarrow> occ sl p \<Longrightarrow> occ sl q \<Longrightarrow>
   sl_value (sl ! p) \<noteq> sl_value (sl ! q)"
proof (induction sl arbitrary: p q)
  case (Cons s sl)
  obtain q' where q: "q = Suc q'" using Cons.prems(2) by (cases q) auto
  have vs: "vals (s # sl) = (if sl_value s \<noteq> kNil then sl_value s # vals sl else vals sl)"
    by (simp add: vals_def)
  have oq: "occ sl q'" "q' < length sl" using Cons.prems q by (auto simp: occ_def)
  show ?case
  proof (cases p)
    case 0
    with Cons.prems vs in_vals [OF oq(2,1)] q show ?thesis by (auto simp: occ_def)
  next
    case (Suc p')
    with Cons.prems vs q have "distinct (vals sl)" "p' < q'" "occ sl p'"
      by (auto simp: occ_def split: if_splits)
    from Cons.IH [OF this(1,2) oq(2) this(3) oq(1)] show ?thesis using Suc q by simp
  qed
qed simp

lemma vals_unique:
  "distinct (vals sl) \<Longrightarrow> p < length sl \<Longrightarrow> q < length sl \<Longrightarrow> occ sl p \<Longrightarrow>
   sl_value (sl ! p) = sl_value (sl ! q) \<Longrightarrow> p = q"
  using vals_less [of sl p q] vals_less [of sl q p] by (cases p q rule: linorder_cases) (auto simp: occ_def)

lemma contents_iff:
  "(f, v) \<in> ix_contents ix \<longleftrightarrow>
     (\<exists>p < length (ix_slots ix). occ (ix_slots ix) p \<and> sl_fp (ix_slots ix ! p) = f \<and> sl_value (ix_slots ix ! p) = v)"
  by (auto simp: ix_contents_def ents_def occ_def in_set_conv_nth image_iff)

lemma ix_has_empty:
  assumes "ix_invar ix"
  shows "\<exists>e < length (ix_slots ix). \<not> occ (ix_slots ix) e"
proof (rule ccontr)
  assume "\<not> ?thesis"
  then have "ents (ix_slots ix) = mset (ix_slots ix)"
    unfolding ents_def occ_def by (intro filter_mset_eq_conv [THEN iffD2]) (auto simp: in_set_conv_nth)
  then have "size (ents (ix_slots ix)) = length (ix_slots ix)" by simp
  with assms show False by (auto simp: ix_invar_def)
qed

lemma home_pos:
  "ix_invar ix \<Longrightarrow> unat (fp AND ix_mask ix) = unat fp mod length (ix_slots ix)"
  "ix_invar ix \<Longrightarrow> unat (fp AND ix_mask ix) < length (ix_slots ix)"
  by (auto simp: ix_invar_def tbl_home intro!: mod_less_divisor)

lemma contents_at:
  "p < length (ix_slots ix) \<Longrightarrow> occ (ix_slots ix) p \<Longrightarrow>
   (sl_fp (ix_slots ix ! p), sl_value (ix_slots ix ! p)) \<in> ix_contents ix"
  by (auto simp: contents_iff)

lemma ix_find_hit:
  assumes "ix_invar ix" and "(fingerprint ix k, v) \<in> ix_contents ix" and "key_of v = k"
    and "\<And>w. (fingerprint ix k, w) \<in> ix_contents ix \<Longrightarrow> key_of w = k \<Longrightarrow> w = v"
  shows "ix_find ix k key_of = Some v"
proof -
  from assms(2) obtain p where p: "p < length (ix_slots ix)" "occ (ix_slots ix) p"
    "sl_fp (ix_slots ix ! p) = fingerprint ix k" "sl_value (ix_slots ix ! p) = v"
    by (auto simp: contents_iff)
  have uniq: "sl_value (ix_slots ix ! q) = sl_value (ix_slots ix ! p)"
    if "q < length (ix_slots ix)" "occ (ix_slots ix) q" "sl_fp (ix_slots ix ! q) = fingerprint ix k"
      "key_of (sl_value (ix_slots ix ! q)) = k" for q
    using assms(4) [OF _ that(4)] contents_at [OF that(1,2)] that(3) p(4) by simp
  have T: "tbl (ix_mask ix) (ix_slots ix)" "rh (ix_slots ix)" using assms(1) by (auto simp: ix_invar_def)
  have d: "unat (0 :: u32) = dn (length (ix_slots ix)) (unat (fingerprint ix k AND ix_mask ix))
      (home (length (ix_slots ix)) (ix_slots ix ! p))"
    using home_pos [OF assms(1), of "fingerprint ix k"] p(3) by (simp add: home_def)
  have "find_loop (ix_mask ix) (ix_slots ix) k key_of (fingerprint ix k) (fingerprint ix k AND ix_mask ix) 0 =
      Some (sl_value (ix_slots ix ! p))"
    by (rule find_loop_hit [OF T p(1,2,3) _ uniq home_pos(2) [OF assms(1)] d]) (use p assms(3) in auto)
  then show ?thesis using p by (simp add: ix_find_def Let_def)
qed

lemma ix_find_miss:
  assumes "ix_invar ix" and "\<And>w. (fingerprint ix k, w) \<in> ix_contents ix \<Longrightarrow> key_of w \<noteq> k"
  shows "ix_find ix k key_of = Some kNil"
proof -
  obtain e where "e < length (ix_slots ix)" "\<not> occ (ix_slots ix) e"
    using ix_has_empty [OF assms(1)] by blast
  moreover have "tbl (ix_mask ix) (ix_slots ix)" using assms(1) by (simp add: ix_invar_def)
  moreover have "key_of (sl_value (ix_slots ix ! q)) \<noteq> k"
    if "q < length (ix_slots ix)" "occ (ix_slots ix) q" "sl_fp (ix_slots ix ! q) = fingerprint ix k" for q
    using assms(2) contents_at [OF that(1,2)] that(3) by auto
  ultimately show ?thesis
    unfolding ix_find_def Let_def using home_pos(2) [OF assms(1)]
    by (intro find_loop_miss [where e = e]) auto
qed

lemma ix_insert_law:
  assumes "ix_invar ix" and "ix_size ix + 1 < slot_count ix" and "v \<noteq> kNil" and "v \<notin> snd ` ix_contents ix"
  shows "\<exists>ix'. ix_insert ix k v = Some ix' \<and> ix_invar ix' \<and> slot_count ix' = slot_count ix \<and>
     fingerprint ix' = fingerprint ix \<and> ix_contents ix' = insert (fingerprint ix k, v) (ix_contents ix)"
proof -
  let ?sl = "ix_slots ix" and ?fp = "fingerprint ix k"
  let ?cur = "\<lparr>sl_fp = ?fp, sl_value = v\<rparr>"
  have T: "tbl (ix_mask ix) ?sl" "rh ?sl" using assms(1) by (auto simp: ix_invar_def)
  have len: "length ?sl = slot_count ix"
    using T by (simp add: slot_count_def tbl_mask)
  obtain e where e: "e < length ?sl" "\<not> occ ?sl e" using ix_has_empty [OF assms(1)] by blast
  have c: "carry ?sl ?cur (unat (?fp AND ix_mask ix))"
    using home_pos [OF assms(1), of ?fp] assms(3) by (auto simp: carry_def home_def dn_self)
  have d: "unat (0 :: u32) = dn (length ?sl) (unat (?fp AND ix_mask ix)) (home (length ?sl) ?cur)"
    using home_pos [OF assms(1), of ?fp] by (simp add: home_def dn_self)
  from insert_loop_ok [OF e(1) T(1) refl T(2) e(2) c d] obtain sl' where
    sl': "insert_loop (ix_mask ix) ?sl ?cur (?fp AND ix_mask ix) 0 = Some sl'" "tbl (ix_mask ix) sl'" "rh sl'"
      "length sl' = length ?sl" "ents sl' = add_mset ?cur (ents ?sl)" by blast
  let ?ix = "ix\<lparr>ix_slots := sl', ix_size := ix_size ix + 1\<rparr>"
  have "mset (vals sl') = mset (v # vals ?sl)" by (simp add: mset_vals sl')
  moreover have "v \<notin> set (vals ?sl)"
    using assms(4) by (auto simp: vals_def ix_contents_def ents_def image_iff)
  ultimately have "distinct (vals sl')"
    using assms(1) mset_eq_imp_distinct_iff by (fastforce simp: ix_invar_def)
  then have "ix_invar ?ix" using assms sl' len by (simp add: ix_invar_def)
  then show ?thesis
    using sl' by (intro exI [of _ ?ix])
      (auto simp: ix_insert_def Let_def slot_count_def fingerprint_def fun_eq_iff ix_contents_def)
qed

lemma remove_at_ok:
  assumes "ix_invar ix" and "unat i < length (ix_slots ix)" and "occ (ix_slots ix) (unat i)"
  shows "\<exists>ix'. remove_at ix i = Some ix' \<and> ix_invar ix' \<and> slot_count ix' = slot_count ix \<and>
     fingerprint ix' = fingerprint ix \<and>
     ix_contents ix' = ix_contents ix - {(sl_fp (ix_slots ix ! unat i), sl_value (ix_slots ix ! unat i))}"
proof -
  let ?sl = "ix_slots ix" and ?s = "ix_slots ix ! unat i"
  have T: "tbl (ix_mask ix) ?sl" "rh ?sl" using assms(1) by (auto simp: ix_invar_def)
  obtain e where e: "e < length ?sl" "\<not> occ ?sl e" using ix_has_empty [OF assms(1)] by blast
  from shift_loop_ok [OF e(1) T(1) refl T(2) e(2) assms(2,3) tbl_succ [OF T(1)]] obtain sl' where
    sl': "shift_loop (ix_mask ix) ?sl i ((i + 1) AND ix_mask ix) = Some sl'" "tbl (ix_mask ix) sl'" "rh sl'"
      "length sl' = length ?sl" "ents sl' = ents ?sl - {#?s#}" by blast
  have s: "?s \<in># ents ?sl" using assms(2,3) by (simp add: ents_def occ_def)
  then have add: "ents ?sl = add_mset ?s (ents sl')" using sl'(5) by simp
  have "mset (vals ?sl) = mset (sl_value ?s # vals sl')" by (simp add: mset_vals add)
  then have d: "distinct (sl_value ?s # vals sl')"
    using assms(1) mset_eq_imp_distinct_iff by (fastforce simp: ix_invar_def)
  let ?ix = "ix\<lparr>ix_slots := sl', ix_size := ix_size ix - 1\<rparr>"
  have "size (ents ?sl) = size (ents sl') + 1" using add by simp
  then have "ix_invar ?ix" using assms(1) sl'(2,3,4) d by (simp add: ix_invar_def)
  moreover have "sl_value ?s \<notin> sl_value ` set_mset (ents sl')"
    using d mset_vals [of sl'] by (metis distinct.simps(2) set_image_mset set_mset_mset)
  then have "ix_contents ?ix = ix_contents ix - {(sl_fp ?s, sl_value ?s)}"
    using add by (auto simp: ix_contents_def image_iff)
  ultimately show ?thesis
    using sl' by (intro exI [of _ ?ix]) (auto simp: remove_at_def slot_count_def fingerprint_def fun_eq_iff)
qed

lemma ix_seek:
  assumes "ix_invar ix" and "(fingerprint ix k, v) \<in> ix_contents ix"
  shows "\<exists>i. seek_loop (ix_mask ix) (ix_slots ix) v (fingerprint ix k AND ix_mask ix) = Some i \<and>
     unat i < length (ix_slots ix) \<and> occ (ix_slots ix) (unat i) \<and>
     sl_fp (ix_slots ix ! unat i) = fingerprint ix k \<and> sl_value (ix_slots ix ! unat i) = v"
proof -
  from assms(2) obtain p where p: "p < length (ix_slots ix)" "occ (ix_slots ix) p"
    "sl_fp (ix_slots ix ! p) = fingerprint ix k" "sl_value (ix_slots ix ! p) = v"
    by (auto simp: contents_iff)
  have "\<exists>j. seek_loop (ix_mask ix) (ix_slots ix) v (fingerprint ix k AND ix_mask ix) = Some j \<and> unat j = p"
  proof (rule seek_loop_ok [OF _ p(1,4)])
    show "tbl (ix_mask ix) (ix_slots ix)" using assms(1) by (simp add: ix_invar_def)
    show "unat (fingerprint ix k AND ix_mask ix) < length (ix_slots ix)" by (rule home_pos(2) [OF assms(1)])
    fix q assume "q < length (ix_slots ix)" "sl_value (ix_slots ix ! q) = v"
    then show "q = p" using vals_unique [of "ix_slots ix" p q] p assms(1) by (simp add: ix_invar_def)
  qed
  with p show ?thesis by auto
qed

lemma ix_erase_known_law:
  assumes "ix_invar ix" and "(fingerprint ix k, v) \<in> ix_contents ix"
  shows "\<exists>ix'. ix_erase_known ix k v = Some ix' \<and> ix_invar ix' \<and> slot_count ix' = slot_count ix \<and>
     fingerprint ix' = fingerprint ix \<and> ix_contents ix' = ix_contents ix - {(fingerprint ix k, v)}"
proof -
  from ix_seek [OF assms] obtain i where i:
    "seek_loop (ix_mask ix) (ix_slots ix) v (fingerprint ix k AND ix_mask ix) = Some i"
    "unat i < length (ix_slots ix)" "occ (ix_slots ix) (unat i)"
    "sl_fp (ix_slots ix ! unat i) = fingerprint ix k" "sl_value (ix_slots ix ! unat i) = v" by blast
  from remove_at_ok [OF assms(1) i(2,3)] i show ?thesis by (simp add: ix_erase_known_def Let_def)
qed

lemma erase_loop_find:
  assumes ret: "find_loop (ix_mask ix) (ix_slots ix) k key_of fp i d = Some v" and v: "v \<noteq> kNil"
    and i: "unat i < length (ix_slots ix)" and T: "tbl (ix_mask ix) (ix_slots ix)"
  shows "\<exists>j. unat j < length (ix_slots ix) \<and> sl_value (ix_slots ix ! unat j) = v \<and>
       erase_loop ix k key_of fp i d = do { ix' \<leftarrow> remove_at ix j; Some (ix', v) }"
proof -
  let ?P = "\<lambda>mk sl ky kf f i d r. mk = ix_mask ix \<longrightarrow> sl = ix_slots ix \<longrightarrow> ky = k \<longrightarrow> kf = key_of \<longrightarrow>
    f = fp \<longrightarrow> r \<noteq> kNil \<longrightarrow> unat i < length sl \<longrightarrow>
    (\<exists>j. unat j < length sl \<and> sl_value (sl ! unat j) = r \<and>
       erase_loop ix ky kf f i d = do { ix' \<leftarrow> remove_at ix j; Some (ix', r) })"
  have "?P (ix_mask ix) (ix_slots ix) k key_of fp i d v"
  proof (rule find_loop.raw_induct [where P = ?P, OF _ ret], intro impI)
    fix F mk sl ky kf f i d r
    assume IH: "\<And>mk sl ky kf f i d r. F mk sl ky kf f i d = Some r \<Longrightarrow> ?P mk sl ky kf f i d r"
      and eq: "(let s = sl ! unat i
         in if sl_value s = kNil \<or> dist mk i (sl_fp s) < d then Some kNil
            else if sl_fp s = f \<and> kf (sl_value s) = ky then Some (sl_value s)
                 else F mk sl ky kf f (i + 1 AND mk) (d + 1)) = Some r"
      and c: "mk = ix_mask ix" "sl = ix_slots ix" "ky = k" "kf = key_of" "f = fp" "r \<noteq> kNil" "unat i < length sl"
    have p: "unat (i + 1 AND mk) < length sl" using tbl_pos [OF T] c by simp
    show "\<exists>j. unat j < length sl \<and> sl_value (sl ! unat j) = r \<and>
       erase_loop ix ky kf f i d = do { ix' \<leftarrow> remove_at ix j; Some (ix', r) }"
      using eq IH [of mk sl ky kf f "i + 1 AND mk" "d + 1" r] c p
      by (subst erase_loop.simps) (auto simp: Let_def split: if_splits)
  qed
  with v i show ?thesis by blast
qed

lemma erase_loop_miss:
  assumes ret: "find_loop (ix_mask ix) (ix_slots ix) k key_of fp i d = Some kNil"
    and none: "\<And>s. s \<in> set (ix_slots ix) \<Longrightarrow> sl_value s \<noteq> kNil \<Longrightarrow> \<not> (sl_fp s = fp \<and> key_of (sl_value s) = k)"
    and i: "unat i < length (ix_slots ix)" and T: "tbl (ix_mask ix) (ix_slots ix)"
  shows "erase_loop ix k key_of fp i d = Some (ix, kNil)"
proof -
  let ?P = "\<lambda>mk sl ky kf f i d r. mk = ix_mask ix \<longrightarrow> sl = ix_slots ix \<longrightarrow> ky = k \<longrightarrow> kf = key_of \<longrightarrow>
    f = fp \<longrightarrow> r = kNil \<longrightarrow> unat i < length sl \<longrightarrow> erase_loop ix ky kf f i d = Some (ix, kNil)"
  have "?P (ix_mask ix) (ix_slots ix) k key_of fp i d kNil"
  proof (rule find_loop.raw_induct [where P = ?P, OF _ ret], intro impI)
    fix F mk sl ky kf f i d r
    assume IH: "\<And>mk sl ky kf f i d r. F mk sl ky kf f i d = Some r \<Longrightarrow> ?P mk sl ky kf f i d r"
      and eq: "(let s = sl ! unat i
         in if sl_value s = kNil \<or> dist mk i (sl_fp s) < d then Some kNil
            else if sl_fp s = f \<and> kf (sl_value s) = ky then Some (sl_value s)
                 else F mk sl ky kf f (i + 1 AND mk) (d + 1)) = Some r"
      and c: "mk = ix_mask ix" "sl = ix_slots ix" "ky = k" "kf = key_of" "f = fp" "r = kNil" "unat i < length sl"
    have p: "unat (i + 1 AND mk) < length sl" using tbl_pos [OF T] c by simp
    show "erase_loop ix ky kf f i d = Some (ix, kNil)"
      using eq IH [of mk sl ky kf f "i + 1 AND mk" "d + 1" r] c p none [of "sl ! unat i"]
      by (subst erase_loop.simps) (auto simp: Let_def split: if_splits)
  qed
  with i show ?thesis by blast
qed

lemma ix_erase_hit:
  assumes "ix_invar ix" and "(fingerprint ix k, v) \<in> ix_contents ix" and "key_of v = k"
    and "\<And>w. (fingerprint ix k, w) \<in> ix_contents ix \<Longrightarrow> key_of w = k \<Longrightarrow> w = v"
  shows "\<exists>ix'. ix_erase ix k key_of = Some (ix', v) \<and> ix_erase_known ix k v = Some ix'"
proof -
  have T: "tbl (ix_mask ix) (ix_slots ix)" using assms(1) by (simp add: ix_invar_def)
  have v: "v \<noteq> kNil" using assms(2) by (auto simp: contents_iff occ_def)
  have "find_loop (ix_mask ix) (ix_slots ix) k key_of (fingerprint ix k) (fingerprint ix k AND ix_mask ix) 0 = Some v"
    using ix_find_hit [where key_of = key_of, OF assms(1-3)] assms(4) by (simp add: ix_find_def Let_def)
  from erase_loop_find [OF this v home_pos(2) [OF assms(1)] T] obtain j where
    j: "unat j < length (ix_slots ix)" "sl_value (ix_slots ix ! unat j) = v"
      "ix_erase ix k key_of = do { ix' \<leftarrow> remove_at ix j; Some (ix', v) }"
    by (auto simp: ix_erase_def Let_def)
  from ix_seek [OF assms(1,2)] obtain i where
    i: "seek_loop (ix_mask ix) (ix_slots ix) v (fingerprint ix k AND ix_mask ix) = Some i"
      "unat i < length (ix_slots ix)" "occ (ix_slots ix) (unat i)" "sl_value (ix_slots ix ! unat i) = v" by blast
  have "unat i = unat j"
    using vals_unique [OF _ i(2) j(1) i(3)] i(4) j(2) assms(1) by (simp add: ix_invar_def)
  then have "i = j" by (rule unsigned_word_eqI)
  with i j remove_at_ok [OF assms(1) i(2,3)] show ?thesis
    by (auto simp: ix_erase_known_def Let_def)
qed

lemma ix_erase_miss:
  assumes "ix_invar ix" and "\<And>w. (fingerprint ix k, w) \<in> ix_contents ix \<Longrightarrow> key_of w \<noteq> k"
  shows "ix_erase ix k key_of = Some (ix, kNil)"
proof -
  have T: "tbl (ix_mask ix) (ix_slots ix)" using assms(1) by (simp add: ix_invar_def)
  have "find_loop (ix_mask ix) (ix_slots ix) k key_of (fingerprint ix k) (fingerprint ix k AND ix_mask ix) 0 = Some kNil"
    using ix_find_miss [where key_of = key_of, OF assms(1)] assms(2) by (simp add: ix_find_def Let_def)
  moreover have "\<not> (sl_fp s = fingerprint ix k \<and> key_of (sl_value s) = k)"
    if "s \<in> set (ix_slots ix)" "sl_value s \<noteq> kNil" for s
  proof -
    from that have "(sl_fp s, sl_value s) \<in> ix_contents ix" by (auto simp: ix_contents_def ents_def)
    with assms(2) [of "sl_value s"] show ?thesis by auto
  qed
  ultimately show ?thesis
    using home_pos(2) [OF assms(1)] T by (simp add: ix_erase_def Let_def erase_loop_miss)
qed

lemma ix_count:
  assumes "ix_invar ix"
  shows "ix_size ix = card (ix_contents ix) \<and> finite (ix_contents ix)"
proof
  let ?E = "ents (ix_slots ix)"
  have d: "distinct (vals (ix_slots ix))" using assms by (simp add: ix_invar_def)
  have "ix_size ix = length (vals (ix_slots ix))"
    using assms mset_vals [of "ix_slots ix"] by (simp add: ix_invar_def flip: size_mset)
  also have "\<dots> = card (set (vals (ix_slots ix)))" using d by (simp add: distinct_card)
  also have "set (vals (ix_slots ix)) = snd ` ix_contents ix"
    by (auto simp: vals_def ix_contents_def ents_def image_iff)
  also have "card \<dots> = card (ix_contents ix)"
  proof (rule card_image, rule inj_onI)
    fix x y assume "x \<in> ix_contents ix" "y \<in> ix_contents ix" "snd x = snd y"
    then show "x = y"
      using vals_unique [OF d] by (cases x; cases y) (auto simp: contents_iff)
  qed
  finally show "ix_size ix = card (ix_contents ix)" .
  show "finite (ix_contents ix)" by (simp add: ix_contents_def)
qed

interpretation oi: slot_index ix_invar ix_contents ix_size slot_count fingerprint
  ix_find ix_insert ix_erase_known ix_erase
proof unfold_locales
  fix ix f v f' assume "ix_invar ix" "(f, v) \<in> ix_contents ix" "(f', v) \<in> ix_contents ix"
  then show "f = f'" using vals_unique [of "ix_slots ix"] by (auto simp: contents_iff ix_invar_def)
next
  fix ix f v assume "ix_invar ix" "(f, v) \<in> ix_contents ix"
  then show "v \<noteq> kNil" by (auto simp: contents_iff occ_def)
qed (fact ix_count ix_find_hit ix_find_miss ix_insert_law ix_erase_known_law ix_erase_hit ix_erase_miss)+

section \<open>The constructor and the self-check\<close>

text \<open>
  For every capacity a book can have, the constructor makes a well-formed empty table with more
  slots than entries can ever be inserted, so insertion always finds room.
\<close>

lemma bit_ceil_power: "\<exists>k. bit_ceil n = 2 ^ k \<and> k = bit_width (n - 1)"
  by (simp add: bit_ceil_def)

lemma bit_width_le: "n < 2 ^ k \<Longrightarrow> bit_width n \<le> k"
proof (induction n arbitrary: k rule: bit_width.induct)
  case (1 n)
  show ?case
  proof (cases "n = 0")
    case False
    then obtain j where k: "k = Suc j" using 1 by (cases k) auto
    with 1 have "n div 2 < 2 ^ j" by simp
    with 1 False k show ?thesis by (simp add: bit_width.simps [of n])
  qed (simp add: bit_width.simps)
qed

lemma ix_init_shape:
  assumes "n < kNil"
  shows "\<exists>k. 4 \<le> k \<and> k \<le> 32 \<and> ix_mask (ix_init h n) = mask k \<and>
    ix_slots (ix_init h n) = replicate (2 ^ k) \<lparr>sl_fp = 0, sl_value = kNil\<rparr> \<and> n + 1 < 2 ^ k"
proof -
  let ?b = "bit_width (max (2 * n) 16 - 1)" and ?k = "min 32 (bit_width (max (2 * n) 16 - 1))"
  have ge: "max (2 * n) 16 \<le> 2 ^ ?b" using bit_ceil_ge [of "max (2 * n) 16"] by (simp add: bit_ceil_def)
  have "4 \<le> ?b"
  proof (rule ccontr)
    assume "\<not> 4 \<le> ?b"
    then have "2 ^ ?b \<le> (2::nat) ^ 3" by (intro power_increasing) auto
    with ge show False by simp
  qed
  then have k4: "4 \<le> ?k" by simp
  have mk: "(word_of_nat (2 ^ ?b - 1) :: u32) = mask ?k"
  proof -
    have "(word_of_nat (2 ^ ?b - 1) :: u32) = word_of_nat (mask ?b)" by (simp add: mask_eq_exp_minus_1)
    also have "\<dots> = mask ?b" by (simp add: of_nat_mask_eq)
    also have "\<dots> = mask ?k" by (rule bit_word_eqI) (auto simp: bit_mask_iff)
    finally show ?thesis .
  qed
  have len: "unat (mask ?k :: u32) + 1 = 2 ^ ?k"
    using tbl_mask [of "mask ?k" "replicate (2 ^ ?k) undefined"] k4 by (simp add: tbl_def)
  have "n + 1 < 2 ^ ?k"
  proof (cases "?b \<le> 32")
    case True
    then have "max (2 * n) 16 \<le> 2 ^ ?k" using ge by (simp add: min_def)
    then show ?thesis by (simp add: max_def split: if_splits)
  next
    case False
    then have "?k = 32" by simp
    then show ?thesis using assms by (simp add: kNil_def)
  qed
  with k4 mk len show ?thesis
    by (intro exI [of _ ?k]) (simp add: ix_init_def Let_def bit_ceil_def flip: replicate_Suc)
qed

lemma ix_init_ok:
  assumes "n < kNil"
  shows "oi.represents (ix_init h n) idf {}" and "n + 1 < slot_count (ix_init h n)" and "ix_hash (ix_init h n) = h"
proof -
  obtain k where k: "4 \<le> k" "k \<le> 32" "ix_mask (ix_init h n) = mask k"
    "ix_slots (ix_init h n) = replicate (2 ^ k) \<lparr>sl_fp = 0, sl_value = kNil\<rparr>" "n + 1 < 2 ^ k"
    using ix_init_shape [OF assms] by blast
  have T: "tbl (ix_mask (ix_init h n)) (ix_slots (ix_init h n))" using k by (auto simp: tbl_def)
  have e: "ents (ix_slots (ix_init h n)) = {#}" using k by (simp add: ents_def)
  have v: "vals (ix_slots (ix_init h n)) = []" using k by (simp add: vals_def)
  have r: "rh (ix_slots (ix_init h n))" using k by (auto simp: rh_def occ_def nxt_less)
  have "ix_invar (ix_init h n)"
    using T e v r k by (simp add: ix_invar_def) (simp add: ix_init_def Let_def)
  then show "oi.represents (ix_init h n) idf {}"
    using e by (simp add: oi.represents_def ix_contents_def)
  show "n + 1 < slot_count (ix_init h n)" using tbl_mask [OF T] k by (simp add: slot_count_def)
  show "ix_hash (ix_init h n) = h" by (simp add: ix_init_def Let_def)
qed

text \<open>The self-check of the class accepts every well-formed table.\<close>

lemma robin_hood_ordered_invar:
  assumes "ix_invar ix"
  shows "robin_hood_ordered ix"
  unfolding robin_hood_ordered_def Let_def list_all_iff
proof (intro ballI)
  fix n assume n: "n \<in> set [0..<slot_count ix]"
  let ?m = "length (ix_slots ix)" and ?i = "word_of_nat n :: u32"
  let ?p = "(?i - 1) AND ix_mask ix"
  have T: "tbl (ix_mask ix) (ix_slots ix)" and r: "rh (ix_slots ix)" using assms by (auto simp: ix_invar_def)
  have m: "slot_count ix = ?m" using tbl_mask [OF T] by (simp add: slot_count_def)
  have i: "unat ?i = n" using n m tbl_length_le [OF T] by (simp add: unat_of_nat take_bit_eq_mod)
  obtain k where k: "k \<le> 32" "ix_mask ix = mask k" "?m = 2 ^ k" using T by (auto simp: tbl_def)
  have "unat ?p = (n + ?m - 1 mod ?m) mod ?m"
    using unat_diff_mask [of k "?i" 1] k i by simp
  also have "\<dots> = (if n = 0 then ?m - 1 else n - 1)"
    using n m tbl_length [OF T] by (auto simp: mod_if)
  finally have p: "unat ?p < ?m" "nxt ?m (unat ?p) = n"
    using n m tbl_length [OF T] by (auto simp: nxt_cases)
  show "sl_value (ix_slots ix ! unat ?i) = kNil \<or>
    \<not> (0 < dist (ix_mask ix) ?i (sl_fp (ix_slots ix ! unat ?i)) \<and>
       (sl_value (ix_slots ix ! unat ?p) = kNil \<or>
        dist (ix_mask ix) ?p (sl_fp (ix_slots ix ! unat ?p)) + 1
         < dist (ix_mask ix) ?i (sl_fp (ix_slots ix ! unat ?i))))"
  proof (cases "occ (ix_slots ix) n \<and> 0 < dp (ix_slots ix) n")
    case True
    then have o: "occ (ix_slots ix) (unat ?p)" "dp (ix_slots ix) n \<le> dp (ix_slots ix) (unat ?p) + 1"
      using r p unfolding rh_def by auto
    obtain e where e: "e < ?m" "\<not> occ (ix_slots ix) e" using ix_has_empty [OF assms] by blast
    have "unat (dist (ix_mask ix) ?p (sl_fp (ix_slots ix ! unat ?p)) + 1) = dp (ix_slots ix) (unat ?p) + 1"
      using unat_inc [OF T] tbl_dist_at [OF T, of ?p] dp_bound [OF r tbl_length [OF T] e p(1) o(1)] by simp
    with o show ?thesis
      using tbl_dist_at [OF T, of ?i] i by (simp add: occ_def word_less_nat_alt)
  next
    case False
    then show ?thesis
      using tbl_dist_at [OF T, of ?i] i by (auto simp: occ_def word_less_nat_alt)
  qed
qed

end
