(* ===== verification/Price_Bitmap.thy ===== *)
theory Price_Bitmap
  imports Common
begin

text \<open>
  \<^verbatim>\<open>include/exsim/price_bitmap.hpp\<close>: the two-level occupancy bitset over the price ladder. The index
  type is \<^verbatim>\<open>std::int32_t\<close>, at most \<open>2 ^ 30\<close> levels, so indices are integers.
\<close>

section \<open>Model\<close>

record PriceBitmap =
  pb_n :: int
  pb_words :: "u64 list"
  pb_summary :: "u64 list"

text \<open>The constructor throws \<^verbatim>\<open>std::invalid_argument\<close> (here \<open>None\<close>) for a bad size.\<close>

definition pb_init :: "nat \<Rightarrow> PriceBitmap option" where
  "pb_init n =
     (if n = 0 \<or> n mod 64 \<noteq> 0 \<or> n > 2 ^ 30 then None
      else Some \<lparr>pb_n = int n, pb_words = replicate (n div 64) 0,
                 pb_summary = replicate ((n div 64 + 63) div 64) 0\<rparr>)"

definition pbit :: "nat \<Rightarrow> u64" where
  "pbit i = push_bit (i mod 64) 1"

definition pb_set :: "int \<Rightarrow> PriceBitmap \<Rightarrow> PriceBitmap" where
  "pb_set i b =
     (let u = nat i; w = u div 64; s = u div 4096 in
      b\<lparr>pb_words := (pb_words b)[w := pb_words b ! w OR pbit u],
        pb_summary := (pb_summary b)[s := pb_summary b ! s OR pbit w]\<rparr>)"

definition pb_clear :: "int \<Rightarrow> PriceBitmap \<Rightarrow> PriceBitmap" where
  "pb_clear i b =
     (let u = nat i; w = u div 64;
          ws = (pb_words b)[w := pb_words b ! w AND NOT (pbit u)];
          b' = b\<lparr>pb_words := ws\<rparr>
      in if ws ! w = 0
         then b'\<lparr>pb_summary := (pb_summary b)[w div 64 := pb_summary b ! (w div 64) AND NOT (pbit w)]\<rparr>
         else b')"

definition pb_test :: "PriceBitmap \<Rightarrow> int \<Rightarrow> bool" where
  "pb_test b i = (let u = nat i in pb_words b ! (u div 64) AND pbit u \<noteq> 0)"

text \<open>The masks \<^verbatim>\<open>~0ull << k\<close> and \<^verbatim>\<open>~0ull >> (63 - k)\<close>.\<close>

definition ones_from :: "nat \<Rightarrow> u64" where
  "ones_from k = push_bit k (NOT 0)"

definition ones_upto :: "nat \<Rightarrow> u64" where
  "ones_upto k = drop_bit (63 - k) (NOT 0)"

text \<open>The summary scans of the two searches: \<open>None\<close> when the scan runs off the end.\<close>

function scan_up :: "u64 list \<Rightarrow> nat \<Rightarrow> u64 \<Rightarrow> (nat \<times> u64) option" where
  "scan_up summ s sm =
     (if sm \<noteq> 0 then Some (s, sm)
      else if s + 1 \<ge> length summ then None
      else scan_up summ (s + 1) (summ ! (s + 1)))"
  by pat_completeness auto
termination by (relation "measure (\<lambda>(summ, s, _). length summ - s)") auto

fun scan_down :: "u64 list \<Rightarrow> nat \<Rightarrow> u64 \<Rightarrow> (nat \<times> u64) option" where
  "scan_down summ s sm =
     (if sm \<noteq> 0 then Some (s, sm)
      else case s of 0 \<Rightarrow> None | Suc s' \<Rightarrow> scan_down summ s' (summ ! s'))"

declare scan_up.simps [simp del] scan_down.simps [simp del]

definition pb_find_next :: "PriceBitmap \<Rightarrow> int \<Rightarrow> int" where
  "pb_find_next b i0 =
     (if i0 \<ge> pb_n b then pb_n b
      else
        (let u = nat (if i0 < 0 then 0 else i0);
             w = u div 64;
             m = pb_words b ! w AND ones_from (u mod 64)
         in if m \<noteq> 0 then int (push_bit 6 w OR countr_zero m)
            else
              (let w = w + 1 in
               if w \<ge> length (pb_words b) then pb_n b
               else case scan_up (pb_summary b) (w div 64)
                           (pb_summary b ! (w div 64) AND ones_from (w mod 64)) of
                      None \<Rightarrow> pb_n b
                    | Some (s, sm) \<Rightarrow>
                       (let w = push_bit 6 s OR countr_zero sm
                        in int (push_bit 6 w OR countr_zero (pb_words b ! w))))))"

definition pb_find_prev :: "PriceBitmap \<Rightarrow> int \<Rightarrow> int" where
  "pb_find_prev b i0 =
     (if i0 < 0 then - 1
      else
        (let u = nat (if i0 \<ge> pb_n b then pb_n b - 1 else i0);
             w = u div 64;
             m = pb_words b ! w AND ones_upto (u mod 64)
         in if m \<noteq> 0 then int (push_bit 6 w OR (63 - countl_zero m))
            else if w = 0 then - 1
            else
              (let w = w - 1 in
               case scan_down (pb_summary b) (w div 64)
                      (pb_summary b ! (w div 64) AND ones_upto (w mod 64)) of
                 None \<Rightarrow> - 1
               | Some (s, sm) \<Rightarrow>
                  (let w = push_bit 6 s OR (63 - countl_zero sm)
                   in int (push_bit 6 w OR (63 - countl_zero (pb_words b ! w)))))))"

section \<open>Bits of words\<close>

lemma or_low: "c < 64 \<Longrightarrow> push_bit 6 w OR c = 64 * w + (c::nat)"
proof -
  assume c: "c < 64"
  have "take_bit 6 c = c" using c by (simp add: take_bit_nat_eq_self_iff)
  then have "\<not> bit c n" if "6 \<le> n" for n using that by (metis bit_take_bit_iff not_le)
  then have "push_bit 6 w + c = push_bit 6 w OR c"
    by (intro disjunctive_add_eq_or) (auto simp: bit_eq_iff bit_simps not_le)
  then show ?thesis by (simp add: push_bit_eq_mult)
qed

lemma bit_pbit: "bit (pbit u) j = (j = u mod 64)"
  by (auto simp: pbit_def bit_simps)

lemma and_pbit: "(w AND pbit u \<noteq> 0) = bit w (u mod 64)"
proof
  assume "w AND pbit u \<noteq> 0"
  then obtain j where "bit (w AND pbit u) j" using word_bit_exists by blast
  then show "bit w (u mod 64)" by (auto simp: bit_and_iff bit_pbit)
next
  assume "bit w (u mod 64)"
  then have "bit (w AND pbit u) (u mod 64)" by (simp add: bit_and_iff bit_pbit)
  then show "w AND pbit u \<noteq> 0" by auto
qed

lemma bit_mask_up: "bit (w AND ones_from k) j = (bit w j \<and> k \<le> j)"
  using bit_imp_le_length [of w j] by (auto simp: ones_from_def bit_simps)

lemma bit_mask_down: "k < 64 \<Longrightarrow> bit (w AND ones_upto k) j = (bit w j \<and> j \<le> k)"
  using bit_imp_le_length [of w j] by (auto simp: ones_upto_def bit_simps)

section \<open>Well-formedness and the searches\<close>

definition pm :: "u64 list \<Rightarrow> nat \<Rightarrow> bool" where
  "pm ws u \<longleftrightarrow> u < 64 * length ws \<and> bit (ws ! (u div 64)) (u mod 64)"

definition pb_invar :: "PriceBitmap \<Rightarrow> bool" where
  "pb_invar b \<longleftrightarrow> pb_n b = 64 * int (length (pb_words b)) \<and> 0 < length (pb_words b) \<and>
     length (pb_summary b) = (length (pb_words b) + 63) div 64 \<and>
     (\<forall>w. pm (pb_summary b) w = (w < length (pb_words b) \<and> pb_words b ! w \<noteq> 0))"

lemma div_mod_64: "(64 * w + c) div 64 = w" "(64 * w + c) mod 64 = c" if "c < 64" for w c :: nat
  using that by auto

lemma pm_at: "w < length ws \<Longrightarrow> c < 64 \<Longrightarrow> pm ws (64 * w + c) = bit (ws ! w) c"
  by (auto simp: pm_def)

lemma pm_word: "pm ws u \<Longrightarrow> u div 64 < length ws \<and> ws ! (u div 64) \<noteq> 0"
  by (auto simp: pm_def)

lemma div_64_between: "64 * w + c \<le> j \<Longrightarrow> j < 64 * w + d \<Longrightarrow> d \<le> 64 \<Longrightarrow> j div 64 = w \<and> c \<le> j mod 64 \<and> j mod 64 < d"
  for w c d j :: nat
  using div_mod_64 [of "j - 64 * w" w] by simp linarith

text \<open>The least set bit at or above a position, in the word at hand and in the words above it.\<close>

lemma first_in_word:
  assumes "ws ! w AND ones_from c \<noteq> (0 :: u64)" and "w < length ws" and "c < 64"
  defines "r \<equiv> push_bit 6 w OR countr_zero (ws ! w AND ones_from c)"
  shows "64 * w + c \<le> r" "pm ws r" "r < 64 * Suc w" "\<And>j. 64 * w + c \<le> j \<Longrightarrow> j < r \<Longrightarrow> \<not> pm ws j"
proof -
  let ?z = "countr_zero (ws ! w AND ones_from c)"
  note z = countr_zero_props [OF assms(1)]
  have z64: "?z < 64" using z(1) by simp
  have r: "r = 64 * w + ?z" unfolding r_def by (rule or_low [OF z64])
  have b: "bit (ws ! w) ?z" "c \<le> ?z" using z(2) by (simp_all add: bit_mask_up)
  show "64 * w + c \<le> r" "r < 64 * Suc w" using r b z64 by auto
  show "pm ws r" using r b z64 assms(2) by (simp add: pm_at)
  fix j assume j: "64 * w + c \<le> j" "j < r"
  then have jd: "j div 64 = w" "c \<le> j mod 64" "j mod 64 < ?z"
    using div_64_between [of w c j ?z] r z64 by auto
  then show "\<not> pm ws j" using z(3) [of "j mod 64"] by (auto simp: pm_def bit_mask_up)
qed

lemma none_in_word:
  assumes "ws ! w AND ones_from c = (0 :: u64)" and "64 * w + c \<le> j" and "j < 64 * Suc w"
  shows "\<not> pm ws j"
proof -
  have "j div 64 = w" "c \<le> j mod 64" using div_64_between [of w c j 64] assms(2,3) by auto
  moreover have "\<not> bit (ws ! w AND ones_from c) (j mod 64)" using assms(1) by simp
  ultimately show ?thesis by (auto simp: pm_def bit_mask_up)
qed

lemma scan_up_Some:
  "scan_up ws s sm = Some (s', sm') \<Longrightarrow> s < length ws \<Longrightarrow>
   s' < length ws \<and> sm' \<noteq> 0 \<and> (s' = s \<and> sm' = sm \<or> s < s' \<and> sm' = ws ! s' \<and> sm = 0 \<and> (\<forall>t. s < t \<longrightarrow> t < s' \<longrightarrow> ws ! t = 0))"
proof (induction ws s sm rule: scan_up.induct)
  case (1 ws s sm)
  show ?case
  proof (cases "sm \<noteq> 0 \<or> s + 1 \<ge> length ws")
    case True
    with 1 show ?thesis by (auto simp: scan_up.simps [of ws s sm] split: if_splits)
  next
    case False
    with 1 show ?thesis by (auto simp: scan_up.simps [of ws s sm] less_Suc_eq_le Suc_le_eq)
      (metis Suc_lessI less_Suc_eq_le nat_less_le)+
  qed
qed

lemma scan_up_None:
  "scan_up ws s sm = None \<Longrightarrow> sm = 0 \<and> (\<forall>t. s < t \<longrightarrow> t < length ws \<longrightarrow> ws ! t = 0)"
proof (induction ws s sm rule: scan_up.induct)
  case (1 ws s sm)
  show ?case
  proof (cases "sm \<noteq> 0 \<or> s + 1 \<ge> length ws")
    case True
    with 1 show ?thesis by (auto simp: scan_up.simps [of ws s sm] split: if_splits)
  next
    case False
    with 1 show ?thesis by (auto simp: scan_up.simps [of ws s sm]) (metis Suc_lessI)
  qed
qed

lemma first_from_summary:
  assumes "w < 64 * length ws"
  shows "case scan_up ws (w div 64) (ws ! (w div 64) AND ones_from (w mod 64)) of
      None \<Rightarrow> (\<forall>j \<ge> w. \<not> pm ws j)
    | Some (s, sm) \<Rightarrow> (let r = push_bit 6 s OR countr_zero sm in w \<le> r \<and> pm ws r \<and> (\<forall>j. w \<le> j \<longrightarrow> j < r \<longrightarrow> \<not> pm ws j))"
proof -
  let ?s = "w div 64" and ?c = "w mod 64"
  let ?sm = "ws ! ?s AND ones_from ?c"
  have s: "?s < length ws" using assms by (simp add: less_mult_imp_div_less mult.commute)
  have w: "64 * ?s + ?c = w" by simp
  have zero: "\<not> pm ws j" if "ws ! (j div 64) = 0" for j using that by (auto simp: pm_def)
  show ?thesis
  proof (cases "scan_up ws ?s ?sm")
    case None
    note N = scan_up_None [OF None]
    have "\<not> pm ws j" if "w \<le> j" for j
    proof (cases "j < 64 * Suc ?s")
      case True
      with none_in_word [of ws ?s ?c j] N that w show ?thesis by simp
    next
      case False
      then have "Suc ?s \<le> j div 64" by (metis less_eq_div_iff_mult_less_eq mult.commute not_less zero_less_numeral)
      with N zero [of j] show ?thesis by (auto simp: pm_def less_mult_imp_div_less mult.commute)
    qed
    with None show ?thesis by simp
  next
    case (Some p)
    obtain s' sm' where p: "p = (s', sm')" by (cases p)
    note S = scan_up_Some [OF Some [unfolded p] s]
    let ?r = "push_bit 6 s' OR countr_zero sm'"
    have "w \<le> ?r \<and> pm ws ?r \<and> (\<forall>j. w \<le> j \<longrightarrow> j < ?r \<longrightarrow> \<not> pm ws j)"
    proof (cases "s' = s' \<and> s' = ?s \<and> sm' = ?sm")
      case True
      with S first_in_word [of ws ?s ?c] s w show ?thesis by auto
    next
      case False
      with S have S': "?s < s'" "sm' = ws ! s'" "?sm = 0" "\<forall>t. ?s < t \<longrightarrow> t < s' \<longrightarrow> ws ! t = 0" "s' < length ws" "sm' \<noteq> 0"
        by auto
      have nz: "ws ! s' AND ones_from 0 = ws ! s'" by (simp add: ones_from_def)
      note F = first_in_word [of ws s' 0, unfolded nz]
      have r: "64 * s' \<le> ?r" "pm ws ?r" "?r < 64 * Suc s'" using F(1-3) S' by auto
      have "\<not> pm ws j" if j: "w \<le> j" "j < ?r" for j
      proof -
        consider "j < 64 * Suc ?s" | "64 * Suc ?s \<le> j" "j < 64 * s'" | "64 * s' \<le> j" by linarith
        then show ?thesis
        proof cases
          case 1
          with none_in_word [of ws ?s ?c j] S'(3) j w show ?thesis by simp
        next
          case 2
          then have "Suc ?s \<le> j div 64" "j div 64 < s'"
            by (metis less_eq_div_iff_mult_less_eq mult.commute zero_less_numeral,
                simp add: less_mult_imp_div_less mult.commute)
          with S'(4) zero [of j] show ?thesis by simp
        next
          case 3
          with F(4) j S' show ?thesis by auto
        qed
      qed
      moreover have "w \<le> ?r" using r S'(1) w by linarith
      ultimately show ?thesis using r by blast
    qed
    with Some p show ?thesis by (simp add: Let_def)
  qed
qed

text \<open>The greatest set bit at or below a position, symmetrically.\<close>

lemma last_in_word:
  assumes "ws ! w AND ones_upto c \<noteq> (0 :: u64)" and "w < length ws" and "c < 64"
  defines "r \<equiv> push_bit 6 w OR (63 - countl_zero (ws ! w AND ones_upto c))"
  shows "r \<le> 64 * w + c" "pm ws r" "64 * w \<le> r" "\<And>j. r < j \<Longrightarrow> j \<le> 64 * w + c \<Longrightarrow> \<not> pm ws j"
proof -
  let ?z = "63 - countl_zero (ws ! w AND ones_upto c)"
  note z = countl_zero_props [OF assms(1)]
  have z64: "?z < 64" by simp
  have r: "r = 64 * w + ?z" unfolding r_def by (rule or_low [OF z64])
  have b: "bit (ws ! w) ?z" "?z \<le> c" using z(2) assms(3) by (auto simp: bit_mask_down)
  show "r \<le> 64 * w + c" "64 * w \<le> r" using r b by auto
  show "pm ws r" using r b z64 assms(2) by (simp add: pm_at)
  fix j assume j: "r < j" "j \<le> 64 * w + c"
  then have "j div 64 = w" "j mod 64 < Suc c" "Suc ?z \<le> j mod 64"
    using div_64_between [of w "Suc ?z" j "Suc c"] r assms(3) by auto
  then show "\<not> pm ws j" using z(3) [of "j mod 64"] assms(3) by (auto simp: pm_def bit_mask_down)
qed

lemma none_in_word_down:
  assumes "ws ! w AND ones_upto c = (0 :: u64)" and "c < 64" and "64 * w \<le> j" and "j \<le> 64 * w + c"
  shows "\<not> pm ws j"
proof -
  have "j div 64 = w" "j mod 64 < Suc c" using div_64_between [of w 0 j "Suc c"] assms(2-4) by auto
  moreover have "\<not> bit (ws ! w AND ones_upto c) (j mod 64)" using assms(1) by simp
  ultimately show ?thesis using assms(2) by (auto simp: pm_def bit_mask_down)
qed

lemma scan_down_Some:
  "scan_down ws s sm = Some (s', sm') \<Longrightarrow> sm' \<noteq> 0 \<and>
   (s' = s \<and> sm' = sm \<or> s' < s \<and> sm' = ws ! s' \<and> sm = 0 \<and> (\<forall>t. s' < t \<longrightarrow> t < s \<longrightarrow> ws ! t = 0))"
proof (induction s arbitrary: sm)
  case 0
  then show ?case by (auto simp: scan_down.simps split: if_splits)
next
  case (Suc s)
  show ?case
  proof (cases "sm = 0")
    case True
    then have "scan_down ws s (ws ! s) = Some (s', sm')"
      using Suc.prems by (simp add: scan_down.simps [of ws "Suc s"])
    from Suc.IH [OF this] True show ?thesis by (auto simp: less_Suc_eq)
  next
    case False
    with Suc.prems show ?thesis by (simp add: scan_down.simps [of ws "Suc s"])
  qed
qed

lemma scan_down_None: "scan_down ws s sm = None \<Longrightarrow> sm = 0 \<and> (\<forall>t < s. ws ! t = 0)"
proof (induction s arbitrary: sm)
  case 0
  then show ?case by (auto simp: scan_down.simps split: if_splits)
next
  case (Suc s)
  then have "sm = 0" "scan_down ws s (ws ! s) = None"
    by (auto simp: scan_down.simps [of ws "Suc s"] split: if_splits)
  with Suc.IH show ?case by (auto simp: less_Suc_eq)
qed

lemma last_from_summary:
  assumes "w < 64 * length ws"
  shows "case scan_down ws (w div 64) (ws ! (w div 64) AND ones_upto (w mod 64)) of
      None \<Rightarrow> (\<forall>j \<le> w. \<not> pm ws j)
    | Some (s, sm) \<Rightarrow>
       (let r = push_bit 6 s OR (63 - countl_zero sm) in r \<le> w \<and> pm ws r \<and> (\<forall>j. r < j \<longrightarrow> j \<le> w \<longrightarrow> \<not> pm ws j))"
proof -
  let ?s = "w div 64" and ?c = "w mod 64"
  let ?sm = "ws ! ?s AND ones_upto ?c"
  have s: "?s < length ws" using assms by (simp add: less_mult_imp_div_less mult.commute)
  have w: "64 * ?s + ?c = w" by simp
  have c: "?c < 64" by simp
  have zero: "\<not> pm ws j" if "ws ! (j div 64) = 0" for j using that by (auto simp: pm_def)
  have below: "j div 64 < k" if "j < 64 * k" for j k :: nat
    using that by (simp add: less_mult_imp_div_less mult.commute)
  have above: "k \<le> j div 64" if "64 * k \<le> j" for j k :: nat
    using that by (metis less_eq_div_iff_mult_less_eq mult.commute zero_less_numeral)
  show ?thesis
  proof (cases "scan_down ws ?s ?sm")
    case None
    note N = scan_down_None [OF None]
    have "\<not> pm ws j" if "j \<le> w" for j
    proof (cases "j < 64 * ?s")
      case True
      with N below [of j ?s] zero [of j] show ?thesis by simp
    next
      case False
      with none_in_word_down [of ws ?s ?c j] N that w c show ?thesis by simp
    qed
    with None show ?thesis by simp
  next
    case (Some p)
    obtain s' sm' where p: "p = (s', sm')" by (cases p)
    note S = scan_down_Some [OF Some [unfolded p]]
    let ?r = "push_bit 6 s' OR (63 - countl_zero sm')"
    have "?r \<le> w \<and> pm ws ?r \<and> (\<forall>j. ?r < j \<longrightarrow> j \<le> w \<longrightarrow> \<not> pm ws j)"
    proof (cases "s' = ?s \<and> sm' = ?sm")
      case True
      with S last_in_word [of ws ?s ?c] s w show ?thesis by auto
    next
      case False
      with S have S': "s' < ?s" "sm' = ws ! s'" "?sm = 0" "\<forall>t. s' < t \<longrightarrow> t < ?s \<longrightarrow> ws ! t = 0" "s' < length ws" "sm' \<noteq> 0"
        using s by auto
      have nz: "ws ! s' AND ones_upto 63 = ws ! s'" by (simp add: ones_upto_def)
      note F = last_in_word [of ws s' 63, unfolded nz]
      have r: "?r \<le> 64 * s' + 63" "pm ws ?r" using F(1,2) S' by auto
      have "\<not> pm ws j" if j: "?r < j" "j \<le> w" for j
      proof -
        consider "j \<le> 64 * s' + 63" | "64 * Suc s' \<le> j" "j < 64 * ?s" | "64 * ?s \<le> j"
          by (cases "j \<le> 64 * s' + 63"; cases "64 * ?s \<le> j") auto
        then show ?thesis
        proof cases
          case 1
          with F(4) j S' show ?thesis by auto
        next
          case 2
          with above [of "Suc s'" j] below [of j ?s] S'(4) zero [of j] show ?thesis by simp
        next
          case 3
          with none_in_word_down [of ws ?s ?c j] S'(3) j w c show ?thesis by simp
        qed
      qed
      moreover have "?r \<le> w" using r S'(1) w by linarith
      ultimately show ?thesis using r by blast
    qed
    with Some p show ?thesis by (simp add: Let_def)
  qed
qed

section \<open>The interface\<close>

text \<open>
  What the book relies on: a set of levels below \<open>size\<close> with insertion, removal and the two
  neighbour searches. The client lemmas list the members of the set in both orders.
\<close>

locale level_set =
  fixes invar :: "'b \<Rightarrow> bool"
    and size :: "'b \<Rightarrow> int"
    and test :: "'b \<Rightarrow> int \<Rightarrow> bool"
    and set_level :: "int \<Rightarrow> 'b \<Rightarrow> 'b"
    and clear_level :: "int \<Rightarrow> 'b \<Rightarrow> 'b"
    and find_next :: "'b \<Rightarrow> int \<Rightarrow> int"
    and find_prev :: "'b \<Rightarrow> int \<Rightarrow> int"
  assumes size_pos: "invar b \<Longrightarrow> 0 < size b"
    and set_law: "invar b \<Longrightarrow> 0 \<le> i \<Longrightarrow> i < size b \<Longrightarrow> invar (set_level i b) \<and> size (set_level i b) = size b \<and>
      (\<forall>j. 0 \<le> j \<longrightarrow> j < size b \<longrightarrow> test (set_level i b) j = (j = i \<or> test b j))"
    and clear_law: "invar b \<Longrightarrow> 0 \<le> i \<Longrightarrow> i < size b \<Longrightarrow> invar (clear_level i b) \<and> size (clear_level i b) = size b \<and>
      (\<forall>j. 0 \<le> j \<longrightarrow> j < size b \<longrightarrow> test (clear_level i b) j = (j \<noteq> i \<and> test b j))"
    and next_law: "invar b \<Longrightarrow> 0 \<le> i \<Longrightarrow> i \<le> size b \<Longrightarrow> r = find_next b i \<Longrightarrow>
      i \<le> r \<and> r \<le> size b \<and> (r < size b \<longrightarrow> test b r) \<and> (\<forall>j. i \<le> j \<longrightarrow> j < r \<longrightarrow> \<not> test b j)"
    and prev_law: "invar b \<Longrightarrow> - 1 \<le> i \<Longrightarrow> i < size b \<Longrightarrow> r = find_prev b i \<Longrightarrow>
      - 1 \<le> r \<and> r \<le> i \<and> (0 \<le> r \<longrightarrow> test b r) \<and> (\<forall>j. r < j \<longrightarrow> j \<le> i \<longrightarrow> \<not> test b j)"
begin

lemma next_eq:
  assumes "invar b" and "0 \<le> i" and "i \<le> r" and "r \<le> size b" and "r < size b \<longrightarrow> test b r"
    and "\<And>j. i \<le> j \<Longrightarrow> j < r \<Longrightarrow> \<not> test b j"
  shows "find_next b i = r"
  using next_law [OF assms(1,2) _ refl] assms(3-6)
  by (cases "find_next b i" r rule: linorder_cases) force+

lemma prev_eq:
  assumes "invar b" and "i < size b" and "- 1 \<le> r" and "r \<le> i" and "0 \<le> r \<longrightarrow> test b r"
    and "\<And>j. r < j \<Longrightarrow> j \<le> i \<Longrightarrow> \<not> test b j"
  shows "find_prev b i = r"
  using prev_law [OF assms(1) _ assms(2) refl] assms(3-6)
  by (cases "find_prev b i" r rule: linorder_cases) force+

end

section \<open>The bitmap provides the interface\<close>

lemma div_mod_inj: "(u::nat) div 64 = v div 64 \<Longrightarrow> u mod 64 = v mod 64 \<Longrightarrow> u = v"
  by (metis div_mult_mod_eq)

lemma div_64_less: "(u::nat) < 64 * n \<Longrightarrow> u div 64 < n"
  by (simp add: less_mult_imp_div_less mult.commute)

lemma pm_or:
  assumes "u < 64 * length ws"
  shows "pm (ws[u div 64 := ws ! (u div 64) OR pbit u]) v = (v = u \<or> pm ws v)"
proof (cases "v div 64 = u div 64")
  case True
  then have "(v mod 64 = u mod 64) = (v = u)" using div_mod_inj by blast
  then show ?thesis
    unfolding pm_def length_list_update True nth_list_update_eq [OF div_64_less [OF assms]] bit_or_iff bit_pbit using assms by blast
next
  case False
  then show ?thesis by (auto simp: pm_def)
qed

lemma bit_andnot_pbit: "bit (w AND NOT (pbit u)) k = (bit w k \<and> k \<noteq> u mod 64)"
  using bit_imp_le_length [of w k] by (auto simp: bit_and_iff bit_not_iff bit_pbit)

lemma pm_andnot:
  assumes "u < 64 * length ws"
  shows "pm (ws[u div 64 := ws ! (u div 64) AND NOT (pbit u)]) v = (v \<noteq> u \<and> pm ws v)"
proof (cases "v div 64 = u div 64")
  case True
  then have "(v mod 64 = u mod 64) = (v = u)" using div_mod_inj by blast
  then show ?thesis
    unfolding pm_def length_list_update True nth_list_update_eq [OF div_64_less [OF assms]] bit_andnot_pbit using assms by blast
next
  case False
  then show ?thesis by (auto simp: pm_def)
qed

lemma pb_pos: "pb_invar b \<Longrightarrow> 0 \<le> i \<Longrightarrow> i < pb_n b \<Longrightarrow> nat i < 64 * length (pb_words b)"
  by (simp add: pb_invar_def)

lemma pb_test_pm:
  assumes "pb_invar b" and "0 \<le> i" and "i < pb_n b"
  shows "pb_test b i = pm (pb_words b) (nat i)"
  using pb_pos [OF assms] by (simp add: pb_test_def pm_def and_pbit Let_def)

lemma word_index: "pb_invar b \<Longrightarrow> 0 \<le> i \<Longrightarrow> i < pb_n b \<Longrightarrow> nat i div 64 < length (pb_words b)"
  using pb_pos div_64_less by blast

lemma summary_index: "pb_invar b \<Longrightarrow> w < length (pb_words b) \<Longrightarrow> w < 64 * length (pb_summary b)"
proof -
  assume a: "pb_invar b" "w < length (pb_words b)"
  then have "length (pb_summary b) = (length (pb_words b) + 63) div 64" by (simp add: pb_invar_def)
  moreover have "length (pb_words b) + 63 < 64 * ((length (pb_words b) + 63) div 64) + 64" by presburger
  ultimately show ?thesis using a(2) by linarith
qed

lemma div_4096: "(u::nat) div 4096 = u div 64 div 64"
  using div_mult2_eq [of u 64 64] by simp

lemma pb_set_ok:
  assumes "pb_invar b" and "0 \<le> i" and "i < pb_n b"
  shows "pb_invar (pb_set i b)" and "pb_n (pb_set i b) = pb_n b"
    and "pm (pb_words (pb_set i b)) u = (u = nat i \<or> pm (pb_words b) u)"
proof -
  let ?u = "nat i" and ?w = "nat i div 64" and ?ws = "pb_words b" and ?ss = "pb_summary b"
  have w: "?w < length ?ws" by (rule word_index [OF assms])
  have s: "?w < 64 * length ?ss" by (rule summary_index [OF assms(1) w])
  show "pb_n (pb_set i b) = pb_n b" by (simp add: pb_set_def Let_def)
  show "pm (pb_words (pb_set i b)) u = (u = nat i \<or> pm (pb_words b) u)"
    using pm_or [OF pb_pos [OF assms], of u] by (simp add: pb_set_def Let_def)
  have nz: "?ws ! ?w OR pbit ?u \<noteq> 0"
    by (metis bit_0_eq bit_or_iff bit_pbit bot_apply bot_bool_def)
  have "pm (pb_summary (pb_set i b)) v = (v < length ?ws \<and> ?ws[?w := ?ws ! ?w OR pbit ?u] ! v \<noteq> 0)" for v
  proof -
    have "pm (pb_summary (pb_set i b)) v = (v = ?w \<or> pm ?ss v)"
      using pm_or [OF s, of v] by (simp add: pb_set_def Let_def div_4096)
    also have "pm ?ss v = (v < length ?ws \<and> ?ws ! v \<noteq> 0)" using assms(1) by (simp add: pb_invar_def)
    finally show ?thesis using nz w by (auto simp: nth_list_update)
  qed
  then show "pb_invar (pb_set i b)"
    using assms(1) by (simp add: pb_invar_def) (simp add: pb_set_def Let_def)
qed

lemma pb_clear_ok:
  assumes "pb_invar b" and "0 \<le> i" and "i < pb_n b"
  shows "pb_invar (pb_clear i b)" and "pb_n (pb_clear i b) = pb_n b"
    and "pm (pb_words (pb_clear i b)) u = (u \<noteq> nat i \<and> pm (pb_words b) u)"
proof -
  let ?u = "nat i" and ?w = "nat i div 64" and ?ws = "pb_words b" and ?ss = "pb_summary b"
  let ?x = "?ws ! ?w AND NOT (pbit ?u)"
  have w: "?w < length ?ws" by (rule word_index [OF assms])
  have s: "?w < 64 * length ?ss" by (rule summary_index [OF assms(1) w])
  show "pb_n (pb_clear i b) = pb_n b" by (simp add: pb_clear_def Let_def)
  have ws: "pb_words (pb_clear i b) = ?ws[?w := ?x]" by (simp add: pb_clear_def Let_def)
  show "pm (pb_words (pb_clear i b)) u = (u \<noteq> nat i \<and> pm (pb_words b) u)"
    using pm_andnot [OF pb_pos [OF assms], of u] by (simp add: ws)
  have "?ws ! ?w \<noteq> 0" if "?x \<noteq> 0" using that by auto
  then have "pm (pb_summary (pb_clear i b)) v = (v < length ?ws \<and> ?ws[?w := ?x] ! v \<noteq> 0)" for v
  proof -
    assume nz: "?x \<noteq> 0 \<Longrightarrow> ?ws ! ?w \<noteq> 0"
    have "pm (pb_summary (pb_clear i b)) v = (if ?x = 0 then v \<noteq> ?w \<and> pm ?ss v else pm ?ss v)"
      using pm_andnot [OF s, of v] w by (simp add: pb_clear_def Let_def)
    also have "pm ?ss v = (v < length ?ws \<and> ?ws ! v \<noteq> 0)" using assms(1) by (simp add: pb_invar_def)
    finally show ?thesis using nz w by (auto simp: nth_list_update)
  qed
  then show "pb_invar (pb_clear i b)"
    using assms(1) by (simp add: pb_invar_def ws) (simp add: pb_clear_def Let_def)
qed

lemma word_zero_none: "ws ! (j div 64) = (0::u64) \<Longrightarrow> \<not> pm ws j"
  by (auto simp: pm_def)

text \<open>The searches, on natural numbers.\<close>

lemma pb_find_next_ok:
  assumes "pb_invar b" and "0 \<le> i" and "i < pb_n b"
  shows "\<exists>r. pb_find_next b i = int r \<and> nat i \<le> r \<and> (\<forall>j. nat i \<le> j \<longrightarrow> j < r \<longrightarrow> \<not> pm (pb_words b) j) \<and>
    (pm (pb_words b) r \<or> int r = pb_n b)"
proof -
  let ?u = "nat i" and ?w = "nat i div 64" and ?ws = "pb_words b" and ?ss = "pb_summary b"
  let ?m = "?ws ! ?w AND ones_from (?u mod 64)"
  have w: "?w < length ?ws" by (rule word_index [OF assms])
  have u: "64 * ?w + ?u mod 64 = ?u" by simp
  have n: "pb_n b = int (64 * length ?ws)" using assms(1) by (simp add: pb_invar_def)
  show ?thesis
  proof (cases "?m = 0")
    case False
    have "pb_find_next b i = int (push_bit 6 ?w OR countr_zero ?m)"
      using False assms(2,3) by (simp add: pb_find_next_def Let_def)
    with first_in_word [OF False w] u show ?thesis by (metis mod_less_divisor zero_less_numeral)
  next
    case True
    have here: "\<not> pm ?ws j" if "?u \<le> j" "j < 64 * Suc ?w" for j
      using none_in_word [OF True, of j] that u by simp
    have beyond: "\<not> pm ?ws j" if "64 * length ?ws \<le> j" for j using that by (simp add: pm_def)
    show ?thesis
    proof (cases "?w + 1 < length ?ws")
      case False
      then have "Suc ?w = length ?ws" using w by simp
      with here n True False assms show ?thesis
        by (intro exI [of _ "64 * length ?ws"]) (auto simp: pb_find_next_def Let_def intro: less_imp_le pb_pos)
    next
      case more: True
      let ?v = "?w + 1"
      let ?scan = "scan_up ?ss (?v div 64) (?ss ! (?v div 64) AND ones_from (?v mod 64))"
      have sp: "pm ?ss v = (v < length ?ws \<and> ?ws ! v \<noteq> 0)" for v using assms(1) by (simp add: pb_invar_def)
      note F = first_from_summary [OF summary_index [OF assms(1) more]]
      show ?thesis
      proof (cases ?scan)
        case None
        have "\<not> pm ?ws j" if "?u \<le> j" for j
        proof (cases "j < 64 * Suc ?w")
          case False
          then have "?v \<le> j div 64"
            by (metis Suc_eq_plus1 less_eq_div_iff_mult_less_eq mult.commute not_less zero_less_numeral)
          with F None have "\<not> pm ?ss (j div 64)" by simp
          then show ?thesis using sp pm_word by blast
        qed (use here that in blast)
        with None True more n assms pb_pos [OF assms] show ?thesis
          by (intro exI [of _ "64 * length ?ws"]) (auto simp: pb_find_next_def Let_def)
      next
        case (Some p)
        obtain s sm where p: "p = (s, sm)" by (cases p)
        let ?x = "push_bit 6 s OR countr_zero sm"
        have x: "?v \<le> ?x" "?x < length ?ws" "?ws ! ?x \<noteq> 0" "\<And>v. ?v \<le> v \<Longrightarrow> v < ?x \<Longrightarrow> \<not> pm ?ss v"
          using F Some p sp by (auto simp: Let_def)
        have nz: "?ws ! ?x AND ones_from 0 = ?ws ! ?x" by (simp add: ones_from_def)
        note G = first_in_word [of ?ws ?x 0, unfolded nz, OF x(3,2)]
        let ?r = "push_bit 6 ?x OR countr_zero (?ws ! ?x)"
        have r: "64 * ?x \<le> ?r" "pm ?ws ?r" "\<And>j. 64 * ?x \<le> j \<Longrightarrow> j < ?r \<Longrightarrow> \<not> pm ?ws j" using G by auto
        have "\<not> pm ?ws j" if j: "?u \<le> j" "j < ?r" for j
        proof -
          consider "j < 64 * Suc ?w" | "64 * Suc ?w \<le> j" "j < 64 * ?x" | "64 * ?x \<le> j" by linarith
          then show ?thesis
          proof cases
            case 1
            with here j show ?thesis by blast
          next
            case 2
            then have "?v \<le> j div 64" "j div 64 < ?x"
              by (metis Suc_eq_plus1 less_eq_div_iff_mult_less_eq mult.commute zero_less_numeral) (rule div_64_less [OF 2(2)])
            with x(4) have "\<not> pm ?ss (j div 64)" by blast
            then show ?thesis using sp pm_word by blast
          next
            case 3
            with r j show ?thesis by blast
          qed
        qed
        moreover have "?u \<le> ?r" using r(1) x(1) u by linarith
        moreover have "pb_find_next b i = int ?r"
          using True more Some p assms by (simp add: pb_find_next_def Let_def)
        ultimately show ?thesis using r(2) by blast
      qed
    qed
  qed
qed

lemma pb_find_prev_ok:
  assumes "pb_invar b" and "0 \<le> i" and "i < pb_n b"
  shows "(pb_find_prev b i = - 1 \<and> (\<forall>j. j \<le> nat i \<longrightarrow> \<not> pm (pb_words b) j)) \<or>
    (\<exists>r. pb_find_prev b i = int r \<and> r \<le> nat i \<and> pm (pb_words b) r \<and>
       (\<forall>j. r < j \<longrightarrow> j \<le> nat i \<longrightarrow> \<not> pm (pb_words b) j))"
proof -
  let ?u = "nat i" and ?w = "nat i div 64" and ?ws = "pb_words b" and ?ss = "pb_summary b"
  let ?m = "?ws ! ?w AND ones_upto (?u mod 64)"
  have w: "?w < length ?ws" by (rule word_index [OF assms])
  have u: "64 * ?w + ?u mod 64 = ?u" by simp
  have c: "?u mod 64 < 64" by simp
  show ?thesis
  proof (cases "?m = 0")
    case False
    have "pb_find_prev b i = int (push_bit 6 ?w OR (63 - countl_zero ?m))"
      using False assms(2,3) by (simp add: pb_find_prev_def Let_def)
    with last_in_word [OF False w c] u show ?thesis by metis
  next
    case True
    have here: "\<not> pm ?ws j" if "64 * ?w \<le> j" "j \<le> ?u" for j
      using none_in_word_down [OF True c that(1)] that u by simp
    show ?thesis
    proof (cases "?w = 0")
      case z: True
      have "pb_find_prev b i = - 1" using True z assms(2,3) by (simp add: pb_find_prev_def Let_def)
      with here z show ?thesis by simp
    next
      case False
      let ?v = "?w - 1"
      let ?scan = "scan_down ?ss (?v div 64) (?ss ! (?v div 64) AND ones_upto (?v mod 64))"
      have v: "?v < length ?ws" using w by simp
      have sp: "pm ?ss v = (v < length ?ws \<and> ?ws ! v \<noteq> 0)" for v using assms(1) by (simp add: pb_invar_def)
      note F = last_from_summary [OF summary_index [OF assms(1) v]]
      show ?thesis
      proof (cases ?scan)
        case None
        have "\<not> pm ?ws j" if "j \<le> ?u" for j
        proof (cases "j < 64 * ?w")
          case lt: True
          then have "j div 64 \<le> ?v" using div_64_less [OF lt] False by simp
          with F None have "\<not> pm ?ss (j div 64)" by simp
          then show ?thesis using sp pm_word by blast
        qed (use here that in simp)
        moreover have "pb_find_prev b i = - 1"
          using True False None assms(2,3) by (simp add: pb_find_prev_def Let_def)
        ultimately show ?thesis by blast
      next
        case (Some p)
        obtain s sm where p: "p = (s, sm)" by (cases p)
        let ?x = "push_bit 6 s OR (63 - countl_zero sm)"
        have x: "?x \<le> ?v" "?x < length ?ws" "?ws ! ?x \<noteq> 0" "\<And>v. ?x < v \<Longrightarrow> v \<le> ?v \<Longrightarrow> \<not> pm ?ss v"
          using F Some p sp by (auto simp: Let_def)
        have nz: "?ws ! ?x AND ones_upto 63 = ?ws ! ?x" by (simp add: ones_upto_def)
        note G = last_in_word [of ?ws ?x 63, unfolded nz, OF x(3,2)]
        let ?r = "push_bit 6 ?x OR (63 - countl_zero (?ws ! ?x))"
        have r: "?r \<le> 64 * ?x + 63" "pm ?ws ?r" "\<And>j. ?r < j \<Longrightarrow> j \<le> 64 * ?x + 63 \<Longrightarrow> \<not> pm ?ws j" using G by auto
        have "\<not> pm ?ws j" if j: "?r < j" "j \<le> ?u" for j
        proof -
          consider "j \<le> 64 * ?x + 63" | "64 * Suc ?x \<le> j" "j < 64 * ?w" | "64 * ?w \<le> j"
            by (cases "j \<le> 64 * ?x + 63"; cases "64 * ?w \<le> j") auto
          then show ?thesis
          proof cases
            case 1
            with r j show ?thesis by blast
          next
            case 2
            have a: "Suc ?x \<le> j div 64"
              using 2(1) by (metis less_eq_div_iff_mult_less_eq mult.commute zero_less_numeral)
            have b: "j div 64 \<le> ?v" using div_64_less [OF 2(2)] False by simp
            from a b x(4) have "\<not> pm ?ss (j div 64)" by simp
            then show ?thesis using sp pm_word by blast
          next
            case 3
            with here j show ?thesis by blast
          qed
        qed
        moreover have "?r \<le> ?u"
        proof -
          have "64 * ?x + 63 < 64 * ?w" using x(1) False by linarith
          with r(1) u show ?thesis by linarith
        qed
        moreover have "pb_find_prev b i = int ?r"
          using True False Some p assms(2,3) by (simp add: pb_find_prev_def Let_def)
        ultimately show ?thesis using r(2) by blast
      qed
    qed
  qed
qed

interpretation pb: level_set pb_invar pb_n pb_test pb_set pb_clear pb_find_next pb_find_prev
proof unfold_locales
  fix b assume "pb_invar b" then show "0 < pb_n b" by (simp add: pb_invar_def)
next
  fix b i assume b: "pb_invar b" "0 \<le> i" "i < pb_n b"
  note S = pb_set_ok [OF b]
  show "pb_invar (pb_set i b) \<and> pb_n (pb_set i b) = pb_n b \<and>
      (\<forall>j. 0 \<le> j \<longrightarrow> j < pb_n b \<longrightarrow> pb_test (pb_set i b) j = (j = i \<or> pb_test b j))"
    using S b by (auto simp: pb_test_pm)
  note C = pb_clear_ok [OF b]
  have "pb_test (pb_clear i b) j = (j \<noteq> i \<and> pb_test b j)" if j: "0 \<le> j" "j < pb_n b" for j
  proof -
    have "pb_test (pb_clear i b) j = pm (pb_words (pb_clear i b)) (nat j)"
      using pb_test_pm [OF C(1) j(1)] C(2) j(2) by simp
    then show ?thesis using C(3) [of "nat j"] pb_test_pm [OF b(1) j] j(1) b(2) by auto
  qed
  then show "pb_invar (pb_clear i b) \<and> pb_n (pb_clear i b) = pb_n b \<and>
      (\<forall>j. 0 \<le> j \<longrightarrow> j < pb_n b \<longrightarrow> pb_test (pb_clear i b) j = (j \<noteq> i \<and> pb_test b j))"
    using C(1,2) by blast
next
  fix b i r assume b: "pb_invar b" "0 \<le> i" "i \<le> pb_n b" and r: "r = pb_find_next b i"
  show "i \<le> r \<and> r \<le> pb_n b \<and> (r < pb_n b \<longrightarrow> pb_test b r) \<and> (\<forall>j. i \<le> j \<longrightarrow> j < r \<longrightarrow> \<not> pb_test b j)"
  proof (cases "i < pb_n b")
    case True
    from pb_find_next_ok [OF b(1,2) True] obtain k where k: "r = int k" "nat i \<le> k"
      "\<forall>j. nat i \<le> j \<longrightarrow> j < k \<longrightarrow> \<not> pm (pb_words b) j" "pm (pb_words b) k \<or> int k = pb_n b"
      unfolding r by blast
    have "pb_n b = int (64 * length (pb_words b))" using b(1) by (simp add: pb_invar_def)
    then have kn: "int k \<le> pb_n b" using k(4) unfolding pm_def by linarith
    have "\<not> pb_test b j" if j: "i \<le> j" "j < r" for j
      using k(3) [rule_format, of "nat j"] pb_test_pm [OF b(1), of j] j b(2) k(1) kn by auto
    then show ?thesis using k kn b pb_test_pm [OF b(1), of r] by auto
  next
    case False
    with b r show ?thesis by (auto simp: pb_find_next_def)
  qed
next
  fix b i r assume b: "pb_invar b" "- 1 \<le> i" "i < pb_n b" and r: "r = pb_find_prev b i"
  show "- 1 \<le> r \<and> r \<le> i \<and> (0 \<le> r \<longrightarrow> pb_test b r) \<and> (\<forall>j. r < j \<longrightarrow> j \<le> i \<longrightarrow> \<not> pb_test b j)"
  proof (cases "0 \<le> i")
    case True
    have none: "\<not> pb_test b j" if "\<not> pm (pb_words b) (nat j)" "0 \<le> j" "j \<le> i" for j
      using pb_test_pm [OF b(1), of j] that b(3) by simp
    from pb_find_prev_ok [OF b(1) True b(3)] show ?thesis
    proof
      assume "pb_find_prev b i = - 1 \<and> (\<forall>j. j \<le> nat i \<longrightarrow> \<not> pm (pb_words b) j)"
      with r True none show ?thesis by auto
    next
      assume "\<exists>r. pb_find_prev b i = int r \<and> r \<le> nat i \<and> pm (pb_words b) r \<and>
         (\<forall>j. r < j \<longrightarrow> j \<le> nat i \<longrightarrow> \<not> pm (pb_words b) j)"
      then obtain k where k: "r = int k" "k \<le> nat i" "pm (pb_words b) k"
        "\<forall>j. k < j \<longrightarrow> j \<le> nat i \<longrightarrow> \<not> pm (pb_words b) j" using r by auto
      have ki: "int k \<le> i" using k(2) True by simp
      have "\<not> pb_test b j" if j: "r < j" "j \<le> i" for j
        using none [of j] k(4) [rule_format, of "nat j"] j k(1) by auto
      then show ?thesis using k ki b pb_test_pm [OF b(1), of r] by auto
    qed
  next
    case False
    with b r show ?thesis by (auto simp: pb_find_prev_def)
  qed
qed

lemma pb_init_ok:
  assumes "pb_init n = Some b"
  shows "pb_invar b" and "pb_n b = int n" and "0 \<le> j \<Longrightarrow> j < int n \<Longrightarrow> \<not> pb_test b j"
proof -
  from assms have n: "n mod 64 = 0" "0 < n" and b: "b = \<lparr>pb_n = int n, pb_words = replicate (n div 64) 0,
      pb_summary = replicate ((n div 64 + 63) div 64) 0\<rparr>"
    by (auto simp: pb_init_def split: if_splits)
  have z: "\<not> pm (replicate k 0) u" for k u
    using div_64_less [of u k] by (auto simp: pm_def)
  have "64 * (n div 64) = n" "0 < n div 64" using n by auto
  then show i: "pb_invar b" unfolding b pb_invar_def using z by simp
  show nn: "pb_n b = int n" using b by simp
  show "0 \<le> j \<Longrightarrow> j < int n \<Longrightarrow> \<not> pb_test b j"
    using pb_test_pm [OF i, of j] nn z unfolding b by simp
qed

end
