(* ===== verification/Order_Store.thy ===== *)
theory Order_Store
  imports Common
begin

text \<open>
  \<^verbatim>\<open>include/exsim/order_store.hpp\<close>: preallocated order slots with an embedded LIFO free list, in three
  interchangeable memory layouts. The accessors are what the book sees of a layout, so a layout is a
  dictionary \<open>store_ops\<close> of them; \<^verbatim>\<open>FreeListStore<Derived>\<close> is modelled once over any layout.
\<close>

section \<open>The accessors of a layout\<close>

record 'd store_ops =
  so_size :: "'d \<Rightarrow> nat"
  so_id :: "'d \<Rightarrow> nat \<Rightarrow> OrderId"
  so_qty :: "'d \<Rightarrow> nat \<Rightarrow> Qty"
  so_next :: "'d \<Rightarrow> nat \<Rightarrow> nat"
  so_prev :: "'d \<Rightarrow> nat \<Rightarrow> nat"
  so_level :: "'d \<Rightarrow> nat \<Rightarrow> nat"
  so_owner :: "'d \<Rightarrow> nat \<Rightarrow> OwnerId"
  so_side :: "'d \<Rightarrow> nat \<Rightarrow> Side"
  so_set_qty :: "nat \<Rightarrow> Qty \<Rightarrow> 'd \<Rightarrow> 'd"
  so_set_next :: "nat \<Rightarrow> nat \<Rightarrow> 'd \<Rightarrow> 'd"
  so_set_prev :: "nat \<Rightarrow> nat \<Rightarrow> 'd \<Rightarrow> 'd"
  so_init :: "nat \<Rightarrow> OrderId \<Rightarrow> Qty \<Rightarrow> nat \<Rightarrow> OwnerId \<Rightarrow> Side \<Rightarrow> u64 \<Rightarrow> 'd \<Rightarrow> 'd"
  so_zero :: "nat \<Rightarrow> 'd"

section \<open>The free list\<close>

record 'd Store =
  st_free :: nat
  st_cap :: nat
  st_live :: nat
  st_data :: 'd

definition alloc :: "'d store_ops \<Rightarrow> 'd Store \<Rightarrow> nat \<times> 'd Store" where
  "alloc ops st =
     (let s = st_free st in
      if s \<noteq> kNil then (s, st\<lparr>st_free := so_next ops (st_data st) s, st_live := st_live st + 1\<rparr>)
      else (s, st))"

definition release :: "'d store_ops \<Rightarrow> nat \<Rightarrow> 'd Store \<Rightarrow> 'd Store" where
  "release ops s st =
     st\<lparr>st_data := so_set_next ops s (st_free st) (st_data st), st_free := s, st_live := st_live st - 1\<rparr>"

text \<open>The loop of \<^verbatim>\<open>build_free_list\<close>: slot \<open>i\<close> links to \<open>i + 1\<close>, the last one to \<open>kNil\<close>.\<close>

fun link_from :: "'d store_ops \<Rightarrow> nat \<Rightarrow> nat \<Rightarrow> 'd \<Rightarrow> 'd" where
  "link_from ops cap 0 d = d"
| "link_from ops cap (Suc i) d =
     so_set_next ops i (if i + 1 < cap then i + 1 else kNil) (link_from ops cap i d)"

definition st_init :: "'d store_ops \<Rightarrow> nat \<Rightarrow> 'd Store" where
  "st_init ops cap =
     \<lparr>st_free = (if cap \<noteq> 0 then 0 else kNil), st_cap = cap, st_live = 0,
      st_data = link_from ops cap cap (so_zero ops cap)\<rparr>"

section \<open>The layouts\<close>

subsection \<open>Array of structures\<close>

record AosOrder =
  ao_id :: OrderId
  ao_ts :: u64
  ao_qty :: Qty
  ao_orig_qty :: Qty
  ao_next :: nat
  ao_prev :: nat
  ao_level :: nat
  ao_owner :: OwnerId
  ao_side :: Side
  ao_flags :: u8

definition aos_zero :: AosOrder where
  "aos_zero = \<lparr>ao_id = 0, ao_ts = 0, ao_qty = 0, ao_orig_qty = 0, ao_next = 0, ao_prev = 0,
     ao_level = 0, ao_owner = 0, ao_side = Buy, ao_flags = 0\<rparr>"

definition aos_upd :: "nat \<Rightarrow> (AosOrder \<Rightarrow> AosOrder) \<Rightarrow> AosOrder list \<Rightarrow> AosOrder list" where
  "aos_upd s f d = d[s := f (d ! s)]"

definition aos_init :: "nat \<Rightarrow> OrderId \<Rightarrow> Qty \<Rightarrow> nat \<Rightarrow> OwnerId \<Rightarrow> Side \<Rightarrow> u64 \<Rightarrow> AosOrder list \<Rightarrow> AosOrder list" where
  "aos_init s oid qty level owner side ts =
     aos_upd s (\<lambda>r. r\<lparr>ao_id := oid, ao_ts := ts, ao_qty := qty, ao_orig_qty := qty, ao_level := level,
       ao_owner := owner, ao_side := side, ao_flags := 0\<rparr>)"

definition AosStore :: "AosOrder list store_ops" where
  "AosStore =
     \<lparr>so_size = length, so_id = (\<lambda>d s. ao_id (d ! s)), so_qty = (\<lambda>d s. ao_qty (d ! s)),
      so_next = (\<lambda>d s. ao_next (d ! s)), so_prev = (\<lambda>d s. ao_prev (d ! s)),
      so_level = (\<lambda>d s. ao_level (d ! s)), so_owner = (\<lambda>d s. ao_owner (d ! s)),
      so_side = (\<lambda>d s. ao_side (d ! s)),
      so_set_qty = (\<lambda>s q. aos_upd s (ao_qty_update (\<lambda>_. q))),
      so_set_next = (\<lambda>s n. aos_upd s (ao_next_update (\<lambda>_. n))),
      so_set_prev = (\<lambda>s p. aos_upd s (ao_prev_update (\<lambda>_. p))),
      so_init = aos_init, so_zero = (\<lambda>cap. replicate cap aos_zero)\<rparr>"

subsection \<open>Structure of arrays\<close>

record SoaData =
  so_a_id :: "OrderId list"
  so_a_ts :: "u64 list"
  so_a_qty :: "Qty list"
  so_a_orig_qty :: "Qty list"
  so_a_next :: "nat list"
  so_a_prev :: "nat list"
  so_a_level :: "nat list"
  so_a_owner :: "OwnerId list"
  so_a_side :: "Side list"

definition soa_init :: "nat \<Rightarrow> OrderId \<Rightarrow> Qty \<Rightarrow> nat \<Rightarrow> OwnerId \<Rightarrow> Side \<Rightarrow> u64 \<Rightarrow> SoaData \<Rightarrow> SoaData" where
  "soa_init s oid qty level owner side ts d =
     d\<lparr>so_a_id := (so_a_id d)[s := oid], so_a_ts := (so_a_ts d)[s := ts], so_a_qty := (so_a_qty d)[s := qty],
       so_a_orig_qty := (so_a_orig_qty d)[s := qty], so_a_level := (so_a_level d)[s := level],
       so_a_owner := (so_a_owner d)[s := owner], so_a_side := (so_a_side d)[s := side]\<rparr>"

definition soa_wf :: "SoaData \<Rightarrow> bool" where
  "soa_wf d \<longleftrightarrow> length (so_a_qty d) = length (so_a_id d) \<and> length (so_a_next d) = length (so_a_id d) \<and>
     length (so_a_prev d) = length (so_a_id d) \<and> length (so_a_level d) = length (so_a_id d) \<and>
     length (so_a_owner d) = length (so_a_id d) \<and> length (so_a_side d) = length (so_a_id d)"

definition SoaStore :: "SoaData store_ops" where
  "SoaStore =
     \<lparr>so_size = (\<lambda>d. length (so_a_id d)), so_id = (\<lambda>d s. so_a_id d ! s), so_qty = (\<lambda>d s. so_a_qty d ! s),
      so_next = (\<lambda>d s. so_a_next d ! s), so_prev = (\<lambda>d s. so_a_prev d ! s),
      so_level = (\<lambda>d s. so_a_level d ! s), so_owner = (\<lambda>d s. so_a_owner d ! s),
      so_side = (\<lambda>d s. so_a_side d ! s),
      so_set_qty = (\<lambda>s q d. d\<lparr>so_a_qty := (so_a_qty d)[s := q]\<rparr>),
      so_set_next = (\<lambda>s n d. d\<lparr>so_a_next := (so_a_next d)[s := n]\<rparr>),
      so_set_prev = (\<lambda>s p d. d\<lparr>so_a_prev := (so_a_prev d)[s := p]\<rparr>),
      so_init = soa_init,
      so_zero = (\<lambda>cap. \<lparr>so_a_id = replicate cap 0, so_a_ts = replicate cap 0, so_a_qty = replicate cap 0,
        so_a_orig_qty = replicate cap 0, so_a_next = replicate cap 0, so_a_prev = replicate cap 0,
        so_a_level = replicate cap 0, so_a_owner = replicate cap 0, so_a_side = replicate cap Buy\<rparr>)\<rparr>"

subsection \<open>Hot and cold records\<close>

record HybridRecord =
  hr_id :: OrderId
  hr_qty :: Qty
  hr_next :: nat
  hr_prev :: nat
  hr_level :: nat
  hr_owner :: OwnerId
  hr_side :: Side
  hr_flags :: u8

record HybridAudit =
  ha_ts :: u64
  ha_orig_qty :: Qty

type_synonym HybridData = "HybridRecord list \<times> HybridAudit list"

definition hyb_upd :: "nat \<Rightarrow> (HybridRecord \<Rightarrow> HybridRecord) \<Rightarrow> HybridData \<Rightarrow> HybridData" where
  "hyb_upd s f d = ((fst d)[s := f (fst d ! s)], snd d)"

definition hyb_init :: "nat \<Rightarrow> OrderId \<Rightarrow> Qty \<Rightarrow> nat \<Rightarrow> OwnerId \<Rightarrow> Side \<Rightarrow> u64 \<Rightarrow> HybridData \<Rightarrow> HybridData" where
  "hyb_init s oid qty level owner side ts d =
     (let r = fst d ! s; a = snd d ! s in
      ((fst d)[s := r\<lparr>hr_id := oid, hr_qty := qty, hr_level := level, hr_owner := owner, hr_side := side, hr_flags := 0\<rparr>],
       (snd d)[s := a\<lparr>ha_ts := ts, ha_orig_qty := qty\<rparr>]))"

definition HybridStore :: "HybridData store_ops" where
  "HybridStore =
     \<lparr>so_size = (\<lambda>d. length (fst d)), so_id = (\<lambda>d s. hr_id (fst d ! s)), so_qty = (\<lambda>d s. hr_qty (fst d ! s)),
      so_next = (\<lambda>d s. hr_next (fst d ! s)), so_prev = (\<lambda>d s. hr_prev (fst d ! s)),
      so_level = (\<lambda>d s. hr_level (fst d ! s)), so_owner = (\<lambda>d s. hr_owner (fst d ! s)),
      so_side = (\<lambda>d s. hr_side (fst d ! s)),
      so_set_qty = (\<lambda>s q. hyb_upd s (hr_qty_update (\<lambda>_. q))),
      so_set_next = (\<lambda>s n. hyb_upd s (hr_next_update (\<lambda>_. n))),
      so_set_prev = (\<lambda>s p. hyb_upd s (hr_prev_update (\<lambda>_. p))),
      so_init = hyb_init,
      so_zero = (\<lambda>cap. (replicate cap \<lparr>hr_id = 0, hr_qty = 0, hr_next = 0, hr_prev = 0, hr_level = 0,
        hr_owner = 0, hr_side = Buy, hr_flags = 0\<rparr>, replicate cap \<lparr>ha_ts = 0, ha_orig_qty = 0\<rparr>))\<rparr>"

section \<open>The interface\<close>

text \<open>
  The laws the book relies on: each setter writes one field of one slot below the size, \<open>init\<close> writes
  id, quantity, level, owner and side and leaves the links alone.
\<close>

locale order_store =
  fixes ops :: "'d store_ops" and wf :: "'d \<Rightarrow> bool"
  assumes zero_law: "wf (so_zero ops n)" "so_size ops (so_zero ops n) = n"
    and qty_law: "wf d \<Longrightarrow> s < so_size ops d \<Longrightarrow> d' = so_set_qty ops s q d \<Longrightarrow>
      wf d' \<and> so_size ops d' = so_size ops d \<and> so_qty ops d' = (so_qty ops d)(s := q) \<and>
      so_id ops d' = so_id ops d \<and> so_next ops d' = so_next ops d \<and> so_prev ops d' = so_prev ops d \<and>
      so_level ops d' = so_level ops d \<and> so_owner ops d' = so_owner ops d \<and> so_side ops d' = so_side ops d"
    and next_law: "wf d \<Longrightarrow> s < so_size ops d \<Longrightarrow> d' = so_set_next ops s n d \<Longrightarrow>
      wf d' \<and> so_size ops d' = so_size ops d \<and> so_qty ops d' = so_qty ops d \<and>
      so_id ops d' = so_id ops d \<and> so_next ops d' = (so_next ops d)(s := n) \<and> so_prev ops d' = so_prev ops d \<and>
      so_level ops d' = so_level ops d \<and> so_owner ops d' = so_owner ops d \<and> so_side ops d' = so_side ops d"
    and prev_law: "wf d \<Longrightarrow> s < so_size ops d \<Longrightarrow> d' = so_set_prev ops s n d \<Longrightarrow>
      wf d' \<and> so_size ops d' = so_size ops d \<and> so_qty ops d' = so_qty ops d \<and>
      so_id ops d' = so_id ops d \<and> so_next ops d' = so_next ops d \<and> so_prev ops d' = (so_prev ops d)(s := n) \<and>
      so_level ops d' = so_level ops d \<and> so_owner ops d' = so_owner ops d \<and> so_side ops d' = so_side ops d"
    and init_law: "wf d \<Longrightarrow> s < so_size ops d \<Longrightarrow> d' = so_init ops s oid q l w sd ts d \<Longrightarrow>
      wf d' \<and> so_size ops d' = so_size ops d \<and> so_qty ops d' = (so_qty ops d)(s := q) \<and>
      so_id ops d' = (so_id ops d)(s := oid) \<and> so_next ops d' = so_next ops d \<and> so_prev ops d' = so_prev ops d \<and>
      so_level ops d' = (so_level ops d)(s := l) \<and> so_owner ops d' = (so_owner ops d)(s := w) \<and>
      so_side ops d' = (so_side ops d)(s := sd)"
begin

text \<open>The slots split into the free ones, chained from \<open>st_free\<close>, and the live ones.\<close>

definition split_slots :: "'d Store \<Rightarrow> nat list \<Rightarrow> nat set \<Rightarrow> bool" where
  "split_slots st F L \<longleftrightarrow> wf (st_data st) \<and> so_size ops (st_data st) = st_cap st \<and> st_cap st < kNil \<and>
     chain (so_next ops (st_data st)) (st_free st) F kNil \<and> distinct F \<and>
     set F \<union> L = {..<st_cap st} \<and> set F \<inter> L = {} \<and> st_live st = card L"

lemma split_bounds: "split_slots st F L \<Longrightarrow> s \<in> L \<Longrightarrow> s < st_cap st \<and> s \<noteq> kNil \<and> s < so_size ops (st_data st) \<and> s \<notin> set F"
  by (auto simp: split_slots_def)

lemma split_finite: "split_slots st F L \<Longrightarrow> finite L \<and> card L + length F = st_cap st"
proof -
  assume a: "split_slots st F L"
  then have u: "set F \<union> L = {..<st_cap st}" and d: "set F \<inter> L = {}" "distinct F" by (auto simp: split_slots_def)
  have f: "finite L" by (rule finite_subset [of _ "{..<st_cap st}"]) (use u in auto)
  have "card (set F \<union> L) = card (set F) + card L" using f d(1) by (intro card_Un_disjoint) auto
  with u d f show ?thesis by (simp add: distinct_card)
qed

lemma alloc_full: "split_slots st [] L \<Longrightarrow> alloc ops st = (kNil, st)"
  by (simp add: split_slots_def alloc_def Let_def)

lemma alloc_some:
  assumes "split_slots st (s # F) L"
  shows "alloc ops st = (s, st\<lparr>st_free := so_next ops (st_data st) s, st_live := st_live st + 1\<rparr>)"
    and "split_slots (snd (alloc ops st)) F (insert s L)"
proof -
  have f: "finite L" using split_finite [OF assms] by simp
  have s: "st_free st = s" "s \<noteq> kNil" using assms by (auto simp: split_slots_def)
  then show a: "alloc ops st = (s, st\<lparr>st_free := so_next ops (st_data st) s, st_live := st_live st + 1\<rparr>)"
    by (simp add: alloc_def Let_def)
  have "s \<notin> L" using assms by (auto simp: split_slots_def)
  with a s assms f show "split_slots (snd (alloc ops st)) F (insert s L)"
    by (auto simp: split_slots_def)
qed

lemma release_split:
  assumes "split_slots st F L" and "s \<in> L"
  shows "split_slots (release ops s st) (s # F) (L - {s})"
    and "st_cap (release ops s st) = st_cap st"
    and "so_next ops (st_data (release ops s st)) = (so_next ops (st_data st))(s := st_free st)"
    and "so_qty ops (st_data (release ops s st)) = so_qty ops (st_data st)"
    and "so_id ops (st_data (release ops s st)) = so_id ops (st_data st)"
    and "so_prev ops (st_data (release ops s st)) = so_prev ops (st_data st)"
    and "so_level ops (st_data (release ops s st)) = so_level ops (st_data st)"
    and "so_owner ops (st_data (release ops s st)) = so_owner ops (st_data st)"
    and "so_side ops (st_data (release ops s st)) = so_side ops (st_data st)"
proof -
  note b = split_bounds [OF assms]
  have w: "wf (st_data st)" "finite L" using assms split_finite [OF assms(1)] by (auto simp: split_slots_def)
  note N = next_law [OF w(1) _ refl, of s "st_free st"]
  show "st_cap (release ops s st) = st_cap st"
    "so_next ops (st_data (release ops s st)) = (so_next ops (st_data st))(s := st_free st)"
    "so_qty ops (st_data (release ops s st)) = so_qty ops (st_data st)"
    "so_id ops (st_data (release ops s st)) = so_id ops (st_data st)"
    "so_prev ops (st_data (release ops s st)) = so_prev ops (st_data st)"
    "so_level ops (st_data (release ops s st)) = so_level ops (st_data st)"
    "so_owner ops (st_data (release ops s st)) = so_owner ops (st_data st)"
    "so_side ops (st_data (release ops s st)) = so_side ops (st_data st)"
    using N b by (simp_all add: release_def)
  show "split_slots (release ops s st) (s # F) (L - {s})"
    using assms N b w by (auto simp: split_slots_def release_def chain_simps)
qed

lemma link_from_ok:
  "k \<le> n \<Longrightarrow> n < kNil \<Longrightarrow> wf d \<Longrightarrow> so_size ops d = n \<Longrightarrow>
   wf (link_from ops n k d) \<and> so_size ops (link_from ops n k d) = n \<and>
   (\<forall>i < k. so_next ops (link_from ops n k d) i = (if i + 1 < n then i + 1 else kNil))"
proof (induction k)
  case (Suc k)
  then have IH: "wf (link_from ops n k d)" "so_size ops (link_from ops n k d) = n"
    "\<forall>i < k. so_next ops (link_from ops n k d) i = (if i + 1 < n then i + 1 else kNil)" by auto
  from next_law [OF IH(1) _ refl, of k] IH Suc.prems show ?case by (auto simp: less_Suc_eq)
qed simp

lemma chain_upt:
  "(\<And>i. i < n \<Longrightarrow> h i = (if i + 1 < n then i + 1 else kNil)) \<Longrightarrow> n < kNil \<Longrightarrow> k < n \<Longrightarrow> chain h k [k..<n] kNil"
proof (induction "n - k" arbitrary: k)
  case (Suc m)
  have "[k..<n] = k # [Suc k..<n]" using Suc.prems by (simp add: upt_conv_Cons)
  moreover have "chain h (h k) [Suc k..<n] kNil"
  proof (cases "Suc k < n")
    case True
    then show ?thesis using Suc.hyps(1) [of "Suc k"] Suc.hyps(2) Suc.prems by simp
  qed (use Suc.prems in simp)
  ultimately show ?case using Suc.prems by simp
qed simp

lemma st_init_split: "n < kNil \<Longrightarrow> split_slots (st_init ops n) [0..<n] {}"
proof -
  assume n: "n < kNil"
  note L = link_from_ok [OF order_refl n zero_law(1,2)]
  show ?thesis
  proof (cases "n = 0")
    case True
    with L n show ?thesis by (simp add: split_slots_def st_init_def zero_law)
  next
    case False
    then have "chain (so_next ops (link_from ops n n (so_zero ops n))) 0 [0..<n] kNil"
      using L n by (intro chain_upt) auto
    with L n False show ?thesis by (auto simp: split_slots_def st_init_def)
  qed
qed

end

section \<open>The layouts provide the interface\<close>

lemma fun_upd_nth_list: "s < length d \<Longrightarrow> (\<lambda>t. f (d[s := x] ! t)) = (\<lambda>t. f (d ! t))(s := f x)"
  by (auto simp: fun_eq_iff nth_list_update)

lemma fun_same_nth_list: "s < length d \<Longrightarrow> f x = f (d ! s) \<Longrightarrow> (\<lambda>t. f (d[s := x] ! t)) = (\<lambda>t. f (d ! t))"
  by (auto simp: fun_eq_iff nth_list_update)

interpretation aos: order_store AosStore "\<lambda>_. True"
  by unfold_locales
     (auto simp: AosStore_def aos_upd_def aos_init_def fun_eq_iff nth_list_update)

interpretation soa: order_store SoaStore soa_wf
  by unfold_locales
     (auto simp: SoaStore_def soa_wf_def soa_init_def fun_eq_iff nth_list_update)

interpretation hybrid: order_store HybridStore "\<lambda>_. True"
  by unfold_locales
     (auto simp: HybridStore_def hyb_upd_def hyb_init_def Let_def fun_eq_iff nth_list_update)

end
