(* ===== verification/Order_Book.thy ===== *)
theory Order_Book
  imports Order_Index Price_Bitmap Order_Store
begin

text \<open>
  \<^verbatim>\<open>include/exsim/order_book.hpp\<close>: the price-time priority book on a dense price ladder, with the
  template parameters \<^verbatim>\<open>Store\<close> (the dictionary \<open>ops\<close>) and \<^verbatim>\<open>IndexHash\<close> (a field of the index). A
  sink is the list of events an operation emits. Loops over the intrusive queues, over the bitmap and
  over the index are partial functions: an operation returns \<open>None\<close> exactly when such a loop does not
  end. The theory \<^verbatim>\<open>Book_Refinement\<close> proves that on a well-formed book every operation returns.
\<close>

section \<open>State\<close>

record Level =
  lv_qty :: u64
  lv_head :: nat
  lv_tail :: nat

record 'd OrderBook =
  ob_symbol :: SymbolId
  ob_min_price :: Price
  ob_n :: int
  ob_stp :: Stp
  ob_best_bid :: int
  ob_best_ask :: int
  ob_levels :: "Level list"
  ob_bid_bits :: PriceBitmap
  ob_ask_bits :: PriceBitmap
  ob_ids :: OrderIndex
  ob_store :: "'d Store"

text \<open>The constructor throws (here \<open>None\<close>) for a bad number of levels or of orders.\<close>

definition ob_init :: "'d store_ops \<Rightarrow> (OrderId \<Rightarrow> nat \<Rightarrow> u32) \<Rightarrow> SymbolId \<Rightarrow> BookConfig \<Rightarrow> 'd OrderBook option" where
  "ob_init ops h sm cfg =
     do { bits \<leftarrow> pb_init (cfg_num_levels cfg);
          if cfg_max_orders cfg = 0 \<or> cfg_max_orders cfg \<ge> kNil then None
          else Some \<lparr>ob_symbol = sm, ob_min_price = cfg_min_price cfg, ob_n = int (cfg_num_levels cfg),
                     ob_stp = cfg_stp cfg, ob_best_bid = - 1, ob_best_ask = int (cfg_num_levels cfg),
                     ob_levels = replicate (cfg_num_levels cfg) \<lparr>lv_qty = 0, lv_head = kNil, lv_tail = kNil\<rparr>,
                     ob_bid_bits = bits, ob_ask_bits = bits,
                     ob_ids = ix_init h (cfg_max_orders cfg), ob_store = st_init ops (cfg_max_orders cfg)\<rparr> }"

text \<open>Field access through the store, and updates of one level or one slot.\<close>

abbreviation data :: "'d OrderBook \<Rightarrow> 'd" where
  "data b \<equiv> st_data (ob_store b)"

definition lv_upd :: "nat \<Rightarrow> (Level \<Rightarrow> Level) \<Rightarrow> 'd OrderBook \<Rightarrow> 'd OrderBook" where
  "lv_upd i f b = b\<lparr>ob_levels := (ob_levels b)[i := f (ob_levels b ! i)]\<rparr>"

definition data_upd :: "('d \<Rightarrow> 'd) \<Rightarrow> 'd OrderBook \<Rightarrow> 'd OrderBook" where
  "data_upd f b = b\<lparr>ob_store := (ob_store b)\<lparr>st_data := f (data b)\<rparr>\<rparr>"

fun best :: "Side \<Rightarrow> 'd OrderBook \<Rightarrow> int" where
  "best Buy b = ob_best_bid b"
| "best Sell b = ob_best_ask b"

fun bits :: "Side \<Rightarrow> 'd OrderBook \<Rightarrow> PriceBitmap" where
  "bits Buy b = ob_bid_bits b"
| "bits Sell b = ob_ask_bits b"

fun set_best :: "Side \<Rightarrow> int \<Rightarrow> 'd OrderBook \<Rightarrow> 'd OrderBook" where
  "set_best Buy i b = b\<lparr>ob_best_bid := i\<rparr>"
| "set_best Sell i b = b\<lparr>ob_best_ask := i\<rparr>"

fun set_bits :: "Side \<Rightarrow> PriceBitmap \<Rightarrow> 'd OrderBook \<Rightarrow> 'd OrderBook" where
  "set_bits Buy p b = b\<lparr>ob_bid_bits := p\<rparr>"
| "set_bits Sell p b = b\<lparr>ob_ask_bits := p\<rparr>"

text \<open>The next occupied level of a side after level \<open>i\<close>, away from the touch.\<close>

fun step_level :: "Side \<Rightarrow> 'd OrderBook \<Rightarrow> int \<Rightarrow> int" where
  "step_level Buy b i = pb_find_prev (ob_bid_bits b) (i - 1)"
| "step_level Sell b i = pb_find_next (ob_ask_bits b) (i + 1)"

fun crosses :: "Side \<Rightarrow> int \<Rightarrow> 'd OrderBook \<Rightarrow> bool" where
  "crosses Buy limit b = (ob_best_ask b \<le> limit)"
| "crosses Sell limit b = (ob_best_bid b \<ge> limit)"

section \<open>Matching\<close>

text \<open>
  The inner loop of \<^verbatim>\<open>sweep\<close> over the queue of level \<open>ix\<close>, from slot \<open>s\<close>. It returns the book, the slot
  the loop stopped at, the open quantity, \<^verbatim>\<open>stp_stop\<close> and the events.
\<close>

partial_function (option) sweep_queue :: "'d store_ops \<Rightarrow> Side \<Rightarrow> OrderId \<Rightarrow> OwnerId \<Rightarrow> int \<Rightarrow> Stp \<Rightarrow> nat \<Rightarrow>
    'd OrderBook \<Rightarrow> nat \<Rightarrow> Qty \<Rightarrow> ('d OrderBook \<times> nat \<times> Qty \<times> bool \<times> Event list) option" where
  "sweep_queue ops side taker owner limit stp ix b s qty =
    (let sm = ob_symbol b; px = ob_min_price b + int ix; oid = so_id ops (data b) s in
     if s = kNil then Some (b, s, qty, False, [])
     else if stp \<noteq> StpNone \<and> so_owner ops (data b) s = owner then
       (if stp = CancelIncoming then Some (b, s, qty, True, [])
        else
          (let mq = so_qty ops (data b) s in
           if stp = DecrementCancel \<and> mq > qty then
             Some (lv_upd ix (\<lambda>l. l\<lparr>lv_qty := lv_qty l - qty\<rparr>) (data_upd (so_set_qty ops s (mq - qty)) b),
                   s, qty, True, [stp_decrement_event sm oid (opposite side) px (mq - qty)])
           else
             (let nx = so_next ops (data b) s;
                  ev = canceled_event sm oid (opposite side) px mq SelfTrade
              in do { ids \<leftarrow> ix_erase_known (ob_ids b) oid s;
                      let b' = (lv_upd ix (\<lambda>l. l\<lparr>lv_qty := lv_qty l - mq\<rparr>) b)
                                 \<lparr>ob_ids := ids, ob_store := release ops s (ob_store b)\<rparr>;
                      if stp = DecrementCancel then
                        (if mq = qty then Some (b', nx, qty, True, [ev])
                         else
                           do { (b'', s', qty', stop, evs) \<leftarrow>
                                  sweep_queue ops side taker owner limit stp ix b' nx (qty - mq);
                                Some (b'', s', qty', stop,
                                  ev # stp_decrement_event sm taker side (ob_min_price b + limit) (qty - mq) # evs) })
                      else
                        do { (b'', s', qty', stop, evs) \<leftarrow>
                               sweep_queue ops side taker owner limit stp ix b' nx qty;
                             Some (b'', s', qty', stop, ev # evs) } })))
     else
       (let avail = so_qty ops (data b) s;
            fill = (if avail < qty then avail else qty);
            left = avail - fill;
            qty' = qty - fill;
            ev = trade_event sm taker oid side px fill left;
            b1 = lv_upd ix (\<lambda>l. l\<lparr>lv_qty := lv_qty l - fill\<rparr>) b
        in if left \<noteq> 0 then Some (data_upd (so_set_qty ops s left) b1, s, qty', False, [ev])
           else
             (let nx = so_next ops (data b) s in
              do { ids \<leftarrow> ix_erase_known (ob_ids b) oid s;
                   let b' = b1\<lparr>ob_ids := ids, ob_store := release ops s (ob_store b)\<rparr>;
                   if qty' = 0 then Some (b', nx, qty', False, [ev])
                   else
                     do { (b'', s', qty'', stop, evs) \<leftarrow>
                            sweep_queue ops side taker owner limit stp ix b' nx qty';
                          Some (b'', s', qty'', stop, ev # evs) } })))"

text \<open>What \<^verbatim>\<open>sweep\<close> does after the inner loop: set the head, and retire the level if its queue is empty.\<close>

definition close_level :: "Side \<Rightarrow> int \<Rightarrow> nat \<Rightarrow> 'd OrderBook \<Rightarrow> 'd OrderBook" where
  "close_level maker ix s b =
     (let b = lv_upd (nat ix) (\<lambda>l. l\<lparr>lv_head := s\<rparr>) b in
      if s = kNil then
        (let b = lv_upd (nat ix) (\<lambda>l. l\<lparr>lv_tail := kNil\<rparr>) b;
             b = set_bits maker (pb_clear ix (bits maker b)) b
         in set_best maker (step_level maker b ix) b)
      else b)"

partial_function (option) sweep :: "'d store_ops \<Rightarrow> Side \<Rightarrow> OrderId \<Rightarrow> OwnerId \<Rightarrow> int \<Rightarrow> Stp \<Rightarrow>
    'd OrderBook \<Rightarrow> Qty \<Rightarrow> ('d OrderBook \<times> Qty \<times> bool \<times> Event list) option" where
  "sweep ops side taker owner limit stp b qty =
    (if qty \<noteq> 0 \<and> crosses side limit b then
       (let ix = best (opposite side) b in
        do { (b1, s, qty1, stop, evs) \<leftarrow>
               sweep_queue ops side taker owner limit stp (nat ix) b (lv_head (ob_levels b ! nat ix)) qty;
             let b2 = close_level (opposite side) ix s b1;
             if stop then Some (b2, qty1, True, evs)
             else
               do { (b3, qty3, stop3, evs3) \<leftarrow> sweep ops side taker owner limit stp b2 qty1;
                    Some (b3, qty3, stop3, evs @ evs3) } })
     else Some (b, qty, False, []))"

section \<open>The fill-or-kill pre-check\<close>

partial_function (option) fill_queue :: "'d store_ops \<Rightarrow> OwnerId \<Rightarrow> Stp \<Rightarrow> 'd OrderBook \<Rightarrow> nat \<Rightarrow> Qty \<Rightarrow>
    (bool + Qty) option" where
  "fill_queue ops owner stp b s need =
    (if s = kNil then Some (Inr need)
     else
       (let q = so_qty ops (data b) s; nx = so_next ops (data b) s in
        if so_owner ops (data b) s = owner then
          (if stp = CancelIncoming then Some (Inl False)
           else if stp = DecrementCancel then
             (if q \<ge> need then Some (Inl False) else fill_queue ops owner stp b nx (need - q))
           else fill_queue ops owner stp b nx need)
        else if q \<ge> need then Some (Inl True)
        else fill_queue ops owner stp b nx (need - q)))"

fun level_in_range :: "Side \<Rightarrow> int \<Rightarrow> int \<Rightarrow> bool" where
  "level_in_range Buy limit i = (i \<le> limit)"
| "level_in_range Sell limit i = (i \<ge> limit \<and> i \<ge> 0)"

partial_function (option) fill_levels :: "'d store_ops \<Rightarrow> Side \<Rightarrow> int \<Rightarrow> OwnerId \<Rightarrow> Stp \<Rightarrow> 'd OrderBook \<Rightarrow>
    int \<Rightarrow> Qty \<Rightarrow> bool option" where
  "fill_levels ops side limit owner stp b i need =
    (if level_in_range side limit i then
       (let lv = ob_levels b ! nat i; nx = step_level (opposite side) b i in
        if stp = StpNone then
          (if lv_qty lv \<ge> need then Some True
           else fill_levels ops side limit owner stp b nx (need - lv_qty lv))
        else
          do { r \<leftarrow> fill_queue ops owner stp b (lv_head lv) need;
               case r of Inl v \<Rightarrow> Some v | Inr need' \<Rightarrow> fill_levels ops side limit owner stp b nx need' })
     else Some False)"

definition fillable :: "'d store_ops \<Rightarrow> Side \<Rightarrow> int \<Rightarrow> Qty \<Rightarrow> OwnerId \<Rightarrow> Stp \<Rightarrow> 'd OrderBook \<Rightarrow> bool option" where
  "fillable ops side limit qty owner stp b =
     fill_levels ops side limit owner stp b (best (opposite side) b) qty"

section \<open>Resting and unlinking\<close>

definition rest :: "'d store_ops \<Rightarrow> Side \<Rightarrow> OrderId \<Rightarrow> OwnerId \<Rightarrow> int \<Rightarrow> Qty \<Rightarrow> u64 \<Rightarrow> 'd OrderBook \<Rightarrow>
    ('d OrderBook \<times> Event list) option" where
  "rest ops side oid owner ix qty ts b =
    (let (s, st) = alloc ops (ob_store b) in
     if s = kNil then Some (b, [canceled_event (ob_symbol b) oid side (ob_min_price b + ix) qty BookFull])
     else
       (let b = b\<lparr>ob_store := st\<rparr>;
            b = data_upd (so_init ops s oid qty (nat ix) owner side ts) b;
            tail = lv_tail (ob_levels b ! nat ix);
            b = data_upd (so_set_next ops s kNil) b;
            b = data_upd (so_set_prev ops s tail) b;
            b = (if tail = kNil then
                   (let b = lv_upd (nat ix) (\<lambda>l. l\<lparr>lv_head := s\<rparr>) b;
                        b = set_bits side (pb_set ix (bits side b)) b
                    in case side of
                         Buy \<Rightarrow> if ix > ob_best_bid b then b\<lparr>ob_best_bid := ix\<rparr> else b
                       | Sell \<Rightarrow> if ix < ob_best_ask b then b\<lparr>ob_best_ask := ix\<rparr> else b)
                 else data_upd (so_set_next ops tail s) b);
            b = lv_upd (nat ix) (\<lambda>l. l\<lparr>lv_tail := s\<rparr>) b;
            b = lv_upd (nat ix) (\<lambda>l. l\<lparr>lv_qty := lv_qty l + qty\<rparr>) b
        in do { ids \<leftarrow> ix_insert (ob_ids b) oid s; Some (b\<lparr>ob_ids := ids\<rparr>, []) }))"

definition unlink :: "'d store_ops \<Rightarrow> nat \<Rightarrow> 'd OrderBook \<Rightarrow> 'd OrderBook" where
  "unlink ops s b =
    (let ix = so_level ops (data b) s;
         n = so_next ops (data b) s;
         p = so_prev ops (data b) s;
         b = (if s = lv_head (ob_levels b ! ix) then lv_upd ix (\<lambda>l. l\<lparr>lv_head := n\<rparr>) b
              else data_upd (so_set_next ops p n) b);
         b = (if s = lv_tail (ob_levels b ! ix)
              then lv_upd ix (\<lambda>l. l\<lparr>lv_tail := (if lv_head l = kNil then kNil else p)\<rparr>) b
              else data_upd (so_set_prev ops n p) b);
         b = lv_upd ix (\<lambda>l. l\<lparr>lv_qty := lv_qty l - so_qty ops (data b) s\<rparr>) b
     in if lv_head (ob_levels b ! ix) = kNil then
          (let side = so_side ops (data b) s;
               b = set_bits side (pb_clear (int ix) (bits side b)) b
           in if int ix = best side b then set_best side (step_level side b (int ix)) b else b)
        else b)"

section \<open>Operations\<close>

definition ob_add :: "'d store_ops \<Rightarrow> Command \<Rightarrow> 'd OrderBook \<Rightarrow> ('d OrderBook \<times> Event list) option" where
  "ob_add ops c b =
    (if c_order_id c = 0 then Some (b, [rejected_event c InvalidOrderId])
     else if c_qty c = 0 then Some (b, [rejected_event c InvalidQty])
     else
      (let side = c_side c;
           market = (c_ord_type c = Market);
           rel = c_price c - ob_min_price b;
           limit = (if market then (if side = Buy then ob_n b - 1 else 0) else rel)
       in if \<not> market \<and> (rel < 0 \<or> rel \<ge> ob_n b) then Some (b, [rejected_event c InvalidPrice])
          else do {
            dup \<leftarrow> ix_find (ob_ids b) (c_order_id c) (so_id ops (data b));
            if dup \<noteq> kNil then Some (b, [rejected_event c DuplicateOrderId])
            else if c_flags c AND kFlagPostOnly \<noteq> 0 \<and> crosses side limit b
            then Some (b, [rejected_event c WouldCross])
            else
             (let px = (if market then 0 else c_price c);
                  acc = accepted_event (ob_symbol b) (c_order_id c) side px (c_qty c);
                  stp = effective_stp (c_flags c) (ob_stp b)
              in do {
                ok \<leftarrow> (if c_tif c = Fok then fillable ops side limit (c_qty c) (c_owner c) stp b else Some True);
                if \<not> ok then
                  Some (b, [acc, canceled_event (ob_symbol b) (c_order_id c) side px (c_qty c) FokUnfilled])
                else do {
                  (b', left, stop, evs) \<leftarrow> sweep ops side (c_order_id c) (c_owner c) limit stp b (c_qty c);
                  if left = 0 then Some (b', acc # evs)
                  else if stop then
                    Some (b', acc # evs @ [canceled_event (ob_symbol b) (c_order_id c) side px left SelfTrade])
                  else if market \<or> c_tif c \<noteq> Day then
                    Some (b', acc # evs @ [canceled_event (ob_symbol b) (c_order_id c) side px left IocExpired])
                  else do {
                    (b'', evs') \<leftarrow> rest ops side (c_order_id c) (c_owner c) limit left (c_ts c) b';
                    Some (b'', acc # evs @ evs') } } }) }))"

definition ob_cancel :: "'d store_ops \<Rightarrow> Command \<Rightarrow> 'd OrderBook \<Rightarrow> ('d OrderBook \<times> Event list) option" where
  "ob_cancel ops c b =
    do { (ids, s) \<leftarrow> ix_erase (ob_ids b) (c_order_id c) (so_id ops (data b));
         if s = kNil then Some (b\<lparr>ob_ids := ids\<rparr>, [rejected_event c UnknownOrder])
         else
          (let side = so_side ops (data b) s;
               leaves = so_qty ops (data b) s;
               px = ob_min_price b + int (so_level ops (data b) s);
               b' = unlink ops s (b\<lparr>ob_ids := ids\<rparr>);
               b' = b'\<lparr>ob_store := release ops s (ob_store b')\<rparr>
           in Some (b', [canceled_event (ob_symbol b) (c_order_id c) side px leaves UserCanceled])) }"

definition reenter :: "'d store_ops \<Rightarrow> Side \<Rightarrow> OrderId \<Rightarrow> OwnerId \<Rightarrow> int \<Rightarrow> Qty \<Rightarrow> u64 \<Rightarrow> 'd OrderBook \<Rightarrow>
    ('d OrderBook \<times> Event list) option" where
  "reenter ops side oid owner ix qty ts b =
    do { (b', left, stop, evs) \<leftarrow> sweep ops side oid owner ix (ob_stp b) b qty;
         if left = 0 then Some (b', evs)
         else if stop then
           Some (b', evs @ [canceled_event (ob_symbol b) oid side (ob_min_price b + ix) left SelfTrade])
         else do { (b'', evs') \<leftarrow> rest ops side oid owner ix left ts b'; Some (b'', evs @ evs') } }"

definition ob_modify :: "'d store_ops \<Rightarrow> Command \<Rightarrow> 'd OrderBook \<Rightarrow> ('d OrderBook \<times> Event list) option" where
  "ob_modify ops c b =
    (if c_qty c = 0 then Some (b, [rejected_event c InvalidQty])
     else do {
       s \<leftarrow> ix_find (ob_ids b) (c_order_id c) (so_id ops (data b));
       if s = kNil then Some (b, [rejected_event c UnknownOrder])
       else
        (let rel = c_price c - ob_min_price b in
         if rel < 0 \<or> rel \<ge> ob_n b then Some (b, [rejected_event c InvalidPrice])
         else
          (let side = so_side ops (data b) s;
               q = so_qty ops (data b) s;
               md = modified_event (ob_symbol b) (c_order_id c) side (c_price c) (c_qty c)
           in if rel = int (so_level ops (data b) s) \<and> c_qty c \<le> q then
                Some (data_upd (so_set_qty ops s (c_qty c))
                        (lv_upd (nat rel) (\<lambda>l. l\<lparr>lv_qty := lv_qty l - (q - c_qty c)\<rparr>) b), [md])
              else
               (let owner = so_owner ops (data b) s in
                do { ids \<leftarrow> ix_erase_known (ob_ids b) (c_order_id c) s;
                     let b' = unlink ops s (b\<lparr>ob_ids := ids\<rparr>);
                     let b' = b'\<lparr>ob_store := release ops s (ob_store b')\<rparr>;
                     (b'', evs) \<leftarrow> reenter ops side (c_order_id c) owner rel (c_qty c) (c_ts c) b';
                     Some (b'', md # evs) }))) })"

definition ob_process :: "'d store_ops \<Rightarrow> Command \<Rightarrow> 'd OrderBook \<Rightarrow> ('d OrderBook \<times> Event list) option" where
  "ob_process ops c b =
    (case c_type c of NewOrder \<Rightarrow> ob_add ops c b | Cancel \<Rightarrow> ob_cancel ops c b | Modify \<Rightarrow> ob_modify ops c b)"

section \<open>Queries\<close>

definition ob_best_bid_px :: "'d OrderBook \<Rightarrow> Price option" where
  "ob_best_bid_px b = (if ob_best_bid b \<ge> 0 then Some (ob_min_price b + ob_best_bid b) else None)"

definition ob_best_ask_px :: "'d OrderBook \<Rightarrow> Price option" where
  "ob_best_ask_px b = (if ob_best_ask b < ob_n b then Some (ob_min_price b + ob_best_ask b) else None)"

definition ob_best_bid_qty :: "'d OrderBook \<Rightarrow> u64" where
  "ob_best_bid_qty b = (if ob_best_bid b \<ge> 0 then lv_qty (ob_levels b ! nat (ob_best_bid b)) else 0)"

definition ob_best_ask_qty :: "'d OrderBook \<Rightarrow> u64" where
  "ob_best_ask_qty b = (if ob_best_ask b < ob_n b then lv_qty (ob_levels b ! nat (ob_best_ask b)) else 0)"

definition ob_order_count :: "'d OrderBook \<Rightarrow> nat" where
  "ob_order_count b = st_live (ob_store b)"

definition ob_contains :: "'d store_ops \<Rightarrow> OrderId \<Rightarrow> 'd OrderBook \<Rightarrow> bool option" where
  "ob_contains ops oid b = do { s \<leftarrow> ix_find (ob_ids b) oid (so_id ops (data b)); Some (s \<noteq> kNil) }"

definition ob_find_order :: "'d store_ops \<Rightarrow> OrderId \<Rightarrow> 'd OrderBook \<Rightarrow> OrderView option option" where
  "ob_find_order ops oid b =
    do { s \<leftarrow> ix_find (ob_ids b) oid (so_id ops (data b));
         Some (if s = kNil then None
               else Some \<lparr>ov_price = ob_min_price b + int (so_level ops (data b) s), ov_qty = so_qty ops (data b) s,
                          ov_side = so_side ops (data b) s, ov_owner = so_owner ops (data b) s\<rparr>) }"

text \<open>\<^verbatim>\<open>visit_level\<close>: the ids, quantities and sides of a queue, front first.\<close>

partial_function (option) visit_slots :: "'d store_ops \<Rightarrow> 'd OrderBook \<Rightarrow> nat \<Rightarrow> (OrderId \<times> Qty \<times> Side) list option" where
  "visit_slots ops b s =
    (if s = kNil then Some []
     else do { r \<leftarrow> visit_slots ops b (so_next ops (data b) s);
               Some ((so_id ops (data b) s, so_qty ops (data b) s, so_side ops (data b) s) # r) })"

fun on_ladder :: "Side \<Rightarrow> 'd OrderBook \<Rightarrow> int \<Rightarrow> bool" where
  "on_ladder Buy b i = (i \<ge> 0)"
| "on_ladder Sell b i = (i < ob_n b)"

partial_function (option) visit_orders :: "'d store_ops \<Rightarrow> Side \<Rightarrow> 'd OrderBook \<Rightarrow> int \<Rightarrow>
    (Price \<times> OrderId \<times> Qty) list option" where
  "visit_orders ops side b i =
    (if on_ladder side b i then
       do { q \<leftarrow> visit_slots ops b (lv_head (ob_levels b ! nat i));
            r \<leftarrow> visit_orders ops side b (step_level side b i);
            Some (map (\<lambda>(oid, qty, _). (ob_min_price b + i, oid, qty)) q @ r) }
     else Some [])"

definition ob_for_each_order :: "'d store_ops \<Rightarrow> Side \<Rightarrow> 'd OrderBook \<Rightarrow> (Price \<times> OrderId \<times> Qty) list option" where
  "ob_for_each_order ops side b = visit_orders ops side b (best side b)"

partial_function (option) visit_levels :: "Side \<Rightarrow> 'd OrderBook \<Rightarrow> int \<Rightarrow> (Price \<times> u64) list option" where
  "visit_levels side b i =
    (if on_ladder side b i then
       do { r \<leftarrow> visit_levels side b (step_level side b i);
            Some ((ob_min_price b + i, lv_qty (ob_levels b ! nat i)) # r) }
     else Some [])"

definition ob_for_each_level :: "Side \<Rightarrow> 'd OrderBook \<Rightarrow> (Price \<times> u64) list option" where
  "ob_for_each_level side b = visit_levels side b (best side b)"

definition ob_level_qty :: "Side \<Rightarrow> Price \<Rightarrow> 'd OrderBook \<Rightarrow> Qty" where
  "ob_level_qty side px b =
    (let rel = px - ob_min_price b in
     if rel < 0 \<or> rel \<ge> ob_n b then 0
     else if pb_test (bits side b) rel then lv_qty (ob_levels b ! nat rel) else 0)"

definition ob_for_each_order_at :: "'d store_ops \<Rightarrow> Price \<Rightarrow> 'd OrderBook \<Rightarrow> (OrderId \<times> Qty \<times> Side) list option" where
  "ob_for_each_order_at ops px b =
    (let rel = px - ob_min_price b in
     if rel < 0 \<or> rel \<ge> ob_n b then Some []
     else visit_slots ops b (lv_head (ob_levels b ! nat rel)))"

section \<open>The self-check\<close>

text \<open>
  \<^verbatim>\<open>check_invariants\<close>. The inner option is an early \<^verbatim>\<open>return false\<close>; the walk over one queue yields the sum of
  its quantities, its last slot and the number of orders seen so far.
\<close>

partial_function (option) check_slots :: "'d store_ops \<Rightarrow> Side \<Rightarrow> nat \<Rightarrow> 'd OrderBook \<Rightarrow> nat \<Rightarrow> nat \<Rightarrow> u64 \<Rightarrow> nat \<Rightarrow>
    (u64 \<times> nat \<times> nat) option option" where
  "check_slots ops side i b s prv tot seen =
    (if s = kNil then Some (Some (tot, prv, seen))
     else if so_side ops (data b) s \<noteq> side \<or> so_level ops (data b) s \<noteq> i \<or> so_qty ops (data b) s = 0 then Some None
     else if prv \<noteq> kNil \<and> so_prev ops (data b) s \<noteq> prv then Some None
     else do { f \<leftarrow> ix_find (ob_ids b) (so_id ops (data b) s) (so_id ops (data b));
               if f \<noteq> s then Some None
               else if seen + 1 > st_live (ob_store b) then Some None
               else check_slots ops side i b (so_next ops (data b) s) s (tot + so_qty ops (data b) s) (seen + 1) })"

fun check_levels :: "'d store_ops \<Rightarrow> 'd OrderBook \<Rightarrow> nat list \<Rightarrow> nat \<Rightarrow> nat option option" where
  "check_levels ops b [] seen = Some (Some seen)"
| "check_levels ops b (i # is) seen =
    (let lv = ob_levels b ! i; bid = pb_test (ob_bid_bits b) (int i); ask = pb_test (ob_ask_bits b) (int i) in
     if bid \<and> ask then Some None
     else if \<not> bid \<and> \<not> ask then
       (if lv_head lv \<noteq> kNil \<or> lv_tail lv \<noteq> kNil \<or> lv_qty lv \<noteq> 0 then Some None else check_levels ops b is seen)
     else if lv_head lv = kNil then Some None
     else do { r \<leftarrow> check_slots ops (if bid then Buy else Sell) i b (lv_head lv) kNil 0 seen;
               case r of None \<Rightarrow> Some None
               | Some (tot, prv, seen') \<Rightarrow>
                   if prv \<noteq> lv_tail lv \<or> tot \<noteq> lv_qty lv then Some None else check_levels ops b is seen' })"

definition ob_check_invariants :: "'d store_ops \<Rightarrow> 'd OrderBook \<Rightarrow> bool option" where
  "ob_check_invariants ops b =
    (if ob_best_bid b \<noteq> pb_find_prev (ob_bid_bits b) (ob_n b - 1) \<or> ob_best_ask b \<noteq> pb_find_next (ob_ask_bits b) 0 then Some False
     else if ob_best_bid b \<ge> 0 \<and> ob_best_ask b < ob_n b \<and> ob_best_bid b \<ge> ob_best_ask b then Some False
     else do { r \<leftarrow> check_levels ops b [0..<nat (ob_n b)] 0;
               Some (case r of None \<Rightarrow> False | Some seen \<Rightarrow> seen = st_live (ob_store b) \<and> seen = ix_size (ob_ids b)) })"

lemmas book_loops_code [code] = sweep_queue.simps sweep.simps fill_queue.simps fill_levels.simps visit_slots.simps
  visit_orders.simps visit_levels.simps check_slots.simps

end
