(* ===== verification/Reference_Book.thy ===== *)
theory Reference_Book
  imports Common "HOL-Library.Multiset"
begin

text \<open>
  \<^verbatim>\<open>include/exsim/reference_book.hpp\<close>: the naive book, \<^verbatim>\<open>std::map\<close> of price to \<^verbatim>\<open>std::list\<close> queue plus
  an \<^verbatim>\<open>std::unordered_map\<close> index. It is the specification the optimised book is compared with. A
  sink is the list of events an operation hands to it, in order. A list iterator is represented by
  the id of the order it points to: the invariant \<open>rb_inv\<close> says that ids are unique in the book.
\<close>

section \<open>State\<close>

record RefOrder =
  ro_id :: OrderId
  ro_qty :: Qty
  ro_owner :: OwnerId

record Loc =
  loc_side :: Side
  loc_price :: Price

type_synonym Queue = "RefOrder list"
type_synonym Levels = "(Price \<times> Queue) list"
type_synonym Index = "(OrderId \<times> Loc) list"

record ReferenceBook =
  rb_symbol :: SymbolId
  rb_min_price :: Price
  rb_max_price :: Price
  rb_capacity :: nat
  rb_stp :: Stp
  rb_bids :: Levels
  rb_asks :: Levels
  rb_index :: Index

definition rb_init :: "SymbolId \<Rightarrow> BookConfig \<Rightarrow> ReferenceBook" where
  "rb_init sm cfg =
     \<lparr>rb_symbol = sm, rb_min_price = cfg_min_price cfg,
      rb_max_price = cfg_min_price cfg + int (cfg_num_levels cfg) - 1,
      rb_capacity = cfg_max_orders cfg, rb_stp = cfg_stp cfg, rb_bids = [], rb_asks = [], rb_index = []\<rparr>"

text \<open>The levels of one side, and the iteration order of that side's map.\<close>

fun rb_levels :: "Side \<Rightarrow> ReferenceBook \<Rightarrow> Levels" where
  "rb_levels Buy b = rb_bids b"
| "rb_levels Sell b = rb_asks b"

fun rb_set_levels :: "Side \<Rightarrow> Levels \<Rightarrow> ReferenceBook \<Rightarrow> ReferenceBook" where
  "rb_set_levels Buy l b = b\<lparr>rb_bids := l\<rparr>"
| "rb_set_levels Sell l b = b\<lparr>rb_asks := l\<rparr>"

fun px_before :: "Side \<Rightarrow> Price \<Rightarrow> Price \<Rightarrow> bool" where
  "px_before Buy p p' = (p > p')"
| "px_before Sell p p' = (p < p')"

text \<open>An incoming order of side \<open>s\<close> with limit \<open>limit\<close> may trade at price \<open>p\<close>.\<close>

fun in_range :: "Side \<Rightarrow> Price \<Rightarrow> Price \<Rightarrow> bool" where
  "in_range Buy limit p = (p \<le> limit)"
| "in_range Sell limit p = (p \<ge> limit)"

section \<open>Matching\<close>

definition rb_crosses :: "ReferenceBook \<Rightarrow> Side \<Rightarrow> Price \<Rightarrow> bool" where
  "rb_crosses b side limit =
     (case rb_levels (opposite side) b of [] \<Rightarrow> False | (p, _) # _ \<Rightarrow> in_range side limit p)"

text \<open>
  The inner loop of \<^verbatim>\<open>match_side\<close>: the queue at one price, the index, the open quantity. A maker that
  keeps a remainder ends the loop, because the taker is then exhausted.
\<close>

fun match_queue :: "SymbolId \<Rightarrow> OrderId \<Rightarrow> OwnerId \<Rightarrow> Side \<Rightarrow> Price \<Rightarrow> Stp \<Rightarrow> Price \<Rightarrow>
    Queue \<Rightarrow> Index \<Rightarrow> Qty \<Rightarrow> Queue \<times> Index \<times> Qty \<times> bool \<times> Event list" where
  "match_queue sm taker owner side limit stp px [] ix qty = ([], ix, qty, False, [])"
| "match_queue sm taker owner side limit stp px (r # q) ix qty =
    (if qty = 0 then (r # q, ix, qty, False, [])
     else if stp \<noteq> StpNone \<and> ro_owner r = owner then
       (if stp = CancelIncoming then (r # q, ix, qty, True, [])
        else if stp = DecrementCancel \<and> ro_qty r > qty then
          (r\<lparr>ro_qty := ro_qty r - qty\<rparr> # q, ix, qty, True,
           [stp_decrement_event sm (ro_id r) (opposite side) px (ro_qty r - qty)])
        else
          (let mq = ro_qty r;
               ev = canceled_event sm (ro_id r) (opposite side) px mq SelfTrade;
               ix' = om_erase (ro_id r) ix
           in if stp = DecrementCancel then
                (if mq = qty then (q, ix', qty, True, [ev])
                 else
                   (let qty' = qty - mq;
                        dv = stp_decrement_event sm taker side limit qty';
                        (q', ix'', qty'', stop, evs) =
                          match_queue sm taker owner side limit stp px q ix' qty'
                    in (q', ix'', qty'', stop, ev # dv # evs)))
              else
                (let (q', ix'', qty'', stop, evs) =
                       match_queue sm taker owner side limit stp px q ix' qty
                 in (q', ix'', qty'', stop, ev # evs))))
     else
       (let fill = min (ro_qty r) qty;
            left = ro_qty r - fill;
            qty' = qty - fill;
            ev = trade_event sm taker (ro_id r) side px fill left
        in if left = 0 then
             (let (q', ix'', qty'', stop, evs) =
                    match_queue sm taker owner side limit stp px q (om_erase (ro_id r) ix) qty'
              in (q', ix'', qty'', stop, ev # evs))
           else (r\<lparr>ro_qty := left\<rparr> # q, ix, qty', False, [ev])))"

text \<open>The outer loop: best level first, while quantity is left and the level is in range.\<close>

fun match_side :: "SymbolId \<Rightarrow> OrderId \<Rightarrow> OwnerId \<Rightarrow> Side \<Rightarrow> Price \<Rightarrow> Stp \<Rightarrow>
    Levels \<Rightarrow> Index \<Rightarrow> Qty \<Rightarrow> Levels \<times> Index \<times> Qty \<times> bool \<times> Event list" where
  "match_side sm taker owner side limit stp [] ix qty = ([], ix, qty, False, [])"
| "match_side sm taker owner side limit stp ((px, q) # bk) ix qty =
    (if qty = 0 \<or> \<not> in_range side limit px then ((px, q) # bk, ix, qty, False, [])
     else
       (let (q', ix', qty', stop, evs) = match_queue sm taker owner side limit stp px q ix qty;
            bk' = (if q' = [] then bk else (px, q') # bk)
        in if stop then (bk', ix', qty', True, evs)
           else if q' \<noteq> [] then (bk', ix', qty', False, evs)
           else
             (let (bk'', ix'', qty'', stop', evs') =
                    match_side sm taker owner side limit stp bk ix' qty'
              in (bk'', ix'', qty'', stop', evs @ evs'))))"

definition rb_match :: "ReferenceBook \<Rightarrow> OrderId \<Rightarrow> OwnerId \<Rightarrow> Side \<Rightarrow> Price \<Rightarrow> Qty \<Rightarrow> Stp \<Rightarrow>
    ReferenceBook \<times> Qty \<times> bool \<times> Event list" where
  "rb_match b taker owner side limit qty stp =
     (let (lv, ix, left, stop, evs) =
            match_side (rb_symbol b) taker owner side limit stp (rb_levels (opposite side) b) (rb_index b) qty
      in ((rb_set_levels (opposite side) lv b)\<lparr>rb_index := ix\<rparr>, left, stop, evs))"

section \<open>The fill-or-kill pre-check\<close>

text \<open>One queue of the scan: \<open>Inl\<close> is an early return, \<open>Inr\<close> the quantity still needed.\<close>

fun scan_queue :: "OwnerId \<Rightarrow> Stp \<Rightarrow> Queue \<Rightarrow> Qty \<Rightarrow> bool + Qty" where
  "scan_queue owner stp [] need = Inr need"
| "scan_queue owner stp (r # q) need =
    (if stp \<noteq> StpNone \<and> ro_owner r = owner then
       (if stp = CancelIncoming then Inl False
        else if stp = DecrementCancel then
          (if ro_qty r \<ge> need then Inl False else scan_queue owner stp q (need - ro_qty r))
        else scan_queue owner stp q need)
     else if ro_qty r \<ge> need then Inl True
     else scan_queue owner stp q (need - ro_qty r))"

fun scan_levels :: "OwnerId \<Rightarrow> Stp \<Rightarrow> Side \<Rightarrow> Price \<Rightarrow> Levels \<Rightarrow> Qty \<Rightarrow> bool" where
  "scan_levels owner stp side limit [] need = False"
| "scan_levels owner stp side limit ((px, q) # bk) need =
    (if \<not> in_range side limit px then False
     else case scan_queue owner stp q need of
            Inl r \<Rightarrow> r
          | Inr need' \<Rightarrow> scan_levels owner stp side limit bk need')"

definition rb_fillable :: "ReferenceBook \<Rightarrow> Side \<Rightarrow> Price \<Rightarrow> Qty \<Rightarrow> OwnerId \<Rightarrow> Stp \<Rightarrow> bool" where
  "rb_fillable b side limit qty owner stp =
     scan_levels owner stp side limit (rb_levels (opposite side) b) qty"

section \<open>Operations\<close>

definition rb_rest :: "ReferenceBook \<Rightarrow> OrderId \<Rightarrow> OwnerId \<Rightarrow> Side \<Rightarrow> Price \<Rightarrow> Qty \<Rightarrow>
    ReferenceBook \<times> Event list" where
  "rb_rest b oid owner side px qty =
     (if length (rb_index b) \<ge> rb_capacity b then
        (b, [canceled_event (rb_symbol b) oid side px qty BookFull])
      else
        (let r = \<lparr>ro_id = oid, ro_qty = qty, ro_owner = owner\<rparr>;
             lv = om_alter (px_before side) px
                    (\<lambda>q. (case q of None \<Rightarrow> [] | Some q \<Rightarrow> q) @ [r]) (rb_levels side b);
             b' = rb_set_levels side lv b
         in (b'\<lparr>rb_index := (oid, \<lparr>loc_side = side, loc_price = px\<rparr>) # rb_index b\<rparr>, [])))"

text \<open>\<^verbatim>\<open>remove\<close>: erase the element the iterator points to, and the level if its queue empties.\<close>

definition remove_level :: "OrderId \<Rightarrow> Price \<Rightarrow> Levels \<Rightarrow> Levels" where
  "remove_level oid px lv =
     filter (\<lambda>(p, q). q \<noteq> [])
       (map (\<lambda>(p, q). (p, if p = px then filter (\<lambda>r. ro_id r \<noteq> oid) q else q)) lv)"

definition rb_remove :: "ReferenceBook \<Rightarrow> OrderId \<Rightarrow> Loc \<Rightarrow> ReferenceBook" where
  "rb_remove b oid loc =
     rb_set_levels (loc_side loc) (remove_level oid (loc_price loc) (rb_levels (loc_side loc) b)) b"

text \<open>Dereferencing the iterator of a location.\<close>

definition deref :: "ReferenceBook \<Rightarrow> OrderId \<Rightarrow> Loc \<Rightarrow> RefOrder option" where
  "deref b oid loc =
     (case map_of (rb_levels (loc_side loc) b) (loc_price loc) of
        None \<Rightarrow> None
      | Some q \<Rightarrow> find (\<lambda>r. ro_id r = oid) q)"

definition amend_level :: "OrderId \<Rightarrow> Price \<Rightarrow> Qty \<Rightarrow> Levels \<Rightarrow> Levels" where
  "amend_level oid px qty lv =
     map (\<lambda>(p, q). (p, if p = px then map (\<lambda>r. if ro_id r = oid then r\<lparr>ro_qty := qty\<rparr> else r) q else q)) lv"

definition rb_add :: "ReferenceBook \<Rightarrow> Command \<Rightarrow> ReferenceBook \<times> Event list" where
  "rb_add b c =
    (if c_order_id c = 0 then (b, [rejected_event c InvalidOrderId])
     else if c_qty c = 0 then (b, [rejected_event c InvalidQty])
     else
      (let market = (c_ord_type c = Market);
           limit = (if market then (if c_side c = Buy then rb_max_price b else rb_min_price b) else c_price c)
       in if \<not> market \<and> (c_price c < rb_min_price b \<or> c_price c > rb_max_price b)
          then (b, [rejected_event c InvalidPrice])
          else if map_of (rb_index b) (c_order_id c) \<noteq> None then (b, [rejected_event c DuplicateOrderId])
          else if c_flags c AND kFlagPostOnly \<noteq> 0 \<and> rb_crosses b (c_side c) limit
          then (b, [rejected_event c WouldCross])
          else
           (let px = (if market then 0 else c_price c);
                acc = accepted_event (rb_symbol b) (c_order_id c) (c_side c) px (c_qty c);
                stp = effective_stp (c_flags c) (rb_stp b)
            in if c_tif c = Fok \<and> \<not> rb_fillable b (c_side c) limit (c_qty c) (c_owner c) stp
               then (b, [acc, canceled_event (rb_symbol b) (c_order_id c) (c_side c) px (c_qty c) FokUnfilled])
               else
                (let (b', left, stop, evs) =
                       rb_match b (c_order_id c) (c_owner c) (c_side c) limit (c_qty c) stp
                 in if left = 0 then (b', acc # evs)
                    else if stop then
                      (b', acc # evs @ [canceled_event (rb_symbol b) (c_order_id c) (c_side c) px left SelfTrade])
                    else if market \<or> c_tif c \<noteq> Day then
                      (b', acc # evs @ [canceled_event (rb_symbol b) (c_order_id c) (c_side c) px left IocExpired])
                    else
                      (let (b'', evs') = rb_rest b' (c_order_id c) (c_owner c) (c_side c) limit left
                       in (b'', acc # evs @ evs'))))))"

definition rb_cancel :: "ReferenceBook \<Rightarrow> Command \<Rightarrow> ReferenceBook \<times> Event list" where
  "rb_cancel b c =
    (case map_of (rb_index b) (c_order_id c) of
       None \<Rightarrow> (b, [rejected_event c UnknownOrder])
     | Some loc \<Rightarrow>
        (let leaves = (case deref b (c_order_id c) loc of None \<Rightarrow> 0 | Some r \<Rightarrow> ro_qty r);
             b' = rb_remove b (c_order_id c) loc
         in (b'\<lparr>rb_index := om_erase (c_order_id c) (rb_index b)\<rparr>,
             [canceled_event (rb_symbol b) (c_order_id c) (loc_side loc) (loc_price loc) leaves UserCanceled])))"

definition rb_modify :: "ReferenceBook \<Rightarrow> Command \<Rightarrow> ReferenceBook \<times> Event list" where
  "rb_modify b c =
    (if c_qty c = 0 then (b, [rejected_event c InvalidQty])
     else case map_of (rb_index b) (c_order_id c) of
       None \<Rightarrow> (b, [rejected_event c UnknownOrder])
     | Some loc \<Rightarrow>
        (if c_price c < rb_min_price b \<or> c_price c > rb_max_price b then (b, [rejected_event c InvalidPrice])
         else case deref b (c_order_id c) loc of
           None \<Rightarrow> (b, [])
         | Some r \<Rightarrow>
            (let md = modified_event (rb_symbol b) (c_order_id c) (loc_side loc) (c_price c) (c_qty c) in
             if c_price c = loc_price loc \<and> c_qty c \<le> ro_qty r then
               (rb_set_levels (loc_side loc)
                  (amend_level (c_order_id c) (loc_price loc) (c_qty c) (rb_levels (loc_side loc) b)) b, [md])
             else
              (let b1 = (rb_remove b (c_order_id c) loc)\<lparr>rb_index := om_erase (c_order_id c) (rb_index b)\<rparr>;
                   (b2, left, stop, evs) =
                     rb_match b1 (c_order_id c) (ro_owner r) (loc_side loc) (c_price c) (c_qty c) (rb_stp b)
               in if left = 0 then (b2, md # evs)
                  else if stop then
                    (b2, md # evs @ [canceled_event (rb_symbol b) (c_order_id c) (loc_side loc) (c_price c) left SelfTrade])
                  else
                    (let (b3, evs') = rb_rest b2 (c_order_id c) (ro_owner r) (loc_side loc) (c_price c) left
                     in (b3, md # evs @ evs'))))))"

fun rb_process :: "ReferenceBook \<Rightarrow> Command \<Rightarrow> ReferenceBook \<times> Event list" where
  "rb_process b c = (case c_type c of NewOrder \<Rightarrow> rb_add b c | Cancel \<Rightarrow> rb_cancel b c | Modify \<Rightarrow> rb_modify b c)"

section \<open>Queries\<close>

definition rb_best_bid :: "ReferenceBook \<Rightarrow> Price option" where
  "rb_best_bid b = (case rb_bids b of [] \<Rightarrow> None | (p, _) # _ \<Rightarrow> Some p)"

definition rb_best_ask :: "ReferenceBook \<Rightarrow> Price option" where
  "rb_best_ask b = (case rb_asks b of [] \<Rightarrow> None | (p, _) # _ \<Rightarrow> Some p)"

definition rb_level_qty :: "Queue \<Rightarrow> u64" where
  "rb_level_qty q = sum_list (map ro_qty q)"

definition rb_best_bid_qty :: "ReferenceBook \<Rightarrow> u64" where
  "rb_best_bid_qty b = (case rb_bids b of [] \<Rightarrow> 0 | (_, q) # _ \<Rightarrow> rb_level_qty q)"

definition rb_best_ask_qty :: "ReferenceBook \<Rightarrow> u64" where
  "rb_best_ask_qty b = (case rb_asks b of [] \<Rightarrow> 0 | (_, q) # _ \<Rightarrow> rb_level_qty q)"

definition rb_order_count :: "ReferenceBook \<Rightarrow> nat" where
  "rb_order_count b = length (rb_index b)"

definition rb_contains :: "ReferenceBook \<Rightarrow> OrderId \<Rightarrow> bool" where
  "rb_contains b oid = (map_of (rb_index b) oid \<noteq> None)"

definition rb_find_order :: "ReferenceBook \<Rightarrow> OrderId \<Rightarrow> OrderView option" where
  "rb_find_order b oid =
    (case map_of (rb_index b) oid of
       None \<Rightarrow> None
     | Some loc \<Rightarrow> map_option (\<lambda>r. \<lparr>ov_price = loc_price loc, ov_qty = ro_qty r, ov_side = loc_side loc,
                                      ov_owner = ro_owner r\<rparr>) (deref b oid loc))"

text \<open>The visits of \<^verbatim>\<open>for_each_order\<close>: best price first, queue order within a level.\<close>

definition orders :: "Levels \<Rightarrow> (Price \<times> RefOrder) list" where
  "orders lv = concat (map (\<lambda>(p, q). map (Pair p) q) lv)"

definition rb_for_each_order :: "ReferenceBook \<Rightarrow> Side \<Rightarrow> (Price \<times> OrderId \<times> Qty) list" where
  "rb_for_each_order b side = map (\<lambda>(p, r). (p, ro_id r, ro_qty r)) (orders (rb_levels side b))"

definition rb_check_invariants :: "ReferenceBook \<Rightarrow> bool" where
  "rb_check_invariants b =
    ((case (rb_bids b, rb_asks b) of ((p, _) # _, (p', _) # _) \<Rightarrow> \<not> p \<ge> p' | _ \<Rightarrow> True) \<and>
     sum_list (map (length \<circ> snd) (rb_bids b)) + sum_list (map (length \<circ> snd) (rb_asks b)) = length (rb_index b))"

end
