(* ===== verification/Reference_Props.thy ===== *)
theory Reference_Props
  imports Reference_Book
begin

text \<open>
  What the reference book promises: the well-formedness of a book, its preservation by every
  operation, and the facts about matching that the properties of the matching rules rest on.
\<close>

section \<open>Well-formedness\<close>

definition loc :: "Side \<Rightarrow> Price \<Rightarrow> Loc" where
  "loc s p = \<lparr>loc_side = s, loc_price = p\<rparr>"

definition entries :: "Side \<Rightarrow> Levels \<Rightarrow> Index" where
  "entries s lv = map (\<lambda>(p, r). (ro_id r, loc s p)) (orders lv)"

definition levels_ok :: "Side \<Rightarrow> Levels \<Rightarrow> bool" where
  "levels_ok s lv \<longleftrightarrow> sorted_wrt (px_before s) (map fst lv) \<and>
     (\<forall>(p, q) \<in> set lv. q \<noteq> [] \<and> (\<forall>r \<in> set q. ro_qty r \<noteq> 0))"

definition prices :: "Levels \<Rightarrow> Price set" where
  "prices lv = fst ` set lv"

definition uncrossed :: "ReferenceBook \<Rightarrow> bool" where
  "uncrossed b \<longleftrightarrow> (\<forall>p \<in> fst ` set (rb_bids b). \<forall>p' \<in> fst ` set (rb_asks b). p < p')"

text \<open>The index holds exactly the orders of the two sides, each under its own location.\<close>

definition index_ok :: "ReferenceBook \<Rightarrow> bool" where
  "index_ok b \<longleftrightarrow> mset (rb_index b) = mset (entries Buy (rb_bids b)) + mset (entries Sell (rb_asks b)) \<and>
     distinct (map fst (rb_index b)) \<and> 0 \<notin> fst ` set (rb_index b)"

definition rb_inv :: "ReferenceBook \<Rightarrow> bool" where
  "rb_inv b \<longleftrightarrow> levels_ok Buy (rb_bids b) \<and> levels_ok Sell (rb_asks b) \<and> uncrossed b \<and> index_ok b \<and>
     (\<forall>p \<in> fst ` set (rb_bids b) \<union> fst ` set (rb_asks b). rb_min_price b \<le> p \<and> p \<le> rb_max_price b) \<and>
     length (rb_index b) \<le> rb_capacity b"

lemmas rb_inv_defs = rb_inv_def index_ok_def uncrossed_def levels_ok_def

lemma orders_simps [simp]:
  "orders [] = []" "orders ((p, q) # lv) = map (Pair p) q @ orders lv" "orders (lv @ lv') = orders lv @ orders lv'"
  by (simp_all add: orders_def)

lemma entries_simps [simp]:
  "entries s [] = []"
  "entries s ((p, q) # lv) = map (\<lambda>r. (ro_id r, loc s p)) q @ entries s lv"
  by (simp_all add: entries_def)

lemma loc_simps [simp]:
  "loc_side (loc s p) = s" "loc_price (loc s p) = p" "loc s p = loc s' p' \<longleftrightarrow> s = s' \<and> p = p'"
  by (auto simp: loc_def)

lemma loc_cases: obtains s p where "l = loc s p"
  by (cases l) (auto simp: loc_def)

lemma entries_loc: "(i, l) \<in> set (entries s lv) \<longleftrightarrow> (\<exists>p r. l = loc s p \<and> (p, r) \<in> set (orders lv) \<and> ro_id r = i)"
  by (force simp: entries_def)

lemma in_orders: "(p, r) \<in> set (orders lv) \<longleftrightarrow> (\<exists>q. (p, q) \<in> set lv \<and> r \<in> set q)"
  by (force simp: orders_def)

lemma px_before_simps: "px_before s p p' \<Longrightarrow> p \<noteq> p'" "\<not> px_before s p p"
  by (cases s; simp)+

lemma px_before_trans: "px_before s a b \<Longrightarrow> px_before s b c \<Longrightarrow> px_before s a c"
  by (cases s) auto

lemma px_before_cases: "p \<noteq> p' \<Longrightarrow> \<not> px_before s p p' \<Longrightarrow> px_before s p' p"
  by (cases s) auto

lemma levels_ok_Cons: "levels_ok s ((p, q) # lv) \<longleftrightarrow>
  q \<noteq> [] \<and> (\<forall>r \<in> set q. ro_qty r \<noteq> 0) \<and> (\<forall>p' \<in> prices lv. px_before s p p') \<and> levels_ok s lv"
  by (auto simp: levels_ok_def prices_def)

lemma prices_simps [simp]: "prices [] = {}" "prices ((p, q) # lv) = insert p (prices lv)"
  by (auto simp: prices_def)

lemma levels_ok_distinct: "levels_ok s lv \<Longrightarrow> distinct (map fst lv)"
  by (induction lv) (fastforce simp: levels_ok_Cons prices_def dest: px_before_simps(1))+

lemma levels_ok_Nil [simp]: "levels_ok s []"
  by (simp add: levels_ok_def)

section \<open>Matching\<close>

lemma om_erase_mset:
  assumes "distinct (map fst m)" and "mset m = add_mset (k, v) M"
  shows "mset (om_erase k m) = M" "distinct (map fst (om_erase k m))" "set (om_erase k m) \<subseteq> set m"
    "length m = Suc (length (om_erase k m))"
proof -
  have in_m: "(k, v) \<in> set m" using assms(2) by (metis set_mset_mset union_single_eq_member)
  have "mset m = add_mset (k, v) (mset (om_erase k m))" using assms(1) in_m
  proof (induction m)
    case (Cons p m)
    obtain k' v' where p: "p = (k', v')" by (cases p)
    show ?case
    proof (cases "p = (k, v)")
      case True
      with Cons.prems have "om_erase k m = m" by (intro om_erase_absent) auto
      with True show ?thesis by simp
    next
      case False
      with Cons.prems have "(k, v) \<in> set m" "k' \<noteq> k" by (force simp: p)+
      with Cons show ?thesis by (simp add: p)
    qed
  qed simp
  with assms(2) show "mset (om_erase k m) = M" by simp
  then show "length m = Suc (length (om_erase k m))"
    using assms(2) by (metis size_add_mset size_mset)
  show "distinct (map fst (om_erase k m))"
    using assms(1) unfolding om_erase_def by (rule distinct_map_filter)
  show "set (om_erase k m) \<subseteq> set m" by (auto simp: set_om_erase)
qed

text \<open>The seven outcomes for the front of a queue.\<close>

lemma match_queue_Cons_cases:
  assumes "match_queue sm taker owner side limit stp px (r # q) ix qty = (q', ix', qty', stop, evs)"
    and "qty \<noteq> 0"
  obtains
    (Incoming) "stp = CancelIncoming" "ro_owner r = owner" "q' = r # q" "ix' = ix" "qty' = qty" "stop" "evs = []"
  | (Decrement) "stp = DecrementCancel" "ro_owner r = owner" "ro_qty r > qty"
      "q' = r\<lparr>ro_qty := ro_qty r - qty\<rparr> # q" "ix' = ix" "qty' = qty" "stop"
      "evs = [stp_decrement_event sm (ro_id r) (opposite side) px (ro_qty r - qty)]"
  | (Both) "stp = DecrementCancel" "ro_owner r = owner" "ro_qty r = qty"
      "q' = q" "ix' = om_erase (ro_id r) ix" "qty' = qty" "stop"
      "evs = [canceled_event sm (ro_id r) (opposite side) px (ro_qty r) SelfTrade]"
  | (Reduce) evs' where "stp = DecrementCancel" "ro_owner r = owner" "ro_qty r < qty"
      "match_queue sm taker owner side limit stp px q (om_erase (ro_id r) ix) (qty - ro_qty r) =
         (q', ix', qty', stop, evs')"
      "evs = canceled_event sm (ro_id r) (opposite side) px (ro_qty r) SelfTrade #
             stp_decrement_event sm taker side limit (qty - ro_qty r) # evs'"
  | (Drop) evs' where "stp = CancelResting" "ro_owner r = owner"
      "match_queue sm taker owner side limit stp px q (om_erase (ro_id r) ix) qty = (q', ix', qty', stop, evs')"
      "evs = canceled_event sm (ro_id r) (opposite side) px (ro_qty r) SelfTrade # evs'"
  | (Fill) evs' where "stp \<noteq> StpNone \<Longrightarrow> ro_owner r \<noteq> owner" "ro_qty r \<le> qty"
      "match_queue sm taker owner side limit stp px q (om_erase (ro_id r) ix) (qty - ro_qty r) =
         (q', ix', qty', stop, evs')"
      "evs = trade_event sm taker (ro_id r) side px (ro_qty r) 0 # evs'"
  | (Part) "stp \<noteq> StpNone \<Longrightarrow> ro_owner r \<noteq> owner" "ro_qty r > qty"
      "q' = r\<lparr>ro_qty := ro_qty r - qty\<rparr> # q" "ix' = ix" "qty' = 0" "\<not> stop"
      "evs = [trade_event sm taker (ro_id r) side px qty (ro_qty r - qty)]"
proof (cases "stp \<noteq> StpNone \<and> ro_owner r = owner")
  case True
  with assms show thesis
    by (cases stp) (auto simp: Let_def not_less split: if_splits prod.splits intro: that)
next
  case False
  show thesis
  proof (cases "ro_qty r \<le> qty")
    case True
    then have "min (ro_qty r) qty = ro_qty r" by (simp add: min_def)
    with assms False True show thesis
      by (auto simp: Let_def split: prod.splits intro: that)
  next
    case le: False
    then have "min (ro_qty r) qty = qty" "ro_qty r - qty \<noteq> 0" by (auto simp: min_def)
    with assms False le show thesis
      by (auto simp: Let_def split: prod.splits intro: that)
  qed
qed

lemma match_queue_zero [simp]: "match_queue sm taker owner side limit stp px q ix 0 = (q, ix, 0, False, [])"
  by (cases q) auto

text \<open>
  One queue: what is left of it and of the index. A loop that ends with quantity open and no
  self-trade stop has emptied the queue.
\<close>

lemma match_queue_inv:
  assumes "match_queue sm taker owner side limit stp px q ix qty = (q', ix', qty', stop, evs)"
    and "\<forall>r \<in> set q. ro_qty r \<noteq> 0"
    and "mset ix = mset (map (\<lambda>r. (ro_id r, l)) q) + M" and "distinct (map fst ix)"
  shows "(\<forall>r \<in> set q'. ro_qty r \<noteq> 0) \<and> mset ix' = mset (map (\<lambda>r. (ro_id r, l)) q') + M \<and>
    distinct (map fst ix') \<and> set ix' \<subseteq> set ix \<and> length ix' \<le> length ix \<and>
    (q' \<noteq> [] \<longrightarrow> qty' = 0 \<or> stop) \<and> (stop \<longrightarrow> qty' \<noteq> 0)"
  using assms
proof (induction q arbitrary: ix qty q' ix' qty' stop evs)
  case (Cons r q)
  have "mset ix = add_mset (ro_id r, l) (mset (map (\<lambda>r. (ro_id r, l)) q) + M)" using Cons.prems(3) by simp
  note e = om_erase_mset [OF Cons.prems(4) this]
  have IH: ?case
    if "match_queue sm taker owner side limit stp px q (om_erase (ro_id r) ix) n = (q', ix', qty', stop, evs')"
    for n evs'
    using Cons.IH [OF that _ e(1,2)] Cons.prems(2) e(3,4) by auto
  show ?case
  proof (cases "qty = 0")
    case False
    with Cons.prems(1) show ?thesis
      by (cases rule: match_queue_Cons_cases) (use Cons.prems(2-) False e IH in auto)
  qed (use Cons.prems in auto)
qed auto

lemma in_range_mono: "px_before (opposite side) p p' \<Longrightarrow> in_range side limit p' \<Longrightarrow> in_range side limit p"
  by (cases side) auto

text \<open>The three outcomes for the best level of a side.\<close>

lemma match_side_Cons_cases:
  assumes "match_side sm taker owner side limit stp ((px, q) # lv) ix qty = (lv', ix', qty', stop, evs)"
  obtains
    (Out) "qty = 0 \<or> \<not> in_range side limit px" "lv' = (px, q) # lv" "ix' = ix" "qty' = qty" "\<not> stop" "evs = []"
  | (End) q' where "qty \<noteq> 0" "in_range side limit px"
      "match_queue sm taker owner side limit stp px q ix qty = (q', ix', qty', stop, evs)"
      "stop \<or> q' \<noteq> []" "lv' = (if q' = [] then lv else (px, q') # lv)"
  | (Next) ix1 qty1 evs1 evs2 where "qty \<noteq> 0" "in_range side limit px"
      "match_queue sm taker owner side limit stp px q ix qty = ([], ix1, qty1, False, evs1)"
      "match_side sm taker owner side limit stp lv ix1 qty1 = (lv', ix', qty', stop, evs2)"
      "evs = evs1 @ evs2"
proof (cases "qty = 0 \<or> \<not> in_range side limit px")
  case True
  with assms show thesis by (intro Out) auto
next
  case False
  obtain q1 ix1 qty1 stop1 evs1 where
    m: "match_queue sm taker owner side limit stp px q ix qty = (q1, ix1, qty1, stop1, evs1)"
    by (rule prod_cases5)
  show thesis
  proof (cases "stop1 \<or> q1 \<noteq> []")
    case True
    with assms False m show thesis by (intro End [of q1]) (auto simp: Let_def split: if_splits)
  next
    case go: False
    obtain lv2 ix2 qty2 stop2 evs2 where
      "match_side sm taker owner side limit stp lv ix1 qty1 = (lv2, ix2, qty2, stop2, evs2)"
      by (rule prod_cases5)
    with assms False m go show thesis by (intro Next [of ix1 qty1 evs1 evs2]) (auto simp: Let_def)
  qed
qed

text \<open>
  The whole side. Unless the sweep was stopped, quantity left over means that no remaining level is
  within the limit.
\<close>

lemma match_side_inv:
  assumes "match_side sm taker owner side limit stp lv ix qty = (lv', ix', qty', stop, evs)"
    and "levels_ok (opposite side) lv" and "mset ix = mset (entries s lv) + M" and "distinct (map fst ix)"
  shows "levels_ok (opposite side) lv' \<and> mset ix' = mset (entries s lv') + M \<and> distinct (map fst ix') \<and>
    set ix' \<subseteq> set ix \<and> length ix' \<le> length ix \<and> prices lv' \<subseteq> prices lv \<and>
    (\<not> stop \<longrightarrow> qty' \<noteq> 0 \<longrightarrow> (\<forall>p \<in> prices lv'. \<not> in_range side limit p)) \<and> (stop \<longrightarrow> qty' \<noteq> 0)"
  using assms
proof (induction lv arbitrary: ix qty lv' ix' qty' stop evs)
  case (Cons pq lv)
  obtain px q where pq: "pq = (px, q)" by (cases pq)
  note m = Cons.prems(1) [unfolded pq]
  have ok: "levels_ok (opposite side) lv" "\<forall>r \<in> set q. ro_qty r \<noteq> 0"
    and after: "\<And>p'. p' \<in> prices lv \<Longrightarrow> px_before (opposite side) px p'"
    using Cons.prems(2) by (auto simp: pq levels_ok_Cons)
  have mix: "mset ix = mset (map (\<lambda>r. (ro_id r, loc s px)) q) + (mset (entries s lv) + M)"
    using Cons.prems(3) by (simp add: pq)
  note mq = match_queue_inv [OF _ ok(2) mix Cons.prems(4)]
  from m show ?case
  proof (cases rule: match_side_Cons_cases)
    case Out
    have "\<forall>p \<in> prices lv'. \<not> in_range side limit p" if "qty' \<noteq> 0"
      using Out that after in_range_mono [of side px _ limit] by auto
    with Out Cons.prems(2-4) show ?thesis by (simp add: pq)
  next
    case (End q')
    from mq [OF End(3)] End(4,5) ok after show ?thesis by (auto simp: pq levels_ok_Cons)
  next
    case (Next ix1 qty1 evs1 evs2)
    note q1 = mq [OF Next(3)]
    then have "mset ix1 = mset (entries s lv) + M" "distinct (map fst ix1)" by simp_all
    from Cons.IH [OF Next(4) ok(1) this] q1 show ?thesis by (auto simp: pq)
  qed
qed auto

section \<open>The invariant, seen from one side\<close>

lemma rb_levels_set [simp]:
  "rb_levels s (rb_set_levels s l b) = l"
  "rb_levels (opposite s) (rb_set_levels s l b) = rb_levels (opposite s) b"
  "rb_levels s (rb_set_levels (opposite s) l b) = rb_levels s b"
  "rb_index (rb_set_levels s l b) = rb_index b"
  "rb_symbol (rb_set_levels s l b) = rb_symbol b" "rb_stp (rb_set_levels s l b) = rb_stp b"
  "rb_min_price (rb_set_levels s l b) = rb_min_price b" "rb_max_price (rb_set_levels s l b) = rb_max_price b"
  "rb_capacity (rb_set_levels s l b) = rb_capacity b"
  by (cases s; simp)+

lemma rb_levels_index [simp]: "rb_levels s (b\<lparr>rb_index := ix\<rparr>) = rb_levels s b"
  by (cases s) auto

text \<open>No price of side \<open>s\<close> is one at which an order there could trade with the other side.\<close>

lemma rb_inv_side:
  "rb_inv b \<longleftrightarrow>
     levels_ok s (rb_levels s b) \<and> levels_ok (opposite s) (rb_levels (opposite s) b) \<and>
     (\<forall>p \<in> prices (rb_levels s b). \<forall>p' \<in> prices (rb_levels (opposite s) b). \<not> in_range s p p') \<and>
     mset (rb_index b) = mset (entries s (rb_levels s b)) + mset (entries (opposite s) (rb_levels (opposite s) b)) \<and>
     distinct (map fst (rb_index b)) \<and> 0 \<notin> fst ` set (rb_index b) \<and>
     (\<forall>p \<in> prices (rb_levels s b) \<union> prices (rb_levels (opposite s) b). rb_min_price b \<le> p \<and> p \<le> rb_max_price b) \<and>
     length (rb_index b) \<le> rb_capacity b"
  unfolding rb_inv_def index_ok_def uncrossed_def prices_def [symmetric]
  by (cases s; simp add: ball_Un not_le add.commute; blast)

lemma rb_invD:
  assumes "rb_inv b"
  shows "levels_ok s (rb_levels s b)"
    "\<And>p p'. p \<in> prices (rb_levels s b) \<Longrightarrow> p' \<in> prices (rb_levels (opposite s) b) \<Longrightarrow> \<not> in_range s p p'"
    "mset (rb_index b) = mset (entries s (rb_levels s b)) + mset (entries (opposite s) (rb_levels (opposite s) b))"
    "distinct (map fst (rb_index b))" "0 \<notin> fst ` set (rb_index b)"
    "\<And>p. p \<in> prices (rb_levels s b) \<Longrightarrow> rb_min_price b \<le> p \<and> p \<le> rb_max_price b"
    "length (rb_index b) \<le> rb_capacity b"
  by (use assms [unfolded rb_inv_side [of b s]] in simp_all)

lemma rb_invI:
  assumes "levels_ok s (rb_levels s b)" and "levels_ok (opposite s) (rb_levels (opposite s) b)"
    and "\<And>p p'. p \<in> prices (rb_levels s b) \<Longrightarrow> p' \<in> prices (rb_levels (opposite s) b) \<Longrightarrow> \<not> in_range s p p'"
    and "mset (rb_index b) = mset (entries s (rb_levels s b)) + mset (entries (opposite s) (rb_levels (opposite s) b))"
    and "distinct (map fst (rb_index b))" and "0 \<notin> fst ` set (rb_index b)"
    and "\<And>p t. p \<in> prices (rb_levels t b) \<Longrightarrow> rb_min_price b \<le> p \<and> p \<le> rb_max_price b"
    and "length (rb_index b) \<le> rb_capacity b"
  shows "rb_inv b"
  unfolding rb_inv_side [where s = s] using assms by (simp add: ball_Un)

lemma rb_init_inv: "rb_inv (rb_init sm cfg)"
  by (simp add: rb_inv_def index_ok_def uncrossed_def rb_init_def)

text \<open>
  After matching: the book is still well-formed, and an order that is left with quantity and was not
  stopped can rest at its limit without crossing.
\<close>

lemma rb_match_inv:
  assumes "rb_match b taker owner side limit qty stp = (b', left, stop, evs)" and "rb_inv b"
  shows "rb_inv b' \<and> rb_symbol b' = rb_symbol b \<and> rb_min_price b' = rb_min_price b \<and>
    rb_max_price b' = rb_max_price b \<and> rb_capacity b' = rb_capacity b \<and> rb_stp b' = rb_stp b \<and>
    set (rb_index b') \<subseteq> set (rb_index b) \<and> rb_levels side b' = rb_levels side b \<and>
    (\<not> stop \<longrightarrow> left \<noteq> 0 \<longrightarrow> (\<forall>p \<in> prices (rb_levels (opposite side) b'). \<not> in_range side limit p)) \<and>
    (stop \<longrightarrow> left \<noteq> 0)"
proof -
  obtain lv ix where
    m: "match_side (rb_symbol b) taker owner side limit stp (rb_levels (opposite side) b) (rb_index b) qty =
          (lv, ix, left, stop, evs)"
    and b': "b' = (rb_set_levels (opposite side) lv b)\<lparr>rb_index := ix\<rparr>"
    using assms(1) by (auto simp: rb_match_def split: prod.splits)
  note inv = rb_invD [OF assms(2)]
  have "mset (rb_index b) = mset (entries (opposite side) (rb_levels (opposite side) b)) +
          mset (entries side (rb_levels side b))" using inv(3) [of side] by (simp add: ac_simps)
  from match_side_inv [OF m inv(1) this inv(4)]
  have r: "levels_ok (opposite side) lv" "mset ix = mset (entries side (rb_levels side b)) + mset (entries (opposite side) lv)"
    "distinct (map fst ix)" "set ix \<subseteq> set (rb_index b)" "length ix \<le> length (rb_index b)"
    "prices lv \<subseteq> prices (rb_levels (opposite side) b)"
    "\<not> stop \<longrightarrow> left \<noteq> 0 \<longrightarrow> (\<forall>p \<in> prices lv. \<not> in_range side limit p)" "stop \<longrightarrow> left \<noteq> 0"
    by (simp_all add: prices_def)
  have "rb_inv b'"
  proof (rule rb_invI [of side])
    fix p t assume "p \<in> prices (rb_levels t b')"
    then show "rb_min_price b' \<le> p \<and> p \<le> rb_max_price b'"
      using inv(6) [of p t] inv(6) [of p "opposite t"] r(6) by (cases t; cases side) (auto simp: b')
  qed (use inv(1,2) r(1-6) inv(5) order_trans [OF r(5) inv(7)] in \<open>auto simp: b'\<close>)
  with r(4,7,8) show ?thesis by (simp add: b')
qed

section \<open>Resting, removing and amending\<close>

abbreviation enqueue :: "Side \<Rightarrow> Price \<Rightarrow> RefOrder \<Rightarrow> Levels \<Rightarrow> Levels" where
  "enqueue s px r lv \<equiv> om_alter (px_before s) px (\<lambda>q. (case q of None \<Rightarrow> [] | Some q \<Rightarrow> q) @ [r]) lv"

lemma enqueue_ok:
  assumes "levels_ok s lv" and "ro_qty r \<noteq> 0"
  shows "levels_ok s (enqueue s px r lv)"
    and "mset (entries s (enqueue s px r lv)) = add_mset (ro_id r, loc s px) (mset (entries s lv))"
    and "prices (enqueue s px r lv) = insert px (prices lv)"
proof -
  show "prices (enqueue s px r lv) = insert px (prices lv)"
    unfolding prices_def by (rule set_om_alter_keys)
  show "mset (entries s (enqueue s px r lv)) = add_mset (ro_id r, loc s px) (mset (entries s lv))"
    by (induction lv) auto
  show "levels_ok s (enqueue s px r lv)" using assms
  proof (induction lv)
    case (Cons pq lv)
    obtain p q where pq: "pq = (p, q)" by (cases pq)
    consider "px = p" | "px \<noteq> p" "px_before s px p" | "px \<noteq> p" "\<not> px_before s px p" by blast
    then show ?case
    proof cases
      case 2
      then have "\<forall>p' \<in> prices lv. px_before s px p'"
        using Cons.prems(1) px_before_trans [OF 2(2)] by (auto simp: pq levels_ok_Cons)
      with 2 Cons.prems show ?thesis by (simp add: pq levels_ok_Cons)
    next
      case 3
      then have "px_before s p px" using px_before_cases by blast
      with 3 Cons show ?thesis by (simp add: pq levels_ok_Cons prices_def set_om_alter_keys)
    qed (use Cons.prems in \<open>auto simp: pq levels_ok_Cons\<close>)
  qed (auto simp: levels_ok_def)
qed

lemma remove_level_simps [simp]:
  "remove_level oid px [] = []"
  "remove_level oid px ((p, q) # lv) =
     (let q' = (if p = px then filter (\<lambda>r. ro_id r \<noteq> oid) q else q)
      in if q' = [] then remove_level oid px lv else (p, q') # remove_level oid px lv)"
  by (simp_all add: remove_level_def)

lemma amend_level_simps [simp]:
  "amend_level oid px qty [] = []"
  "amend_level oid px qty ((p, q) # lv) =
     (p, if p = px then map (\<lambda>r. if ro_id r = oid then r\<lparr>ro_qty := qty\<rparr> else r) q else q) # amend_level oid px qty lv"
  by (simp_all add: amend_level_def)

lemma entries_remove: "entries s (remove_level oid px lv) = filter (\<lambda>e. e \<noteq> (oid, loc s px)) (entries s lv)"
proof (induction lv)
  case (Cons pq lv)
  obtain p q where pq: "pq = (p, q)" by (cases pq)
  have "filter (\<lambda>e. e \<noteq> (oid, loc s px)) (map (\<lambda>r. (ro_id r, loc s p)) q) =
      map (\<lambda>r. (ro_id r, loc s p)) (if p = px then filter (\<lambda>r. ro_id r \<noteq> oid) q else q)"
    by (induction q) (auto simp: loc_def)
  with Cons show ?case by (simp add: pq Let_def)
qed simp

lemma levels_ok_remove: "levels_ok s lv \<Longrightarrow> levels_ok s (remove_level oid px lv)"
  and prices_remove: "prices (remove_level oid px lv) \<subseteq> prices lv"
proof -
  have *: "prices (remove_level oid px lv) \<subseteq> prices lv" for lv
    by (force simp: remove_level_def prices_def)
  then show "prices (remove_level oid px lv) \<subseteq> prices lv" .
  assume "levels_ok s lv"
  then show "levels_ok s (remove_level oid px lv)"
  proof (induction lv)
    case (Cons pq lv)
    obtain p q where pq: "pq = (p, q)" by (cases pq)
    have "\<forall>p' \<in> prices (remove_level oid px lv). px_before s p p'"
      using Cons.prems * [of lv] by (auto simp: pq levels_ok_Cons)
    with Cons show ?case by (auto simp: pq levels_ok_Cons Let_def)
  qed simp
qed

lemma entries_amend: "entries s (amend_level oid px qty lv) = entries s lv"
  by (induction lv) auto

lemma prices_amend [simp]: "prices (amend_level oid px qty lv) = prices lv"
  by (force simp: prices_def amend_level_def)

lemma levels_ok_amend: "levels_ok s lv \<Longrightarrow> qty \<noteq> 0 \<Longrightarrow> levels_ok s (amend_level oid px qty lv)"
proof (induction lv)
  case (Cons pq lv)
  obtain p q where pq: "pq = (p, q)" by (cases pq)
  have "\<forall>p' \<in> prices (amend_level oid px qty lv). px_before s p p'"
    using Cons.prems by (auto simp: pq levels_ok_Cons)
  with Cons show ?case by (auto simp: pq levels_ok_Cons)
qed simp

lemma price_in_range:
  assumes "rb_inv b" and "p \<in> prices (rb_levels t b)"
  shows "rb_min_price b \<le> p \<and> p \<le> rb_max_price b"
  using rb_invD(6) [OF assms] .

text \<open>An indexed order is where its location says, and dereferencing the location finds it.\<close>

lemma rb_index_lookup:
  assumes "rb_inv b" and "map_of (rb_index b) oid = Some (loc s p)"
  obtains q r where "(p, q) \<in> set (rb_levels s b)" "r \<in> set q" "ro_id r = oid" "deref b oid (loc s p) = Some r"
proof -
  note inv = rb_invD(1,3) [OF assms(1), of s]
  have "(oid, loc s p) \<in># mset (rb_index b)" using map_of_SomeD [OF assms(2)] by simp
  then have "(oid, loc s p) \<in> set (entries s (rb_levels s b))"
    unfolding inv(2) by (auto simp: entries_loc)
  then obtain q r where q: "(p, q) \<in> set (rb_levels s b)" "r \<in> set q" "ro_id r = oid"
    by (auto simp: entries_loc in_orders)
  have "distinct (map fst (rb_levels s b))"
    using inv(1) by (rule levels_ok_distinct)
  with q(1) have m: "map_of (rb_levels s b) p = Some q" by simp
  obtain r' where r': "find (\<lambda>r. ro_id r = oid) q = Some r'"
    using q(2,3) by (metis (mono_tags, lifting) find_None_iff option.exhaust)
  then have "r' \<in> set q" "ro_id r' = oid" by (auto simp: find_Some_iff)
  with q(1) m r' that show thesis by (simp add: deref_def)
qed

text \<open>Removal together with erasure from the index keeps the book well-formed.\<close>

lemma rb_remove_inv:
  assumes "rb_inv b" and "map_of (rb_index b) oid = Some (loc s px)"
    and b': "b' = (rb_remove b oid (loc s px))\<lparr>rb_index := om_erase oid (rb_index b)\<rparr>"
  shows "rb_inv b'" and "length (rb_index b') < rb_capacity b'"
proof -
  let ?ix = "om_erase oid (rb_index b)" and ?e = "(oid, loc s px)"
  note inv = rb_invD [OF assms(1)]
  have in_ix: "?e \<in> set (rb_index b)" using assms(2) by (rule map_of_SomeD)
  have same: "fst e \<noteq> oid \<longleftrightarrow> e \<noteq> ?e" if "e \<in> set (rb_index b)" for e
    using that in_ix inv(4) by (metis eq_key_imp_eq_value fst_conv prod.collapse)
  have "?ix = filter (\<lambda>e. e \<noteq> ?e) (rb_index b)"
    unfolding om_erase_def by (rule filter_cong) (use same in auto)
  moreover have "filter (\<lambda>e. e \<noteq> ?e) (entries (opposite s) lv) = entries (opposite s) lv" for lv
    by (auto simp: filter_id_conv entries_loc)
  ultimately have m: "mset ?ix = mset (entries s (remove_level oid px (rb_levels s b))) +
      mset (entries (opposite s) (rb_levels (opposite s) b))"
    using inv(3) [of s] by (metis entries_remove filter_union_mset mset_filter)
  have len: "length ?ix < length (rb_index b)"
    unfolding om_erase_def using in_ix by (metis (mono_tags, lifting) fst_conv length_filter_less)
  show "rb_inv b'"
  proof (rule rb_invI [of s])
    fix p t assume "p \<in> prices (rb_levels t b')"
    then have "p \<in> prices (rb_levels t b)"
      using prices_remove [of oid px "rb_levels s b"]
      by (cases "t = s"; cases t; cases s) (auto simp: b' rb_remove_def)
    with inv(6) show "rb_min_price b' \<le> p \<and> p \<le> rb_max_price b'" by (auto simp: b' rb_remove_def)
  next
    fix p p' assume "p \<in> prices (rb_levels s b')" "p' \<in> prices (rb_levels (opposite s) b')"
    then show "\<not> in_range s p p'"
      using inv(2) prices_remove [of oid px "rb_levels s b"] by (auto simp: b' rb_remove_def)
  next
    show "distinct (map fst (rb_index b'))"
      using inv(4) by (simp add: b' om_erase_def distinct_map_filter)
    show "0 \<notin> fst ` set (rb_index b')" using inv(5) by (auto simp: b' set_om_erase)
    show "length (rb_index b') \<le> rb_capacity b'" using len inv(7) by (simp add: b' rb_remove_def)
  qed (use inv(1) m in \<open>simp_all add: b' rb_remove_def levels_ok_remove\<close>)
  show "length (rb_index b') < rb_capacity b'" using len inv(7) by (simp add: b' rb_remove_def)
qed

lemma rb_rest_inv:
  assumes "rb_rest b oid owner s px qty = (b', evs)" and "rb_inv b"
    and "qty \<noteq> 0" "oid \<noteq> 0" "oid \<notin> fst ` set (rb_index b)" "rb_min_price b \<le> px" "px \<le> rb_max_price b"
    and "\<And>p. p \<in> prices (rb_levels (opposite s) b) \<Longrightarrow> \<not> in_range s px p"
  shows "rb_inv b'"
proof (cases "length (rb_index b) \<ge> rb_capacity b")
  case True
  with assms(1,2) show ?thesis by (simp add: rb_rest_def)
next
  case False
  note inv = rb_invD [OF assms(2)]
  let ?r = "\<lparr>ro_id = oid, ro_qty = qty, ro_owner = owner\<rparr>"
  note en = enqueue_ok [OF inv(1), of ?r s px, simplified, OF assms(3)]
  have b': "b' = (rb_set_levels s (enqueue s px ?r (rb_levels s b)) b)\<lparr>rb_index := (oid, loc s px) # rb_index b\<rparr>"
    using False assms(1) by (simp add: rb_rest_def Let_def loc_def)
  show ?thesis
  proof (rule rb_invI [of s])
    fix p t assume "p \<in> prices (rb_levels t b')"
    then have "p = px \<or> p \<in> prices (rb_levels t b)"
      using en(3) by (cases "t = s"; cases t; cases s) (auto simp: b')
    with inv(6) assms(6,7) show "rb_min_price b' \<le> p \<and> p \<le> rb_max_price b'" by (auto simp: b')
  next
    fix p p' assume "p \<in> prices (rb_levels s b')" "p' \<in> prices (rb_levels (opposite s) b')"
    then show "\<not> in_range s p p'" using inv(2) en(3) assms(8) by (auto simp: b')
  qed (use inv(1,3,4,5) en(1,2) assms(4,5) False in \<open>auto simp: b'\<close>)
qed

section \<open>Every operation preserves the invariant\<close>

lemma not_indexed: "map_of m k = None \<longleftrightarrow> k \<notin> fst ` set m"
  by (simp add: map_of_eq_None_iff)

text \<open>The common tail of an addition and of a re-entering modification.\<close>

lemma match_rest_inv:
  assumes "rb_inv b" and "rb_match b oid owner s px qty stp = (b1, left, stop, evs1)"
    and "rb_rest b1 oid owner' s px left = (b2, evs2)"
    and "left \<noteq> 0" "\<not> stop" "oid \<noteq> 0" "oid \<notin> fst ` set (rb_index b)" "rb_min_price b \<le> px" "px \<le> rb_max_price b"
  shows "rb_inv b2"
proof (rule rb_rest_inv [OF assms(3)])
  note m = rb_match_inv [OF assms(2,1)]
  from m show "rb_inv b1" by blast
  from m assms(7) show "oid \<notin> fst ` set (rb_index b1)" by blast
  from m assms(4,5) show "\<not> in_range s px p" if "p \<in> prices (rb_levels (opposite s) b1)" for p
    using that by blast
  from m assms(8,9) show "rb_min_price b1 \<le> px" "px \<le> rb_max_price b1" by simp_all
qed (use assms in simp_all)

definition rb_limit :: "ReferenceBook \<Rightarrow> Command \<Rightarrow> Price" where
  "rb_limit b c = (if c_ord_type c = Market
     then (if c_side c = Buy then rb_max_price b else rb_min_price b) else c_price c)"

definition px_shown :: "Command \<Rightarrow> Price" where
  "px_shown c = (if c_ord_type c = Market then 0 else c_price c)"

definition acceptance :: "ReferenceBook \<Rightarrow> Command \<Rightarrow> Event" where
  "acceptance b c = accepted_event (rb_symbol b) (c_order_id c) (c_side c) (px_shown c) (c_qty c)"

definition expiry :: "ReferenceBook \<Rightarrow> Command \<Rightarrow> Qty \<Rightarrow> Reason \<Rightarrow> Event" where
  "expiry b c left r = canceled_event (rb_symbol b) (c_order_id c) (c_side c) (px_shown c) left r"

definition accepts :: "ReferenceBook \<Rightarrow> Command \<Rightarrow> bool" where
  "accepts b c \<longleftrightarrow> c_order_id c \<noteq> 0 \<and> c_qty c \<noteq> 0 \<and>
     (c_ord_type c \<noteq> Market \<longrightarrow> rb_min_price b \<le> c_price c \<and> c_price c \<le> rb_max_price b) \<and>
     map_of (rb_index b) (c_order_id c) = None \<and>
     (c_flags c AND kFlagPostOnly \<noteq> 0 \<longrightarrow> \<not> rb_crosses b (c_side c) (rb_limit b c))"

definition reject_reason :: "ReferenceBook \<Rightarrow> Command \<Rightarrow> Reason" where
  "reject_reason b c =
     (if c_order_id c = 0 then InvalidOrderId else if c_qty c = 0 then InvalidQty
      else if c_ord_type c \<noteq> Market \<and> \<not> (rb_min_price b \<le> c_price c \<and> c_price c \<le> rb_max_price b) then InvalidPrice
      else if map_of (rb_index b) (c_order_id c) \<noteq> None then DuplicateOrderId else WouldCross)"

text \<open>The ways an addition ends.\<close>

lemma rb_add_cases:
  assumes "rb_add b c = (b', evs)"
  obtains
    (Reject) "\<not> accepts b c" "b' = b" "evs = [rejected_event c (reject_reason b c)]"
  | (Kill) "accepts b c" "c_tif c = Fok"
      "\<not> rb_fillable b (c_side c) (rb_limit b c) (c_qty c) (c_owner c) (effective_stp (c_flags c) (rb_stp b))"
      "b' = b" "evs = [acceptance b c, expiry b c (c_qty c) FokUnfilled]"
  | (Match) left stop evs1 b1 where "accepts b c"
      "c_tif c = Fok \<Longrightarrow>
         rb_fillable b (c_side c) (rb_limit b c) (c_qty c) (c_owner c) (effective_stp (c_flags c) (rb_stp b))"
      "rb_match b (c_order_id c) (c_owner c) (c_side c) (rb_limit b c) (c_qty c) (effective_stp (c_flags c) (rb_stp b)) =
         (b1, left, stop, evs1)"
      "left = 0 \<Longrightarrow> b' = b1 \<and> evs = acceptance b c # evs1"
      "left \<noteq> 0 \<Longrightarrow> stop \<Longrightarrow> b' = b1 \<and> evs = acceptance b c # evs1 @ [expiry b c left SelfTrade]"
      "left \<noteq> 0 \<Longrightarrow> \<not> stop \<Longrightarrow> c_ord_type c = Market \<or> c_tif c \<noteq> Day \<Longrightarrow>
         b' = b1 \<and> evs = acceptance b c # evs1 @ [expiry b c left IocExpired]"
      "left \<noteq> 0 \<Longrightarrow> \<not> stop \<Longrightarrow> c_ord_type c \<noteq> Market \<Longrightarrow> c_tif c = Day \<Longrightarrow>
         \<exists>evs2. rb_rest b1 (c_order_id c) (c_owner c) (c_side c) (c_price c) left = (b', evs2) \<and>
           evs = acceptance b c # evs1 @ evs2"
proof (cases "accepts b c")
  case False
  with assms show thesis
    by (intro Reject) (auto simp: rb_add_def accepts_def reject_reason_def rb_limit_def not_le Let_def split: if_splits)
next
  case True
  let ?f = "rb_fillable b (c_side c) (rb_limit b c) (c_qty c) (c_owner c) (effective_stp (c_flags c) (rb_stp b))"
  obtain b1 left stop evs1 where
    m: "rb_match b (c_order_id c) (c_owner c) (c_side c) (rb_limit b c) (c_qty c) (effective_stp (c_flags c) (rb_stp b)) =
          (b1, left, stop, evs1)" by (rule prod_cases4)
  have eq: "rb_add b c =
      (if c_tif c = Fok \<and> \<not> ?f then (b, [acceptance b c, expiry b c (c_qty c) FokUnfilled])
       else if left = 0 then (b1, acceptance b c # evs1)
       else if stop then (b1, acceptance b c # evs1 @ [expiry b c left SelfTrade])
       else if c_ord_type c = Market \<or> c_tif c \<noteq> Day then (b1, acceptance b c # evs1 @ [expiry b c left IocExpired])
       else (let (b'', evs') = rb_rest b1 (c_order_id c) (c_owner c) (c_side c) (rb_limit b c) left
             in (b'', acceptance b c # evs1 @ evs')))"
    using True m unfolding rb_add_def Let_def rb_limit_def [symmetric] px_shown_def [symmetric] acceptance_def expiry_def
    by (auto simp: accepts_def not_less)
  show thesis
  proof (cases "c_tif c = Fok \<and> \<not> ?f")
    case kill: True
    with assms eq True show thesis by (intro Kill) auto
  next
    case False
    with True m assms eq show thesis
      by (intro Match [of b1 left stop evs1]) (auto simp: rb_limit_def split: prod.splits)
  qed
qed

lemma rb_add_inv:
  assumes "rb_add b c = (b', evs)" and "rb_inv b"
  shows "rb_inv b'"
  using assms(1)
proof (cases rule: rb_add_cases)
  case (Match left stop evs1 b1)
  note b1 = rb_match_inv [OF Match(3) assms(2)]
  show ?thesis
  proof (cases "left \<noteq> 0 \<and> \<not> stop \<and> c_ord_type c \<noteq> Market \<and> c_tif c = Day")
    case True
    with Match(7) obtain evs2 where
      r: "rb_rest b1 (c_order_id c) (c_owner c) (c_side c) (rb_limit b c) left = (b', evs2)"
      by (auto simp: rb_limit_def)
    show ?thesis
      by (rule match_rest_inv [OF assms(2) Match(3) r])
        (use True Match(1) in \<open>auto simp: rb_limit_def accepts_def not_indexed\<close>)
  next
    case False
    with Match(4-6) have "b' = b1" by blast
    with b1 show ?thesis by simp
  qed
qed (use assms(2) in auto)

lemma rb_cancel_inv:
  assumes "rb_cancel b c = (b', evs)" and "rb_inv b"
  shows "rb_inv b'"
proof (cases "map_of (rb_index b) (c_order_id c)")
  case (Some l)
  obtain s p where l: "l = loc s p" by (rule loc_cases)
  from rb_remove_inv(1) [OF assms(2) Some [unfolded l] refl] assms(1) Some l show ?thesis
    by (simp add: rb_cancel_def Let_def)
qed (use assms in \<open>simp add: rb_cancel_def\<close>)

lemma rb_modify_inv:
  assumes "rb_modify b c = (b', evs)" and "rb_inv b"
  shows "rb_inv b'"
proof (cases "c_qty c = 0 \<or> map_of (rb_index b) (c_order_id c) = None \<or>
    c_price c < rb_min_price b \<or> c_price c > rb_max_price b")
  case True
  with assms show ?thesis by (auto simp: rb_modify_def split: option.splits if_splits)
next
  case False
  then obtain l where l': "map_of (rb_index b) (c_order_id c) = Some l" by auto
  obtain s p where "l = loc s p" by (rule loc_cases)
  with l' have l: "map_of (rb_index b) (c_order_id c) = Some (loc s p)" by simp
  from rb_index_lookup [OF assms(2) l] obtain r where r: "deref b (c_order_id c) (loc s p) = Some r" by blast
  show ?thesis
  proof (cases "c_price c = p \<and> c_qty c \<le> ro_qty r")
    case True
    then have b': "b' = rb_set_levels s (amend_level (c_order_id c) p (c_qty c) (rb_levels s b)) b"
      using assms(1) False l r by (auto simp: rb_modify_def)
    note inv = rb_invD [OF assms(2)]
    show ?thesis
    proof (rule rb_invI [of s])
      fix q t assume "q \<in> prices (rb_levels t b')"
      then have "q \<in> prices (rb_levels t b)" by (cases "t = s"; cases t; cases s) (auto simp: b')
      with inv(6) show "rb_min_price b' \<le> q \<and> q \<le> rb_max_price b'" by (auto simp: b')
    qed (use inv(1-5) inv(7) False in \<open>auto simp: b' levels_ok_amend entries_amend\<close>)
  next
    case re: False
    define b1 where "b1 = (rb_remove b (c_order_id c) (loc s p))\<lparr>rb_index := om_erase (c_order_id c) (rb_index b)\<rparr>"
    note b1 = rb_remove_inv(1) [OF assms(2) l b1_def]
    have out: "c_order_id c \<notin> fst ` set (rb_index b1)" by (auto simp: b1_def set_om_erase)
    have oid: "c_order_id c \<noteq> 0" using rb_invD(5) [OF assms(2)] map_of_SomeD [OF l] by force
    obtain b2 left stop evs2 where
      m: "rb_match b1 (c_order_id c) (ro_owner r) s (c_price c) (c_qty c) (rb_stp b) = (b2, left, stop, evs2)"
      by (rule prod_cases4)
    obtain b3 evs3 where re3: "rb_rest b2 (c_order_id c) (ro_owner r) s (c_price c) left = (b3, evs3)"
      by (rule prod.exhaust)
    consider "b' = b2" | "b' = b3" "left \<noteq> 0" "\<not> stop"
      using assms(1) False l r re m re3 by (auto simp: rb_modify_def Let_def b1_def [symmetric] split: if_splits)
    then show ?thesis
    proof cases
      case 2
      show ?thesis unfolding 2(1)
        by (rule match_rest_inv [OF b1 m re3]) (use 2 False out oid in \<open>auto simp: b1_def rb_remove_def\<close>)
    qed (use rb_match_inv [OF m b1] in auto)
  qed
qed

lemma rb_process_inv:
  assumes "rb_process b c = (b', evs)" and "rb_inv b"
  shows "rb_inv b'"
  using assms rb_add_inv rb_cancel_inv rb_modify_inv by (cases "c_type c") auto

text \<open>A run of commands, and the books it can reach.\<close>

fun rb_run :: "ReferenceBook \<Rightarrow> Command list \<Rightarrow> ReferenceBook \<times> Event list" where
  "rb_run b [] = (b, [])"
| "rb_run b (c # cs) = (let (b', evs) = rb_process b c; (b'', evs') = rb_run b' cs in (b'', evs @ evs'))"

lemma rb_run_inv: "rb_inv b \<Longrightarrow> rb_inv (fst (rb_run b cs))"
proof (induction cs arbitrary: b)
  case (Cons c cs)
  obtain b' evs where p: "rb_process b c = (b', evs)" by (rule prod.exhaust)
  from Cons.IH [OF rb_process_inv [OF p Cons.prems]] p show ?case
    by (auto simp del: rb_process.simps split: prod.splits)
qed simp

section \<open>How a queue's match ends\<close>

lemma match_queue_end:
  assumes "match_queue sm taker owner side limit stp px q ix qty = (q', ix', qty', stop, evs)"
  shows "q' = [] \<or> qty' = 0 \<or> stop" and "stop \<longrightarrow> qty' \<noteq> 0"
proof -
  have "(q' = [] \<or> qty' = 0 \<or> stop) \<and> (stop \<longrightarrow> qty' \<noteq> 0)" using assms
  proof (induction q arbitrary: ix qty evs)
    case (Cons r q)
    show ?case
    proof (cases "qty = 0")
      case False
      with Cons.prems show ?thesis
        by (cases rule: match_queue_Cons_cases) (use False Cons.IH in blast)+
    qed (use Cons.prems in auto)
  qed auto
  then show "q' = [] \<or> qty' = 0 \<or> stop" "stop \<longrightarrow> qty' \<noteq> 0" by auto
qed

section \<open>The pre-check predicts the match\<close>

lemma scan_queue_match:
  assumes "match_queue sm taker owner side limit stp px q ix qty = (q', ix', qty', stop, evs)"
    and "\<forall>r \<in> set q. ro_qty r \<noteq> 0" and "qty \<noteq> 0"
  shows "scan_queue owner stp q qty = (if stop then Inl False else if qty' = 0 then Inl True else Inr qty')"
  using assms
proof (induction q arbitrary: ix qty evs)
  case (Cons r q)
  from Cons.prems(1,3) show ?case
  proof (cases rule: match_queue_Cons_cases)
    case (Reduce evs')
    then have "qty - ro_qty r \<noteq> 0" by auto
    with Cons.IH [OF Reduce(4)] Reduce Cons.prems(2) show ?thesis by (auto simp: not_le)
  next
    case (Drop evs')
    from Cons.IH [OF Drop(3)] Drop Cons.prems(2,3) show ?thesis by auto
  next
    case (Fill evs')
    show ?thesis
    proof (cases "ro_qty r = qty")
      case True
      with Fill show ?thesis by auto
    next
      case False
      with Fill(2) have "\<not> ro_qty r \<ge> qty" "qty - ro_qty r \<noteq> 0" by auto
      with Cons.IH [OF Fill(3)] Fill(1) Cons.prems(2) show ?thesis by auto
    qed
  qed (use Cons.prems in auto)
qed auto

lemma scan_levels_match:
  assumes "match_side sm taker owner side limit stp lv ix qty = (lv', ix', qty', stop, evs)"
    and "levels_ok (opposite side) lv" and "qty \<noteq> 0"
  shows "scan_levels owner stp side limit lv qty \<longleftrightarrow> qty' = 0"
  using assms
proof (induction lv arbitrary: ix qty evs)
  case (Cons pq lv)
  obtain px q where pq: "pq = (px, q)" by (cases pq)
  have ok: "levels_ok (opposite side) lv" "\<forall>r \<in> set q. ro_qty r \<noteq> 0"
    using Cons.prems(2) by (auto simp: pq levels_ok_Cons)
  from Cons.prems(1) [unfolded pq] show ?case
  proof (cases rule: match_side_Cons_cases)
    case (End q')
    from scan_queue_match [OF End(3) ok(2) End(1)] match_queue_end [OF End(3)] End(2,4) show ?thesis
      by (auto simp: pq)
  next
    case (Next ix1 qty1 evs1 evs2)
    show ?thesis
    proof (cases "qty1 = 0")
      case True
      have "qty' = 0" using Next(4) True by (cases lv) auto
      with scan_queue_match [OF Next(3) ok(2) Next(1)] Next(2) True show ?thesis by (simp add: pq)
    next
      case False
      with Cons.IH [OF Next(4) ok(1)] scan_queue_match [OF Next(3) ok(2) Next(1)] Next(2) show ?thesis
        by (simp add: pq)
    qed
  qed (use Cons.prems(3) in \<open>auto simp: pq\<close>)
qed auto

end
