(* ===== verification/Book_Invariant.thy ===== *)
theory Book_Invariant
  imports Order_Book Reference_Props
begin

text \<open>
  The structure of the book of \<^verbatim>\<open>include/exsim/order_book.hpp\<close>, over any order store: every level is an
  intrusive queue of slots, the queues, the free list and the index describe the same set of live
  slots, and the bitmaps and the touch agree with the non-empty levels. The steps of the operations
  (dropping the front of a queue, reducing a quantity, unlinking, appending) preserve it.
\<close>

section \<open>Queues by side and level\<close>

text \<open>The ghost state: the slots queued at each level, for each side.\<close>

type_synonym queues = "Side \<Rightarrow> nat \<Rightarrow> nat list"

definition live :: "queues \<Rightarrow> nat set" where
  "live Q = (\<Union>t i. set (Q t i))"

definition at_level :: "queues \<Rightarrow> nat \<Rightarrow> nat list" where
  "at_level Q i = Q Buy i @ Q Sell i"

definition put :: "Side \<Rightarrow> nat \<Rightarrow> nat list \<Rightarrow> queues \<Rightarrow> queues" where
  "put t i xs Q = Q(t := (Q t)(i := xs))"

lemma put_apply [simp]:
  "put t i xs Q t i = xs" "j \<noteq> i \<Longrightarrow> put t i xs Q u j = Q u j" "put t i xs Q (opposite t) j = Q (opposite t) j"
  "u \<noteq> t \<Longrightarrow> put t i xs Q u = Q u"
  by (auto simp: put_def)

lemma put_put [simp]: "put t i ys (put t i xs Q) = put t i ys Q"
  by (auto simp: put_def)

lemma put_same [simp]: "put t i (Q t i) Q = Q"
  by (auto simp: put_def)

lemma at_level_side: "Q (opposite t) i = [] \<Longrightarrow> at_level Q i = Q t i"
  by (cases t) (auto simp: at_level_def)

lemma at_level_put: "Q (opposite t) i = [] \<Longrightarrow> at_level (put t i xs Q) j = (if j = i then xs else at_level Q j)"
  by (cases t) (auto simp: at_level_def put_def)

lemma at_level_in: "s \<in> set (at_level Q i) \<longleftrightarrow> (\<exists>t. s \<in> set (Q t i))"
  by (auto simp: at_level_def) (metis Side.exhaust)

lemma live_iff: "s \<in> live Q \<longleftrightarrow> (\<exists>t i. s \<in> set (Q t i))"
  by (auto simp: live_def)

lemma side_cases: "t = u \<or> t = opposite (u :: Side)"
  by (cases t; cases u) auto

section \<open>Field access\<close>

lemma lv_upd_simps [simp]:
  "ob_levels (lv_upd i f b) = (ob_levels b)[i := f (ob_levels b ! i)]"
  "ob_symbol (lv_upd i f b) = ob_symbol b" "ob_min_price (lv_upd i f b) = ob_min_price b"
  "ob_n (lv_upd i f b) = ob_n b" "ob_stp (lv_upd i f b) = ob_stp b"
  "ob_best_bid (lv_upd i f b) = ob_best_bid b" "ob_best_ask (lv_upd i f b) = ob_best_ask b"
  "ob_bid_bits (lv_upd i f b) = ob_bid_bits b" "ob_ask_bits (lv_upd i f b) = ob_ask_bits b"
  "ob_ids (lv_upd i f b) = ob_ids b" "ob_store (lv_upd i f b) = ob_store b"
  by (simp_all add: lv_upd_def)

lemma data_upd_simps [simp]:
  "ob_levels (data_upd f b) = ob_levels b" "data (data_upd f b) = f (data b)"
  "st_free (ob_store (data_upd f b)) = st_free (ob_store b)" "st_cap (ob_store (data_upd f b)) = st_cap (ob_store b)"
  "st_live (ob_store (data_upd f b)) = st_live (ob_store b)"
  "ob_symbol (data_upd f b) = ob_symbol b" "ob_min_price (data_upd f b) = ob_min_price b"
  "ob_n (data_upd f b) = ob_n b" "ob_stp (data_upd f b) = ob_stp b"
  "ob_best_bid (data_upd f b) = ob_best_bid b" "ob_best_ask (data_upd f b) = ob_best_ask b"
  "ob_bid_bits (data_upd f b) = ob_bid_bits b" "ob_ask_bits (data_upd f b) = ob_ask_bits b"
  "ob_ids (data_upd f b) = ob_ids b"
  by (simp_all add: data_upd_def)

text \<open>What an operation on a queue leaves alone.\<close>

definition same_frame :: "'d OrderBook \<Rightarrow> 'd OrderBook \<Rightarrow> bool" where
  "same_frame b b' \<longleftrightarrow> ob_symbol b' = ob_symbol b \<and> ob_min_price b' = ob_min_price b \<and> ob_n b' = ob_n b \<and>
     ob_stp b' = ob_stp b \<and> st_cap (ob_store b') = st_cap (ob_store b)"

definition same_touch :: "'d OrderBook \<Rightarrow> 'd OrderBook \<Rightarrow> bool" where
  "same_touch b b' \<longleftrightarrow> same_frame b b' \<and> ob_best_bid b' = ob_best_bid b \<and> ob_best_ask b' = ob_best_ask b \<and>
     ob_bid_bits b' = ob_bid_bits b \<and> ob_ask_bits b' = ob_ask_bits b \<and>
     map lv_tail (ob_levels b') = map lv_tail (ob_levels b)"

lemma same_frame_refl [simp]: "same_frame b b" and same_touch_refl [simp]: "same_touch b b"
  by (auto simp: same_frame_def same_touch_def)

lemma same_frame_trans: "same_frame a b \<Longrightarrow> same_frame b c \<Longrightarrow> same_frame a c"
  and same_touch_trans: "same_touch a b \<Longrightarrow> same_touch b c \<Longrightarrow> same_touch a c"
  by (auto simp: same_frame_def same_touch_def)

section \<open>The touch\<close>

fun step_bits :: "Side \<Rightarrow> PriceBitmap \<Rightarrow> int \<Rightarrow> int" where
  "step_bits Buy bm i = pb_find_prev bm (i - 1)"
| "step_bits Sell bm i = pb_find_next bm (i + 1)"

lemma step_level_bits: "step_level t b i = step_bits t (bits t b) i"
  by (cases t) auto

fun best_ok :: "Side \<Rightarrow> nat \<Rightarrow> int \<Rightarrow> (nat \<Rightarrow> nat list) \<Rightarrow> bool" where
  "best_ok Buy n i q \<longleftrightarrow> - 1 \<le> i \<and> i < int n \<and> (0 \<le> i \<longrightarrow> q (nat i) \<noteq> []) \<and> (\<forall>j < n. i < int j \<longrightarrow> q j = [])"
| "best_ok Sell n i q \<longleftrightarrow> 0 \<le> i \<and> i \<le> int n \<and> (i < int n \<longrightarrow> q (nat i) \<noteq> []) \<and> (\<forall>j < n. int j < i \<longrightarrow> q j = [])"

text \<open>The bitmap of a side marks its non-empty levels, and the best level is the extreme one.\<close>

definition side_touch :: "Side \<Rightarrow> nat \<Rightarrow> PriceBitmap \<Rightarrow> int \<Rightarrow> (nat \<Rightarrow> nat list) \<Rightarrow> bool" where
  "side_touch t n bm i q \<longleftrightarrow> pb_invar bm \<and> pb_n bm = int n \<and> (\<forall>j < n. pb_test bm (int j) = (q j \<noteq> [])) \<and> best_ok t n i q"

lemma best_ok_cong: "0 < n \<Longrightarrow> (\<And>j. j < n \<Longrightarrow> (q j = []) = (q' j = [])) \<Longrightarrow> best_ok t n i q = best_ok t n i q'"
  by (cases t) auto

lemma side_touch_pos: "side_touch t n bm i q \<Longrightarrow> 0 < n"
  using pb.size_pos [of bm] by (auto simp: side_touch_def)

lemma side_touch_cong:
  assumes "side_touch t n bm i q" and "\<And>j. j < n \<Longrightarrow> (q j = []) = (q' j = [])"
  shows "side_touch t n bm i q'"
  using assms(1) best_ok_cong [OF side_touch_pos [OF assms(1)] assms(2), where t = t and i = i] assms(2)
  by (auto simp: side_touch_def)

lemma int_levels: "(\<forall>j. 0 \<le> j \<longrightarrow> j < int n \<longrightarrow> P j) \<longleftrightarrow> (\<forall>j < n. P (int j))"
  by (metis nat_eq_iff2 of_nat_0_le_iff of_nat_less_iff)

lemma side_touch_clear:
  assumes "side_touch t n bm bst q" and i: "i < n" and bm': "bm' = pb_clear (int i) bm"
  shows "side_touch t n bm' (if int i = bst then step_bits t bm' (int i) else bst) (q(i := []))"
proof -
  have bm: "pb_invar bm" "pb_n bm = int n" "\<forall>j < n. pb_test bm (int j) = (q j \<noteq> [])" and bst: "best_ok t n bst q"
    using assms(1) by (auto simp: side_touch_def)
  have c: "pb_invar bm'" "pb_n bm' = int n" "\<forall>j < n. pb_test bm' (int j) = (int j \<noteq> int i \<and> pb_test bm (int j))"
    using pb.clear_law [OF bm(1), of "int i"] bm(2) i unfolding bm' int_levels [symmetric] by auto
  have t: "\<forall>j < n. pb_test bm' (int j) = ((q(i := [])) j \<noteq> [])" using c(3) bm(3) by auto
  have b: "best_ok t n (if int i = bst then step_bits t bm' (int i) else bst) (q(i := []))"
  proof (cases "int i = bst")
    case False
    with bst show ?thesis by (cases t) auto
  next
    case True
    show ?thesis
    proof (cases t)
      case Buy
      define r where "r = pb_find_prev bm' (int i - 1)"
      have r: "- 1 \<le> r" "r \<le> int i - 1" "0 \<le> r \<longrightarrow> pb_test bm' r" "\<forall>j. r < j \<longrightarrow> j \<le> int i - 1 \<longrightarrow> \<not> pb_test bm' j"
        using pb.prev_law [OF c(1) _ _ r_def] i c(2) by auto
      have "(q(i := [])) (nat r) \<noteq> []" if "0 \<le> r"
        using t [rule_format, of "nat r"] that r(2,3) i by auto
      moreover have "(q(i := [])) j = []" if "j < n" "r < int j" for j
      proof (cases "int j \<le> int i - 1")
        case True
        then show ?thesis using t [rule_format, OF that(1)] r(4) that(2) by blast
      next
        case False
        then show ?thesis using bst that Buy \<open>int i = bst\<close> by (cases "j = i") auto
      qed
      ultimately have "best_ok t n r (q(i := []))" unfolding Buy using r(1,2) i by (simp del: fun_upd_apply)
      then show ?thesis using True Buy by (simp add: r_def)
    next
      case Sell
      define r where "r = pb_find_next bm' (int i + 1)"
      have r: "int i + 1 \<le> r" "r \<le> int n" "r < int n \<longrightarrow> pb_test bm' r" "\<forall>j. int i + 1 \<le> j \<longrightarrow> j < r \<longrightarrow> \<not> pb_test bm' j"
        using pb.next_law [OF c(1) _ _ r_def] i c(2) by auto
      have "(q(i := [])) (nat r) \<noteq> []" if "r < int n"
        using t [rule_format, of "nat r"] that r(1,3) by auto
      moreover have "(q(i := [])) j = []" if "j < n" "int j < r" for j
      proof (cases "int i + 1 \<le> int j")
        case True
        then show ?thesis using t [rule_format, OF that(1)] r(4) that(2) by blast
      next
        case False
        then show ?thesis using bst that Sell \<open>int i = bst\<close> by (cases "j = i") auto
      qed
      ultimately have "best_ok t n r (q(i := []))" unfolding Sell using r(1,2) by (simp del: fun_upd_apply)
      then show ?thesis using True Sell by (simp add: r_def)
    qed
  qed
  from c(1,2) t b show ?thesis by (simp add: side_touch_def)
qed

fun better :: "Side \<Rightarrow> int \<Rightarrow> int \<Rightarrow> int" where
  "better Buy i k = (if i > k then i else k)"
| "better Sell i k = (if i < k then i else k)"

lemma side_touch_set:
  assumes "side_touch t n bm bst q" and i: "i < n" and "xs \<noteq> []"
  shows "side_touch t n (pb_set (int i) bm) (better t (int i) bst) (q(i := xs))"
proof -
  have bm: "pb_invar bm" "pb_n bm = int n" "\<forall>j < n. pb_test bm (int j) = (q j \<noteq> [])" and bst: "best_ok t n bst q"
    using assms(1) by (auto simp: side_touch_def)
  have "\<forall>j < n. pb_test (pb_set (int i) bm) (int j) = (int j = int i \<or> pb_test bm (int j))"
    "pb_invar (pb_set (int i) bm)" "pb_n (pb_set (int i) bm) = int n"
    using pb.set_law [OF bm(1), of "int i"] bm(2) i unfolding int_levels [symmetric] by auto
  with bm(3) bst i assms(3) show ?thesis by (cases t) (auto simp: side_touch_def)
qed

section \<open>The structural invariant\<close>

context order_store
begin

definition queue_links :: "'d \<Rightarrow> nat \<Rightarrow> Level \<Rightarrow> nat list \<Rightarrow> bool" where
  "queue_links d h lv xs \<longleftrightarrow> chain (so_next ops d) h xs kNil \<and> distinct xs \<and>
     (xs \<noteq> [] \<longrightarrow> lv_tail lv = last xs) \<and> successively (\<lambda>a c. so_prev ops d c = a) xs \<and>
     lv_qty lv = sum_list (map (so_qty ops d) xs)"

definition struct_inv :: "nat \<Rightarrow> 'd OrderBook \<Rightarrow> (nat \<Rightarrow> nat) \<Rightarrow> queues \<Rightarrow> nat list \<Rightarrow> bool" where
  "struct_inv n b h Q F \<longleftrightarrow> length (ob_levels b) = n \<and> ob_n b = int n \<and>
     (\<forall>i < n. queue_links (data b) (h i) (ob_levels b ! i) (at_level Q i)) \<and>
     (\<forall>t i s. s \<in> set (Q t i) \<longrightarrow> i < n \<and> so_level ops (data b) s = i \<and> so_side ops (data b) s = t \<and>
        so_qty ops (data b) s \<noteq> 0) \<and>
     (\<forall>i. Q Buy i = [] \<or> Q Sell i = []) \<and>
     split_slots (ob_store b) F (live Q) \<and> oi.represents (ob_ids b) (so_id ops (data b)) (live Q) \<and>
     st_cap (ob_store b) + 1 < slot_count (ob_ids b)"

definition ref_of :: "'d \<Rightarrow> nat \<Rightarrow> RefOrder" where
  "ref_of d s = \<lparr>ro_id = so_id ops d s, ro_qty = so_qty ops d s, ro_owner = so_owner ops d s\<rparr>"

lemma struct_invD:
  assumes "struct_inv n b h Q F"
  shows "length (ob_levels b) = n" "ob_n b = int n"
    "\<And>i. i < n \<Longrightarrow> queue_links (data b) (h i) (ob_levels b ! i) (at_level Q i)"
    "\<And>t i s. s \<in> set (Q t i) \<Longrightarrow> i < n \<and> so_level ops (data b) s = i \<and> so_side ops (data b) s = t \<and>
        so_qty ops (data b) s \<noteq> 0"
    "\<And>t i. Q t i = [] \<or> Q (opposite t) i = []"
    "split_slots (ob_store b) F (live Q)" "oi.represents (ob_ids b) (so_id ops (data b)) (live Q)"
    "st_cap (ob_store b) + 1 < slot_count (ob_ids b)"
proof -
  show "Q t i = [] \<or> Q (opposite t) i = []" for t i
    using assms by (cases t) (auto simp: struct_inv_def)
qed (use assms in \<open>auto simp: struct_inv_def\<close>)

lemma struct_invI:
  assumes "length (ob_levels b) = n" "ob_n b = int n"
    "\<And>i. i < n \<Longrightarrow> queue_links (data b) (h i) (ob_levels b ! i) (at_level Q i)"
    "\<And>t i s. s \<in> set (Q t i) \<Longrightarrow> i < n \<and> so_level ops (data b) s = i \<and> so_side ops (data b) s = t \<and>
        so_qty ops (data b) s \<noteq> 0"
    "\<And>i. Q t i = [] \<or> Q (opposite t) i = []"
    "split_slots (ob_store b) F (live Q)" "oi.represents (ob_ids b) (so_id ops (data b)) (live Q)"
    "st_cap (ob_store b) + 1 < slot_count (ob_ids b)"
  shows "struct_inv n b h Q F"
proof -
  have "Q Buy i = [] \<or> Q Sell i = []" for i using assms(5) [of i] by (cases t) auto
  then show ?thesis using assms by (auto simp: struct_inv_def)
qed

text \<open>A queued slot is queued once: at its own level, on its own side.\<close>

lemma live_put:
  assumes "struct_inv n b h Q F"
  shows "live (put t i xs Q) = live Q - set (Q t i) \<union> set xs"
proof -
  have *: "u = t \<and> j = i" if "s \<in> set (Q u j)" "s \<in> set (Q t i)" for s u j
    using struct_invD(4) [OF assms that(1)] struct_invD(4) [OF assms that(2)] by auto
  show ?thesis
  proof (intro set_eqI iffI)
    fix s assume "s \<in> live (put t i xs Q)"
    then obtain u j where uj: "s \<in> set (put t i xs Q u j)" by (auto simp: live_iff)
    show "s \<in> live Q - set (Q t i) \<union> set xs"
    proof (cases "u = t \<and> j = i")
      case False
      then have "s \<in> set (Q u j)" using uj by (cases "j = i"; cases "u = t") auto
      with * False show ?thesis by (auto simp: live_iff)
    qed (use uj in auto)
  next
    fix s assume "s \<in> live Q - set (Q t i) \<union> set xs"
    then consider "s \<in> set xs" | u j where "s \<in> set (Q u j)" "s \<notin> set (Q t i)" by (auto simp: live_iff)
    then show "s \<in> live (put t i xs Q)"
    proof cases
      case (2 u j)
      then have "put t i xs Q u j = Q u j" by (cases "j = i"; cases "u = t") auto
      with 2 show ?thesis by (metis live_iff)
    qed (metis live_iff put_apply(1))
  qed
qed

lemma other_level:
  assumes "struct_inv n b h Q F" and "s \<in> set (Q t i)" and "j \<noteq> i"
  shows "s \<notin> set (at_level Q j)"
  unfolding at_level_in using struct_invD(4) [OF assms(1)] assms(2,3) by metis

lemma queue_links_cong:
  assumes "\<And>s. s \<in> set xs \<Longrightarrow> so_next ops d' s = so_next ops d s \<and> so_prev ops d' s = so_prev ops d s \<and>
      so_qty ops d' s = so_qty ops d s"
  shows "queue_links d' h lv xs = queue_links d h lv xs"
proof -
  have "chain (so_next ops d') h xs kNil = chain (so_next ops d) h xs kNil"
    by (rule chain_cong) (use assms in auto)
  moreover have "successively (\<lambda>a c. so_prev ops d' c = a) xs = successively (\<lambda>a c. so_prev ops d c = a) xs"
    by (rule successively_cong) (use assms in auto)
  moreover have "map (so_qty ops d') xs = map (so_qty ops d) xs" using assms by simp
  ultimately show ?thesis unfolding queue_links_def by presburger
qed

lemma side_queue:
  assumes "struct_inv n b h Q F" and "Q t i \<noteq> []"
  shows "Q (opposite t) i = []" and "at_level Q i = Q t i" and "i < n"
proof -
  show e: "Q (opposite t) i = []" using struct_invD(5) [OF assms(1), of t i] assms(2) by blast
  then show "at_level Q i = Q t i" by (rule at_level_side)
  show "i < n" using struct_invD(4) [OF assms(1), of "hd (Q t i)" t i] assms(2) by simp
qed

text \<open>
  The front of a queue leaves the book: the index forgets it, its slot is released and the level
  quantity drops. The head of the level is the caller's to set.
\<close>

lemma drop_front:
  assumes inv: "struct_inv n b h Q F" and q: "Q t i = s # xs"
  shows "\<exists>ids. ix_erase_known (ob_ids b) (so_id ops (data b) s) s = Some ids \<and>
    struct_inv n ((lv_upd i (\<lambda>l. l\<lparr>lv_qty := lv_qty l - so_qty ops (data b) s\<rparr>) b)
        \<lparr>ob_ids := ids, ob_store := release ops s (ob_store b)\<rparr>)
      (h(i := so_next ops (data b) s)) (put t i xs Q) (s # F)"
proof -
  note D = struct_invD [OF inv]
  have s: "s \<in> live Q" using q by (metis live_iff list.set_intros(1))
  have al: "at_level Q i = s # xs" "Q (opposite t) i = []" "i < n" using side_queue [OF inv, of t i] q by auto
  note R = release_split [OF D(6) s]
  obtain ids where ids: "ix_erase_known (ob_ids b) (so_id ops (data b) s) s = Some ids"
    "slot_count ids = slot_count (ob_ids b)" "oi.represents ids (so_id ops (data b)) (live Q - {s})"
    using oi.represents_erase_slot [OF D(7) s] by blast
  have links: "queue_links (data b) (h i) (ob_levels b ! i) (s # xs)" using D(3) [OF al(3)] al(1) by simp
  then have sx: "s \<notin> set xs" "s = h i" by (auto simp: queue_links_def)
  have "set xs \<subseteq> live Q" using q by (metis live_iff list.set_intros(2) subsetI)
  then have lv: "live (put t i xs Q) = live Q - {s}"
    using live_put [OF inv, of t i xs] sx(1) unfolding q list.set by blast
  define b' where "b' = (lv_upd i (\<lambda>l. l\<lparr>lv_qty := lv_qty l - so_qty ops (data b) s\<rparr>) b)
        \<lparr>ob_ids := ids, ob_store := release ops s (ob_store b)\<rparr>"
  have "struct_inv n b' (h(i := so_next ops (data b) s)) (put t i xs Q) (s # F)"
  proof (rule struct_invI [where t = t])
    fix j assume j: "j < n"
    show "queue_links (data b') ((h(i := so_next ops (data b) s)) j) (ob_levels b' ! j) (at_level (put t i xs Q) j)"
    proof (cases "j = i")
      case True
      have "queue_links (data b) (so_next ops (data b) s) (ob_levels b' ! i) xs"
        using links D(1) al(3) by (auto simp: queue_links_def b'_def successively_Cons)
      moreover have "queue_links (data b') k l xs = queue_links (data b) k l xs" for k l
        by (rule queue_links_cong) (use R sx in \<open>auto simp: b'_def\<close>)
      ultimately show ?thesis using True al(2) by (simp add: at_level_put)
    next
      case False
      have "s \<notin> set (at_level Q j)" using other_level [OF inv _ False, of s t] q by simp
      then have "queue_links (data b') k l (at_level Q j) = queue_links (data b) k l (at_level Q j)" for k l
        by (intro queue_links_cong) (use R in \<open>auto simp: b'_def\<close>)
      with D(3) [OF j] False al(2) show ?thesis by (simp add: at_level_put b'_def)
    qed
  next
    fix u j v assume "v \<in> set (put t i xs Q u j)"
    then have "v \<in> set (Q u j)" using q by (cases "u = t"; cases "j = i") auto
    from D(4) [OF this] show "j < n \<and> so_level ops (data b') v = j \<and> so_side ops (data b') v = u \<and> so_qty ops (data b') v \<noteq> 0"
      using R by (simp add: b'_def)
  next
    fix j show "put t i xs Q t j = [] \<or> put t i xs Q (opposite t) j = []"
      using D(5) [of t j] al(2) by (cases "j = i") auto
  qed (use D(1,2,8) R ids lv in \<open>auto simp: b'_def\<close>)
  with ids(1) show ?thesis unfolding b'_def by blast
qed

text \<open>A queued order keeps its place and gets a smaller quantity.\<close>

lemma set_queued_qty:
  assumes inv: "struct_inv n b h Q F" and s: "s \<in> set (Q t i)" and q: "q \<noteq> 0"
    and b': "b' = data_upd (so_set_qty ops s q) (lv_upd i (\<lambda>l. l\<lparr>lv_qty := lv_qty l - (so_qty ops (data b) s - q)\<rparr>) b)"
  shows "struct_inv n b' h Q F" and "same_touch b b'"
    and "ref_of (data b') = (ref_of (data b))(s := (ref_of (data b) s)\<lparr>ro_qty := q\<rparr>)"
proof -
  note D = struct_invD [OF inv]
  have w: "wf (data b)" using D(6) by (simp add: split_slots_def)
  have sl: "s \<in> live Q" using s by (metis live_iff)
  note L = qty_law [OF w _ refl, of s q] split_bounds [OF D(6) sl]
  have i: "i < n" using D(4) [OF s] by simp
  show "struct_inv n b' h Q F"
  proof (rule struct_invI [where t = t])
    fix j assume j: "j < n"
    show "queue_links (data b') (h j) (ob_levels b' ! j) (at_level Q j)"
    proof (cases "j = i")
      case True
      have "s \<in> set (at_level Q i)" using s by (auto simp: at_level_in)
      then obtain as bs where ab: "at_level Q i = as @ s # bs" by (meson split_list)
      then have "s \<notin> set as" "s \<notin> set bs" using D(3) [OF i] by (auto simp: queue_links_def)
      then have "sum_list (map (so_qty ops (data b')) (at_level Q i)) =
          sum_list (map (so_qty ops (data b)) (at_level Q i)) - (so_qty ops (data b) s - q)"
        using L by (simp add: ab b')
      with True D(1,3) i L show ?thesis by (simp add: queue_links_def b')
    next
      case False
      have "s \<notin> set (at_level Q j)" using other_level [OF inv s False] .
      then have "queue_links (data b') k l (at_level Q j) = queue_links (data b) k l (at_level Q j)" for k l
        by (intro queue_links_cong) (use L in \<open>auto simp: b'\<close>)
      with D(3) [OF j] False show ?thesis by (simp add: b')
    qed
  next
    show "split_slots (ob_store b') F (live Q)" using D(6) L by (simp add: split_slots_def b')
  qed (use D(1,2,4,5,7,8) L q in \<open>auto simp: b'\<close>)
  show "same_touch b b'"
    using D(1) i by (auto simp: same_touch_def same_frame_def b' map_update intro!: nth_equalityI simp: nth_list_update)
  show "ref_of (data b') = (ref_of (data b))(s := (ref_of (data b) s)\<lparr>ro_qty := q\<rparr>)"
    using L by (auto simp: ref_of_def b' fun_eq_iff)
qed

lemma chain_next_hd: "chain h x (as @ s # bs) kNil \<Longrightarrow> h s = (if bs = [] then kNil else hd bs)"
  by (cases bs) (auto simp: chain_append)

lemma chain_unlink:
  assumes "chain h x (as @ s # bs) kNil" and "distinct (as @ s # bs)"
  shows "as = [] \<Longrightarrow> chain h (h s) bs kNil" and "as \<noteq> [] \<Longrightarrow> chain (h(last as := h s)) x (as @ bs) kNil"
proof -
  show "as = [] \<Longrightarrow> chain h (h s) bs kNil" using assms by simp
  assume "as \<noteq> []"
  then obtain as' p where as: "as = as' @ [p]" by (metis rev_exhaust)
  then show "chain (h(last as := h s)) x (as @ bs) kNil"
    using assms by (auto simp: chain_append chain_upd_other)
qed

text \<open>The queue of one level without the slot \<open>s\<close>: what \<^verbatim>\<open>unlink\<close> makes of the links around it.\<close>

definition unlinked :: "'d \<Rightarrow> Level \<Rightarrow> nat \<Rightarrow> 'd \<times> Level" where
  "unlinked d lv s =
    (let n = so_next ops d s; p = so_prev ops d s;
         (d1, lv1) = (if s = lv_head lv then (d, lv\<lparr>lv_head := n\<rparr>) else (so_set_next ops p n d, lv));
         (d2, lv2) = (if s = lv_tail lv1 then (d1, lv1\<lparr>lv_tail := (if lv_head lv1 = kNil then kNil else p)\<rparr>)
                      else (so_set_prev ops n p d1, lv1))
     in (d2, lv2\<lparr>lv_qty := lv_qty lv2 - so_qty ops d2 s\<rparr>))"

lemma unlinked_ok:
  assumes "queue_links d (lv_head lv) lv (as @ s # bs)" and "wf d" and "\<forall>x \<in> set (as @ s # bs). x < so_size ops d"
    and "unlinked d lv s = (d', lv')"
  shows "queue_links d' (lv_head lv') lv' (as @ bs)"
    and "as @ bs = [] \<Longrightarrow> lv_tail lv' = kNil" and "wf d'" and "so_size ops d' = so_size ops d"
    and "\<And>x. x \<notin> set (as @ s # bs) \<Longrightarrow> so_next ops d' x = so_next ops d x \<and> so_prev ops d' x = so_prev ops d x"
    and "so_qty ops d' = so_qty ops d" and "so_id ops d' = so_id ops d" and "so_level ops d' = so_level ops d"
    and "so_owner ops d' = so_owner ops d" and "so_side ops d' = so_side ops d"
proof -
  note L = assms(1) [unfolded queue_links_def]
  have ch: "chain (so_next ops d) (lv_head lv) (as @ s # bs) kNil" and di: "distinct (as @ s # bs)"
    and tl: "lv_tail lv = last (as @ s # bs)" and pv: "successively (\<lambda>a c. so_prev ops d c = a) (as @ s # bs)"
    and qt: "lv_qty lv = sum_list (map (so_qty ops d) (as @ s # bs))" using L by auto
  have s: "s \<noteq> kNil" using chain_not_kNil [OF ch] by simp
  have n: "so_next ops d s = (if bs = [] then kNil else hd bs)" using chain_next_hd [OF ch] .
  have hd: "s = lv_head lv \<longleftrightarrow> as = []" using ch di by (cases as) auto
  have tl': "s = lv_tail lv \<longleftrightarrow> bs = []" using tl di by (cases bs rule: rev_cases) auto
  have p: "as \<noteq> [] \<Longrightarrow> so_prev ops d s = last as" using pv by (auto simp: successively_append_iff)
  define d1 where "d1 = (if as = [] then d else so_set_next ops (last as) (so_next ops d s) d)"
  have N: "as \<noteq> [] \<Longrightarrow> wf d1 \<and> so_size ops d1 = so_size ops d \<and> so_next ops d1 = (so_next ops d)(last as := so_next ops d s) \<and>
      so_prev ops d1 = so_prev ops d \<and> so_qty ops d1 = so_qty ops d \<and> so_id ops d1 = so_id ops d \<and>
      so_level ops d1 = so_level ops d \<and> so_owner ops d1 = so_owner ops d \<and> so_side ops d1 = so_side ops d"
    using next_law [OF assms(2) _ refl, of "last as" "so_next ops d s"] assms(3) by (simp add: d1_def)
  have w1: "wf d1" "so_size ops d1 = so_size ops d" "so_prev ops d1 = so_prev ops d" "so_qty ops d1 = so_qty ops d"
    "so_id ops d1 = so_id ops d" "so_level ops d1 = so_level ops d" "so_owner ops d1 = so_owner ops d"
    "so_side ops d1 = so_side ops d" using N assms(2) by (cases "as = []"; simp add: d1_def)+
  define d2 where "d2 = (if bs = [] then d1 else so_set_prev ops (hd bs) (so_prev ops d s) d1)"
  have P: "bs \<noteq> [] \<Longrightarrow> wf d2 \<and> so_size ops d2 = so_size ops d1 \<and> so_next ops d2 = so_next ops d1 \<and>
      so_prev ops d2 = (so_prev ops d1)(hd bs := so_prev ops d s) \<and> so_qty ops d2 = so_qty ops d1 \<and> so_id ops d2 = so_id ops d1 \<and>
      so_level ops d2 = so_level ops d1 \<and> so_owner ops d2 = so_owner ops d1 \<and> so_side ops d2 = so_side ops d1"
    using prev_law [OF w1(1) _ refl, of "hd bs" "so_prev ops d s"] assms(3) w1(2) by (simp add: d2_def)
  have w2: "wf d2" "so_size ops d2 = so_size ops d" "so_next ops d2 = so_next ops d1" "so_qty ops d2 = so_qty ops d"
    "so_id ops d2 = so_id ops d" "so_level ops d2 = so_level ops d" "so_owner ops d2 = so_owner ops d"
    "so_side ops d2 = so_side ops d" using P w1 by (cases "bs = []"; simp add: d2_def)+
  have h: "as \<noteq> [] \<Longrightarrow> lv_head lv \<noteq> kNil" "as = [] \<Longrightarrow> bs \<noteq> [] \<Longrightarrow> so_next ops d s \<noteq> kNil"
    using ch by (auto simp: chain_kNil_start neq_Nil_conv)
  have d': "d' = d2" and lv': "lv' = \<lparr>lv_qty = lv_qty lv - so_qty ops d s,
      lv_head = (if as = [] then so_next ops d s else lv_head lv),
      lv_tail = (if bs = [] then (if as = [] then kNil else last as) else lv_tail lv)\<rparr>"
    using assms(4) hd tl' n p s w2(4) h
    by (auto simp: unlinked_def Let_def d1_def d2_def split: if_splits)
  have "chain (so_next ops d') (lv_head lv') (as @ bs) kNil"
    using chain_unlink [OF ch di] N w2(3) by (cases "as = []") (auto simp: d' lv' d1_def)
  moreover have "successively (\<lambda>a c. so_prev ops d' c = a) (as @ bs)"
  proof -
    have a: "successively (\<lambda>a c. so_prev ops d c = a) as" "successively (\<lambda>a c. so_prev ops d c = a) bs"
      using pv by (auto simp: successively_append_iff successively_Cons)
    show ?thesis
    proof (cases "bs = []")
      case True
      with a w1(3) show ?thesis by (simp add: d' d2_def)
    next
      case False
      then obtain c cs where bs: "bs = c # cs" by (cases bs) auto
      have pr: "so_prev ops d' = (so_prev ops d)(c := so_prev ops d s)" using P w1(3) bs by (simp add: d')
      have "successively (\<lambda>a c. so_prev ops d' c = a) as"
        by (rule successively_mono [OF a(1)]) (use di in \<open>auto simp: pr bs\<close>)
      moreover have "successively (\<lambda>a c. so_prev ops d' c = a) bs"
      proof -
        have "successively (\<lambda>a c. so_prev ops d' c = a) cs"
          by (rule successively_mono [of "\<lambda>a c. so_prev ops d c = a"]) (use a(2) di in \<open>auto simp: pr bs successively_Cons\<close>)
        with a(2) di show ?thesis by (cases cs) (auto simp: pr bs)
      qed
      ultimately show ?thesis using p by (auto simp: successively_append_iff pr bs)
    qed
  qed
  moreover have "lv_qty lv' = sum_list (map (so_qty ops d') (as @ bs))" using qt w2(4) by (simp add: d' lv')
  moreover have "as @ bs \<noteq> [] \<longrightarrow> lv_tail lv' = last (as @ bs)" using tl by (auto simp: lv')
  ultimately show "queue_links d' (lv_head lv') lv' (as @ bs)" using di by (simp add: queue_links_def)
  show "as @ bs = [] \<Longrightarrow> lv_tail lv' = kNil" by (simp add: lv')
  show "\<And>x. x \<notin> set (as @ s # bs) \<Longrightarrow> so_next ops d' x = so_next ops d x \<and> so_prev ops d' x = so_prev ops d x"
    using N P w1 w2 by (cases "as = []"; cases "bs = []") (auto simp: d' d1_def d2_def)
  show "wf d'" "so_size ops d' = so_size ops d" "so_qty ops d' = so_qty ops d" "so_id ops d' = so_id ops d"
    "so_level ops d' = so_level ops d" "so_owner ops d' = so_owner ops d" "so_side ops d' = so_side ops d"
    using w2 d' by auto
qed

section \<open>The book invariant\<close>

definition heads :: "'d OrderBook \<Rightarrow> nat \<Rightarrow> nat" where
  "heads b i = lv_head (ob_levels b ! i)"

lemmas heads_simp [simp] = heads_def

definition touch_inv :: "nat \<Rightarrow> 'd OrderBook \<Rightarrow> queues \<Rightarrow> bool" where
  "touch_inv n b Q \<longleftrightarrow> (\<forall>t. side_touch t n (bits t b) (best t b) (Q t)) \<and>
     (\<forall>i < n. at_level Q i = [] \<longrightarrow> lv_tail (ob_levels b ! i) = kNil) \<and>
     (\<forall>i j. Q Buy i \<noteq> [] \<longrightarrow> Q Sell j \<noteq> [] \<longrightarrow> i < j)"

definition book_inv :: "nat \<Rightarrow> 'd OrderBook \<Rightarrow> queues \<Rightarrow> nat list \<Rightarrow> bool" where
  "book_inv n b Q F \<longleftrightarrow> struct_inv n b (heads b) Q F \<and> touch_inv n b Q"

lemma best_bits_simps [simp]:
  "best t (lv_upd i f b) = best t b" "bits t (lv_upd i f b) = bits t b"
  "best t (data_upd g b) = best t b" "bits t (data_upd g b) = bits t b"
  "best t (b\<lparr>ob_levels := l\<rparr>) = best t b" "bits t (b\<lparr>ob_levels := l\<rparr>) = bits t b"
  "best t (b\<lparr>ob_store := st\<rparr>) = best t b" "bits t (b\<lparr>ob_store := st\<rparr>) = bits t b"
  "best t (b\<lparr>ob_ids := ids\<rparr>) = best t b" "bits t (b\<lparr>ob_ids := ids\<rparr>) = bits t b"
  "best t (set_bits u bm b) = best t b" "bits t (set_best u k b) = bits t b"
  "best t (set_best u k b) = (if u = t then k else best t b)"
  "bits t (set_bits u bm b) = (if u = t then bm else bits t b)"
  by (cases t; cases u; simp)+

lemma set_bits_best_fields [simp]:
  "ob_levels (set_bits u bm b) = ob_levels b" "ob_levels (set_best u k b) = ob_levels b"
  "ob_store (set_bits u bm b) = ob_store b" "ob_store (set_best u k b) = ob_store b"
  "ob_ids (set_bits u bm b) = ob_ids b" "ob_ids (set_best u k b) = ob_ids b"
  "ob_n (set_bits u bm b) = ob_n b" "ob_n (set_best u k b) = ob_n b"
  "ob_symbol (set_bits u bm b) = ob_symbol b" "ob_symbol (set_best u k b) = ob_symbol b"
  "ob_min_price (set_bits u bm b) = ob_min_price b" "ob_min_price (set_best u k b) = ob_min_price b"
  "ob_stp (set_bits u bm b) = ob_stp b" "ob_stp (set_best u k b) = ob_stp b"
  by (cases u; simp)+

lemma struct_cong:
  assumes "struct_inv n b h Q F" and "ob_levels b' = ob_levels b" "ob_n b' = ob_n b" "ob_store b' = ob_store b" "ob_ids b' = ob_ids b"
    and "\<And>i. i < n \<Longrightarrow> h' i = h i"
  shows "struct_inv n b' h' Q F"
  using assms(1) unfolding struct_inv_def assms(2-5) using assms(6) by simp

lemma same_touch_tails:
  assumes "same_touch b b'"
  shows "best t b' = best t b" "bits t b' = bits t b" "length (ob_levels b') = length (ob_levels b)"
    "i < length (ob_levels b) \<Longrightarrow> lv_tail (ob_levels b' ! i) = lv_tail (ob_levels b ! i)"
proof -
  show "best t b' = best t b" "bits t b' = bits t b"
    using assms by (cases t; simp add: same_touch_def)+
  have m: "map lv_tail (ob_levels b') = map lv_tail (ob_levels b)" using assms by (simp add: same_touch_def)
  then show l: "length (ob_levels b') = length (ob_levels b)" by (rule map_eq_imp_length_eq)
  show "i < length (ob_levels b) \<Longrightarrow> lv_tail (ob_levels b' ! i) = lv_tail (ob_levels b ! i)"
    using arg_cong [OF m, of "\<lambda>l. l ! i"] l by simp
qed

text \<open>
  Shrinking one queue keeps the touch, once an emptied level has lost its tail and its bit and the best
  level has been stepped past it.
\<close>

lemma touch_shrink:
  assumes "touch_inv n b Q" and "i < n" and "Q t i \<noteq> []" and "Q (opposite t) i = []"
    and "\<And>u. u \<noteq> t \<Longrightarrow> bits u b' = bits u b \<and> best u b' = best u b"
    and "\<And>j. j < n \<Longrightarrow> j \<noteq> i \<Longrightarrow> lv_tail (ob_levels b' ! j) = lv_tail (ob_levels b ! j)"
    and "xs \<noteq> [] \<Longrightarrow> bits t b' = bits t b \<and> best t b' = best t b"
    and "xs = [] \<Longrightarrow> lv_tail (ob_levels b' ! i) = kNil \<and> bits t b' = pb_clear (int i) (bits t b) \<and>
      best t b' = (if int i = best t b then step_bits t (bits t b') (int i) else best t b)"
  shows "touch_inv n b' (put t i xs Q)"
  unfolding touch_inv_def
proof (intro conjI allI impI)
  note T = assms(1) [unfolded touch_inv_def]
  have st: "side_touch u n (bits u b) (best u b) (Q u)" for u using T by blast
  have pt: "put t i xs Q t = (Q t)(i := xs)" by (auto simp: put_def)
  fix u show "side_touch u n (bits u b') (best u b') (put t i xs Q u)"
  proof (cases "u = t")
    case False
    with st [of u] assms(5) show ?thesis by simp
  next
    case True
    show ?thesis
    proof (cases "xs = []")
      case True
      from side_touch_clear [OF st assms(2) refl, of t] assms(8) [OF True] \<open>u = t\<close> True pt show ?thesis by auto
    next
      case False
      show ?thesis unfolding \<open>u = t\<close> pt
        by (rule side_touch_cong [of t n _ _ "Q t"]) (use False assms(3,7) st [of t] in auto)
    qed
  qed
next
  fix j assume "j < n" "at_level (put t i xs Q) j = []"
  with assms(1,4,6,8) show "lv_tail (ob_levels b' ! j) = kNil"
    by (cases "j = i") (auto simp: at_level_put touch_inv_def)
next
  fix j k assume "put t i xs Q Buy j \<noteq> []" "put t i xs Q Sell k \<noteq> []"
  then have "Q Buy j \<noteq> []" "Q Sell k \<noteq> []" using assms(3) by (auto simp: put_def split: if_splits)
  with assms(1) show "j < k" by (auto simp: touch_inv_def)
qed

lemma close_level_inv:
  assumes s: "struct_inv n b1 ((heads b1)(i := s)) (put t i xs Q) F" and "touch_inv n b Q" and "same_touch b b1"
    and "i < n" and "Q t i \<noteq> []" and "Q (opposite t) i = []" and "best t b = int i"
    and b': "b' = close_level t (int i) s b1"
  shows "book_inv n b' (put t i xs Q) F" and "same_frame b b'" and "data b' = data b1"
proof -
  have len: "length (ob_levels b1) = n" using struct_invD(1) [OF s] .
  have al: "at_level (put t i xs Q) i = xs" using assms(6) by (simp add: at_level_put)
  have ql: "queue_links (data b1) s (ob_levels b1 ! i) xs" using struct_invD(3) [OF s assms(4)] al by simp
  then have nil: "s = kNil \<longleftrightarrow> xs = []" by (cases xs) (auto simp: queue_links_def)
  show fr: "same_frame b b'" "data b' = data b1"
    using assms(3) by (auto simp: b' close_level_def same_touch_def same_frame_def Let_def)
  have lvs: "ob_levels b' ! j = (if j = i then (ob_levels b1 ! i)\<lparr>lv_head := s, lv_tail := (if xs = [] then kNil else lv_tail (ob_levels b1 ! i))\<rparr>
      else ob_levels b1 ! j)" if "j < n" for j
    using that len assms(4) nil by (auto simp: b' close_level_def Let_def nth_list_update)
  have st: "struct_inv n b' (heads b') (put t i xs Q) F"
  proof (rule struct_invI [where t = t])
    fix j assume j: "j < n"
    show "queue_links (data b') (heads b' j) (ob_levels b' ! j) (at_level (put t i xs Q) j)"
      using struct_invD(3) [OF s j] lvs [OF j] fr(2) al
      by (cases "j = i") (auto simp: queue_links_def)
  next
    show "\<And>u j v. v \<in> set (put t i xs Q u j) \<Longrightarrow>
        j < n \<and> so_level ops (data b') v = j \<and> so_side ops (data b') v = u \<and> so_qty ops (data b') v \<noteq> 0"
      using struct_invD(4) [OF s] fr(2) by simp
    show "put t i xs Q t j = [] \<or> put t i xs Q (opposite t) j = []" for j using struct_invD(5) [OF s] .
  qed (use struct_invD(1,2,6,7,8) [OF s] in \<open>auto simp: b' close_level_def Let_def\<close>)
  have "touch_inv n b' (put t i xs Q)"
  proof (rule touch_shrink [OF assms(2,4,5,6)])
    note tt = same_touch_tails [OF assms(3)]
    show "bits u b' = bits u b \<and> best u b' = best u b" if "u \<noteq> t" for u
      using that tt by (auto simp: b' close_level_def Let_def)
    show "lv_tail (ob_levels b' ! j) = lv_tail (ob_levels b ! j)" if "j < n" "j \<noteq> i" for j
      using lvs [OF that(1)] that tt(3,4) len by simp
    show "bits t b' = bits t b \<and> best t b' = best t b" if "xs \<noteq> []"
      using that nil tt by (auto simp: b' close_level_def Let_def)
    show "lv_tail (ob_levels b' ! i) = kNil \<and> bits t b' = pb_clear (int i) (bits t b) \<and>
        best t b' = (if int i = best t b then step_bits t (bits t b') (int i) else best t b)" if "xs = []"
      using that nil tt assms(7) lvs [OF assms(4)] by (auto simp: b' close_level_def Let_def step_level_bits)
  qed
  with st show "book_inv n b' (put t i xs Q) F" by (simp add: book_inv_def)
qed

section \<open>Unlinking\<close>

definition with_level :: "'d OrderBook \<Rightarrow> nat \<Rightarrow> 'd \<Rightarrow> Level \<Rightarrow> 'd OrderBook" where
  "with_level b i d lv = b\<lparr>ob_levels := (ob_levels b)[i := lv], ob_store := (ob_store b)\<lparr>st_data := d\<rparr>\<rparr>"

lemma with_level_simps:
  assumes "i < length (ob_levels b)"
  shows "lv_upd i f (with_level b i d lv) = with_level b i d (f lv)"
    "data_upd g (with_level b i d lv) = with_level b i (g d) lv"
    "data (with_level b i d lv) = d" "ob_levels (with_level b i d lv) ! i = lv"
    "best t (with_level b i d lv) = best t b"
  using assms by (simp_all add: with_level_def lv_upd_def data_upd_def)

lemma with_level_self: "with_level b i (data b) (ob_levels b ! i) = b"
  by (simp add: with_level_def)

text \<open>\<^const>\<open>unlink\<close> rewrites the links of one level, and then the touch if the level has emptied.\<close>

lemma unlink_eq:
  assumes u: "unlinked (data b) (ob_levels b ! i) s = (d', lv')" and "i = so_level ops (data b) s"
    and i: "i < length (ob_levels b)" and "so_side ops d' s = t"
  shows "unlink ops s b =
    (let b1 = with_level b i d' lv';
         b2 = set_bits t (pb_clear (int i) (bits t b1)) b1
     in if lv_head lv' = kNil then (if int i = best t b then set_best t (step_level t b2 (int i)) b2 else b2) else b1)"
proof -
  define d lv where "d = data b" and "lv = ob_levels b ! i"
  note W = with_level_simps [OF i]
  have b: "b = with_level b i d lv" by (simp add: d_def lv_def with_level_self)
  define n p where "n = so_next ops (data b) s" and "p = so_prev ops (data b) s"
  define d1 lv1 where "d1 = (if s = lv_head lv then d else so_set_next ops p n d)"
    and "lv1 = (if s = lv_head lv then lv\<lparr>lv_head := n\<rparr> else lv)"
  define d2 lv2 where "d2 = (if s = lv_tail lv1 then d1 else so_set_prev ops n p d1)"
    and "lv2 = (if s = lv_tail lv1 then lv1\<lparr>lv_tail := (if lv_head lv1 = kNil then kNil else p)\<rparr> else lv1)"
  have u': "d' = d2" "lv' = lv2\<lparr>lv_qty := lv_qty lv2 - so_qty ops d2 s\<rparr>"
    using u unfolding unlinked_def Let_def n_def [symmetric] p_def [symmetric]
    unfolding d_def [symmetric] lv_def [symmetric]
    by (auto simp: d1_def lv1_def d2_def lv2_def split: if_splits)
  have 1: "(if s = lv_head (ob_levels b ! i) then lv_upd i (\<lambda>l. l\<lparr>lv_head := n\<rparr>) b else data_upd (so_set_next ops p n) b) =
      with_level b i d1 lv1" (is "?b1 = _")
    by (subst (2 3) b) (simp add: W d1_def lv1_def flip: lv_def)
  have 2: "(if s = lv_tail (ob_levels ?b1 ! i) then lv_upd i (\<lambda>l. l\<lparr>lv_tail := (if lv_head l = kNil then kNil else p)\<rparr>) ?b1
      else data_upd (so_set_prev ops n p) ?b1) = with_level b i d2 lv2" (is "?b2 = _")
    unfolding 1 W by (simp add: d2_def lv2_def)
  have 3: "lv_upd i (\<lambda>l. l\<lparr>lv_qty := lv_qty l - so_qty ops (data ?b2) s\<rparr>) ?b2 = with_level b i d' lv'"
    unfolding 2 W u' ..
  show ?thesis
    unfolding unlink_def Let_def assms(2) [symmetric] n_def [symmetric] p_def [symmetric] 3 W
    using assms(4) by (simp add: W)
qed

lemma split_upd:
  assumes "split_slots st F L" and "wf d'" "so_size ops d' = so_size ops (st_data st)"
    and "\<And>x. x \<in> set F \<Longrightarrow> so_next ops d' x = so_next ops (st_data st) x"
  shows "split_slots (st\<lparr>st_data := d'\<rparr>) F L"
  using assms chain_cong [of F "so_next ops d'" "so_next ops (st_data st)" "st_free st" kNil]
  by (simp add: split_slots_def)

lemma unlink_release:
  assumes inv: "book_inv n b Q F" and s: "s \<in> set (Q t i)"
    and ids: "oi.represents ids (so_id ops (data b)) (live Q - {s})" "slot_count ids = slot_count (ob_ids b)"
    and b1: "b1 = unlink ops s (b\<lparr>ob_ids := ids\<rparr>)" and b': "b' = b1\<lparr>ob_store := release ops s (ob_store b1)\<rparr>"
  shows "book_inv n b' (put t i (removeAll s (Q t i)) Q) (s # F)" and "same_frame b b'"
    and "ref_of (data b') = ref_of (data b)"
proof -
  have st: "struct_inv n b (heads b) Q F" and to: "touch_inv n b Q" using inv by (auto simp: book_inv_def)
  note D = struct_invD [OF st]
  have sl: "s \<in> live Q" using s by (metis live_iff)
  have i: "i < n" "so_level ops (data b) s = i" "so_side ops (data b) s = t" using D(4) [OF s] by auto
  have ne: "Q t i \<noteq> []" using s by auto
  have oe: "Q (opposite t) i = []" and al: "at_level Q i = Q t i" using side_queue [OF st ne] by auto
  have links: "queue_links (data b) (lv_head (ob_levels b ! i)) (ob_levels b ! i) (Q t i)" using D(3) [OF i(1)] al by simp
  obtain as bs where ab: "Q t i = as @ s # bs" using s by (meson split_list)
  then have ra: "removeAll s (Q t i) = as @ bs" using links by (auto simp: queue_links_def)
  have wf: "wf (data b)" using D(6) by (simp add: split_slots_def)
  have bd: "\<forall>x \<in> set (as @ s # bs). x < so_size ops (data b) \<and> x \<notin> set F"
    using split_bounds [OF D(6)] ab by (metis live_iff)
  obtain d' lv' where u: "unlinked (data b) (ob_levels b ! i) s = (d', lv')" by (rule prod.exhaust)
  note U = unlinked_ok [OF links [unfolded ab] wf _ u]
  have bd': "\<forall>x \<in> set (as @ s # bs). x < so_size ops (data b)" using bd by blast
  note U = U [OF bd']
  have nil: "lv_head lv' = kNil \<longleftrightarrow> as @ bs = []"
    using U(1) by (cases "as @ bs") (auto simp: queue_links_def)
  have eq: "b1 = (let b1 = with_level (b\<lparr>ob_ids := ids\<rparr>) i d' lv';
         b2 = set_bits t (pb_clear (int i) (bits t b1)) b1
     in if lv_head lv' = kNil then (if int i = best t b then set_best t (step_level t b2 (int i)) b2 else b2) else b1)"
    unfolding b1 by (subst unlink_eq [of _ i s d' lv' t]) (use u i U(10) D(1) in \<open>auto simp: Let_def\<close>)
  have f: "ob_levels b1 = (ob_levels b)[i := lv']" "ob_store b1 = (ob_store b)\<lparr>st_data := d'\<rparr>" "ob_ids b1 = ids"
    "same_frame b b1" "ob_n b1 = ob_n b"
    by (auto simp: eq Let_def same_frame_def with_level_def)
  have sp1: "split_slots (ob_store b1) F (live Q)"
    unfolding f(2) by (rule split_upd [OF D(6) U(3,4)]) (use U(5) bd in blast)
  note R = release_split [OF sp1 sl]
  have d1: "data b1 = d'" using f(2) by simp
  have lvp: "live (put t i (as @ bs) Q) = live Q - {s}"
  proof -
    have "set (as @ bs) \<subseteq> live Q" using ab by (metis live_iff ra set_removeAll DiffD1 subsetI)
    then show ?thesis using live_put [OF st, of t i "as @ bs"] links unfolding ab
      by (auto simp: queue_links_def)
  qed
  have S: "struct_inv n b' (heads b') (put t i (as @ bs) Q) (s # F)"
  proof (rule struct_invI [where t = t])
    fix j assume j: "j < n"
    show "queue_links (data b') (heads b' j) (ob_levels b' ! j) (at_level (put t i (as @ bs) Q) j)"
    proof (cases "j = i")
      case True
      have "queue_links (data b') k l (as @ bs) = queue_links d' k l (as @ bs)" for k l
        by (rule queue_links_cong) (use R links in \<open>auto simp: b' d1 ab queue_links_def\<close>)
      with U(1) True D(1) i(1) show ?thesis by (simp add: at_level_put oe b' f(1))
    next
      case False
      have o: "x \<notin> set (as @ s # bs)" if "x \<in> set (at_level Q j)" for x
        using other_level [OF st _ False, of x t] that ab by auto
      then have "queue_links (data b') k l (at_level Q j) = queue_links (data b) k l (at_level Q j)" for k l
        by (intro queue_links_cong) (use R U(5,6) in \<open>auto simp: b' d1\<close>)
      with D(3) [OF j] False show ?thesis by (simp add: at_level_put oe b' f(1))
    qed
  next
    fix u j v assume "v \<in> set (put t i (as @ bs) Q u j)"
    then have "v \<in> set (Q u j)" using ab by (cases "u = t"; cases "j = i") auto
    from D(4) [OF this] show "j < n \<and> so_level ops (data b') v = j \<and> so_side ops (data b') v = u \<and> so_qty ops (data b') v \<noteq> 0"
      using R U by (simp add: b' d1)
  next
    fix j show "put t i (as @ bs) Q t j = [] \<or> put t i (as @ bs) Q (opposite t) j = []"
      using D(5) [of t j] oe by (cases "j = i") auto
  qed (use D(1,2,8) R U ids lvp f in \<open>auto simp: b' d1\<close>)
  have "touch_inv n b' (put t i (as @ bs) Q)"
    by (rule touch_shrink [OF to i(1) ne oe])
      (use nil U(2) D(1) i(1) in \<open>auto simp: b' f(1) eq Let_def step_level_bits with_level_def\<close>)
  with S ra show "book_inv n b' (put t i (removeAll s (Q t i)) Q) (s # F)" by (simp add: book_inv_def)
  show "same_frame b b'" using f(4) R(2) by (auto simp: same_frame_def b')
  show "ref_of (data b') = ref_of (data b)" using R U by (simp add: ref_of_def fun_eq_iff b' d1)
qed

section \<open>Resting\<close>

definition appended :: "'d \<Rightarrow> Level \<Rightarrow> nat \<Rightarrow> OrderId \<Rightarrow> Qty \<Rightarrow> nat \<Rightarrow> OwnerId \<Rightarrow> Side \<Rightarrow> u64 \<Rightarrow> 'd \<times> Level" where
  "appended d lv s oid qty i owner t ts =
    (let d = so_set_prev ops s (lv_tail lv) (so_set_next ops s kNil (so_init ops s oid qty i owner t ts d));
         (d, lv) = (if lv_tail lv = kNil then (d, lv\<lparr>lv_head := s\<rparr>) else (so_set_next ops (lv_tail lv) s d, lv))
     in (d, lv\<lparr>lv_tail := s, lv_qty := lv_qty lv + qty\<rparr>))"

lemma appended_ok:
  assumes "queue_links d (lv_head lv) lv xs" and "xs = [] \<Longrightarrow> lv_tail lv = kNil" and "wf d"
    and "\<forall>x \<in> insert s (set xs). x < so_size ops d \<and> x \<noteq> kNil" and "s \<notin> set xs"
    and "appended d lv s oid qty i owner t ts = (d', lv')"
  shows "queue_links d' (lv_head lv') lv' (xs @ [s])" and "wf d'" and "so_size ops d' = so_size ops d"
    and "\<And>x. x \<notin> set (s # xs) \<Longrightarrow> so_next ops d' x = so_next ops d x \<and> so_prev ops d' x = so_prev ops d x"
    and "so_qty ops d' = (so_qty ops d)(s := qty)" and "so_id ops d' = (so_id ops d)(s := oid)"
    and "so_level ops d' = (so_level ops d)(s := i)" and "so_owner ops d' = (so_owner ops d)(s := owner)"
    and "so_side ops d' = (so_side ops d)(s := t)"
proof -
  note L = assms(1) [unfolded queue_links_def]
  have ch: "chain (so_next ops d) (lv_head lv) xs kNil" and di: "distinct xs"
    and tl: "xs \<noteq> [] \<Longrightarrow> lv_tail lv = last xs" and pv: "successively (\<lambda>a c. so_prev ops d c = a) xs"
    and qt: "lv_qty lv = sum_list (map (so_qty ops d) xs)" using L by auto
  have s: "s < so_size ops d" "s \<noteq> kNil" using assms(4) by auto
  have tk: "lv_tail lv = kNil \<longleftrightarrow> xs = []" using assms(2,4) tl by (metis insertCI last_in_set)
  define d1 where "d1 = so_init ops s oid qty i owner t ts d"
  note A = init_law [OF assms(3) s(1) d1_def]
  define d2 where "d2 = so_set_next ops s kNil d1"
  have B: "wf d2 \<and> so_size ops d2 = so_size ops d1 \<and> so_qty ops d2 = so_qty ops d1 \<and> so_id ops d2 = so_id ops d1 \<and>
      so_next ops d2 = (so_next ops d1)(s := kNil) \<and> so_prev ops d2 = so_prev ops d1 \<and>
      so_level ops d2 = so_level ops d1 \<and> so_owner ops d2 = so_owner ops d1 \<and> so_side ops d2 = so_side ops d1"
    by (rule next_law [OF _ _ d2_def]) (use A s in auto)
  define d3 where "d3 = so_set_prev ops s (lv_tail lv) d2"
  have C: "wf d3 \<and> so_size ops d3 = so_size ops d2 \<and> so_qty ops d3 = so_qty ops d2 \<and> so_id ops d3 = so_id ops d2 \<and>
      so_next ops d3 = so_next ops d2 \<and> so_prev ops d3 = (so_prev ops d2)(s := lv_tail lv) \<and>
      so_level ops d3 = so_level ops d2 \<and> so_owner ops d3 = so_owner ops d2 \<and> so_side ops d3 = so_side ops d2"
    by (rule prev_law [OF _ _ d3_def]) (use A B s in auto)
  define d4 where "d4 = (if xs = [] then d3 else so_set_next ops (last xs) s d3)"
  have E: "xs \<noteq> [] \<Longrightarrow> wf d4 \<and> so_size ops d4 = so_size ops d3 \<and> so_qty ops d4 = so_qty ops d3 \<and> so_id ops d4 = so_id ops d3 \<and>
      so_next ops d4 = (so_next ops d3)(last xs := s) \<and> so_prev ops d4 = so_prev ops d3 \<and>
      so_level ops d4 = so_level ops d3 \<and> so_owner ops d4 = so_owner ops d3 \<and> so_side ops d4 = so_side ops d3"
    using next_law [OF _ _ refl, of d3 "last xs" s] A B C assms(4) by (simp add: d4_def)
  have F: "wf d4" "so_size ops d4 = so_size ops d" "so_qty ops d4 = (so_qty ops d)(s := qty)" "so_id ops d4 = (so_id ops d)(s := oid)"
    "so_prev ops d4 = (so_prev ops d)(s := lv_tail lv)" "so_level ops d4 = (so_level ops d)(s := i)"
    "so_owner ops d4 = (so_owner ops d)(s := owner)" "so_side ops d4 = (so_side ops d)(s := t)"
    using A B C E by (cases "xs = []"; simp add: d4_def)+
  have d': "d' = d4" and lv': "lv' = \<lparr>lv_qty = lv_qty lv + qty, lv_head = (if xs = [] then s else lv_head lv), lv_tail = s\<rparr>"
    using assms(6) tk tl unfolding appended_def Let_def d1_def [symmetric] d2_def [symmetric] d3_def [symmetric]
    by (auto simp: d4_def split: if_splits)
  have N: "so_next ops d4 = (if xs = [] then (so_next ops d)(s := kNil) else (so_next ops d)(s := kNil, last xs := s))"
    using A B C E by (simp add: d4_def)
  have "chain (so_next ops d') (lv_head lv') (xs @ [s]) kNil"
  proof (cases "xs = []")
    case False
    with chain_snoc [OF ch False di assms(5) s(2)] N show ?thesis by (simp add: d' lv')
  qed (use s N in \<open>simp add: d' lv'\<close>)
  moreover have "successively (\<lambda>a c. so_prev ops d' c = a) (xs @ [s])"
  proof -
    have "successively (\<lambda>a c. so_prev ops d' c = a) xs"
      by (rule successively_mono [OF pv]) (use assms(5) F(5) d' in auto)
    then show ?thesis using F(5) tl by (auto simp: successively_append_iff d')
  qed
  moreover have "lv_qty lv' = sum_list (map (so_qty ops d') (xs @ [s]))"
    using qt F(3) assms(5) by (simp add: d' lv')
  ultimately show "queue_links d' (lv_head lv') lv' (xs @ [s])" using di assms(5) by (simp add: queue_links_def lv')
  show "\<And>x. x \<notin> set (s # xs) \<Longrightarrow> so_next ops d' x = so_next ops d x \<and> so_prev ops d' x = so_prev ops d x"
    using N F(5) by (cases "xs = []") (auto simp: d')
  show "wf d'" "so_size ops d' = so_size ops d" "so_qty ops d' = (so_qty ops d)(s := qty)" "so_id ops d' = (so_id ops d)(s := oid)"
    "so_level ops d' = (so_level ops d)(s := i)" "so_owner ops d' = (so_owner ops d)(s := owner)"
    "so_side ops d' = (so_side ops d)(s := t)" using F d' by auto
qed

lemma rest_eq:
  assumes al: "alloc ops (ob_store b) = (s, st)" and "s \<noteq> kNil" and i: "i < length (ob_levels b)"
    and ap: "appended (st_data st) (ob_levels b ! i) s oid qty i owner t ts = (d', lv')"
  shows "rest ops t oid owner (int i) qty ts b =
    do { ids \<leftarrow> ix_insert (ob_ids b) oid s;
         Some ((if lv_tail (ob_levels b ! i) = kNil
           then set_best t (better t (int i) (best t b)) (set_bits t (pb_set (int i) (bits t b)) (with_level (b\<lparr>ob_store := st\<rparr>) i d' lv'))
           else with_level (b\<lparr>ob_store := st\<rparr>) i d' lv')\<lparr>ob_ids := ids\<rparr>, []) }"
  using assms
    by (cases t; cases "lv_tail (ob_levels b ! i) = kNil")
      (auto simp: rest_def appended_def Let_def with_level_def lv_upd_def data_upd_def intro!: Option.bind_cong OrderBook.equality)

text \<open>A full book refuses; otherwise the order joins the back of its level and the touch follows.\<close>

lemma rest_full:
  "book_inv n b Q [] \<Longrightarrow> rest ops t oid owner ix qty ts b =
     Some (b, [canceled_event (ob_symbol b) oid t (ob_min_price b + ix) qty BookFull])"
  using alloc_full [of "ob_store b" "live Q"] struct_invD(6) [of n b "heads b" Q "[]"]
  by (simp add: rest_def book_inv_def)

lemma rest_append:
  assumes inv: "book_inv n b Q (s # F)" and i: "i < n" and oe: "Q (opposite t) i = []"
    and oid: "oid \<notin> so_id ops (data b) ` live Q" and qty: "qty \<noteq> 0"
    and un: "\<And>j. Q (opposite t) j \<noteq> [] \<Longrightarrow> (if t = Buy then i < j else j < i)"
  shows "\<exists>b'. rest ops t oid owner (int i) qty ts b = Some (b', []) \<and> book_inv n b' (put t i (Q t i @ [s]) Q) F \<and>
    same_frame b b' \<and> ref_of (data b') = (ref_of (data b))(s := \<lparr>ro_id = oid, ro_qty = qty, ro_owner = owner\<rparr>)"
proof -
  have st: "struct_inv n b (heads b) Q (s # F)" and to: "touch_inv n b Q" using inv by (auto simp: book_inv_def)
  note D = struct_invD [OF st]
  note A = alloc_some [OF D(6)]
  define st1 where "st1 = (ob_store b)\<lparr>st_free := so_next ops (data b) s, st_live := st_live (ob_store b) + 1\<rparr>"
  have al: "alloc ops (ob_store b) = (s, st1)" and sp: "split_slots st1 F (insert s (live Q))"
    using A by (auto simp: st1_def)
  have d1: "st_data st1 = data b" "st_cap st1 = st_cap (ob_store b)" by (simp_all add: st1_def)
  have at: "at_level Q i = Q t i" using oe by (rule at_level_side)
  have sn: "s \<notin> live Q" "s \<noteq> kNil" using D(6) by (auto simp: split_slots_def)
  have wf: "wf (data b)" using D(6) by (simp add: split_slots_def)
  have links: "queue_links (data b) (lv_head (ob_levels b ! i)) (ob_levels b ! i) (Q t i)" using D(3) [OF i] at by simp
  have tn: "Q t i = [] \<Longrightarrow> lv_tail (ob_levels b ! i) = kNil" using to i at by (simp add: touch_inv_def)
  have bd: "\<forall>x \<in> insert s (set (Q t i)). x < so_size ops (data b) \<and> x \<noteq> kNil"
    using split_bounds [OF sp] d1 by (metis insert_iff live_iff)
  have s_out: "s \<notin> set (Q t i)" using sn(1) by (metis live_iff)
  obtain d' lv' where ap: "appended (data b) (ob_levels b ! i) s oid qty i owner t ts = (d', lv')" by (rule prod.exhaust)
  note P = appended_ok [OF links tn wf bd s_out ap]
  have tk: "lv_tail (ob_levels b ! i) = kNil \<longleftrightarrow> Q t i = []"
    using tn links bd by (metis insertCI last_in_set queue_links_def)
  obtain ids where ids: "ix_insert (ob_ids b) oid s = Some ids" "slot_count ids = slot_count (ob_ids b)"
    "oi.represents ids ((so_id ops (data b))(s := oid)) (insert s (live Q))"
  proof -
    have "card (live Q) + length (s # F) = st_cap (ob_store b)" using split_finite [OF D(6)] by blast
    then have "card (live Q) + 1 < slot_count (ob_ids b)" using D(8) by simp
    from oi.represents_insert [OF D(7) sn oid this] that show thesis by blast
  qed
  define b1 where "b1 = with_level (b\<lparr>ob_store := st1\<rparr>) i d' lv'"
  define b' where "b' = (if lv_tail (ob_levels b ! i) = kNil
      then set_best t (better t (int i) (best t b)) (set_bits t (pb_set (int i) (bits t b)) b1) else b1)\<lparr>ob_ids := ids\<rparr>"
  have eq: "rest ops t oid owner (int i) qty ts b = Some (b', [])"
    using rest_eq [OF al sn(2), of i oid qty owner t ts d' lv'] ap i D(1) d1 ids(1) by (simp add: b'_def b1_def)
  have f: "ob_levels b' = (ob_levels b)[i := lv']" "ob_store b' = st1\<lparr>st_data := d'\<rparr>" "ob_ids b' = ids"
    "same_frame b b'" "ob_n b' = ob_n b"
    using d1 by (auto simp: b'_def b1_def with_level_def same_frame_def)
  have dd: "data b' = d'" by (simp add: f(2))
  let ?Q = "put t i (Q t i @ [s]) Q"
  have lvp: "live ?Q = insert s (live Q)"
    using live_put [OF st, of t i "Q t i @ [s]"] by (auto simp: live_iff)
  have S: "struct_inv n b' (heads b') ?Q F"
  proof (rule struct_invI [where t = t])
    fix j assume j: "j < n"
    show "queue_links (data b') (heads b' j) (ob_levels b' ! j) (at_level ?Q j)"
    proof (cases "j = i")
      case True
      with P(1) D(1) i show ?thesis by (simp add: at_level_put oe dd f(1))
    next
      case False
      have "x \<notin> set (s # Q t i)" if "x \<in> set (at_level Q j)" for x
        using other_level [OF st _ False, of x t] that sn(1) by (auto simp: at_level_in live_iff)
      then have "queue_links d' k l (at_level Q j) = queue_links (data b) k l (at_level Q j)" for k l
        by (intro queue_links_cong) (use P(4,5) in auto)
      with D(3) [OF j] False show ?thesis by (simp add: at_level_put oe dd f(1))
    qed
  next
    fix u j v assume v: "v \<in> set (?Q u j)"
    consider "v = s" "u = t" "j = i" | "v \<in> set (Q u j)" "v \<noteq> s"
      using v sn(1) by (cases "u = t"; cases "j = i") (auto simp: live_iff)
    then show "j < n \<and> so_level ops (data b') v = j \<and> so_side ops (data b') v = u \<and> so_qty ops (data b') v \<noteq> 0"
      by cases (use D(4) P i qty in \<open>auto simp: dd\<close>)
  next
    fix j show "?Q t j = [] \<or> ?Q (opposite t) j = []" using D(5) [of t j] oe by (cases "j = i") auto
  next
    show "split_slots (ob_store b') F (live ?Q)"
      unfolding f(2) lvp
      by (rule split_upd [OF sp P(2)]) (use P(3,4) d1 split_bounds [OF sp] in \<open>auto simp: live_iff\<close>)
  qed (use D(1,2,8) P(6) ids lvp f d1 in \<open>auto simp: dd\<close>)
  have T: "touch_inv n b' ?Q"
    unfolding touch_inv_def
  proof (intro conjI allI impI)
    fix u
    have su: "side_touch u n (bits u b) (best u b) (Q u)" using to by (simp add: touch_inv_def)
    have pt: "?Q t = (Q t)(i := Q t i @ [s])" by (auto simp: put_def)
    show "side_touch u n (bits u b') (best u b') (?Q u)"
    proof (cases "u = t")
      case False
      with su show ?thesis by (simp add: b'_def b1_def with_level_def)
    next
      case True
      show ?thesis
      proof (cases "Q t i = []")
        case nil: True
        from side_touch_set [OF su i, of "Q t i @ [s]"] True nil tk pt show ?thesis
          by (simp add: b'_def b1_def with_level_def)
      next
        case False
        have "side_touch t n (bits t b) (best t b) (?Q t)" unfolding pt
          by (rule side_touch_cong [of t n _ _ "Q t"]) (use False su True in auto)
        with True False tk show ?thesis by (simp add: b'_def b1_def with_level_def)
      qed
    qed
  next
    fix j assume "j < n" "at_level ?Q j = []"
    with to show "lv_tail (ob_levels b' ! j) = kNil"
      by (cases "j = i") (auto simp: at_level_put oe touch_inv_def f(1))
  next
    fix j k assume jk: "?Q Buy j \<noteq> []" "?Q Sell k \<noteq> []"
    have "Q Buy j \<noteq> [] \<Longrightarrow> Q Sell k \<noteq> [] \<Longrightarrow> j < k" using to by (simp add: touch_inv_def)
    with jk un show "j < k" by (cases t) (auto simp: put_def split: if_splits)
  qed
  have "ref_of (data b') = (ref_of (data b))(s := \<lparr>ro_id = oid, ro_qty = qty, ro_owner = owner\<rparr>)"
    using P by (auto simp: ref_of_def fun_eq_iff dd)
  with eq S T f(4) show ?thesis by (auto simp: book_inv_def)
qed

end

end
