(* ===== verification/Matching_Spec.thy ===== *)
theory Matching_Spec
  imports Reference_Props
begin

text \<open>
  What the matching loops of the reference book trade, as an allocation over the list of resting orders, and their accounting.
\<close>

section \<open>What matching trades\<close>

definition trades :: "Event list \<Rightarrow> Event list" where
  "trades evs = filter (\<lambda>e. e_type e = Trade) evs"

lemma trades_simps [simp]:
  "trades [] = []" "trades (e # evs) = (if e_type e = Trade then e # trades evs else trades evs)"
  "trades (evs @ evs') = trades evs @ trades evs'"
  by (simp_all add: trades_def)

text \<open>
  Price-time priority as an allocation: the taker's quantity is given to the makers in the order of
  the list, each getting what it shows until nothing is left.
\<close>

fun allocate :: "Qty \<Rightarrow> (Price \<times> RefOrder) list \<Rightarrow> (Price \<times> RefOrder \<times> Qty) list" where
  "allocate n [] = []"
| "allocate n ((p, r) # os) =
    (if n = 0 then [] else if ro_qty r \<le> n then (p, r, ro_qty r) # allocate (n - ro_qty r) os
     else [(p, r, n)])"

text \<open>What is left of the makers after that allocation.\<close>

fun residue :: "Qty \<Rightarrow> (Price \<times> RefOrder) list \<Rightarrow> (Price \<times> RefOrder) list" where
  "residue n [] = []"
| "residue n ((p, r) # os) =
    (if n = 0 then (p, r) # os else if ro_qty r \<le> n then residue (n - ro_qty r) os
     else (p, r\<lparr>ro_qty := ro_qty r - n\<rparr>) # os)"

text \<open>
  The makers the quantity of an incoming order of \<open>owner\<close> is given to: the owner's own orders are passed over when they are cancelled, end the list when the
  incoming order is, and take their share when both are decremented.
\<close>

fun eligible :: "OwnerId \<Rightarrow> Stp \<Rightarrow> (Price \<times> RefOrder) list \<Rightarrow> (Price \<times> RefOrder) list" where
  "eligible owner CancelResting os = filter (\<lambda>(p, r). ro_owner r \<noteq> owner) os"
| "eligible owner CancelIncoming os = takeWhile (\<lambda>(p, r). ro_owner r \<noteq> owner) os"
| "eligible owner stp os = os"

definition fill_of :: "Event \<Rightarrow> Price \<times> OrderId \<times> Qty" where
  "fill_of e = (e_price e, e_maker_id e, e_qty e)"

text \<open>The shares that trade: what one's own orders take is decremented on both sides, and is no trade.\<close>

definition shares :: "OwnerId \<Rightarrow> Stp \<Rightarrow> Qty \<Rightarrow> (Price \<times> RefOrder) list \<Rightarrow> (Price \<times> OrderId \<times> Qty) list" where
  "shares owner stp n os = map (\<lambda>(p, r, k). (p, ro_id r, k))
     (filter (\<lambda>(p, r, k). stp = DecrementCancel \<longrightarrow> ro_owner r \<noteq> owner) (allocate n (eligible owner stp os)))"

lemma fill_of_trade [simp]: "fill_of (trade_event sm t m sd px q l) = (px, m, q)"
  by (simp add: fill_of_def)

lemma allocate_zero [simp]: "allocate 0 os = []" and residue_zero [simp]: "residue 0 os = os"
  by (cases os; auto)+

lemma shares_zero [simp]: "shares owner stp 0 os = []"
  by (simp add: shares_def)

lemma match_queue_allocate:
  assumes "match_queue sm taker owner side limit stp px q ix qty = (q', ix', qty', stop, evs)"
  shows "(stop \<longrightarrow> shares owner stp qty (map (Pair px) q @ os) = map fill_of (trades evs)) \<and>
    (\<not> stop \<longrightarrow> shares owner stp qty (map (Pair px) q @ os) = map fill_of (trades evs) @ shares owner stp qty' os) \<and>
    (stp = StpNone \<or> stp = DecrementCancel \<longrightarrow>
      residue qty (map (Pair px) q @ os) = map (Pair px) q' @ residue (if stop then 0 else qty') os)"
  using assms
proof (induction q arbitrary: ix qty evs)
  case (Cons r q)
  show ?case
  proof (cases "qty = 0")
    case True
    with Cons.prems show ?thesis by (auto simp: trades_def)
  next
    case False
    with Cons.prems show ?thesis
    proof (cases rule: match_queue_Cons_cases)
      case (Reduce evs')
      from Cons.IH [OF Reduce(4)] Reduce False show ?thesis by (auto simp: shares_def)
    next
      case (Drop evs')
      from Cons.IH [OF Drop(3)] Drop False show ?thesis by (auto simp: shares_def)
    next
      case (Fill evs')
      from Cons.IH [OF Fill(3)] Fill False show ?thesis by (cases stp) (auto simp: shares_def)
    qed (use False in \<open>cases stp; auto simp: shares_def\<close>)+
  qed
qed auto

lemma eligible_out:
  assumes "\<not> in_range side limit px" and "levels_ok (opposite side) ((px, q) # lv)"
  shows "takeWhile (\<lambda>(p, r). in_range side limit p) (orders ((px, q) # lv)) = []"
  using assms by (cases q) (auto simp: levels_ok_Cons)

lemma takeWhile_in_range:
  "in_range side limit px \<Longrightarrow> takeWhile (\<lambda>(p, r). in_range side limit p) (map (Pair px) q @ os) =
    map (Pair px) q @ takeWhile (\<lambda>(p, r). in_range side limit p) os"
  by (induction q) auto

lemma match_side_allocate:
  assumes "match_side sm taker owner side limit stp lv ix qty = (lv', ix', qty', stop, evs)"
    and "levels_ok (opposite side) lv"
  shows "map fill_of (trades evs) = shares owner stp qty (takeWhile (\<lambda>(p, r). in_range side limit p) (orders lv))"
  using assms
proof (induction lv arbitrary: ix qty evs)
  case Nil
  then show ?case by (cases stp) (auto simp: shares_def)
next
  case (Cons pq lv)
  obtain px q where pq: "pq = (px, q)" by (cases pq)
  have ok: "levels_ok (opposite side) lv" using Cons.prems(2) by (simp add: pq levels_ok_Cons)
  from Cons.prems(1) [unfolded pq] show ?case
  proof (cases rule: match_side_Cons_cases)
    case Out
    with eligible_out [OF _ Cons.prems(2) [unfolded pq]] show ?thesis
      by (cases "qty = 0"; cases stp) (auto simp: pq shares_def simp del: orders_simps)
  next
    case (End q')
    note a = match_queue_allocate [OF End(3), of "takeWhile (\<lambda>(p, r). in_range side limit p) (orders lv)"]
    show ?thesis
    proof (cases stop)
      case False
      with End(4) have "q' \<noteq> []" by simp
      moreover have "q' \<noteq> [] \<longrightarrow> qty' = 0 \<or> stop"
        using match_queue_end [OF End(3)] by blast
      ultimately show ?thesis using a End(2) False by (simp add: pq takeWhile_in_range)
    qed (use a End(2) in \<open>simp add: pq takeWhile_in_range\<close>)
  next
    case (Next ix1 qty1 evs1 evs2)
    note a = match_queue_allocate [OF Next(3), of "takeWhile (\<lambda>(p, r). in_range side limit p) (orders lv)"]
    from Cons.IH [OF Next(4) ok] a Next(2,5) show ?thesis by (simp add: pq takeWhile_in_range)
  qed
qed

text \<open>Where no order is cancelled outright the book keeps exactly what the allocation leaves.\<close>

lemma match_side_residue:
  assumes "match_side sm taker owner side limit stp lv ix qty = (lv', ix', qty', stop, evs)"
    and "levels_ok (opposite side) lv" and "stp = StpNone \<or> stp = DecrementCancel"
  shows "orders lv' = residue qty (takeWhile (\<lambda>(p, r). in_range side limit p) (orders lv)) @
    dropWhile (\<lambda>(p, r). in_range side limit p) (orders lv)"
  using assms(1,2)
proof (induction lv arbitrary: ix qty evs)
  case (Cons pq lv)
  let ?in = "\<lambda>(p, r :: RefOrder). in_range side limit p"
  obtain px q where pq: "pq = (px, q)" by (cases pq)
  have ok: "levels_ok (opposite side) lv" using Cons.prems(2) by (simp add: pq levels_ok_Cons)
  have dw: "dropWhile ?in (map (Pair px) q @ os) = dropWhile ?in os" if "in_range side limit px" for os
    using that by (induction q) auto
  from Cons.prems(1) [unfolded pq] show ?case
  proof (cases rule: match_side_Cons_cases)
    case Out
    show ?thesis
    proof (cases "qty = 0")
      case False
      with Out have "\<not> in_range side limit px" by simp
      from eligible_out [OF this Cons.prems(2) [unfolded pq]] Out show ?thesis
        by (metis append_Nil takeWhile_dropWhile_id pq residue.simps(1))
    qed (use Out in \<open>simp add: pq takeWhile_dropWhile_id\<close>)
  next
    case (End q')
    have "(if stop then 0 else qty') = 0" using match_queue_end [OF End(3)] End(4) by auto
    then have "residue qty (map (Pair px) q @ takeWhile ?in (orders lv)) = map (Pair px) q' @ takeWhile ?in (orders lv)"
      using match_queue_allocate [OF End(3), of "takeWhile ?in (orders lv)"] assms(3) by (simp only: residue_zero)
    then show ?thesis using End(2,5) by (simp add: pq takeWhile_in_range dw takeWhile_dropWhile_id)
  next
    case (Next ix1 qty1 evs1 evs2)
    with match_queue_allocate [OF Next(3), of "takeWhile ?in (orders lv)"] Cons.IH [OF Next(4) ok] assms(3) show ?thesis
      by (simp add: pq takeWhile_in_range dw)
  qed
qed auto

text \<open>Every trade is with a resting order, at its price and within the limit, and never with the same owner.\<close>

definition legal :: "OrderId \<Rightarrow> OwnerId \<Rightarrow> Side \<Rightarrow> Stp \<Rightarrow> (Price \<times> RefOrder) set \<Rightarrow> Event \<Rightarrow> bool" where
  "legal taker owner side stp makers e \<longleftrightarrow>
     e_order_id e = taker \<and> e_side e = side \<and> e_qty e \<noteq> 0 \<and>
     (\<exists>r. (e_price e, r) \<in> makers \<and> ro_id r = e_maker_id e \<and>
       unat (e_qty e) + unat (e_leaves e) = unat (ro_qty r) \<and> (stp \<noteq> StpNone \<longrightarrow> ro_owner r \<noteq> owner))"

lemma legal_mono: "legal t ow sd stp M e \<Longrightarrow> M \<subseteq> M' \<Longrightarrow> legal t ow sd stp M' e"
  unfolding legal_def by blast

lemma match_queue_legal:
  assumes "match_queue sm taker owner side limit stp px q ix qty = (q', ix', qty', stop, evs)"
    and "\<forall>r \<in> set q. ro_qty r \<noteq> 0" and "e \<in> set (trades evs)"
  shows "legal taker owner side stp (Pair px ` set q) e"
  using assms
proof (induction q arbitrary: ix qty evs)
  case (Cons r q)
  have IH: ?case if "match_queue sm taker owner side limit stp px q ix2 n = (q', ix', qty', stop, evs')"
    "e \<in> set (trades evs')" for ix2 n evs'
    using Cons.IH [OF that(1) _ that(2)] Cons.prems(2) by (auto elim: legal_mono)
  show ?case
  proof (cases "qty = 0")
    case False
    with Cons.prems(1) show ?thesis
    proof (cases rule: match_queue_Cons_cases)
      case Part
      then have "unat qty + unat (ro_qty r - qty) = unat (ro_qty r)"
        by (intro unat_split) simp
      with Part False Cons.prems(3) show ?thesis by (auto simp: legal_def intro!: exI [of _ r])
    qed (use IH False Cons.prems(2,3) in \<open>auto simp: legal_def split: if_splits\<close>)
  qed (use Cons.prems in auto)
qed auto

lemma match_side_legal:
  assumes "match_side sm taker owner side limit stp lv ix qty = (lv', ix', qty', stop, evs)"
    and "levels_ok (opposite side) lv" and "e \<in> set (trades evs)"
  shows "legal taker owner side stp (set (orders lv)) e \<and> in_range side limit (e_price e)"
  using assms
proof (induction lv arbitrary: ix qty evs)
  case (Cons pq lv)
  obtain px q where pq: "pq = (px, q)" by (cases pq)
  have ok: "levels_ok (opposite side) lv" "\<forall>r \<in> set q. ro_qty r \<noteq> 0"
    using Cons.prems(2) by (auto simp: pq levels_ok_Cons)
  have Q: ?case if "legal taker owner side stp (Pair px ` set q) e" "in_range side limit px"
    using that legal_mono [OF that(1), of "set (orders (pq # lv))"] by (auto simp: pq legal_def)
  from Cons.prems(1) [unfolded pq] show ?case
  proof (cases rule: match_side_Cons_cases)
    case (End q')
    show ?thesis using Q match_queue_legal [OF End(3) ok(2) Cons.prems(3)] End(2) by blast
  next
    case (Next ix1 qty1 evs1 evs2)
    from Cons.prems(3) Next(5) consider "e \<in> set (trades evs1)" | "e \<in> set (trades evs2)" by auto
    then show ?thesis
    proof cases
      case 2
      from Cons.IH [OF Next(4) ok(1) 2] show ?thesis by (auto simp: pq elim: legal_mono)
    qed (use Q match_queue_legal [OF Next(3) ok(2)] Next(2) in blast)
  qed (use Cons.prems(3) in auto)
qed auto

text \<open>
  Conservation: the open quantity is what was asked for less what was traded. Under
  \<^const>\<open>DecrementCancel\<close> the quantity of cancelled makers is taken off as well.
\<close>

definition traded :: "Event list \<Rightarrow> nat" where
  "traded evs = (\<Sum>e \<leftarrow> trades evs. unat (e_qty e))"

lemma traded_simps [simp]:
  "traded [] = 0" "traded (e # evs) = (if e_type e = Trade then unat (e_qty e) + traded evs else traded evs)"
  "traded (evs @ evs') = traded evs + traded evs'"
  by (simp_all add: traded_def)

lemma match_queue_conserves:
  assumes "match_queue sm taker owner side limit stp px q ix qty = (q', ix', qty', stop, evs)"
  shows "unat qty' + traded evs \<le> unat qty" and "stp \<noteq> DecrementCancel \<Longrightarrow> unat qty' + traded evs = unat qty"
proof -
  have "unat qty' + traded evs \<le> unat qty \<and> (stp \<noteq> DecrementCancel \<longrightarrow> unat qty' + traded evs = unat qty)"
    using assms
  proof (induction q arbitrary: ix qty evs)
    case (Cons r q)
    show ?case
    proof (cases "qty = 0")
      case False
      with Cons.prems show ?thesis
      proof (cases rule: match_queue_Cons_cases)
        case (Reduce evs')
        from Reduce(3) have "unat (ro_qty r) + unat (qty - ro_qty r) = unat qty" by (intro unat_split) simp
        with Cons.IH [OF Reduce(4)] Reduce(1,5) show ?thesis by auto
      next
        case (Drop evs')
        from Cons.IH [OF Drop(3)] Drop show ?thesis by auto
      next
        case (Fill evs')
        from Cons.IH [OF Fill(3)] Fill unat_split [of "ro_qty r" qty] show ?thesis by auto
      qed auto
    qed (use Cons.prems in auto)
  qed auto
  then show "unat qty' + traded evs \<le> unat qty" "stp \<noteq> DecrementCancel \<Longrightarrow> unat qty' + traded evs = unat qty"
    by auto
qed

lemma match_side_conserves:
  assumes "match_side sm taker owner side limit stp lv ix qty = (lv', ix', qty', stop, evs)"
  shows "unat qty' + traded evs \<le> unat qty \<and> (stp \<noteq> DecrementCancel \<longrightarrow> unat qty' + traded evs = unat qty)"
  using assms
proof (induction lv arbitrary: ix qty evs)
  case (Cons pq lv)
  obtain px q where pq: "pq = (px, q)" by (cases pq)
  from Cons.prems [unfolded pq] show ?case
  proof (cases rule: match_side_Cons_cases)
    case (End q')
    from match_queue_conserves [OF End(3)] show ?thesis by auto
  next
    case (Next ix1 qty1 evs1 evs2)
    from match_queue_conserves [OF Next(3)] Cons.IH [OF Next(4)] Next(5) show ?thesis by auto
  qed auto
qed auto

text \<open>
  Under \<^const>\<open>DecrementCancel\<close> the incoming order loses to the owner's resting orders exactly what they lose. The remainder of an order that is stopped meets
  an own order at least as large.
\<close>

definition own_qty :: "OwnerId \<Rightarrow> (Price \<times> RefOrder) list \<Rightarrow> nat" where
  "own_qty owner os = (\<Sum>(p, r) \<leftarrow> os. if ro_owner r = owner then unat (ro_qty r) else 0)"

lemma own_qty_simps [simp]:
  "own_qty owner [] = 0" "own_qty owner ((p, r) # os) = (if ro_owner r = owner then unat (ro_qty r) else 0) + own_qty owner os"
  "own_qty owner (os @ os') = own_qty owner os + own_qty owner os'"
  by (simp_all add: own_qty_def)

lemma match_queue_decrements:
  assumes "match_queue sm taker owner side limit DecrementCancel px q ix qty = (q', ix', qty', stop, evs)"
  shows "traded evs + (if stop then 0 else unat qty') + own_qty owner (map (Pair px) q) = unat qty + own_qty owner (map (Pair px) q') \<and>
    own_qty owner (map (Pair px) q') \<le> own_qty owner (map (Pair px) q)"
  using assms
proof (induction q arbitrary: ix qty evs)
  case (Cons r q)
  show ?case
  proof (cases "qty = 0")
    case False
    with Cons.prems show ?thesis
    proof (cases rule: match_queue_Cons_cases)
      case Decrement
      then have "unat qty + unat (ro_qty r - qty) = unat (ro_qty r)" by (intro unat_split) simp
      with Decrement show ?thesis by simp
    next
      case (Reduce evs')
      from Reduce(3) have "unat (ro_qty r) + unat (qty - ro_qty r) = unat qty" by (intro unat_split) simp
      with Cons.IH [OF Reduce(4)] Reduce show ?thesis by auto
    next
      case (Fill evs')
      from Cons.IH [OF Fill(3)] Fill unat_split [of "ro_qty r" qty] show ?thesis by auto
    qed auto
  qed (use Cons.prems in auto)
qed auto

lemma match_side_decrements:
  assumes "match_side sm taker owner side limit DecrementCancel lv ix qty = (lv', ix', qty', stop, evs)"
  shows "traded evs + (if stop then 0 else unat qty') + own_qty owner (orders lv) = unat qty + own_qty owner (orders lv') \<and>
    own_qty owner (orders lv') \<le> own_qty owner (orders lv)"
  using assms
proof (induction lv arbitrary: ix qty evs)
  case (Cons pq lv)
  obtain px q where pq: "pq = (px, q)" by (cases pq)
  from Cons.prems [unfolded pq] show ?case
  proof (cases rule: match_side_Cons_cases)
    case (End q')
    then show ?thesis using match_queue_decrements [OF End(3)] by (auto simp: pq)
  next
    case (Next ix1 qty1 evs1 evs2)
    then show ?thesis using match_queue_decrements [OF Next(3)] Cons.IH [OF Next(4)] by (auto simp: pq)
  qed (auto simp: pq)
qed auto

text \<open>What self-trade prevention takes off the incoming order, over all modes.\<close>

definition self_matched :: "Stp \<Rightarrow> OwnerId \<Rightarrow> Levels \<Rightarrow> Levels \<Rightarrow> nat" where
  "self_matched stp owner lv lv' = (if stp = DecrementCancel then own_qty owner (orders lv) - own_qty owner (orders lv') else 0)"

lemma match_side_accounts:
  assumes "match_side sm taker owner side limit stp lv ix qty = (lv', ix', qty', stop, evs)"
  shows "traded evs + self_matched stp owner lv lv' + (if stp = DecrementCancel \<and> stop then 0 else unat qty') = unat qty"
  using match_side_conserves [OF assms] match_side_decrements [of sm taker owner side limit lv ix qty lv' ix' qty' stop evs] assms
  by (cases "stp = DecrementCancel") (auto simp: self_matched_def split: if_splits)

end
