(* ===== verification/Reference_Bounds.thy ===== *)
theory Reference_Bounds
  imports Matching_Spec
begin

text \<open>
  Bounds of the reference book: if every quantity submitted is bounded, so is every resting quantity,
  and with the capacity of the book so is the total of every level.
\<close>

section \<open>Quantities stay bounded\<close>

definition bounded :: "nat \<Rightarrow> Levels \<Rightarrow> bool" where
  "bounded M lv \<longleftrightarrow> (\<forall>(p, q) \<in> set lv. \<forall>r \<in> set q. unat (ro_qty r) \<le> M)"

definition rb_bounded :: "nat \<Rightarrow> ReferenceBook \<Rightarrow> bool" where
  "rb_bounded M b \<longleftrightarrow> (\<forall>t. bounded M (rb_levels t b))"

lemma bounded_simps [simp]:
  "bounded M []" "bounded M ((p, q) # lv) \<longleftrightarrow> (\<forall>r \<in> set q. unat (ro_qty r) \<le> M) \<and> bounded M lv"
  by (auto simp: bounded_def)

lemma unat_diff_le: "x < y \<Longrightarrow> unat (y - x) \<le> unat (y :: 'a::len word)"
  using unat_split [of x y] by (metis le_add2 less_imp_le)

lemma match_queue_bounded:
  assumes "match_queue sm taker owner side limit stp px q ix qty = (q', ix', qty', stop, evs)"
    and "\<forall>r \<in> set q. unat (ro_qty r) \<le> M"
  shows "\<forall>r \<in> set q'. unat (ro_qty r) \<le> M"
  using assms
proof (induction q arbitrary: ix qty evs)
  case (Cons r q)
  show ?case
  proof (cases "qty = 0")
    case False
    with Cons.prems(1) show ?thesis
    proof (cases rule: match_queue_Cons_cases)
      case Decrement
      from unat_diff_le [OF Decrement(3)] Cons.prems(2) Decrement(4) show ?thesis by auto
    next
      case Part
      from unat_diff_le [OF Part(2)] Cons.prems(2) Part(3) show ?thesis by auto
    qed (use Cons in auto)
  qed (use Cons.prems in auto)
qed auto

lemma match_side_bounded:
  assumes "match_side sm taker owner side limit stp lv ix qty = (lv', ix', qty', stop, evs)" and "bounded M lv"
  shows "bounded M lv'"
  using assms
proof (induction lv arbitrary: ix qty evs)
  case (Cons pq lv)
  obtain px q where pq: "pq = (px, q)" by (cases pq)
  from Cons.prems(1) [unfolded pq] show ?case
  proof (cases rule: match_side_Cons_cases)
    case (End q')
    from match_queue_bounded [OF End(3)] Cons.prems(2) End(5) show ?thesis by (auto simp: pq)
  next
    case (Next ix1 qty1 evs1 evs2)
    from Cons.IH [OF Next(4)] Cons.prems(2) show ?thesis by (simp add: pq)
  qed (use Cons.prems(2) pq in auto)
qed auto

lemma rb_bounded_set:
  "rb_bounded M b \<Longrightarrow> bounded M lv \<Longrightarrow> rb_bounded M (rb_set_levels s lv b)"
  "rb_bounded M (b\<lparr>rb_index := ix\<rparr>) = rb_bounded M b"
proof -
  show "rb_bounded M (b\<lparr>rb_index := ix\<rparr>) = rb_bounded M b" by (simp add: rb_bounded_def)
  assume "rb_bounded M b" "bounded M lv"
  then show "rb_bounded M (rb_set_levels s lv b)" unfolding rb_bounded_def
    by (metis opposite.simps rb_levels_set(1,2) Side.exhaust)
qed

lemma rb_match_cases:
  assumes "rb_match b taker owner side limit qty stp = (b', left, stop, evs)"
  obtains lv ix where
    "match_side (rb_symbol b) taker owner side limit stp (rb_levels (opposite side) b) (rb_index b) qty = (lv, ix, left, stop, evs)"
    "b' = (rb_set_levels (opposite side) lv b)\<lparr>rb_index := ix\<rparr>"
  using assms by (auto simp: rb_match_def split: prod.splits)

lemma rb_match_bounded:
  assumes "rb_match b taker owner side limit qty stp = (b', left, stop, evs)" and "rb_bounded M b"
  shows "rb_bounded M b'" and "unat left \<le> unat qty"
proof -
  obtain lv ix where
    m: "match_side (rb_symbol b) taker owner side limit stp (rb_levels (opposite side) b) (rb_index b) qty = (lv, ix, left, stop, evs)"
    "b' = (rb_set_levels (opposite side) lv b)\<lparr>rb_index := ix\<rparr>" using assms(1) by (rule rb_match_cases)
  have "bounded M lv" using match_side_bounded [OF m(1)] assms(2) by (simp add: rb_bounded_def)
  with m(2) assms(2) show "rb_bounded M b'" by (simp add: rb_bounded_set)
  show "unat left \<le> unat qty" using match_side_conserves [OF m(1)] by linarith
qed

lemma bounded_enqueue: "bounded M lv \<Longrightarrow> unat (ro_qty r) \<le> M \<Longrightarrow> bounded M (enqueue s px r lv)"
  by (induction lv) auto

lemma rb_rest_bounded:
  assumes "rb_rest b oid owner s px qty = (b', evs)" and "rb_bounded M b" and "unat qty \<le> M"
  shows "rb_bounded M b'"
proof (cases "length (rb_index b) \<ge> rb_capacity b")
  case False
  let ?r = "\<lparr>ro_id = oid, ro_qty = qty, ro_owner = owner\<rparr>"
  have "bounded M (enqueue s px ?r (rb_levels s b))"
    using assms(2,3) by (intro bounded_enqueue) (auto simp: rb_bounded_def)
  with rb_bounded_set(1) [OF assms(2), of _ s] assms(1) False show ?thesis
    by (auto simp: rb_rest_def Let_def rb_bounded_set(2))
qed (use assms in \<open>auto simp: rb_rest_def\<close>)

lemma rb_remove_bounded: "rb_bounded M b \<Longrightarrow> rb_bounded M (rb_remove b oid l)"
proof -
  have "bounded M (remove_level oid px lv)" if "bounded M lv" for px lv
    using that by (induction lv) (auto simp: Let_def)
  then show "rb_bounded M b \<Longrightarrow> rb_bounded M (rb_remove b oid l)"
    unfolding rb_remove_def by (intro rb_bounded_set(1)) (auto simp: rb_bounded_def)
qed

lemma rb_modify_bounded:
  assumes "rb_modify b c = (b', evs)" and "rb_bounded M b" and "unat (c_qty c) \<le> M"
  shows "rb_bounded M b'"
proof (cases "\<exists>l r. map_of (rb_index b) (c_order_id c) = Some l \<and> deref b (c_order_id c) l = Some r")
  case False
  with assms(1,2) show ?thesis by (auto simp: rb_modify_def split: if_splits option.splits)
next
  case True
  then obtain l r where l: "map_of (rb_index b) (c_order_id c) = Some l" and r: "deref b (c_order_id c) l = Some r" by blast
  have am: "bounded M (amend_level oid px (c_qty c) lv)" if "bounded M lv" for oid px lv
    using that assms(3) by (induction lv) auto
  define b1 where "b1 = (rb_remove b (c_order_id c) l)\<lparr>rb_index := om_erase (c_order_id c) (rb_index b)\<rparr>"
  have b1: "rb_bounded M b1" using rb_remove_bounded [OF assms(2)] by (simp add: b1_def rb_bounded_set(2))
  obtain b2 left stop evs2 where
    m: "rb_match b1 (c_order_id c) (ro_owner r) (loc_side l) (c_price c) (c_qty c) (rb_stp b) = (b2, left, stop, evs2)"
    by (rule prod_cases4)
  note B = rb_match_bounded [OF m b1]
  obtain b3 evs3 where re: "rb_rest b2 (c_order_id c) (ro_owner r) (loc_side l) (c_price c) left = (b3, evs3)" by (rule prod.exhaust)
  have b3: "rb_bounded M b3" using rb_rest_bounded [OF re B(1)] B(2) assms(3) by simp
  have sl: "rb_bounded M (rb_set_levels s (amend_level oid px (c_qty c) (rb_levels s b)) b)" for s oid px
    using assms(2) by (intro rb_bounded_set(1) am) (auto simp: rb_bounded_def)
  show ?thesis
    using assms(1) l r m re B(1) b3 assms(2) sl
    by (auto simp: rb_modify_def Let_def b1_def [symmetric] split: if_splits)
qed

lemma rb_process_bounded:
  assumes "rb_process b c = (b', evs)" and "rb_bounded M b" and "unat (c_qty c) \<le> M"
  shows "rb_bounded M b'"
proof (cases "c_type c")
  case NewOrder
  then have "rb_add b c = (b', evs)" using assms(1) by simp
  then show ?thesis
  proof (cases rule: rb_add_cases)
    case (Match left stop evs1 b1)
    note B = rb_match_bounded [OF Match(3) assms(2)]
    show ?thesis
    proof (cases "left \<noteq> 0 \<and> \<not> stop \<and> c_ord_type c \<noteq> Market \<and> c_tif c = Day")
      case True
      with Match(7) obtain evs2 where "rb_rest b1 (c_order_id c) (c_owner c) (c_side c) (c_price c) left = (b', evs2)" by blast
      from rb_rest_bounded [OF this B(1)] B(2) assms(3) show ?thesis by simp
    next
      case False
      with Match(4-6) have "b' = b1" by blast
      with B(1) show ?thesis by simp
    qed
  qed (use assms(2) in auto)
next
  case Cancel
  with assms rb_remove_bounded show ?thesis
    by (auto simp: rb_cancel_def Let_def rb_bounded_set(2) split: option.splits)
next
  case Modify
  with assms rb_modify_bounded show ?thesis by simp
qed

text \<open>With every quantity bounded, no level of a book of limited capacity can reach \<open>2 ^ 64\<close>.\<close>

lemma level_total_le:
  assumes "rb_inv b" and "rb_bounded M b" and "(p, q) \<in> set (rb_levels t b)"
  shows "sum_list (map (\<lambda>r. unat (ro_qty r)) q) \<le> rb_capacity b * M"
proof -
  have "sum_list (map (\<lambda>r. unat (ro_qty r)) q) \<le> sum_list (map (\<lambda>r. M) q)"
    using assms(2,3) unfolding rb_bounded_def bounded_def by (intro sum_list_mono) fastforce
  also have "\<dots> = length q * M" by (simp add: sum_list_triv)
  also have "length q \<le> rb_capacity b"
  proof -
    have "length q \<le> length (entries t (rb_levels t b))"
      using split_list [OF assms(3)] by (auto simp: entries_def)
    also have "\<dots> \<le> length (rb_index b)"
      using rb_invD(3) [OF assms(1), of t] by (metis le_add1 size_mset size_union)
    finally show ?thesis using rb_invD(7) [OF assms(1)] by simp
  qed
  finally show ?thesis by simp
qed

section \<open>The configuration never changes\<close>

definition rb_config :: "ReferenceBook \<Rightarrow> SymbolId \<times> Price \<times> Price \<times> nat \<times> Stp" where
  "rb_config b = (rb_symbol b, rb_min_price b, rb_max_price b, rb_capacity b, rb_stp b)"

lemma rb_config_upd [simp]:
  "rb_config (rb_set_levels s lv b) = rb_config b" "rb_config (b\<lparr>rb_index := ix\<rparr>) = rb_config b"
  "rb_config (rb_remove b oid l) = rb_config b"
  by (simp_all add: rb_config_def rb_remove_def)

lemma rb_match_config: "rb_match b taker owner side limit qty stp = (b', left, stop, evs) \<Longrightarrow> rb_config b' = rb_config b"
  by (erule rb_match_cases) simp

lemma rb_rest_config: "rb_rest b oid owner s px qty = (b', evs) \<Longrightarrow> rb_config b' = rb_config b"
  by (auto simp: rb_rest_def Let_def split: if_splits)

lemma rb_process_config:
  assumes "rb_process b c = (b', evs)"
  shows "rb_config b' = rb_config b"
proof (cases "c_type c")
  case NewOrder
  then have "rb_add b c = (b', evs)" using assms by simp
  then show ?thesis
  proof (cases rule: rb_add_cases)
    case (Match left stop evs1 b1)
    have "rb_config b1 = rb_config b" using Match(3) by (rule rb_match_config)
    with Match(4-7) rb_rest_config show ?thesis by metis
  qed auto
next
  case Cancel
  with assms show ?thesis by (auto simp: rb_cancel_def Let_def split: option.splits)
next
  case Modify
  with assms show ?thesis
    by (auto simp: rb_modify_def Let_def split: if_splits option.splits prod.splits
        dest!: rb_match_config rb_rest_config)
qed

end
