(* ===== verification/Book_Refinement.thy ===== *)
theory Book_Refinement
  imports Book_Invariant Reference_Bounds
begin

text \<open>
  The optimised book implements the reference book: on related states every operation returns, emits
  the same events and ends in related states, whatever the store layout and the index hash.
\<close>

section \<open>Runs\<close>

fun ob_run :: "'d store_ops \<Rightarrow> 'd OrderBook \<Rightarrow> Command list \<Rightarrow> ('d OrderBook \<times> Event list) option" where
  "ob_run ops b [] = Some (b, [])"
| "ob_run ops b (c # cs) =
     do { (b', evs) \<leftarrow> ob_process ops c b; (b'', evs') \<leftarrow> ob_run ops b' cs; Some (b'', evs @ evs') }"

section \<open>The levels a ladder of queues stands for\<close>

fun ladder :: "Side \<Rightarrow> nat \<Rightarrow> nat list" where
  "ladder Buy n = rev [0..<n]"
| "ladder Sell n = [0..<n]"

definition abs_levels :: "Side \<Rightarrow> Price \<Rightarrow> nat \<Rightarrow> (nat \<Rightarrow> Queue) \<Rightarrow> Levels" where
  "abs_levels t mn n rq = map (\<lambda>i. (mn + int i, rq i)) (filter (\<lambda>i. rq i \<noteq> []) (ladder t n))"

definition ahead :: "Side \<Rightarrow> nat \<Rightarrow> nat \<Rightarrow> bool" where
  "ahead t j i \<longleftrightarrow> (if t = Buy then i < j else j < i)"

lemma ladder_split:
  assumes "i < n"
  obtains pre post where "ladder t n = pre @ i # post" "\<forall>j \<in> set pre. ahead t j i \<and> j < n" "\<forall>j \<in> set post. ahead t i j" "i \<notin> set post"
proof -
  have u: "[0..<n] = [0..<i] @ i # [Suc i..<n]"
    using assms upt_add_eq_append [of 0 i "n - i"] upt_conv_Cons [of i n] by simp
  show thesis
  proof (cases t)
    case Buy
    with u show thesis by (intro that [of "rev [Suc i..<n]" "rev [0..<i]"]) (auto simp: ahead_def)
  next
    case Sell
    with u assms show thesis by (intro that [of "[0..<i]" "[Suc i..<n]"]) (auto simp: ahead_def)
  qed
qed

lemma abs_levels_best:
  assumes "i < n" and "rq i \<noteq> []" and "\<And>j. j < n \<Longrightarrow> ahead t j i \<Longrightarrow> rq j = []"
  shows "abs_levels t mn n rq = (mn + int i, rq i) # abs_levels t mn n (rq(i := []))"
proof -
  obtain pre post where l: "ladder t n = pre @ i # post" "\<forall>j \<in> set pre. ahead t j i \<and> j < n" "\<forall>j \<in> set post. ahead t i j" "i \<notin> set post"
    using ladder_split [OF assms(1)] .
  have "filter (\<lambda>i. rq i \<noteq> []) pre = []" "filter (\<lambda>j. (rq(i := [])) j \<noteq> []) pre = []"
    using l(2) assms(3) by (auto simp: filter_empty_conv)
  moreover have "filter (\<lambda>j. (rq(i := [])) j \<noteq> []) post = filter (\<lambda>j. rq j \<noteq> []) post"
    using l(4) by (intro filter_cong) auto
  moreover have "map (\<lambda>j. (mn + int j, (rq(i := [])) j)) (filter (\<lambda>j. rq j \<noteq> []) post) =
      map (\<lambda>j. (mn + int j, rq j)) (filter (\<lambda>j. rq j \<noteq> []) post)"
    using l(4) by (intro map_cong) auto
  ultimately show ?thesis using assms(2) by (simp add: abs_levels_def l(1) del: fun_upd_apply) simp
qed

lemma abs_levels_none: "(\<And>i. i < n \<Longrightarrow> rq i = []) \<Longrightarrow> abs_levels t mn n rq = []"
  by (cases t) (auto simp: abs_levels_def filter_empty_conv)

lemma abs_levels_cong: "(\<And>i. i < n \<Longrightarrow> rq i = rq' i) \<Longrightarrow> abs_levels t mn n rq = abs_levels t mn n rq'"
proof -
  assume a: "\<And>i. i < n \<Longrightarrow> rq i = rq' i"
  have "set (ladder t n) = {..<n}" by (cases t) auto
  with a have "filter (\<lambda>i. rq i \<noteq> []) (ladder t n) = filter (\<lambda>i. rq' i \<noteq> []) (ladder t n)"
    by (intro filter_cong) auto
  then show ?thesis using a \<open>set (ladder t n) = {..<n}\<close> by (auto simp: abs_levels_def)
qed

text \<open>The three updates of one price level, on the levels a ladder stands for.\<close>

definition listing :: "Price \<Rightarrow> (nat \<Rightarrow> Queue) \<Rightarrow> nat list \<Rightarrow> Levels" where
  "listing mn rq xs = map (\<lambda>j. (mn + int j, rq j)) (filter (\<lambda>j. rq j \<noteq> []) xs)"

lemma abs_levels_split:
  assumes "i < n"
  obtains pre post where
    "\<forall>rq. abs_levels t mn n rq = listing mn rq pre @
       (if rq i = [] then [] else [(mn + int i, rq i)]) @ listing mn rq post"
    "\<forall>j \<in> set pre. px_before t (mn + int j) (mn + int i)" "\<forall>j \<in> set post. px_before t (mn + int i) (mn + int j)"
    "i \<notin> set pre" "i \<notin> set post"
proof -
  obtain pre post where l: "ladder t n = pre @ i # post" "\<forall>j \<in> set pre. ahead t j i \<and> j < n" "\<forall>j \<in> set post. ahead t i j" "i \<notin> set post"
    using ladder_split [OF assms] .
  have "i \<notin> set pre" using l(2) by (auto simp: ahead_def split: if_splits)
  moreover have "\<forall>j \<in> set pre. px_before t (mn + int j) (mn + int i)" "\<forall>j \<in> set post. px_before t (mn + int i) (mn + int j)"
    using l(2,3) by (cases t; auto simp: ahead_def)+
  ultimately show thesis using l(4) by (intro that [of pre post]) (auto simp: abs_levels_def l(1) listing_def)
qed

lemma levels_other: "i \<notin> set xs \<Longrightarrow> listing mn (rq(i := q)) xs = listing mn rq xs"
  by (induction xs) (auto simp: listing_def)

lemma listing_keys: "(p, q) \<in> set (listing mn rq xs) \<Longrightarrow> \<exists>j \<in> set xs. p = mn + int j \<and> q = rq j \<and> q \<noteq> []"
  by (auto simp: listing_def)

lemma remove_level_append: "remove_level oid px (as @ bs) = remove_level oid px as @ remove_level oid px bs"
  by (simp add: remove_level_def)

lemma remove_level_other: "(\<forall>(p, q) \<in> set lv. p \<noteq> px \<and> q \<noteq> []) \<Longrightarrow> remove_level oid px lv = lv"
  by (induction lv) auto

lemma amend_level_append: "amend_level oid px k (as @ bs) = amend_level oid px k as @ amend_level oid px k bs"
  by (simp add: amend_level_def)

lemma amend_level_other: "(\<forall>(p, q) \<in> set lv. p \<noteq> px) \<Longrightarrow> amend_level oid px k lv = lv"
  by (induction lv) auto

lemma om_alter_append: "(\<forall>p \<in> set as. k \<noteq> fst p \<and> \<not> lt k (fst p)) \<Longrightarrow> om_alter lt k f (as @ bs) = as @ om_alter lt k f bs"
  by (induction as) auto

lemma abs_remove:
  assumes "i < n"
  shows "remove_level oid (mn + int i) (abs_levels t mn n rq) = abs_levels t mn n (rq(i := filter (\<lambda>r. ro_id r \<noteq> oid) (rq i)))"
proof -
  obtain pre post where sp: "\<forall>rq. abs_levels t mn n rq = listing mn rq pre @
       (if rq i = [] then [] else [(mn + int i, rq i)]) @ listing mn rq post"
    "\<forall>j \<in> set pre. px_before t (mn + int j) (mn + int i)" "\<forall>j \<in> set post. px_before t (mn + int i) (mn + int j)"
    "i \<notin> set pre" "i \<notin> set post" by (rule abs_levels_split [OF assms, of t mn])
  have "remove_level oid (mn + int i) (listing mn rq xs) =
      listing mn rq xs" if "i \<notin> set xs" for xs
    using that by (intro remove_level_other) (auto dest: listing_keys)
  with sp(4,5) show ?thesis unfolding sp(1) [rule_format] remove_level_append by (simp add: levels_other Let_def)
qed

lemma abs_amend:
  assumes "i < n"
  shows "amend_level oid (mn + int i) k (abs_levels t mn n rq) =
    abs_levels t mn n (rq(i := map (\<lambda>r. if ro_id r = oid then r\<lparr>ro_qty := k\<rparr> else r) (rq i)))"
proof -
  obtain pre post where sp: "\<forall>rq. abs_levels t mn n rq = listing mn rq pre @
       (if rq i = [] then [] else [(mn + int i, rq i)]) @ listing mn rq post"
    "\<forall>j \<in> set pre. px_before t (mn + int j) (mn + int i)" "\<forall>j \<in> set post. px_before t (mn + int i) (mn + int j)"
    "i \<notin> set pre" "i \<notin> set post" by (rule abs_levels_split [OF assms, of t mn])
  have "amend_level oid (mn + int i) k (listing mn rq xs) =
      listing mn rq xs" if "i \<notin> set xs" for xs
    using that by (intro amend_level_other) (auto dest: listing_keys)
  with sp(4,5) show ?thesis unfolding sp(1) [rule_format] amend_level_append by (simp add: levels_other)
qed

lemma abs_enqueue:
  assumes "i < n"
  shows "enqueue t (mn + int i) r (abs_levels t mn n rq) = abs_levels t mn n (rq(i := rq i @ [r]))"
proof -
  obtain pre post where sp: "\<forall>rq. abs_levels t mn n rq = listing mn rq pre @
       (if rq i = [] then [] else [(mn + int i, rq i)]) @ listing mn rq post"
    "\<forall>j \<in> set pre. px_before t (mn + int j) (mn + int i)" "\<forall>j \<in> set post. px_before t (mn + int i) (mn + int j)"
    "i \<notin> set pre" "i \<notin> set post" by (rule abs_levels_split [OF assms, of t mn])
  let ?f = "\<lambda>q. (case q of None \<Rightarrow> [] | Some q \<Rightarrow> q) @ [r]"
  let ?pre = "listing mn rq pre"
  let ?post = "listing mn rq post"
  have a: "om_alter (px_before t) (mn + int i) ?f (?pre @ bs) = ?pre @ om_alter (px_before t) (mn + int i) ?f bs" for bs
  proof (rule om_alter_append, rule ballI)
    fix x assume "x \<in> set ?pre"
    then obtain j where "j \<in> set pre" "fst x = mn + int j"
      using listing_keys [of "fst x" "snd x"] by (metis prod.collapse)
    with sp(2) show "mn + int i \<noteq> fst x \<and> \<not> px_before t (mn + int i) (fst x)" by (cases t) auto
  qed
  have p: "om_alter (px_before t) (mn + int i) ?f ?post = (mn + int i, [r]) # ?post"
  proof (cases ?post)
    case (Cons x l)
    then have "x \<in> set ?post" by simp
    then obtain j where j: "j \<in> set post" "x = (mn + int j, rq j)"
      using listing_keys [of "fst x" "snd x"] by (metis prod.collapse)
    with sp(3) have "px_before t (mn + int i) (mn + int j)" by blast
    with j(2) px_before_simps(1) [OF this] Cons show ?thesis by simp
  qed simp
  from a p sp(4,5) show ?thesis unfolding sp(1) [rule_format] by (simp add: levels_other)
qed

lemma abs_levels_lookup:
  assumes "i < n" and "rq i \<noteq> []"
  shows "(mn + int i, rq i) \<in> set (abs_levels t mn n rq)"
proof -
  have "i \<in> set (ladder t n)" using assms(1) by (cases t) auto
  with assms(2) show ?thesis by (auto simp: abs_levels_def)
qed

lemma abs_levels_set: "(p, q) \<in> set (abs_levels t mn n rq) \<longleftrightarrow> (\<exists>i < n. p = mn + int i \<and> q = rq i \<and> q \<noteq> [])"
proof -
  have "set (ladder t n) = {..<n}" by (cases t) auto
  then show ?thesis by (auto simp: abs_levels_def)
qed

lemma lv_data_commute: "lv_upd i f (data_upd g b) = data_upd g (lv_upd i f b)"
  by (simp add: lv_upd_def data_upd_def)

text \<open>Without self-trade prevention the scan of a queue needs only the sum, as long as it does not wrap.\<close>

definition no_wrap :: "Queue \<Rightarrow> bool" where
  "no_wrap q \<longleftrightarrow> sum_list (map (\<lambda>r. unat (ro_qty r)) q) < 2 ^ 64"

lemma no_wrap_Cons: "no_wrap (r # q) \<Longrightarrow> no_wrap q"
  by (simp add: no_wrap_def)

lemma unat_level_qty: "no_wrap q \<Longrightarrow> unat (rb_level_qty q) = sum_list (map (\<lambda>r. unat (ro_qty r)) q)"
proof (induction q)
  case (Cons r q)
  then have "unat (rb_level_qty q) = sum_list (map (\<lambda>r. unat (ro_qty r)) q)" using no_wrap_Cons by blast
  with Cons.prems show ?case by (simp add: rb_level_qty_def no_wrap_def unat_word_ariths)
qed (simp add: rb_level_qty_def)

lemma scan_queue_none:
  assumes "no_wrap q" and "need \<noteq> 0"
  shows "scan_queue owner StpNone q need =
    (if rb_level_qty q \<ge> need then Inl True else Inr (need - rb_level_qty q))"
  using assms
proof (induction q arbitrary: need)
  case (Cons r q)
  have u: "unat (rb_level_qty (r # q)) = unat (ro_qty r) + unat (rb_level_qty q)"
    using unat_level_qty [OF Cons.prems(1)] unat_level_qty [OF no_wrap_Cons [OF Cons.prems(1)]] by simp
  have s: "rb_level_qty (r # q) = ro_qty r + rb_level_qty q" by (simp add: rb_level_qty_def)
  show ?case
  proof (cases "ro_qty r \<ge> need")
    case True
    then have "rb_level_qty (r # q) \<ge> need" using u by (simp add: word_le_nat_alt)
    with True show ?thesis by simp
  next
    case False
    then have lt: "unat (ro_qty r) < unat need" by (simp add: word_le_nat_alt)
    then have d: "unat (need - ro_qty r) = unat need - unat (ro_qty r)" by (simp add: unat_sub word_le_nat_alt)
    have nz: "need - ro_qty r \<noteq> 0" using lt by auto
    have "(rb_level_qty q \<ge> need - ro_qty r) = (rb_level_qty (r # q) \<ge> need)"
      using u d lt by (simp add: word_le_nat_alt) linarith
    with Cons.IH [OF no_wrap_Cons [OF Cons.prems(1)] nz] False s show ?thesis by (simp add: diff_diff_add)
  qed
qed (simp add: rb_level_qty_def)

section \<open>One queue\<close>

context order_store
begin

lemma ref_of_simps [simp]:
  "ro_id (ref_of d s) = so_id ops d s" "ro_qty (ref_of d s) = so_qty ops d s" "ro_owner (ref_of d s) = so_owner ops d s"
  by (simp_all add: ref_of_def)

text \<open>
  The inner loop of the sweep does to the slots of a queue what the reference does to the list: it
  returns, with the same open quantity, stop flag and events.
\<close>

definition heads_at :: "'d OrderBook \<Rightarrow> nat \<Rightarrow> nat \<Rightarrow> nat \<Rightarrow> nat" where
  "heads_at b i s = (heads b)(i := s)"

lemma heads_at_apply: "heads_at b i s j = (if j = i then s else lv_head (ob_levels b ! j))"
  by (simp add: heads_at_def)

lemma drop_front_step:
  assumes "struct_inv n b (heads_at b i (s)) Q F" and "Q t i = s # xs"
  shows "\<exists>ids b'. ix_erase_known (ob_ids b) (so_id ops (data b) s) s = Some ids \<and>
    b' = (lv_upd i (\<lambda>l. l\<lparr>lv_qty := lv_qty l - so_qty ops (data b) s\<rparr>) b)
        \<lparr>ob_ids := ids, ob_store := release ops s (ob_store b)\<rparr> \<and>
    struct_inv n b' (heads_at b' i (so_next ops (data b) s)) (put t i xs Q) (s # F) \<and> same_touch b b' \<and>
    ref_of (data b') = ref_of (data b)"
proof -
  from drop_front [OF assms] obtain ids where ids: "ix_erase_known (ob_ids b) (so_id ops (data b) s) s = Some ids" and
    st: "struct_inv n ((lv_upd i (\<lambda>l. l\<lparr>lv_qty := lv_qty l - so_qty ops (data b) s\<rparr>) b)
        \<lparr>ob_ids := ids, ob_store := release ops s (ob_store b)\<rparr>)
      ((heads_at b i (s))(i := so_next ops (data b) s)) (put t i xs Q) (s # F)" by blast
  define b' where "b' = (lv_upd i (\<lambda>l. l\<lparr>lv_qty := lv_qty l - so_qty ops (data b) s\<rparr>) b)
        \<lparr>ob_ids := ids, ob_store := release ops s (ob_store b)\<rparr>"
  have sl: "s \<in> live Q" using assms(2) by (metis live_iff list.set_intros(1))
  note R = release_split [OF struct_invD(6) [OF assms(1)] sl]
  have len: "length (ob_levels b) = n" using struct_invD(1) [OF assms(1)] .
  have i: "i < n" using struct_invD(4) [OF assms(1), of s t i] assms(2) by simp
  have "struct_inv n b' (heads_at b' i (so_next ops (data b) s)) (put t i xs Q) (s # F)"
    by (rule struct_cong [OF st [folded b'_def]]) (use len in \<open>auto simp: b'_def nth_list_update heads_at_apply\<close>)
  moreover have "same_touch b b'"
    using len i R(2) by (auto simp: same_touch_def same_frame_def b'_def intro!: nth_equalityI simp: nth_list_update)
  moreover have "ref_of (data b') = ref_of (data b)" using R by (simp add: ref_of_def fun_eq_iff b'_def)
  ultimately show ?thesis using ids b'_def by blast
qed

lemma sweep_queue_sim:
  assumes "struct_inv n b (heads_at b i (s)) Q F" and "Q (opposite side) i = xs" and "Q side i = []"
    and "i < n" and "qty \<noteq> 0"
    and "match_queue (ob_symbol b) taker owner side (ob_min_price b + limit) stp (ob_min_price b + int i)
      (map (ref_of (data b)) xs) ixr qty = (q', ixr', qty', stop, evs)"
  shows "\<exists>b' s' xs' F'. sweep_queue ops side taker owner limit stp i b s qty = Some (b', s', qty', stop, evs) \<and>
    struct_inv n b' (heads_at b' i (s')) (put (opposite side) i xs' Q) F' \<and> q' = map (ref_of (data b')) xs' \<and>
    set xs' \<subseteq> set xs \<and> same_touch b b' \<and> (\<forall>v. v \<notin> set xs \<longrightarrow> ref_of (data b') v = ref_of (data b) v)"
  using assms
proof (induction xs arbitrary: b s Q F qty evs ixr)
  case Nil
  have "at_level Q i = []" using Nil.prems(2,3) at_level_side [of Q side i] by simp
  with struct_invD(3) [OF Nil.prems(1,4)] have s: "s = kNil" by (simp add: queue_links_def heads_at_apply)
  show ?case
    by (rule exI [of _ b], rule exI [of _ s], rule exI [of _ "[]"], rule exI [of _ F], subst sweep_queue.simps)
      (use Nil.prems s put_same [of "opposite side" i Q] in \<open>simp add: Let_def\<close>)
next
  case (Cons x xs)
  note q = Cons.prems(2)
  have al: "at_level Q i = x # xs" using at_level_side [of Q "opposite side" i] Cons.prems(3) q by simp
  have ql: "queue_links (data b) s (ob_levels b ! i) (x # xs)" using struct_invD(3) [OF Cons.prems(1,4)] al by (simp add: heads_at_apply)
  have s: "s = x" "s \<noteq> kNil" and nx: "x \<notin> set xs" using ql by (auto simp: queue_links_def)
  note U = sweep_queue.simps [of ops side taker owner limit stp i b s qty]
  obtain ids b1 where er: "ix_erase_known (ob_ids b) (so_id ops (data b) s) s = Some ids"
    and b1: "b1 = (lv_upd i (\<lambda>l. l\<lparr>lv_qty := lv_qty l - so_qty ops (data b) s\<rparr>) b)
        \<lparr>ob_ids := ids, ob_store := release ops s (ob_store b)\<rparr>"
    and st1: "struct_inv n b1 (heads_at b1 i (so_next ops (data b) s)) (put (opposite side) i xs Q) (s # F)"
    and tc1: "same_touch b b1" and rf1: "ref_of (data b1) = ref_of (data b)"
    using drop_front_step [OF Cons.prems(1) q [folded s(1)]] by blast
  have fr: "ob_symbol b1 = ob_symbol b" "ob_min_price b1 = ob_min_price b" by (simp_all add: b1)
  have IH: "\<exists>b' s' xs' F'. sweep_queue ops side taker owner limit stp i b1 (so_next ops (data b) s) m = Some (b', s', qty', stop, evs') \<and>
      struct_inv n b' (heads_at b' i (s')) (put (opposite side) i xs' Q) F' \<and> q' = map (ref_of (data b')) xs' \<and>
      set xs' \<subseteq> set (x # xs) \<and> same_touch b b' \<and> (\<forall>v. v \<notin> set (x # xs) \<longrightarrow> ref_of (data b') v = ref_of (data b) v)"
    if "m \<noteq> 0" "match_queue (ob_symbol b) taker owner side (ob_min_price b + limit) stp (ob_min_price b + int i)
      (map (ref_of (data b)) xs) ix2 m = (q', ixr', qty', stop, evs')" for m ix2 evs'
  proof -
    from Cons.IH [OF st1 _ _ Cons.prems(4) that(1), of ix2 evs'] that(2) Cons.prems(3) fr rf1
    obtain b' s' xs' F' where *: "sweep_queue ops side taker owner limit stp i b1 (so_next ops (data b) s) m = Some (b', s', qty', stop, evs')"
      "struct_inv n b' (heads_at b' i (s')) (put (opposite side) i xs' Q) F'" "q' = map (ref_of (data b')) xs'"
      "set xs' \<subseteq> set xs" "same_touch b1 b'" "\<forall>v. v \<notin> set xs \<longrightarrow> ref_of (data b') v = ref_of (data b) v"
      by auto
    have "same_touch b b'" using same_touch_trans [OF tc1 *(5)] .
    with * show ?thesis by (intro exI [of _ b'] exI [of _ s'] exI [of _ xs'] exI [of _ F']) auto
  qed
  have H: ?case if "sweep_queue ops side taker owner limit stp i b s qty = Some (b', s', qty', stop, evs)"
      "struct_inv n b' (heads_at b' i (s')) (put (opposite side) i xs' Q) F'" "q' = map (ref_of (data b')) xs'"
      "set xs' \<subseteq> set (x # xs)" "same_touch b b'" "\<forall>v. v \<notin> set (x # xs) \<longrightarrow> ref_of (data b') v = ref_of (data b) v"
    for b' s' xs' F' using that by blast
  have G: ?case if "m \<noteq> 0" "match_queue (ob_symbol b) taker owner side (ob_min_price b + limit) stp (ob_min_price b + int i)
      (map (ref_of (data b)) xs) ix2 m = (q', ixr', qty', stop, evs')"
     "\<And>b' s'. sweep_queue ops side taker owner limit stp i b1 (so_next ops (data b) s) m = Some (b', s', qty', stop, evs') \<Longrightarrow>
        sweep_queue ops side taker owner limit stp i b s qty = Some (b', s', qty', stop, evs)" for m ix2 evs'
    using IH [OF that(1,2)] that(3) by blast
  have E: ?case if "sweep_queue ops side taker owner limit stp i b s qty = Some (b1, so_next ops (data b) s, qty', stop, evs)"
      "q' = map (ref_of (data b)) xs"
    using H [OF that(1) st1] that(2) rf1 tc1 by auto
  have M: ?case if "so_qty ops (data b) s > qty" "b' = data_upd (so_set_qty ops s (so_qty ops (data b) s - qty)) (lv_upd i (\<lambda>l. l\<lparr>lv_qty := lv_qty l - qty\<rparr>) b)"
      "sweep_queue ops side taker owner limit stp i b s qty = Some (b', s, qty', stop, evs)"
      "q' = (ref_of (data b) x)\<lparr>ro_qty := so_qty ops (data b) s - qty\<rparr> # map (ref_of (data b)) xs" for b'
  proof -
    have nz: "so_qty ops (data b) s - qty \<noteq> 0" and sq: "s \<in> set (Q (opposite side) i)" using that(1) q s by auto
    have "b' = data_upd (so_set_qty ops s (so_qty ops (data b) s - qty))
        (lv_upd i (\<lambda>l. l\<lparr>lv_qty := lv_qty l - (so_qty ops (data b) s - (so_qty ops (data b) s - qty))\<rparr>) b)"
      using that(2) by simp
    note * = set_queued_qty [OF Cons.prems(1) sq nz this]
    have "struct_inv n b' (heads_at b' i (s)) (put (opposite side) i (x # xs) Q) F"
      using struct_cong [OF *(1), of b' "heads_at b' i s"] struct_invD(1) [OF Cons.prems(1)] put_same [of "opposite side" i Q] q
      by (auto simp: that(2) nth_list_update heads_at_apply)
    from H [OF that(3) this] show ?thesis using *(2,3) that(4) nx s(1) by auto
  qed
  have "match_queue (ob_symbol b) taker owner side (ob_min_price b + limit) stp (ob_min_price b + int i)
      (ref_of (data b) x # map (ref_of (data b)) xs) ixr qty = (q', ixr', qty', stop, evs)" using Cons.prems(6) by simp
  then show ?case using Cons.prems(5)
  proof (cases rule: match_queue_Cons_cases)
    case Incoming
    have "sweep_queue ops side taker owner limit stp i b s qty = Some (b, s, qty', stop, evs)"
      unfolding U using Incoming s by (simp add: Let_def)
    from H [OF this, of "x # xs" F] Incoming Cons.prems(1) q put_same [of "opposite side" i Q] s show ?thesis by auto
  next
    case Decrement
    show ?thesis
    proof (rule M [OF _ refl])
      show "sweep_queue ops side taker owner limit stp i b s qty = Some (data_upd (so_set_qty ops s (so_qty ops (data b) s - qty))
          (lv_upd i (\<lambda>l. l\<lparr>lv_qty := lv_qty l - qty\<rparr>) b), s, qty', stop, evs)"
        unfolding U using Decrement s by (simp add: Let_def lv_data_commute)
    qed (use Decrement s in auto)
  next
    case Both
    have "sweep_queue ops side taker owner limit stp i b s qty = Some (b1, so_next ops (data b) s, qty', stop, evs)"
      unfolding U using Both s er by (simp add: Let_def b1)
    with Both show ?thesis by (intro E) auto
  next
    case (Reduce evs')
    then have m: "qty - so_qty ops (data b) x \<noteq> 0" "\<not> so_qty ops (data b) x > qty" "so_qty ops (data b) x \<noteq> qty" by auto
    show ?thesis
      by (rule G [OF m(1) Reduce(4) [simplified]], unfold U)
        (use m Reduce s er b1 in \<open>auto simp: Let_def\<close>)
  next
    case (Drop evs')
    show ?thesis
      by (rule G [OF Cons.prems(5) Drop(3) [simplified]], unfold U)
        (use Drop s er b1 in \<open>auto simp: Let_def\<close>)
  next
    case (Fill evs')
    have ow: "\<not> (stp \<noteq> StpNone \<and> so_owner ops (data b) s = owner)" using Fill(1) s by auto
    show ?thesis
    proof (cases "qty - so_qty ops (data b) s = 0")
      case True
      have "sweep_queue ops side taker owner limit stp i b s qty = Some (b1, so_next ops (data b) s, qty', stop, evs)"
        unfolding U if_not_P [OF ow] using True Fill s er by (simp add: Let_def b1)
      with True Fill(3) s show ?thesis by (intro E) auto
    next
      case False
      then have lt: "so_qty ops (data b) s < qty" using Fill(2) s by auto
      show ?thesis
        by (rule G [OF False Fill(3) [simplified, folded s(1)]], unfold U if_not_P [OF ow])
          (use lt False Fill(4) s er b1 in \<open>auto simp: Let_def\<close>)
    qed
  next
    case Part
    have ow: "\<not> (stp \<noteq> StpNone \<and> so_owner ops (data b) s = owner)" using Part(1) s by auto
    show ?thesis
    proof (rule M [OF _ refl])
      show "sweep_queue ops side taker owner limit stp i b s qty = Some (data_upd (so_set_qty ops s (so_qty ops (data b) s - qty))
          (lv_upd i (\<lambda>l. l\<lparr>lv_qty := lv_qty l - qty\<rparr>) b), s, qty', stop, evs)"
        unfolding U if_not_P [OF ow] using Part s by (auto simp: Let_def)
    qed (use Part s in auto)
  qed
qed

section \<open>A whole side\<close>

definition refs :: "'d \<Rightarrow> (nat \<Rightarrow> nat list) \<Rightarrow> nat \<Rightarrow> Queue" where
  "refs d q i = map (ref_of d) (q i)"

lemma refs_Nil [simp]: "refs d q i = [] \<longleftrightarrow> q i = []"
  by (simp add: refs_def)

lemma refs_upd: "refs d (q(i := xs)) = (refs d q)(i := map (ref_of d) xs)"
  by (auto simp: refs_def fun_eq_iff)

lemma refs_cong: "(\<And>v. v \<in> set (q i) \<Longrightarrow> ref_of d v = ref_of d' v) \<Longrightarrow> refs d q i = refs d' q i"
  by (simp add: refs_def)

text \<open>The best level of a side and the condition of the sweep.\<close>

lemma best_level:
  assumes "touch_inv n b Q" and "0 \<le> limit" "limit < int n"
  shows "(\<exists>i < n. best (opposite side) b = int i \<and> Q (opposite side) i \<noteq> [] \<and>
      (\<forall>j < n. ahead (opposite side) j i \<longrightarrow> Q (opposite side) j = []) \<and>
      crosses side limit b = in_range side (mn + limit) (mn + int i)) \<or>
    (\<forall>j < n. Q (opposite side) j = []) \<and> \<not> crosses side limit b"
proof -
  have st: "best_ok (opposite side) n (best (opposite side) b) (Q (opposite side))"
    using assms(1) by (simp add: touch_inv_def side_touch_def)
  show ?thesis
  proof (cases side)
    case Buy
    with st have b: "0 \<le> ob_best_ask b" "ob_best_ask b \<le> int n" "ob_best_ask b < int n \<Longrightarrow> Q Sell (nat (ob_best_ask b)) \<noteq> []"
      "\<And>j. j < n \<Longrightarrow> int j < ob_best_ask b \<Longrightarrow> Q Sell j = []" by auto
    show ?thesis
    proof (cases "ob_best_ask b < int n")
      case True
      with b Buy show ?thesis by (intro disjI1 exI [of _ "nat (ob_best_ask b)"]) (auto simp: ahead_def)
    qed (use b assms(3) Buy in auto)
  next
    case Sell
    with st have b: "- 1 \<le> ob_best_bid b" "ob_best_bid b < int n" "0 \<le> ob_best_bid b \<Longrightarrow> Q Buy (nat (ob_best_bid b)) \<noteq> []"
      "\<And>j. j < n \<Longrightarrow> ob_best_bid b < int j \<Longrightarrow> Q Buy j = []" by auto
    show ?thesis
    proof (cases "0 \<le> ob_best_bid b")
      case True
      with b Sell show ?thesis by (intro disjI1 exI [of _ "nat (ob_best_bid b)"]) (auto simp: ahead_def)
    qed (use b assms(2) Sell in auto)
  qed
qed

lemma refs_other:
  assumes "struct_inv n b h Q F" and "\<forall>v. v \<notin> set (Q t i) \<longrightarrow> ref_of d' v = ref_of (data b) v"
  shows "j \<noteq> i \<Longrightarrow> refs d' (Q u) j = refs (data b) (Q u) j" and "refs d' (Q (opposite t)) = refs (data b) (Q (opposite t))"
proof -
  have *: "refs d' (Q u) j = refs (data b) (Q u) j" if "j \<noteq> i \<or> u \<noteq> t" for u j
    by (rule refs_cong) (use that assms(2) struct_invD(4) [OF assms(1)] in metis)
  then show "j \<noteq> i \<Longrightarrow> refs d' (Q u) j = refs (data b) (Q u) j" by blast
  show "refs d' (Q (opposite t)) = refs (data b) (Q (opposite t))" using * by (auto simp: fun_eq_iff)
qed

text \<open>One turn of the outer loop: the queue at the best level, then the level is closed.\<close>

lemma sweep_level:
  assumes inv: "book_inv n b Q F" and i: "i < n" "best (opposite side) b = int i" "Q (opposite side) i \<noteq> []"
    and go: "qty \<noteq> 0" "crosses side limit b"
    and m: "match_queue (ob_symbol b) taker owner side (ob_min_price b + limit) stp (ob_min_price b + int i)
      (map (ref_of (data b)) (Q (opposite side) i)) ixr qty = (q', ixr', qty', stop, evs)"
  shows "\<exists>b2 xs' F'. book_inv n b2 (put (opposite side) i xs' Q) F' \<and> same_frame b b2 \<and>
    refs (data b2) (put (opposite side) i xs' Q (opposite side)) = (refs (data b) (Q (opposite side)))(i := q') \<and>
    refs (data b2) (Q side) = refs (data b) (Q side) \<and>
    sweep ops side taker owner limit stp b qty =
      (if stop then Some (b2, qty', True, evs)
       else do { (b3, qty3, stop3, evs3) \<leftarrow> sweep ops side taker owner limit stp b2 qty';
                 Some (b3, qty3, stop3, evs @ evs3) })"
proof -
  let ?mk = "opposite side"
  have st: "struct_inv n b (heads b) Q F" and to: "touch_inv n b Q" using inv by (auto simp: book_inv_def)
  have oe: "Q side i = []" using side_queue(1) [OF st i(3)] by simp
  have "heads_at b i (heads b i) = heads b" by (auto simp: heads_at_def fun_eq_iff)
  with st have "struct_inv n b (heads_at b i (heads b i)) Q F" by simp
  from sweep_queue_sim [OF this refl oe i(1) go(1) m] obtain b1 s1 xs' F' where
    sw: "sweep_queue ops side taker owner limit stp i b (heads b i) qty = Some (b1, s1, qty', stop, evs)" and
    st1: "struct_inv n b1 (heads_at b1 i s1) (put ?mk i xs' Q) F'" and q': "q' = map (ref_of (data b1)) xs'" and
    tc: "same_touch b b1" and rf: "\<forall>v. v \<notin> set (Q ?mk i) \<longrightarrow> ref_of (data b1) v = ref_of (data b) v" by blast
  define b2 where "b2 = close_level ?mk (int i) s1 b1"
  have oe': "Q (opposite ?mk) i = []" using oe by simp
  note C = close_level_inv [OF st1 [unfolded heads_at_def] to tc i(1,3) oe' i(2) b2_def]
  have r: "refs (data b2) (put ?mk i xs' Q ?mk) = (refs (data b) (Q ?mk))(i := q')"
  proof
    fix j show "refs (data b2) (put ?mk i xs' Q ?mk) j = ((refs (data b) (Q ?mk))(i := q')) j"
      using refs_other(1) [OF st rf, of j ?mk] C(3) q' by (cases "j = i") (auto simp: refs_def)
  qed
  have "sweep ops side taker owner limit stp b qty =
      (if stop then Some (b2, qty', True, evs)
       else do { (b3, qty3, stop3, evs3) \<leftarrow> sweep ops side taker owner limit stp b2 qty';
                 Some (b3, qty3, stop3, evs @ evs3) })"
    using go i(2) sw by (subst sweep.simps) (simp add: Let_def b2_def)
  with C r refs_other(2) [OF st rf] show ?thesis by (intro exI [of _ b2] exI [of _ xs'] exI [of _ F']) auto
qed

lemma sweep_sim:
  assumes "book_inv n b Q F" and "0 \<le> limit" "limit < int n"
    and "lv = abs_levels (opposite side) (ob_min_price b) n (refs (data b) (Q (opposite side)))"
    and "match_side (ob_symbol b) taker owner side (ob_min_price b + limit) stp lv ixr qty = (lv', ixr', qty', stop, evs)"
  shows "\<exists>b' Q' F'. sweep ops side taker owner limit stp b qty = Some (b', qty', stop, evs) \<and> book_inv n b' Q' F' \<and>
    lv' = abs_levels (opposite side) (ob_min_price b) n (refs (data b') (Q' (opposite side))) \<and>
    Q' side = Q side \<and> refs (data b') (Q side) = refs (data b) (Q side) \<and> same_frame b b'"
  using assms
proof (induction lv arbitrary: b Q F qty evs ixr)
  case Nil
  have "Q (opposite side) j = []" if "j < n" for j
  proof (rule ccontr)
    assume "Q (opposite side) j \<noteq> []"
    moreover have "j \<in> set (ladder (opposite side) n)" using that by (cases side) auto
    ultimately have "j \<in> set (filter (\<lambda>i. refs (data b) (Q (opposite side)) i \<noteq> []) (ladder (opposite side) n))" by simp
    moreover have "filter (\<lambda>i. refs (data b) (Q (opposite side)) i \<noteq> []) (ladder (opposite side) n) = []"
      using Nil.prems(4) [symmetric] unfolding abs_levels_def by simp
    ultimately show False by (auto simp: filter_empty_conv)
  qed
  moreover have "touch_inv n b Q" using Nil.prems(1) by (simp add: book_inv_def)
  ultimately have "\<not> crosses side limit b" using best_level [of n b Q limit side "ob_min_price b"] Nil.prems(2,3) by auto
  then have "sweep ops side taker owner limit stp b qty = Some (b, qty, False, [])" by (subst sweep.simps) simp
  with Nil.prems show ?case by (intro exI [of _ b] exI [of _ Q] exI [of _ F]) auto
next
  case (Cons pq lv)
  let ?mk = "opposite side"
  let ?mn = "ob_min_price b"
  have st: "struct_inv n b (heads b) Q F" and to: "touch_inv n b Q" using Cons.prems(1) by (auto simp: book_inv_def)
  have "abs_levels ?mk ?mn n (refs (data b) (Q ?mk)) \<noteq> []" using Cons.prems(4) by auto
  then have ex: "\<not> (\<forall>j < n. Q ?mk j = [])" using abs_levels_none [of n "refs (data b) (Q ?mk)"] by auto
  with best_level [OF to Cons.prems(2,3), of side ?mn] obtain i where
    i: "i < n" "best ?mk b = int i" "Q ?mk i \<noteq> []" "\<forall>j < n. ahead ?mk j i \<longrightarrow> Q ?mk j = []"
      "crosses side limit b = in_range side (?mn + limit) (?mn + int i)" by blast
  have oe: "Q side i = []" using side_queue(1) [OF st i(3)] by simp
  have "abs_levels ?mk ?mn n (refs (data b) (Q ?mk)) =
      (?mn + int i, refs (data b) (Q ?mk) i) # abs_levels ?mk ?mn n ((refs (data b) (Q ?mk))(i := []))"
    by (rule abs_levels_best) (use i in auto)
  then have lv: "pq = (?mn + int i, map (ref_of (data b)) (Q ?mk i))" "lv = abs_levels ?mk ?mn n ((refs (data b) (Q ?mk))(i := []))"
    using Cons.prems(4) refs_def [of "data b" "Q ?mk" i] by simp_all
  from Cons.prems(5) [unfolded lv(1)] show ?case
  proof (cases rule: match_side_Cons_cases)
    case Out
    then have "sweep ops side taker owner limit stp b qty = Some (b, qty, False, [])" using i(5) by (subst sweep.simps) auto
    with Out Cons.prems show ?thesis using lv by (intro exI [of _ b] exI [of _ Q] exI [of _ F]) auto
  next
    case (End q')
    from sweep_level [OF Cons.prems(1) i(1-3) End(1) _ End(3)] End(2) i(5) obtain b2 xs' F' where
      b2: "book_inv n b2 (put ?mk i xs' Q) F'" "same_frame b b2"
        "refs (data b2) (put ?mk i xs' Q ?mk) = (refs (data b) (Q ?mk))(i := q')" "refs (data b2) (Q side) = refs (data b) (Q side)"
        "sweep ops side taker owner limit stp b qty =
          (if stop then Some (b2, qty', True, evs)
           else do { (b3, qty3, stop3, evs3) \<leftarrow> sweep ops side taker owner limit stp b2 qty';
                     Some (b3, qty3, stop3, evs @ evs3) })" by blast
    have sw: "sweep ops side taker owner limit stp b qty = Some (b2, qty', stop, evs)"
    proof (cases stop)
      case False
      then have "qty' = 0" using match_queue_end(1) [OF End(3)] End(4) by auto
      then show ?thesis using b2(5) False by (simp add: sweep.simps [of ops side taker owner limit stp b2 0])
    qed (use b2(5) in simp)
    have e: "lv' = abs_levels ?mk ?mn n ((refs (data b) (Q ?mk))(i := q'))"
    proof (cases "q' = []")
      case False
      have "abs_levels ?mk ?mn n ((refs (data b) (Q ?mk))(i := q')) =
          (?mn + int i, ((refs (data b) (Q ?mk))(i := q')) i) # abs_levels ?mk ?mn n (((refs (data b) (Q ?mk))(i := q'))(i := []))"
        by (rule abs_levels_best) (use i False in \<open>auto simp: ahead_def split: if_splits\<close>)
      then show ?thesis using End(5) lv(2) False by simp
    qed (use End(5) lv(2) in simp)
    have "lv' = abs_levels ?mk ?mn n (refs (data b2) (put ?mk i xs' Q ?mk))" unfolding b2(3) by (rule e)
    moreover have "put ?mk i xs' Q side = Q side" by simp
    ultimately show ?thesis using sw b2(1,2,4) by metis
  next
    case (Next ix1 qty1 evs1 evs2)
    from sweep_level [OF Cons.prems(1) i(1-3) Next(1) _ Next(3)] Next(2) i(5) obtain b2 xs' F' where
      b2: "book_inv n b2 (put ?mk i xs' Q) F'" "same_frame b b2"
        "refs (data b2) (put ?mk i xs' Q ?mk) = (refs (data b) (Q ?mk))(i := [])" "refs (data b2) (Q side) = refs (data b) (Q side)"
        "sweep ops side taker owner limit stp b qty =
           do { (b3, qty3, stop3, evs3) \<leftarrow> sweep ops side taker owner limit stp b2 qty1;
                     Some (b3, qty3, stop3, evs1 @ evs3) }" by fastforce
    have fr: "ob_symbol b2 = ob_symbol b" "ob_min_price b2 = ?mn" using b2(2) by (auto simp: same_frame_def)
    have lv2: "lv = abs_levels ?mk (ob_min_price b2) n (refs (data b2) (put ?mk i xs' Q ?mk))" using lv(2) b2(3) fr by simp
    have m2: "match_side (ob_symbol b2) taker owner side (ob_min_price b2 + limit) stp lv ix1 qty1 = (lv', ixr', qty', stop, evs2)"
      using Next(4) fr by simp
    from Cons.IH [OF b2(1) Cons.prems(2,3) lv2 m2] obtain b' Q' F'' where
      r: "sweep ops side taker owner limit stp b2 qty1 = Some (b', qty', stop, evs2)" "book_inv n b' Q' F''"
        "lv' = abs_levels ?mk (ob_min_price b2) n (refs (data b') (Q' ?mk))" "Q' side = put ?mk i xs' Q side"
        "refs (data b') (put ?mk i xs' Q side) = refs (data b2) (put ?mk i xs' Q side)" "same_frame b2 b'" by blast
    have "put ?mk i xs' Q side = Q side" by simp
    moreover have "sweep ops side taker owner limit stp b qty = Some (b', qty', stop, evs)" using b2(5) r(1) Next(5) by simp
    ultimately show ?thesis using r(2-5) b2(4) fr same_frame_trans [OF b2(2) r(6)] by metis
  qed
qed

section \<open>The fill-or-kill pre-check\<close>

lemma fill_queue_sim:
  assumes "chain (so_next ops (data b)) s xs kNil" and "stp \<noteq> StpNone"
  shows "fill_queue ops owner stp b s need = Some (scan_queue owner stp (map (ref_of (data b)) xs) need)"
  using assms(1)
proof (induction xs arbitrary: s need)
  case Nil
  then show ?case by (subst fill_queue.simps) simp
next
  case (Cons x xs)
  then have "s = x" "x \<noteq> kNil" "chain (so_next ops (data b)) (so_next ops (data b) x) xs kNil" by auto
  with Cons.IH [OF this(3)] assms(2) show ?case
    by (subst fill_queue.simps) (auto simp: Let_def split: if_splits)
qed

text \<open>The levels of a side from a cursor on.\<close>

definition from_level :: "Side \<Rightarrow> int \<Rightarrow> (nat \<Rightarrow> nat list) \<Rightarrow> nat \<Rightarrow> nat list" where
  "from_level t k q j = (if (if t = Buy then int j \<le> k else k \<le> int j) then q j else [])"

lemma from_level_step:
  assumes "side_touch t n bm bst q" and "i < n" and "k' = step_bits t bm (int i)"
    and "\<And>j. n \<le> j \<Longrightarrow> q j = []"
  shows "best_ok t n k' (from_level t k' q)" and "(from_level t (int i) q)(i := []) = from_level t k' q"
proof -
  have bm: "pb_invar bm" "pb_n bm = int n" "\<And>j. j < n \<Longrightarrow> pb_test bm (int j) = (q j \<noteq> [])"
    using assms(1) by (auto simp: side_touch_def)
  have "best_ok t n k' (from_level t k' q) \<and> (from_level t (int i) q)(i := []) = from_level t k' q"
  proof (cases t)
    case Buy
    with assms(3) have "k' = pb_find_prev bm (int i - 1)" by simp
    from pb.prev_law [OF bm(1) _ _ this] assms(2) bm(2) have
      r: "- 1 \<le> k'" "k' \<le> int i - 1" "0 \<le> k' \<longrightarrow> pb_test bm k'" "\<forall>j. k' < j \<longrightarrow> j \<le> int i - 1 \<longrightarrow> \<not> pb_test bm j" by auto
    have "q j = []" if "k' < int j" "int j \<le> int i - 1" for j using r(4) bm(3) [of j] that assms(2) by auto
    moreover have "q (nat k') \<noteq> []" if "0 \<le> k'" using r(2,3) bm(3) [of "nat k'"] that assms(2) by auto
    ultimately show ?thesis using r(1,2) assms(2) Buy by (auto simp: from_level_def fun_eq_iff)
  next
    case Sell
    with assms(3) have "k' = pb_find_next bm (int i + 1)" by simp
    from pb.next_law [OF bm(1) _ _ this] assms(2) bm(2) have
      r: "int i + 1 \<le> k'" "k' \<le> int n" "k' < int n \<longrightarrow> pb_test bm k'" "\<forall>j. int i + 1 \<le> j \<longrightarrow> j < k' \<longrightarrow> \<not> pb_test bm j" by auto
    have "q j = []" if "int i + 1 \<le> int j" "int j < k'" for j using r(2,4) bm(3) [of j] that by auto
    moreover have "q (nat k') \<noteq> []" if "k' < int n" using r(1,3) bm(3) [of "nat k'"] that by auto
    ultimately show ?thesis using r(1,2) Sell by (auto simp: from_level_def fun_eq_iff)
  qed
  then show "best_ok t n k' (from_level t k' q)" "(from_level t (int i) q)(i := []) = from_level t k' q" by auto
qed

lemma cursor_cases:
  assumes "side_touch t n bm bst q" and "\<And>j. n \<le> j \<Longrightarrow> q j = []" and "best_ok t n k (from_level t k q)"
  obtains
    (On) i where "i < n" "k = int i" "q i \<noteq> []" "best_ok t n (step_bits t bm k) (from_level t (step_bits t bm k) q)"
      "abs_levels t mn n (refs d (from_level t k q)) =
         (mn + int i, map (ref_of d) (q i)) # abs_levels t mn n (refs d (from_level t (step_bits t bm k) q))"
  | (Off) "if t = Buy then k < 0 else k \<ge> int n" "abs_levels t mn n (refs d (from_level t k q)) = []"
proof (cases "if t = Buy then k < 0 else k \<ge> int n")
  case True
  then have "from_level t k q j = []" if "j < n" for j using assms(3) that by (cases t) (auto simp: from_level_def)
  then show thesis by (intro Off [OF True] abs_levels_none) simp
next
  case False
  then have "0 \<le> k" "k < int n" using assms(3) by (cases t; simp)+
  then obtain i where i: "k = int i" "i < n" by (metis nonneg_int_cases of_nat_less_iff)
  have fi: "from_level t k q i = q i" by (simp add: from_level_def i)
  have qi: "q i \<noteq> []" using assms(3) False i fi by (cases t) auto
  note S = from_level_step [OF assms(1) i(2) refl assms(2), folded i(1)]
  have "abs_levels t mn n (refs d (from_level t k q)) =
      (mn + int i, refs d (from_level t k q) i) # abs_levels t mn n ((refs d (from_level t k q))(i := []))"
    by (rule abs_levels_best) (use i qi fi in \<open>auto simp: from_level_def ahead_def split: if_splits\<close>)
  moreover have "(refs d (from_level t k q))(i := []) = refs d (from_level t (step_bits t bm k) q)"
    using S(2) refs_upd [of d "from_level t k q" i "[]"] by simp
  moreover have "refs d (from_level t k q) i = map (ref_of d) (q i)" using fi by (simp add: refs_def)
  ultimately show thesis using On [OF i(2,1) qi S(1)] by simp
qed

lemma best_cursor:
  assumes "side_touch t n bm bst q" and "\<And>j. n \<le> j \<Longrightarrow> q j = []"
  shows "from_level t bst q = q" and "best_ok t n bst (from_level t bst q)"
proof -
  have b: "best_ok t n bst q" using assms(1) by (simp add: side_touch_def)
  show e: "from_level t bst q = q"
  proof
    fix j show "from_level t bst q j = q j"
      using b assms(2) [of j] by (cases t; cases "j < n") (auto simp: from_level_def)
  qed
  show "best_ok t n bst (from_level t bst q)" using b e by simp
qed

lemma queues_beyond: "struct_inv n b h Q F \<Longrightarrow> n \<le> j \<Longrightarrow> Q t j = []"
  using struct_invD(4) [of n b h Q F "hd (Q t j)" t j] by (cases "Q t j") auto

lemma fill_levels_sim:
  assumes inv: "book_inv n b Q F" and lim: "0 \<le> limit" "limit < int n"
    and "lv = abs_levels (opposite side) (ob_min_price b) n (refs (data b) (from_level (opposite side) k (Q (opposite side))))"
    and "best_ok (opposite side) n k (from_level (opposite side) k (Q (opposite side)))"
    and "stp = StpNone \<Longrightarrow> need \<noteq> 0 \<and> (\<forall>(p, q) \<in> set lv. no_wrap q)"
  shows "fill_levels ops side limit owner stp b k need =
    Some (scan_levels owner stp side (ob_min_price b + limit) lv need)"
  using assms(4-)
proof (induction lv arbitrary: k need)
  let ?mk = "opposite side"
  have st: "struct_inv n b (heads b) Q F" and to: "side_touch ?mk n (bits ?mk b) (best ?mk b) (Q ?mk)"
    using inv by (auto simp: book_inv_def touch_inv_def)
  note cursor = cursor_cases [OF to queues_beyond [OF st], where d = "data b" and mn = "ob_min_price b"]
  {
    case Nil
    from Nil.prems(2) have "if ?mk = Buy then k < 0 else k \<ge> int n"
      by (cases rule: cursor) (use Nil.prems(1) in auto)
    then have "\<not> level_in_range side limit k" using lim by (cases side) auto
    then show ?case by (subst fill_levels.simps) simp
  next
    case (Cons pq lv)
    from Cons.prems(2) obtain i where i: "i < n" "k = int i" "Q ?mk i \<noteq> []"
      "best_ok ?mk n (step_bits ?mk (bits ?mk b) k) (from_level ?mk (step_bits ?mk (bits ?mk b) k) (Q ?mk))"
      and lv: "pq = (ob_min_price b + int i, map (ref_of (data b)) (Q ?mk i))"
        "lv = abs_levels ?mk (ob_min_price b) n (refs (data b) (from_level ?mk (step_bits ?mk (bits ?mk b) k) (Q ?mk)))"
      by (cases rule: cursor) (use Cons.prems(1) in auto)
    have al: "at_level Q i = Q ?mk i" using side_queue(2) [OF st i(3)] .
    have ql: "queue_links (data b) (lv_head (ob_levels b ! i)) (ob_levels b ! i) (Q ?mk i)"
      using struct_invD(3) [OF st i(1)] al by simp
    have rng: "level_in_range side limit k = in_range side (ob_min_price b + limit) (ob_min_price b + int i)"
      using i(2) by (cases side) auto
    have IH: "fill_levels ops side limit owner stp b (step_level ?mk b k) m =
        Some (scan_levels owner stp side (ob_min_price b + limit) lv m)" if "stp = StpNone \<Longrightarrow> m \<noteq> 0" for m
      unfolding step_level_bits by (rule Cons.IH [OF lv(2) i(4)]) (use that Cons.prems(3) in auto)
    show ?case
    proof (cases "level_in_range side limit k")
      case False
      then show ?thesis using rng by (subst fill_levels.simps) (simp add: lv(1))
    next
      case True
      show ?thesis
      proof (cases "stp = StpNone")
        case none: True
        have q: "lv_qty (ob_levels b ! nat k) = rb_level_qty (map (ref_of (data b)) (Q ?mk i))"
          using ql i(2) by (simp add: queue_links_def rb_level_qty_def comp_def)
        have nw: "no_wrap (map (ref_of (data b)) (Q ?mk i))" "need \<noteq> 0" using Cons.prems(3) none by (auto simp: lv(1))
        note sc = scan_queue_none [OF nw]
        have "\<not> lv_qty (ob_levels b ! nat k) \<ge> need \<Longrightarrow> need - lv_qty (ob_levels b ! nat k) \<noteq> 0" by auto
        with IH True rng none q sc show ?thesis by (subst fill_levels.simps) (auto simp: Let_def lv(1))
      next
        case stp: False
        have ch: "chain (so_next ops (data b)) (lv_head (ob_levels b ! nat k)) (Q ?mk i) kNil"
          using ql i(2) by (simp add: queue_links_def)
        show ?thesis using IH True rng stp fill_queue_sim [OF ch stp]
          by (subst fill_levels.simps) (auto simp: Let_def lv(1) split: sum.splits)
      qed
    qed
  }
qed

section \<open>The refinement relation\<close>

lemma ex_Side: "(\<exists>t. P t) \<longleftrightarrow> P Buy \<or> P Sell"
  by (metis Side.exhaust)

lemma in_live: "s \<in> set (Q t i) \<Longrightarrow> s \<in> live Q"
  by (metis live_iff)

definition refines :: "nat \<Rightarrow> queues \<Rightarrow> nat list \<Rightarrow> 'd OrderBook \<Rightarrow> ReferenceBook \<Rightarrow> bool" where
  "refines n Q F b rb \<longleftrightarrow> book_inv n b Q F \<and> rb_inv rb \<and> rb_symbol rb = ob_symbol b \<and>
     rb_min_price rb = ob_min_price b \<and> rb_max_price rb = ob_min_price b + int n - 1 \<and> rb_stp rb = ob_stp b \<and>
     rb_capacity rb = st_cap (ob_store b) \<and>
     (\<forall>t. rb_levels t rb = abs_levels t (ob_min_price b) n (refs (data b) (Q t)))"

lemma refinesD:
  assumes "refines n Q F b rb"
  shows "book_inv n b Q F" "struct_inv n b (heads b) Q F" "touch_inv n b Q" "rb_inv rb" "rb_symbol rb = ob_symbol b"
    "rb_min_price rb = ob_min_price b" "rb_max_price rb = ob_min_price b + int n - 1" "rb_stp rb = ob_stp b"
    "rb_capacity rb = st_cap (ob_store b)"
    "\<And>t. rb_levels t rb = abs_levels t (ob_min_price b) n (refs (data b) (Q t))"
  using assms by (auto simp: refines_def book_inv_def)

lemma entries_abs:
  assumes "struct_inv n b h Q F"
  shows "(oid, l) \<in> set (entries t (abs_levels t mn n (refs d (Q t)))) \<longleftrightarrow>
    (\<exists>i s. s \<in> set (Q t i) \<and> so_id ops d s = oid \<and> l = loc t (mn + int i))"
proof -
  have "i < n" if "s \<in> set (Q t i)" for s i using struct_invD(4) [OF assms that] by simp
  then show ?thesis
    unfolding entries_loc in_orders abs_levels_set refs_def by fastforce
qed

text \<open>The two indices agree: an id is known to both, at the same place, or to neither.\<close>

lemma index_agrees:
  assumes R: "refines n Q F b rb"
  shows "map_of (rb_index rb) oid = Some l \<longleftrightarrow>
    (\<exists>t i s. s \<in> set (Q t i) \<and> so_id ops (data b) s = oid \<and> l = loc t (ob_min_price b + int i))"
proof -
  note D = refinesD [OF R]
  note I = rb_invD(3,4) [OF D(4)]
  have "map_of (rb_index rb) oid = Some l \<longleftrightarrow> (oid, l) \<in># mset (rb_index rb)"
    using map_of_eq_Some_iff [OF I(2)] by simp
  also have "\<dots> \<longleftrightarrow> (\<exists>t. (oid, l) \<in> set (entries t (rb_levels t rb)))"
    unfolding I(1) [of Buy] ex_Side by simp
  finally show ?thesis unfolding D(10) entries_abs [OF D(2)] by blast
qed

lemma lookup_cases:
  assumes R: "refines n Q F b rb"
  obtains
    (Hit) t i s where "s \<in> set (Q t i)" "i < n" "so_id ops (data b) s = oid" "s \<noteq> kNil" "s \<in> live Q"
      "map_of (rb_index rb) oid = Some (loc t (ob_min_price b + int i))"
      "ix_find (ob_ids b) oid (so_id ops (data b)) = Some s" "so_level ops (data b) s = i" "so_side ops (data b) s = t"
  | (Miss) "oid \<notin> so_id ops (data b) ` live Q" "map_of (rb_index rb) oid = None"
      "ix_find (ob_ids b) oid (so_id ops (data b)) = Some kNil"
proof -
  note D = refinesD [OF R]
  note S = struct_invD [OF D(2)]
  show thesis
  proof (cases "oid \<in> so_id ops (data b) ` live Q")
    case True
    then obtain t i s where s: "s \<in> set (Q t i)" "so_id ops (data b) s = oid" by (auto simp: live_iff)
    have sl: "s \<in> live Q" using s(1) by (metis live_iff)
    have "s \<noteq> kNil" using split_bounds [OF S(6) sl] by simp
    moreover have "map_of (rb_index rb) oid = Some (loc t (ob_min_price b + int i))"
      using index_agrees [OF R] s by blast
    moreover have "ix_find (ob_ids b) oid (so_id ops (data b)) = Some s"
      using oi.represents_find(1) [OF S(7) sl] s(2) by simp
    ultimately show thesis using Hit [OF s(1) _ s(2) _ sl] S(4) [OF s(1)] by blast
  next
    case False
    have "map_of (rb_index rb) oid = None"
    proof (rule ccontr)
      assume "map_of (rb_index rb) oid \<noteq> None"
      then obtain l where "map_of (rb_index rb) oid = Some l" by auto
      with False show False unfolding index_agrees [OF R] by (metis image_eqI live_iff)
    qed
    with Miss [OF False _ oi.represents_find(2) [OF S(7) False]] show thesis by blast
  qed
qed

lemma unique_id:
  assumes "struct_inv n b h Q F" and "s \<in> live Q" "v \<in> live Q" "so_id ops (data b) s = so_id ops (data b) v"
  shows "s = v"
  using struct_invD(7) [OF assms(1)] assms(2-4) by (auto simp: oi.represents_def inj_on_def)

lemma filter_refs:
  assumes "struct_inv n b h Q F" and "s \<in> set (Q t i)"
  shows "filter (\<lambda>r. ro_id r \<noteq> so_id ops (data b) s) (map (ref_of (data b)) (Q t i)) =
    map (ref_of (data b)) (removeAll s (Q t i))"
proof -
  have "(so_id ops (data b) v \<noteq> so_id ops (data b) s) = (s \<noteq> v)" if "v \<in> set (Q t i)" for v
    using unique_id [OF assms(1), of s v] in_live [of s Q t i] in_live [of v Q t i] assms(2) that by auto
  then have "filter (\<lambda>v. so_id ops (data b) v \<noteq> so_id ops (data b) s) (Q t i) = removeAll s (Q t i)"
    unfolding removeAll_filter_not_eq by (intro filter_cong) auto
  then show ?thesis by (simp add: filter_map comp_def)
qed

lemma deref_hit:
  assumes R: "refines n Q F b rb" and s: "s \<in> set (Q t i)"
  shows "deref rb (so_id ops (data b) s) (loc t (ob_min_price b + int i)) = Some (ref_of (data b) s)"
proof -
  note D = refinesD [OF R]
  have i: "i < n" using struct_invD(4) [OF D(2) s] by simp
  have "(ob_min_price b + int i, refs (data b) (Q t) i) \<in> set (rb_levels t rb)"
    unfolding D(10) by (rule abs_levels_lookup [OF i]) (use s in auto)
  then have m: "map_of (rb_levels t rb) (ob_min_price b + int i) = Some (refs (data b) (Q t) i)"
    using levels_ok_distinct [OF rb_invD(1) [OF D(4)], of t] by simp
  have "find (\<lambda>r. ro_id r = so_id ops (data b) s) (map (ref_of (data b)) xs) = Some (ref_of (data b) s)"
    if "s \<in> set xs" "set xs \<subseteq> live Q" for xs
    using that
  proof (induction xs)
    case (Cons v xs)
    show ?case
    proof (cases "so_id ops (data b) v = so_id ops (data b) s")
      case True
      then have "v = s" using unique_id [OF D(2), of v s] Cons.prems by auto
      then show ?thesis by simp
    qed (use Cons in auto)
  qed simp
  moreover have "set (Q t i) \<subseteq> live Q" using in_live by blast
  ultimately show ?thesis using s m by (simp add: deref_def refs_def)
qed

lemma count_agrees:
  assumes R: "refines n Q F b rb"
  shows "length (rb_index rb) = card (live Q)" and "length (rb_index rb) \<ge> rb_capacity rb \<longleftrightarrow> F = []"
    and "length (rb_index rb) = st_live (ob_store b)"
proof -
  note D = refinesD [OF R]
  note S = struct_invD [OF D(2)]
  have "fst ` set (rb_index rb) = so_id ops (data b) ` live Q"
  proof (intro set_eqI iffI)
    fix x assume "x \<in> fst ` set (rb_index rb)"
    then obtain l where "map_of (rb_index rb) x = Some l" using rb_invD(4) [OF D(4)] by force
    then show "x \<in> so_id ops (data b) ` live Q" unfolding index_agrees [OF R] by (metis image_eqI live_iff)
  next
    fix x assume "x \<in> so_id ops (data b) ` live Q"
    then obtain s t i where "s \<in> set (Q t i)" "so_id ops (data b) s = x" by (auto simp: live_iff)
    then have "map_of (rb_index rb) x = Some (loc t (ob_min_price b + int i))" unfolding index_agrees [OF R] by blast
    then show "x \<in> fst ` set (rb_index rb)" using map_of_SomeD by force
  qed
  moreover have "length (rb_index rb) = card (fst ` set (rb_index rb))"
    using rb_invD(4) [OF D(4)] distinct_card by (metis length_map list.set_map)
  moreover have "card (so_id ops (data b) ` live Q) = card (live Q)"
    using S(7) by (intro card_image) (simp add: oi.represents_def)
  ultimately show c: "length (rb_index rb) = card (live Q)" by simp
  show "length (rb_index rb) \<ge> rb_capacity rb \<longleftrightarrow> F = []" using split_finite [OF S(6)] c D(9) by (cases F) auto
  show "length (rb_index rb) = st_live (ob_store b)" using S(6) c by (simp add: split_slots_def)
qed

section \<open>The operations\<close>

lemma refinesI:
  assumes "refines n Q F b rb" and "same_frame b b'" and "book_inv n b' Q' F'" and "rb_inv rb'"
    and "rb_symbol rb' = rb_symbol rb" "rb_min_price rb' = rb_min_price rb" "rb_max_price rb' = rb_max_price rb"
      "rb_stp rb' = rb_stp rb" "rb_capacity rb' = rb_capacity rb"
    and "rb_levels t rb' = abs_levels t (ob_min_price b) n (refs (data b') (Q' t))"
    and "rb_levels (opposite t) rb' = abs_levels (opposite t) (ob_min_price b) n (refs (data b') (Q' (opposite t)))"
  shows "refines n Q' F' b' rb'"
proof -
  have "rb_levels u rb' = abs_levels u (ob_min_price b) n (refs (data b') (Q' u))" for u
    using assms(10,11) side_cases [of u t] by auto
  then show ?thesis using assms(1-9) by (auto simp: refines_def same_frame_def)
qed

lemma match_sim:
  assumes R: "refines n Q F b rb" and lim: "0 \<le> limit" "limit < int n"
    and m: "rb_match rb taker owner side (ob_min_price b + limit) qty stp = (rb', left, stop, evs)"
  shows "\<exists>b' Q' F'. sweep ops side taker owner limit stp b qty = Some (b', left, stop, evs) \<and>
    refines n Q' F' b' rb' \<and> same_frame b b'"
proof -
  note D = refinesD [OF R]
  obtain lv ix where
    ms: "match_side (ob_symbol b) taker owner side (ob_min_price b + limit) stp (rb_levels (opposite side) rb) (rb_index rb) qty =
          (lv, ix, left, stop, evs)"
    and rb': "rb' = (rb_set_levels (opposite side) lv rb)\<lparr>rb_index := ix\<rparr>"
    using m D(5) by (auto simp: rb_match_def split: prod.splits)
  from sweep_sim [OF D(1) lim D(10) ms] obtain b' Q' F' where
    r: "sweep ops side taker owner limit stp b qty = Some (b', left, stop, evs)" "book_inv n b' Q' F'"
      "lv = abs_levels (opposite side) (ob_min_price b) n (refs (data b') (Q' (opposite side)))"
      "Q' side = Q side" "refs (data b') (Q side) = refs (data b) (Q side)" "same_frame b b'" by blast
  have "refines n Q' F' b' rb'"
    by (rule refinesI [OF R r(6,2), where t = side])
      (use rb_match_inv [OF m D(4)] D(10) r(3-5) in \<open>simp_all add: rb'\<close>)
  with r(1,6) show ?thesis by blast
qed

lemma rest_sim:
  assumes R: "refines n Q F b rb" and i: "i < n" and q: "qty \<noteq> 0" "oid \<noteq> 0" "map_of (rb_index rb) oid = None"
    and x: "\<And>p. p \<in> prices (rb_levels (opposite t) rb) \<Longrightarrow> \<not> in_range t (ob_min_price b + int i) p"
    and r: "rb_rest rb oid owner t (ob_min_price b + int i) qty = (rb', evs)"
  shows "\<exists>b' Q' F'. rest ops t oid owner (int i) qty ts b = Some (b', evs) \<and> refines n Q' F' b' rb'"
proof -
  note D = refinesD [OF R]
  have inv': "rb_inv rb'"
    by (rule rb_rest_inv [OF r D(4)]) (use q x i D(6,7) in \<open>auto simp: not_indexed\<close>)
  show ?thesis
  proof (cases F)
    case Nil
    then have "length (rb_index rb) \<ge> rb_capacity rb" using count_agrees(2) [OF R] by simp
    with r D(5) have "rb' = rb" "evs = [canceled_event (ob_symbol b) oid t (ob_min_price b + int i) qty BookFull]"
      by (auto simp: rb_rest_def)
    with rest_full [of n b Q t oid owner "int i" qty ts] D(1) Nil R show ?thesis by auto
  next
    case (Cons s F')
    have out: "oid \<notin> so_id ops (data b) ` live Q"
      using q(3) index_agrees [OF R, of oid] by (metis image_iff live_iff option.distinct(1))
    have xl: "\<not> in_range t (ob_min_price b + int i) (ob_min_price b + int j)" if "Q (opposite t) j \<noteq> []" for j
    proof -
      have "j < n" using that queues_beyond [OF D(2), of j "opposite t"] by (meson not_le)
      with that have "ob_min_price b + int j \<in> prices (rb_levels (opposite t) rb)"
        unfolding prices_def D(10) by (intro image_eqI [OF _ abs_levels_lookup]) auto
      with x show ?thesis by blast
    qed
    then have un: "if t = Buy then i < j else j < i" if "Q (opposite t) j \<noteq> []" for j
      using xl [OF that] by (cases t) auto
    have oe: "Q (opposite t) i = []" using xl [of i] by (cases t) auto
    from rest_append [OF D(1) [unfolded Cons] i oe out q(1) un] obtain b' where
      b': "rest ops t oid owner (int i) qty ts b = Some (b', [])" "book_inv n b' (put t i (Q t i @ [s]) Q) F'"
        "same_frame b b'" "ref_of (data b') = (ref_of (data b))(s := \<lparr>ro_id = oid, ro_qty = qty, ro_owner = owner\<rparr>)" by blast
    have room: "\<not> length (rb_index rb) \<ge> rb_capacity rb" using count_agrees(2) [OF R] Cons by simp
    let ?r = "\<lparr>ro_id = oid, ro_qty = qty, ro_owner = owner\<rparr>"
    have rb': "rb' = (rb_set_levels t (enqueue t (ob_min_price b + int i) ?r (rb_levels t rb)) rb)
        \<lparr>rb_index := (oid, \<lparr>loc_side = t, loc_price = ob_min_price b + int i\<rparr>) # rb_index rb\<rparr>" and "evs = []"
      using r room by (auto simp: rb_rest_def Let_def)
    have sn: "s \<notin> live Q" using struct_invD(6) [OF D(2)] Cons by (auto simp: split_slots_def)
    have same: "refs (data b') (Q u) = refs (data b) (Q u)" for u
      by (intro ext refs_cong) (use sn b'(4) in_live in \<open>metis fun_upd_other\<close>)
    have t: "refs (data b') (put t i (Q t i @ [s]) Q t) = (refs (data b) (Q t))(i := refs (data b) (Q t) i @ [?r])"
    proof -
      have p: "put t i (Q t i @ [s]) Q t = (Q t)(i := Q t i @ [s])" by (auto simp: put_def)
      have "map (ref_of (data b')) (Q t i) = refs (data b) (Q t) i" using same [of t] by (metis refs_def)
      then show ?thesis unfolding p refs_upd same using b'(4) by simp
    qed
    have lt: "rb_levels t rb' = abs_levels t (ob_min_price b) n (refs (data b') (put t i (Q t i @ [s]) Q t))"
      unfolding t using abs_enqueue [OF i] by (simp add: rb' D(10))
    have lo: "rb_levels (opposite t) rb' =
        abs_levels (opposite t) (ob_min_price b) n (refs (data b') (put t i (Q t i @ [s]) Q (opposite t)))"
      using same [of "opposite t"] D(10) by (simp add: rb')
    have "refines n (put t i (Q t i @ [s]) Q) F' b' rb'"
      by (rule refinesI [OF R b'(3,2) inv' _ _ _ _ _ lt lo]) (simp_all add: rb')
    with b'(1) \<open>evs = []\<close> show ?thesis by blast
  qed
qed

lemma remove_sim:
  assumes R: "refines n Q F b rb" and s: "s \<in> set (Q t i)" and oid: "so_id ops (data b) s = oid"
  shows "\<exists>ids. ix_erase_known (ob_ids b) oid s = Some ids \<and>
    (\<forall>b1 b' rb'. b1 = unlink ops s (b\<lparr>ob_ids := ids\<rparr>) \<longrightarrow> b' = b1\<lparr>ob_store := release ops s (ob_store b1)\<rparr> \<longrightarrow>
       rb' = (rb_remove rb oid (loc t (ob_min_price b + int i)))\<lparr>rb_index := om_erase oid (rb_index rb)\<rparr> \<longrightarrow>
       refines n (put t i (removeAll s (Q t i)) Q) (s # F) b' rb' \<and> same_frame b b')"
proof -
  note D = refinesD [OF R]
  note S = struct_invD [OF D(2)]
  have sl: "s \<in> live Q" using s by (rule in_live)
  have i: "i < n" using S(4) [OF s] by simp
  obtain ids where ids: "ix_erase_known (ob_ids b) (so_id ops (data b) s) s = Some ids"
    "slot_count ids = slot_count (ob_ids b)" "oi.represents ids (so_id ops (data b)) (live Q - {s})"
    using oi.represents_erase_slot [OF S(7) sl] by blast
  let ?Q = "put t i (removeAll s (Q t i)) Q"
  have "refines n ?Q (s # F) b' rb' \<and> same_frame b b'"
    if b1: "b1 = unlink ops s (b\<lparr>ob_ids := ids\<rparr>)" and b': "b' = b1\<lparr>ob_store := release ops s (ob_store b1)\<rparr>"
      and rb': "rb' = (rb_remove rb oid (loc t (ob_min_price b + int i)))\<lparr>rb_index := om_erase oid (rb_index rb)\<rparr>"
    for b1 b' rb'
  proof -
    note U = unlink_release [OF D(1) s ids(3,2) b1 b']
    have "map_of (rb_index rb) oid = Some (loc t (ob_min_price b + int i))"
      using index_agrees [OF R] s oid by blast
    note I = rb_remove_inv [OF D(4) this rb']
    have same: "refs (data b') = refs (data b)" using U(3) by (auto simp: refs_def fun_eq_iff)
    have pt: "?Q t = (Q t)(i := removeAll s (Q t i))" by (auto simp: put_def)
    have t: "refs (data b') (?Q t) = (refs (data b) (Q t))(i := filter (\<lambda>r. ro_id r \<noteq> oid) (refs (data b) (Q t) i))"
      using filter_refs [OF D(2) s] oid unfolding same pt refs_upd by (simp add: refs_def)
    have lt: "rb_levels t rb' = abs_levels t (ob_min_price b) n (refs (data b') (?Q t))"
      unfolding t using abs_remove [OF i] D(10) by (simp add: rb' rb_remove_def)
    have lo: "rb_levels (opposite t) rb' = abs_levels (opposite t) (ob_min_price b) n (refs (data b') (?Q (opposite t)))"
      using same D(10) by (simp add: rb' rb_remove_def)
    have "refines n ?Q (s # F) b' rb'"
      by (rule refinesI [OF R U(2,1) I(1) _ _ _ _ _ lt lo]) (simp_all add: rb' rb_remove_def)
    with U(2) show ?thesis by blast
  qed
  with ids(1) oid show ?thesis by blast
qed

lemma cancel_sim:
  assumes R: "refines n Q F b rb" and c: "rb_cancel rb c = (rb', evs)"
  shows "\<exists>b' Q' F'. ob_cancel ops c b = Some (b', evs) \<and> refines n Q' F' b' rb'"
proof -
  note D = refinesD [OF R]
  note S = struct_invD [OF D(2)]
  from R show ?thesis
  proof (cases rule: lookup_cases [where oid = "c_order_id c"])
    case (Hit t i s)
    from remove_sim [OF R Hit(1,3)] obtain ids where er: "ix_erase_known (ob_ids b) (c_order_id c) s = Some ids" and
      sim: "\<And>b1 b' rb'. b1 = unlink ops s (b\<lparr>ob_ids := ids\<rparr>) \<Longrightarrow> b' = b1\<lparr>ob_store := release ops s (ob_store b1)\<rparr> \<Longrightarrow>
       rb' = (rb_remove rb (c_order_id c) (loc t (ob_min_price b + int i)))\<lparr>rb_index := om_erase (c_order_id c) (rb_index rb)\<rparr> \<Longrightarrow>
       refines n (put t i (removeAll s (Q t i)) Q) (s # F) b' rb'" by blast
    have ek: "ix_erase (ob_ids b) (c_order_id c) (so_id ops (data b)) = Some (ids, s)"
      using oi.represents_erase_key(1) [OF S(7) Hit(5)] Hit(3) er by auto
    have dr: "deref rb (c_order_id c) (loc t (ob_min_price b + int i)) = Some (ref_of (data b) s)"
      using deref_hit [OF R Hit(1)] Hit(3) by simp
    show ?thesis
      using sim [OF refl refl refl] c Hit ek dr D(5) by (auto simp: rb_cancel_def ob_cancel_def Let_def)
  next
    case Miss
    have "ix_erase (ob_ids b) (c_order_id c) (so_id ops (data b)) = Some (ob_ids b, kNil)"
      using oi.represents_erase_key(2) [OF S(7) Miss(1)] .
    then show ?thesis using c Miss(2) R by (auto simp: rb_cancel_def ob_cancel_def)
  qed
qed

text \<open>An amendment in place.\<close>

lemma amend_sim:
  assumes R: "refines n Q F b rb" and s: "s \<in> set (Q t i)" and oid: "so_id ops (data b) s = oid" and q: "qty \<noteq> 0"
    and b': "b' = data_upd (so_set_qty ops s qty) (lv_upd i (\<lambda>l. l\<lparr>lv_qty := lv_qty l - (so_qty ops (data b) s - qty)\<rparr>) b)"
    and rb': "rb' = rb_set_levels t (amend_level oid (ob_min_price b + int i) qty (rb_levels t rb)) rb"
    and inv': "rb_inv rb'"
  shows "refines n Q F b' rb'"
proof -
  note D = refinesD [OF R]
  note U = set_queued_qty [OF D(2) s q b']
  have i: "i < n" using struct_invD(4) [OF D(2) s] by simp
  have len: "length (ob_levels b) = n" using struct_invD(1) [OF D(2)] .
  have st: "struct_inv n b' (heads b') Q F"
    by (rule struct_cong [OF U(1)]) (use len i in \<open>auto simp: b' nth_list_update\<close>)
  have to: "touch_inv n b' Q"
    using D(3) same_touch_tails [OF U(2)] len by (auto simp: touch_inv_def)
  have id: "so_id ops (data b) v = oid \<longleftrightarrow> v = s" if "v \<in> set (Q u j)" for v u j
    using unique_id [OF D(2), of v s] in_live [of v Q u j] in_live [of s Q t i] that s oid by auto
  have only: "v \<noteq> s" if "v \<in> set (Q u j)" "u \<noteq> t \<or> j \<noteq> i" for v u j
    using struct_invD(4) [OF D(2) that(1)] struct_invD(4) [OF D(2) s] that(2) by metis
  have r: "refs (data b') (Q t) = (refs (data b) (Q t))(i := map (\<lambda>r. if ro_id r = oid then r\<lparr>ro_qty := qty\<rparr> else r) (refs (data b) (Q t) i))"
  proof
    fix j show "refs (data b') (Q t) j = ((refs (data b) (Q t))(i := map (\<lambda>r. if ro_id r = oid then r\<lparr>ro_qty := qty\<rparr> else r) (refs (data b) (Q t) i))) j"
      using id [of _ t j] only [of _ t j] by (cases "j = i") (auto simp: refs_def U(3))
  qed
  have o: "refs (data b') (Q (opposite t)) = refs (data b) (Q (opposite t))"
    by (intro ext refs_cong) (use only U(3) in auto)
  have lt: "rb_levels t rb' = abs_levels t (ob_min_price b) n (refs (data b') (Q t))"
    unfolding r using abs_amend [OF i] D(10) by (simp add: rb')
  have lo: "rb_levels (opposite t) rb' = abs_levels (opposite t) (ob_min_price b) n (refs (data b') (Q (opposite t)))"
    unfolding o using D(10) by (simp add: rb')
  have fr: "same_frame b b'" using U(2) by (simp add: same_touch_def)
  show ?thesis
    by (rule refinesI [OF R fr _ inv' _ _ _ _ _ lt lo]) (use st to in \<open>simp_all add: rb' book_inv_def\<close>)
qed

lemma modify_sim:
  assumes R: "refines n Q F b rb" and c: "rb_modify rb c = (rb', evs)"
  shows "\<exists>b' Q' F'. ob_modify ops c b = Some (b', evs) \<and> refines n Q' F' b' rb'"
proof (cases "c_qty c = 0")
  case True
  with c R show ?thesis by (auto simp: rb_modify_def ob_modify_def)
next
  case q: False
  note D = refinesD [OF R]
  note S = struct_invD [OF D(2)]
  let ?oid = "c_order_id c" and ?rel = "c_price c - ob_min_price b"
  from R show ?thesis
  proof (cases rule: lookup_cases [where oid = ?oid])
    case Miss
    with c q R show ?thesis by (auto simp: rb_modify_def ob_modify_def)
  next
    case (Hit t i s)
    have px: "(c_price c < rb_min_price rb \<or> c_price c > rb_max_price rb) = (?rel < 0 \<or> ?rel \<ge> ob_n b)"
      using D(6,7) S(2) by auto
    have dr: "deref rb ?oid (loc t (ob_min_price b + int i)) = Some (ref_of (data b) s)"
      using deref_hit [OF R Hit(1)] Hit(3) by simp
    show ?thesis
    proof (cases "?rel < 0 \<or> ?rel \<ge> ob_n b")
      case True
      with c q R Hit px show ?thesis by (auto simp: rb_modify_def ob_modify_def)
    next
      case rng: False
      then obtain k where k: "?rel = int k" "k < n" using S(2) by (metis nonneg_int_cases not_le of_nat_less_iff)
      have cp: "c_price c = ob_min_price b + int k" using k(1) by simp
      have same: "(c_price c = ob_min_price b + int i \<and> c_qty c \<le> so_qty ops (data b) s) =
          (?rel = int (so_level ops (data b) s) \<and> c_qty c \<le> so_qty ops (data b) s)" using Hit(8) by auto
      let ?md = "modified_event (ob_symbol b) ?oid t (c_price c) (c_qty c)"
      show ?thesis
      proof (cases "?rel = int (so_level ops (data b) s) \<and> c_qty c \<le> so_qty ops (data b) s")
        case True
        then have ki: "k = i" using k(1) Hit(8) by simp
        let ?b = "data_upd (so_set_qty ops s (c_qty c))
            (lv_upd i (\<lambda>l. l\<lparr>lv_qty := lv_qty l - (so_qty ops (data b) s - c_qty c)\<rparr>) b)"
        have rb': "rb' = rb_set_levels t (amend_level ?oid (ob_min_price b + int i) (c_qty c) (rb_levels t rb)) rb" "evs = [?md]"
          using c q Hit(6) px rng dr same True D(5) by (auto simp: rb_modify_def Let_def)
        have "ob_modify ops c b = Some (?b, evs)"
          using q Hit rng True rb'(2) ki k by (simp add: ob_modify_def Let_def)
        with amend_sim [OF R Hit(1,3) q refl rb'(1) rb_modify_inv [OF c D(4)]] show ?thesis by blast
      next
        case re: False
        define rb1 where "rb1 = (rb_remove rb ?oid (loc t (ob_min_price b + int i)))\<lparr>rb_index := om_erase ?oid (rb_index rb)\<rparr>"
        from remove_sim [OF R Hit(1,3)] obtain ids where er: "ix_erase_known (ob_ids b) ?oid s = Some ids" and
          sim: "\<And>b1 b'. b1 = unlink ops s (b\<lparr>ob_ids := ids\<rparr>) \<Longrightarrow> b' = b1\<lparr>ob_store := release ops s (ob_store b1)\<rparr> \<Longrightarrow>
           refines n (put t i (removeAll s (Q t i)) Q) (s # F) b' rb1 \<and> same_frame b b'" unfolding rb1_def by blast
        define b1 where "b1 = unlink ops s (b\<lparr>ob_ids := ids\<rparr>)"
        define b2 where "b2 = b1\<lparr>ob_store := release ops s (ob_store b1)\<rparr>"
        have R2: "refines n (put t i (removeAll s (Q t i)) Q) (s # F) b2 rb1" and fr: "same_frame b b2"
          using sim [OF b1_def b2_def] by auto
        have f: "ob_min_price b2 = ob_min_price b" "ob_symbol b2 = ob_symbol b" "ob_stp b2 = ob_stp b"
          using fr by (auto simp: same_frame_def)
        obtain rb2 left stop evs2 where
          m: "rb_match rb1 ?oid (so_owner ops (data b) s) t (c_price c) (c_qty c) (rb_stp rb) = (rb2, left, stop, evs2)"
          by (rule prod_cases4)
        have m': "rb_match rb1 ?oid (so_owner ops (data b) s) t (ob_min_price b2 + int k) (c_qty c) (ob_stp b) = (rb2, left, stop, evs2)"
          using m cp f D(8) by simp
        from match_sim [OF R2 _ _ m'] k obtain b3 Q3 F3 where
          b3: "sweep ops t ?oid (so_owner ops (data b) s) (int k) (ob_stp b) b2 (c_qty c) = Some (b3, left, stop, evs2)"
            "refines n Q3 F3 b3 rb2" "same_frame b2 b3" by auto
        have fm: "ob_min_price b3 = ob_min_price b" using b3(3) f by (auto simp: same_frame_def)
        note M = rb_match_inv [OF m refinesD(4) [OF R2]]
        have un: "ob_modify ops c b = do { (b'', evs) \<leftarrow> reenter ops t ?oid (so_owner ops (data b) s) (int k) (c_qty c) (c_ts c) b2;
            Some (b'', ?md # evs) }"
          using q Hit rng re er k(1) by (auto simp: ob_modify_def Let_def b1_def b2_def)
        have rbm: "rb_modify rb c = (if left = 0 then (rb2, ?md # evs2)
            else if stop then (rb2, ?md # evs2 @ [canceled_event (ob_symbol b) ?oid t (c_price c) left SelfTrade])
            else (let (rb3, evs') = rb_rest rb2 ?oid (so_owner ops (data b) s) t (c_price c) left in (rb3, ?md # evs2 @ evs')))"
          using q Hit(6) px rng dr same re m D(5) by (auto simp: rb_modify_def Let_def rb1_def [symmetric])
        show ?thesis
        proof (cases "left = 0 \<or> stop")
          case True
          then have "ob_modify ops c b = Some (b3, evs) \<and> rb' = rb2" using c rbm un b3 f cp by (auto simp: reenter_def)
          with b3(2) show ?thesis by blast
        next
          case False
          obtain rb3 evs3 where r: "rb_rest rb2 ?oid (so_owner ops (data b) s) t (ob_min_price b3 + int k) left = (rb3, evs3)"
            by (rule prod.exhaust)
          have "map_of (rb_index rb2) ?oid = None"
            using M by (auto simp: not_indexed rb1_def set_om_erase)
          moreover have "?oid \<noteq> 0" using rb_invD(5) [OF D(4)] map_of_SomeD [OF Hit(6)] by force
          moreover have "\<not> in_range t (ob_min_price b3 + int k) p" if "p \<in> prices (rb_levels (opposite t) rb2)" for p
            using M False that cp fm by auto
          ultimately obtain b4 Q4 F4 where b4: "rest ops t ?oid (so_owner ops (data b) s) (int k) left (c_ts c) b3 = Some (b4, evs3)"
            "refines n Q4 F4 b4 rb3" using rest_sim [OF b3(2) k(2) _ _ _ _ r] False by blast
          have "ob_modify ops c b = Some (b4, evs) \<and> rb' = rb3"
            using c rbm un b3 b4(1) f cp fm r False by (auto simp: reenter_def)
          with b4(2) show ?thesis by blast
        qed
      qed
    qed
  qed
qed

lemma crosses_sim:
  assumes R: "refines n Q F b rb" and lim: "0 \<le> limit" "limit < int n"
  shows "rb_crosses rb side (ob_min_price b + limit) = crosses side limit b"
proof -
  note D = refinesD [OF R]
  let ?mk = "opposite side"
  from best_level [OF D(3) lim, of side "ob_min_price b"] consider
    i where "i < n" "Q ?mk i \<noteq> []" "\<forall>j < n. ahead ?mk j i \<longrightarrow> Q ?mk j = []"
      "crosses side limit b = in_range side (ob_min_price b + limit) (ob_min_price b + int i)"
  | "\<forall>j < n. Q ?mk j = []" "\<not> crosses side limit b" by blast
  then show ?thesis
  proof cases
    case (1 i)
    have "rb_levels ?mk rb = (ob_min_price b + int i, refs (data b) (Q ?mk) i) # abs_levels ?mk (ob_min_price b) n ((refs (data b) (Q ?mk))(i := []))"
      unfolding D(10) by (rule abs_levels_best) (use 1 in auto)
    then show ?thesis using 1(4) by (simp add: rb_crosses_def)
  next
    case 2
    have "rb_levels ?mk rb = []" unfolding D(10) by (rule abs_levels_none) (use 2 in auto)
    with 2(2) show ?thesis by (simp add: rb_crosses_def)
  qed
qed

lemma fillable_sim:
  assumes R: "refines n Q F b rb" and lim: "0 \<le> limit" "limit < int n"
    and nw: "stp = StpNone \<Longrightarrow> qty \<noteq> 0 \<and> (\<forall>t. \<forall>(p, q) \<in> set (rb_levels t rb). no_wrap q)"
  shows "fillable ops side limit qty owner stp b = Some (rb_fillable rb side (ob_min_price b + limit) qty owner stp)"
proof -
  note D = refinesD [OF R]
  let ?mk = "opposite side"
  have to: "side_touch ?mk n (bits ?mk b) (best ?mk b) (Q ?mk)" using D(3) by (simp add: touch_inv_def)
  note C = best_cursor [OF to queues_beyond [OF D(2)]]
  have lv: "rb_levels ?mk rb = abs_levels ?mk (ob_min_price b) n (refs (data b) (from_level ?mk (best ?mk b) (Q ?mk)))"
    using D(10) C(1) by simp
  show ?thesis
    unfolding fillable_def rb_fillable_def
    by (rule fill_levels_sim [OF D(1) lim lv C(2)]) (use nw in auto)
qed

text \<open>
  The fill-or-kill pre-check compares the aggregate of a level with the order, so it needs that no
  aggregate has wrapped around.
\<close>

definition fok_safe :: "ReferenceBook \<Rightarrow> Command \<Rightarrow> bool" where
  "fok_safe rb c \<longleftrightarrow> (c_type c = NewOrder \<longrightarrow> c_tif c = Fok \<longrightarrow> effective_stp (c_flags c) (rb_stp rb) = StpNone \<longrightarrow>
     (\<forall>t. \<forall>(p, q) \<in> set (rb_levels t rb). no_wrap q))"

lemma add_sim:
  assumes R: "refines n Q F b rb" and c: "rb_add rb c = (rb', evs)" and safe: "fok_safe rb c" "c_type c = NewOrder"
  shows "\<exists>b' Q' F'. ob_add ops c b = Some (b', evs) \<and> refines n Q' F' b' rb'"
proof -
  note D = refinesD [OF R]
  note S = struct_invD [OF D(2)]
  have n: "0 < n" using D(3) side_touch_pos unfolding touch_inv_def by blast
  let ?oid = "c_order_id c" and ?rel = "c_price c - ob_min_price b" and ?market = "c_ord_type c = Market"
  let ?stp = "effective_stp (c_flags c) (rb_stp rb)"
  define limit where "limit = (if ?market then (if c_side c = Buy then ob_n b - 1 else 0) else ?rel)"
  have px: "(c_price c < rb_min_price rb \<or> c_price c > rb_max_price rb) = (?rel < 0 \<or> ?rel \<ge> ob_n b)"
    using D(6,7) S(2) by auto
  have lim: "ob_min_price b + limit = rb_limit rb c"
    using D(6,7) S(2) by (auto simp: limit_def rb_limit_def)
  have dup: "\<exists>s. ix_find (ob_ids b) ?oid (so_id ops (data b)) = Some s \<and> (s \<noteq> kNil) = (map_of (rb_index rb) ?oid \<noteq> None)"
    using R by (cases rule: lookup_cases [where oid = ?oid]) auto
  have lr: "0 \<le> limit" "limit < int n" if "accepts rb c"
    using that px n S(2) D(6,7) by (auto simp: limit_def accepts_def split: if_splits)
  have cr: "crosses (c_side c) limit b = rb_crosses rb (c_side c) (rb_limit rb c)" if "0 \<le> limit" "limit < int n"
    using crosses_sim [OF R that] lim by simp
  obtain d where d: "ix_find (ob_ids b) ?oid (so_id ops (data b)) = Some d" "(d \<noteq> kNil) = (map_of (rb_index rb) ?oid \<noteq> None)"
    using dup by blast
  have acc: "ob_add ops c b = do {
      ok \<leftarrow> (if c_tif c = Fok then fillable ops (c_side c) limit (c_qty c) (c_owner c) ?stp b else Some True);
      if \<not> ok then Some (b, [acceptance rb c, expiry rb c (c_qty c) FokUnfilled])
      else do {
        (b', left, stop, evs) \<leftarrow> sweep ops (c_side c) ?oid (c_owner c) limit ?stp b (c_qty c);
        if left = 0 then Some (b', acceptance rb c # evs)
        else if stop then Some (b', acceptance rb c # evs @ [expiry rb c left SelfTrade])
        else if ?market \<or> c_tif c \<noteq> Day then Some (b', acceptance rb c # evs @ [expiry rb c left IocExpired])
        else do { (b'', evs') \<leftarrow> rest ops (c_side c) ?oid (c_owner c) limit left (c_ts c) b';
                  Some (b'', acceptance rb c # evs @ evs') } } }" if a: "accepts rb c"
  proof -
    have 1: "\<not> (\<not> ?market \<and> (?rel < 0 \<or> ?rel \<ge> ob_n b))" using a px by (auto simp: accepts_def)
    have 2: "d = kNil" "c_order_id c \<noteq> 0" "c_qty c \<noteq> 0" using a d(2) by (auto simp: accepts_def)
    have 3: "\<not> (c_flags c AND kFlagPostOnly \<noteq> 0 \<and> crosses (c_side c) limit b)"
      using a cr lr by (auto simp: accepts_def)
    show ?thesis
      unfolding ob_add_def Let_def limit_def [symmetric] px_shown_def [symmetric] D(5,8) [symmetric]
        acceptance_def [symmetric] expiry_def [symmetric] if_not_P [OF 1] if_not_P [OF 3]
      using d(1) 2 by simp
  qed
  from c show ?thesis
  proof (cases rule: rb_add_cases)
    case Reject
    have "ob_add ops c b = Some (b, [rejected_event c (reject_reason rb c)])"
    proof (cases "c_order_id c = 0 \<or> c_qty c = 0 \<or> (\<not> ?market \<and> (?rel < 0 \<or> ?rel \<ge> ob_n b))")
      case True
      then consider "?oid = 0" | "?oid \<noteq> 0" "c_qty c = 0"
        | "?oid \<noteq> 0" "c_qty c \<noteq> 0" "\<not> ?market \<and> (?rel < 0 \<or> ?rel \<ge> ob_n b)" by blast
      then show ?thesis
      proof cases
        case 3
        note P = 3(3)
        from P px have "c_ord_type c \<noteq> Market \<and> \<not> (rb_min_price rb \<le> c_price c \<and> c_price c \<le> rb_max_price rb)" by linarith
        then have "reject_reason rb c = InvalidPrice" unfolding reject_reason_def using 3(1,2) by simp
        then show ?thesis unfolding ob_add_def Let_def if_P [OF P] using 3(1,2) by simp
      qed (simp_all add: ob_add_def reject_reason_def)
    next
      case False
      then have l: "0 \<le> limit" "limit < int n" using n S(2) by (auto simp: limit_def)
      have "\<not> ?market \<longrightarrow> rb_min_price rb \<le> c_price c \<and> c_price c \<le> rb_max_price rb" using False px by auto
      then have r: "reject_reason rb c = (if d \<noteq> kNil then DuplicateOrderId else WouldCross)"
        "d = kNil \<Longrightarrow> c_flags c AND kFlagPostOnly \<noteq> 0 \<and> crosses (c_side c) limit b"
        using False Reject(1) d(2) cr [OF l] by (auto simp: reject_reason_def accepts_def)
      show ?thesis unfolding ob_add_def Let_def limit_def [symmetric] using False r d(1) by auto
    qed
    with Reject R show ?thesis by blast
  next
    case Kill
    have "c_qty c \<noteq> 0" using Kill(1) by (simp add: accepts_def)
    then have "fillable ops (c_side c) limit (c_qty c) (c_owner c) ?stp b = Some False"
      using fillable_sim [OF R lr [OF Kill(1)], of ?stp "c_qty c"] safe Kill(2,3) lim by (auto simp: fok_safe_def)
    with acc [OF Kill(1)] Kill R show ?thesis by auto
  next
    case (Match left stop evs1 rb1)
    note lr = lr [OF Match(1)]
    have "c_qty c \<noteq> 0" using Match(1) by (simp add: accepts_def)
    then have ok: "(if c_tif c = Fok then fillable ops (c_side c) limit (c_qty c) (c_owner c) ?stp b else Some True) = Some True"
      using fillable_sim [OF R lr, of ?stp "c_qty c"] safe Match(2) lim by (auto simp: fok_safe_def)
    from match_sim [OF R lr Match(3) [folded lim]] obtain b1 Q1 F1 where
      b1: "sweep ops (c_side c) ?oid (c_owner c) limit ?stp b (c_qty c) = Some (b1, left, stop, evs1)"
        "refines n Q1 F1 b1 rb1" "same_frame b b1" by blast
    have eq: "ob_add ops c b = (if left = 0 then Some (b1, acceptance rb c # evs1)
        else if stop then Some (b1, acceptance rb c # evs1 @ [expiry rb c left SelfTrade])
        else if ?market \<or> c_tif c \<noteq> Day then Some (b1, acceptance rb c # evs1 @ [expiry rb c left IocExpired])
        else do { (b'', evs') \<leftarrow> rest ops (c_side c) ?oid (c_owner c) limit left (c_ts c) b1;
                  Some (b'', acceptance rb c # evs1 @ evs') })"
      using acc [OF Match(1)] ok b1(1) by simp
    show ?thesis
    proof (cases "left \<noteq> 0 \<and> \<not> stop \<and> \<not> ?market \<and> c_tif c = Day")
      case False
      then have "ob_add ops c b = Some (b1, evs) \<and> rb' = rb1" using eq Match(4-6) by auto
      with b1(2) show ?thesis by blast
    next
      case True
      with Match(7) obtain evs2 where r: "rb_rest rb1 ?oid (c_owner c) (c_side c) (c_price c) left = (rb', evs2)"
        "evs = acceptance rb c # evs1 @ evs2" by blast
      have lc: "limit = ?rel" using True by (simp add: limit_def)
      obtain k where k: "limit = int k" "k < n" using lr by (metis nonneg_int_cases of_nat_less_iff)
      have cp: "c_price c = ob_min_price b1 + int k" using lc k b1(3) by (simp add: same_frame_def)
      note M = rb_match_inv [OF Match(3) D(4)]
      have a: "?oid \<noteq> 0" "map_of (rb_index rb) ?oid = None" using Match(1) by (auto simp: accepts_def)
      have "map_of (rb_index rb1) ?oid = None" using M a(2) by (auto simp: not_indexed)
      moreover have "\<not> in_range (c_side c) (ob_min_price b1 + int k) p" if "p \<in> prices (rb_levels (opposite (c_side c)) rb1)" for p
        using M True that cp by (auto simp: rb_limit_def)
      ultimately obtain b2 Q2 F2 where "rest ops (c_side c) ?oid (c_owner c) (int k) left (c_ts c) b1 = Some (b2, evs2)"
        "refines n Q2 F2 b2 rb'" using rest_sim [OF b1(2) k(2) _ a(1) _ _ r(1) [unfolded cp]] True by blast
      with eq True k r(2) show ?thesis by auto
    qed
  qed
qed

lemma process_sim:
  assumes R: "refines n Q F b rb" and c: "rb_process rb c = (rb', evs)" and safe: "fok_safe rb c"
  shows "\<exists>b' Q' F'. ob_process ops c b = Some (b', evs) \<and> refines n Q' F' b' rb'"
  using c add_sim [OF R _ safe] cancel_sim [OF R] modify_sim [OF R]
  by (cases "c_type c") (simp_all add: ob_process_def)

lemma init_refines:
  assumes "ob_init ops h sm cfg = Some b"
  shows "refines (cfg_num_levels cfg) (\<lambda>_ _. []) [0..<cfg_max_orders cfg] b (rb_init sm cfg)"
proof -
  let ?n = "cfg_num_levels cfg" and ?Q = "(\<lambda>_ _. []) :: queues"
  obtain bm where bm: "pb_init ?n = Some bm" and mo: "cfg_max_orders cfg < kNil" and
    b: "b = \<lparr>ob_symbol = sm, ob_min_price = cfg_min_price cfg, ob_n = int ?n, ob_stp = cfg_stp cfg, ob_best_bid = - 1,
       ob_best_ask = int ?n, ob_levels = replicate ?n \<lparr>lv_qty = 0, lv_head = kNil, lv_tail = kNil\<rparr>,
       ob_bid_bits = bm, ob_ask_bits = bm, ob_ids = ix_init h (cfg_max_orders cfg), ob_store = st_init ops (cfg_max_orders cfg)\<rparr>"
    using assms by (auto simp: ob_init_def split: if_splits)
  note B = pb_init_ok [OF bm]
  have n: "0 < ?n" using pb.size_pos [OF B(1)] B(2) by simp
  have em: "live ?Q = {}" "at_level ?Q i = []" for i by (auto simp: live_def at_level_def)
  have cap: "st_cap (st_init ops (cfg_max_orders cfg)) = cfg_max_orders cfg" by (simp add: st_init_def)
  have st: "struct_inv ?n b (heads b) ?Q [0..<cfg_max_orders cfg]"
    using st_init_split [OF mo] ix_init_ok [OF mo] em cap
    by (auto simp: struct_inv_def b queue_links_def)
  have "side_touch t ?n (bits t b) (best t b) (?Q t)" for t
    using B n by (cases t) (auto simp: side_touch_def b)
  then have "touch_inv ?n b ?Q" by (auto simp: touch_inv_def b)
  moreover have "rb_levels t (rb_init sm cfg) = abs_levels t (ob_min_price b) ?n (refs (data b) (?Q t))" for t
    using abs_levels_none [of ?n "refs (data b) (?Q t)"] by (cases t) (auto simp: rb_init_def)
  ultimately show ?thesis
    using st rb_init_inv cap by (auto simp: refines_def book_inv_def b rb_init_def)
qed

text \<open>
  Over a run: if the quantities submitted are such that a full book of them cannot reach \<open>2 ^ 64\<close>, the
  book and the reference emit the same events for ever.
\<close>

lemma run_sim:
  assumes "refines n Q F b rb" and "rb_bounded M rb" and "rb_capacity rb * M < 2 ^ 64"
    and "\<forall>c \<in> set cs. unat (c_qty c) \<le> M" and "rb_run rb cs = (rb', evs)"
  shows "\<exists>b' Q' F'. ob_run ops b cs = Some (b', evs) \<and> refines n Q' F' b' rb'"
  using assms
proof (induction cs arbitrary: b Q F rb evs)
  case Nil
  then show ?case by auto
next
  case (Cons c cs)
  obtain rb1 evs1 where p: "rb_process rb c = (rb1, evs1)" by (rule prod.exhaust)
  obtain evs2 where r: "rb_run rb1 cs = (rb', evs2)" "evs = evs1 @ evs2"
    using Cons.prems(5) p by (auto simp del: rb_process.simps split: prod.splits)
  note D = refinesD [OF Cons.prems(1)]
  have "no_wrap q" if "(p, q) \<in> set (rb_levels t rb)" for p q t
    using level_total_le [OF D(4) Cons.prems(2) that] Cons.prems(3) by (simp add: no_wrap_def)
  then have "fok_safe rb c" by (auto simp: fok_safe_def)
  from process_sim [OF Cons.prems(1) p this] obtain b1 Q1 F1 where
    b1: "ob_process ops c b = Some (b1, evs1)" "refines n Q1 F1 b1 rb1" by blast
  have "rb_bounded M rb1" using rb_process_bounded [OF p Cons.prems(2)] Cons.prems(4) by simp
  moreover have "rb_capacity rb1 = rb_capacity rb" using rb_process_config [OF p] by (simp add: rb_config_def)
  ultimately obtain b' Q' F' where "ob_run ops b1 cs = Some (b', evs2)" "refines n Q' F' b' rb'"
    using Cons.IH [OF b1(2) _ _ _ r(1)] Cons.prems(3,4) by auto
  with b1(1) r(2) show ?case by auto
qed

end

end
