(* ===== verification/Book_Queries.thy ===== *)
theory Book_Queries
  imports Book_Refinement
begin

text \<open>
  The queries of the book answer as the reference does, and the self-check of the book passes, on
  every state related to a reference state.
\<close>

context order_store
begin

section \<open>Queries\<close>

lemma visit_slots_eq:
  "chain (so_next ops (data b)) s xs kNil \<Longrightarrow>
   visit_slots ops b s = Some (map (\<lambda>v. (so_id ops (data b) v, so_qty ops (data b) v, so_side ops (data b) v)) xs)"
proof (induction xs arbitrary: s)
  case Nil
  then show ?case by (subst visit_slots.simps) simp
next
  case (Cons x xs)
  then have "s = x" "x \<noteq> kNil" "chain (so_next ops (data b)) (so_next ops (data b) x) xs kNil" by auto
  with Cons.IH [OF this(3)] show ?case by (subst visit_slots.simps) simp
qed

text \<open>The walk over the levels of a side, from any cursor.\<close>

lemma walk_sim:
  assumes inv: "book_inv n b Q F"
    and "lv = abs_levels t (ob_min_price b) n (refs (data b) (from_level t k (Q t)))"
    and "best_ok t n k (from_level t k (Q t))"
  shows "visit_orders ops t b k = Some (map (\<lambda>(p, r). (p, ro_id r, ro_qty r)) (orders lv)) \<and>
    visit_levels t b k = Some (map (\<lambda>(p, q). (p, rb_level_qty q)) lv)"
  using assms(2-)
proof (induction lv arbitrary: k)
  have st: "struct_inv n b (heads b) Q F" and to: "side_touch t n (bits t b) (best t b) (Q t)"
    using inv by (auto simp: book_inv_def touch_inv_def)
  note cursor = cursor_cases [OF to queues_beyond [OF st], where d = "data b" and mn = "ob_min_price b"]
  have n: "ob_n b = int n" using struct_invD(2) [OF st] .
  {
    case Nil
    from Nil.prems(2) have "if t = Buy then k < 0 else k \<ge> int n"
      by (cases rule: cursor) (use Nil.prems(1) in auto)
    then have "\<not> on_ladder t b k" using n by (cases t) auto
    then show ?case by (subst visit_orders.simps, subst visit_levels.simps) simp
  next
    case (Cons pq lv)
    from Cons.prems(2) obtain i where i: "i < n" "k = int i" "Q t i \<noteq> []"
      "best_ok t n (step_bits t (bits t b) k) (from_level t (step_bits t (bits t b) k) (Q t))"
      and lv: "pq = (ob_min_price b + int i, map (ref_of (data b)) (Q t i))"
        "lv = abs_levels t (ob_min_price b) n (refs (data b) (from_level t (step_bits t (bits t b) k) (Q t)))"
      by (cases rule: cursor) (use Cons.prems(1) in auto)
    have ql: "queue_links (data b) (lv_head (ob_levels b ! i)) (ob_levels b ! i) (Q t i)"
      using struct_invD(3) [OF st i(1)] side_queue(2) [OF st i(3)] by simp
    then have ch: "chain (so_next ops (data b)) (lv_head (ob_levels b ! nat k)) (Q t i) kNil"
      and q: "lv_qty (ob_levels b ! nat k) = rb_level_qty (map (ref_of (data b)) (Q t i))"
      using i(2) by (simp_all add: queue_links_def rb_level_qty_def comp_def)
    have on: "on_ladder t b k" using i(1,2) n by (cases t) auto
    note IH = Cons.IH [OF lv(2) i(4), folded step_level_bits]
    show ?case
      using IH on visit_slots_eq [OF ch] q i(2)
      by (subst visit_orders.simps, subst visit_levels.simps) (simp add: lv(1) comp_def)
  }
qed

lemma for_each_agrees:
  assumes R: "refines n Q F b rb"
  shows "ob_for_each_order ops t b = Some (rb_for_each_order rb t)"
    and "ob_for_each_level t b = Some (map (\<lambda>(p, q). (p, rb_level_qty q)) (rb_levels t rb))"
proof -
  note D = refinesD [OF R]
  have to: "side_touch t n (bits t b) (best t b) (Q t)" using D(3) by (simp add: touch_inv_def)
  note C = best_cursor [OF to queues_beyond [OF D(2)]]
  have lv: "rb_levels t rb = abs_levels t (ob_min_price b) n (refs (data b) (from_level t (best t b) (Q t)))"
    using D(10) C(1) by simp
  from walk_sim [OF D(1) lv C(2)] show "ob_for_each_order ops t b = Some (rb_for_each_order rb t)"
    "ob_for_each_level t b = Some (map (\<lambda>(p, q). (p, rb_level_qty q)) (rb_levels t rb))"
    by (simp_all add: ob_for_each_order_def ob_for_each_level_def rb_for_each_order_def)
qed

lemma touch_agrees:
  assumes R: "refines n Q F b rb"
  shows "ob_best_bid_px b = rb_best_bid rb" and "ob_best_ask_px b = rb_best_ask rb"
    and "ob_best_bid_qty b = rb_best_bid_qty rb" and "ob_best_ask_qty b = rb_best_ask_qty rb"
proof -
  note D = refinesD [OF R]
  have n: "ob_n b = int n" using struct_invD(2) [OF D(2)] .
  have b: "ob_for_each_level Buy b = Some (map (\<lambda>(p, q). (p, rb_level_qty q)) (rb_bids rb))"
    and a: "ob_for_each_level Sell b = Some (map (\<lambda>(p, q). (p, rb_level_qty q)) (rb_asks rb))"
    using for_each_agrees(2) [OF R, of Buy] for_each_agrees(2) [OF R, of Sell] by simp_all
  have B: "(if ob_best_bid b \<ge> 0 then \<exists>r. ob_for_each_level Buy b = Some ((ob_min_price b + ob_best_bid b, lv_qty (ob_levels b ! nat (ob_best_bid b))) # r)
      else ob_for_each_level Buy b = Some [])"
    unfolding ob_for_each_level_def best.simps using b
    by (subst (1 2) visit_levels.simps) (auto simp: ob_for_each_level_def visit_levels.simps [of Buy b "ob_best_bid b"] split: if_splits)
  have A: "(if ob_best_ask b < ob_n b then \<exists>r. ob_for_each_level Sell b = Some ((ob_min_price b + ob_best_ask b, lv_qty (ob_levels b ! nat (ob_best_ask b))) # r)
      else ob_for_each_level Sell b = Some [])"
    unfolding ob_for_each_level_def best.simps using a
    by (subst (1 2) visit_levels.simps) (auto simp: ob_for_each_level_def visit_levels.simps [of Sell b "ob_best_ask b"] split: if_splits)
  show "ob_best_bid_px b = rb_best_bid rb" "ob_best_bid_qty b = rb_best_bid_qty rb"
    using B b by (cases "rb_bids rb"; auto simp: ob_best_bid_px_def ob_best_bid_qty_def rb_best_bid_def rb_best_bid_qty_def split: if_splits)+
  show "ob_best_ask_px b = rb_best_ask rb" "ob_best_ask_qty b = rb_best_ask_qty rb"
    using A a by (cases "rb_asks rb"; auto simp: ob_best_ask_px_def ob_best_ask_qty_def rb_best_ask_def rb_best_ask_qty_def split: if_splits)+
qed

lemma find_agrees:
  assumes R: "refines n Q F b rb"
  shows "ob_find_order ops oid b = Some (rb_find_order rb oid)" and "ob_contains ops oid b = Some (rb_contains rb oid)"
  using R
proof (atomize (full), cases rule: lookup_cases [where oid = oid])
  case (Hit t i s)
  have "deref rb oid (loc t (ob_min_price b + int i)) = Some (ref_of (data b) s)"
    using deref_hit [OF R Hit(1)] Hit(3) by simp
  with Hit show "ob_find_order ops oid b = Some (rb_find_order rb oid) \<and> ob_contains ops oid b = Some (rb_contains rb oid)"
    by (simp add: ob_find_order_def rb_find_order_def ob_contains_def rb_contains_def)
qed (simp_all add: ob_find_order_def rb_find_order_def ob_contains_def rb_contains_def)

section \<open>The self-check\<close>

lemma check_slots_ok:
  assumes "chain (so_next ops (data b)) s xs kNil" and "successively (\<lambda>a c. so_prev ops (data b) c = a) (if prv = kNil then xs else prv # xs)"
    and "\<forall>x \<in> set xs. so_side ops (data b) x = t \<and> so_level ops (data b) x = i \<and> so_qty ops (data b) x \<noteq> 0 \<and>
      ix_find (ob_ids b) (so_id ops (data b) x) (so_id ops (data b)) = Some x"
    and "seen + length xs \<le> st_live (ob_store b)"
  shows "check_slots ops t i b s prv tot seen =
    Some (Some (tot + sum_list (map (so_qty ops (data b)) xs), (if xs = [] then prv else last xs), seen + length xs))"
  using assms
proof (induction xs arbitrary: s prv tot seen)
  case Nil
  then show ?case by (subst check_slots.simps) simp
next
  case (Cons x xs)
  have x: "s = x" "x \<noteq> kNil" and ch: "chain (so_next ops (data b)) (so_next ops (data b) x) xs kNil"
    using Cons.prems(1) by auto
  have ok: "\<not> (prv \<noteq> kNil \<and> so_prev ops (data b) x \<noteq> prv)" using Cons.prems(2) by (auto split: if_splits)
  have "successively (\<lambda>a c. so_prev ops (data b) c = a) (if x = kNil then xs else x # xs)"
    using Cons.prems(2) x by (auto split: if_splits)
  from Cons.IH [OF ch this, of "seen + 1" "tot + so_qty ops (data b) x"] Cons.prems(3,4) x ok show ?case
    by (subst check_slots.simps) (auto simp: add.assoc)
qed

lemma touch_side: "touch_inv n b Q \<Longrightarrow> side_touch t n (bits t b) (best t b) (Q t)"
  by (simp add: touch_inv_def)

lemma live_count:
  assumes "struct_inv n b h Q F"
  shows "card (live Q) = (\<Sum>i \<leftarrow> [0..<n]. length (at_level Q i))"
proof -
  have "live Q = (\<Union>i < n. set (at_level Q i))"
    using struct_invD(4) [OF assms] by (auto simp: live_iff at_level_in) blast+
  moreover have "card (\<Union>i < n. set (at_level Q i)) = (\<Sum>i < n. card (set (at_level Q i)))"
  proof (rule card_UN_disjoint)
    show "\<forall>i \<in> {..<n}. \<forall>j \<in> {..<n}. i \<noteq> j \<longrightarrow> set (at_level Q i) \<inter> set (at_level Q j) = {}"
      using struct_invD(4) [OF assms] by (auto simp: at_level_in) metis
  qed auto
  moreover have "card (set (at_level Q i)) = length (at_level Q i)" if "i < n" for i
    using struct_invD(3) [OF assms that] by (simp add: queue_links_def distinct_card)
  ultimately show ?thesis by (simp add: interv_sum_list_conv_sum_set_nat atLeast0LessThan)
qed

lemma check_levels_ok:
  assumes inv: "book_inv n b Q F" and "\<forall>i \<in> set is. i < n"
    and "seen + (\<Sum>i \<leftarrow> is. length (at_level Q i)) \<le> card (live Q)"
  shows "check_levels ops b is seen = Some (Some (seen + (\<Sum>i \<leftarrow> is. length (at_level Q i))))"
  using assms(2-)
proof (induction "is" arbitrary: seen)
  case (Cons i "is")
  have st: "struct_inv n b (heads b) Q F" and to: "touch_inv n b Q" using inv by (auto simp: book_inv_def)
  note S = struct_invD [OF st]
  have i: "i < n" using Cons.prems(1) by simp
  have bits: "pb_test (ob_bid_bits b) (int i) = (Q Buy i \<noteq> [])" "pb_test (ob_ask_bits b) (int i) = (Q Sell i \<noteq> [])"
    using touch_side [OF to, of Buy] touch_side [OF to, of Sell] i by (simp_all add: side_touch_def)
  have ql: "queue_links (data b) (lv_head (ob_levels b ! i)) (ob_levels b ! i) (at_level Q i)" using S(3) [OF i] by simp
  note IH = Cons.IH [of "seen + length (at_level Q i)"]
  show ?case
  proof (cases "at_level Q i = []")
    case True
    then have "Q Buy i = []" "Q Sell i = []" by (auto simp: at_level_def)
    moreover have "lv_tail (ob_levels b ! i) = kNil" using to i True by (simp add: touch_inv_def)
    ultimately show ?thesis using IH ql True bits Cons.prems by (simp add: queue_links_def Let_def)
  next
    case False
    then obtain t where t: "Q t i \<noteq> []" by (auto simp: at_level_def)
    note sq = side_queue [OF st t]
    have one: "(Q Buy i \<noteq> []) = (t = Buy)" "(Q Sell i \<noteq> []) = (t = Sell)" using t sq(1) by (cases t; auto)+
    have hd: "lv_head (ob_levels b ! i) \<noteq> kNil" using ql False by (auto simp: queue_links_def chain_kNil_start)
    have "check_slots ops t i b (lv_head (ob_levels b ! i)) kNil 0 seen =
        Some (Some (0 + sum_list (map (so_qty ops (data b)) (Q t i)), (if Q t i = [] then kNil else last (Q t i)), seen + length (Q t i)))"
    proof (rule check_slots_ok)
      show "chain (so_next ops (data b)) (lv_head (ob_levels b ! i)) (Q t i) kNil"
        "successively (\<lambda>a c. so_prev ops (data b) c = a) (if kNil = kNil then Q t i else kNil # Q t i)"
        using ql sq(2) by (simp_all add: queue_links_def)
      show "\<forall>x \<in> set (Q t i). so_side ops (data b) x = t \<and> so_level ops (data b) x = i \<and> so_qty ops (data b) x \<noteq> 0 \<and>
          ix_find (ob_ids b) (so_id ops (data b) x) (so_id ops (data b)) = Some x"
        using S(4) oi.represents_find(1) [OF S(7)] in_live by blast
      show "seen + length (Q t i) \<le> st_live (ob_store b)"
        using Cons.prems(2) sq(2) S(6) by (simp add: split_slots_def)
    qed
    then show ?thesis
      using IH Cons.prems bits one hd ql sq(2) t by (cases t) (auto simp: Let_def queue_links_def add.assoc)
  qed
qed simp

lemma best_find:
  assumes "side_touch t n bm k q"
  shows "(case t of Buy \<Rightarrow> pb_find_prev bm (int n - 1) | Sell \<Rightarrow> pb_find_next bm 0) = k"
proof -
  have inv: "pb_invar bm" "pb_n bm = int n" "0 < n" and b: "best_ok t n k q"
    using assms side_touch_pos [OF assms] by (auto simp: side_touch_def)
  have T: "pb_test bm j = (q (nat j) \<noteq> [])" if "0 \<le> j" "j < int n" for j
    using assms that by (auto simp: side_touch_def dest: spec [of _ "nat j"])
  show ?thesis
  proof (cases t)
    case Buy
    with b have "- 1 \<le> k" "k < int n" "0 \<le> k \<longrightarrow> q (nat k) \<noteq> []" "\<And>j. j < n \<Longrightarrow> k < int j \<Longrightarrow> q j = []" by auto
    then have "pb_find_prev bm (int n - 1) = k"
      by (intro pb.prev_eq) (use inv T in auto)
    with Buy show ?thesis by simp
  next
    case Sell
    with b have "0 \<le> k" "k \<le> int n" "k < int n \<longrightarrow> q (nat k) \<noteq> []" "\<And>j. j < n \<Longrightarrow> int j < k \<Longrightarrow> q j = []" by auto
    then have "pb_find_next bm 0 = k"
      by (intro pb.next_eq) (use inv T in auto)
    with Sell show ?thesis by simp
  qed
qed

lemma self_check_ok:
  assumes "book_inv n b Q F"
  shows "ob_check_invariants ops b = Some True"
proof -
  have st: "struct_inv n b (heads b) Q F" and to: "touch_inv n b Q" using assms by (auto simp: book_inv_def)
  note S = struct_invD [OF st]
  have tb: "side_touch Buy n (ob_bid_bits b) (ob_best_bid b) (Q Buy)" and ta: "side_touch Sell n (ob_ask_bits b) (ob_best_ask b) (Q Sell)"
    and un: "\<And>i j. Q Buy i \<noteq> [] \<Longrightarrow> Q Sell j \<noteq> [] \<Longrightarrow> i < j"
    using touch_side [OF to, of Buy] touch_side [OF to, of Sell] to by (simp, simp, simp add: touch_inv_def)
  have n: "0 < n" using side_touch_pos [OF tb] .
  have bb: "pb_find_prev (ob_bid_bits b) (int n - 1) = ob_best_bid b" using best_find [OF tb] by simp
  have ba: "pb_find_next (ob_ask_bits b) 0 = ob_best_ask b" using best_find [OF ta] by simp
  have x: "\<not> (ob_best_bid b \<ge> 0 \<and> ob_best_ask b < ob_n b \<and> ob_best_bid b \<ge> ob_best_ask b)"
    using tb ta un [of "nat (ob_best_bid b)" "nat (ob_best_ask b)"] S(2) by (auto simp: side_touch_def)
  have c: "(\<Sum>i \<leftarrow> [0..<n]. length (at_level Q i)) = card (live Q)" using live_count [OF st] by simp
  have k: "check_levels ops b [0..<n] 0 = Some (Some (0 + (\<Sum>i \<leftarrow> [0..<n]. length (at_level Q i))))"
    by (rule check_levels_ok [OF assms]) (use c in auto)
  have "ix_size (ob_ids b) = card (live Q)" "st_live (ob_store b) = card (live Q)"
    using oi.represents_count(1) [OF S(7)] S(6) by (auto simp: split_slots_def)
  with bb ba x k c show ?thesis unfolding ob_check_invariants_def S(2) by simp
qed

end

end
