(* ===== verification/Book_Properties.thy ===== *)
theory Book_Properties
  imports Book_Queries
begin

text \<open>
  The properties of the book: the three store layouts implement the reference, and the reference
  matches by price-time priority, conserves quantity, honours the order types and keeps its
  invariant. Each statement is over the definitions of the model; the witnesses instantiate it at a
  small book.
\<close>

section \<open>A small book for the witnesses\<close>

definition cfg0 :: BookConfig where
  "cfg0 = \<lparr>cfg_min_price = 100, cfg_num_levels = 64, cfg_max_orders = 4, cfg_stp = StpNone\<rparr>"

definition limit_order :: "OrderId \<Rightarrow> Side \<Rightarrow> Price \<Rightarrow> Qty \<Rightarrow> Tif \<Rightarrow> OwnerId \<Rightarrow> u8 \<Rightarrow> Command" where
  "limit_order oid sd px qty tif owner flags =
     \<lparr>c_order_id = oid, c_price = px, c_seq = 0, c_ts = 0, c_qty = qty, c_owner = owner, c_symbol = 0,
      c_type = NewOrder, c_side = sd, c_ord_type = Limit, c_tif = tif, c_flags = flags\<rparr>"

text \<open>Two asks at 110, one at 111; the commands that sweep them.\<close>

definition asks0 :: "Command list" where
  "asks0 = [limit_order 1 Sell 110 5 Day 7 0, limit_order 2 Sell 110 4 Day 8 0, limit_order 3 Sell 111 6 Day 9 0]"

definition wrap0 :: "Command list" where
  "wrap0 = [limit_order 1 Sell 110 0x8000000000000000 Day 7 0, limit_order 2 Sell 110 0x8000000000000000 Day 8 0,
            limit_order 3 Buy 110 5 Fok 9 0]"

definition book0 :: ReferenceBook where
  "book0 = fst (rb_run (rb_init 0 cfg0) asks0)"

lemma book0_inv: "rb_inv book0"
  unfolding book0_def by (rule rb_run_inv [OF rb_init_inv])

lemma run_hyp:
  assumes "\<forall>c \<in> set cs. unat (c_qty c) * cfg_max_orders cfg < 2 ^ 64" and "cfg_max_orders cfg \<noteq> 0"
  obtains M where "cfg_max_orders cfg * M < 2 ^ 64" "\<forall>c \<in> set cs. unat (c_qty c) \<le> M"
proof -
  let ?k = "cfg_max_orders cfg" and ?M = "(2 ^ 64 - 1) div cfg_max_orders cfg"
  have "?k * ?M \<le> 2 ^ 64 - (1 :: nat)" by (rule times_div_less_eq_dividend)
  then have "?k * ?M < 2 ^ 64" by (rule le_less_trans) simp
  moreover have "unat (c_qty c) \<le> ?M" if "c \<in> set cs" for c
    using assms(1,2) that less_eq_div_iff_mult_less_eq [of ?k "unat (c_qty c)" "2 ^ 64 - 1"] by fastforce
  ultimately show thesis using that by blast
qed

lemma rb_init_bounded: "rb_bounded M (rb_init sm cfg)"
  unfolding rb_bounded_def by (metis rb_levels.simps bounded_simps(1) ReferenceBook.select_convs(6,7) rb_init_def Side.exhaust)

lemma ob_init_max: "ob_init ops h sm cfg = Some b \<Longrightarrow> cfg_max_orders cfg \<noteq> 0"
  by (auto simp: ob_init_def split: if_splits)

text \<open>A run of a book over any layout, from its constructor, against the run of the reference.\<close>

context order_store
begin

lemma run_from_init:
  assumes "ob_init ops h sm cfg = Some b" and "\<forall>c \<in> set cs. unat (c_qty c) * cfg_max_orders cfg < 2 ^ 64"
    and "rb_run (rb_init sm cfg) cs = (rb', evs)"
  shows "\<exists>b' Q' F'. ob_run ops b cs = Some (b', evs) \<and> refines (cfg_num_levels cfg) Q' F' b' rb'"
proof -
  obtain M where M: "cfg_max_orders cfg * M < 2 ^ 64" "\<forall>c \<in> set cs. unat (c_qty c) \<le> M"
    using run_hyp [OF assms(2) ob_init_max [OF assms(1)]] .
  show ?thesis
    by (rule run_sim [OF init_refines [OF assms(1)] rb_init_bounded [of M] _ M(2) assms(3)])
      (use M(1) in \<open>simp add: rb_init_def\<close>)
qed

lemma run_obs:
  assumes "ob_init ops h sm cfg = Some b" and "\<forall>c \<in> set cs. unat (c_qty c) * cfg_max_orders cfg < 2 ^ 64"
    and "rb_run (rb_init sm cfg) cs = (rb', evs)"
  shows "\<exists>b'. ob_run ops b cs = Some (b', evs) \<and>
    ob_for_each_order ops t b' = Some (rb_for_each_order rb' t) \<and>
    ob_best_bid_px b' = rb_best_bid rb' \<and> ob_best_ask_px b' = rb_best_ask rb' \<and>
    ob_best_bid_qty b' = rb_best_bid_qty rb' \<and> ob_best_ask_qty b' = rb_best_ask_qty rb' \<and>
    ob_order_count b' = rb_order_count rb' \<and> ob_find_order ops oid b' = Some (rb_find_order rb' oid) \<and>
    ob_check_invariants ops b' = Some True"
proof -
  obtain b' Q F where r: "ob_run ops b cs = Some (b', evs)" and R: "refines (cfg_num_levels cfg) Q F b' rb'"
    using run_from_init [OF assms] by blast
  show ?thesis
    using r for_each_agrees(1) [OF R] touch_agrees [OF R] find_agrees(1) [OF R] self_check_ok [OF refinesD(1) [OF R]]
      count_agrees(3) [OF R]
    by (intro exI [of _ b']) (simp add: ob_order_count_def rb_order_count_def)
qed

end

section \<open>The optimised book implements the reference\<close>

text \<open>
  C1. Over any sequence of commands whose quantities are small enough for a full book not to reach
  \<open>2 ^ 64\<close>, the book on the array-of-structures store, under any index hash, processes every command (no
  loop runs away) and emits exactly the events of the reference book, and afterwards its resting
  orders, its touch, its order count and its look-up answers are those of the reference.
\<close>

theorem aos_book_refines_reference:
  assumes "ob_init AosStore h sm cfg = Some b"
    and "\<forall>c \<in> set cs. unat (c_qty c) * cfg_max_orders cfg < 2 ^ 64"
    and "rb_run (rb_init sm cfg) cs = (rb', evs)"
  shows "\<exists>b'. ob_run AosStore b cs = Some (b', evs) \<and>
    ob_for_each_order AosStore t b' = Some (rb_for_each_order rb' t) \<and>
    ob_best_bid_px b' = rb_best_bid rb' \<and> ob_best_ask_px b' = rb_best_ask rb' \<and>
    ob_best_bid_qty b' = rb_best_bid_qty rb' \<and> ob_best_ask_qty b' = rb_best_ask_qty rb' \<and>
    ob_order_count b' = rb_order_count rb' \<and> ob_find_order AosStore oid b' = Some (rb_find_order rb' oid)"
  using aos.run_obs [OF assms, of t oid] by blast

theorem aos_book_refines_reference_witness:
  "\<exists>b'. ob_run AosStore (the (ob_init AosStore scatter_fingerprint 0 cfg0)) asks0 =
      Some (b', snd (rb_run (rb_init 0 cfg0) asks0)) \<and> ob_best_ask_px b' = Some 110"
proof -
  obtain b where b: "ob_init AosStore scatter_fingerprint 0 cfg0 = Some b"
    by (simp add: ob_init_def pb_init_def cfg0_def kNil_def)
  have q: "\<forall>c \<in> set asks0. unat (c_qty c) * cfg_max_orders cfg0 < 2 ^ 64"
    by (simp add: asks0_def limit_order_def cfg0_def)
  have "rb_best_ask (fst (rb_run (rb_init 0 cfg0) asks0)) = Some 110" by code_simp
  with aos_book_refines_reference [OF b q, of _ _ Buy 1] b show ?thesis
    by (cases "rb_run (rb_init 0 cfg0) asks0") fastforce
qed

text \<open>
  C2. The layout and the index hash are unobservable: books on the three stores, each with a hash of
  its own, emit the same events over the same commands.
\<close>

theorem layouts_agree:
  assumes "ob_init AosStore h1 sm cfg = Some a" and "ob_init SoaStore h2 sm cfg = Some s"
    and "ob_init HybridStore h3 sm cfg = Some y"
    and "\<forall>c \<in> set cs. unat (c_qty c) * cfg_max_orders cfg < 2 ^ 64"
  shows "\<exists>a' s' y' evs. ob_run AosStore a cs = Some (a', evs) \<and> ob_run SoaStore s cs = Some (s', evs) \<and>
    ob_run HybridStore y cs = Some (y', evs)"
proof -
  obtain rb' evs where r: "rb_run (rb_init sm cfg) cs = (rb', evs)" by (rule prod.exhaust)
  show ?thesis
    using aos.run_from_init [OF assms(1,4) r] soa.run_from_init [OF assms(2,4) r] hybrid.run_from_init [OF assms(3,4) r]
    by blast
qed

theorem layouts_agree_witness:
  "\<exists>a' s' y' evs. ob_run AosStore (the (ob_init AosStore scatter_fingerprint 0 cfg0)) asks0 = Some (a', evs) \<and>
    ob_run SoaStore (the (ob_init SoaStore locality_fingerprint 0 cfg0)) asks0 = Some (s', evs) \<and>
    ob_run HybridStore (the (ob_init HybridStore scatter_fingerprint 0 cfg0)) asks0 = Some (y', evs)"
proof -
  obtain a s y where "ob_init AosStore scatter_fingerprint 0 cfg0 = Some a" "ob_init SoaStore locality_fingerprint 0 cfg0 = Some s"
    "ob_init HybridStore scatter_fingerprint 0 cfg0 = Some y"
    by (simp add: ob_init_def pb_init_def cfg0_def kNil_def)
  moreover have "\<forall>c \<in> set asks0. unat (c_qty c) * cfg_max_orders cfg0 < 2 ^ 64"
    by (simp add: asks0_def limit_order_def cfg0_def)
  ultimately show ?thesis using layouts_agree [of scatter_fingerprint 0 cfg0 a locality_fingerprint s scatter_fingerprint y asks0] by simp
qed

text \<open>
  C3. The book's own \<^verbatim>\<open>check_invariants\<close> (touch, bitmaps, links, level sums, index, counts) returns true
  after any such run, on each of the three stores.
\<close>

theorem self_check_after_run:
  assumes "ob_init AosStore h1 sm cfg = Some a" and "ob_init SoaStore h2 sm cfg = Some s"
    and "ob_init HybridStore h3 sm cfg = Some y"
    and "\<forall>c \<in> set cs. unat (c_qty c) * cfg_max_orders cfg < 2 ^ 64"
  shows "Option.bind (ob_run AosStore a cs) (\<lambda>r. ob_check_invariants AosStore (fst r)) = Some True \<and>
    Option.bind (ob_run SoaStore s cs) (\<lambda>r. ob_check_invariants SoaStore (fst r)) = Some True \<and>
    Option.bind (ob_run HybridStore y cs) (\<lambda>r. ob_check_invariants HybridStore (fst r)) = Some True"
proof -
  obtain rb' evs where r: "rb_run (rb_init sm cfg) cs = (rb', evs)" by (rule prod.exhaust)
  show ?thesis
    using aos.run_obs [OF assms(1,4) r, of Buy 0] soa.run_obs [OF assms(2,4) r, of Buy 0]
      hybrid.run_obs [OF assms(3,4) r, of Buy 0] by auto
qed

theorem self_check_after_run_witness:
  "Option.bind (ob_run HybridStore (the (ob_init HybridStore scatter_fingerprint 0 cfg0)) asks0)
     (\<lambda>r. ob_check_invariants HybridStore (fst r)) = Some True"
proof -
  obtain a s y where "ob_init AosStore scatter_fingerprint 0 cfg0 = Some a" "ob_init SoaStore scatter_fingerprint 0 cfg0 = Some s"
    "ob_init HybridStore scatter_fingerprint 0 cfg0 = Some y"
    by (simp add: ob_init_def pb_init_def cfg0_def kNil_def)
  moreover have "\<forall>c \<in> set asks0. unat (c_qty c) * cfg_max_orders cfg0 < 2 ^ 64"
    by (simp add: asks0_def limit_order_def cfg0_def)
  ultimately show ?thesis
    using self_check_after_run [of scatter_fingerprint 0 cfg0 a scatter_fingerprint s scatter_fingerprint y asks0] by simp
qed

text \<open>
  The bound on the quantities is needed: two resting sells of \<open>2 ^ 63\<close> at one price make the level
  aggregate wrap to zero, and a fill-or-kill buy of 5, which the reference fills, is killed.
\<close>

lemma fok_aggregate_wraps:
  "map e_type (snd (rb_run (rb_init 0 cfg0) wrap0)) = [Accepted, Accepted, Accepted, Trade] \<and>
   map_option (\<lambda>r. map e_type (snd r))
     (Option.bind (ob_init AosStore scatter_fingerprint 0 cfg0) (\<lambda>b. ob_run AosStore b wrap0)) =
   Some [Accepted, Accepted, Accepted, Canceled]"
  by (intro conjI; code_simp)

section \<open>What the reference promises\<close>

text \<open>
  C5. In every state the reference can reach, the best bid is below the best ask, the levels of each
  side are in strict price order, no level is empty and no resting quantity is zero, ids are unique and
  the index holds exactly the resting orders, and their number is within the capacity.
\<close>

theorem reference_invariant:
  "rb_inv (fst (rb_run (rb_init sm cfg) cs)) \<and> rb_check_invariants (fst (rb_run (rb_init sm cfg) cs))"
proof -
  define b where "b = fst (rb_run (rb_init sm cfg) cs)"
  have inv: "rb_inv b" unfolding b_def by (rule rb_run_inv [OF rb_init_inv])
  have len: "sum_list (map (length \<circ> snd) lv) = length (entries s lv)" for s lv
    by (induction lv) auto
  have "length (rb_index b) = length (entries Buy (rb_bids b)) + length (entries Sell (rb_asks b))"
    using inv by (metis rb_inv_def index_ok_def size_mset size_union)
  moreover have "p < p'" if "rb_bids b = (p, q) # r" "rb_asks b = (p', q') # r'" for p q r p' q' r'
    using inv that by (auto simp: rb_inv_def uncrossed_def)
  ultimately have "rb_check_invariants b"
    using len [of "rb_bids b" Buy] len [of "rb_asks b" Sell]
    by (auto simp: rb_check_invariants_def not_le split: list.splits)
  with inv show ?thesis by (simp add: b_def)
qed

text \<open>
  C6. Price-time priority. The trades of an incoming order, in every self-trade mode, are the shares of the greedy allocation of its quantity over the opposite side in
  book order (best price first, oldest first), cut at the limit: each maker gives all it shows before the next one gives anything. Orders of the incoming order's owner are
  passed over (\<^const>\<open>CancelResting\<close>), end the list (\<^const>\<open>CancelIncoming\<close>), or take a share that is decremented instead of traded
  (\<^const>\<open>DecrementCancel\<close>). Where no order is cancelled outright the opposite side keeps exactly what the allocation leaves.
\<close>

theorem price_time_priority:
  assumes "rb_inv b" and "rb_match b taker owner side limit qty stp = (b', left, stop, evs)"
  shows "map fill_of (trades evs) =
      shares owner stp qty (takeWhile (\<lambda>(p, r). in_range side limit p) (orders (rb_levels (opposite side) b))) \<and>
    (stp = StpNone \<or> stp = DecrementCancel \<longrightarrow> orders (rb_levels (opposite side) b') =
      residue qty (takeWhile (\<lambda>(p, r). in_range side limit p) (orders (rb_levels (opposite side) b))) @
      dropWhile (\<lambda>(p, r). in_range side limit p) (orders (rb_levels (opposite side) b)))"
proof -
  obtain lv ix where
    m: "match_side (rb_symbol b) taker owner side limit stp (rb_levels (opposite side) b) (rb_index b) qty = (lv, ix, left, stop, evs)"
    and b': "b' = (rb_set_levels (opposite side) lv b)\<lparr>rb_index := ix\<rparr>" using assms(2) by (rule rb_match_cases)
  note ok = rb_invD(1) [OF assms(1), of "opposite side"]
  show ?thesis using match_side_allocate [OF m ok] match_side_residue [OF m ok] by (auto simp: b')
qed

theorem price_time_priority_witness:
  "map fill_of (trades (snd (snd (snd (rb_match book0 9 1 Buy 111 10 StpNone))))) = [(110, 1, 5), (110, 2, 4), (111, 3, 1)]"
proof -
  obtain b' left stop evs where m: "rb_match book0 9 1 Buy 111 10 StpNone = (b', left, stop, evs)" by (rule prod_cases4)
  have "shares 1 StpNone 10 (takeWhile (\<lambda>(p, r). in_range Buy 111 p) (orders (rb_levels (opposite Buy) book0))) =
      [(110, 1, 5), (110, 2, 4), (111, 3, 1)]" by code_simp
  with price_time_priority [OF book0_inv m] m show ?thesis by simp
qed

end
