(* ===== verification/Matching_Properties.thy ===== *)
theory Matching_Properties
  imports Book_Properties
begin

text \<open>
  What each kind of order and each operation of the reference book does, errors included: the legality
  of trades, the accounting of quantity, fill-or-kill, post-only, immediate-or-cancel, cancellation and
  amendment.
\<close>

section \<open>Facts about single operations\<close>

lemma enqueue_level:
  assumes "(px, q) \<in> set (enqueue s px r lv)" and "levels_ok s lv"
  shows "q = [r] \<or> (\<exists>q0. (px, q0) \<in> set lv \<and> q = q0 @ [r])"
  using assms
proof (induction lv)
  case (Cons pq lv)
  obtain p q' where pq: "pq = (p, q')" by (cases pq)
  have out: "(px, q) \<notin> set lv" if "px_before s px p \<or> px = p"
  proof
    assume "(px, q) \<in> set lv"
    then have "px \<in> prices lv" by (force simp: prices_def)
    with Cons.prems(2) have "px_before s p px" by (simp add: pq levels_ok_Cons)
    with that px_before_trans px_before_simps(2) show False by blast
  qed
  show ?case
  proof (cases "px = p \<or> px_before s px p")
    case True
    with Cons.prems out show ?thesis by (auto simp: pq split: if_splits)
  next
    case False
    with Cons show ?thesis by (auto simp: pq levels_ok_Cons split: if_splits)
  qed
qed auto

lemma rest_find:
  assumes "rb_rest b oid owner s px qty = (b', evs)" and "rb_inv b" and "rb_inv b'" and "map_of (rb_index b) oid = None"
    and "length (rb_index b) < rb_capacity b"
  shows "evs = [] \<and> rb_find_order b' oid = Some \<lparr>ov_price = px, ov_qty = qty, ov_side = s, ov_owner = owner\<rparr>"
proof -
  let ?r = "\<lparr>ro_id = oid, ro_qty = qty, ro_owner = owner\<rparr>"
  have b': "b' = (rb_set_levels s (enqueue s px ?r (rb_levels s b)) b)\<lparr>rb_index := (oid, loc s px) # rb_index b\<rparr>" "evs = []"
    using assms(1,5) by (auto simp: rb_rest_def Let_def loc_def)
  have m: "map_of (rb_index b') oid = Some (loc s px)" by (simp add: b')
  obtain q r where q: "(px, q) \<in> set (rb_levels s b')" "r \<in> set q" "ro_id r = oid" and d: "deref b' oid (loc s px) = Some r"
    by (rule rb_index_lookup [OF assms(3) m])
  have "q = [?r] \<or> (\<exists>q0. (px, q0) \<in> set (rb_levels s b) \<and> q = q0 @ [?r])"
    using enqueue_level [OF _ rb_invD(1) [OF assms(2)]] q(1) by (simp add: b')
  moreover have "r \<notin> set q0" if "(px, q0) \<in> set (rb_levels s b)" for q0
  proof
    assume "r \<in> set q0"
    with that q(3) have "(oid, loc s px) \<in> set (entries s (rb_levels s b))" by (auto simp: entries_loc in_orders)
    then have "(oid, loc s px) \<in># mset (rb_index b)" unfolding rb_invD(3) [OF assms(2), of s] by simp
    with assms(4) show False by (force simp: not_indexed)
  qed
  ultimately have "r = ?r" using q(2) by auto
  with m d b'(2) show ?thesis by (simp add: rb_find_order_def)
qed

text \<open>Cancellations a match emits are of orders that rest in the book.\<close>

lemma match_queue_canceled:
  assumes "match_queue sm taker owner side limit stp px q ix qty = (q', ix', qty', stop, evs)"
    and "e \<in> set evs" and "e_type e = Canceled"
  shows "e_order_id e \<in> ro_id ` set q"
  using assms(1,2)
proof (induction q arbitrary: ix qty evs)
  case (Cons r q)
  show ?case
  proof (cases "qty = 0")
    case False
    with Cons.prems(1) show ?thesis
      by (cases rule: match_queue_Cons_cases)
        (use Cons.IH Cons.prems(2) assms(3) in \<open>auto simp: canceled_event_def\<close>)
  qed (use Cons.prems in auto)
qed auto

lemma match_side_canceled:
  assumes "match_side sm taker owner side limit stp lv ix qty = (lv', ix', qty', stop, evs)"
    and "e \<in> set evs" and "e_type e = Canceled"
  shows "e_order_id e \<in> (ro_id \<circ> snd) ` set (orders lv)"
  using assms(1,2)
proof (induction lv arbitrary: ix qty evs)
  case (Cons pq lv)
  obtain px q where pq: "pq = (px, q)" by (cases pq)
  from Cons.prems(1) [unfolded pq] show ?case
  proof (cases rule: match_side_Cons_cases)
    case (End q')
    from match_queue_canceled [OF End(3) Cons.prems(2) assms(3)] show ?thesis by (force simp: pq)
  next
    case (Next ix1 qty1 evs1 evs2)
    from Cons.prems(2) Next(5) consider "e \<in> set evs1" | "e \<in> set evs2" by auto
    then show ?thesis
    proof cases
      case 1
      from match_queue_canceled [OF Next(3) 1 assms(3)] show ?thesis by (force simp: pq)
    next
      case 2
      from Cons.IH [OF Next(4) 2] show ?thesis by (force simp: pq)
    qed
  qed (use Cons.prems(2) in auto)
qed auto

lemma rb_match_canceled:
  assumes "rb_match b taker owner side limit qty stp = (b', left, stop, evs)" and "rb_inv b"
    and "e \<in> set evs" and "e_type e = Canceled"
  shows "e_order_id e \<in> fst ` set (rb_index b)"
proof -
  obtain lv ix where m: "match_side (rb_symbol b) taker owner side limit stp (rb_levels (opposite side) b) (rb_index b) qty =
      (lv, ix, left, stop, evs)" using assms(1) by (rule rb_match_cases)
  from match_side_canceled [OF m assms(3,4)] obtain p r where
    "(p, r) \<in> set (orders (rb_levels (opposite side) b))" "ro_id r = e_order_id e" by auto
  then have "(e_order_id e, loc (opposite side) p) \<in> set (entries (opposite side) (rb_levels (opposite side) b))"
    by (auto simp: entries_loc)
  then have "(e_order_id e, loc (opposite side) p) \<in># mset (rb_index b)" unfolding rb_invD(3) [OF assms(2), of "opposite side"] by simp
  then show ?thesis by force
qed

definition canceled_qty :: "OrderId \<Rightarrow> Event list \<Rightarrow> nat" where
  "canceled_qty oid evs = (\<Sum>e \<leftarrow> filter (\<lambda>e. e_type e = Canceled \<and> e_order_id e = oid) evs. unat (e_qty e))"

text \<open>What is reported back as cancelled, except what an owner's larger resting order has taken under \<^const>\<open>DecrementCancel\<close>.\<close>

definition returned_qty :: "Stp \<Rightarrow> OrderId \<Rightarrow> Event list \<Rightarrow> nat" where
  "returned_qty stp oid evs = canceled_qty oid (filter (\<lambda>e. \<not> (stp = DecrementCancel \<and> e_reason e = SelfTrade)) evs)"

definition resting_qty :: "OrderId \<Rightarrow> ReferenceBook \<Rightarrow> nat" where
  "resting_qty oid b = (case rb_find_order b oid of None \<Rightarrow> 0 | Some v \<Rightarrow> unat (ov_qty v))"

lemma canceled_qty_simps [simp]:
  "canceled_qty oid [] = 0"
  "canceled_qty oid (e # evs) =
     (if e_type e = Canceled \<and> e_order_id e = oid then unat (e_qty e) + canceled_qty oid evs else canceled_qty oid evs)"
  "canceled_qty oid (evs @ evs') = canceled_qty oid evs + canceled_qty oid evs'"
  by (simp_all add: canceled_qty_def)

lemma returned_qty_simps [simp]:
  "returned_qty stp oid [] = 0"
  "returned_qty stp oid (e # evs) = (if e_type e = Canceled \<and> e_order_id e = oid \<and> \<not> (stp = DecrementCancel \<and> e_reason e = SelfTrade)
     then unat (e_qty e) + returned_qty stp oid evs else returned_qty stp oid evs)"
  "returned_qty stp oid (evs @ evs') = returned_qty stp oid evs + returned_qty stp oid evs'"
  by (auto simp: returned_qty_def)

lemma returned_none: "canceled_qty oid evs = 0 \<Longrightarrow> returned_qty stp oid evs = 0"
  by (induction evs) (auto split: if_splits)

lemma expiry_simps [simp]:
  "e_reason (expiry b c n r) = r"
  "e_type (expiry b c n r) = Canceled" "e_order_id (expiry b c n r) = c_order_id c" "e_qty (expiry b c n r) = n"
  "e_type (acceptance b c) = Accepted"
  by (simp_all add: expiry_def acceptance_def canceled_event_def)

text \<open>The facts about an accepted order that was matched.\<close>

lemma matched_order:
  assumes "rb_inv b" and "accepts b c"
    and m: "rb_match b (c_order_id c) (c_owner c) (c_side c) limit (c_qty c) stp = (b1, left, stop, evs1)"
  shows "canceled_qty (c_order_id c) evs1 = 0" and "resting_qty (c_order_id c) b1 = 0"
    and "\<not> rb_contains b1 (c_order_id c)"
    and "traded evs1 + self_matched stp (c_owner c) (rb_levels (opposite (c_side c)) b) (rb_levels (opposite (c_side c)) b1) +
      (if stp = DecrementCancel \<and> stop then 0 else unat left) = unat (c_qty c)"
proof -
  note M = rb_match_inv [OF m assms(1)]
  have out: "c_order_id c \<notin> fst ` set (rb_index b)" using assms(2) by (simp add: accepts_def not_indexed)
  show "canceled_qty (c_order_id c) evs1 = 0"
  proof -
    have "filter (\<lambda>e. e_type e = Canceled \<and> e_order_id e = c_order_id c) evs1 = []"
      unfolding filter_empty_conv using rb_match_canceled [OF m assms(1)] out by metis
    then show ?thesis by (simp add: canceled_qty_def)
  qed
  have "map_of (rb_index b1) (c_order_id c) = None" using M out unfolding not_indexed by blast
  then show "resting_qty (c_order_id c) b1 = 0" "\<not> rb_contains b1 (c_order_id c)"
    by (simp_all add: resting_qty_def rb_find_order_def rb_contains_def)
  obtain lv ix where ms: "match_side (rb_symbol b) (c_order_id c) (c_owner c) (c_side c) limit stp
      (rb_levels (opposite (c_side c)) b) (rb_index b) (c_qty c) = (lv, ix, left, stop, evs1)"
      and b1: "b1 = (rb_set_levels (opposite (c_side c)) lv b)\<lparr>rb_index := ix\<rparr>"
    using m by (rule rb_match_cases)
  show "traded evs1 + self_matched stp (c_owner c) (rb_levels (opposite (c_side c)) b) (rb_levels (opposite (c_side c)) b1) +
      (if stp = DecrementCancel \<and> stop then 0 else unat left) = unat (c_qty c)"
    using match_side_accounts [OF ms] by (simp add: b1)
qed

section \<open>Properties\<close>

text \<open>
  Who takes in a command: the owner, side, self-trade mode and limit of a new order are its own; a modification re-enters the resting order it names, with that order's
  owner and side, the new price as the limit, and the book's mode.
\<close>

fun taker_of :: "ReferenceBook \<Rightarrow> Command \<Rightarrow> (OwnerId \<times> Side \<times> Stp \<times> Price) option" where
  "taker_of b c =
    (case c_type c of
       NewOrder \<Rightarrow> Some (c_owner c, c_side c, effective_stp (c_flags c) (rb_stp b), rb_limit b c)
     | Modify \<Rightarrow> map_option (\<lambda>v. (ov_owner v, ov_side v, rb_stp b, c_price c)) (rb_find_order b (c_order_id c))
     | Cancel \<Rightarrow> None)"

lemma rest_trades: "rb_rest b oid owner side px qty = (b', evs) \<Longrightarrow> trades evs = []"
  by (auto simp: rb_rest_def Let_def canceled_event_def split: if_splits)

lemma match_legal:
  assumes "rb_match b oid owner side limit qty stp = (b', left, stop, evs)" and "rb_inv b" and "e \<in> set (trades evs)"
  shows "legal oid owner side stp (set (orders (rb_levels (opposite side) b))) e \<and> in_range side limit (e_price e)"
proof -
  obtain lv ix where "match_side (rb_symbol b) oid owner side limit stp (rb_levels (opposite side) b) (rb_index b) qty = (lv, ix, left, stop, evs)"
    using assms(1) by (rule rb_match_cases)
  then show ?thesis using match_side_legal rb_invD(1) [OF assms(2)] assms(3) by metis
qed

lemma modify_match:
  assumes "rb_modify b c = (b', evs)" and "rb_inv b" and "trades evs \<noteq> []"
  obtains v b1 b2 left stop evs2 where "rb_find_order b (c_order_id c) = Some v" "rb_inv b1"
    "rb_levels (opposite (ov_side v)) b1 = rb_levels (opposite (ov_side v)) b"
    "rb_match b1 (c_order_id c) (ov_owner v) (ov_side v) (c_price c) (c_qty c) (rb_stp b) = (b2, left, stop, evs2)" "trades evs = trades evs2"
proof -
  have nz: "c_qty c \<noteq> 0" "map_of (rb_index b) (c_order_id c) \<noteq> None" "\<not> (c_price c < rb_min_price b \<or> c_price c > rb_max_price b)"
    using assms(1,3) by (auto simp: rb_modify_def rejected_event_def split: option.splits if_splits)
  then obtain l where l': "map_of (rb_index b) (c_order_id c) = Some l" by auto
  obtain s p where "l = loc s p" by (rule loc_cases)
  with l' have l: "map_of (rb_index b) (c_order_id c) = Some (loc s p)" by simp
  obtain r where r: "deref b (c_order_id c) (loc s p) = Some r" using rb_index_lookup [OF assms(2) l] by blast
  define b1 where "b1 = (rb_remove b (c_order_id c) (loc s p))\<lparr>rb_index := om_erase (c_order_id c) (rb_index b)\<rparr>"
  obtain b2 left stop evs2 where m: "rb_match b1 (c_order_id c) (ro_owner r) s (c_price c) (c_qty c) (rb_stp b) = (b2, left, stop, evs2)"
    by (rule prod_cases4)
  obtain b3 evs3 where re: "rb_rest b2 (c_order_id c) (ro_owner r) s (c_price c) left = (b3, evs3)" by (rule prod.exhaust)
  have "\<not> (c_price c = p \<and> c_qty c \<le> ro_qty r)"
    using assms(1,3) nz l r by (auto simp: rb_modify_def modified_event_def)
  then have "trades evs = trades evs2"
    using assms(1) nz l r m re rest_trades [OF re]
    by (auto simp: rb_modify_def Let_def b1_def [symmetric] modified_event_def canceled_event_def split: if_splits)
  moreover have "rb_find_order b (c_order_id c) = Some \<lparr>ov_price = p, ov_qty = ro_qty r, ov_side = s, ov_owner = ro_owner r\<rparr>"
    using l r by (simp add: rb_find_order_def)
  moreover have "rb_levels (opposite s) b1 = rb_levels (opposite s) b" by (simp add: b1_def rb_remove_def)
  ultimately show thesis using m that rb_remove_inv(1) [OF assms(2) l b1_def] by simp
qed

text \<open>
  C7. Every trade of a command, a new order's or a modification's that re-enters its order, is with an order that rests in the book on the other side, at that order's
  price, which is within the incoming limit; it fills a positive part of it and reports what is left of it; and under any self-trade mode the two owners differ. The
  taker's owner, side, mode and limit are those of \<open>taker_of\<close>; a cancellation trades nothing.
\<close>

theorem trades_are_legal:
  assumes "rb_inv b" and "rb_process b c = (b', evs)" and "e \<in> set (trades evs)"
  shows "\<exists>owner side stp limit. taker_of b c = Some (owner, side, stp, limit) \<and>
    legal (c_order_id c) owner side stp (set (orders (rb_levels (opposite side) b))) e \<and> in_range side limit (e_price e)"
proof (cases "c_type c")
  case NewOrder
  then have "rb_add b c = (b', evs)" using assms(2) by simp
  then show ?thesis
  proof (cases rule: rb_add_cases)
    case (Match left stop evs1 b1)
    have "trades evs = trades evs1"
      using Match(4-7) rest_trades by (cases "left = 0"; cases stop; cases "c_ord_type c = Market \<or> c_tif c \<noteq> Day") auto
    then show ?thesis using match_legal [OF Match(3) assms(1)] assms(3) NewOrder by auto
  qed (use assms(3) in auto)
next
  case Modify
  then have p: "rb_modify b c = (b', evs)" using assms(2) by simp
  have "trades evs \<noteq> []" using assms(3) by auto
  then obtain v b1 b2 left stop evs2 where v: "rb_find_order b (c_order_id c) = Some v" "rb_inv b1"
    "rb_levels (opposite (ov_side v)) b1 = rb_levels (opposite (ov_side v)) b"
    "rb_match b1 (c_order_id c) (ov_owner v) (ov_side v) (c_price c) (c_qty c) (rb_stp b) = (b2, left, stop, evs2)" "trades evs = trades evs2"
    by (rule modify_match [OF p assms(1)])
  show ?thesis using match_legal [OF v(4,2)] v(1,3,5) assms(3) Modify by auto
next
  case Cancel
  then show ?thesis using assms(2,3) by (auto simp: rb_cancel_def rejected_event_def canceled_event_def Let_def split: option.splits)
qed

theorem trades_are_legal_witness:
  "\<exists>e. trades (snd (rb_process book0 (limit_order 9 Buy 110 3 Day 1 0))) = [e] \<and>
     legal 9 1 Buy StpNone (set (orders (rb_asks book0))) e"
proof -
  let ?c = "limit_order 9 Buy 110 3 Day 1 0"
  obtain b' evs where p: "rb_process book0 ?c = (b', evs)" by (rule prod.exhaust)
  have "map fill_of (trades (snd (rb_process book0 ?c))) = [(110, 1, 3)]" by code_simp
  then obtain e where e: "trades evs = [e]" using p by auto
  have f: "c_type ?c = NewOrder" "c_order_id ?c = 9" "c_owner ?c = 1" "c_side ?c = Buy" by (simp_all add: limit_order_def)
  have "effective_stp (c_flags ?c) (rb_stp book0) = StpNone" by code_simp
  with trades_are_legal [OF book0_inv p, of e] e p f show ?thesis by (auto simp del: rb_process.simps)
qed

text \<open>
  C8. No quantity is created or lost: for every accepted order, in every self-trade mode, what was asked for is what traded, plus what was cancelled back, plus what
  now rests under its id, plus what self-trade prevention took off it; and that is exactly what the owner's own orders on the other side lost with it (nothing, in the
  modes that do not decrement).
\<close>

theorem quantity_conserved:
  assumes "rb_inv b" and "accepts b c" and "rb_add b c = (b', evs)" and "stp = effective_stp (c_flags c) (rb_stp b)"
  shows "traded evs + returned_qty stp (c_order_id c) evs + resting_qty (c_order_id c) b' +
    self_matched stp (c_owner c) (rb_levels (opposite (c_side c)) b) (rb_levels (opposite (c_side c)) b') = unat (c_qty c)"
  using assms(3)
proof (cases rule: rb_add_cases)
  case Kill
  have "map_of (rb_index b) (c_order_id c) = None" using assms(2) by (simp add: accepts_def)
  with Kill show ?thesis by (simp add: resting_qty_def rb_find_order_def self_matched_def)
next
  case (Match left stop evs1 b1)
  let ?self = "\<lambda>b'. self_matched stp (c_owner c) (rb_levels (opposite (c_side c)) b) (rb_levels (opposite (c_side c)) b')"
  note M = matched_order [OF assms(1) Match(1,3), folded assms(4)]
  have r0: "returned_qty stp (c_order_id c) evs1 = 0" using M(1) by (rule returned_none)
  show ?thesis
  proof (cases "left \<noteq> 0 \<and> \<not> stop \<and> c_ord_type c \<noteq> Market \<and> c_tif c = Day")
    case False
    then consider "left = 0" | "left \<noteq> 0" "stop" | "left \<noteq> 0" "\<not> stop" "c_ord_type c = Market \<or> c_tif c \<noteq> Day" by blast
    then show ?thesis
    proof cases
      case 1
      then show ?thesis using Match(4) M(2,4) r0 by (simp split: if_splits)
    next
      case 2
      then show ?thesis using Match(5) M(2,4) r0 by (cases "stp = DecrementCancel") simp_all
    next
      case 3
      then show ?thesis using Match(6) M(2,4) r0 by simp
    qed
  next
    case True
    with Match(7) obtain evs2 where r: "rb_rest b1 (c_order_id c) (c_owner c) (c_side c) (c_price c) left = (b', evs2)"
      "evs = acceptance b c # evs1 @ evs2" by blast
    have b1: "rb_inv b1" "map_of (rb_index b1) (c_order_id c) = None"
      using rb_match_inv [OF Match(3) assms(1)] M(3) by (auto simp: rb_contains_def)
    have o: "?self b' = ?self b1" using r(1) by (auto simp: rb_rest_def Let_def split: if_splits)
    show ?thesis
    proof (cases "length (rb_index b1) < rb_capacity b1")
      case full: True
      from rest_find [OF r(1) b1(1) rb_add_inv [OF assms(3,1)] b1(2) full] r(2) r0 M(4) o True show ?thesis
        by (simp add: resting_qty_def)
    next
      case False
      have e: "b' = b1" "evs2 = [canceled_event (rb_symbol b1) (c_order_id c) (c_side c) (c_price c) left BookFull]"
        using r(1) False by (auto simp: rb_rest_def)
      show ?thesis using r(2) r0 M(2,4) True by (simp add: e canceled_event_def)
    qed
  qed
qed (use assms(2) in auto)

theorem quantity_conserved_witness:
  "traded (snd (rb_add book0 (limit_order 9 Buy 110 12 Day 7 6))) + returned_qty DecrementCancel 9 (snd (rb_add book0 (limit_order 9 Buy 110 12 Day 7 6))) +
     resting_qty 9 (fst (rb_add book0 (limit_order 9 Buy 110 12 Day 7 6))) +
     self_matched DecrementCancel 7 (rb_asks book0) (rb_asks (fst (rb_add book0 (limit_order 9 Buy 110 12 Day 7 6)))) = 12"
proof -
  let ?c = "limit_order 9 Buy 110 12 Day 7 6"
  obtain b' evs where a: "rb_add book0 ?c = (b', evs)" by (rule prod.exhaust)
  have h: "accepts book0 ?c" "DecrementCancel = effective_stp (c_flags ?c) (rb_stp book0)" by code_simp+
  with quantity_conserved [OF book0_inv h(1) a h(2)] a show ?thesis by (simp add: limit_order_def)
qed

text \<open>
  C9. Fill-or-kill is all or nothing, in every self-trade mode: either the order is used up, by its trades and by what self-trade prevention takes off it and the
  owner's own orders alike, with nothing resting and nothing cancelled back, or the only events are its acceptance and its cancellation and the book is untouched, and
  then matching it would indeed have left quantity open.
\<close>

theorem fok_all_or_nothing:
  assumes "rb_inv b" and "accepts b c" and "c_tif c = Fok" and "rb_add b c = (b', evs)" and "stp = effective_stp (c_flags c) (rb_stp b)"
  shows "(traded evs + self_matched stp (c_owner c) (rb_levels (opposite (c_side c)) b) (rb_levels (opposite (c_side c)) b') = unat (c_qty c) \<and>
      canceled_qty (c_order_id c) evs = 0 \<and> \<not> rb_contains b' (c_order_id c)) \<or>
    (evs = [acceptance b c, expiry b c (c_qty c) FokUnfilled] \<and> b' = b \<and>
     fst (snd (rb_match b (c_order_id c) (c_owner c) (c_side c) (rb_limit b c) (c_qty c) stp)) \<noteq> 0)"
proof -
  obtain b1 left stop evs1 where
    m: "rb_match b (c_order_id c) (c_owner c) (c_side c) (rb_limit b c) (c_qty c) stp = (b1, left, stop, evs1)" by (rule prod_cases4)
  obtain lv ix where ms: "match_side (rb_symbol b) (c_order_id c) (c_owner c) (c_side c) (rb_limit b c) stp
      (rb_levels (opposite (c_side c)) b) (rb_index b) (c_qty c) = (lv, ix, left, stop, evs1)"
    using m by (rule rb_match_cases)
  have nz: "c_qty c \<noteq> 0" using assms(2) by (simp add: accepts_def)
  have f: "rb_fillable b (c_side c) (rb_limit b c) (c_qty c) (c_owner c) stp = (left = 0)"
    unfolding rb_fillable_def by (rule scan_levels_match [OF ms rb_invD(1) [OF assms(1)] nz])
  note M = matched_order [OF assms(1,2) m]
  from assms(4) show ?thesis
  proof (cases rule: rb_add_cases)
    case Kill
    with f m show ?thesis by (simp add: assms(5))
  next
    case (Match left' stop' evs1' b1')
    with f assms(3) m have "left' = 0" "b1' = b1" "evs1' = evs1" "left = 0" by (auto simp: assms(5))
    with Match(4) M(1,3,4) show ?thesis by (simp split: if_splits)
  qed (use assms(2) in auto)
qed

text \<open>A fill-or-kill order of 9 under \<^const>\<open>DecrementCancel\<close>: the owner's resting 5 are decremented, the other 4 trade.\<close>

theorem fok_all_or_nothing_witness:
  "traded (snd (rb_add book0 (limit_order 9 Buy 110 9 Fok 7 6))) = 4 \<and>
   self_matched DecrementCancel 7 (rb_asks book0) (rb_asks (fst (rb_add book0 (limit_order 9 Buy 110 9 Fok 7 6)))) = 5 \<and>
   canceled_qty 9 (snd (rb_add book0 (limit_order 9 Buy 110 9 Fok 7 6))) = 0"
proof -
  let ?c = "limit_order 9 Buy 110 9 Fok 7 6"
  obtain b' evs where a: "rb_add book0 ?c = (b', evs)" by (rule prod.exhaust)
  have h: "accepts book0 ?c" "c_tif ?c = Fok" "DecrementCancel = effective_stp (c_flags ?c) (rb_stp book0)" by code_simp+
  have t: "traded (snd (rb_add book0 ?c)) = 4" by code_simp
  with fok_all_or_nothing [OF book0_inv h(1,2) a h(3)] a show ?thesis by (auto simp: limit_order_def)
qed

text \<open>
  C10. A post-only order never takes liquidity: it trades nothing and leaves the opposite side as it was.
\<close>

theorem post_only_never_takes:
  assumes "rb_inv b" and "c_flags c AND kFlagPostOnly \<noteq> 0" and "rb_add b c = (b', evs)"
  shows "trades evs = [] \<and> rb_levels (opposite (c_side c)) b' = rb_levels (opposite (c_side c)) b"
  using assms(3)
proof (cases rule: rb_add_cases)
  case (Match left stop evs1 b1)
  have "\<not> rb_crosses b (c_side c) (rb_limit b c)" using Match(1) assms(2) by (simp add: accepts_def)
  then have "match_side sm taker owner (c_side c) (rb_limit b c) stp (rb_levels (opposite (c_side c)) b) ix qty =
      (rb_levels (opposite (c_side c)) b, ix, qty, False, [])" for sm taker owner stp ix qty
    by (cases "rb_levels (opposite (c_side c)) b") (auto simp: rb_crosses_def)
  with Match(3) have m: "evs1 = []" "left = c_qty c" "\<not> stop" "rb_levels (opposite (c_side c)) b1 = rb_levels (opposite (c_side c)) b"
    by (auto simp: rb_match_def)
  have r: "trades evs2 = [] \<and> rb_levels (opposite (c_side c)) b2 = rb_levels (opposite (c_side c)) b1"
    if "rb_rest b1 (c_order_id c) (c_owner c) (c_side c) (c_price c) left = (b2, evs2)" for b2 evs2
    using that by (auto simp: rb_rest_def Let_def split: if_splits)
  show ?thesis
  proof (cases "left \<noteq> 0 \<and> c_ord_type c \<noteq> Market \<and> c_tif c = Day")
    case True
    with Match(7) m r show ?thesis by auto
  next
    case False
    then consider "left = 0" | "left \<noteq> 0" "c_ord_type c = Market \<or> c_tif c \<noteq> Day" by blast
    then show ?thesis by cases (use Match(4-6) m in simp_all)
  qed
qed auto

theorem post_only_never_takes_witness:
  "trades (snd (rb_add book0 (limit_order 9 Buy 109 3 Day 1 1))) = []"
proof -
  let ?c = "limit_order 9 Buy 109 3 Day 1 1"
  obtain b' evs where a: "rb_add book0 ?c = (b', evs)" by (rule prod.exhaust)
  have "c_flags ?c AND kFlagPostOnly \<noteq> 0" by code_simp
  from post_only_never_takes [OF book0_inv this a] a show ?thesis by simp
qed

text \<open>
  Market, immediate-or-cancel and fill-or-kill orders never rest.
\<close>

theorem immediate_orders_never_rest:
  assumes "rb_inv b" and "accepts b c" and "c_ord_type c = Market \<or> c_tif c \<noteq> Day" and "rb_add b c = (b', evs)"
  shows "\<not> rb_contains b' (c_order_id c)"
  using assms(4)
proof (cases rule: rb_add_cases)
  case Kill
  with assms(2) show ?thesis by (simp add: accepts_def rb_contains_def)
next
  case (Match left stop evs1 b1)
  then have "b' = b1" using assms(3) by blast
  with matched_order(3) [OF assms(1) Match(1,3)] show ?thesis by simp
qed (use assms(2) in auto)

theorem immediate_orders_never_rest_witness:
  "\<not> rb_contains (fst (rb_add book0 (limit_order 9 Buy 110 12 Ioc 1 0))) 9"
proof -
  let ?c = "limit_order 9 Buy 110 12 Ioc 1 0"
  obtain b' evs where a: "rb_add book0 ?c = (b', evs)" by (rule prod.exhaust)
  have h: "accepts book0 ?c" "c_ord_type ?c = Market \<or> c_tif ?c \<noteq> Day" by code_simp+
  from immediate_orders_never_rest [OF book0_inv h a] a show ?thesis by (simp add: limit_order_def)
qed

text \<open>
  C12. An order that fails validation is answered by one rejection, whose reason is the first check it
  fails in the order id, quantity, price, duplicate, post-only, and the book does not change.
\<close>

theorem rejection_reasons:
  assumes "\<not> accepts b c"
  shows "rb_add b c = (b, [rejected_event c (reject_reason b c)])"
proof -
  obtain b' evs where a: "rb_add b c = (b', evs)" by (rule prod.exhaust)
  then show ?thesis by (cases rule: rb_add_cases) (use assms a in auto)
qed

theorem rejection_reasons_witness:
  "rb_add book0 (limit_order 1 Buy 110 3 Day 1 0) =
     (book0, [rejected_event (limit_order 1 Buy 110 3 Day 1 0) DuplicateOrderId])"
proof -
  have h: "\<not> accepts book0 (limit_order 1 Buy 110 3 Day 1 0)" by code_simp
  have "reject_reason book0 (limit_order 1 Buy 110 3 Day 1 0) = DuplicateOrderId" by code_simp
  with rejection_reasons [OF h] show ?thesis by simp
qed

section \<open>Cancellation and amendment\<close>

lemma orders_remove: "orders (remove_level oid px lv) = filter (\<lambda>(p, r). \<not> (p = px \<and> ro_id r = oid)) (orders lv)"
proof (induction lv)
  case (Cons pq lv)
  obtain p q where pq: "pq = (p, q)" by (cases pq)
  have "filter (\<lambda>(p, r). \<not> (p = px \<and> ro_id r = oid)) (map (Pair p) q) =
      map (Pair p) (if p = px then filter (\<lambda>r. ro_id r \<noteq> oid) q else q)"
    by (induction q) auto
  with Cons show ?case by (simp add: pq Let_def)
qed simp

lemma orders_amend: "orders (amend_level oid px n lv) =
    map (\<lambda>(p, r). (p, if p = px \<and> ro_id r = oid then r\<lparr>ro_qty := n\<rparr> else r)) (orders lv)"
  by (induction lv) auto

text \<open>The order an id stands for is unique, and it is the one the index points to.\<close>

lemma order_unique:
  assumes "rb_inv b" and "map_of (rb_index b) oid = Some (loc s p)" and "(p', r) \<in> set (orders (rb_levels t b))" and "ro_id r = oid"
  shows "t = s \<and> p' = p"
proof -
  have "(oid, loc t p') \<in> set (entries t (rb_levels t b))" using assms(3,4) by (auto simp: entries_loc)
  then have "(oid, loc t p') \<in># mset (rb_index b)" unfolding rb_invD(3) [OF assms(1), of t] by simp
  then have "map_of (rb_index b) oid = Some (loc t p')" using rb_invD(4) [OF assms(1)] by simp
  with assms(2) show ?thesis by simp
qed

text \<open>
  C13. Cancelling a resting order reports its side, price and open quantity, removes exactly that order
  and keeps the priority of every other one; cancelling an unknown id is rejected and changes nothing.
\<close>

theorem cancel_removes_exactly:
  assumes "rb_inv b" and "rb_cancel b c = (b', evs)"
  shows "orders (rb_levels t b') = filter (\<lambda>(p, r). ro_id r \<noteq> c_order_id c) (orders (rb_levels t b)) \<and>
    \<not> rb_contains b' (c_order_id c) \<and>
    evs = (case rb_find_order b (c_order_id c) of
             None \<Rightarrow> [rejected_event c UnknownOrder]
           | Some v \<Rightarrow> [canceled_event (rb_symbol b) (c_order_id c) (ov_side v) (ov_price v) (ov_qty v) UserCanceled])"
proof (cases "map_of (rb_index b) (c_order_id c)")
  case None
  have "ro_id r \<noteq> c_order_id c" if "(p, r) \<in> set (orders (rb_levels t b))" for p r
  proof
    assume "ro_id r = c_order_id c"
    with that have "(c_order_id c, loc t p) \<in> set (entries t (rb_levels t b))" by (auto simp: entries_loc)
    then have "(c_order_id c, loc t p) \<in># mset (rb_index b)" unfolding rb_invD(3) [OF assms(1), of t] by simp
    with None show False by (force simp: not_indexed)
  qed
  then have "filter (\<lambda>(p, r). ro_id r \<noteq> c_order_id c) (orders (rb_levels t b)) = orders (rb_levels t b)"
    by (auto simp: filter_id_conv)
  with None assms(2) show ?thesis by (simp add: rb_cancel_def rb_contains_def rb_find_order_def)
next
  case (Some l)
  obtain s p where l: "l = loc s p" by (rule loc_cases)
  obtain r where d: "deref b (c_order_id c) (loc s p) = Some r" using rb_index_lookup [OF assms(1) Some [unfolded l]] by blast
  have b': "b' = (rb_remove b (c_order_id c) (loc s p))\<lparr>rb_index := om_erase (c_order_id c) (rb_index b)\<rparr>"
    and e: "evs = [canceled_event (rb_symbol b) (c_order_id c) s p (ro_qty r) UserCanceled]"
    using assms(2) Some d by (auto simp: rb_cancel_def l Let_def)
  have "filter (\<lambda>(p', r). \<not> (p' = p \<and> ro_id r = c_order_id c)) (orders (rb_levels s b)) =
      filter (\<lambda>(p, r). ro_id r \<noteq> c_order_id c) (orders (rb_levels s b))"
    by (rule filter_cong) (use order_unique [OF assms(1) Some [unfolded l]] in auto)
  moreover have "filter (\<lambda>(p, r). ro_id r \<noteq> c_order_id c) (orders (rb_levels (opposite s) b)) = orders (rb_levels (opposite s) b)"
    using order_unique [OF assms(1) Some [unfolded l], of _ _ "opposite s"] by (auto simp: filter_id_conv)
  ultimately have "orders (rb_levels t b') = filter (\<lambda>(p, r). ro_id r \<noteq> c_order_id c) (orders (rb_levels t b))"
    using side_cases [of t s] by (auto simp: b' rb_remove_def orders_remove)
  with Some d e show ?thesis
    by (simp add: b' l rb_contains_def rb_find_order_def map_of_om_erase)
qed

theorem cancel_removes_exactly_witness:
  "\<not> rb_contains (fst (rb_cancel book0 ((limit_order 2 Sell 0 0 Day 0 0)\<lparr>c_type := Cancel\<rparr>))) 2"
proof -
  let ?c = "(limit_order 2 Sell 0 0 Day 0 0)\<lparr>c_type := Cancel\<rparr>"
  obtain b' evs where a: "rb_cancel book0 ?c = (b', evs)" by (rule prod.exhaust)
  from cancel_removes_exactly [OF book0_inv a, of Buy] a show ?thesis by (simp add: limit_order_def)
qed

text \<open>
  C14. A modification that keeps the price and does not raise the quantity is an amendment in place: every
  order keeps its position in the queue and only the quantity of the amended one changes.
\<close>

theorem amend_keeps_priority:
  assumes "rb_inv b" and "rb_find_order b (c_order_id c) = Some v" and "c_qty c \<noteq> 0" and "c_price c = ov_price v"
    and "c_qty c \<le> ov_qty v" and "rb_modify b c = (b', evs)"
  shows "orders (rb_levels t b') =
      map (\<lambda>(p, r). (p, if ro_id r = c_order_id c then r\<lparr>ro_qty := c_qty c\<rparr> else r)) (orders (rb_levels t b)) \<and>
    evs = [modified_event (rb_symbol b) (c_order_id c) (ov_side v) (c_price c) (c_qty c)]"
proof -
  obtain l r where m: "map_of (rb_index b) (c_order_id c) = Some l" and d: "deref b (c_order_id c) l = Some r"
    and v: "v = \<lparr>ov_price = loc_price l, ov_qty = ro_qty r, ov_side = loc_side l, ov_owner = ro_owner r\<rparr>"
    using assms(2) by (auto simp: rb_find_order_def split: option.splits)
  obtain s p where l: "l = loc s p" by (rule loc_cases)
  obtain q where "(p, q) \<in> set (rb_levels s b)" using rb_index_lookup [OF assms(1) m [unfolded l]] by blast
  then have "p \<in> prices (rb_levels s b)" by (force simp: prices_def)
  from rb_invD(6) [OF assms(1) this] have b': "b' = rb_set_levels s (amend_level (c_order_id c) p (c_qty c) (rb_levels s b)) b"
    and e: "evs = [modified_event (rb_symbol b) (c_order_id c) s (c_price c) (c_qty c)]"
    using assms(3-6) m d v by (auto simp: rb_modify_def l)
  let ?f = "\<lambda>(p, r). (p, if ro_id r = c_order_id c then r\<lparr>ro_qty := c_qty c\<rparr> else r)"
  have "map (\<lambda>(p', r). (p', if p' = p \<and> ro_id r = c_order_id c then r\<lparr>ro_qty := c_qty c\<rparr> else r)) (orders (rb_levels s b)) =
      map ?f (orders (rb_levels s b))"
    by (rule map_cong [OF refl]) (use order_unique [OF assms(1) m [unfolded l]] in auto)
  moreover have "map ?f (orders (rb_levels (opposite s) b)) = orders (rb_levels (opposite s) b)"
    by (rule map_idI) (use order_unique [OF assms(1) m [unfolded l], of _ _ "opposite s"] in fastforce)
  ultimately show ?thesis using side_cases [of t s] e v l by (auto simp: b' orders_amend)
qed

theorem amend_keeps_priority_witness:
  "map (\<lambda>(p, r). (p, ro_id r, ro_qty r))
     (orders (rb_asks (fst (rb_modify book0 ((limit_order 1 Sell 110 2 Day 0 0)\<lparr>c_type := Modify\<rparr>))))) =
   [(110, 1, 2), (110, 2, 4), (111, 3, 6)]"
proof -
  let ?c = "(limit_order 1 Sell 110 2 Day 0 0)\<lparr>c_type := Modify\<rparr>"
  let ?v = "\<lparr>ov_price = 110, ov_qty = 5, ov_side = Sell, ov_owner = 7\<rparr>"
  obtain b' evs where a: "rb_modify book0 ?c = (b', evs)" by (rule prod.exhaust)
  have h: "rb_find_order book0 (c_order_id ?c) = Some ?v" "c_qty ?c \<noteq> 0" "c_price ?c = ov_price ?v" "c_qty ?c \<le> ov_qty ?v"
    by code_simp+
  have "map (\<lambda>(p, r). (p, ro_id r, ro_qty r)) (map (\<lambda>(p, r). (p, if ro_id r = c_order_id ?c then r\<lparr>ro_qty := c_qty ?c\<rparr> else r))
      (orders (rb_levels Sell book0))) = [(110, 1, 2), (110, 2, 4), (111, 3, 6)]" by code_simp
  with amend_keeps_priority [OF book0_inv h a, of Sell] a show ?thesis by simp
qed

end
