(* ===== verification/Matching_Engine.thy ===== *)
theory Matching_Engine
  imports Book_Refinement
begin

text \<open>
  \<^verbatim>\<open>include/exsim/matching_engine.hpp\<close>: the multi-symbol front end, generic in the book. A book is its
  state together with the function that processes one command and returns the new state and the events
  (\<open>None\<close> if a loop of the book does not end). The locale \<open>machine_sim\<close> is the contract between an
  implementation and its specification that the layers above the book rely on.
\<close>

type_synonym 's machine = "Command \<Rightarrow> 's \<Rightarrow> ('s \<times> Event list) option"

section \<open>The engine\<close>

definition me_init :: "(SymbolId \<Rightarrow> BookConfig \<Rightarrow> 'b option) \<Rightarrow> nat \<Rightarrow> BookConfig \<Rightarrow> 'b list option" where
  "me_init mk num_symbols cfg = those (map (\<lambda>i. mk (of_nat i) cfg) [0..<num_symbols])"

definition me_process :: "'b machine \<Rightarrow> 'b list machine" where
  "me_process book c books =
    (let i = unat (c_symbol c) in
     if i \<ge> length books then Some (books, [rejected_event c UnknownSymbol])
     else do { (b, evs) \<leftarrow> book c (books ! i); Some (books[i := b], evs) })"

text \<open>The reference book as a machine: its loops always end.\<close>

definition rb_machine :: "ReferenceBook machine" where
  "rb_machine c b = Some (rb_process b c)"

fun run :: "'s machine \<Rightarrow> 's \<Rightarrow> Command list \<Rightarrow> ('s \<times> Event list) option" where
  "run step s [] = Some (s, [])"
| "run step s (c # cs) =
     do { (s', evs) \<leftarrow> step c s; (s'', evs') \<leftarrow> run step s' cs; Some (s'', evs @ evs') }"

section \<open>Implementations of a machine\<close>

locale machine_sim =
  fixes impl :: "'s machine" and spec :: "'t machine" and R :: "'s \<Rightarrow> 't \<Rightarrow> bool" and ok :: "Command \<Rightarrow> bool"
  assumes sim: "R s t \<Longrightarrow> ok c \<Longrightarrow>
    \<exists>s' t' evs. impl c s = Some (s', evs) \<and> spec c t = Some (t', evs) \<and> R s' t'"
begin

lemma run_sim:
  "R s t \<Longrightarrow> \<forall>c \<in> set cs. ok c \<Longrightarrow>
   \<exists>s' t' evs. run impl s cs = Some (s', evs) \<and> run spec t cs = Some (t', evs) \<and> R s' t'"
proof (induction cs arbitrary: s t)
  case (Cons c cs)
  obtain s1 t1 evs where "impl c s = Some (s1, evs)" "spec c t = Some (t1, evs)" "R s1 t1"
    using sim Cons.prems by (metis list.set_intros(1))
  then show ?case using Cons.IH [of s1 t1] Cons.prems(2) by auto
qed auto

text \<open>An engine of implementations implements the engine of specifications.\<close>

lemma engine_sim: "machine_sim (me_process impl) (me_process spec) (list_all2 R) ok"
proof
  fix bs ts c
  assume R: "list_all2 R bs ts" and c: "ok c"
  let ?i = "unat (c_symbol c)"
  have len: "length bs = length ts" using R by (rule list_all2_lengthD)
  show "\<exists>s' t' evs. me_process impl c bs = Some (s', evs) \<and> me_process spec c ts = Some (t', evs) \<and> list_all2 R s' t'"
  proof (cases "?i < length ts")
    case True
    then have "R (bs ! ?i) (ts ! ?i)" using R len by (simp add: list_all2_nthD2)
    then obtain s' t' evs where "impl c (bs ! ?i) = Some (s', evs)" "spec c (ts ! ?i) = Some (t', evs)" "R s' t'"
      using sim c by blast
    with True R len show ?thesis by (simp add: me_process_def Let_def list_all2_update_cong)
  qed (use R len in \<open>simp add: me_process_def\<close>)
qed

end

lemma rb_init_levels [simp]: "rb_levels t (rb_init sm cfg) = []"
  by (cases t) (simp_all add: rb_init_def)

text \<open>The ladder book over any store implements the reference, for commands of bounded quantity.\<close>

context order_store
begin

definition book_rel :: "nat \<Rightarrow> 'd OrderBook \<Rightarrow> ReferenceBook \<Rightarrow> bool" where
  "book_rel M b rb \<longleftrightarrow> (\<exists>n Q F. refines n Q F b rb) \<and> rb_bounded M rb \<and> rb_capacity rb * M < 2 ^ 64"

lemma book_sim: "machine_sim (ob_process ops) rb_machine (book_rel M) (\<lambda>c. unat (c_qty c) \<le> M)"
proof
  fix b rb and c :: Command
  assume "book_rel M b rb" and q: "unat (c_qty c) \<le> M"
  then obtain n Q F where R: "refines n Q F b rb" and M: "rb_bounded M rb" "rb_capacity rb * M < 2 ^ 64"
    by (auto simp: book_rel_def)
  obtain rb' evs where p: "rb_process rb c = (rb', evs)" by (rule prod.exhaust)
  have "no_wrap q" if "(p, q) \<in> set (rb_levels t rb)" for p q t
    using level_total_le [OF refinesD(4) [OF R] M(1) that] M(2) by (simp add: no_wrap_def)
  then have "fok_safe rb c" by (auto simp: fok_safe_def)
  from process_sim [OF R p this] obtain b' where
    b: "ob_process ops c b = Some (b', evs)" "\<exists>Q F. refines n Q F b' rb'" by blast
  have "rb_bounded M rb'" by (rule rb_process_bounded [OF p M(1) q])
  moreover have "rb_capacity rb' = rb_capacity rb" using rb_process_config [OF p] by (simp add: rb_config_def)
  ultimately have "book_rel M b' rb'" using b(2) M(2) by (auto simp: book_rel_def)
  with b(1) show "\<exists>s' t' evs. ob_process ops c b = Some (s', evs) \<and> rb_machine c rb = Some (t', evs) \<and> book_rel M s' t'"
    by (auto simp: rb_machine_def p simp del: rb_process.simps)
qed

lemma book_rel_init:
  assumes "ob_init ops h sm cfg = Some b" and "cfg_max_orders cfg * M < 2 ^ 64"
  shows "book_rel M b (rb_init sm cfg)"
  using init_refines [OF assms(1)] assms(2) rb_init_levels [of _ sm cfg]
  by (auto simp: book_rel_def rb_bounded_def rb_init_def)

end

interpretation aos_book: machine_sim "ob_process AosStore" rb_machine "aos.book_rel M" "\<lambda>c. unat (c_qty c) \<le> M" for M
  by (rule aos.book_sim)

interpretation soa_book: machine_sim "ob_process SoaStore" rb_machine "soa.book_rel M" "\<lambda>c. unat (c_qty c) \<le> M" for M
  by (rule soa.book_sim)

interpretation hybrid_book: machine_sim "ob_process HybridStore" rb_machine "hybrid.book_rel M" "\<lambda>c. unat (c_qty c) \<le> M" for M
  by (rule hybrid.book_sim)

interpretation aos_engine: machine_sim "me_process (ob_process AosStore)" "me_process rb_machine"
    "list_all2 (aos.book_rel M)" "\<lambda>c. unat (c_qty c) \<le> M" for M
  by (rule aos_book.engine_sim)

lemma those_map_all2:
  "those (map f xs) = Some ys \<Longrightarrow> (\<And>x y. x \<in> set xs \<Longrightarrow> f x = Some y \<Longrightarrow> P y (g x)) \<Longrightarrow> list_all2 P ys (map g xs)"
  by (induction xs arbitrary: ys) (auto split: option.splits)

lemma aos_engine_init:
  assumes "me_init (ob_init AosStore h) n cfg = Some bs" and "cfg_max_orders cfg * M < 2 ^ 64"
  shows "list_all2 (aos.book_rel M) bs (the (me_init (\<lambda>s c. Some (rb_init s c)) n cfg))"
proof -
  have "those (map (\<lambda>i. Some (g i)) xs) = Some (map g xs)" for g :: "nat \<Rightarrow> ReferenceBook" and xs
    by (induction xs) auto
  then show ?thesis
    using assms(1) those_map_all2 [where P = "aos.book_rel M" and g = "\<lambda>i. rb_init (of_nat i) cfg"]
      aos.book_rel_init [OF _ assms(2)] by (simp add: me_init_def)
qed

section \<open>Symbols do not interact\<close>

text \<open>A book keeps its symbol, and stamps it on every event of a command routed to it.\<close>

locale symbol_machine =
  fixes book :: "'b machine" and symbol_of :: "'b \<Rightarrow> SymbolId"
  assumes stamped: "book c b = Some (b', evs) \<Longrightarrow> c_symbol c = symbol_of b \<Longrightarrow>
    symbol_of b' = symbol_of b \<and> (\<forall>e \<in> set evs. e_symbol e = symbol_of b)"
begin

definition placed :: "'b list \<Rightarrow> bool" where
  "placed bs \<longleftrightarrow> length bs \<le> 2 ^ 32 \<and> (\<forall>i < length bs. unat (symbol_of (bs ! i)) = i)"

lemma engine_step:
  assumes "placed bs" and "me_process book c bs = Some (bs', evs)"
  shows "placed bs' \<and> length bs' = length bs \<and> (\<forall>e \<in> set evs. e_symbol e = c_symbol c) \<and>
    (\<forall>i < length bs. if unat (c_symbol c) = i then book c (bs ! i) = Some (bs' ! i, evs) else bs' ! i = bs ! i)"
proof (cases "unat (c_symbol c) < length bs")
  case True
  then obtain b where b: "book c (bs ! unat (c_symbol c)) = Some (b, evs)" "bs' = bs[unat (c_symbol c) := b]"
    using assms(2) by (auto simp: me_process_def Let_def split: if_splits)
  have "c_symbol c = symbol_of (bs ! unat (c_symbol c))"
    using assms(1) True by (simp add: placed_def word_unat_eq_iff)
  with stamped [OF b(1)] b True assms(1) show ?thesis by (auto simp: placed_def nth_list_update)
qed (use assms in \<open>auto simp: me_process_def Let_def rejected_event_def split: if_splits\<close>)

text \<open>What one symbol sees of an engine run is a run of its book alone.\<close>

lemma engine_projection:
  assumes "placed bs" and "i < length bs" and "run (me_process book) bs cs = Some (bs', evs)"
  shows "run book (bs ! i) (filter (\<lambda>c. unat (c_symbol c) = i) cs) =
    Some (bs' ! i, filter (\<lambda>e. unat (e_symbol e) = i) evs)"
  using assms
proof (induction cs arbitrary: bs evs)
  case (Cons c cs)
  obtain bs1 evs1 evs2 where p: "me_process book c bs = Some (bs1, evs1)"
    and r: "run (me_process book) bs1 cs = Some (bs', evs2)" and e: "evs = evs1 @ evs2"
    using Cons.prems(3) by auto
  note st = engine_step [OF Cons.prems(1) p]
  have IH: "run book (bs1 ! i) (filter (\<lambda>c. unat (c_symbol c) = i) cs) =
      Some (bs' ! i, filter (\<lambda>e. unat (e_symbol e) = i) evs2)"
    by (rule Cons.IH [OF _ _ r]) (use st Cons.prems(2) in auto)
  show ?case
  proof (cases "unat (c_symbol c) = i")
    case True
    with st have "filter (\<lambda>e. unat (e_symbol e) = i) evs1 = evs1" by simp
    with True st IH e Cons.prems(2) show ?thesis by auto
  next
    case False
    with st have "filter (\<lambda>e. unat (e_symbol e) = i) evs1 = []" by simp
    with False st IH e Cons.prems(2) show ?thesis by auto
  qed
qed auto

end

lemma match_queue_symbol:
  "match_queue sm taker owner side limit stp px q ix qty = (q', ix', qty', stop, evs) \<Longrightarrow> \<forall>e \<in> set evs. e_symbol e = sm"
proof (induction q arbitrary: ix qty evs)
  case (Cons r q)
  show ?case
  proof (cases "qty = 0")
    case False
    from Cons.prems(1) False show ?thesis
      by (cases rule: match_queue_Cons_cases) (use Cons.IH in \<open>auto simp: event_defs\<close>)
  qed (use Cons.prems in auto)
qed auto

lemma match_side_symbol:
  "match_side sm taker owner side limit stp lv ix qty = (lv', ix', qty', stop, evs) \<Longrightarrow> \<forall>e \<in> set evs. e_symbol e = sm"
proof (induction lv arbitrary: ix qty evs)
  case (Cons pq lv)
  obtain px q where "pq = (px, q)" by (rule prod.exhaust)
  with Cons.prems have m: "match_side sm taker owner side limit stp ((px, q) # lv) ix qty = (lv', ix', qty', stop, evs)" by simp
  then show ?case
    by (cases rule: match_side_Cons_cases) (use Cons.IH match_queue_symbol in \<open>fastforce+\<close>)
qed auto

lemma rb_match_symbol:
  assumes "rb_match b taker owner side limit qty stp = (b', left, stop, evs)"
  shows "rb_symbol b' = rb_symbol b \<and> (\<forall>e \<in> set evs. e_symbol e = rb_symbol b)"
  using rb_match_config [OF assms] assms by (auto simp: rb_config_def elim!: rb_match_cases dest!: match_side_symbol)

lemma rb_rest_symbol: "rb_rest b oid owner side px qty = (b', evs) \<Longrightarrow> \<forall>e \<in> set evs. e_symbol e = rb_symbol b"
  by (auto simp: rb_rest_def canceled_event_def Let_def split: if_splits)

lemma rb_process_symbol:
  assumes "rb_process b c = (b', evs)" and "c_symbol c = rb_symbol b"
  shows "\<forall>e \<in> set evs. e_symbol e = rb_symbol b"
proof (cases "c_type c")
  case NewOrder
  then have "rb_add b c = (b', evs)" using assms(1) by simp
  then show ?thesis
  proof (cases rule: rb_add_cases)
    case (Match left stop evs1 b1)
    have r: "\<forall>e \<in> set evs2. e_symbol e = rb_symbol b"
      if "rb_rest b1 (c_order_id c) (c_owner c) (c_side c) (c_price c) left = (b', evs2)" for evs2
      using rb_rest_symbol [OF that] rb_match_symbol [OF Match(3)] by simp
    have ev: "e_symbol (acceptance b c) = rb_symbol b" "e_symbol (expiry b c q x) = rb_symbol b" for q x
      by (simp_all add: acceptance_def expiry_def event_defs)
    show ?thesis
      using Match(4-7) r rb_match_symbol [OF Match(3)] ev
      by (cases "left = 0"; cases stop; cases "c_ord_type c = Market \<or> c_tif c \<noteq> Day") auto
  qed (use assms(2) in \<open>auto simp: event_defs acceptance_def expiry_def\<close>)
next
  case Cancel
  with assms show ?thesis by (auto simp: rb_cancel_def Let_def event_defs split: option.splits)
next
  case Modify
  have "rb_symbol (rb_remove b oid l) = rb_symbol b" for oid l
    using rb_config_upd(3) [of b oid l] by (simp add: rb_config_def)
  then show ?thesis
    using Modify assms
    by (auto simp: rb_modify_def Let_def event_defs split: if_splits option.splits prod.splits
        dest!: rb_match_symbol rb_rest_symbol)
qed

interpretation ref: symbol_machine rb_machine rb_symbol
proof
  fix c b b' evs
  assume "rb_machine c b = Some (b', evs)" and "c_symbol c = rb_symbol b"
  then have p: "rb_process b c = (b', evs)" by (simp add: rb_machine_def del: rb_process.simps)
  show "rb_symbol b' = rb_symbol b \<and> (\<forall>e \<in> set evs. e_symbol e = rb_symbol b)"
    using rb_process_config [OF p] rb_process_symbol [OF p \<open>c_symbol c = rb_symbol b\<close>] by (simp add: rb_config_def)
qed

end
