(* ===== verification/Risk.thy ===== *)
theory Risk
  imports Matching_Engine
begin

text \<open>
  \<^verbatim>\<open>include/exsim/risk.hpp\<close>: the pre-trade risk gate in front of an engine. The gate is generic in the
  engine it wraps; the tap on the engine's event stream, which records the last trade price per symbol,
  only writes gate state the engine never reads, so it is applied to the list of events the engine
  returns.
\<close>

section \<open>State\<close>

record RiskConfig =
  rc_max_qty :: Qty
  rc_max_notional :: u64
  rc_collar_ticks :: Price
  rc_max_owners :: u32
  rc_rate_per_sec :: u64
  rc_burst :: u64
  rc_ticks_per_sec :: u64

definition default_RiskConfig :: RiskConfig where
  "default_RiskConfig = \<lparr>rc_max_qty = 1000000, rc_max_notional = 0x10000000000, rc_collar_ticks = 0,
     rc_max_owners = 0x10000, rc_rate_per_sec = 0, rc_burst = 100, rc_ticks_per_sec = 1000000000\<rparr>"

record 'e RiskGate =
  rg_engine :: 'e
  rg_cfg :: RiskConfig
  rg_last_px :: "Price list"
  rg_halted :: "bool list"
  rg_tat :: "u64 list"
  rg_interval :: u64
  rg_rejected :: u64
  rg_halt_all :: bool

definition rg_init :: "'e \<Rightarrow> nat \<Rightarrow> RiskConfig \<Rightarrow> 'e RiskGate" where
  "rg_init engine num_symbols cfg =
     \<lparr>rg_engine = engine, rg_cfg = cfg, rg_last_px = replicate num_symbols 0, rg_halted = replicate num_symbols False,
      rg_tat = replicate (unat (rc_max_owners cfg)) 0,
      rg_interval = (if rc_rate_per_sec cfg \<noteq> 0 then rc_ticks_per_sec cfg div rc_rate_per_sec cfg else 0),
      rg_rejected = 0, rg_halt_all = False\<rparr>"

section \<open>Operations\<close>

definition rg_set_halted :: "bool \<Rightarrow> SymbolId \<Rightarrow> 'e RiskGate \<Rightarrow> 'e RiskGate" where
  "rg_set_halted on s g =
     (if unat s < length (rg_halted g) then g\<lparr>rg_halted := (rg_halted g)[unat s := on]\<rparr> else g)"

definition rg_halt :: "SymbolId \<Rightarrow> 'e RiskGate \<Rightarrow> 'e RiskGate" where
  "rg_halt = rg_set_halted True"

definition rg_resume :: "SymbolId \<Rightarrow> 'e RiskGate \<Rightarrow> 'e RiskGate" where
  "rg_resume = rg_set_halted False"

definition rg_set_halt_all :: "bool \<Rightarrow> 'e RiskGate \<Rightarrow> 'e RiskGate" where
  "rg_set_halt_all on g = g\<lparr>rg_halt_all := on\<rparr>"

definition priced :: "Command \<Rightarrow> bool" where
  "priced c \<longleftrightarrow> c_type c = Modify \<or> c_ord_type c = Limit"

definition over_notional :: "RiskConfig \<Rightarrow> Command \<Rightarrow> bool" where
  "over_notional cfg c \<longleftrightarrow> priced c \<and> rc_max_notional cfg \<noteq> 0 \<and> c_qty c \<noteq> 0 \<and>
     (if c_price c < 0 then 0 else c_price c) > uint (rc_max_notional cfg div c_qty c)"

definition outside_collar :: "RiskConfig \<Rightarrow> Price \<Rightarrow> Command \<Rightarrow> bool" where
  "outside_collar cfg lpx c \<longleftrightarrow> priced c \<and> rc_collar_ticks cfg \<noteq> 0 \<and> lpx \<noteq> 0 \<and>
     (let d = wrap_i64 (c_price c - lpx) in (if d < 0 then wrap_i64 (- d) else d) > rc_collar_ticks cfg)"

text \<open>
  The distance is computed in 64 bits on a price straight from the wire: within the range it is the distance, and beyond it the result is undefined in C++ and wraps here.
\<close>

definition collar_in_range :: "Price \<Rightarrow> Command \<Rightarrow> bool" where
  "collar_in_range lpx c \<longleftrightarrow> \<bar>c_price c - lpx\<bar> < 2 ^ 63"

lemma outside_collar_exact:
  assumes "collar_in_range lpx c"
  shows "outside_collar cfg lpx c \<longleftrightarrow> priced c \<and> rc_collar_ticks cfg \<noteq> 0 \<and> lpx \<noteq> 0 \<and> \<bar>c_price c - lpx\<bar> > rc_collar_ticks cfg"
proof -
  have "i64_range (c_price c - lpx)" "i64_range (- (c_price c - lpx))" using assms by (auto simp: collar_in_range_def i64_range_def)
  then have "wrap_i64 (c_price c - lpx) = c_price c - lpx" "wrap_i64 (- (c_price c - lpx)) = - (c_price c - lpx)" by (simp_all only: wrap_i64_range)
  then show ?thesis by (simp add: outside_collar_def Let_def abs_if)
qed

definition rate_slack :: "'e RiskGate \<Rightarrow> u64" where
  "rate_slack g = rg_interval g * (if rc_burst (rg_cfg g) \<noteq> 0 then rc_burst (rg_cfg g) - 1 else 0)"

text \<open>The generic cell rate algorithm on the theoretical arrival time of one owner; \<open>None\<close> is the limit.\<close>

definition rate_step :: "u64 \<Rightarrow> u64 \<Rightarrow> u64 \<Rightarrow> u64 \<Rightarrow> u64 option" where
  "rate_step interval slack tat ts =
     (let allowed_from = (if tat > slack then tat - slack else 0) in
      if ts < allowed_from then None else Some (max ts tat + interval))"

definition rg_check :: "'e RiskGate \<Rightarrow> Command \<Rightarrow> Reason \<times> 'e RiskGate" where
  "rg_check g c =
    (let s = unat (c_symbol c); w = unat (c_owner c); cfg = rg_cfg g in
     if s \<ge> length (rg_last_px g) then (RNone, g)
     else if rg_halt_all g \<or> rg_halted g ! s then (RiskHalted, g)
     else if c_qty c > rc_max_qty cfg then (RiskMaxQty, g)
     else if over_notional cfg c then (RiskMaxNotional, g)
     else if outside_collar cfg (rg_last_px g ! s) c then (RiskCollar, g)
     else if c_type c = NewOrder \<or> c_type c = Modify then
       (if c_owner c \<ge> rc_max_owners cfg then (UnknownOwner, g)
        else if rg_interval g \<noteq> 0 then
          (case rate_step (rg_interval g) (rate_slack g) (rg_tat g ! w) (c_ts c) of
             None \<Rightarrow> (RiskRateLimit, g)
           | Some tat \<Rightarrow> (RNone, g\<lparr>rg_tat := (rg_tat g)[w := tat]\<rparr>))
        else (RNone, g))
     else (RNone, g))"

text \<open>The tap: trades move the last price of their symbol.\<close>

definition tap_event :: "Price list \<Rightarrow> Event \<Rightarrow> Price list" where
  "tap_event px e =
     (if e_type e = Trade \<and> unat (e_symbol e) < length px then px[unat (e_symbol e) := e_price e] else px)"

definition rg_process :: "'e machine \<Rightarrow> 'e RiskGate machine" where
  "rg_process engine c g =
    (let (r, g) = (if c_type c \<noteq> Cancel then rg_check g c else (RNone, g)) in
     if r \<noteq> RNone then Some (g\<lparr>rg_rejected := rg_rejected g + 1\<rparr>, [rejected_event c r])
     else
       do { (en, evs) \<leftarrow> engine c (rg_engine g);
            Some (g\<lparr>rg_engine := en, rg_last_px := foldl tap_event (rg_last_px g) evs\<rparr>, evs) })"

section \<open>The gate in front of an implementation\<close>

text \<open>Gates in the same state except for their engines.\<close>

definition gate_rel :: "('s \<Rightarrow> 't \<Rightarrow> bool) \<Rightarrow> 's RiskGate \<Rightarrow> 't RiskGate \<Rightarrow> bool" where
  "gate_rel R g h \<longleftrightarrow> R (rg_engine g) (rg_engine h) \<and> rg_cfg g = rg_cfg h \<and> rg_last_px g = rg_last_px h \<and>
     rg_halted g = rg_halted h \<and> rg_tat g = rg_tat h \<and> rg_interval g = rg_interval h \<and>
     rg_rejected g = rg_rejected h \<and> rg_halt_all g = rg_halt_all h"

lemma gate_rel_check:
  assumes "gate_rel R g h"
  shows "fst (rg_check g c) = fst (rg_check h c) \<and> gate_rel R (snd (rg_check g c)) (snd (rg_check h c))"
  using assms by (auto simp: gate_rel_def rg_check_def rate_slack_def Let_def split: option.splits)

context machine_sim
begin

lemma gate_sim: "machine_sim (rg_process impl) (rg_process spec) (gate_rel R) ok"
proof
  fix g h c
  assume G: "gate_rel R g h" and c: "ok c"
  let ?ck = "\<lambda>g. if c_type c \<noteq> Cancel then rg_check g c else (RNone, g)"
  have rel: "fst (?ck g) = fst (?ck h) \<and> gate_rel R (snd (?ck g)) (snd (?ck h))"
    using gate_rel_check [OF G, of c] G by simp
  obtain r g1 where ck: "?ck g = (r, g1)" by (rule prod.exhaust)
  obtain r' h1 where "?ck h = (r', h1)" by (rule prod.exhaust)
  with rel ck have ck': "?ck h = (r, h1)" and G1: "gate_rel R g1 h1" by (simp_all only: fst_conv snd_conv)
  show "\<exists>s' t' evs. rg_process impl c g = Some (s', evs) \<and> rg_process spec c h = Some (t', evs) \<and> gate_rel R s' t'"
  proof (cases "r = RNone")
    case True
    obtain s' t' evs where "impl c (rg_engine g1) = Some (s', evs)" "spec c (rg_engine h1) = Some (t', evs)" "R s' t'"
      using sim G1 c by (metis gate_rel_def)
    with True G1 show ?thesis by (simp add: rg_process_def ck ck' gate_rel_def)
  qed (use G1 in \<open>auto simp: rg_process_def ck ck' gate_rel_def\<close>)
qed

end

interpretation aos_gate: machine_sim "rg_process (me_process (ob_process AosStore))" "rg_process (me_process rb_machine)"
    "gate_rel (list_all2 (aos.book_rel M))" "\<lambda>c. unat (c_qty c) \<le> M" for M
  by (rule aos_engine.gate_sim)

end
