(* ===== verification/Engine_Properties.thy ===== *)
theory Engine_Properties
  imports Risk Book_Properties
begin

text \<open>
  The engine and the risk gate: the whole stack on ladder books behaves as on reference books, symbols do
  not interact, and the gate admits exactly the commands within its limits.
\<close>

section \<open>The rate limit\<close>



text \<open>A check changes at most the arrival time of the command's owner, and only when it admits.\<close>

lemma rg_check_frame:
  assumes "rg_check g c = (r, g')"
  shows "rg_cfg g' = rg_cfg g" "rg_interval g' = rg_interval g" "rg_last_px g' = rg_last_px g"
    "rg_engine g' = rg_engine g" "length (rg_tat g') = length (rg_tat g)" "rg_rejected g' = rg_rejected g"
    "rg_halted g' = rg_halted g" "rg_halt_all g' = rg_halt_all g"
    "r \<noteq> RNone \<Longrightarrow> g' = g"
    "unat (c_symbol c) \<ge> length (rg_last_px g) \<Longrightarrow> g' = g"
    "w \<noteq> unat (c_owner c) \<Longrightarrow> rg_tat g' ! w = rg_tat g ! w"
  using assms by (auto simp: rg_check_def Let_def split: if_splits option.splits)


lemma rg_process_cases:
  assumes "rg_process engine c g = Some (g', evs)"
  obtains (Reject) r where "c_type c \<noteq> Cancel" "rg_check g c = (r, g)" "r \<noteq> RNone"
      "g' = g\<lparr>rg_rejected := rg_rejected g + 1\<rparr>" "evs = [rejected_event c r]"
  | (Forward) g1 en where "if c_type c = Cancel then g1 = g else rg_check g c = (RNone, g1)"
      "engine c (rg_engine g) = Some (en, evs)"
      "g' = g1\<lparr>rg_engine := en, rg_last_px := foldl tap_event (rg_last_px g) evs\<rparr>"
proof -
  obtain r g1 where ck: "(if c_type c \<noteq> Cancel then rg_check g c else (RNone, g)) = (r, g1)" by (rule prod.exhaust)
  show thesis
  proof (cases "r = RNone")
    case True
    then have "if c_type c = Cancel then g1 = g else rg_check g c = (RNone, g1)" using ck by (simp split: if_splits)
    moreover from this have "rg_engine g1 = rg_engine g" "rg_last_px g1 = rg_last_px g"
      using rg_check_frame by (metis, metis)
    moreover from this obtain en where "engine c (rg_engine g) = Some (en, evs)"
        "g' = g1\<lparr>rg_engine := en, rg_last_px := foldl tap_event (rg_last_px g) evs\<rparr>"
      using assms True ck by (auto simp: rg_process_def)
    ultimately show thesis by (intro Forward)
  next
    case False
    then have c: "c_type c \<noteq> Cancel" "rg_check g c = (r, g1)" using ck by (auto split: if_splits)
    moreover have "g1 = g" using rg_check_frame(9) [OF c(2) False] .
    ultimately show thesis using assms False ck by (intro Reject [of r]) (auto simp: rg_process_def)
  qed
qed

lemma length_tap [simp]: "length (foldl tap_event px evs) = length px"
  by (induction evs arbitrary: px) (simp_all add: tap_event_def)

text \<open>The facts of one step the rate argument needs.\<close>

lemma rg_process_rate:
  assumes "rg_process engine c g = Some (g', evs)"
  shows "rg_cfg g' = rg_cfg g" "rg_interval g' = rg_interval g" "length (rg_last_px g') = length (rg_last_px g)"
    "length (rg_tat g') = length (rg_tat g)"
    "c_type c \<noteq> Cancel \<and> fst (rg_check g c) = RNone \<Longrightarrow> rg_tat g' = rg_tat (snd (rg_check g c))"
    "\<not> (c_type c \<noteq> Cancel \<and> fst (rg_check g c) = RNone) \<Longrightarrow> rg_tat g' = rg_tat g"
  using assms
  by (cases rule: rg_process_cases; auto dest: rg_check_frame split: if_splits)+


section \<open>The last trade price\<close>

definition last_trade :: "nat \<Rightarrow> Event list \<Rightarrow> Price" where
  "last_trade i evs = foldl (\<lambda>p e. if e_type e = Trade \<and> unat (e_symbol e) = i then e_price e else p) 0 evs"

lemma tap_nth:
  "i < length px \<Longrightarrow> foldl tap_event px evs ! i =
     foldl (\<lambda>p e. if e_type e = Trade \<and> unat (e_symbol e) = i then e_price e else p) (px ! i) evs"
  by (induction evs arbitrary: px) (simp_all add: tap_event_def nth_list_update)

lemma gate_last_px:
  assumes "run (rg_process engine) g cs = Some (g', evs)" and "i < length (rg_last_px g)"
  shows "rg_last_px g' ! i = foldl (\<lambda>p e. if e_type e = Trade \<and> unat (e_symbol e) = i then e_price e else p)
    (rg_last_px g ! i) evs"
  using assms
proof (induction cs arbitrary: g evs)
  case (Cons c cs)
  obtain g1 evs1 evs2 where p: "rg_process engine c g = Some (g1, evs1)" and r: "run (rg_process engine) g1 cs = Some (g', evs2)"
    and e: "evs = evs1 @ evs2" using Cons.prems(1) by auto
  have "rg_last_px g1 = foldl tap_event (rg_last_px g) evs1"
    using p
    by (cases rule: rg_process_cases) (auto simp: tap_event_def)
  with Cons.IH [OF r] Cons.prems(2) e show ?case by (simp add: tap_nth)
qed auto

section \<open>The notional\<close>

text \<open>The division in the source decides the exact product, which may not fit in 64 bits.\<close>

lemma notional_exact:
  assumes "(q :: u64) \<noteq> 0" and "0 \<le> p"
  shows "uint (m div q) < p \<longleftrightarrow> uint m < p * uint q"
proof -
  obtain n where n: "p = int n" using assms(2) by (rule nonneg_int_cases)
  have "0 < unat q" using assms(1) by (simp add: unat_gt_0)
  then have "unat m div unat q < n \<longleftrightarrow> unat m < n * unat q" by (rule div_less_iff_less_mult)
  then show ?thesis by (simp only: n uint_nat unat_div of_nat_less_iff flip: of_nat_mult)
qed

section \<open>Properties\<close>

definition risk0 :: RiskConfig where
  "risk0 = default_RiskConfig\<lparr>rc_max_owners := 10\<rparr>"



lemma engine0: "\<exists>bs. me_init (ob_init AosStore scatter_fingerprint) 2 cfg0 = Some bs"
proof -
  have "\<exists>b. ob_init AosStore scatter_fingerprint s cfg0 = Some b" for s
    by (simp add: ob_init_def cfg0_def pb_init_def kNil_def)
  then show ?thesis by (auto simp: me_init_def upt_rec split: option.splits)
qed

text \<open>
  The gate bounds the quantities that reach the books, so that the stack needs no assumption on the commands: a cancellation's quantity is not looked at, a command for
  an unknown symbol meets no book, and everything else is within \<^verbatim>\<open>max_qty\<close>.
\<close>

definition gated :: "nat \<Rightarrow> AosOrder list OrderBook list RiskGate \<Rightarrow> ReferenceBook list RiskGate \<Rightarrow> bool" where
  "gated M g h \<longleftrightarrow> gate_rel (list_all2 (aos.book_rel M)) g h \<and> unat (rc_max_qty (rg_cfg g)) \<le> M \<and> length (rg_last_px g) = length (rg_engine g)"

lemma engine_length: "me_process f c bs = Some (bs', evs) \<Longrightarrow> length bs' = length bs"
  by (auto simp: me_process_def Let_def split: if_splits)

lemma gated_step:
  assumes "gated M g h" and p: "rg_process (me_process f) c g = Some (g', evs)" and "gate_rel (list_all2 (aos.book_rel M)) g' h'"
  shows "gated M g' h'"
proof -
  from p have "length (rg_engine g') = length (rg_engine g)" by (cases rule: rg_process_cases) (auto dest: engine_length)
  then show ?thesis using assms rg_process_rate(1,3) [OF p] by (simp add: gated_def)
qed

lemma unread_qty:
  assumes "c_type c = Cancel \<or> unat (c_symbol c) \<ge> length (rg_engine g)" and "length (rg_last_px g) = length (rg_engine g)"
    and f: "\<And>b. c_type c = Cancel \<Longrightarrow> f (c\<lparr>c_qty := 0\<rparr>) b = f c b"
  shows "rg_process (me_process f) (c\<lparr>c_qty := 0\<rparr>) g = rg_process (me_process f) c g"
proof -
  have "me_process f (c\<lparr>c_qty := 0\<rparr>) (rg_engine g) = me_process f c (rg_engine g)"
    using assms(1) f by (auto simp: me_process_def rejected_event_def Let_def)
  moreover have "c_type c \<noteq> Cancel \<Longrightarrow> rg_check g (c\<lparr>c_qty := 0\<rparr>) = (RNone, g) \<and> rg_check g c = (RNone, g)"
    using assms(1,2) by (simp add: rg_check_def)
  ultimately show ?thesis by (cases "c_type c = Cancel") (simp_all add: rg_process_def)
qed

lemma cancel_qty:
  "c_type c = Cancel \<Longrightarrow> ob_process ops (c\<lparr>c_qty := 0\<rparr>) b = ob_process ops c b"
  "c_type c = Cancel \<Longrightarrow> rb_machine (c\<lparr>c_qty := 0\<rparr>) rb = rb_machine c rb"
proof -
  have r: "rejected_event (c\<lparr>c_qty := 0\<rparr>) k = rejected_event c k" "c_order_id (c\<lparr>c_qty := 0\<rparr>) = c_order_id c" for k
    by (simp_all add: rejected_event_def)
  have "ob_cancel ops (c\<lparr>c_qty := 0\<rparr>) b = ob_cancel ops c b" "rb_cancel rb (c\<lparr>c_qty := 0\<rparr>) = rb_cancel rb c"
    unfolding ob_cancel_def rb_cancel_def r by (rule refl)+
  then show "c_type c = Cancel \<Longrightarrow> ob_process ops (c\<lparr>c_qty := 0\<rparr>) b = ob_process ops c b"
    "c_type c = Cancel \<Longrightarrow> rb_machine (c\<lparr>c_qty := 0\<rparr>) rb = rb_machine c rb" by (simp_all add: ob_process_def rb_machine_def)
qed

lemma over_max_rejected:
  assumes "c_type c \<noteq> Cancel" "unat (c_symbol c) < length (rg_last_px g)" "c_qty c > rc_max_qty (rg_cfg g)"
  shows "\<exists>r. rg_process engine c g = Some (g\<lparr>rg_rejected := rg_rejected g + 1\<rparr>, [rejected_event c r]) \<and>
    r = (if rg_halt_all g \<or> rg_halted g ! unat (c_symbol c) then RiskHalted else RiskMaxQty)"
  using assms by (auto simp: rg_process_def rg_check_def Let_def)

interpretation gated_stack: machine_sim "rg_process (me_process (ob_process AosStore))" "rg_process (me_process rb_machine)" "gated M" "\<lambda>_. True" for M
proof
  fix g h c
  assume G: "gated M g h"
  then have R: "gate_rel (list_all2 (aos.book_rel M)) g h" and q: "unat (rc_max_qty (rg_cfg g)) \<le> M" and l: "length (rg_last_px g) = length (rg_engine g)"
    by (simp_all add: gated_def)
  have lh: "length (rg_last_px h) = length (rg_last_px g)" "length (rg_engine h) = length (rg_engine g)"
    using R by (auto simp: gate_rel_def dest: list_all2_lengthD)
  let ?A = "rg_process (me_process (ob_process AosStore))" and ?B = "rg_process (me_process rb_machine)"
  have sim: "\<exists>s' t' evs. ?A c g = Some (s', evs) \<and> ?B c h = Some (t', evs) \<and> gate_rel (list_all2 (aos.book_rel M)) s' t'"
  proof -
    consider (unread) "c_type c = Cancel \<or> unat (c_symbol c) \<ge> length (rg_engine g)" | (small) "unat (c_qty c) \<le> M"
      | (big) "c_type c \<noteq> Cancel" "unat (c_symbol c) < length (rg_last_px g)" "c_qty c > rc_max_qty (rg_cfg g)"
    proof -
      have "unat (c_qty c) \<le> M \<or> c_qty c > rc_max_qty (rg_cfg g)" using q by (auto simp: word_less_nat_alt)
      then show thesis using that l by (metis not_le)
    qed
    then show ?thesis
    proof cases
      case unread
      have "unat (c_qty (c\<lparr>c_qty := 0\<rparr>)) \<le> M" by simp
      from aos_gate.sim [OF R this] have "\<exists>s' t' evs. ?A (c\<lparr>c_qty := 0\<rparr>) g = Some (s', evs) \<and> ?B (c\<lparr>c_qty := 0\<rparr>) h = Some (t', evs) \<and>
        gate_rel (list_all2 (aos.book_rel M)) s' t'" .
      moreover have "?A (c\<lparr>c_qty := 0\<rparr>) g = ?A c g" by (rule unread_qty [OF unread l]) (rule cancel_qty(1))
      moreover have "?B (c\<lparr>c_qty := 0\<rparr>) h = ?B c h" by (rule unread_qty) (use unread l lh cancel_qty(2) in simp_all)
      ultimately show ?thesis by simp
    next
      case small
      show ?thesis by (rule aos_gate.sim [OF R small])
    next
      case big
      have "rg_halt_all h = rg_halt_all g" "rg_halted h = rg_halted g" "rg_cfg h = rg_cfg g" using R by (simp_all add: gate_rel_def)
      then have "\<exists>r. ?A c g = Some (g\<lparr>rg_rejected := rg_rejected g + 1\<rparr>, [rejected_event c r]) \<and> ?B c h = Some (h\<lparr>rg_rejected := rg_rejected h + 1\<rparr>, [rejected_event c r])"
        using over_max_rejected [OF big, where engine = "me_process (ob_process AosStore)"]
          over_max_rejected [of c h, where engine = "me_process rb_machine"] big lh by auto
      moreover have "gate_rel (list_all2 (aos.book_rel M)) (g\<lparr>rg_rejected := rg_rejected g + 1\<rparr>) (h\<lparr>rg_rejected := rg_rejected h + 1\<rparr>)"
        using R by (simp add: gate_rel_def)
      ultimately show ?thesis by blast
    qed
  qed
  then obtain s' t' evs where st: "?A c g = Some (s', evs)" "?B c h = Some (t', evs)" "gate_rel (list_all2 (aos.book_rel M)) s' t'" by blast
  then have "gated M s' t'" using gated_step [OF G] by blast
  with st show "\<exists>s' t' evs. ?A c g = Some (s', evs) \<and> ?B c h = Some (t', evs) \<and> gated M s' t'" by blast
qed

text \<open>
  C19. The whole stack: the risk gate in front of a multi-symbol engine of ladder books emits, over any commands whatever, exactly the events of the gate in front of an
  engine of reference books, and every command is answered (no loop runs away). The gate's quantity limit times the capacity of a book must fit in 64 bits; without such a
  limit it is false (\<open>fok_aggregate_wraps\<close>).
\<close>

theorem stack_refines_reference:
  assumes "me_init (ob_init AosStore h) n cfg = Some bs" and "me_init (\<lambda>s c. Some (rb_init s c)) n cfg = Some rs"
    and "cfg_max_orders cfg * unat (rc_max_qty rc) < 2 ^ 64"
  shows "\<exists>g' h' evs. run (rg_process (me_process (ob_process AosStore))) (rg_init bs n rc) cs = Some (g', evs) \<and>
    run (rg_process (me_process rb_machine)) (rg_init rs n rc) cs = Some (h', evs)"
proof -
  have "those xs = Some ys \<Longrightarrow> length ys = length xs" for xs :: "ReferenceBook option list" and ys
    by (induction xs arbitrary: ys) (auto split: option.splits)
  then have "length rs = n" using assms(2) by (fastforce simp: me_init_def)
  moreover have R: "list_all2 (aos.book_rel (unat (rc_max_qty rc))) bs rs" using aos_engine_init [OF assms(1,3)] assms(2) by simp
  ultimately have "gated (unat (rc_max_qty rc)) (rg_init bs n rc) (rg_init rs n rc)"
    using list_all2_lengthD [OF R] by (simp add: gated_def gate_rel_def rg_init_def)
  from gated_stack.run_sim [OF this] show ?thesis by blast
qed

theorem stack_refines_reference_witness:
  "\<exists>g' h' evs. run (rg_process (me_process (ob_process AosStore)))
      (rg_init (the (me_init (ob_init AosStore scatter_fingerprint) 2 cfg0)) 2 default_RiskConfig) wrap0 = Some (g', evs) \<and>
    run (rg_process (me_process rb_machine))
      (rg_init (the (me_init (\<lambda>s c. Some (rb_init s c)) 2 cfg0)) 2 default_RiskConfig) wrap0 = Some (h', evs)"
proof -
  obtain bs where bs: "me_init (ob_init AosStore scatter_fingerprint) 2 cfg0 = Some bs"
    using engine0 by blast
  obtain rs where rs: "me_init (\<lambda>s c. Some (rb_init s c)) 2 cfg0 = Some rs"
    by (simp add: me_init_def upt_rec)
  have "cfg_max_orders cfg0 * unat (rc_max_qty default_RiskConfig) < 2 ^ 64" by (simp add: cfg0_def default_RiskConfig_def)
  from stack_refines_reference [OF bs rs this, of wrap0] bs rs show ?thesis by simp
qed

text \<open>
  C20. Symbols do not interact: what the engine of ladder books reports for one symbol, among any
  interleaving of commands for all of them, is what a book of that symbol alone reports for its own
  commands.
\<close>

theorem symbols_are_independent:
  assumes "me_init (ob_init AosStore h) n cfg = Some bs" and "n \<le> 2 ^ 32" and "i < n"
    and "cfg_max_orders cfg * M < 2 ^ 64" and "\<forall>c \<in> set cs. unat (c_qty c) \<le> M"
  shows "\<exists>bs' b' evs. run (me_process (ob_process AosStore)) bs cs = Some (bs', evs) \<and>
    run (ob_process AosStore) (bs ! i) (filter (\<lambda>c. unat (c_symbol c) = i) cs) =
      Some (b', filter (\<lambda>e. unat (e_symbol e) = i) evs)"
proof -
  let ?rs = "map (\<lambda>i. rb_init (of_nat i) cfg) [0..<n]"
  have "those (map (\<lambda>i. Some (g i)) xs) = Some (map g xs)" for g :: "nat \<Rightarrow> ReferenceBook" and xs by (induction xs) auto
  then have rs: "me_init (\<lambda>s c. Some (rb_init s c)) n cfg = Some ?rs" by (simp add: me_init_def)
  have R: "list_all2 (aos.book_rel M) bs ?rs" using aos_engine_init [OF assms(1,4)] rs by simp
  obtain bs' rs' evs where e: "run (me_process (ob_process AosStore)) bs cs = Some (bs', evs)"
      "run (me_process rb_machine) ?rs cs = Some (rs', evs)"
    using aos_engine.run_sim [OF R assms(5)] by blast
  have "unat (of_nat i :: u32) = i" if "i < n" for i using that assms(2) by (simp add: unat_of_nat)
  then have "ref.placed ?rs" using assms(2) by (simp add: ref.placed_def rb_init_def)
  from ref.engine_projection [OF this _ e(2), of i] assms(3)
  have p: "run rb_machine (?rs ! i) (filter (\<lambda>c. unat (c_symbol c) = i) cs) =
      Some (rs' ! i, filter (\<lambda>e. unat (e_symbol e) = i) evs)" by simp
  have "aos.book_rel M (bs ! i) (?rs ! i)"
    using list_all2_nthD2 [OF R, of i] assms(3) by simp
  from aos_book.run_sim [OF this, of "filter (\<lambda>c. unat (c_symbol c) = i) cs"] assms(5) p e(1)
  show ?thesis by auto
qed

theorem symbols_are_independent_witness:
  "\<exists>bs' b' evs. run (me_process (ob_process AosStore)) (the (me_init (ob_init AosStore scatter_fingerprint) 2 cfg0)) asks0 = Some (bs', evs) \<and>
    run (ob_process AosStore) (the (me_init (ob_init AosStore scatter_fingerprint) 2 cfg0) ! 0) asks0 =
      Some (b', filter (\<lambda>e. unat (e_symbol e) = 0) evs)"
proof -
  obtain bs where bs: "me_init (ob_init AosStore scatter_fingerprint) 2 cfg0 = Some bs"
    using engine0 by blast
  have "\<forall>c \<in> set asks0. unat (c_qty c) \<le> 6" by (simp add: asks0_def limit_order_def)
  moreover have "filter (\<lambda>c. unat (c_symbol c) = 0) asks0 = asks0" by (simp add: asks0_def limit_order_def)
  ultimately show ?thesis using symbols_are_independent [OF bs, of 0 6 asks0] bs by (simp add: cfg0_def)
qed

text \<open>
  The limits of the gate in the order of the documentation, each with the condition that breaks it over exact integers: the notional is the product, which may not fit
  in 64 bits, and the collar is a distance.
\<close>

definition limits :: "'e RiskGate \<Rightarrow> Command \<Rightarrow> (Reason \<times> bool) list" where
  "limits g c =
    (let cfg = rg_cfg g; s = unat (c_symbol c); px = rg_last_px g ! s in
     [(RiskHalted, rg_halt_all g \<or> rg_halted g ! s),
      (RiskMaxQty, unat (c_qty c) > unat (rc_max_qty cfg)),
      (RiskMaxNotional, priced c \<and> rc_max_notional cfg \<noteq> 0 \<and> max 0 (c_price c) * uint (c_qty c) > uint (rc_max_notional cfg)),
      (RiskCollar, priced c \<and> rc_collar_ticks cfg \<noteq> 0 \<and> px \<noteq> 0 \<and> \<bar>c_price c - px\<bar> > rc_collar_ticks cfg),
      (UnknownOwner, unat (c_owner c) \<ge> unat (rc_max_owners cfg)),
      (RiskRateLimit, rg_interval g \<noteq> 0 \<and> rate_step (rg_interval g) (rate_slack g) (rg_tat g ! unat (c_owner c)) (c_ts c) = None)])"

definition first_violation :: "'e RiskGate \<Rightarrow> Command \<Rightarrow> Reason" where
  "first_violation g c =
    (if unat (c_symbol c) \<ge> length (rg_last_px g) then RNone
     else case find snd (limits g c) of None \<Rightarrow> RNone | Some (r, _) \<Rightarrow> r)"

lemma over_notional_exact:
  "over_notional cfg c \<longleftrightarrow> priced c \<and> rc_max_notional cfg \<noteq> 0 \<and> max 0 (c_price c) * uint (c_qty c) > uint (rc_max_notional cfg)"
proof -
  have clamp: "(if p < 0 then 0 else p) = max 0 p" for p :: int by simp
  show ?thesis
    using notional_exact [of "c_qty c" "max 0 (c_price c)" "rc_max_notional cfg"]
    by (cases "c_qty c = 0") (simp_all add: over_notional_def clamp not_le)
qed

text \<open>
  C21. The gate answers a new order or a modification with the first of its limits that the command breaks, in the order halted, quantity, notional, collar, owner,
  rate: one rejection with that reason, the engine untouched. A command that breaks none, or whose symbol the gate does not know, it passes on: the engine's state and
  events are those of the engine given the command. The distance to the last trade is assumed to fit in 64 signed bits.
\<close>

theorem gate_decides_exactly:
  assumes "c_type c \<noteq> Cancel" and "unat (c_symbol c) < length (rg_last_px g) \<Longrightarrow> collar_in_range (rg_last_px g ! unat (c_symbol c)) c"
  shows "(first_violation g c \<noteq> RNone \<longrightarrow>
      rg_process engine c g = Some (g\<lparr>rg_rejected := rg_rejected g + 1\<rparr>, [rejected_event c (first_violation g c)])) \<and>
    (first_violation g c = RNone \<longrightarrow> map_option (\<lambda>(g', evs). (rg_engine g', evs)) (rg_process engine c g) = engine c (rg_engine g))"
proof -
  have t: "c_type c = NewOrder \<or> c_type c = Modify" using assms(1) by (cases "c_type c") auto
  have v: "fst (rg_check g c) = first_violation g c"
  proof (cases "unat (c_symbol c) \<ge> length (rg_last_px g)")
    case True
    then show ?thesis by (simp add: rg_check_def first_violation_def)
  next
    case False
    then have col: "outside_collar (rg_cfg g) (rg_last_px g ! unat (c_symbol c)) c \<longleftrightarrow> priced c \<and> rc_collar_ticks (rg_cfg g) \<noteq> 0 \<and>
        rg_last_px g ! unat (c_symbol c) \<noteq> 0 \<and> \<bar>c_price c - rg_last_px g ! unat (c_symbol c)\<bar> > rc_collar_ticks (rg_cfg g)"
      using outside_collar_exact assms(2) by simp
    show ?thesis using False t
      by (simp add: rg_check_def first_violation_def limits_def Let_def over_notional_exact [symmetric] col [symmetric] word_less_nat_alt word_le_nat_alt
          split: option.splits)
  qed
  obtain r g1 where ck: "rg_check g c = (r, g1)" by (rule prod.exhaust)
  have r: "r = first_violation g c" using v ck by simp
  have e: "rg_engine g1 = rg_engine g" "r \<noteq> RNone \<Longrightarrow> g1 = g" using rg_check_frame(4,9) [OF ck] by simp_all
  show ?thesis
  proof (cases "r = RNone")
    case True
    then show ?thesis using assms(1) ck e r by (cases "engine c (rg_engine g)") (auto simp: rg_process_def)
  next
    case False
    then show ?thesis using assms(1) ck e(2) r by (simp add: rg_process_def)
  qed
qed

text \<open>An order over both the notional and the quantity limit is rejected for its quantity; within the quantity limit, for its notional.\<close>

theorem gate_decides_exactly_witness:
  "rg_process rb_machine (limit_order 1 Buy 0x7000000000000000 16 Day 3 0)
     ((rg_init (rb_init 0 cfg0) 1 risk0)) =
   Some ((rg_init (rb_init 0 cfg0) 1 risk0)\<lparr>rg_rejected := 1\<rparr>,
     [rejected_event (limit_order 1 Buy 0x7000000000000000 16 Day 3 0) RiskMaxNotional])"
proof -
  let ?c = "limit_order 1 Buy 0x7000000000000000 16 Day 3 0" and ?g = "rg_init (rb_init 0 cfg0) 1 risk0"
  have t: "c_type ?c \<noteq> Cancel" and d: "collar_in_range (rg_last_px ?g ! unat (c_symbol ?c)) ?c"
    by (simp_all add: limit_order_def collar_in_range_def rg_init_def)
  have "first_violation ?g ?c = RiskMaxNotional" by code_simp
  with gate_decides_exactly [OF t d, of rb_machine] show ?thesis by (simp add: rg_init_def)
qed

text \<open>Out of that range the collar lets pass what it is there to stop: the lowest price of all, after a trade at 1.\<close>

lemma collar_wraps:
  "\<not> outside_collar (risk0\<lparr>rc_collar_ticks := 10\<rparr>) 1 (limit_order 1 Sell (1 - 2 ^ 63) 1 Day 3 0)"
  by code_simp



text \<open>
  C23. Risk never traps a participant and never invents a price: a cancel always reaches the engine
  unchecked, halted or not, and in every state the collar is measured from the price of the last trade
  the engine reported for that symbol (zero before the first).
\<close>

theorem cancels_pass_and_collar_tracks_trades:
  assumes "run (rg_process engine) (rg_init e n rc) cs = Some (g, evs)" and "i < n" and "c_type c = Cancel"
  shows "rg_last_px g ! i = last_trade i evs \<and>
    map_option snd (rg_process engine c g) = map_option snd (engine c (rg_engine g)) \<and>
    map_option (rg_engine \<circ> fst) (rg_process engine c g) = map_option fst (engine c (rg_engine g))"
proof -
  have "rg_last_px g ! i = last_trade i evs"
    using gate_last_px [OF assms(1), of i] assms(2) by (simp add: rg_init_def last_trade_def)
  moreover have "map_option snd (rg_process engine c g) = map_option snd (engine c (rg_engine g))"
    "map_option (rg_engine \<circ> fst) (rg_process engine c g) = map_option fst (engine c (rg_engine g))"
    using assms(3) by (cases "engine c (rg_engine g)"; auto simp: rg_process_def)+
  ultimately show ?thesis by blast
qed

theorem cancels_pass_and_collar_tracks_trades_witness:
  "\<exists>g evs. run (rg_process rb_machine) (rg_init (rb_init 0 cfg0) 1 risk0) (asks0 @ [limit_order 9 Buy 111 10 Day 1 0]) = Some (g, evs) \<and>
     rg_last_px g ! 0 = 111 \<and>
     map_option snd (rg_process rb_machine ((limit_order 2 Sell 0 0 Day 0 0)\<lparr>c_type := Cancel\<rparr>) g) =
       map_option snd (rb_machine ((limit_order 2 Sell 0 0 Day 0 0)\<lparr>c_type := Cancel\<rparr>) (rg_engine g))"
proof -
  let ?r = "run (rg_process rb_machine) (rg_init (rb_init 0 cfg0) 1 risk0) (asks0 @ [limit_order 9 Buy 111 10 Day 1 0])"
  have "map_option (\<lambda>r. last_trade 0 (snd r)) ?r = Some 111" by code_simp
  then obtain g evs where r: "?r = Some (g, evs)" "last_trade 0 evs = 111" by auto
  have "c_type ((limit_order 2 Sell 0 0 Day 0 0)\<lparr>c_type := Cancel\<rparr>) = Cancel" by simp
  from cancels_pass_and_collar_tracks_trades [OF r(1) _ this, of 0] r show ?thesis by (simp add: limit_order_def)
qed

end
