(* ===== verification/Bytes.thy ===== *)
theory Bytes
  imports Common
begin

text \<open>
  Little-endian byte images of the packed structs that the wire format, the journal and the feeds
  \<^verbatim>\<open>memcpy\<close>: leaf codecs for unsigned and signed integers, reads at an offset, and the interface of a
  fixed-size struct codec as a locale.
\<close>

type_synonym bytes = "u8 list"

section \<open>Integers\<close>

text \<open>The \<open>n\<close> low bytes of a word, least significant first, and back.\<close>

definition put_le :: "nat \<Rightarrow> 'a::len word \<Rightarrow> bytes" where
  "put_le n w = map (\<lambda>i. ucast (drop_bit (8 * i) w)) [0..<n]"

primrec get_le :: "bytes \<Rightarrow> 'a::len word" where
  "get_le [] = 0"
| "get_le (b # bs) = ucast b OR push_bit 8 (get_le bs)"

text \<open>The field of \<open>n\<close> bytes at offset \<open>off\<close> of a buffer.\<close>

definition le_at :: "nat \<Rightarrow> nat \<Rightarrow> bytes \<Rightarrow> 'a::len word" where
  "le_at off n bs = get_le (take n (drop off bs))"

definition byte_at :: "nat \<Rightarrow> bytes \<Rightarrow> u8" where
  "byte_at off bs = (if off < length bs then bs ! off else 0)"

text \<open>A \<^verbatim>\<open>std::int64_t\<close> is stored in two's complement.\<close>

definition put_i64 :: "int \<Rightarrow> bytes" where
  "put_i64 p = put_le 8 (word_of_int p :: u64)"

definition i64_at :: "nat \<Rightarrow> bytes \<Rightarrow> int" where
  "i64_at off bs = sint (le_at off 8 bs :: u64)"

section \<open>Facts\<close>

lemma length_put_le [simp]: "length (put_le n w) = n"
  by (simp add: put_le_def)

lemma length_put_i64 [simp]: "length (put_i64 p) = 8"
  by (simp add: put_i64_def)

lemma put_le_Suc: "put_le (Suc n) w = ucast w # put_le n (drop_bit 8 w)"
  by (simp add: put_le_def upt_conv_Cons map_Suc_upt [symmetric] drop_bit_drop_bit ac_simps del: upt_Suc)

lemma bit_get_le:
  "bit (get_le bs :: 'a::len word) i \<longleftrightarrow> i < LENGTH('a) \<and> i div 8 < length bs \<and> bit (bs ! (i div 8)) (i mod 8)"
proof (induction bs arbitrary: i)
  case (Cons b bs)
  show ?case
  proof (cases "i < 8")
    case True
    then show ?thesis by (auto simp: bit_simps)
  next
    case False
    then have i: "i div 8 = Suc ((i - 8) div 8)" "i mod 8 = (i - 8) mod 8"
      by (simp_all add: div_if le_mod_geq)
    from False have "\<not> bit (b :: u8) i" using bit_imp_le_length [of b i] by auto
    then show ?thesis using False Cons.IH [of "i - 8"] by (auto simp: bit_simps i)
  qed
qed simp

lemma bit_put_le: "k < n \<Longrightarrow> bit (put_le n w ! k) j \<longleftrightarrow> j < 8 \<and> bit w (8 * k + j)"
  by (auto simp: put_le_def bit_simps)

lemma get_put_le:
  assumes "LENGTH('a) \<le> 8 * n"
  shows "get_le (put_le n (w :: 'a::len word)) = w"
proof (rule bit_word_eqI)
  fix i assume "i < LENGTH('a)"
  with assms show "bit (get_le (put_le n w) :: 'a word) i = bit w i"
    by (auto simp: bit_get_le bit_put_le less_mult_imp_div_less mult.commute)
qed

lemma put_get_le:
  assumes "8 * length bs \<le> LENGTH('a)"
  shows "put_le (length bs) (get_le bs :: 'a::len word) = bs"
proof (rule nth_equalityI)
  fix k assume "k < length (put_le (length bs) (get_le bs :: 'a word))"
  then have k: "k < length bs" by simp
  show "put_le (length bs) (get_le bs :: 'a word) ! k = bs ! k"
  proof (rule bit_word_eqI)
    fix j assume "j < LENGTH(8)"
    then have j: "j < 8" by simp
    then have "8 * k + j < LENGTH('a)" using k assms by linarith
    with j k show "bit (put_le (length bs) (get_le bs :: 'a word) ! k) j = bit (bs ! k) j"
      by (simp add: bit_put_le bit_get_le)
  qed
qed simp

text \<open>Instances at the widths of the structs; the right-hand sides of a read after a write.\<close>

lemma le_at_put [simp]:
  "le_at 0 2 (put_le 2 (v :: u16) @ bs) = v"
  "le_at 0 4 (put_le 4 (w :: u32) @ bs) = w"
  "le_at 0 8 (put_le 8 (x :: u64) @ bs) = x"
  "le_at 0 1 (put_le 1 (y :: u8) @ bs) = y"
  by (simp_all add: le_at_def get_put_le)

lemma le_at_skip: "length as \<le> off \<Longrightarrow> le_at off n (as @ bs) = le_at (off - length as) n bs"
  by (simp add: le_at_def)

lemma le_at_skip_put [simp]: "k \<le> off \<Longrightarrow> le_at off n (put_le k w @ bs) = le_at (off - k) n bs"
  by (simp add: le_at_skip)

lemma le_at_skip_i64 [simp]: "8 \<le> off \<Longrightarrow> le_at off n (put_i64 p @ bs) = le_at (off - 8) n bs"
  by (simp add: le_at_skip)

lemma le_at_skip_Cons [simp]: "0 < off \<Longrightarrow> le_at off n (b # bs) = le_at (off - 1) n bs"
  by (cases off) (simp_all add: le_at_def)

lemma byte_at_skip [simp]:
  "k \<le> off \<Longrightarrow> byte_at off (put_le k w @ bs) = byte_at (off - k) bs"
  "8 \<le> off \<Longrightarrow> byte_at off (put_i64 p @ bs) = byte_at (off - 8) bs"
  "0 < off \<Longrightarrow> byte_at off (b # bs) = byte_at (off - 1) bs"
  "byte_at 0 (b # bs) = b"
  by (auto simp: byte_at_def nth_append)

lemma i64_at_skip [simp]:
  "k \<le> off \<Longrightarrow> i64_at off (put_le k w @ bs) = i64_at (off - k) bs"
  "8 \<le> off \<Longrightarrow> i64_at off (put_i64 p @ bs) = i64_at (off - 8) bs"
  "0 < off \<Longrightarrow> i64_at off (b # bs) = i64_at (off - 1) bs"
  by (simp_all add: i64_at_def)

lemma sint_word_of_i64: "i64_range p \<Longrightarrow> sint (word_of_int p :: u64) = p"
  by (simp add: i64_range_def sint_sbintrunc' signed_take_bit_int_eq_self)

lemma i64_at_put [simp]: "i64_range p \<Longrightarrow> i64_at 0 (put_i64 p @ bs) = p"
  by (simp add: i64_at_def put_i64_def sint_word_of_i64)

lemma i64_range_sint: "i64_range (sint (w :: u64))"
  using sint_range_size [of w] by (simp add: i64_range_def word_size)

lemma i64_at_range [simp]: "i64_range (i64_at off bs)"
  by (simp add: i64_at_def i64_range_sint)

text \<open>A write of what was read gives the bytes back.\<close>

lemma put_le_at:
  assumes "off + n \<le> length bs" and "8 * n \<le> LENGTH('a)"
  shows "put_le n (le_at off n bs :: 'a::len word) = take n (drop off bs)"
  using put_get_le [where 'a = 'a, of "take n (drop off bs)"] assms by (simp add: le_at_def)

lemma put_i64_at: "off + 8 \<le> length bs \<Longrightarrow> put_i64 (i64_at off bs) = take 8 (drop off bs)"
  by (simp add: put_i64_def i64_at_def put_le_at)

text \<open>Adjacent reads join; used from the right end of a struct to its front.\<close>

lemma join_reads:
  "k = off + m \<Longrightarrow> take m (drop off bs) @ take n (drop k bs) = take (m + n) (drop off bs)"
  "off < length bs \<Longrightarrow> k = Suc off \<Longrightarrow> byte_at off bs # take n (drop k bs) = take (Suc n) (drop off bs)"
  "off < length bs \<Longrightarrow> [byte_at off bs] = take 1 (drop off bs)"
  "take m bs @ take n (drop m bs) = take (m + n) bs"
  by (simp_all add: take_add add.commute byte_at_def Cons_nth_drop_Suc [symmetric] take_Suc_conv_app_nth)

lemmas struct_simps = put_le_at put_i64_at join_reads

section \<open>Fixed-size structs\<close>

text \<open>
  The interface of a packed struct: \<open>put\<close> writes its image of \<open>w\<close> bytes, \<open>get\<close> reads it from the front
  of a buffer, \<open>ok\<close> holds of the values the machine types can carry.
\<close>

locale struct_codec =
  fixes w :: nat and ok :: "'a \<Rightarrow> bool" and put :: "'a \<Rightarrow> bytes" and get :: "bytes \<Rightarrow> 'a"
  assumes length_put [simp]: "length (put x) = w"
    and get_put [simp]: "ok x \<Longrightarrow> get (put x @ bs) = x"
    and get_ok: "ok (get bs)"
    and put_get: "w \<le> length bs \<Longrightarrow> put (get bs) = take w bs"
begin

lemma get_put_exact: "ok x \<Longrightarrow> get (put x) = x"
  using get_put [of x "[]"] by simp

lemma put_inject: "ok x \<Longrightarrow> ok y \<Longrightarrow> put x @ as = put y @ bs \<Longrightarrow> x = y \<and> as = bs"
  by (metis append_eq_append_conv get_put length_put)

lemma get_take: "w \<le> length bs \<Longrightarrow> get (take w bs) = get bs"
  by (metis get_put_exact put_get get_ok)

lemma get_append: "w \<le> length as \<Longrightarrow> get (as @ bs) = get as"
  using get_take [of "as @ bs"] get_take [of as] by simp

lemma skip [simp]:
  "w \<le> off \<Longrightarrow> le_at off n (put x @ bs) = le_at (off - w) n bs"
  "w \<le> off \<Longrightarrow> byte_at off (put x @ bs) = byte_at (off - w) bs"
  "w \<le> off \<Longrightarrow> i64_at off (put x @ bs) = i64_at (off - w) bs"
  by (auto simp: le_at_skip i64_at_def byte_at_def nth_append)

lemma split_buffer: "w \<le> length bs \<Longrightarrow> bs = put (get bs) @ drop w bs"
  by (simp add: put_get)

end

end
