(* ===== verification/Protocol.thy ===== *)
theory Protocol
  imports Bytes
begin

text \<open>
  \<^verbatim>\<open>include/exsim/protocol.hpp\<close> and \<^verbatim>\<open>include/exsim/wire_file.hpp\<close>: the order-entry wire format, its codec,
  the execution reports, and captures of concatenated messages. The structs are packed, so each is a
  record with its byte image; the codecs of all of them are interpretations of one interface.
\<close>

section \<open>Structs\<close>

definition kVersion :: u8 where "kVersion = 1"

record Header =
  h_length :: u16
  h_type :: u8
  h_version :: u8
  h_symbol :: u32
  h_seq :: u64

record WNewOrder =
  n_hdr :: Header
  n_order_id :: u64
  n_price :: int
  n_qty :: u64
  n_owner :: u32
  n_side :: u8
  n_ord_type :: u8
  n_tif :: u8
  n_flags :: u8

record WCancel =
  x_hdr :: Header
  x_order_id :: u64

record WModify =
  m_hdr :: Header
  m_order_id :: u64
  m_price :: int
  m_qty :: u64

record ExecReport =
  r_hdr :: Header
  r_order_id :: u64
  r_maker_id :: u64
  r_price :: int
  r_qty :: u64
  r_leaves :: u64
  r_event_type :: u8
  r_reason :: u8
  r_side :: u8
  r_request :: u8
  r_reserved :: u32

definition put_Header :: "Header \<Rightarrow> bytes" where
  "put_Header h = put_le 2 (h_length h) @ h_type h # h_version h # put_le 4 (h_symbol h) @ put_le 8 (h_seq h)"

definition get_Header :: "bytes \<Rightarrow> Header" where
  "get_Header p = \<lparr>h_length = le_at 0 2 p, h_type = byte_at 2 p, h_version = byte_at 3 p,
     h_symbol = le_at 4 4 p, h_seq = le_at 8 8 p\<rparr>"

definition put_NewOrder :: "WNewOrder \<Rightarrow> bytes" where
  "put_NewOrder m = put_Header (n_hdr m) @ put_le 8 (n_order_id m) @ put_i64 (n_price m) @ put_le 8 (n_qty m) @
     put_le 4 (n_owner m) @ [n_side m, n_ord_type m, n_tif m, n_flags m]"

definition get_NewOrder :: "bytes \<Rightarrow> WNewOrder" where
  "get_NewOrder p = \<lparr>n_hdr = get_Header p, n_order_id = le_at 16 8 p, n_price = i64_at 24 p, n_qty = le_at 32 8 p,
     n_owner = le_at 40 4 p, n_side = byte_at 44 p, n_ord_type = byte_at 45 p, n_tif = byte_at 46 p,
     n_flags = byte_at 47 p\<rparr>"

definition put_Cancel :: "WCancel \<Rightarrow> bytes" where
  "put_Cancel m = put_Header (x_hdr m) @ put_le 8 (x_order_id m)"

definition get_Cancel :: "bytes \<Rightarrow> WCancel" where
  "get_Cancel p = \<lparr>x_hdr = get_Header p, x_order_id = le_at 16 8 p\<rparr>"

definition put_Modify :: "WModify \<Rightarrow> bytes" where
  "put_Modify m = put_Header (m_hdr m) @ put_le 8 (m_order_id m) @ put_i64 (m_price m) @ put_le 8 (m_qty m)"

definition get_Modify :: "bytes \<Rightarrow> WModify" where
  "get_Modify p = \<lparr>m_hdr = get_Header p, m_order_id = le_at 16 8 p, m_price = i64_at 24 p, m_qty = le_at 32 8 p\<rparr>"

definition put_ExecReport :: "ExecReport \<Rightarrow> bytes" where
  "put_ExecReport r = put_Header (r_hdr r) @ put_le 8 (r_order_id r) @ put_le 8 (r_maker_id r) @ put_i64 (r_price r) @
     put_le 8 (r_qty r) @ put_le 8 (r_leaves r) @ r_event_type r # r_reason r # r_side r # r_request r #
     put_le 4 (r_reserved r)"

definition get_ExecReport :: "bytes \<Rightarrow> ExecReport" where
  "get_ExecReport p = \<lparr>r_hdr = get_Header p, r_order_id = le_at 16 8 p, r_maker_id = le_at 24 8 p,
     r_price = i64_at 32 p, r_qty = le_at 40 8 p, r_leaves = le_at 48 8 p, r_event_type = byte_at 56 p,
     r_reason = byte_at 57 p, r_side = byte_at 58 p, r_request = byte_at 59 p, r_reserved = le_at 60 4 p\<rparr>"

text \<open>The sizes the source asserts.\<close>

definition sizeof_Header :: nat where "sizeof_Header = 16"
definition sizeof_NewOrder :: nat where "sizeof_NewOrder = 48"
definition sizeof_Cancel :: nat where "sizeof_Cancel = 24"
definition sizeof_Modify :: nat where "sizeof_Modify = 40"
definition kMaxMessageSize :: nat where "kMaxMessageSize = sizeof_NewOrder"
definition kReportSize :: nat where "kReportSize = 64"
definition kReportType :: u8 where "kReportType = 0x10"
definition kReportDone :: u8 where "kReportDone = 0xFF"

lemmas size_defs = sizeof_Header_def sizeof_NewOrder_def sizeof_Cancel_def sizeof_Modify_def
  kMaxMessageSize_def kReportSize_def

section \<open>Enumerators on the wire\<close>

fun side_code :: "Side \<Rightarrow> u8" where
  "side_code Buy = 0" | "side_code Sell = 1"

fun ord_type_code :: "OrdType \<Rightarrow> u8" where
  "ord_type_code Limit = 0" | "ord_type_code Market = 1"

fun tif_code :: "Tif \<Rightarrow> u8" where
  "tif_code Day = 0" | "tif_code Ioc = 1" | "tif_code Fok = 2"

fun msg_code :: "MsgType \<Rightarrow> u8" where
  "msg_code NewOrder = 1" | "msg_code Cancel = 2" | "msg_code Modify = 3"

fun event_code :: "EventType \<Rightarrow> u8" where
  "event_code Accepted = 1" | "event_code Rejected = 2" | "event_code Trade = 3" | "event_code Canceled = 4"
| "event_code Modified = 5"

fun reason_code :: "Reason \<Rightarrow> u8" where
  "reason_code RNone = 0" | "reason_code InvalidOrderId = 1" | "reason_code InvalidQty = 2"
| "reason_code InvalidPrice = 3" | "reason_code DuplicateOrderId = 4" | "reason_code UnknownOrder = 5"
| "reason_code UnknownSymbol = 6" | "reason_code WouldCross = 7" | "reason_code BookFull = 8"
| "reason_code UserCanceled = 9" | "reason_code IocExpired = 10" | "reason_code FokUnfilled = 11"
| "reason_code SelfTrade = 12" | "reason_code RiskMaxQty = 13" | "reason_code RiskMaxNotional = 14"
| "reason_code RiskCollar = 15" | "reason_code RiskRateLimit = 16" | "reason_code RiskHalted = 17"
| "reason_code UnknownOwner = 18"

definition all_reasons :: "Reason list" where
  "all_reasons = [RNone, InvalidOrderId, InvalidQty, InvalidPrice, DuplicateOrderId, UnknownOrder, UnknownSymbol,
     WouldCross, BookFull, UserCanceled, IocExpired, FokUnfilled, SelfTrade, RiskMaxQty, RiskMaxNotional,
     RiskCollar, RiskRateLimit, RiskHalted, UnknownOwner]"

text \<open>
  \<^verbatim>\<open>static_cast\<close> of a byte to an enumeration, the inverse of a code among its enumerators. In C++ a byte
  outside the enumerators is kept as a nameless value; here it is \<open>None\<close>.
\<close>

definition of_code :: "('e \<Rightarrow> u8) \<Rightarrow> 'e list \<Rightarrow> u8 \<Rightarrow> 'e option" where
  "of_code code es v = find (\<lambda>e. code e = v) es"

definition request_code :: "MsgType option \<Rightarrow> u8" where
  "request_code r = (case r of None \<Rightarrow> 0 | Some t \<Rightarrow> msg_code t)"

definition request_of :: "u8 \<Rightarrow> MsgType option option" where
  "request_of v = (if v = 0 then Some None else map_option Some (of_code msg_code [NewOrder, Cancel, Modify] v))"

section \<open>Order entry\<close>

datatype DecodeStatus = DOk | Incomplete | Malformed

record DecodeResult =
  d_status :: DecodeStatus
  d_consumed :: nat

text \<open>A value-initialised command, of the type the decoder then stores.\<close>

definition zero_command :: "MsgType \<Rightarrow> Command" where
  "zero_command t = \<lparr>c_order_id = 0, c_price = 0, c_seq = 0, c_ts = 0, c_qty = 0, c_owner = 0, c_symbol = 0,
     c_type = t, c_side = Buy, c_ord_type = Limit, c_tif = Day, c_flags = 0\<rparr>"

text \<open>The casts of validated bytes.\<close>

definition side_of :: "u8 \<Rightarrow> Side" where
  "side_of v = (if v = 0 then Buy else Sell)"

definition ord_type_of :: "u8 \<Rightarrow> OrdType" where
  "ord_type_of v = (if v = 0 then Limit else Market)"

definition tif_of :: "u8 \<Rightarrow> Tif" where
  "tif_of v = (if v = 0 then Day else if v = 1 then Ioc else Fok)"

text \<open>The switch over the message type, once the header is accepted; \<open>None\<close> is \<^verbatim>\<open>return bad\<close>.\<close>

definition decode_body :: "Header \<Rightarrow> bytes \<Rightarrow> Command option" where
  "decode_body h p =
    (let len = unat (h_length h); out = (\<lambda>t. (zero_command t)\<lparr>c_seq := h_seq h, c_symbol := h_symbol h\<rparr>) in
     if h_type h = msg_code NewOrder then
       (if len \<noteq> sizeof_NewOrder then None
        else
         (let m = get_NewOrder p in
          if n_side m > 1 \<or> n_ord_type m > 1 \<or> n_tif m > 2 then None
          else
            Some ((out NewOrder)\<lparr>c_order_id := n_order_id m, c_price := n_price m, c_qty := n_qty m,
              c_owner := n_owner m, c_side := side_of (n_side m), c_ord_type := ord_type_of (n_ord_type m),
              c_tif := tif_of (n_tif m), c_flags := n_flags m\<rparr>)))
     else if h_type h = msg_code Cancel then
       (if len \<noteq> sizeof_Cancel then None
        else Some ((out Cancel)\<lparr>c_order_id := x_order_id (get_Cancel p)\<rparr>))
     else if h_type h = msg_code Modify then
       (if len \<noteq> sizeof_Modify then None
        else
         (let m = get_Modify p in
          Some ((out Modify)\<lparr>c_order_id := m_order_id m, c_price := m_price m, c_qty := m_qty m\<rparr>)))
     else None)"

text \<open>
  The output parameter is meaningful on \<open>DOk\<close> only, no caller reads it otherwise: it is \<open>Some\<close> exactly
  then. The number of available bytes is the length of the buffer.
\<close>

definition decode :: "bytes \<Rightarrow> DecodeResult \<times> Command option" where
  "decode p =
    (if length p < sizeof_Header then (\<lparr>d_status = Incomplete, d_consumed = 0\<rparr>, None)
     else
      (let h = get_Header p; len = unat (h_length h) in
       if len < sizeof_Header then (\<lparr>d_status = Malformed, d_consumed = 0\<rparr>, None)
       else if length p < len then (\<lparr>d_status = Incomplete, d_consumed = 0\<rparr>, None)
       else if h_version h \<noteq> kVersion then (\<lparr>d_status = Malformed, d_consumed = len\<rparr>, None)
       else
        (case decode_body h p of
           None \<Rightarrow> (\<lparr>d_status = Malformed, d_consumed = len\<rparr>, None)
         | Some c \<Rightarrow> (\<lparr>d_status = DOk, d_consumed = len\<rparr>, Some c))))"

definition encode_header :: "Command \<Rightarrow> nat \<Rightarrow> Header" where
  "encode_header c len = \<lparr>h_length = of_nat len, h_type = msg_code (c_type c), h_version = kVersion,
     h_symbol = c_symbol c, h_seq = c_seq c\<rparr>"

definition encode :: "Command \<Rightarrow> bytes" where
  "encode c =
    (case c_type c of
       NewOrder \<Rightarrow>
         put_NewOrder \<lparr>n_hdr = encode_header c sizeof_NewOrder, n_order_id = c_order_id c, n_price = c_price c,
           n_qty = c_qty c, n_owner = c_owner c, n_side = side_code (c_side c),
           n_ord_type = ord_type_code (c_ord_type c), n_tif = tif_code (c_tif c), n_flags = c_flags c\<rparr>
     | Cancel \<Rightarrow>
         put_Cancel \<lparr>x_hdr = encode_header c sizeof_Cancel, x_order_id = c_order_id c\<rparr>
     | Modify \<Rightarrow>
         put_Modify \<lparr>m_hdr = encode_header c sizeof_Modify, m_order_id = c_order_id c, m_price = c_price c,
           m_qty = c_qty c\<rparr>)"

section \<open>Execution reports\<close>

definition report_header :: "SymbolId \<Rightarrow> u64 \<Rightarrow> Header" where
  "report_header sm client_seq = \<lparr>h_length = of_nat kReportSize, h_type = kReportType, h_version = kVersion,
     h_symbol = sm, h_seq = client_seq\<rparr>"

definition encode_report :: "Event \<Rightarrow> u64 \<Rightarrow> bytes" where
  "encode_report e client_seq =
     put_ExecReport \<lparr>r_hdr = report_header (e_symbol e) client_seq, r_order_id = e_order_id e,
       r_maker_id = e_maker_id e, r_price = e_price e, r_qty = e_qty e, r_leaves = e_leaves e,
       r_event_type = event_code (e_type e), r_reason = reason_code (e_reason e), r_side = side_code (e_side e),
       r_request = request_code (e_request e), r_reserved = 0\<rparr>"

definition encode_done :: "SymbolId \<Rightarrow> u64 \<Rightarrow> bytes" where
  "encode_done sm client_seq =
     put_ExecReport \<lparr>r_hdr = report_header sm client_seq, r_order_id = 0, r_maker_id = 0, r_price = 0, r_qty = 0,
       r_leaves = 0, r_event_type = kReportDone, r_reason = 0, r_side = 0, r_request = 0, r_reserved = 0\<rparr>"

text \<open>
  \<open>None\<close> is the result false. Otherwise the event, or \<open>Some None\<close> when a byte is outside its enumeration
  (the C++ event then has a field that is no enumerator, which no report of the gateway produces).
\<close>

definition report_to_event :: "ExecReport \<Rightarrow> Event option option" where
  "report_to_event r =
    (if r_event_type r = kReportDone then None
     else Some
      (do { t \<leftarrow> of_code event_code [Accepted, Rejected, Trade, Canceled, Modified] (r_event_type r);
            rs \<leftarrow> of_code reason_code all_reasons (r_reason r);
            sd \<leftarrow> of_code side_code [Buy, Sell] (r_side r);
            rq \<leftarrow> request_of (r_request r);
            Some \<lparr>e_order_id = r_order_id r, e_maker_id = r_maker_id r, e_price = r_price r, e_qty = r_qty r,
                  e_leaves = r_leaves r, e_symbol = h_symbol (r_hdr r), e_type = t, e_reason = rs, e_side = sd,
                  e_request = rq\<rparr> }))"

section \<open>Captures\<close>

definition encode_stream :: "Command list \<Rightarrow> bytes" where
  "encode_stream cmds = concat (map encode cmds)"

record DecodeStats =
  ds_ok :: u64
  ds_malformed :: u64
  ds_truncated :: bool

lemma decode_consumed:
  "d_consumed (fst (decode p)) \<le> length p"
  "d_status (fst (decode p)) = DOk \<Longrightarrow> 0 < d_consumed (fst (decode p))"
  by (auto simp: decode_def Let_def size_defs split: if_splits option.splits)

text \<open>The loop of \<^verbatim>\<open>decode_stream\<close> on the bytes from the current offset on.\<close>

function decode_loop :: "bytes \<Rightarrow> Command list \<times> DecodeStats \<Rightarrow> Command list \<times> DecodeStats" where
  "decode_loop p (out, st) =
    (if p = [] then (out, st)
     else
      (case decode p of (r, c) \<Rightarrow>
        if d_status r = DOk then
          decode_loop (drop (d_consumed r) p) (out @ [the c], st\<lparr>ds_ok := ds_ok st + 1\<rparr>)
        else if d_status r = Malformed \<and> d_consumed r \<noteq> 0 then
          decode_loop (drop (d_consumed r) p) (out, st\<lparr>ds_malformed := ds_malformed st + 1\<rparr>)
        else (out, st\<lparr>ds_truncated := True\<rparr>)))"
  by pat_completeness auto
termination
proof (relation "measure (length \<circ> fst)")
  fix p :: bytes and out :: "Command list" and st r c
  assume p: "p \<noteq> []" and d: "(r, c) = decode p" and ok: "d_status r = DOk"
  have "0 < d_consumed r" using decode_consumed(2) [of p] ok by (simp flip: d)
  with p show "((drop (d_consumed r) p, out @ [the c], st\<lparr>ds_ok := ds_ok st + 1\<rparr>), p, out, st)
      \<in> measure (length \<circ> fst)"
    by simp
qed auto

definition decode_stream :: "bytes \<Rightarrow> Command list \<times> DecodeStats" where
  "decode_stream buf = decode_loop buf ([], \<lparr>ds_ok = 0, ds_malformed = 0, ds_truncated = False\<rparr>)"

declare decode_loop.simps [simp del]
declare decode_loop.simps [code]

section \<open>The structs are codecs\<close>

interpretation hdr: struct_codec 16 "\<lambda>_. True" put_Header get_Header
  by unfold_locales (simp_all add: put_Header_def get_Header_def struct_simps)

interpretation new: struct_codec 48 "\<lambda>m. i64_range (n_price m)" put_NewOrder get_NewOrder
  by unfold_locales (simp_all add: put_NewOrder_def get_NewOrder_def hdr.put_get struct_simps)

interpretation cxl: struct_codec 24 "\<lambda>_. True" put_Cancel get_Cancel
  by unfold_locales (simp_all add: put_Cancel_def get_Cancel_def hdr.put_get struct_simps)

interpretation mdf: struct_codec 40 "\<lambda>m. i64_range (m_price m)" put_Modify get_Modify
  by unfold_locales (simp_all add: put_Modify_def get_Modify_def hdr.put_get struct_simps)

interpretation rpt: struct_codec 64 "\<lambda>r. i64_range (r_price r)" put_ExecReport get_ExecReport
  by unfold_locales (simp_all add: put_ExecReport_def get_ExecReport_def hdr.put_get struct_simps)

end
