(* ===== verification/Wire_Properties.thy ===== *)
theory Wire_Properties
  imports Protocol
begin

text \<open>
  What the wire format promises: the decoder inverts the encoder, accepts nothing but images of
  commands, waits on every proper prefix, and isolates malformed messages in a capture.
\<close>

section \<open>Encoding and decoding\<close>

text \<open>The part of a command that its message carries.\<close>

definition wire_view :: "Command \<Rightarrow> Command" where
  "wire_view c =
    (case c_type c of
       NewOrder \<Rightarrow> c\<lparr>c_ts := 0\<rparr>
     | Cancel \<Rightarrow> (zero_command Cancel)\<lparr>c_order_id := c_order_id c, c_seq := c_seq c, c_symbol := c_symbol c\<rparr>
     | Modify \<Rightarrow> (zero_command Modify)\<lparr>c_order_id := c_order_id c, c_seq := c_seq c, c_symbol := c_symbol c,
         c_price := c_price c, c_qty := c_qty c\<rparr>)"

fun msg_size :: "MsgType \<Rightarrow> nat" where
  "msg_size NewOrder = sizeof_NewOrder" | "msg_size Cancel = sizeof_Cancel" | "msg_size Modify = sizeof_Modify"

definition sample_order :: Command where
  "sample_order = (zero_command NewOrder)\<lparr>c_order_id := 77, c_price := - 5, c_qty := 1000, c_owner := 3,
     c_side := Sell, c_tif := Fok, c_seq := 12, c_symbol := 2, c_flags := 6\<rparr>"

text \<open>A message whose length field is its length.\<close>

definition framed :: "bytes \<Rightarrow> bool" where
  "framed f \<longleftrightarrow> sizeof_Header \<le> length f \<and> unat (h_length (get_Header f)) = length f"

lemma length_encode [simp]: "length (encode c) = msg_size (c_type c)"
  by (cases "c_type c") (simp_all add: encode_def size_defs)

lemma msg_size_bounds: "sizeof_Header \<le> msg_size t" "msg_size t \<le> kMaxMessageSize" "0 < msg_size t"
  by (cases t; simp add: size_defs)+

lemma encode_Header: "get_Header (encode c @ bs) = encode_header c (msg_size (c_type c))"
  by (cases "c_type c") (simp_all add: encode_def put_NewOrder_def put_Cancel_def put_Modify_def)

lemma header_simps [simp]:
  "unat (h_length (encode_header c (msg_size t))) = msg_size t"
  "unat (h_length (encode_header c sizeof_NewOrder)) = sizeof_NewOrder"
  "unat (h_length (encode_header c sizeof_Cancel)) = sizeof_Cancel"
  "unat (h_length (encode_header c sizeof_Modify)) = sizeof_Modify"
  "h_type (encode_header c n) = msg_code (c_type c)" "h_version (encode_header c n) = kVersion"
  "h_symbol (encode_header c n) = c_symbol c" "h_seq (encode_header c n) = c_seq c"
  by (cases t; simp add: encode_header_def size_defs)+

lemma framed_encode: "framed (encode c)"
  using encode_Header [of c "[]"] msg_size_bounds by (simp add: framed_def)

lemma of_code_codes [simp]:
  "\<not> side_code s > 1" "\<not> ord_type_code t > 1" "\<not> tif_code f > 2"
  "side_of (side_code s) = s" "ord_type_of (ord_type_code t) = t" "tif_of (tif_code f) = f"
  by (cases s; cases t; cases f; simp add: side_of_def ord_type_of_def tif_of_def)+

lemma u8_cases: "\<not> v > 1 \<Longrightarrow> v = 0 \<or> v = 1" "\<not> w > 2 \<Longrightarrow> w = 0 \<or> w = 1 \<or> w = 2" for v w :: u8
  by (simp_all add: word_less_nat_alt word_unat_eq_iff) linarith+

lemma codes_of_code [simp]:
  "\<not> v > 1 \<Longrightarrow> side_code (side_of v) = v" "\<not> v > 1 \<Longrightarrow> ord_type_code (ord_type_of v) = v"
  "\<not> v > 2 \<Longrightarrow> tif_code (tif_of v) = v"
  by (auto dest!: u8_cases simp: side_of_def ord_type_of_def tif_of_def)

lemma decode_body_encode:
  assumes "i64_range (c_price c)"
  shows "decode_body (encode_header c (msg_size (c_type c))) (encode c @ bs) = Some (wire_view c)"
  using assms by (cases "c_type c") (simp_all add: decode_body_def encode_def wire_view_def zero_command_def)

lemma decode_encode_append:
  "i64_range (c_price c) \<Longrightarrow>
   decode (encode c @ bs) = (\<lparr>d_status = DOk, d_consumed = length (encode c)\<rparr>, Some (wire_view c))"
  using msg_size_bounds(1) [of "c_type c"]
  by (simp add: decode_def encode_Header decode_body_encode)

text \<open>A decoded message is the image of its command.\<close>

lemma encode_header_of:
  assumes "h_version h = kVersion" and "h_type h = msg_code t" and "unat (h_length h) = n" and "c_type c = t"
    and "c_symbol c = h_symbol h" and "c_seq c = h_seq h"
  shows "encode_header c n = h"
  using assms by (cases h) (auto simp: encode_header_def)

lemma encode_decode_body:
  assumes "decode_body (get_Header p) p = Some c" and "h_version (get_Header p) = kVersion"
    and "unat (h_length (get_Header p)) \<le> length p"
  shows "encode c = take (unat (h_length (get_Header p))) p"
proof -
  let ?h = "get_Header p"
  consider (N) "h_type ?h = msg_code NewOrder" | (C) "h_type ?h = msg_code Cancel" | (M) "h_type ?h = msg_code Modify"
    using assms(1) by (auto simp: decode_body_def Let_def split: if_splits)
  then show ?thesis
  proof cases
    case N
    let ?m = "get_NewOrder p"
    have len: "unat (h_length ?h) = sizeof_NewOrder" and v: "\<not> n_side ?m > 1" "\<not> n_ord_type ?m > 1" "\<not> n_tif ?m > 2"
      and c: "c = (zero_command NewOrder)\<lparr>c_seq := h_seq ?h, c_symbol := h_symbol ?h, c_order_id := n_order_id ?m,
        c_price := n_price ?m, c_qty := n_qty ?m, c_owner := n_owner ?m, c_side := side_of (n_side ?m),
        c_ord_type := ord_type_of (n_ord_type ?m), c_tif := tif_of (n_tif ?m), c_flags := n_flags ?m\<rparr>"
      using assms(1) N by (simp_all add: decode_body_def Let_def zero_command_def split: if_splits)
    have "encode_header c sizeof_NewOrder = ?h"
      by (rule encode_header_of [OF assms(2) N len]) (simp_all add: c zero_command_def)
    then have "encode c = put_NewOrder ?m"
      using v by (simp add: encode_def c zero_command_def get_NewOrder_def)
    then show ?thesis using new.put_get [of p] assms(3) by (simp add: len size_defs)
  next
    case C
    have len: "unat (h_length ?h) = sizeof_Cancel"
      and c: "c = (zero_command Cancel)\<lparr>c_seq := h_seq ?h, c_symbol := h_symbol ?h, c_order_id := x_order_id (get_Cancel p)\<rparr>"
      using assms(1) C by (simp_all add: decode_body_def Let_def zero_command_def split: if_splits)
    have "encode_header c sizeof_Cancel = ?h"
      by (rule encode_header_of [OF assms(2) C len]) (simp_all add: c zero_command_def)
    then have "encode c = put_Cancel (get_Cancel p)"
      by (simp add: encode_def c zero_command_def get_Cancel_def)
    then show ?thesis using cxl.put_get [of p] assms(3) by (simp add: len size_defs)
  next
    case M
    let ?m = "get_Modify p"
    have len: "unat (h_length ?h) = sizeof_Modify"
      and c: "c = (zero_command Modify)\<lparr>c_seq := h_seq ?h, c_symbol := h_symbol ?h, c_order_id := m_order_id ?m,
        c_price := m_price ?m, c_qty := m_qty ?m\<rparr>"
      using assms(1) M by (simp_all add: decode_body_def Let_def zero_command_def split: if_splits)
    have "encode_header c sizeof_Modify = ?h"
      by (rule encode_header_of [OF assms(2) M len]) (simp_all add: c zero_command_def)
    then have "encode c = put_Modify ?m"
      by (simp add: encode_def c zero_command_def get_Modify_def)
    then show ?thesis using mdf.put_get [of p] assms(3) by (simp add: len size_defs)
  qed
qed

section \<open>Framing\<close>

lemma framed_length: "framed f \<Longrightarrow> sizeof_Header \<le> length f"
  by (simp add: framed_def)

lemma framed_Header: "framed f \<Longrightarrow> get_Header (f @ bs) = get_Header f"
  by (rule hdr.get_append) (simp add: framed_def size_defs)

lemma framed_body:
  assumes "framed f"
  shows "decode_body (get_Header f) (f @ bs) = decode_body (get_Header f) f"
proof -
  have len: "unat (h_length (get_Header f)) = length f" using assms by (simp add: framed_def)
  have "48 = length f \<Longrightarrow> get_NewOrder (f @ bs) = get_NewOrder f"
    "24 = length f \<Longrightarrow> get_Cancel (f @ bs) = get_Cancel f" "40 = length f \<Longrightarrow> get_Modify (f @ bs) = get_Modify f"
    by (rule new.get_append cxl.get_append mdf.get_append, simp)+
  then show ?thesis by (auto simp: decode_body_def Let_def len size_defs)
qed

lemma decode_framed:
  assumes "framed f"
  shows "decode (f @ bs) = decode f"
    "d_consumed (fst (decode f)) = length f"
    "decode f = (\<lparr>d_status = Malformed, d_consumed = length f\<rparr>, None) \<or>
     (\<exists>c. decode f = (\<lparr>d_status = DOk, d_consumed = length f\<rparr>, Some c))"
  using assms framed_Header [OF assms, of bs] framed_body [OF assms, of bs]
  by (auto simp: decode_def framed_def Let_def split: option.splits)

lemma decode_prefix:
  assumes "framed f" and "k < length f"
  shows "decode (take k f) = (\<lparr>d_status = Incomplete, d_consumed = 0\<rparr>, None)"
proof (cases "k < sizeof_Header")
  case False
  have "16 \<le> length (take k f)" using False assms(2) by (simp add: size_defs)
  then have "get_Header (take k f) = get_Header f"
    using hdr.get_append [of "take k f" "drop k f"] by simp
  with False assms show ?thesis by (simp add: decode_def framed_def)
qed (use assms in \<open>simp add: decode_def\<close>)

text \<open>What the decoder makes of a sequence of messages.\<close>

definition decoded :: "bytes list \<Rightarrow> Command list" where
  "decoded fs = List.map_filter (\<lambda>f. snd (decode f)) fs"

definition rejected :: "bytes list \<Rightarrow> nat" where
  "rejected fs = length (filter (\<lambda>f. snd (decode f) = None) fs)"

lemma decoded_simps [simp]:
  "decoded [] = []" "decoded (f # fs) = (case snd (decode f) of None \<Rightarrow> decoded fs | Some c \<Rightarrow> c # decoded fs)"
  by (simp_all add: decoded_def List.map_filter_def split: option.splits)

lemma rejected_simps [simp]:
  "rejected [] = 0" "rejected (f # fs) = (if snd (decode f) = None then Suc (rejected fs) else rejected fs)"
  by (simp_all add: rejected_def)

lemma decode_loop_framed:
  assumes "\<forall>f \<in> set fs. framed f" and "framed g" and "k < length g"
  shows "decode_loop (concat fs @ take k g) (out, st) =
    (out @ decoded fs, \<lparr>ds_ok = ds_ok st + of_nat (length (decoded fs)), ds_malformed = ds_malformed st + of_nat (rejected fs),
       ds_truncated = (k \<noteq> 0 \<or> ds_truncated st)\<rparr>)"
  using assms(1)
proof (induction fs arbitrary: out st)
  case Nil
  have "take k g = [] \<longleftrightarrow> k = 0" using assms(3) by auto
  then show ?case using decode_prefix [OF assms(2,3)] by (simp add: decode_loop.simps)
next
  case (Cons f fs)
  have f: "framed f" and fs: "\<forall>f \<in> set fs. framed f" using Cons.prems by auto
  have ne: "f \<noteq> []" using framed_length [OF f] by (auto simp: size_defs)
  have l: "d_consumed (fst (decode f)) = length f" by (rule decode_framed(2) [OF f])
  consider c where "decode f = (\<lparr>d_status = DOk, d_consumed = length f\<rparr>, Some c)"
    | "decode f = (\<lparr>d_status = Malformed, d_consumed = length f\<rparr>, None)"
    using decode_framed(3) [OF f] by blast
  then show ?case
    by cases (use Cons.IH [OF fs] ne decode_framed(1) [OF f, of "concat fs @ take k g"] in
        \<open>simp_all add: decode_loop.simps [of "f @ concat fs @ take k g"]\<close>)
qed

section \<open>Reports\<close>

lemma of_code_inverse:
  "of_code event_code [Accepted, Rejected, Trade, Canceled, Modified] (event_code t) = Some t"
  "of_code reason_code all_reasons (reason_code r) = Some r"
  "of_code side_code [Buy, Sell] (side_code s) = Some s"
  "request_of (request_code q) = Some q"
proof -
  show "of_code event_code [Accepted, Rejected, Trade, Canceled, Modified] (event_code t) = Some t"
    by (cases t) (simp_all add: of_code_def)
  show "of_code reason_code all_reasons (reason_code r) = Some r"
    by (cases r) (simp_all add: of_code_def all_reasons_def)
  show "of_code side_code [Buy, Sell] (side_code s) = Some s"
    by (cases s) (simp_all add: of_code_def)
  show "request_of (request_code q) = Some q"
  proof (cases q)
    case (Some t)
    then show ?thesis by (cases t) (simp_all add: of_code_def request_of_def request_code_def)
  qed (simp add: request_of_def request_code_def)
qed

lemma event_code_not_done: "event_code t \<noteq> kReportDone"
  by (cases t) (simp_all add: kReportDone_def)

section \<open>Properties\<close>

text \<open>
  C15. The decoder inverts the encoder: a message followed by anything decodes to the fields of the
  command it carries and consumes exactly the message, and every proper prefix of it is incomplete.
\<close>

theorem decode_encode:
  assumes "i64_range (c_price c)"
  shows "decode (encode c @ bs) = (\<lparr>d_status = DOk, d_consumed = length (encode c)\<rparr>, Some (wire_view c)) \<and>
    (k < length (encode c) \<longrightarrow> decode (take k (encode c)) = (\<lparr>d_status = Incomplete, d_consumed = 0\<rparr>, None))"
  using decode_encode_append [OF assms] decode_prefix [OF framed_encode] by blast

theorem decode_encode_witness:
  "decode (encode sample_order @ [1, 2, 3]) = (\<lparr>d_status = DOk, d_consumed = 48\<rparr>, Some sample_order) \<and>
   decode (take 47 (encode sample_order)) = (\<lparr>d_status = Incomplete, d_consumed = 0\<rparr>, None)"
proof -
  have "i64_range (c_price sample_order)" by (simp add: sample_order_def i64_range_def)
  from decode_encode [OF this, of "[1, 2, 3]" 47] show ?thesis
    by (simp add: wire_view_def sample_order_def zero_command_def size_defs)
qed

text \<open>
  C4. The decoder accepts nothing but images of commands: whatever bytes it is given, it returns, it
  consumes at most what is there, and when it accepts, encoding the command gives back exactly the
  bytes consumed.
\<close>

theorem decode_accepts_images:
  assumes "decode p = (r, oc)"
  shows "d_consumed r \<le> length p \<and> (d_status r = DOk \<longleftrightarrow> oc \<noteq> None) \<and> (d_status r = Incomplete \<longrightarrow> d_consumed r = 0) \<and>
    (oc = Some c \<longrightarrow> encode c = take (d_consumed r) p \<and> d_consumed r = msg_size (c_type c))"
proof -
  have "d_consumed r \<le> length p" using decode_consumed(1) [of p] assms by simp
  moreover have "(d_status r = DOk \<longleftrightarrow> oc \<noteq> None) \<and> (d_status r = Incomplete \<longrightarrow> d_consumed r = 0)"
    using assms by (auto simp: decode_def Let_def split: if_splits option.splits) metis
  moreover have "encode c = take (d_consumed r) p" if "oc = Some c"
    using that assms encode_decode_body [of p c] by (auto simp: decode_def Let_def split: if_splits option.splits)
  moreover from this have "d_consumed r = msg_size (c_type c)" if "oc = Some c"
    using that \<open>d_consumed r \<le> length p\<close> length_encode [of c] by (metis length_take min.absorb2)
  ultimately show ?thesis by blast
qed

theorem decode_accepts_images_witness:
  "encode (the (snd (decode (encode sample_order @ [9])))) = take 48 (encode sample_order @ [9])"
proof -
  obtain r oc where d: "decode (encode sample_order @ [9]) = (r, oc)" by (rule prod.exhaust)
  have i: "i64_range (c_price sample_order)" by (simp add: sample_order_def i64_range_def)
  from decode_encode_append [OF i, of "[9]"] d have "oc = Some (wire_view sample_order)" "d_consumed r = 48"
    by (auto simp: sample_order_def zero_command_def size_defs)
  with decode_accepts_images [OF d, of "wire_view sample_order"] d show ?thesis by simp
qed

text \<open>
  A capture of messages whose length fields are right, whole but for a last one cut short, decodes
  to the commands of its well-formed messages in order; the malformed ones are counted and skipped and
  never hide a later message, and the capture is reported truncated exactly when a tail is left over.
\<close>

theorem capture_isolates_malformed:
  assumes "\<forall>f \<in> set fs. framed f" and "framed g" and "k < length g"
  shows "decode_stream (concat fs @ take k g) =
    (decoded fs, \<lparr>ds_ok = of_nat (length (decoded fs)), ds_malformed = of_nat (rejected fs), ds_truncated = (k \<noteq> 0)\<rparr>)"
  by (simp add: decode_stream_def decode_loop_framed [OF assms])

theorem capture_isolates_malformed_witness:
  "fst (decode_stream (concat [encode sample_order, put_Header \<lparr>h_length = 16, h_type = 9, h_version = 1, h_symbol = 0, h_seq = 0\<rparr>,
      encode sample_order] @ take 5 (encode sample_order))) = [sample_order, sample_order]"
proof -
  let ?bad = "put_Header \<lparr>h_length = 16, h_type = 9, h_version = 1, h_symbol = 0, h_seq = 0\<rparr>"
  have h: "get_Header ?bad = \<lparr>h_length = 16, h_type = 9, h_version = 1, h_symbol = 0, h_seq = 0\<rparr>"
    by (rule hdr.get_put_exact) simp
  have fs: "\<forall>f \<in> set [encode sample_order, ?bad, encode sample_order]. framed f"
    using framed_encode h by (auto simp: framed_def size_defs)
  have i: "i64_range (c_price sample_order)" by (simp add: sample_order_def i64_range_def)
  have w: "wire_view sample_order = sample_order" by (simp add: sample_order_def wire_view_def zero_command_def)
  have "snd (decode ?bad) = None" by (simp add: decode_def decode_body_def h size_defs kVersion_def)
  then have "decoded [encode sample_order, ?bad, encode sample_order] = [sample_order, sample_order]"
    using decode_encode_append [OF i, of "[]"] by (simp add: w)
  moreover have "5 < length (encode sample_order)" by (simp add: sample_order_def zero_command_def size_defs)
  ultimately show ?thesis using capture_isolates_malformed [OF fs framed_encode] by simp
qed

text \<open>
  An execution report carries its event: the client rebuilds from it exactly the event the engine
  emitted, with the client's sequence number in the header, and never mistakes it for the marker that
  ends the answer to a command.
\<close>

theorem report_roundtrip:
  assumes "i64_range (e_price e)"
  shows "report_to_event (get_ExecReport (encode_report e sq @ bs)) = Some (Some e) \<and>
    h_seq (r_hdr (get_ExecReport (encode_report e sq @ bs))) = sq \<and>
    report_to_event (get_ExecReport (encode_done sm sq @ bs)) = None"
proof -
  have "i64_range 0" by (simp add: i64_range_def)
  with assms show ?thesis
    by (simp add: encode_report_def encode_done_def report_to_event_def of_code_inverse event_code_not_done report_header_def)
qed

theorem report_roundtrip_witness:
  "report_to_event (get_ExecReport (encode_report (trade_event 2 7 5 Buy 110 3 1) 9)) = Some (Some (trade_event 2 7 5 Buy 110 3 1))"
proof -
  have "i64_range (e_price (trade_event 2 7 5 Buy 110 3 1))" by (simp add: i64_range_def)
  from report_roundtrip [OF this, of 9 "[]"] show ?thesis by simp
qed

end
