(* ===== verification/Journal.thy ===== *)
theory Journal
  imports Wire_Properties
begin

text \<open>
  \<^verbatim>\<open>include/exsim/journal.hpp\<close>: CRC-32C, the record format, the scan of a journal file and the writer. A
  file is its bytes. A writer knows which prefix of what it has written the operating system holds and
  which prefix is on stable storage: a crash leaves some prefix that contains it.
\<close>

section \<open>CRC-32C\<close>

definition crc_poly :: u32 where "crc_poly = 0x82F63B78"

definition crc_shift :: "u32 \<Rightarrow> u32" where
  "crc_shift c = (if c AND 1 \<noteq> 0 then crc_poly XOR drop_bit 1 c else drop_bit 1 c)"

definition crc_table :: "u32 list" where
  "crc_table = map (\<lambda>i. (crc_shift ^^ 8) (of_nat i)) [0..<256]"

definition crc_byte :: "u32 \<Rightarrow> u8 \<Rightarrow> u32" where
  "crc_byte c b = crc_table ! unat ((c XOR ucast b) AND 0xFF) XOR drop_bit 8 c"

definition crc32c :: "bytes \<Rightarrow> u32" where
  "crc32c p = NOT (foldl crc_byte 0xFFFFFFFF p)"

section \<open>Records\<close>

datatype JournalStatus = Clean | TornTail | Corrupt

record JournalScan =
  js_records :: nat
  js_valid_bytes :: nat
  js_status :: JournalStatus

record RecordMeta =
  rm_len :: u32
  rm_crc :: u32
  rm_ts :: u64
  rm_owner :: u32
  rm_reserved :: u32

definition put_RecordMeta :: "RecordMeta \<Rightarrow> bytes" where
  "put_RecordMeta m = put_le 4 (rm_len m) @ put_le 4 (rm_crc m) @ put_le 8 (rm_ts m) @ put_le 4 (rm_owner m) @
     put_le 4 (rm_reserved m)"

definition get_RecordMeta :: "bytes \<Rightarrow> RecordMeta" where
  "get_RecordMeta p = \<lparr>rm_len = le_at 0 4 p, rm_crc = le_at 4 4 p, rm_ts = le_at 8 8 p, rm_owner = le_at 16 4 p,
     rm_reserved = le_at 20 4 p\<rparr>"

definition sizeof_RecordMeta :: nat where "sizeof_RecordMeta = 24"
definition kJournalHeaderBytes :: nat where "kJournalHeaderBytes = 8"

definition journal_magic :: bytes where
  "journal_magic = [0x45, 0x58, 0x4A, 0x52]"

definition journal_header :: bytes where
  "journal_header = journal_magic @ put_le 4 (1 :: u32)"

section \<open>Reading\<close>

text \<open>The loop of \<^verbatim>\<open>journal_scan\<close> over the bytes that are left, with what it has delivered so far.\<close>

function scan_loop :: "bytes \<Rightarrow> JournalScan \<times> Command list \<Rightarrow> JournalScan \<times> Command list" where
  "scan_loop fp (s, out) =
    (if fp = [] then (s, out)
     else if length fp < sizeof_RecordMeta then (s\<lparr>js_status := TornTail\<rparr>, out)
     else
      (let m = get_RecordMeta fp; len = unat (rm_len m); rst = drop sizeof_RecordMeta fp in
       if len < sizeof_Header \<or> len > kMaxMessageSize then (s\<lparr>js_status := Corrupt\<rparr>, out)
       else if length rst < len then (s\<lparr>js_status := TornTail\<rparr>, out)
       else
        (let payload = take len rst; buf = put_le 8 (rm_ts m) @ put_le 4 (rm_owner m) @ payload in
         if crc32c buf \<noteq> rm_crc m then (s\<lparr>js_status := Corrupt\<rparr>, out)
         else
          (case decode payload of (r, oc) \<Rightarrow>
            if d_status r \<noteq> DOk \<or> d_consumed r \<noteq> len then (s\<lparr>js_status := Corrupt\<rparr>, out)
            else
              scan_loop (drop len rst)
                (s\<lparr>js_records := js_records s + 1, js_valid_bytes := js_valid_bytes s + sizeof_RecordMeta + len\<rparr>,
                 out @ [(the oc)\<lparr>c_ts := rm_ts m, c_owner := rm_owner m\<rparr>])))))"
  by pat_completeness auto
termination by (relation "measure (length \<circ> fst)") (auto simp: sizeof_RecordMeta_def)

declare scan_loop.simps [simp del]
declare scan_loop.simps [code]

text \<open>\<open>None\<close> is the exception for a file that is not a journal.\<close>

definition journal_scan :: "bytes \<Rightarrow> (JournalScan \<times> Command list) option" where
  "journal_scan file =
    (if length file < kJournalHeaderBytes then Some (\<lparr>js_records = 0, js_valid_bytes = 0, js_status = TornTail\<rparr>, [])
     else if take 4 file \<noteq> journal_magic \<or> le_at 4 4 file \<noteq> (1 :: u32) then None
     else Some (scan_loop (drop kJournalHeaderBytes file)
                  (\<lparr>js_records = 0, js_valid_bytes = kJournalHeaderBytes, js_status = Clean\<rparr>, [])))"

section \<open>Writing\<close>

record JournalWriter =
  jw_file :: bytes
  jw_os :: nat
  jw_disk :: nat
  jw_records :: u64

definition jw_create :: JournalWriter where
  "jw_create = \<lparr>jw_file = journal_header, jw_os = length journal_header, jw_disk = length journal_header, jw_records = 0\<rparr>"

definition journal_record :: "Command \<Rightarrow> bytes" where
  "journal_record c =
    (let payload = encode c;
         buf = put_le 8 (c_ts c) @ put_le 4 (c_owner c) @ payload
     in put_RecordMeta \<lparr>rm_len = of_nat (length payload), rm_crc = crc32c buf, rm_ts = c_ts c, rm_owner = c_owner c,
          rm_reserved = 0\<rparr> @ payload)"

text \<open>
  A write accepts \<open>n\<close> bytes; a short write leaves a partial record behind and throws (\<open>Inl\<close>). Flushing
  and syncing may fail too.
\<close>

definition jw_append :: "nat \<Rightarrow> Command \<Rightarrow> JournalWriter \<Rightarrow> JournalWriter + JournalWriter" where
  "jw_append n c w =
    (let r = journal_record c in
     if n < length r then Inl (w\<lparr>jw_file := jw_file w @ take n r\<rparr>)
     else Inr (w\<lparr>jw_file := jw_file w @ r, jw_records := jw_records w + 1\<rparr>))"

definition jw_flush :: "bool \<Rightarrow> JournalWriter \<Rightarrow> JournalWriter + JournalWriter" where
  "jw_flush ok w = (if ok then Inr (w\<lparr>jw_os := length (jw_file w)\<rparr>) else Inl w)"

definition jw_sync :: "bool \<Rightarrow> bool \<Rightarrow> JournalWriter \<Rightarrow> JournalWriter + JournalWriter" where
  "jw_sync ok_flush ok_fsync w =
    (case jw_flush ok_flush w of
       Inl w' \<Rightarrow> Inl w'
     | Inr w' \<Rightarrow> if ok_fsync then Inr (w'\<lparr>jw_disk := jw_os w'\<rparr>) else Inl w')"

text \<open>Recovery of a file: cut the tail that is not trusted, or start afresh.\<close>

definition jw_recover :: "bytes \<Rightarrow> (JournalScan \<times> JournalWriter) option" where
  "jw_recover file =
    (case journal_scan file of
       None \<Rightarrow> None
     | Some (s, _) \<Rightarrow>
        if js_valid_bytes s < kJournalHeaderBytes then Some (s, jw_create)
        else
          (let f = take (js_valid_bytes s) file in
           Some (s, \<lparr>jw_file = f, jw_os = length f, jw_disk = 0, jw_records = 0\<rparr>)))"

section \<open>The record codec\<close>

interpretation rm: struct_codec 24 "\<lambda>_. True" put_RecordMeta get_RecordMeta
  by unfold_locales (simp_all add: put_RecordMeta_def get_RecordMeta_def struct_simps)

end
