(* ===== verification/Crc_Props.thy ===== *)
theory Crc_Props
  imports Journal
begin

text \<open>
  The table-driven CRC computes the bit-serial one, which is linear and injective in its register. So two
  messages that differ in a burst of at most 32 bits have different checksums.
\<close>

section \<open>One bit\<close>

lemma xor_cancel: "a XOR b = a XOR c \<longleftrightarrow> b = c" "b XOR a = c XOR a \<longleftrightarrow> b = c" for a b c :: u32
  by (auto simp: bit_eq_iff bit_simps)

lemma crc_shift_alt: "crc_shift c = drop_bit 1 c XOR (if bit c 0 then crc_poly else 0)"
  by (auto simp: crc_shift_def and_one_eq bit_0 odd_iff_mod_2_eq_one xor.commute)

lemma crc_shift_xor: "crc_shift (a XOR b) = crc_shift a XOR crc_shift b"
  by (rule bit_word_eqI) (auto simp: crc_shift_alt bit_simps)

lemma crc_shift_0 [simp]: "crc_shift 0 = 0"
  by (simp add: crc_shift_alt)

lemma crc_shift_even: "\<not> bit c 0 \<Longrightarrow> crc_shift c = drop_bit 1 c"
  by (simp add: crc_shift_alt)

lemma bit31_poly: "bit crc_poly 31"
  by (simp add: crc_poly_def)

lemma crc_shift_inj:
  assumes "crc_shift a = crc_shift b"
  shows "a = b"
proof -
  have top: "bit (crc_shift c) 31 = bit c 0" for c
    using bit31_poly bit_imp_le_length [of c 32] by (auto simp: crc_shift_alt bit_simps)
  have b0: "bit a 0 = bit b 0" using top assms by metis
  have "drop_bit 1 a = drop_bit 1 b"
  proof -
    have "drop_bit 1 c = crc_shift c XOR (if bit c 0 then crc_poly else 0)" for c
      by (simp add: crc_shift_alt xor.assoc)
    then show ?thesis using b0 assms by simp
  qed
  then have s: "bit a (Suc i) = bit b (Suc i)" for i by (metis bit_drop_bit_eq comp_apply plus_1_eq_Suc)
  show ?thesis
  proof (rule bit_word_eqI)
    fix n assume "n < LENGTH(32)"
    show "bit a n = bit b n" using b0 s by (cases n) auto
  qed
qed

lemma crc_shifts_xor: "(crc_shift ^^ n) (a XOR b) = (crc_shift ^^ n) a XOR (crc_shift ^^ n) b"
  by (induction n) (simp_all add: crc_shift_xor)

lemma crc_shifts_inj: "(crc_shift ^^ n) a = (crc_shift ^^ n) b \<Longrightarrow> a = b"
  by (induction n) (auto dest: crc_shift_inj)

lemma crc_shifts_high: "take_bit n c = 0 \<Longrightarrow> (crc_shift ^^ n) c = drop_bit n c"
proof (induction n arbitrary: c)
  case (Suc n)
  have b: "\<not> bit c i" if "i < Suc n" for i
    using Suc.prems that by (metis bit_0_eq bit_take_bit_iff bot_apply bot_bool_def)
  have "take_bit n (drop_bit 1 c) = 0"
    by (rule bit_word_eqI) (use b in \<open>auto simp: bit_simps\<close>)
  from Suc.IH [OF this] have "(crc_shift ^^ n) (drop_bit 1 c) = drop_bit n (drop_bit 1 c)" .
  moreover have "crc_shift c = drop_bit 1 c" using b by (simp add: crc_shift_even)
  ultimately show ?case by (simp add: funpow_swap1 drop_bit_drop_bit del: funpow.simps add: funpow_Suc_right)
qed simp

section \<open>One byte\<close>

lemma crc_byte_serial: "crc_byte c b = (crc_shift ^^ 8) (c XOR ucast b)"
proof -
  let ?x = "c XOR ucast b :: u32"
  have lt: "unat (?x AND 0xFF) < 256"
    using unat_and_mask [of ?x 8] by (simp add: mask_eq_exp_minus_1)
  then have t: "crc_table ! unat (?x AND 0xFF) = (crc_shift ^^ 8) (?x AND 0xFF)"
    by (simp add: crc_table_def)
  have m: "0xFF = (mask 8 :: u32)" by (simp add: mask_eq_exp_minus_1)
  have split: "?x = (?x AND 0xFF) XOR push_bit 8 (drop_bit 8 ?x)"
    unfolding m by (rule bit_word_eqI) (auto simp: bit_simps)
  have "take_bit 8 (push_bit 8 (drop_bit 8 ?x)) = 0"
    by (rule bit_word_eqI) (auto simp: bit_simps)
  then have "(crc_shift ^^ 8) (push_bit 8 (drop_bit 8 ?x)) = drop_bit 8 (push_bit 8 (drop_bit 8 ?x))"
    by (rule crc_shifts_high)
  also have "\<dots> = drop_bit 8 c"
  proof (rule bit_word_eqI)
    fix n assume "n < LENGTH(32)"
    have "\<not> bit b (8 + n)" using bit_imp_le_length [of b "8 + n"] by auto
    then show "bit (drop_bit 8 (push_bit 8 (drop_bit 8 ?x))) n = bit (drop_bit 8 c) n"
      using \<open>n < LENGTH(32)\<close> by (auto simp: bit_simps dest: bit_imp_le_length)
  qed
  finally have "(crc_shift ^^ 8) ?x = (crc_shift ^^ 8) (?x AND 0xFF) XOR drop_bit 8 c"
    using split crc_shifts_xor by metis
  with t show ?thesis by (simp add: crc_byte_def)
qed

section \<open>Streams of bits\<close>

text \<open>The bits of a message in the order the reflected CRC takes them, least significant first.\<close>

definition byte_bits :: "u8 \<Rightarrow> bool list" where
  "byte_bits b = map (bit b) [0..<8]"

definition msg_bits :: "bytes \<Rightarrow> bool list" where
  "msg_bits p = concat (map byte_bits p)"

definition crc_bit :: "u32 \<Rightarrow> bool \<Rightarrow> u32" where
  "crc_bit s b = crc_shift (s XOR (if b then 1 else 0))"

definition cons_bit :: "bool \<Rightarrow> u32 \<Rightarrow> u32" where
  "cons_bit b w = (if b then 1 else 0) XOR push_bit 1 w"

primrec word_of_bits :: "bool list \<Rightarrow> u32" where
  "word_of_bits [] = 0"
| "word_of_bits (b # bs) = cons_bit b (word_of_bits bs)"

lemma bit_cons_bit: "bit (cons_bit b w) i \<longleftrightarrow> i < 32 \<and> (case i of 0 \<Rightarrow> b | Suc j \<Rightarrow> bit w j)"
  unfolding cons_bit_def bit_xor_iff bit_push_bit_iff by (auto simp: bit_1_iff split: nat.splits)

lemma bit_word_of_bits: "bit (word_of_bits bs) i \<longleftrightarrow> i < 32 \<and> i < length bs \<and> bs ! i"
proof (induction bs arbitrary: i)
  case (Cons b bs)
  show ?case
  proof (cases i)
    case (Suc j)
    have "bit (word_of_bits bs) j \<longleftrightarrow> j < 32 \<and> j < length bs \<and> bs ! j" by (rule Cons.IH)
    then show ?thesis unfolding word_of_bits.simps bit_cons_bit Suc by auto
  qed (simp add: bit_cons_bit)
qed simp

lemma word_of_bits_inj:
  assumes "word_of_bits xs = word_of_bits ys" and "length xs = length ys" and "length xs \<le> 32"
  shows "xs = ys"
proof (rule nth_equalityI)
  fix i assume "i < length xs"
  with assms bit_word_of_bits [of xs i] bit_word_of_bits [of ys i] show "xs ! i = ys ! i" by auto
qed (rule assms(2))

lemma crc_shift_cons:
  assumes "\<not> bit w 31"
  shows "crc_shift (s XOR cons_bit b w) = crc_bit s b XOR w"
proof -
  have "cons_bit False w = push_bit 1 w" by (simp add: cons_bit_def)
  have "crc_shift (cons_bit False w) = drop_bit 1 (cons_bit False w)"
    by (rule crc_shift_even) (simp add: bit_cons_bit)
  also have "\<dots> = w"
  proof (rule bit_word_eqI)
    fix i assume "i < LENGTH(32)"
    then have "i = 31 \<or> i < 31" by auto
    then show "bit (drop_bit 1 (cons_bit False w)) i = bit w i"
      unfolding bit_drop_bit_eq comp_def using assms by (auto simp: bit_cons_bit)
  qed
  finally have w: "crc_shift (cons_bit False w) = w" .
  have "s XOR cons_bit b w = (s XOR (if b then 1 else 0)) XOR cons_bit False w"
    by (simp add: cons_bit_def xor.assoc)
  then show ?thesis by (simp only: crc_shift_xor [of "s XOR (if b then 1 else 0)"] w crc_bit_def)
qed

lemma crc_bits_shift:
  "length xs \<le> 32 \<Longrightarrow> foldl crc_bit s xs = (crc_shift ^^ length xs) (s XOR word_of_bits xs)"
proof (induction xs arbitrary: s)
  case (Cons b xs)
  have "\<not> bit (word_of_bits xs) 31" using Cons.prems by (simp add: bit_word_of_bits)
  from crc_shift_cons [OF this, of s b] Cons show ?case by (simp add: funpow_Suc_right del: funpow.simps)
qed simp

lemma crc_bit_inj: "foldl crc_bit s xs = foldl crc_bit t xs \<Longrightarrow> s = t"
proof (induction xs arbitrary: s t)
  case (Cons b xs)
  then have "crc_bit s b = crc_bit t b" by simp
  then have "s XOR (if b then 1 else 0) = t XOR (if b then 1 else 0)"
    unfolding crc_bit_def by (rule crc_shift_inj)
  then show ?case by (simp only: xor_cancel)
qed simp

lemma crc_byte_bits: "crc_byte c b = foldl crc_bit c (byte_bits b)"
proof -
  have "word_of_bits (byte_bits b) = ucast b"
  proof (rule bit_word_eqI)
    fix n assume "n < LENGTH(32)"
    then show "bit (word_of_bits (byte_bits b)) n = bit (ucast b :: u32) n"
      by (cases "n < 8") (auto simp: bit_word_of_bits byte_bits_def bit_simps dest: bit_imp_le_length)
  qed
  then show ?thesis by (simp add: crc_bits_shift crc_byte_serial byte_bits_def)
qed

lemma crc_stream: "foldl crc_byte c p = foldl crc_bit c (msg_bits p)"
  by (induction p arbitrary: c) (simp_all add: msg_bits_def crc_byte_bits)

text \<open>The table-driven checksum is the bit-serial one, and it tells apart messages that differ in a burst.\<close>

lemma crc32c_serial: "crc32c p = NOT (foldl crc_bit 0xFFFFFFFF (msg_bits p))"
  by (simp add: crc32c_def crc_stream)

lemma crc_burst:
  assumes "msg_bits p = pre @ xs @ post" and "msg_bits p' = pre @ ys @ post"
    and "length xs = length ys" and "length xs \<le> 32" and "xs \<noteq> ys"
  shows "crc32c p \<noteq> crc32c p'"
proof
  assume "crc32c p = crc32c p'"
  then have "foldl crc_bit 0xFFFFFFFF (pre @ xs @ post) = foldl crc_bit 0xFFFFFFFF (pre @ ys @ post)"
    by (simp add: crc32c_serial assms(1,2))
  then have "foldl crc_bit (foldl crc_bit 0xFFFFFFFF pre) xs = foldl crc_bit (foldl crc_bit 0xFFFFFFFF pre) ys"
    by (auto dest: crc_bit_inj)
  then have "foldl crc_bit 0xFFFFFFFF pre XOR word_of_bits xs = foldl crc_bit 0xFFFFFFFF pre XOR word_of_bits ys"
    unfolding crc_bits_shift [OF assms(4)] crc_bits_shift [OF assms(4) [unfolded assms(3)]] assms(3) by (rule crc_shifts_inj)
  then have "word_of_bits xs = word_of_bits ys" by (simp only: xor_cancel)
  with word_of_bits_inj assms(3-5) show False by blast
qed

end
