(* ===== verification/Journal_Properties.thy ===== *)
theory Journal_Properties
  imports Crc_Props
begin

text \<open>
  The journal after a crash: a cut anywhere leaves exactly the records that were written whole, so nothing
  flushed is lost and nothing partial is replayed; damage within a record is detected.
\<close>

section \<open>Scanning\<close>

text \<open>What a record keeps of its command.\<close>

definition journal_view :: "Command \<Rightarrow> Command" where
  "journal_view c = (wire_view c)\<lparr>c_ts := c_ts c, c_owner := c_owner c\<rparr>"

definition journal_records :: "Command list \<Rightarrow> bytes" where
  "journal_records cs = concat (map journal_record cs)"

definition storable :: "Command \<Rightarrow> bool" where
  "storable c \<longleftrightarrow> i64_range (c_price c)"

lemma journal_records_simps [simp]:
  "journal_records [] = []" "journal_records (c # cs) = journal_record c @ journal_records cs"
  "journal_records (cs @ ds) = journal_records cs @ journal_records ds"
  by (simp_all add: journal_records_def)

lemma length_journal_record: "length (journal_record c) = 24 + length (encode c)"
  by (simp add: journal_record_def Let_def)

lemma journal_record_ne [simp]: "journal_record c \<noteq> []"
  using length_journal_record [of c] by auto

lemma record_meta:
  "get_RecordMeta (journal_record c @ bs) =
    \<lparr>rm_len = of_nat (length (encode c)), rm_crc = crc32c (put_le 8 (c_ts c) @ put_le 4 (c_owner c) @ encode c),
     rm_ts = c_ts c, rm_owner = c_owner c, rm_reserved = 0\<rparr>"
  by (simp add: journal_record_def Let_def)

lemma drop_record: "drop 24 (journal_record c @ bs) = encode c @ bs" "drop 24 (journal_record c) = encode c"
  by (simp_all add: journal_record_def Let_def)

lemma encode_size:
  "unat (of_nat (length (encode c)) :: u32) = length (encode c)"
  "\<not> length (encode c) < sizeof_Header" "\<not> length (encode c) > kMaxMessageSize" "encode c \<noteq> []"
proof -
  have "length (encode c) \<le> 48" using msg_size_bounds(2) [of "c_type c"] by (simp add: size_defs)
  then show "unat (of_nat (length (encode c)) :: u32) = length (encode c)" by (simp add: unat_of_nat)
  show "\<not> length (encode c) < sizeof_Header" "\<not> length (encode c) > kMaxMessageSize" "encode c \<noteq> []"
    using msg_size_bounds [of "c_type c"] length_encode [of c] by (auto simp: not_less simp del: length_encode)
qed

lemma scan_record:
  assumes "storable c"
  shows "scan_loop (journal_record c @ bs) (s, out) =
    scan_loop bs (s\<lparr>js_records := js_records s + 1, js_valid_bytes := js_valid_bytes s + length (journal_record c)\<rparr>,
      out @ [journal_view c])"
proof -
  have d: "decode (encode c) = (\<lparr>d_status = DOk, d_consumed = length (encode c)\<rparr>, Some (wire_view c))"
    using decode_encode_append [of c "[]"] assms by (simp add: storable_def)
  show ?thesis
    by (subst scan_loop.simps)
      (simp add: record_meta drop_record encode_size d journal_view_def length_journal_record sizeof_RecordMeta_def
        Let_def add.assoc del: length_encode)
qed

lemma scan_partial:
  assumes "n < length (journal_record c)" and "n \<noteq> 0"
  shows "scan_loop (take n (journal_record c)) (s, out) = (s\<lparr>js_status := TornTail\<rparr>, out)"
proof (cases "n < 24")
  case True
  with assms show ?thesis by (subst scan_loop.simps) (auto simp: sizeof_RecordMeta_def)
next
  case False
  then have l: "24 \<le> length (take n (journal_record c))" using assms by simp
  then have "get_RecordMeta (take n (journal_record c)) = get_RecordMeta (journal_record c)"
    using rm.get_append [of "take n (journal_record c)" "drop n (journal_record c)"] by simp
  with record_meta [of c "[]"] have m: "rm_len (get_RecordMeta (take n (journal_record c))) = of_nat (length (encode c))"
    by simp
  have "length (drop 24 (take n (journal_record c))) < length (encode c)"
    using False assms length_journal_record [of c] by simp
  with l assms m show ?thesis
    by (subst scan_loop.simps) (auto simp: sizeof_RecordMeta_def encode_size simp del: length_encode length_drop length_take)
qed

text \<open>The scan of a sequence of records cut at any byte: \<open>k\<close> records are whole.\<close>

lemma scan_cut:
  assumes "\<forall>c \<in> set cs. storable c" and "n \<le> length (journal_records cs)"
  obtains k where "k \<le> length cs" "length (journal_records (take k cs)) \<le> n"
    "k < length cs \<longrightarrow> n < length (journal_records (take (Suc k) cs))"
    "scan_loop (take n (journal_records cs)) (s, out) =
      (s\<lparr>js_records := js_records s + k, js_valid_bytes := js_valid_bytes s + length (journal_records (take k cs)),
         js_status := (if length (journal_records (take k cs)) = n then js_status s else TornTail)\<rparr>,
       out @ map journal_view (take k cs))"
  using assms
proof (induction cs arbitrary: n s out thesis)
  case Nil
  then show ?case by (intro Nil.prems(1) [of 0]) (simp_all add: scan_loop.simps)
next
  case (Cons c cs)
  let ?l = "length (journal_record c)"
  show ?case
  proof (cases "n < ?l")
    case True
    then have "take n (journal_records (c # cs)) = take n (journal_record c)" by simp
    then show ?thesis
      using True scan_partial [OF True] by (intro Cons.prems(1) [of 0]) (auto simp: scan_loop.simps [of "[]"])
  next
    case False
    have t: "take n (journal_records (c # cs)) = journal_record c @ take (n - ?l) (journal_records cs)"
      using False by simp
    let ?s = "s\<lparr>js_records := js_records s + 1, js_valid_bytes := js_valid_bytes s + ?l\<rparr>"
    have cs: "\<forall>c \<in> set cs. storable c" and c: "storable c" and n: "n - ?l \<le> length (journal_records cs)"
      using Cons.prems(2,3) by auto
    obtain k where k: "k \<le> length cs" "length (journal_records (take k cs)) \<le> n - ?l"
      "k < length cs \<longrightarrow> n - ?l < length (journal_records (take (Suc k) cs))"
      "scan_loop (take (n - ?l) (journal_records cs)) (?s, out @ [journal_view c]) =
        (?s\<lparr>js_records := js_records ?s + k, js_valid_bytes := js_valid_bytes ?s + length (journal_records (take k cs)),
           js_status := (if length (journal_records (take k cs)) = n - ?l then js_status ?s else TornTail)\<rparr>,
         (out @ [journal_view c]) @ map journal_view (take k cs))"
      using Cons.IH [OF _ cs n] by blast
    show ?thesis
    proof (rule Cons.prems(1) [of "Suc k"])
      show "Suc k < length (c # cs) \<longrightarrow> n < length (journal_records (take (Suc (Suc k)) (c # cs)))"
        using k(3) False by auto
      have "length (journal_records (take k cs)) = n - ?l \<longleftrightarrow> ?l + length (journal_records (take k cs)) = n"
        using False by auto
      then show "scan_loop (take n (journal_records (c # cs))) (s, out) =
        (s\<lparr>js_records := js_records s + Suc k, js_valid_bytes := js_valid_bytes s + length (journal_records (take (Suc k) (c # cs))),
           js_status := (if length (journal_records (take (Suc k) (c # cs))) = n then js_status s else TornTail)\<rparr>,
         out @ map journal_view (take (Suc k) (c # cs)))"
        unfolding t scan_record [OF c] k(4) by (simp add: add.assoc)
    qed (use k(1,2) False in auto)
  qed
qed

lemma journal_records_mono: "a \<le> b \<Longrightarrow> length (journal_records (take a cs)) \<le> length (journal_records (take b cs))"
proof (induction cs arbitrary: a b)
  case (Cons c cs)
  then show ?case by (cases a; cases b) auto
qed simp

text \<open>A cut that keeps the first \<open>a\<close> records keeps at least \<open>a\<close> whole ones.\<close>

lemma cut_keeps:
  assumes "length (journal_records (take a cs)) \<le> n" and "a \<le> length cs"
    and "k < length cs \<longrightarrow> n < length (journal_records (take (Suc k) cs))" and "k \<le> length cs"
  shows "a \<le> k"
proof (rule ccontr)
  assume "\<not> a \<le> k"
  then have "Suc k \<le> a" "k < length cs" using assms(2) by auto
  with journal_records_mono [of "Suc k" a cs] assms(1,3) show False by simp
qed

lemma journal_header_simps [simp]:
  "length journal_header = 8" "take 4 journal_header = journal_magic" "le_at 4 4 (journal_header @ bs) = (1 :: u32)"
  "drop 8 (journal_header @ bs) = bs"
  by (simp_all add: journal_header_def journal_magic_def)

lemma journal_scan_header:
  "journal_scan (journal_header @ bs) = Some (scan_loop bs (\<lparr>js_records = 0, js_valid_bytes = 8, js_status = Clean\<rparr>, []))"
  by (simp add: journal_scan_def kJournalHeaderBytes_def)

section \<open>Runs of the writer\<close>

text \<open>
  \<open>written w cs a b\<close>: a writer that has appended \<open>cs\<close>, of which the first \<open>a\<close> were handed to the operating
  system by a flush and the first \<open>b\<close> forced to disk by a sync.
\<close>

inductive written :: "JournalWriter \<Rightarrow> Command list \<Rightarrow> nat \<Rightarrow> nat \<Rightarrow> bool" where
  created: "written jw_create [] 0 0"
| appended: "written w cs a b \<Longrightarrow> jw_append n c w = Inr w' \<Longrightarrow> written w' (cs @ [c]) a b"
| flushed: "written w cs a b \<Longrightarrow> jw_flush ok w = Inr w' \<Longrightarrow> written w' cs (length cs) b"
| synced: "written w cs a b \<Longrightarrow> jw_sync ok1 ok2 w = Inr w' \<Longrightarrow> written w' cs (length cs) (length cs)"

definition two_orders :: "Command list" where
  "two_orders = [sample_order\<lparr>c_ts := 5\<rparr>, sample_order\<lparr>c_order_id := 78, c_ts := 6\<rparr>]"

lemma written_inv:
  "written w cs a b \<Longrightarrow> jw_file w = journal_header @ journal_records cs \<and>
     jw_os w = 8 + length (journal_records (take a cs)) \<and> jw_disk w = 8 + length (journal_records (take b cs)) \<and>
     a \<le> length cs \<and> b \<le> length cs"
  by (induction rule: written.induct)
    (auto simp: jw_create_def jw_append_def jw_flush_def jw_sync_def Let_def split: if_splits)

text \<open>The file a crash leaves behind: any cut of the file, which may end in the partial record of a failed append.\<close>

definition crash_image :: "JournalWriter \<Rightarrow> bytes \<Rightarrow> bool" where
  "crash_image w img \<longleftrightarrow> (\<exists>c n m. storable c \<and> img = take m (jw_file w @ take n (journal_record c)) \<and> n < length (journal_record c))"

lemma scan_crash_image:
  assumes "written w cs a b" and "\<forall>c \<in> set cs. storable c" and "crash_image w img" and "8 \<le> length img"
  obtains k st where "k \<le> length cs"
    "journal_scan img = Some (\<lparr>js_records = k, js_valid_bytes = 8 + length (journal_records (take k cs)), js_status = st\<rparr>,
       map journal_view (take k cs))" "st \<noteq> Corrupt"
    "img = journal_header @ journal_records (take k cs) @ drop (8 + length (journal_records (take k cs))) img"
    "\<forall>x \<le> length cs. 8 + length (journal_records (take x cs)) \<le> length img \<longrightarrow> x \<le> k"
proof -
  note W = written_inv [OF assms(1)]
  obtain c n m where c: "storable c" "n < length (journal_record c)"
    and img: "img = take m (journal_header @ journal_records cs @ take n (journal_record c))"
    using assms(3) W by (auto simp: crash_image_def)
  let ?cs = "cs @ [c]"
  define j where "j = length img - 8"
  have jl: "j \<le> length (journal_records cs) + n" using img c(2) by (auto simp: j_def min_def)
  have whole: "journal_header @ journal_records cs @ take n (journal_record c) =
      take (8 + length (journal_records cs) + n) (journal_header @ journal_records ?cs)" by simp
  have i: "img = journal_header @ take j (journal_records ?cs)"
  proof -
    have "img = take (length img) (journal_header @ journal_records ?cs)"
    proof -
      have "take p X = take (length (take p X)) X" for p and X :: bytes by (simp add: min_def)
      moreover have "img = take (min m (8 + length (journal_records cs) + n)) (journal_header @ journal_records ?cs)"
        by (simp only: img whole take_take)
      ultimately show ?thesis by metis
    qed
    also have "\<dots> = journal_header @ take j (journal_records ?cs)" using assms(4) by (simp add: j_def)
    finally show ?thesis .
  qed
  have j2: "j \<le> length (journal_records ?cs)" using jl c(2) by simp
  have st: "\<forall>c \<in> set ?cs. storable c" using assms(2) c(1) by auto
  let ?s0 = "\<lparr>js_records = 0, js_valid_bytes = 8, js_status = Clean\<rparr>"
  obtain k where k: "k \<le> length ?cs" "length (journal_records (take k ?cs)) \<le> j"
    "k < length ?cs \<longrightarrow> j < length (journal_records (take (Suc k) ?cs))"
    "scan_loop (take j (journal_records ?cs)) (?s0, []) =
      (?s0\<lparr>js_records := js_records ?s0 + k, js_valid_bytes := js_valid_bytes ?s0 + length (journal_records (take k ?cs)),
         js_status := (if length (journal_records (take k ?cs)) = j then js_status ?s0 else TornTail)\<rparr>,
       [] @ map journal_view (take k ?cs))"
    by (rule scan_cut [OF st j2])
  have kl: "k \<le> length cs"
  proof (rule ccontr)
    assume "\<not> k \<le> length cs"
    then have "take k ?cs = ?cs" using k(1) by simp
    with k(2) have "length (journal_records ?cs) \<le> j" by (simp only:)
    with jl c(2) show False by simp
  qed
  then have tk: "take k ?cs = take k cs" by simp
  show thesis
  proof (rule that [OF kl])
    show "journal_scan img = Some (\<lparr>js_records = k, js_valid_bytes = 8 + length (journal_records (take k cs)),
        js_status = (if length (journal_records (take k cs)) = j then Clean else TornTail)\<rparr>, map journal_view (take k cs))"
      unfolding i journal_scan_header k(4) using kl by simp
    show "(if length (journal_records (take k cs)) = j then Clean else TornTail) \<noteq> Corrupt" by simp
    have "journal_records ?cs = journal_records (take k cs) @ journal_records (drop k ?cs)"
      using journal_records_simps(3) [of "take k ?cs" "drop k ?cs"] unfolding append_take_drop_id unfolding tk .
    then show "img = journal_header @ journal_records (take k cs) @ drop (8 + length (journal_records (take k cs))) img"
      unfolding i using k(2) kl by simp
    have "x \<le> k" if x: "x \<le> length cs" "8 + length (journal_records (take x cs)) \<le> length img" for x
      by (rule cut_keeps [of x ?cs j]) (use x k(1,3) in \<open>auto simp: j_def\<close>)
    then show "\<forall>x \<le> length cs. 8 + length (journal_records (take x cs)) \<le> length img \<longrightarrow> x \<le> k" by blast
  qed
qed

section \<open>Properties\<close>

text \<open>
  C24. Recovery after a crash. Whatever prefix of its writes a crash leaves of a journal (even one ending in
  the torn record of a failed append), the scan is never confused: it returns the commands of the first
  \<open>k\<close> appends and nothing else, all that were flushed if the operating system survived and all that were
  synced in any case, and the recovered journal holds exactly their records.
\<close>

theorem journal_survives_crash:
  assumes "written w cs a b" and "\<forall>c \<in> set cs. storable c" and "crash_image w img" and "jw_disk w \<le> length img"
  shows "\<exists>k s w'. k \<le> length cs \<and> b \<le> k \<and> (jw_os w \<le> length img \<longrightarrow> a \<le> k) \<and>
    journal_scan img = Some (s, map journal_view (take k cs)) \<and> js_status s \<noteq> Corrupt \<and>
    jw_recover img = Some (s, w') \<and> jw_file w' = journal_header @ journal_records (take k cs)"
proof -
  note W = written_inv [OF assms(1)]
  have l: "8 \<le> length img" using assms(4) W by simp
  obtain k st where k: "k \<le> length cs"
    "journal_scan img = Some (\<lparr>js_records = k, js_valid_bytes = 8 + length (journal_records (take k cs)), js_status = st\<rparr>,
       map journal_view (take k cs))" "st \<noteq> Corrupt"
    "img = journal_header @ journal_records (take k cs) @ drop (8 + length (journal_records (take k cs))) img"
    "\<forall>x \<le> length cs. 8 + length (journal_records (take x cs)) \<le> length img \<longrightarrow> x \<le> k"
    by (rule scan_crash_image [OF assms(1-3) l])
  have t: "take (8 + length (journal_records (take k cs))) img = journal_header @ journal_records (take k cs)"
    by (subst k(4)) simp
  have "b \<le> k" "jw_os w \<le> length img \<longrightarrow> a \<le> k" using k(5) W assms(4) by auto
  moreover have "jw_recover img = Some (\<lparr>js_records = k, js_valid_bytes = 8 + length (journal_records (take k cs)), js_status = st\<rparr>,
      \<lparr>jw_file = journal_header @ journal_records (take k cs), jw_os = 8 + length (journal_records (take k cs)), jw_disk = 0, jw_records = 0\<rparr>)"
    using k(2) t by (simp add: jw_recover_def kJournalHeaderBytes_def Let_def)
  ultimately show ?thesis using k(1-3) by (intro exI [of _ k]) auto
qed

theorem journal_survives_crash_witness:
  "\<exists>w k s. written w two_orders 2 0 \<and> crash_image w (take 90 (jw_file w)) \<and>
     journal_scan (take 90 (jw_file w)) = Some (s, map journal_view (take k two_orders)) \<and> js_status s \<noteq> Corrupt"
proof -
  obtain c1 c2 where c: "two_orders = [c1, c2]" and st: "storable c1" "storable c2"
    by (simp add: two_orders_def storable_def sample_order_def i64_range_def)
  obtain w where w: "written w two_orders 2 0" and f: "jw_file w = journal_header @ journal_record c1 @ journal_record c2"
    and d: "jw_disk w = 8"
  proof -
    let ?w1 = "jw_create\<lparr>jw_file := journal_header @ journal_record c1, jw_records := 1\<rparr>"
    let ?w2 = "?w1\<lparr>jw_file := journal_header @ journal_record c1 @ journal_record c2, jw_records := 1 + 1\<rparr>"
    have "written ?w1 ([] @ [c1]) 0 0"
      by (rule written.appended [OF written.created, of "length (journal_record c1)"]) (simp add: jw_append_def jw_create_def)
    then have "written ?w2 (([] @ [c1]) @ [c2]) 0 0"
      by (rule written.appended [of _ _ _ _ "length (journal_record c2)"]) (simp add: jw_append_def Let_def)
    then have "written (?w2\<lparr>jw_os := length (jw_file ?w2)\<rparr>) (([] @ [c1]) @ [c2]) (length (([] @ [c1]) @ [c2])) 0"
      by (rule written.flushed [of _ _ _ _ True]) (simp add: jw_flush_def)
    moreover have "([] @ [c1]) @ [c2] = two_orders" "length two_orders = 2"
      using c by (simp, simp add: two_orders_def)
    ultimately have "written (?w2\<lparr>jw_os := length (jw_file ?w2)\<rparr>) two_orders 2 0" by (simp only:)
    then show thesis by (rule that) (simp_all add: jw_create_def)
  qed
  have im: "crash_image w (take 90 (jw_file w))"
    unfolding crash_image_def by (intro exI [of _ c1] exI [of _ 0] exI [of _ 90]) (use st in simp)
  have "jw_disk w \<le> length (take 90 (jw_file w))" by (simp add: d f length_journal_record)
  moreover have "\<forall>c \<in> set two_orders. storable c" unfolding c using st by simp
  ultimately show ?thesis using journal_survives_crash [OF w _ im] w im by blast
qed

text \<open>
  C25. Replay is faithful: scanning a complete journal gives back, in order, exactly what was recorded of
  every command (the fields its message carries, its arrival time and its owner), with status clean, and
  appending to a recovered journal continues the same sequence.
\<close>

theorem journal_replay:
  assumes "\<forall>c \<in> set cs. storable c"
  shows "journal_scan (journal_header @ journal_records cs) =
    Some (\<lparr>js_records = length cs, js_valid_bytes = length (journal_header @ journal_records cs), js_status = Clean\<rparr>,
      map journal_view cs)"
proof -
  have "scan_loop (journal_records cs) (s, out) =
    (s\<lparr>js_records := js_records s + length cs, js_valid_bytes := js_valid_bytes s + length (journal_records cs)\<rparr>,
     out @ map journal_view cs)" for s out
    using assms
    by (induction cs arbitrary: s out) (simp_all add: scan_record scan_loop.simps [of "[]"] add.assoc)
  then show ?thesis by (simp add: journal_scan_header)
qed

theorem journal_replay_witness:
  "journal_scan (journal_header @ journal_records two_orders) =
    Some (\<lparr>js_records = 2, js_valid_bytes = 152, js_status = Clean\<rparr>, two_orders)"
proof -
  have st: "\<forall>c \<in> set two_orders. storable c" by (simp add: two_orders_def storable_def sample_order_def i64_range_def)
  have "map journal_view two_orders = two_orders"
    by (simp add: two_orders_def journal_view_def wire_view_def sample_order_def zero_command_def)
  moreover have "length (journal_records two_orders) = 144"
    by (simp add: two_orders_def length_journal_record sample_order_def zero_command_def size_defs)
  moreover have "length two_orders = 2" by (simp add: two_orders_def)
  ultimately show ?thesis using journal_replay [OF st] by simp
qed

text \<open>
  Damage the checksum answers for. The record's length field is intact, and either its checksummed bytes (arrival time, owner and payload) differ from what was written
  in a burst of at most 32 bits and the stored checksum is intact, or the stored checksum alone differs. The reserved field is covered by nothing and may hold anything.
\<close>

definition checksummed :: "Command \<Rightarrow> bytes" where
  "checksummed c = put_le 8 (c_ts c) @ put_le 4 (c_owner c) @ encode c"

definition damaged :: "Command \<Rightarrow> RecordMeta \<Rightarrow> bytes \<Rightarrow> bool" where
  "damaged c m payload \<longleftrightarrow>
    rm_len m = of_nat (length (encode c)) \<and> length payload = length (encode c) \<and>
    (let buf = put_le 8 (rm_ts m) @ put_le 4 (rm_owner m) @ payload in
     (rm_crc m = crc32c (checksummed c) \<and>
       (\<exists>pre xs ys post. msg_bits (checksummed c) = pre @ xs @ post \<and> msg_bits buf = pre @ ys @ post \<and> length xs = length ys \<and> length xs \<le> 32 \<and> xs \<noteq> ys)) \<or>
     (rm_crc m \<noteq> crc32c (checksummed c) \<and> buf = checksummed c))"

text \<open>
  C26. Damage is detected: if a record is \<open>damaged\<close> in its checksummed bytes by a burst of at most 32 bits, wherever it lies, or in its stored checksum, then the scan
  stops at that record with status corrupt and returns exactly the commands before it, whatever follows.
\<close>

theorem journal_detects_bursts:
  assumes "\<forall>c \<in> set cs. storable c" and "damaged c m payload"
  shows "journal_scan (journal_header @ journal_records cs @ put_RecordMeta m @ payload @ rest) =
    Some (\<lparr>js_records = length cs, js_valid_bytes = length (journal_header @ journal_records cs), js_status = Corrupt\<rparr>,
      map journal_view cs)"
proof -
  have len: "rm_len m = of_nat (length (encode c))" "length payload = length (encode c)" using assms(2) by (simp_all add: damaged_def)
  have crc: "crc32c (put_le 8 (rm_ts m) @ put_le 4 (rm_owner m) @ payload) \<noteq> rm_crc m"
    using assms(2) crc_burst [of "checksummed c" _ _ _ "put_le 8 (rm_ts m) @ put_le 4 (rm_owner m) @ payload"] unfolding damaged_def Let_def by metis
  have ne: "payload \<noteq> []" using len(2) encode_size(4) [of c] by (metis length_0_conv)
  have bad: "scan_loop (put_RecordMeta m @ payload @ rest) (s, out) = (s\<lparr>js_status := Corrupt\<rparr>, out)" for s out
    using crc len encode_size [of c] ne
    by (subst scan_loop.simps) (simp add: sizeof_RecordMeta_def Let_def del: length_encode)
  have "scan_loop (journal_records cs @ put_RecordMeta m @ payload @ rest) (s, out) =
    (s\<lparr>js_records := js_records s + length cs, js_valid_bytes := js_valid_bytes s + length (journal_records cs), js_status := Corrupt\<rparr>,
     out @ map journal_view cs)" for s out
    using assms(1)
    by (induction cs arbitrary: s out) (simp_all add: scan_record bad add.assoc)
  then show ?thesis by (simp add: journal_scan_header)
qed

theorem journal_detects_bursts_witness:
  "journal_scan (journal_header @ journal_records [] @
      put_RecordMeta ((get_RecordMeta (journal_record sample_order))\<lparr>rm_ts := 1, rm_owner := 3\<rparr>) @ encode sample_order) =
    Some (\<lparr>js_records = 0, js_valid_bytes = 8, js_status = Corrupt\<rparr>, [])"
proof -
  let ?tl = "msg_bits (put_le 7 (0 :: u64) @ put_le 4 (3 :: u32) @ encode sample_order)"
  let ?m = "(get_RecordMeta (journal_record sample_order))\<lparr>rm_ts := 1, rm_owner := 3\<rparr>"
  have b: "put_le 8 (0 :: u64) = 0 # put_le 7 (0 :: u64)" "put_le 8 (1 :: u64) = 1 # put_le 7 (0 :: u64)"
    by (simp_all add: put_le_Suc eval_nat_numeral)
  have f: "c_ts sample_order = 0" "c_owner sample_order = 3" by (simp_all add: sample_order_def zero_command_def)
  have x: "msg_bits (checksummed sample_order) = [] @ byte_bits 0 @ ?tl"
    and y: "msg_bits (put_le 8 (1 :: u64) @ put_le 4 (3 :: u32) @ encode sample_order) = [] @ byte_bits 1 @ ?tl"
    by (simp_all add: b f msg_bits_def checksummed_def)
  have "byte_bits 0 \<noteq> byte_bits 1" by (simp add: byte_bits_def upt_rec)
  moreover have "length (byte_bits 0) = length (byte_bits 1)" "length (byte_bits 0) \<le> 32" by (simp_all add: byte_bits_def)
  moreover have "rm_len ?m = of_nat (length (encode sample_order))" "rm_crc ?m = crc32c (checksummed sample_order)" "rm_ts ?m = 1" "rm_owner ?m = 3"
    using record_meta [of sample_order "[]"] by (simp_all add: checksummed_def del: length_encode)
  ultimately have "damaged sample_order ?m (encode sample_order)" unfolding damaged_def Let_def using x y by metis
  from journal_detects_bursts [OF _ this, of "[]" "[]"] show ?thesis by simp
qed

end
