(* ===== verification/Client_Ids.thy ===== *)
theory Client_Ids
  imports Bytes
begin

text \<open>
  \<^verbatim>\<open>include/exsim/client_ids.hpp\<close>: SipHash and the map between client order ids and exchange order ids.
  An \<^verbatim>\<open>std::unordered_map\<close> is the association list of its entries; the hash decides their order only,
  which no operation observes.
\<close>

section \<open>SipHash\<close>

type_synonym sip = "u64 \<times> u64 \<times> u64 \<times> u64"

definition sip_round :: "sip \<Rightarrow> sip" where
  "sip_round s =
    (let (v0, v1, v2, v3) = s;
         v0 = v0 + v1; v1 = word_rotl 13 v1; v1 = v1 XOR v0; v0 = word_rotl 32 v0;
         v2 = v2 + v3; v3 = word_rotl 16 v3; v3 = v3 XOR v2;
         v0 = v0 + v3; v3 = word_rotl 21 v3; v3 = v3 XOR v0;
         v2 = v2 + v1; v1 = word_rotl 17 v1; v1 = v1 XOR v2; v2 = word_rotl 32 v2
     in (v0, v1, v2, v3))"

definition sip_compress :: "nat \<Rightarrow> u64 \<Rightarrow> sip \<Rightarrow> sip" where
  "sip_compress c m s =
    (let (v0, v1, v2, v3) = s;
         (v0, v1, v2, v3) = (sip_round ^^ c) (v0, v1, v2, v3 XOR m)
     in (v0 XOR m, v1, v2, v3))"

text \<open>The whole blocks of eight bytes, and what is left of the message.\<close>

fun sip_blocks :: "nat \<Rightarrow> bytes \<Rightarrow> sip \<Rightarrow> sip \<times> bytes" where
  "sip_blocks c p s = (if 8 \<le> length p then sip_blocks c (drop 8 p) (sip_compress c (get_le (take 8 p)) s) else (s, p))"

declare sip_blocks.simps [simp del]

definition siphash :: "nat \<Rightarrow> nat \<Rightarrow> u64 \<Rightarrow> u64 \<Rightarrow> bytes \<Rightarrow> u64" where
  "siphash c d k0 k1 p =
    (let v0 = k0 XOR 0x736f6d6570736575; v1 = k1 XOR 0x646f72616e646f6d;
         v2 = k0 XOR 0x6c7967656e657261; v3 = k1 XOR 0x7465646279746573;
         (s, tail) = sip_blocks c p (v0, v1, v2, v3);
         lst = push_bit 56 (of_nat (length p) AND 0xff) OR get_le tail;
         (v0, v1, v2, v3) = sip_compress c lst s;
         (v0, v1, v2, v3) = (sip_round ^^ d) (v0, v1, v2 XOR 0xff, v3)
     in v0 XOR v1 XOR v2 XOR v3)"

section \<open>The map\<close>

record Key =
  k_client_id :: OrderId
  k_symbol :: SymbolId
  k_owner :: OwnerId

definition put_Key :: "Key \<Rightarrow> bytes" where
  "put_Key k = put_le 8 (k_client_id k) @ put_le 4 (k_symbol k) @ put_le 4 (k_owner k)"

definition key_hash :: "u64 \<Rightarrow> u64 \<Rightarrow> Key \<Rightarrow> u64" where
  "key_hash k0 k1 k = siphash 1 3 k0 k1 (put_Key k)"

record ClientIdMap =
  cm_fwd :: "(Key \<times> OrderId) list"
  cm_rev :: "(OrderId \<times> Key) list"
  cm_next :: OrderId

definition cm_init :: "OrderId \<Rightarrow> ClientIdMap" where
  "cm_init first_exchange_id = \<lparr>cm_fwd = [], cm_rev = [], cm_next = first_exchange_id\<rparr>"

text \<open>\<^verbatim>\<open>try_emplace\<close> and \<^verbatim>\<open>emplace\<close> leave an existing entry alone.\<close>

definition emplace :: "'k \<Rightarrow> 'v \<Rightarrow> ('k \<times> 'v) list \<Rightarrow> ('k \<times> 'v) list" where
  "emplace k v m = (if map_of m k = None then (k, v) # m else m)"

definition for_new :: "Key \<Rightarrow> ClientIdMap \<Rightarrow> OrderId \<times> ClientIdMap" where
  "for_new k m =
    (if k_client_id k = 0 then (0, m)
     else
       (case map_of (cm_fwd m) k of
          Some x \<Rightarrow> (x, m)
        | None \<Rightarrow> (cm_next m, m\<lparr>cm_fwd := (k, cm_next m) # cm_fwd m, cm_rev := emplace (cm_next m) k (cm_rev m),
                                cm_next := cm_next m + 1\<rparr>)))"

definition cm_find :: "Key \<Rightarrow> ClientIdMap \<Rightarrow> OrderId" where
  "cm_find k m = (case map_of (cm_fwd m) k of None \<Rightarrow> 0 | Some x \<Rightarrow> x)"

definition to_client :: "OrderId \<Rightarrow> OwnerId \<Rightarrow> ClientIdMap \<Rightarrow> OrderId" where
  "to_client x viewer m =
    (case map_of (cm_rev m) x of Some k \<Rightarrow> if k_owner k = viewer then k_client_id k else 0 | None \<Rightarrow> 0)"

definition owner_of :: "OrderId \<Rightarrow> ClientIdMap \<Rightarrow> OwnerId" where
  "owner_of x m = (case map_of (cm_rev m) x of None \<Rightarrow> 0 | Some k \<Rightarrow> k_owner k)"

definition retire :: "OrderId \<Rightarrow> ClientIdMap \<Rightarrow> ClientIdMap" where
  "retire x m =
    (case map_of (cm_rev m) x of
       None \<Rightarrow> m
     | Some k \<Rightarrow> m\<lparr>cm_fwd := om_erase k (cm_fwd m), cm_rev := om_erase x (cm_rev m)\<rparr>)"

definition cm_live :: "ClientIdMap \<Rightarrow> nat" where
  "cm_live m = length (cm_rev m)"

section \<open>The invariant\<close>

text \<open>
  The two directions are inverse to each other, and every assigned id is non-zero and below the next one.
  \<open>n\<close> counts how many ids can still be assigned before the counter wraps.
\<close>

definition cm_inv :: "ClientIdMap \<Rightarrow> bool" where
  "cm_inv m \<longleftrightarrow> distinct (map fst (cm_fwd m)) \<and> distinct (map fst (cm_rev m)) \<and>
     (\<forall>k x. map_of (cm_fwd m) k = Some x \<longleftrightarrow> map_of (cm_rev m) x = Some k) \<and>
     (\<forall>k x. map_of (cm_fwd m) k = Some x \<longrightarrow> x \<noteq> 0 \<and> x < cm_next m \<and> k_client_id k \<noteq> 0) \<and> cm_next m \<noteq> 0"

definition can_issue :: "nat \<Rightarrow> ClientIdMap \<Rightarrow> bool" where
  "can_issue n m \<longleftrightarrow> unat (cm_next m) + n < 2 ^ 64"

section \<open>The interface\<close>

text \<open>
  What the gateway relies on: \<open>ids m\<close> is a partial injection from client names to engine ids, \<open>assign\<close> names
  the live order or adds a fresh one, \<open>drop\<close> removes one order, and the views read it.
\<close>

locale id_table =
  fixes inv :: "'m \<Rightarrow> bool" and room :: "nat \<Rightarrow> 'm \<Rightarrow> bool" and ids :: "'m \<Rightarrow> Key \<rightharpoonup> OrderId"
    and assign :: "Key \<Rightarrow> 'm \<Rightarrow> OrderId \<times> 'm" and look :: "Key \<Rightarrow> 'm \<Rightarrow> OrderId"
    and view :: "OrderId \<Rightarrow> OwnerId \<Rightarrow> 'm \<Rightarrow> OrderId" and party :: "OrderId \<Rightarrow> 'm \<Rightarrow> OwnerId" and drop_id :: "OrderId \<Rightarrow> 'm \<Rightarrow> 'm"
  assumes inj_ids: "inv m \<Longrightarrow> ids m k = Some x \<Longrightarrow> ids m k' = Some x \<Longrightarrow> k = k'"
    and ids_nz: "inv m \<Longrightarrow> ids m k = Some x \<Longrightarrow> x \<noteq> 0 \<and> k_client_id k \<noteq> 0"
    and assign_live: "inv m \<Longrightarrow> ids m k = Some x \<Longrightarrow> assign k m = (x, m)"
    and assign_zero: "k_client_id k = 0 \<Longrightarrow> assign k m = (0, m)"
    and assign_fresh: "inv m \<Longrightarrow> room (Suc n) m \<Longrightarrow> k_client_id k \<noteq> 0 \<Longrightarrow> ids m k = None \<Longrightarrow> assign k m = (x, m') \<Longrightarrow>
      inv m' \<and> room n m' \<and> x \<noteq> 0 \<and> x \<notin> ran (ids m) \<and> ids m' = (ids m)(k \<mapsto> x)"
    and look_law: "look k m = (case ids m k of None \<Rightarrow> 0 | Some x \<Rightarrow> x)"
    and view_law: "inv m \<Longrightarrow> ids m k = Some x \<Longrightarrow> view x w m = (if k_owner k = w then k_client_id k else 0)"
    and view_none: "inv m \<Longrightarrow> x \<notin> ran (ids m) \<Longrightarrow> view x w m = 0"
    and party_law: "inv m \<Longrightarrow> ids m k = Some x \<Longrightarrow> party x m = k_owner k"
    and drop_law: "inv m \<Longrightarrow> inv (drop_id x m) \<and> ids (drop_id x m) = (\<lambda>k. if ids m k = Some x then None else ids m k)"
    and drop_room: "room n m \<Longrightarrow> room n (drop_id x m)"
begin

lemma drop_ran: "inv m \<Longrightarrow> ran (ids (drop_id x m)) = ran (ids m) - {x}"
  by (auto simp: drop_law ran_def split: if_splits) force

text \<open>Dropping a list of orders.\<close>

lemma drops:
  "inv m \<Longrightarrow> inv (foldl (\<lambda>m x. drop_id x m) m xs) \<and>
   ids (foldl (\<lambda>m x. drop_id x m) m xs) = (\<lambda>k. case ids m k of Some x \<Rightarrow> if x \<in> set xs then None else Some x | None \<Rightarrow> None)"
proof (induction xs arbitrary: m)
  case (Cons x xs)
  then show ?case using drop_law [OF Cons.prems, of x] by (auto simp: fun_eq_iff split: option.splits)
qed (auto simp: fun_eq_iff split: option.splits)

lemma drops_room: "room n m \<Longrightarrow> room n (foldl (\<lambda>m x. drop_id x m) m xs)"
  by (induction xs arbitrary: m) (simp_all add: drop_room)

end

lemma cm_invD:
  assumes "cm_inv m"
  shows "distinct (map fst (cm_fwd m))" "distinct (map fst (cm_rev m))"
    "map_of (cm_fwd m) k = Some x \<longleftrightarrow> map_of (cm_rev m) x = Some k"
    "map_of (cm_fwd m) k = Some x \<Longrightarrow> x \<noteq> 0 \<and> x < cm_next m \<and> k_client_id k \<noteq> 0" "cm_next m \<noteq> 0"
  using assms by (simp_all add: cm_inv_def)

lemma next_not_assigned: "cm_inv m \<Longrightarrow> map_of (cm_rev m) (cm_next m) = None"
  using cm_invD(3,4) by (metis less_irrefl not_None_eq)

lemma for_new_fresh:
  assumes m: "cm_inv m" and r: "can_issue (Suc n) m" and k: "k_client_id k \<noteq> 0" "map_of (cm_fwd m) k = None"
    and f: "for_new k m = (x, m')"
  shows "cm_inv m' \<and> can_issue n m' \<and> x \<noteq> 0 \<and> x \<notin> ran (map_of (cm_fwd m)) \<and> map_of (cm_fwd m') = (map_of (cm_fwd m))(k \<mapsto> x)"
proof -
  let ?x = "cm_next m"
  have n: "map_of (cm_rev m) ?x = None" by (rule next_not_assigned [OF m])
  have x: "x = ?x" and m': "m' = m\<lparr>cm_fwd := (k, ?x) # cm_fwd m, cm_rev := (?x, k) # cm_rev m, cm_next := ?x + 1\<rparr>"
    using f k n by (auto simp: for_new_def emplace_def)
  have u: "unat (?x + 1) = unat ?x + 1" using r by (simp add: can_issue_def unat_word_ariths)
  have lt: "y < ?x + 1" if "y \<le> ?x" for y using that u by (simp add: word_less_nat_alt word_le_nat_alt)
  have "map_of (cm_fwd m') k' = Some y \<longleftrightarrow> map_of (cm_rev m') y = Some k'" for k' y
    using cm_invD(3) [OF m, of k' y] k(2) n by (auto simp: m')
  moreover have "y \<noteq> 0 \<and> y < cm_next m' \<and> k_client_id k' \<noteq> 0" if "map_of (cm_fwd m') k' = Some y" for k' y
    using that cm_invD(4) [OF m, of k' y] cm_invD(5) [OF m] k(1) lt by (auto simp: m' split: if_splits)
  moreover have "?x + 1 \<noteq> 0" using u by (metis add_is_0 one_neq_zero unat_0)
  moreover have "distinct (map fst (cm_fwd m'))" "distinct (map fst (cm_rev m'))"
    using cm_invD(1,2) [OF m] k(2) n by (auto simp: m' map_of_eq_None_iff)
  moreover have "?x \<notin> ran (map_of (cm_fwd m))" using cm_invD(4) [OF m] by (auto simp: ran_def)
  moreover have "can_issue n m'" using r u by (simp add: can_issue_def m')
  ultimately show ?thesis using x cm_invD(5) [OF m] by (auto simp: cm_inv_def m')
qed

lemma retire_law:
  assumes m: "cm_inv m"
  shows "cm_inv (retire x m) \<and> map_of (cm_fwd (retire x m)) = (\<lambda>k. if map_of (cm_fwd m) k = Some x then None else map_of (cm_fwd m) k)"
proof (cases "map_of (cm_rev m) x")
  case None
  then show ?thesis using m cm_invD(3) [OF m] by (auto simp: retire_def fun_eq_iff)
next
  case (Some k)
  then have kx: "map_of (cm_fwd m) k = Some x" using cm_invD(3) [OF m] by simp
  have eq: "(map_of (cm_fwd m) k' = Some x) = (k' = k)" for k'
    using cm_invD(3) [OF m] Some by (metis option.inject)
  have eq': "(map_of (cm_rev m) y = Some k) = (y = x)" for y
    using cm_invD(3) [OF m] kx by (metis option.inject)
  have r: "retire x m = m\<lparr>cm_fwd := om_erase k (cm_fwd m), cm_rev := om_erase x (cm_rev m)\<rparr>"
    using Some by (simp add: retire_def)
  have "map_of (cm_fwd (retire x m)) k' = Some y \<longleftrightarrow> map_of (cm_rev (retire x m)) y = Some k'" for k' y
    using cm_invD(3) [OF m, of k' y] eq [of k'] eq' [of y] by (auto simp: r map_of_om_erase)
  moreover have "y \<noteq> 0 \<and> y < cm_next m \<and> k_client_id k' \<noteq> 0" if "map_of (cm_fwd (retire x m)) k' = Some y" for k' y
    using that cm_invD(4) [OF m, of k' y] by (simp add: r map_of_om_erase split: if_splits)
  moreover have "distinct (map fst (cm_fwd (retire x m)))" "distinct (map fst (cm_rev (retire x m)))"
    using cm_invD(1,2) [OF m] by (simp_all add: r om_erase_def distinct_map_filter)
  moreover have "map_of (cm_fwd (retire x m)) = (\<lambda>k. if map_of (cm_fwd m) k = Some x then None else map_of (cm_fwd m) k)"
    using eq by (auto simp: r map_of_om_erase fun_eq_iff)
  ultimately show ?thesis using cm_invD(5) [OF m] by (simp add: cm_inv_def r)
qed

interpretation cm: id_table cm_inv can_issue "\<lambda>m. map_of (cm_fwd m)" for_new cm_find to_client owner_of retire
proof
  fix m k x k' w n m'
  assume m: "cm_inv m"
  show "k = k'" if "map_of (cm_fwd m) k = Some x" "map_of (cm_fwd m) k' = Some x"
    using that cm_invD(3) [OF m] by (metis option.inject)
  show "x \<noteq> 0 \<and> k_client_id k \<noteq> 0" if "map_of (cm_fwd m) k = Some x" using that cm_invD(4) [OF m] by blast
  show "for_new k m = (x, m)" if "map_of (cm_fwd m) k = Some x"
    using that cm_invD(4) [OF m that] by (simp add: for_new_def)
  show "cm_inv m' \<and> can_issue n m' \<and> x \<noteq> 0 \<and> x \<notin> ran (map_of (cm_fwd m)) \<and> map_of (cm_fwd m') = (map_of (cm_fwd m))(k \<mapsto> x)"
    if "can_issue (Suc n) m" "k_client_id k \<noteq> 0" "map_of (cm_fwd m) k = None" "for_new k m = (x, m')"
    using for_new_fresh [OF m that] .
  show "to_client x w m = (if k_owner k = w then k_client_id k else 0)" if "map_of (cm_fwd m) k = Some x"
    using that cm_invD(3) [OF m] by (simp add: to_client_def)
  show "to_client x w m = 0" if "x \<notin> ran (map_of (cm_fwd m))"
    using that cm_invD(3) [OF m] by (auto simp: to_client_def ran_def split: option.splits)
  show "owner_of x m = k_owner k" if "map_of (cm_fwd m) k = Some x"
    using that cm_invD(3) [OF m] by (simp add: owner_of_def)
  show "cm_inv (retire x m) \<and> map_of (cm_fwd (retire x m)) = (\<lambda>k. if map_of (cm_fwd m) k = Some x then None else map_of (cm_fwd m) k)"
    by (rule retire_law [OF m])
next
  show "for_new k m = (0, m)" if "k_client_id k = 0" for k m using that by (simp add: for_new_def)
  show "cm_find k m = (case map_of (cm_fwd m) k of None \<Rightarrow> 0 | Some x \<Rightarrow> x)" for k m by (simp add: cm_find_def)
  show "can_issue n (retire x m)" if "can_issue n m" for n x m
    using that by (simp add: can_issue_def retire_def split: option.splits)
qed

lemma cm_init_inv: "x \<noteq> 0 \<Longrightarrow> cm_inv (cm_init x)"
  by (simp add: cm_inv_def cm_init_def)

end
