(* ===== verification/Spsc_Queue.thy ===== *)
theory Spsc_Queue
  imports Prelude
begin

text \<open>
  \<^verbatim>\<open>include/exsim/spsc_queue.hpp\<close>: the bounded ring between one producer and one consumer thread. The
  operations are functions of the value an acquire load of the other side's index returns. The step
  relation interleaves them at the granularity of the single shared accesses, and lets an acquire load
  return any value the other side has published since the last one this side saw: what acquire and
  release ordering guarantee is that whatever was written before that store is visible.
\<close>

section \<open>State and operations\<close>

text \<open>
  \<open>sq_writing\<close>: the producer has filled its slot and not yet published it. \<open>sq_reading\<close>: the consumer holds
  the pointer that \<^verbatim>\<open>front\<close> returned. Both are program counters of the two threads.
\<close>

record 'a SpscQueue =
  sq_tail :: u64
  sq_head_cache :: u64
  sq_head :: u64
  sq_tail_cache :: u64
  sq_cap :: u64
  sq_mask :: u64
  sq_buf :: "'a list"
  sq_writing :: bool
  sq_reading :: bool

definition sq_init :: "'a \<Rightarrow> nat \<Rightarrow> 'a SpscQueue" where
  "sq_init z capacity =
    (let cap = bit_ceil (if capacity < 2 then 2 else capacity) in
     \<lparr>sq_tail = 0, sq_head_cache = 0, sq_head = 0, sq_tail_cache = 0, sq_cap = of_nat cap, sq_mask = of_nat cap - 1,
      sq_buf = replicate cap z, sq_writing = False, sq_reading = False\<rparr>)"

definition push_check :: "u64 \<Rightarrow> 'a SpscQueue \<Rightarrow> 'a SpscQueue \<times> bool" where
  "push_check hv q =
    (if sq_tail q - sq_head_cache q = sq_cap q then
       (let q = q\<lparr>sq_head_cache := hv\<rparr> in (q, sq_tail q - sq_head_cache q \<noteq> sq_cap q))
     else (q, True))"

definition push_write :: "'a \<Rightarrow> 'a SpscQueue \<Rightarrow> 'a SpscQueue" where
  "push_write v q = q\<lparr>sq_buf := (sq_buf q)[unat (sq_tail q AND sq_mask q) := v], sq_writing := True\<rparr>"

definition push_publish :: "'a SpscQueue \<Rightarrow> 'a SpscQueue" where
  "push_publish q = q\<lparr>sq_tail := sq_tail q + 1, sq_writing := False\<rparr>"

definition try_push :: "u64 \<Rightarrow> 'a \<Rightarrow> 'a SpscQueue \<Rightarrow> 'a SpscQueue \<times> bool" where
  "try_push hv v q =
    (let (q, ok) = push_check hv q in if ok then (push_publish (push_write v q), True) else (q, False))"

text \<open>\<open>None\<close> is the null pointer; otherwise the element the pointer refers to.\<close>

definition front :: "u64 \<Rightarrow> 'a SpscQueue \<Rightarrow> 'a SpscQueue \<times> 'a option" where
  "front tv q =
    (let h = sq_head q;
         q = (if h = sq_tail_cache q then q\<lparr>sq_tail_cache := tv\<rparr> else q)
     in if h = sq_tail_cache q then (q, None)
        else (q\<lparr>sq_reading := True\<rparr>, Some (sq_buf q ! unat (h AND sq_mask q))))"

definition pop :: "'a SpscQueue \<Rightarrow> 'a SpscQueue" where
  "pop q = q\<lparr>sq_head := sq_head q + 1, sq_reading := False\<rparr>"

definition try_pop :: "u64 \<Rightarrow> 'a SpscQueue \<Rightarrow> 'a SpscQueue \<times> 'a option" where
  "try_pop tv q = (case front tv q of (q, None) \<Rightarrow> (q, None) | (q, Some v) \<Rightarrow> (pop q, Some v))"

text \<open>The slot \<^verbatim>\<open>prefetch\<close> touches, if any.\<close>

definition prefetch :: "u64 \<Rightarrow> 'a SpscQueue \<Rightarrow> nat option" where
  "prefetch ahead q =
    (if sq_tail_cache q - sq_head q > ahead then Some (unat ((sq_head q + ahead) AND sq_mask q)) else None)"

definition sq_size_approx :: "'a SpscQueue \<Rightarrow> u64" where
  "sq_size_approx q = sq_tail q - sq_head q"

section \<open>Interleavings\<close>

text \<open>
  The ghost components are the sequences of all published and of all consumed elements, and the last
  values of the two indices that the other side has seen: a load returns a value at least as new.
\<close>

record 'a sq_state =
  g_q :: "'a SpscQueue"
  g_pushed :: "'a list"
  g_popped :: "'a list"
  g_seen_head :: nat
  g_seen_tail :: nat

definition sq_start :: "'a \<Rightarrow> nat \<Rightarrow> 'a sq_state" where
  "sq_start z capacity = \<lparr>g_q = sq_init z capacity, g_pushed = [], g_popped = [], g_seen_head = 0, g_seen_tail = 0\<rparr>"

inductive sq_step :: "'a sq_state \<Rightarrow> 'a sq_state \<Rightarrow> bool" where
  fills: "\<not> sq_writing (g_q s) \<Longrightarrow> g_seen_head s \<le> h \<Longrightarrow> h \<le> length (g_popped s) \<Longrightarrow>
    push_check (of_nat h) (g_q s) = (q, True) \<Longrightarrow>
    sq_step s (s\<lparr>g_q := push_write v q,
      g_seen_head := (if sq_tail (g_q s) - sq_head_cache (g_q s) = sq_cap (g_q s) then h else g_seen_head s)\<rparr>)"
| full: "\<not> sq_writing (g_q s) \<Longrightarrow> g_seen_head s \<le> h \<Longrightarrow> h \<le> length (g_popped s) \<Longrightarrow>
    push_check (of_nat h) (g_q s) = (q, False) \<Longrightarrow> sq_step s (s\<lparr>g_q := q, g_seen_head := h\<rparr>)"
| publish: "sq_writing (g_q s) \<Longrightarrow>
    sq_step s (s\<lparr>g_q := push_publish (g_q s),
      g_pushed := g_pushed s @ [sq_buf (g_q s) ! unat (sq_tail (g_q s) AND sq_mask (g_q s))]\<rparr>)"
| look: "\<not> sq_reading (g_q s) \<Longrightarrow> g_seen_tail s \<le> t \<Longrightarrow> t \<le> length (g_pushed s) \<Longrightarrow> front (of_nat t) (g_q s) = (q, r) \<Longrightarrow>
    sq_step s (s\<lparr>g_q := q, g_seen_tail := (if sq_head (g_q s) = sq_tail_cache (g_q s) then t else g_seen_tail s)\<rparr>)"
| release: "sq_reading (g_q s) \<Longrightarrow>
    sq_step s (s\<lparr>g_q := pop (g_q s),
      g_popped := g_popped s @ [sq_buf (g_q s) ! unat (sq_head (g_q s) AND sq_mask (g_q s))]\<rparr>)"

inductive sq_reach :: "'a \<Rightarrow> nat \<Rightarrow> 'a sq_state \<Rightarrow> bool" for z capacity where
  start: "sq_reach z capacity (sq_start z capacity)"
| step: "sq_reach z capacity s \<Longrightarrow> sq_step s s' \<Longrightarrow> sq_reach z capacity s'"

section \<open>The invariant\<close>

text \<open>
  The free-running counters are the lengths of the ghost sequences modulo \<open>2 ^ 64\<close>. The slots between head
  and tail hold the elements in flight.
\<close>

definition sq_inv :: "nat \<Rightarrow> 'a sq_state \<Rightarrow> bool" where
  "sq_inv k s \<longleftrightarrow>
     (let q = g_q s; T = length (g_pushed s); H = length (g_popped s) in
      sq_cap q = of_nat (2 ^ k) \<and> sq_mask q = mask k \<and> length (sq_buf q) = 2 ^ k \<and>
      sq_tail q = of_nat T \<and> sq_head q = of_nat H \<and>
      sq_head_cache q = of_nat (g_seen_head s) \<and> sq_tail_cache q = of_nat (g_seen_tail s) \<and>
      g_seen_head s \<le> H \<and> H \<le> g_seen_tail s \<and> g_seen_tail s \<le> T \<and> T \<le> g_seen_head s + 2 ^ k \<and>
      (sq_writing q \<longrightarrow> T < g_seen_head s + 2 ^ k) \<and> (sq_reading q \<longrightarrow> H < g_seen_tail s) \<and>
      g_popped s = take H (g_pushed s) \<and>
      (\<forall>i. H \<le> i \<and> i < T \<longrightarrow> sq_buf q ! (i mod 2 ^ k) = g_pushed s ! i))"

lemma slot_index:
  assumes "k < 64"
  shows "unat ((of_nat n :: u64) AND mask k) = n mod 2 ^ k"
proof -
  have "unat ((of_nat n :: u64) AND mask k) = n mod 2 ^ LENGTH(64) mod 2 ^ k"
    by (simp only: unat_and_mask unat_of_nat)
  also have "\<dots> = n mod 2 ^ k"
    by (rule mod_mod_cancel, rule le_imp_power_dvd) (use assms in simp)
  finally show ?thesis .
qed

lemma of_nat_diff_eq:
  assumes "a \<le> b" and "b \<le> a + n" and "n < 2 ^ 64"
  shows "(of_nat b - of_nat a :: u64) = of_nat n \<longleftrightarrow> b - a = n"
proof -
  have d: "(of_nat b - of_nat a :: u64) = of_nat (b - a)" using assms(1) by (simp add: of_nat_diff)
  have "unat (of_nat (b - a) :: u64) = b - a" "unat (of_nat n :: u64) = n"
    by (rule unat_of_small, use assms in linarith)+
  then show ?thesis unfolding d by metis
qed

lemma of_nat_eq:
  assumes "a \<le> b" and "b < a + 2 ^ 64"
  shows "(of_nat a :: u64) = of_nat b \<longleftrightarrow> a = b"
proof -
  have d: "(of_nat b - of_nat a :: u64) = of_nat (b - a)" using assms(1) by (simp add: of_nat_diff)
  have "unat (of_nat (b - a) :: u64) = b - a" by (rule unat_of_small) (use assms in linarith)
  then have "(of_nat b - of_nat a :: u64) = 0 \<longleftrightarrow> b - a = 0" unfolding d by (simp only: unat_eq_0 [symmetric])
  then show ?thesis using assms(1) by auto
qed

lemma mod_distinct: "a \<le> i \<Longrightarrow> i < a + n \<Longrightarrow> a \<le> j \<Longrightarrow> j < a + n \<Longrightarrow> i mod n = j mod n \<Longrightarrow> i = (j :: nat)"
proof (induction i j rule: linorder_wlog)
  case (le i j)
  have "(j - i) mod n = 0" using le(1,6) by (metis mod_eq_dvd_iff_nat mod_eq_0_iff_dvd)
  moreover have "j - i < n" using le(1-5) by linarith
  ultimately show ?case using le(1) by simp
qed metis

lemma sq_invD:
  assumes "sq_inv k s"
  shows "sq_cap (g_q s) = of_nat (2 ^ k)" "sq_mask (g_q s) = mask k" "length (sq_buf (g_q s)) = 2 ^ k"
    "sq_tail (g_q s) = of_nat (length (g_pushed s))" "sq_head (g_q s) = of_nat (length (g_popped s))"
    "sq_head_cache (g_q s) = of_nat (g_seen_head s)" "sq_tail_cache (g_q s) = of_nat (g_seen_tail s)"
    "g_seen_head s \<le> length (g_popped s)" "length (g_popped s) \<le> g_seen_tail s" "g_seen_tail s \<le> length (g_pushed s)"
    "length (g_pushed s) \<le> g_seen_head s + 2 ^ k"
    "sq_writing (g_q s) \<Longrightarrow> length (g_pushed s) < g_seen_head s + 2 ^ k"
    "sq_reading (g_q s) \<Longrightarrow> length (g_popped s) < g_seen_tail s"
    "g_popped s = take (length (g_popped s)) (g_pushed s)"
    "length (g_popped s) \<le> i \<Longrightarrow> i < length (g_pushed s) \<Longrightarrow> sq_buf (g_q s) ! (i mod 2 ^ k) = g_pushed s ! i"
  using assms unfolding sq_inv_def Let_def by auto

lemma push_check_inv:
  assumes I: "sq_inv k s" and k: "k < 64" and h: "g_seen_head s \<le> h" "h \<le> length (g_popped s)"
    and c: "push_check (of_nat h) (g_q s) = (q, ok)"
  defines "h' \<equiv> (if sq_tail (g_q s) - sq_head_cache (g_q s) = sq_cap (g_q s) then h else g_seen_head s)"
  shows "q = (g_q s)\<lparr>sq_head_cache := of_nat h'\<rparr>" "ok \<longleftrightarrow> length (g_pushed s) < h' + 2 ^ k"
    "g_seen_head s \<le> h'" "h' \<le> length (g_popped s)" "\<not> ok \<Longrightarrow> h' = h"
proof -
  note D = sq_invD [OF I]
  have n: "(2 :: nat) ^ k < 2 ^ 64" using k by (rule power_strict_increasing) simp
  have full: "(sq_tail (g_q s) - of_nat a = sq_cap (g_q s)) = (length (g_pushed s) - a = 2 ^ k)"
    if "a \<le> length (g_popped s)" "g_seen_head s \<le> a" for a
    unfolding D(1,4) by (rule of_nat_diff_eq) (use that D n in auto)
  have seen: "sq_head_cache (g_q s) = of_nat (g_seen_head s)" by (rule D(6))
  have *: "(length (g_pushed s) - a = 2 ^ k) = (\<not> length (g_pushed s) < a + 2 ^ k)"
    if "a \<le> length (g_popped s)" "g_seen_head s \<le> a" for a
    using that D(8-11) by auto
  show "g_seen_head s \<le> h'" "h' \<le> length (g_popped s)" using h D(8) by (auto simp: h'_def)
  show "q = (g_q s)\<lparr>sq_head_cache := of_nat h'\<rparr>" "ok \<longleftrightarrow> length (g_pushed s) < h' + 2 ^ k" "\<not> ok \<Longrightarrow> h' = h"
    using c full [OF h(2,1)] full [of "g_seen_head s"] * [OF h(2,1)] * [of "g_seen_head s"] D(8)
    by (auto simp: push_check_def h'_def Let_def seen split: if_splits)
qed

lemma sq_step_inv:
  assumes "sq_step s s'" and I: "sq_inv k s" and k: "k < 64"
  shows "sq_inv k s'"
  using assms(1)
proof cases
  case (fills h q v)
  note D = sq_invD [OF I] and C = push_check_inv [OF I k fills(3,4,5)]
  let ?h = "if sq_tail (g_q s) - sq_head_cache (g_q s) = sq_cap (g_q s) then h else g_seen_head s"
  let ?T = "length (g_pushed s)"
  have lt: "?T < ?h + 2 ^ k" using C(2) by simp
  have ix: "unat (sq_tail q AND sq_mask q) = ?T mod 2 ^ k"
    using D(2,4) C(1) by (simp add: slot_index [OF k])
  have "sq_buf (push_write v q) ! (i mod 2 ^ k) = g_pushed s ! i" if i: "length (g_popped s) \<le> i" "i < ?T" for i
  proof -
    have "i mod 2 ^ k \<noteq> ?T mod 2 ^ k"
      using mod_distinct [of "length (g_popped s)" i "2 ^ k" ?T] i lt C(4) by auto
    then show ?thesis using D(15) [OF i] C(1) ix by (simp add: push_write_def)
  qed
  then show ?thesis
    using D lt C(3,4) unfolding fills(1) sq_inv_def Let_def by (simp add: push_write_def C(1))
next
  case (full h q)
  note D = sq_invD [OF I] and C = push_check_inv [OF I k full(3,4,5)]
  show ?thesis using D C full(2,3,4) unfolding full(1) sq_inv_def Let_def by auto
next
  case publish
  note D = sq_invD [OF I]
  let ?T = "length (g_pushed s)"
  show ?thesis
    using D publish(2) unfolding publish(1) sq_inv_def Let_def
    by (auto simp: push_publish_def slot_index [OF k] nth_append less_Suc_eq)
next
  case (look t q r)
  note D = sq_invD [OF I]
  have n: "(2 :: nat) ^ k < 2 ^ 64" using k by (rule power_strict_increasing) simp
  have e: "(sq_head (g_q s) = of_nat a) = (length (g_popped s) = a)" if "length (g_popped s) \<le> a" "a \<le> length (g_pushed s)" for a
    unfolding D(5) by (rule of_nat_eq) (use that D(8,11) n in linarith)+
  have tc: "length (g_popped s) \<le> t" using look(3) D(9) by simp
  show ?thesis
    using D look(3,4,5) e [OF tc look(4)] e [OF D(9,10)] unfolding look(1) sq_inv_def Let_def
    by (auto simp: front_def Let_def split: if_splits)
next
  case release
  note D = sq_invD [OF I]
  let ?H = "length (g_popped s)"
  have lt: "?H < g_seen_tail s" using D(13) release(2) by simp
  then have "sq_buf (g_q s) ! (?H mod 2 ^ k) = g_pushed s ! ?H" using D(10,15) by simp
  moreover have "take (Suc ?H) (g_pushed s) = g_popped s @ [g_pushed s ! ?H]"
    using lt D(10,14) by (simp add: take_Suc_conv_app_nth)
  ultimately show ?thesis
    using D lt unfolding release(1) sq_inv_def Let_def by (auto simp: pop_def slot_index [OF k])
qed

lemma sq_init_inv:
  assumes "capacity \<le> 2 ^ 62"
  obtains k where "0 < k" "k < 64" "sq_inv k (sq_start z capacity)"
proof -
  let ?c = "if capacity < 2 then 2 else capacity" and ?k = "bit_width ((if capacity < 2 then 2 else capacity) - 1)"
  have w0: "bit_width n \<le> m" if "n < 2 ^ m" for n m
    using that
  proof (induction n arbitrary: m rule: bit_width.induct)
    case (1 n)
    show ?case
    proof (cases "n = 0")
      case False
      with 1(2) obtain m' where m: "m = Suc m'" by (cases m) auto
      have "n div 2 < 2 ^ m'" using 1(2) m by auto
      from 1(1) [OF False this] m False show ?thesis by (simp add: bit_width.simps [of n])
    qed (simp add: bit_width.simps)
  qed
  have "?k \<le> 62" by (rule w0) (use assms in \<open>auto\<close>)
  moreover have "0 < ?k" by (subst bit_width.simps) auto
  moreover from \<open>?k \<le> 62\<close> have "sq_inv ?k (sq_start z capacity)"
    by (simp add: sq_inv_def sq_start_def sq_init_def Let_def bit_ceil_def mask_eq_exp_minus_1)
  ultimately show thesis by (intro that [of ?k]) auto
qed

lemma sq_reach_inv:
  assumes "sq_reach z capacity s" and "capacity \<le> 2 ^ 62"
  obtains k where "k < 64" "sq_inv k s"
proof -
  obtain k where k: "0 < k" "k < 64" "sq_inv k (sq_start z capacity)" by (rule sq_init_inv [OF assms(2)])
  from assms(1) have "sq_inv k s" by (induction rule: sq_reach.induct) (use k sq_step_inv in auto)
  with k(2) show thesis by (rule that)
qed

section \<open>Properties\<close>

text \<open>
  C27. Whatever the interleaving and however stale the loads of the other side's index, the consumer receives
  a prefix of what the producer published, in order and without loss or duplication, at most the capacity
  is in flight, and the two threads never touch the same slot at the same time.
\<close>

theorem spsc_fifo_race_free:
  assumes "sq_reach z capacity s" and "capacity \<le> 2 ^ 62"
  shows "g_popped s = take (length (g_popped s)) (g_pushed s) \<and>
    length (g_pushed s) - length (g_popped s) \<le> unat (sq_cap (g_q s)) \<and>
    sq_size_approx (g_q s) = of_nat (length (g_pushed s) - length (g_popped s)) \<and>
    (sq_writing (g_q s) \<and> sq_reading (g_q s) \<longrightarrow>
      unat (sq_tail (g_q s) AND sq_mask (g_q s)) \<noteq> unat (sq_head (g_q s) AND sq_mask (g_q s)))"
proof -
  obtain k where k: "k < 64" and I: "sq_inv k s" by (rule sq_reach_inv [OF assms])
  note D = sq_invD [OF I]
  have n: "(2 :: nat) ^ k < 2 ^ 64" using k by (rule power_strict_increasing) simp
  have "unat (sq_cap (g_q s)) = 2 ^ k" unfolding D(1) by (rule unat_of_small [OF n])
  moreover have "length (g_pushed s) mod 2 ^ k \<noteq> length (g_popped s) mod 2 ^ k"
    if "sq_writing (g_q s)" "sq_reading (g_q s)"
    using mod_distinct [of "length (g_popped s)" "length (g_pushed s)" "2 ^ k" "length (g_popped s)"]
      D(12) [OF that(1)] D(13) [OF that(2)] D(8,10) by fastforce
  moreover have "length (g_popped s) \<le> length (g_pushed s)" using D(9,10) by simp
  ultimately show ?thesis
    using D(2,4,5,8,11,14) by (auto simp: slot_index [OF k] sq_size_approx_def of_nat_diff)
qed

theorem spsc_fifo_race_free_witness:
  "\<exists>s :: nat sq_state. sq_reach 0 1 s \<and> g_pushed s = [7] \<and> g_popped s = [] \<and>
    length (g_pushed s) - length (g_popped s) \<le> unat (sq_cap (g_q s))"
proof -
  let ?q = "\<lparr>sq_tail = 0, sq_head_cache = 0, sq_head = 0, sq_tail_cache = 0, sq_cap = 2, sq_mask = 1,
    sq_buf = [0, 0], sq_writing = False, sq_reading = False\<rparr> :: nat SpscQueue"
  have "bit_ceil 2 = 2" by code_simp
  then have q: "sq_init 0 1 = ?q" by (simp add: sq_init_def Let_def numeral_2_eq_2)
  let ?s0 = "sq_start (0 :: nat) 1"
  let ?s1 = "?s0\<lparr>g_q := push_write 7 ?q, g_seen_head := (if sq_tail (g_q ?s0) - sq_head_cache (g_q ?s0) = sq_cap (g_q ?s0) then 0 else g_seen_head ?s0)\<rparr>"
  have s0: "g_q ?s0 = ?q" unfolding sq_start_def q by simp
  have "sq_step ?s0 ?s1"
    by (rule sq_step.fills) (simp_all add: s0 q [simplified] push_check_def sq_start_def)
  with sq_reach.start have r1: "sq_reach 0 1 ?s1" by (rule sq_reach.step)
  have w: "sq_writing (g_q ?s1)" by (simp add: push_write_def)
  let ?s2 = "?s1\<lparr>g_q := push_publish (g_q ?s1), g_pushed := g_pushed ?s1 @ [sq_buf (g_q ?s1) ! unat (sq_tail (g_q ?s1) AND sq_mask (g_q ?s1))]\<rparr>"
  from r1 sq_step.publish [OF w] have r: "sq_reach 0 1 ?s2" by (rule sq_reach.step)
  have "g_pushed ?s2 = [7]" "g_popped ?s2 = []" by (simp_all add: sq_start_def push_write_def)
  with spsc_fifo_race_free [OF r] r show ?thesis by (intro exI [of _ ?s2]) simp
qed

text \<open>
  C28. Nothing is refused without need: with an up-to-date load, a push is refused exactly when the ring holds
  its capacity, and the consumer is given nothing exactly when the ring is empty, and otherwise the oldest
  element not yet consumed. Neither operation loops.
\<close>

theorem spsc_progress:
  assumes "sq_reach z capacity s" and "capacity \<le> 2 ^ 62" and "\<not> sq_writing (g_q s)"
  shows "(snd (try_push (of_nat (length (g_popped s))) v (g_q s)) \<longleftrightarrow>
      length (g_pushed s) - length (g_popped s) < unat (sq_cap (g_q s))) \<and>
    snd (try_pop (of_nat (length (g_pushed s))) (g_q s)) =
      (if length (g_popped s) < length (g_pushed s) then Some (g_pushed s ! length (g_popped s)) else None)"
proof -
  obtain k where k: "k < 64" and I: "sq_inv k s" by (rule sq_reach_inv [OF assms(1,2)])
  note D = sq_invD [OF I]
  have n: "(2 :: nat) ^ k < 2 ^ 64" using k by (rule power_strict_increasing) simp
  have cap: "unat (sq_cap (g_q s)) = 2 ^ k" unfolding D(1) by (rule unat_of_small [OF n])
  obtain q ok where c: "push_check (of_nat (length (g_popped s))) (g_q s) = (q, ok)" by (rule prod.exhaust)
  note C = push_check_inv [OF I k D(8) order_refl c]
  have "ok \<longleftrightarrow> length (g_pushed s) - length (g_popped s) < 2 ^ k"
    using C(2-5) D(9-11) by (cases ok) (auto split: if_splits)
  then have "snd (try_push (of_nat (length (g_popped s))) v (g_q s)) \<longleftrightarrow>
      length (g_pushed s) - length (g_popped s) < unat (sq_cap (g_q s))"
    by (simp add: try_push_def c cap)
  moreover have e: "(sq_head (g_q s) = of_nat a) = (length (g_popped s) = a)"
    if "length (g_popped s) \<le> a" "a \<le> length (g_pushed s)" for a
    unfolding D(5) by (rule of_nat_eq) (use that D(8,11) n in linarith)+
  have "snd (try_pop (of_nat (length (g_pushed s))) (g_q s)) =
      (if length (g_popped s) < length (g_pushed s) then Some (g_pushed s ! length (g_popped s)) else None)"
  proof -
    have b: "sq_buf (g_q s) ! unat (sq_head (g_q s) AND sq_mask (g_q s)) = g_pushed s ! length (g_popped s)"
      if "length (g_popped s) < length (g_pushed s)"
      using that D(15) [of "length (g_popped s)"] unfolding D(2,5) slot_index [OF k] by simp
    have "sq_head (g_q s) = sq_tail_cache (g_q s) \<longleftrightarrow> length (g_popped s) = g_seen_tail s"
      unfolding D(7) by (rule e [OF D(9,10)])
    moreover have "sq_head (g_q s) = of_nat (length (g_pushed s)) \<longleftrightarrow> length (g_popped s) = length (g_pushed s)"
      by (rule e) (use D(9,10) in auto)
    ultimately show ?thesis using b D(9,10) by (simp add: try_pop_def front_def Let_def)
  qed
  ultimately show ?thesis by blast
qed

theorem spsc_progress_witness:
  "snd (try_push 0 (7 :: nat) (sq_init 0 1)) \<and> snd (try_pop 0 (sq_init (0 :: nat) 1)) = None"
proof -
  have "\<not> sq_writing (g_q (sq_start (0 :: nat) 1))" by (simp add: sq_start_def sq_init_def Let_def)
  moreover have "unat (sq_cap (sq_init (0 :: nat) 1)) = 2" by code_simp
  ultimately show ?thesis using spsc_progress [OF sq_reach.start [of "0 :: nat" 1], of 7] by (simp add: sq_start_def)
qed

end
