(* ===== verification/Latency_Histogram.thy ===== *)
theory Latency_Histogram
  imports Prelude "HOL-Library.Multiset"
begin

text \<open>
  \<^verbatim>\<open>include/exsim/latency_histogram.hpp\<close>: the log-linear histogram. The percentile is modelled from the rank
  on: the rank is computed in floating point from the requested percentage. The mean, a floating point
  quotient, is not modelled.
\<close>

section \<open>Buckets\<close>

definition kSubBits :: nat where "kSubBits = 5"
definition kSub :: nat where "kSub = 32"
definition kBuckets :: nat where "kBuckets = (64 - kSubBits + 1) * kSub"

definition lh_index :: "u64 \<Rightarrow> nat" where
  "lh_index v =
    (if unat v < kSub then unat v
     else
      (let msb = 63 - countl_zero v;
           shift = msb - kSubBits
       in (shift + 1) * kSub + unat (drop_bit shift v) - kSub))"

definition upper_bound :: "nat \<Rightarrow> u64" where
  "upper_bound idx =
    (if idx < kSub then of_nat idx
     else
      (let shift = idx div kSub - 1;
           sub = idx mod kSub + kSub
       in push_bit shift (of_nat (sub + 1)) - 1))"

section \<open>The histogram\<close>

record LatencyHistogram =
  lh_counts :: "u64 list"
  lh_count :: u64
  lh_sum :: u64
  lh_min_raw :: u64
  lh_max :: u64

definition lh_empty :: LatencyHistogram where
  "lh_empty = \<lparr>lh_counts = replicate kBuckets 0, lh_count = 0, lh_sum = 0, lh_min_raw = - 1, lh_max = 0\<rparr>"

definition lh_record :: "u64 \<Rightarrow> LatencyHistogram \<Rightarrow> LatencyHistogram" where
  "lh_record v h =
    (let i = lh_index v in
     h\<lparr>lh_counts := (lh_counts h)[i := lh_counts h ! i + 1], lh_count := lh_count h + 1, lh_sum := lh_sum h + v,
       lh_min_raw := min (lh_min_raw h) v, lh_max := max (lh_max h) v\<rparr>)"

text \<open>The scan of \<^verbatim>\<open>percentile\<close> over the counters from bucket \<open>i\<close> on.\<close>

fun percentile_scan :: "u64 \<Rightarrow> u64 \<Rightarrow> nat \<Rightarrow> u64 \<Rightarrow> u64 list \<Rightarrow> u64" where
  "percentile_scan rank mx i cum [] = mx"
| "percentile_scan rank mx i cum (c # cs) =
    (let cum = cum + c in
     if cum \<ge> rank then min (upper_bound i) mx else percentile_scan rank mx (Suc i) cum cs)"

definition lh_percentile :: "u64 \<Rightarrow> LatencyHistogram \<Rightarrow> u64" where
  "lh_percentile rank h =
    (if lh_count h = 0 then 0 else percentile_scan (max 1 rank) (lh_max h) 0 0 (lh_counts h))"

definition lh_merge :: "LatencyHistogram \<Rightarrow> LatencyHistogram \<Rightarrow> LatencyHistogram" where
  "lh_merge o' h =
    h\<lparr>lh_counts := map2 (+) (lh_counts h) (lh_counts o'), lh_count := lh_count h + lh_count o',
      lh_sum := lh_sum h + lh_sum o', lh_min_raw := min (lh_min_raw h) (lh_min_raw o'), lh_max := max (lh_max h) (lh_max o')\<rparr>"

definition lh_min :: "LatencyHistogram \<Rightarrow> u64" where
  "lh_min h = (if lh_count h \<noteq> 0 then lh_min_raw h else 0)"

definition lh_of :: "u64 list \<Rightarrow> LatencyHistogram" where
  "lh_of vs = foldl (\<lambda>h v. lh_record v h) lh_empty vs"

text \<open>The value of an upper bound; the largest one wraps to the largest 64-bit value.\<close>

definition ub :: "nat \<Rightarrow> nat" where
  "ub i = (if i < 32 then i else (i mod 32 + 33) * 2 ^ (i div 32 - 1) - 1)"

text \<open>The element of rank \<open>r\<close> among the recorded values, from one.\<close>

definition ranked :: "nat \<Rightarrow> u64 list \<Rightarrow> u64" where
  "ranked r vs = sort vs ! (r - 1)"

text \<open>The number of recorded values in the buckets below \<open>i\<close>.\<close>

definition upto :: "u64 list \<Rightarrow> nat \<Rightarrow> nat" where
  "upto vs i = length (filter (\<lambda>v. lh_index v < i) vs)"

section \<open>Bucket arithmetic\<close>

lemmas lh_consts = kSubBits_def kSub_def kBuckets_def

lemma msb_bounds:
  assumes "v \<noteq> (0 :: u64)"
  shows "2 ^ (63 - countl_zero v) \<le> unat v" "unat v < 2 ^ (64 - countl_zero v)"
proof -
  note C = countl_zero_props [OF assms]
  let ?m = "63 - countl_zero v"
  have b: "bit v ?m" using C(2) by simp
  have hi: "\<not> bit v i" if "?m < i" for i using C(3) [of i] that C(1) by simp
  have "bit (drop_bit ?m v) 0" using b by (simp add: bit_drop_bit_eq)
  then have "drop_bit ?m v \<noteq> 0" by auto
  then have "0 < unat (drop_bit ?m v)" by (simp add: unat_gt_0)
  then have "0 < unat v div 2 ^ ?m" unfolding unat_drop_bit_eq by (simp only: drop_bit_eq_div)
  then show "2 ^ ?m \<le> unat v" by (simp add: div_greater_zero_iff)
  have "take_bit (Suc ?m) v = v" by (rule bit_word_eqI) (use hi in \<open>auto simp: bit_simps less_Suc_eq_le not_le [symmetric]\<close>)
  then have "unat v = unat v mod 2 ^ Suc ?m" by (metis unsigned_take_bit_eq take_bit_eq_mod)
  also have "\<dots> < 2 ^ Suc ?m" by simp
  also have "Suc ?m = 64 - countl_zero v" using C(1) by simp
  finally show "unat v < 2 ^ (64 - countl_zero v)" .
qed

lemma lh_index_parts:
  assumes "32 \<le> unat v"
  obtains s t r where "lh_index v = s * 32 + t" "32 \<le> t" "t < 64" "s \<le> 58" "unat v = t * 2 ^ s + r" "r < 2 ^ s"
proof -
  have nz: "v \<noteq> 0" using assms by auto
  note B = msb_bounds [OF nz] and C = countl_zero_props(1) [OF nz]
  let ?m = "63 - countl_zero v"
  have m5: "5 \<le> ?m"
  proof (rule ccontr)
    assume "\<not> 5 \<le> ?m"
    then have "64 - countl_zero v \<le> 5" by linarith
    then have "(2 :: nat) ^ (64 - countl_zero v) \<le> 2 ^ 5" by (rule power_increasing) simp
    with B(2) assms show False by simp
  qed
  define s where "s = ?m - 5"
  define t where "t = unat v div 2 ^ s"
  have ms: "?m = s + 5" "64 - countl_zero v = s + 6" using m5 C by (auto simp: s_def)
  have "32 * 2 ^ s \<le> unat v" using B(1) unfolding ms by (simp add: power_add mult.commute)
  then have "32 \<le> t" unfolding t_def by (simp add: le_div_geq less_eq_div_iff_mult_less_eq)
  moreover have "unat v < 64 * 2 ^ s" using B(2) unfolding ms by (simp add: power_add mult.commute)
  then have "t < 64" unfolding t_def by (simp add: less_mult_imp_div_less)
  moreover have "s \<le> 58" by (simp add: s_def)
  moreover have "unat v = t * 2 ^ s + unat v mod 2 ^ s" by (simp add: t_def mult.commute)
  moreover have "lh_index v = s * 32 + t"
  proof -
    have "63 - countl_zero v - kSubBits = s" by (simp add: s_def kSubBits_def)
    moreover have "unat (drop_bit s v) = t" unfolding unat_drop_bit_eq t_def by (simp only: drop_bit_eq_div)
    ultimately have "lh_index v = (s + 1) * 32 + t - 32" using assms by (simp add: lh_index_def kSub_def Let_def)
    then show ?thesis by simp
  qed
  ultimately show thesis by (intro that [of s t "unat v mod 2 ^ s"]) auto
qed

lemma ub_parts:
  assumes "32 \<le> t" and "t < 64"
  shows "ub (s * 32 + t) = (t + 1) * 2 ^ s - 1"
proof -
  obtain u where u: "t = 32 + u" "u < 32" using assms by (metis add_diff_inverse_nat add_less_cancel_left not_less numeral_Bit0)
  have e: "s * 32 + t = u + 32 * Suc s" using u by simp
  have "(s * 32 + t) mod 32 = u" "(s * 32 + t) div 32 = Suc s"
    unfolding e using u(2) by (simp_all only: mod_mult_self2 mod_less div_mult_self2 div_less)
  then show ?thesis using u by (simp add: ub_def add.commute)
qed

lemma ub_step: "ub i < ub (Suc i)"
proof (cases "i < 32")
  case True
  then show ?thesis by (cases "i = 31") (auto simp: ub_def)
next
  case False
  define s t where "s = i div 32 - 1" and "t = i mod 32 + 32"
  have i: "i = s * 32 + t" "32 \<le> t" "t < 64" proof -
    have "1 \<le> i div 32" using False by (simp add: less_eq_div_iff_mult_less_eq)
    then have "(i div 32 - 1) * 32 + 32 = i div 32 * 32" by (cases "i div 32") auto
    then show "i = s * 32 + t" using div_mult_mod_eq [of i 32] unfolding s_def t_def by linarith
  qed (simp_all add: t_def)
  have p: "0 < (2 :: nat) ^ s" by simp
  show ?thesis
  proof (cases "t = 63")
    case True
    then have "Suc i = Suc s * 32 + 32" using i by simp
    then have "ub (Suc i) = 33 * 2 ^ Suc s - 1" using ub_parts [of 32 "Suc s"] by simp
    moreover have "ub i = 64 * 2 ^ s - 1" using ub_parts [of 63 s] i(1) True by simp
    ultimately show ?thesis using p by (simp add: less_diff_conv)
  next
    case False
    then have "ub (Suc i) = (t + 2) * 2 ^ s - 1" using ub_parts [of "Suc t" s] i by simp
    moreover have "ub i = (t + 1) * 2 ^ s - 1" using ub_parts [of t s] i by simp
    moreover have "(t + 1) * 2 ^ s + 2 ^ s = (t + 2) * 2 ^ s" by (simp add: algebra_simps)
    ultimately show ?thesis using p by (simp add: less_diff_conv)
  qed
qed

lemma ub_mono: "i < j \<Longrightarrow> ub i < ub j"
  using lift_Suc_mono_less [of ub] ub_step by blast

text \<open>A value lies in its bucket, and only there; the bucket is at most a 32nd of it wide.\<close>

lemma index_props:
  "lh_index v < kBuckets" "unat v \<le> ub (lh_index v)" "32 * (ub (lh_index v) - unat v) \<le> unat v"
  "i < lh_index v \<Longrightarrow> ub i < unat v"
proof -
  have all: "lh_index v < kBuckets \<and> unat v \<le> ub (lh_index v) \<and> 32 * (ub (lh_index v) - unat v) \<le> unat v \<and>
    (0 < lh_index v \<longrightarrow> ub (lh_index v - 1) < unat v)"
  proof (cases "unat v < 32")
    case True
    then show ?thesis by (auto simp: lh_index_def lh_consts ub_def)
  next
    case False
    then obtain s t r where P: "lh_index v = s * 32 + t" "32 \<le> t" "t < 64" "s \<le> 58" "unat v = t * 2 ^ s + r" "r < 2 ^ s"
      using lh_index_parts by (metis not_less)
    have u: "ub (lh_index v) = t * 2 ^ s + 2 ^ s - 1" using ub_parts [OF P(2,3), of s] P(1) by (simp add: algebra_simps)
    have "lh_index v < kBuckets" using P by (simp add: lh_consts)
    moreover have "unat v \<le> ub (lh_index v)" using u P(5,6) by linarith
    moreover have "32 * (ub (lh_index v) - unat v) \<le> unat v"
    proof -
      have "ub (lh_index v) - unat v \<le> 2 ^ s - 1" using u P(5) by linarith
      moreover have "32 * 2 ^ s \<le> t * 2 ^ s" using P(2) by simp
      ultimately show ?thesis using P(5) by linarith
    qed
    moreover have "ub (lh_index v - 1) < unat v"
    proof (cases "t = 32")
      case True
      show ?thesis
      proof (cases s)
        case 0
        then show ?thesis using True P(1,5,6) by (simp add: ub_def)
      next
        case (Suc s')
        then have "lh_index v - 1 = s' * 32 + 63" using True P(1) by simp
        then have "ub (lh_index v - 1) = 64 * 2 ^ s' - 1" using ub_parts [of 63 s'] by simp
        moreover have "unat v = 64 * 2 ^ s' + r" using P(5) True Suc by simp
        ultimately show ?thesis using zero_less_power [of "2 :: nat" s'] by linarith
      qed
    next
      case False
      then have "lh_index v - 1 = s * 32 + (t - 1)" using P(1,2) by simp
      then have "ub (lh_index v - 1) = t * 2 ^ s - 1" using ub_parts [of "t - 1" s] P(2,3) False by simp
      moreover have "0 < t * 2 ^ s" using P(2) by simp
      ultimately show ?thesis using P(5) by linarith
    qed
    ultimately show ?thesis by blast
  qed
  then show "lh_index v < kBuckets" "unat v \<le> ub (lh_index v)" "32 * (ub (lh_index v) - unat v) \<le> unat v" by auto
  show "ub i < unat v" if "i < lh_index v"
  proof (cases "i = lh_index v - 1")
    case False
    then have "ub i < ub (lh_index v - 1)" using that by (intro ub_mono) simp
    with all that show ?thesis by auto
  qed (use all that in auto)
qed

lemma index_le_iff: "lh_index v \<le> i \<longleftrightarrow> unat v \<le> ub i"
proof
  assume "lh_index v \<le> i"
  then have "ub (lh_index v) \<le> ub i" using ub_mono by (metis le_less)
  with index_props(2) [of v] show "unat v \<le> ub i" by simp
qed (use index_props(4) [of i v] in \<open>auto simp: not_le [symmetric]\<close>)

lemma unat_upper_bound:
  assumes "i < kBuckets"
  shows "unat (upper_bound i) = ub i"
proof (cases "i < 32")
  case True
  then show ?thesis by (simp add: upper_bound_def ub_def lh_consts unat_of_nat)
next
  case False
  let ?s = "i div 32 - 1" and ?n = "i mod 32 + 33"
  have s: "?s \<le> 58" using assms by (simp add: lh_consts)
  have n: "?n * 2 ^ ?s \<le> 2 ^ 64"
  proof -
    have "(2 :: nat) ^ ?s \<le> 2 ^ 58" by (rule power_increasing [OF s]) simp
    then have "?n * 2 ^ ?s \<le> 64 * 2 ^ 58" by (intro mult_le_mono) auto
    then show ?thesis by simp
  qed
  have e: "upper_bound i = of_nat (?n * 2 ^ ?s) - 1"
    using False by (simp add: upper_bound_def lh_consts Let_def push_bit_eq_mult add.commute)
  also have "\<dots> = (of_nat (?n * 2 ^ ?s - 1) :: u64)" by (simp add: of_nat_diff)
  finally have "unat (upper_bound i) = ?n * 2 ^ ?s - 1"
    using n by (simp only: unat_of_nat) (simp add: unat_of_nat)
  then show ?thesis using False by (simp add: ub_def)
qed

section \<open>Recorded values\<close>

lemma lh_of_append: "lh_of (vs @ ws) = foldl (\<lambda>h v. lh_record v h) (lh_of vs) ws"
  by (simp add: lh_of_def)

lemma lh_of_snoc [simp]: "lh_of (vs @ [v]) = lh_record v (lh_of vs)"
  by (simp add: lh_of_append)

lemma lh_of_props:
  "length (lh_counts (lh_of vs)) = kBuckets" "lh_count (lh_of vs) = of_nat (length vs)"
  "lh_sum (lh_of vs) = sum_list vs"
  "i < kBuckets \<Longrightarrow> lh_counts (lh_of vs) ! i = of_nat (length (filter (\<lambda>v. lh_index v = i) vs))"
  by (induction vs rule: rev_induct)
    (simp_all add: lh_of_def lh_empty_def lh_record_def Let_def nth_list_update index_props(1) add.commute)

lemma lh_max_of: "v \<in> set vs \<Longrightarrow> v \<le> lh_max (lh_of vs)" "vs \<noteq> [] \<Longrightarrow> lh_max (lh_of vs) \<in> set vs"
proof (induction vs rule: rev_induct)
  case (snoc w vs)
  { case 1 then show ?case using snoc.IH(1) by (auto simp: lh_record_def Let_def le_max_iff_disj) }
  { case 2 then show ?case using snoc.IH(2) by (cases "vs = []") (auto simp: lh_record_def Let_def max_def lh_of_def lh_empty_def) }
qed simp_all

lemma upto_Suc: "upto vs (Suc i) = upto vs i + length (filter (\<lambda>v. lh_index v = i) vs)"
  by (induction vs) (auto simp: upto_def less_Suc_eq)

lemma percentile_scan_spec:
  assumes "length vs < 2 ^ 64" and "i \<le> kBuckets" and "cs = drop i (lh_counts (lh_of vs))"
    and "upto vs i < unat rank" and "unat rank \<le> length vs"
  obtains j where "i \<le> j" "j < kBuckets" "upto vs j < unat rank" "unat rank \<le> upto vs (Suc j)"
    "percentile_scan rank mx i (of_nat (upto vs i)) cs = min (upper_bound j) mx"
  using assms
proof (induction cs arbitrary: i thesis)
  case Nil
  then have "i = kBuckets" using lh_of_props(1) [of vs] by simp
  then have "upto vs i = length vs" by (simp add: upto_def index_props(1))
  with Nil.prems show ?case by simp
next
  case (Cons c cs)
  have i: "i < kBuckets" using Cons.prems(4) lh_of_props(1) [of vs] by (metis drop_all list.distinct(1) not_less)
  have c: "c = of_nat (length (filter (\<lambda>v. lh_index v = i) vs))" and cs: "cs = drop (Suc i) (lh_counts (lh_of vs))"
    using Cons.prems(4) i lh_of_props(1) [of vs] lh_of_props(4) [of i vs] by (auto simp: Cons_nth_drop_Suc [symmetric])
  have cum: "of_nat (upto vs i) + c = (of_nat (upto vs (Suc i)) :: u64)" by (simp add: c upto_Suc)
  have "upto vs (Suc i) \<le> length vs" by (simp add: upto_def)
  then have "unat (of_nat (upto vs (Suc i)) :: u64) = upto vs (Suc i)" using Cons.prems(2) by (simp add: unat_of_nat)
  then have ge: "of_nat (upto vs (Suc i)) \<ge> rank \<longleftrightarrow> unat rank \<le> upto vs (Suc i)" by (simp add: word_le_nat_alt)
  show ?case
  proof (cases "unat rank \<le> upto vs (Suc i)")
    case True
    show ?thesis
      by (rule Cons.prems(1) [of i]) (use True i Cons.prems(5) ge cum in \<open>simp_all add: Let_def\<close>)
  next
    case False
    obtain j where j: "Suc i \<le> j" "j < kBuckets" "upto vs j < unat rank" "unat rank \<le> upto vs (Suc j)"
      "percentile_scan rank mx (Suc i) (of_nat (upto vs (Suc i))) cs = min (upper_bound j) mx"
      using Cons.IH [OF _ Cons.prems(2) _ cs] i False Cons.prems(6) by (metis Suc_leI not_le)
    show ?thesis
      by (rule Cons.prems(1) [of j]) (use j False ge cum in \<open>simp_all add: Let_def\<close>)
  qed
qed

lemma upto_ub: "upto vs (Suc i) = length (filter (\<lambda>v. unat v \<le> ub i) vs)"
  by (simp add: upto_def less_Suc_eq_le index_le_iff)

lemma sorted_filter_nth:
  fixes s :: "u64 list"
  shows "sorted s \<Longrightarrow> k < length s \<Longrightarrow> unat (s ! k) \<le> x \<longleftrightarrow> k < length (filter (\<lambda>v. unat v \<le> x) s)"
proof (induction s arbitrary: k)
  case (Cons a s)
  have lo: "unat a \<le> unat v" if "v \<in> set s" for v using Cons.prems(1) that by (simp add: word_le_nat_alt)
  show ?case
  proof (cases "unat a \<le> x")
    case True
    then show ?thesis using Cons by (cases k) auto
  next
    case False
    then have big: "\<not> unat v \<le> x" if "v \<in> set s" for v using lo [OF that] by simp
    then have "filter (\<lambda>v. unat v \<le> x) s = []" by (simp add: filter_empty_conv)
    then show ?thesis using False big Cons.prems(2) by (cases k) auto
  qed
qed simp

lemma ranked_le_iff:
  assumes "0 < r" and "r \<le> length vs"
  shows "unat (ranked r vs) \<le> x \<longleftrightarrow> r \<le> length (filter (\<lambda>v. unat v \<le> x) vs)"
proof -
  have "length (filter (\<lambda>v. unat v \<le> x) vs) = length (filter (\<lambda>v. unat v \<le> x) (sort vs))"
    by (metis mset_filter mset_sort size_mset)
  then show ?thesis using sorted_filter_nth [of "sort vs" "r - 1" x] assms by (auto simp: ranked_def)
qed

lemma ranked_in: "0 < r \<Longrightarrow> r \<le> length vs \<Longrightarrow> ranked r vs \<in> set vs"
  using nth_mem [of "r - 1" "sort vs"] by (simp add: ranked_def)

lemma ranked_bucket:
  assumes "0 < r" and "r \<le> length vs" and "upto vs j < r" and "r \<le> upto vs (Suc j)"
  shows "lh_index (ranked r vs) = j"
proof (rule antisym)
  show "lh_index (ranked r vs) \<le> j" using ranked_le_iff [OF assms(1,2), of "ub j"] assms(4) by (simp add: upto_ub index_le_iff)
  show "j \<le> lh_index (ranked r vs)"
  proof (cases j)
    case (Suc i)
    then have "\<not> unat (ranked r vs) \<le> ub i" using ranked_le_iff [OF assms(1,2), of "ub i"] assms(3) by (simp add: upto_ub)
    then show ?thesis using Suc index_le_iff [of "ranked r vs" i] by simp
  qed simp
qed

lemma percentile_is:
  assumes "length vs < 2 ^ 64" and "0 < unat rank" and "unat rank \<le> length vs"
  shows "lh_percentile rank (lh_of vs) = min (upper_bound (lh_index (ranked (unat rank) vs))) (lh_max (lh_of vs))"
proof -
  have nz: "lh_count (lh_of vs) \<noteq> 0"
  proof
    assume "lh_count (lh_of vs) = 0"
    then have "unat (of_nat (length vs) :: u64) = 0" by (simp add: lh_of_props(2))
    moreover have "unat (of_nat (length vs) :: u64) = length vs" using assms(1) by (simp add: unat_of_nat)
    ultimately show False using assms(2,3) by linarith
  qed
  have m: "max 1 rank = rank" using assms(2) by (simp add: max_def word_le_nat_alt Suc_le_eq)
  have z: "upto vs 0 = 0" by (simp add: upto_def)
  obtain j where j: "upto vs j < unat rank" "unat rank \<le> upto vs (Suc j)"
    "percentile_scan rank (lh_max (lh_of vs)) 0 (of_nat (upto vs 0)) (lh_counts (lh_of vs)) = min (upper_bound j) (lh_max (lh_of vs))"
    by (rule percentile_scan_spec [OF assms(1) _ _ _ assms(3), of 0 "lh_counts (lh_of vs)" "lh_max (lh_of vs)"])
      (use assms(2) z in simp_all)
  show ?thesis using ranked_bucket [OF assms(2,3) j(1,2)] nz j(3) by (simp add: lh_percentile_def m z)
qed

lemma word_min_max_neutral [simp]: "min (x :: u64) (- 1) = x" "min (- 1) (x :: u64) = x" "max (x :: u64) 0 = x" "max 0 (x :: u64) = x"
  using word_order.extremum [of x] by (auto simp: min_def max_def intro: antisym)

lemma lh_min_of: "lh_min_raw (lh_of vs) = foldr min vs (- 1)" "lh_max (lh_of vs) = foldr max vs 0"
proof -
  have "foldl (\<lambda>h v. lh_record v h) h vs = h' \<Longrightarrow> lh_min_raw h' = min (lh_min_raw h) (foldr min vs (- 1)) \<and> lh_max h' = max (lh_max h) (foldr max vs 0)" for h h'
  proof (induction vs arbitrary: h)
    case (Cons v vs)
    have "lh_min_raw (lh_record v h) = min (lh_min_raw h) v" "lh_max (lh_record v h) = max (lh_max h) v" by (simp_all add: lh_record_def Let_def)
    with Cons.IH [of "lh_record v h"] Cons.prems show ?case by (simp add: min.assoc max.assoc)
  qed (simp add: word_min_max_neutral)
  from this [of lh_empty] show "lh_min_raw (lh_of vs) = foldr min vs (- 1)" "lh_max (lh_of vs) = foldr max vs 0"
    unfolding lh_of_def by (simp_all add: lh_empty_def)
qed

lemma foldr_min_append:
  "foldr min (vs @ ws) (- 1 :: u64) = min (foldr min vs (- 1)) (foldr min ws (- 1))"
  "foldr max (vs @ ws) (0 :: u64) = max (foldr max vs 0) (foldr max ws 0)"
  by (induction vs) (simp_all add: min.assoc max.assoc)

section \<open>Properties\<close>

text \<open>C29. The percentile of rank \<open>r\<close> over any recorded values, up to the 64-bit counters' range, is at least the
  value of that rank in sorted order and exceeds it by at most one part in 32; it is exact below 32, and never above
  the largest value recorded. A rank past the count gives the maximum.\<close>

theorem percentile_within_32nd:
  assumes "length vs < 2 ^ 64" and "0 < unat rank" and "unat rank \<le> length vs"
  shows "unat (ranked (unat rank) vs) \<le> unat (lh_percentile rank (lh_of vs)) \<and>
    32 * (unat (lh_percentile rank (lh_of vs)) - unat (ranked (unat rank) vs)) \<le> unat (ranked (unat rank) vs) \<and>
    lh_percentile rank (lh_of vs) \<le> lh_max (lh_of vs) \<and> lh_max (lh_of vs) \<in> set vs \<and> list_all (\<lambda>w. w \<le> lh_max (lh_of vs)) vs"
proof -
  let ?v = "ranked (unat rank) vs" and ?p = "lh_percentile rank (lh_of vs)" and ?m = "lh_max (lh_of vs)"
  have p: "unat ?p = min (ub (lh_index ?v)) (unat ?m)"
    unfolding percentile_is [OF assms] using unat_upper_bound [OF index_props(1) [of ?v]]
    by (simp add: min_def word_le_nat_alt)
  have ne: "vs \<noteq> []" using assms(2,3) by auto
  have m: "unat ?v \<le> unat ?m" using lh_max_of(1) [OF ranked_in [OF assms(2,3)]] by (simp add: word_le_nat_alt)
  have "unat ?v \<le> unat ?p" using p m index_props(2) [of ?v] by simp
  moreover have "32 * (unat ?p - unat ?v) \<le> unat ?v" using p index_props(3) [of ?v] by (simp add: min_def split: if_splits)
  moreover have "?p \<le> ?m" using p by (simp add: word_le_nat_alt)
  ultimately show ?thesis using lh_max_of(1) [of _ vs] lh_max_of(2) [of vs] ne by (simp add: list_all_iff)
qed

theorem percentile_within_32nd_witness:
  "1000 \<le> unat (lh_percentile 3 (lh_of [1000, 7, 40, 65000])) \<and> unat (lh_percentile 3 (lh_of [1000, 7, 40, 65000])) \<le> 1031"
proof -
  have r: "ranked (unat (3 :: u64)) [1000, 7, 40, 65000] = 1000" by code_simp
  have "32 * (unat (lh_percentile 3 (lh_of [1000, 7, 40, 65000])) - 1000) \<le> 1000"
    "1000 \<le> unat (lh_percentile 3 (lh_of [1000, 7, 40, 65000]))"
    using percentile_within_32nd [of "[1000, 7, 40, 65000]" 3, unfolded r] by simp_all
  then show ?thesis by linarith
qed

text \<open>Merging two histograms gives the histogram of both recordings, whatever the order and also where the
  64-bit counters and the sum wrap.\<close>

theorem merge_is_concatenation: "lh_merge (lh_of ws) (lh_of vs) = lh_of (vs @ ws)"
proof (rule LatencyHistogram.equality)
  show "lh_counts (lh_merge (lh_of ws) (lh_of vs)) = lh_counts (lh_of (vs @ ws))"
    by (rule nth_equalityI) (simp_all add: lh_merge_def lh_of_props)
qed (simp_all add: lh_merge_def lh_of_props(2,3) lh_min_of foldr_min_append [symmetric] del: foldr_append)

end
