(* ===== verification/Sinks.thy ===== *)
theory Sinks
  imports Protocol
begin

text \<open>
  \<^verbatim>\<open>include/exsim/sinks.hpp\<close>: the receivers of an event stream. \<^verbatim>\<open>EventDigest\<close> folds the 48 bytes of every
  event, as six 64-bit words, into an order-sensitive digest; \<^verbatim>\<open>CountingSink\<close> adds counters per event
  type and the traded volume; \<^verbatim>\<open>VectorSink\<close> keeps the events.
\<close>

section \<open>Digest\<close>

text \<open>The event's bytes as \<^verbatim>\<open>memcpy\<close> reads them into six words; the last word packs the symbol and the four
  one-byte enumerations.\<close>

definition event_words :: "Event \<Rightarrow> u64 list" where
  "event_words e =
    [e_order_id e, e_maker_id e, word_of_int (e_price e), e_qty e, e_leaves e,
     get_le (put_le 4 (e_symbol e) @
       [event_code (e_type e), reason_code (e_reason e), side_code (e_side e), request_code (e_request e)])]"

record EventDigest =
  ed_h :: u64
  ed_count :: u64

definition ed_init :: EventDigest where
  "ed_init = \<lparr>ed_h = 0xcbf29ce484222325, ed_count = 0\<rparr>"

definition digest_round :: "u64 \<Rightarrow> u64 \<Rightarrow> u64" where
  "digest_round h x = word_rotl 27 ((h XOR x) * 0x9E3779B97F4A7C15)"

definition ed_on_event :: "Event \<Rightarrow> EventDigest \<Rightarrow> EventDigest" where
  "ed_on_event e d = d\<lparr>ed_h := foldl digest_round (ed_h d) (event_words e), ed_count := ed_count d + 1\<rparr>"

definition ed_value :: "EventDigest \<Rightarrow> u64" where
  "ed_value d =
    (let k = ed_h d XOR ed_count d;
         k = k XOR drop_bit 33 k; k = k * 0xff51afd7ed558ccd;
         k = k XOR drop_bit 33 k; k = k * 0xc4ceb9fe1a85ec53;
         k = k XOR drop_bit 33 k
     in k)"

section \<open>Counting and recording\<close>

record CountingSink =
  cs_digest :: EventDigest
  cs_by_type :: "u64 list"
  cs_volume :: u64

definition cs_init :: CountingSink where
  "cs_init = \<lparr>cs_digest = ed_init, cs_by_type = replicate 8 0, cs_volume = 0\<rparr>"

definition cs_on_event :: "Event \<Rightarrow> CountingSink \<Rightarrow> CountingSink" where
  "cs_on_event e s =
    (let i = unat (event_code (e_type e) AND 7) in
     s\<lparr>cs_digest := ed_on_event e (cs_digest s), cs_by_type := (cs_by_type s)[i := cs_by_type s ! i + 1],
       cs_volume := (if e_type e = Trade then cs_volume s + e_qty e else cs_volume s)\<rparr>)"

definition cs_count :: "EventType \<Rightarrow> CountingSink \<Rightarrow> u64" where
  "cs_count t s = cs_by_type s ! unat (event_code t)"

definition vs_on_event :: "Event \<Rightarrow> Event list \<Rightarrow> Event list" where
  "vs_on_event e events = events @ [e]"

text \<open>A sink fed an event stream.\<close>

definition digest_of :: "Event list \<Rightarrow> EventDigest" where
  "digest_of es = foldl (\<lambda>d e. ed_on_event e d) ed_init es"

definition sink_of :: "Event list \<Rightarrow> CountingSink" where
  "sink_of es = foldl (\<lambda>s e. cs_on_event e s) cs_init es"

definition sample_trade :: "u64 \<Rightarrow> Event" where
  "sample_trade qty = trade_event 1 42 7 Buy 10050 qty 0"

text \<open>Two events that agree in all words but at most one.\<close>

definition one_word_apart :: "Event \<Rightarrow> Event \<Rightarrow> bool" where
  "one_word_apart e e' \<longleftrightarrow>
    list_ex (\<lambda>k. take k (event_words e) = take k (event_words e') \<and> drop (Suc k) (event_words e) = drop (Suc k) (event_words e')) [0..<6]"

section \<open>The digest's rounds are injective\<close>

lemma mult_cancel_inverse:
  assumes "k * j = (1 :: u64)" and "x * k = y * k"
  shows "x = y"
proof -
  have "x = (x * k) * j" by (simp add: mult.assoc assms(1))
  also have "\<dots> = (y * k) * j" by (simp only: assms(2))
  also have "\<dots> = y" by (simp add: mult.assoc assms(1))
  finally show ?thesis .
qed

lemma rotl_inj: "word_rotl n (x :: u64) = word_rotl n y \<Longrightarrow> x = y"
  by (metis word_rot_lr)

lemma word_xor_cancel: "(h :: u64) XOR x = h XOR y \<Longrightarrow> x = y" "x XOR (h :: u64) = y XOR h \<Longrightarrow> x = y"
  by (auto simp: bit_eq_iff bit_simps)

lemma xorshift_inj:
  assumes "(x :: u64) XOR drop_bit 33 x = y XOR drop_bit 33 y"
  shows "x = y"
proof -
  have inv: "(z XOR drop_bit 33 z) XOR drop_bit 33 (z XOR drop_bit 33 z) = z" for z :: u64
    by (rule bit_word_eqI) (auto simp: bit_simps dest: bit_imp_le_length)
  show ?thesis using inv [of x] inv [of y] assms by simp
qed

lemma digest_round_inj:
  "digest_round h x = digest_round h y \<Longrightarrow> x = y" "digest_round h x = digest_round h' x \<Longrightarrow> h = h'"
proof -
  have k: "0x9E3779B97F4A7C15 * 0xf1de83e19937733d = (1 :: u64)" by simp
  show "x = y" if "digest_round h x = digest_round h y"
    using that mult_cancel_inverse [OF k] rotl_inj word_xor_cancel(1) unfolding digest_round_def by metis
  show "h = h'" if "digest_round h x = digest_round h' x"
    using that mult_cancel_inverse [OF k] rotl_inj word_xor_cancel(2) unfolding digest_round_def by metis
qed

lemma rounds_inj: "foldl digest_round h ws = foldl digest_round h' ws \<Longrightarrow> h = h'"
  by (induction ws arbitrary: h h') (auto dest: digest_round_inj(2))

lemma one_word_rounds_inj:
  assumes "foldl digest_round h xs = foldl digest_round h ys" and "length xs = length ys" and "k < length xs"
    and "take k xs = take k ys" and "drop (Suc k) xs = drop (Suc k) ys"
  shows "xs = ys"
proof -
  have x: "xs = take k xs @ xs ! k # drop (Suc k) xs" and y: "ys = take k ys @ ys ! k # drop (Suc k) ys"
    using assms(2,3) by (simp_all add: id_take_nth_drop)
  let ?g = "foldl digest_round h (take k xs)"
  have "foldl digest_round h xs = foldl digest_round (digest_round ?g (xs ! k)) (drop (Suc k) xs)"
    by (subst x) simp
  moreover have "foldl digest_round h ys = foldl digest_round (digest_round ?g (ys ! k)) (drop (Suc k) xs)"
    by (subst y) (simp add: assms(4,5))
  ultimately have "xs ! k = ys ! k" using assms(1) rounds_inj digest_round_inj(1) by metis
  then show ?thesis using x y assms(4,5) by metis
qed

lemma ed_value_inj:
  assumes "ed_value d = ed_value d'" and "ed_count d = ed_count d'"
  shows "ed_h d = ed_h d'"
proof -
  have a: "0xff51afd7ed558ccd * 0x4f74430c22a54005 = (1 :: u64)" and b: "0xc4ceb9fe1a85ec53 * 0x9cb4b2f8129337db = (1 :: u64)"
    by simp_all
  note inj = mult_cancel_inverse [OF a] mult_cancel_inverse [OF b] xorshift_inj word_xor_cancel(2)
  have "ed_h d XOR ed_count d = ed_h d' XOR ed_count d'"
    using assms(1) [unfolded ed_value_def Let_def]
    by (rule inj(3) [THEN inj(2), THEN inj(3), THEN inj(1), THEN inj(3)])
  then show ?thesis using assms(2) inj(4) by simp
qed

lemma digest_of_append: "digest_of (es @ fs) = foldl (\<lambda>d e. ed_on_event e d) (digest_of es) fs"
  by (simp add: digest_of_def)

lemma digest_fold:
  "ed_h (foldl (\<lambda>d e. ed_on_event e d) d es) = foldl digest_round (ed_h d) (concat (map event_words es))"
  "ed_count (foldl (\<lambda>d e. ed_on_event e d) d es) = ed_count d + of_nat (length es)"
  by (induction es arbitrary: d) (simp_all add: ed_on_event_def)

lemma digest_suffix_inj:
  assumes "ed_value (digest_of (es @ fs)) = ed_value (digest_of (es' @ fs))" and "length es = length es'"
  shows "ed_h (digest_of es) = ed_h (digest_of es')"
proof -
  have "ed_h (digest_of (es @ fs)) = ed_h (digest_of (es' @ fs))"
    using assms(2) by (intro ed_value_inj [OF assms(1)]) (simp add: digest_of_def digest_fold)
  then show ?thesis unfolding digest_of_append digest_fold by (rule rounds_inj)
qed

lemma get_le_inj:
  assumes "length bs = 8" and "length bs' = 8" and "get_le bs = (get_le bs' :: u64)"
  shows "bs = bs'"
proof (rule nth_equalityI)
  show "bs ! k = bs' ! k" if k: "k < length bs" for k
  proof (rule bit_word_eqI)
    fix j assume j: "j < LENGTH(8)"
    have "bit (get_le bs :: u64) (8 * k + j) = bit (get_le bs' :: u64) (8 * k + j)" by (simp only: assms(3))
    then show "bit (bs ! k) j = bit (bs' ! k) j" using j k assms(1,2) by (simp add: bit_get_le)
  qed
qed (simp add: assms)

lemma code_injs:
  "event_code t = event_code t' \<Longrightarrow> t = t'" "side_code d = side_code d' \<Longrightarrow> d = d'"
  "request_code r = request_code r' \<Longrightarrow> r = r'"
proof -
  have "msg_code m \<noteq> 0" "(msg_code m = msg_code m') = (m = m')" for m m' by (cases m; cases m'; simp)+
  then show "request_code r = request_code r' \<Longrightarrow> r = r'" by (cases r; cases r') (simp_all add: request_code_def eq_commute [of 0])
  show "event_code t = event_code t' \<Longrightarrow> t = t'" by (cases t; cases t'; simp)
  show "side_code d = side_code d' \<Longrightarrow> d = d'" by (cases d; cases d'; simp)
qed

lemma reason_code_inj: "reason_code r = reason_code r' \<Longrightarrow> r = r'"
proof -
  have "distinct (map reason_code all_reasons)" by code_simp
  moreover have "x \<in> set all_reasons" for x by (cases x) (simp_all add: all_reasons_def)
  ultimately show "reason_code r = reason_code r' \<Longrightarrow> r = r'" by (simp add: distinct_map inj_on_def)
qed

lemma event_words_inj:
  assumes "event_words e = event_words e'" and "i64_range (e_price e)" and "i64_range (e_price e')"
  shows "e = e'"
proof -
  have w: "e_order_id e = e_order_id e'" "e_maker_id e = e_maker_id e'" "(word_of_int (e_price e) :: u64) = word_of_int (e_price e')"
    "e_qty e = e_qty e'" "e_leaves e = e_leaves e'" using assms(1) by (simp_all add: event_words_def)
  let ?t = "\<lambda>e. put_le 4 (e_symbol e) @ [event_code (e_type e), reason_code (e_reason e), side_code (e_side e), request_code (e_request e)]"
  have "(get_le (?t e) :: u64) = get_le (?t e')" using assms(1) by (simp add: event_words_def)
  then have t: "?t e = ?t e'" by (intro get_le_inj) simp_all
  then have "put_le 4 (e_symbol e) = put_le 4 (e_symbol e')" by simp
  then have "get_le (put_le 4 (e_symbol e)) = (get_le (put_le 4 (e_symbol e')) :: u32)" by (rule arg_cong)
  then have "e_symbol e = e_symbol e'" by (subst (asm) (1 2) get_put_le) simp_all
  moreover have "e_price e = e_price e'" using w(3) assms(2,3) by (metis sint_word_of_i64)
  moreover have "event_code (e_type e) = event_code (e_type e')" "side_code (e_side e) = side_code (e_side e')"
    "request_code (e_request e) = request_code (e_request e')" "reason_code (e_reason e) = reason_code (e_reason e')"
    using t by simp_all
  then have "e_type e = e_type e'" "e_side e = e_side e'" "e_request e = e_request e'" "e_reason e = e_reason e'"
    by (blast intro: code_injs reason_code_inj)+
  ultimately show ?thesis using w(1,2,4,5) by (intro Event.equality) simp_all
qed

lemma cs_other_step:
  "cs_volume (cs_on_event e s) = (if e_type e = Trade then cs_volume s + e_qty e else cs_volume s)"
  "cs_digest (cs_on_event e s) = ed_on_event e (cs_digest s)"
  "length (cs_by_type (cs_on_event e s)) = length (cs_by_type s)"
  by (simp_all add: cs_on_event_def Let_def)

lemma by_type_length: "length (cs_by_type (sink_of es)) = 8"
proof -
  have "length (cs_by_type (foldl (\<lambda>s e. cs_on_event e s) s es)) = length (cs_by_type s)" for s
    by (induction es arbitrary: s) (simp_all add: cs_other_step)
  from this [of cs_init] show ?thesis by (simp add: sink_of_def cs_init_def)
qed

lemma cs_count_step:
  assumes "length (cs_by_type s) = 8"
  shows "cs_count t (cs_on_event e s) = (if e_type e = t then cs_count t s + 1 else cs_count t s)"
proof -
  have c: "unat (event_code k AND 7) = unat (event_code k)" "unat (event_code k) < 8" for k by (cases k; simp)+
  have i: "unat (event_code (e_type e)) = unat (event_code t) \<longleftrightarrow> e_type e = t"
    using code_injs(1) [of "e_type e" t] by (auto simp: word_unat_eq_iff)
  have "cs_by_type (cs_on_event e s) = (cs_by_type s)[unat (event_code (e_type e)) := cs_by_type s ! unat (event_code (e_type e)) + 1]"
    by (simp only: cs_on_event_def Let_def c(1)) simp
  then show ?thesis using assms c(2) [of t] i by (simp only: cs_count_def nth_list_update) auto
qed

section \<open>Properties\<close>

text \<open>The digest is order- and content-sensitive: replacing one event of a stream by an event that differs in
  one of its six words changes the digest value, whatever came before and follows, and two equally long streams
  that end in the same events have equal digests only if they had equal digest state before that ending. (Distinct
  pairs that collide exist, as in any 64-bit digest.)\<close>

theorem digest_detects_change:
  assumes "i64_range (e_price e)" and "i64_range (e_price e')" and "one_word_apart e e'" and "e \<noteq> e'"
  shows "ed_value (digest_of (es @ e # fs)) \<noteq> ed_value (digest_of (es @ e' # fs))"
proof
  assume "ed_value (digest_of (es @ e # fs)) = ed_value (digest_of (es @ e' # fs))"
  then have "ed_h (digest_of (es @ [e])) = ed_h (digest_of (es @ [e']))"
    using digest_suffix_inj [of "es @ [e]" fs "es @ [e']"] by simp
  then have h: "foldl digest_round (ed_h (digest_of es)) (event_words e) = foldl digest_round (ed_h (digest_of es)) (event_words e')"
    by (simp add: digest_of_append ed_on_event_def)
  obtain k where k: "k < 6" "take k (event_words e) = take k (event_words e')" "drop (Suc k) (event_words e) = drop (Suc k) (event_words e')"
    using assms(3) by (auto simp: one_word_apart_def list_ex_iff)
  have "event_words e = event_words e'"
    by (rule one_word_rounds_inj [OF h _ _ k(2,3)]) (use k(1) in \<open>simp_all add: event_words_def\<close>)
  then show False using event_words_inj assms(1,2,4) by blast
qed

theorem digest_detects_change_witness:
  "ed_value (digest_of ([sample_trade 3] @ sample_trade 5 # [sample_trade 1])) \<noteq>
   ed_value (digest_of ([sample_trade 3] @ sample_trade 6 # [sample_trade 1]))"
proof (rule digest_detects_change)
  show "one_word_apart (sample_trade 5) (sample_trade 6)"
    by (simp add: one_word_apart_def list_ex_iff event_words_def sample_trade_def trade_event_def) (rule bexI [of _ 3]; simp)
qed (simp_all add: sample_trade_def trade_event_def i64_range_def)

text \<open>The counting sink counts: after any stream the counter of each type is the number of events of that type,
  the volume is the sum of the traded quantities (all modulo the 64-bit width), and the digest is the digest of the
  stream.\<close>

lemma counting_sink_counts:
  "cs_count t (sink_of es) = of_nat (length (filter (\<lambda>e. e_type e = t) es)) \<and>
   cs_volume (sink_of es) = sum_list (map e_qty (filter (\<lambda>e. e_type e = Trade) es)) \<and>
   cs_digest (sink_of es) = digest_of es"
proof (induction es rule: rev_induct)
  case Nil
  have "unat (event_code t) < 8" by (cases t; simp)
  then show ?case by (simp add: sink_of_def digest_of_def cs_init_def cs_count_def)
next
  case (snoc e es)
  have "sink_of (es @ [e]) = cs_on_event e (sink_of es)" "digest_of (es @ [e]) = ed_on_event e (digest_of es)"
    by (simp_all add: sink_of_def digest_of_def)
  then show ?case using snoc cs_count_step [OF by_type_length, of t e es] cs_other_step [of e "sink_of es"] by (cases "e_type e = t"; cases "e_type e = Trade") (simp_all add: add.commute)
qed

end
