(* ===== verification/Seqstream.thy ===== *)
theory Seqstream
  imports Common "HOL-Library.Monad_Syntax"
begin

text \<open>
  \<^verbatim>\<open>include/exsim/seqstream.hpp\<close>: the sequenced command stream between a primary and its replicas. A datagram
  is its size, its header and the command images behind it; commands are copied as whole structs, so an
  image is the command. The operating system's sockets are the lists of received datagrams given to, and of
  sent datagrams returned by, each operation; the clock is an argument. The fault injector's random draws
  are an argument \<open>lost\<close>, by packet number.
\<close>

section \<open>Datagrams\<close>

definition kMagic :: u32 where "kMagic = 0x51535845"

text \<open>The codes of \<^verbatim>\<open>enum class Kind\<close>; a received kind is any byte.\<close>

definition kData :: u8 where "kData = 1"
definition kHeartbeat :: u8 where "kHeartbeat = 2"
definition kEnd :: u8 where "kEnd = 3"
definition kRetransmit :: u8 where "kRetransmit = 4"
definition kAck :: u8 where "kAck = 5"
definition kUnavailable :: u8 where "kUnavailable = 6"

record SqHeader =
  q_magic :: u32
  q_epoch :: u32
  q_first_seq :: u64
  q_count :: u16
  q_kind :: u8

definition sizeof_SqHeader :: nat where "sizeof_SqHeader = 24"
definition sizeof_Command :: nat where "sizeof_Command = 56"
definition kMaxDatagram :: nat where "kMaxDatagram = 1472"
definition kPerPacket :: nat where "kPerPacket = (kMaxDatagram - sizeof_SqHeader) div sizeof_Command"

record Datagram =
  d_size :: nat
  d_header :: SqHeader
  d_cmds :: "Command list"

definition sq_header :: "u8 \<Rightarrow> u32 \<Rightarrow> u64 \<Rightarrow> u16 \<Rightarrow> SqHeader" where
  "sq_header k epoch first_seq count =
    \<lparr>q_magic = kMagic, q_epoch = epoch, q_first_seq = first_seq, q_count = count, q_kind = k\<rparr>"

definition control :: "SqHeader \<Rightarrow> Datagram" where
  "control h = \<lparr>d_size = sizeof_SqHeader, d_header = h, d_cmds = []\<rparr>"

section \<open>The primary\<close>

text \<open>Where a datagram is sent: to the multicast group or to the peer a request came from.\<close>

datatype Dest = Group | Peer nat

type_synonym sent = "(Dest \<times> Datagram) list"

datatype sq_error = SeedBeyondNext | OutOfSequence

record SqPublisher =
  p_ring :: "Command list"
  p_mask :: u64
  p_epoch :: u32
  p_fenced_by :: u32
  p_next_seq :: u64
  p_pending_first :: u64
  p_acked :: u64
  p_history_from :: u64
  p_last_send_ns :: u64
  p_packets :: u64
  p_dropped :: u64
  p_heartbeats :: u64
  p_retransmit_requests :: u64
  p_retransmitted_packets :: u64
  p_unavailable :: u64
  p_acks :: u64

text \<open>The constructor: the ring holds \<open>2 ^ ring_log2\<close> value-initialised commands \<open>blank\<close>.\<close>

definition pub_init :: "Command \<Rightarrow> nat \<Rightarrow> u64 \<Rightarrow> u32 \<Rightarrow> SqPublisher" where
  "pub_init blank ring_log2 next_seq epoch =
    \<lparr>p_ring = replicate (2 ^ ring_log2) blank, p_mask = mask ring_log2, p_epoch = epoch, p_fenced_by = 0,
     p_next_seq = next_seq, p_pending_first = next_seq, p_acked = next_seq - 1, p_history_from = next_seq,
     p_last_send_ns = 0, p_packets = 0, p_dropped = 0, p_heartbeats = 0, p_retransmit_requests = 0,
     p_retransmitted_packets = 0, p_unavailable = 0, p_acks = 0\<rparr>"

definition fenced :: "SqPublisher \<Rightarrow> bool" where
  "fenced p \<longleftrightarrow> p_fenced_by p \<noteq> 0"

text \<open>The ring slot of a sequence number.\<close>

definition slot :: "SqPublisher \<Rightarrow> u64 \<Rightarrow> nat" where
  "slot p s = unat (s AND p_mask p)"

definition seed_history :: "Command \<Rightarrow> SqPublisher \<Rightarrow> sq_error + SqPublisher" where
  "seed_history c p =
    (if c_seq c \<ge> p_next_seq p then Inl SeedBeyondNext
     else Inr (p\<lparr>p_ring := (p_ring p)[slot p (c_seq c) := c], p_history_from := min (p_history_from p) (c_seq c)\<rparr>))"

definition publish :: "Command \<Rightarrow> SqPublisher \<Rightarrow> sq_error + SqPublisher" where
  "publish c p =
    (if c_seq c \<noteq> p_next_seq p then Inl OutOfSequence
     else Inr (p\<lparr>p_ring := (p_ring p)[slot p (c_seq c) := c], p_next_seq := p_next_seq p + 1\<rparr>))"

definition send_data :: "SqPublisher \<Rightarrow> u64 \<Rightarrow> u16 \<Rightarrow> Datagram" where
  "send_data p first n =
    \<lparr>d_size = sizeof_SqHeader + unat n * sizeof_Command, d_header = sq_header kData (p_epoch p) first n,
     d_cmds = map (\<lambda>i. p_ring p ! slot p (first + of_nat i)) [0..<unat n]\<rparr>"

text \<open>\<^verbatim>\<open>min(kPerPacket, x)\<close> as the 16-bit count.\<close>

definition chunk :: "u64 \<Rightarrow> u16" where
  "chunk x = ucast (min (of_nat kPerPacket) x)"

function flush :: "(u64 \<Rightarrow> bool) \<Rightarrow> u64 \<Rightarrow> SqPublisher \<Rightarrow> sent \<times> SqPublisher" where
  "flush lost now p =
    (if p_pending_first p < p_next_seq p then
       let n = chunk (p_next_seq p - p_pending_first p);
           out = (if lost (p_packets p) then [] else [(Group, send_data p (p_pending_first p) n)]);
           p = p\<lparr>p_dropped := (if lost (p_packets p) then p_dropped p + 1 else p_dropped p), p_packets := p_packets p + 1,
                 p_pending_first := p_pending_first p + ucast n, p_last_send_ns := now\<rparr>;
           (outs, p) = flush lost now p
       in (out @ outs, p)
     else ([], p))"
  by auto

definition heartbeat_if_idle :: "(u64 \<Rightarrow> bool) \<Rightarrow> u64 \<Rightarrow> u64 \<Rightarrow> SqPublisher \<Rightarrow> sent \<times> SqPublisher" where
  "heartbeat_if_idle lost now interval_ns p =
    (if now - p_last_send_ns p < interval_ns \<or> fenced p then ([], p)
     else
      let (out, p) = flush lost now p
      in (out @ [(Group, control (sq_header kHeartbeat (p_epoch p) (p_next_seq p) 0))],
          p\<lparr>p_heartbeats := p_heartbeats p + 1, p_last_send_ns := now\<rparr>))"

definition end_stream :: "(u64 \<Rightarrow> bool) \<Rightarrow> u64 \<Rightarrow> SqPublisher \<Rightarrow> sent \<times> SqPublisher" where
  "end_stream lost now p =
    (if fenced p then ([], p)
     else
      let (out, p) = flush lost now p
      in (out @ replicate 3 (Group, control (sq_header kEnd (p_epoch p) (p_next_seq p) 0)), p))"

text \<open>The two loops of \<^verbatim>\<open>service\<close>, one datagram each. A request's replies are sent \<open>kPerPacket\<close> commands at a
  time; the loop counter may wrap when the end is within a packet of the top of the 64-bit range, so the
  loop is a partial function.\<close>

definition service_group :: "Datagram \<Rightarrow> SqPublisher \<Rightarrow> SqPublisher" where
  "service_group d p =
    (let h = d_header d in
     if d_size d < sizeof_SqHeader then p
     else if q_magic h = kMagic \<and> q_epoch h > p_epoch p \<and> q_epoch h > p_fenced_by p then p\<lparr>p_fenced_by := q_epoch h\<rparr>
     else p)"

partial_function (option) resend :: "SqPublisher \<Rightarrow> u64 \<Rightarrow> u64 \<Rightarrow> Datagram list \<Rightarrow> Datagram list option" where
  "resend p s e acc =
    (if s < e then resend p (s + of_nat kPerPacket) e (acc @ [send_data p s (chunk (e - s))]) else Some acc)"

definition oldest_held :: "SqPublisher \<Rightarrow> u64" where
  "oldest_held p =
    (let size = of_nat (length (p_ring p));
         in_ring = (if p_next_seq p > size then p_next_seq p - size else 1)
     in max in_ring (p_history_from p))"

definition service_control :: "nat \<Rightarrow> Datagram \<Rightarrow> SqPublisher \<Rightarrow> (sent \<times> SqPublisher) option" where
  "service_control from d p =
    (let h = d_header d in
     if d_size d < sizeof_SqHeader then Some ([], p)
     else if q_magic h \<noteq> kMagic \<or> q_epoch h \<noteq> p_epoch p \<or> fenced p then Some ([], p)
     else if q_kind h = kAck then
       Some ([], p\<lparr>p_acks := p_acks p + 1,
                   p_acked := (if q_first_seq h > p_acked p \<and> q_first_seq h < p_next_seq p then q_first_seq h else p_acked p)\<rparr>)
     else if q_kind h = kRetransmit then
       let p = p\<lparr>p_retransmit_requests := p_retransmit_requests p + 1\<rparr>;
           oldest = oldest_held p
       in if q_first_seq h < oldest then
            Some ([(Peer from, control (sq_header kUnavailable (p_epoch p) oldest 0))], p\<lparr>p_unavailable := p_unavailable p + 1\<rparr>)
          else
            do { ds \<leftarrow> resend p (q_first_seq h) (min (q_first_seq h + ucast (q_count h)) (p_next_seq p)) [];
                 Some (map (Pair (Peer from)) ds, p\<lparr>p_retransmitted_packets := p_retransmitted_packets p + of_nat (length ds)\<rparr>) }
     else Some ([], p))"

primrec service_controls :: "(nat \<times> Datagram) list \<Rightarrow> SqPublisher \<Rightarrow> (sent \<times> SqPublisher) option" where
  "service_controls [] p = Some ([], p)"
| "service_controls (r # rs) p =
    do { (out, p) \<leftarrow> service_control (fst r) (snd r) p; (outs, p) \<leftarrow> service_controls rs p; Some (out @ outs, p) }"

definition service :: "Datagram list \<Rightarrow> (nat \<times> Datagram) list \<Rightarrow> SqPublisher \<Rightarrow> (sent \<times> SqPublisher) option" where
  "service gs rs p = service_controls rs (foldl (\<lambda>p d. service_group d p) p gs)"

section \<open>The replica\<close>

record SqSubscriber =
  u_min_epoch :: u32
  u_epoch :: u32
  u_superseded_by :: u32
  u_expected :: u64
  u_known_next :: u64
  u_end_seq :: u64
  u_requested_from :: u64
  u_requested_at :: u64
  u_last_heard :: u64
  u_ended :: bool
  u_unavailable :: bool
  u_stash :: "(u64 \<times> Command list) list"
  u_packets :: u64
  u_duplicates :: u64
  u_gaps :: u64
  u_requests :: u64
  u_stashed_max :: u64
  u_stale :: u64

definition sub_init :: "u64 \<Rightarrow> u32 \<Rightarrow> SqSubscriber" where
  "sub_init first_seq min_epoch =
    \<lparr>u_min_epoch = min_epoch, u_epoch = 0, u_superseded_by = 0, u_expected = first_seq, u_known_next = 0, u_end_seq = 0,
     u_requested_from = 0, u_requested_at = 0, u_last_heard = 0, u_ended = False, u_unavailable = False, u_stash = [],
     u_packets = 0, u_duplicates = 0, u_gaps = 0, u_requests = 0, u_stashed_max = 0, u_stale = 0\<rparr>"

definition sub_ended :: "SqSubscriber \<Rightarrow> bool" where
  "sub_ended u \<longleftrightarrow> u_ended u \<and> u_expected u \<ge> u_end_seq u"

text \<open>\<^verbatim>\<open>deliver\<close>: the commands passed to the callback and the new state.\<close>

definition deliver :: "u64 \<Rightarrow> Command list \<Rightarrow> SqSubscriber \<Rightarrow> Command list \<times> SqSubscriber" where
  "deliver first cmds u =
    (let e = first + of_nat (length cmds) in
     (drop (unat (u_expected u - first)) cmds, u\<lparr>u_expected := e, u_known_next := max (u_known_next u) e\<rparr>))"

text \<open>\<^verbatim>\<open>map::emplace\<close> keeps the mapped value of a present key; the result says whether it inserted.\<close>

definition stash_emplace :: "u64 \<Rightarrow> Command list \<Rightarrow> (u64 \<times> Command list) list \<Rightarrow> (u64 \<times> Command list) list \<times> bool" where
  "stash_emplace k v m = (om_alter (<) k (\<lambda>old. case old of None \<Rightarrow> v | Some w \<Rightarrow> w) m, map_of m k = None)"

fun deliver_stash :: "(u64 \<times> Command list) list \<Rightarrow> SqSubscriber \<Rightarrow> Command list \<times> SqSubscriber" where
  "deliver_stash [] u = ([], u\<lparr>u_stash := []\<rparr>)"
| "deliver_stash ((k, v) # m) u =
    (if k \<le> u_expected u then
       if k + of_nat (length v) > u_expected u then
         let (out, u) = deliver k v u; (outs, u) = deliver_stash m u in (out @ outs, u)
       else deliver_stash m u
     else ([], u\<lparr>u_stash := (k, v) # m\<rparr>))"

definition on_data :: "Datagram \<Rightarrow> SqSubscriber \<Rightarrow> Command list \<times> SqSubscriber" where
  "on_data d u =
    (let h = d_header d in
     if d_size d \<noteq> sizeof_SqHeader + unat (q_count h) * sizeof_Command then ([], u)
     else
      let u = u\<lparr>u_packets := u_packets u + 1\<rparr> in
      if q_first_seq h + ucast (q_count h) \<le> u_expected u then ([], u\<lparr>u_duplicates := u_duplicates u + 1\<rparr>)
      else
        let cmds = take (unat (q_count h)) (d_cmds d) in
        if q_first_seq h > u_expected u then
          let (stash, fresh) = stash_emplace (q_first_seq h) cmds (u_stash u) in
          ([], u\<lparr>u_stash := stash, u_gaps := (if fresh \<and> length stash = 1 then u_gaps u + 1 else u_gaps u),
                 u_stashed_max := max (u_stashed_max u) (of_nat (length stash))\<rparr>)
        else
          let (out, u) = deliver (q_first_seq h) cmds u;
              (outs, u) = deliver_stash (u_stash u) u
          in (out @ outs, u))"

definition drain_one :: "u64 \<Rightarrow> Datagram \<Rightarrow> SqSubscriber \<Rightarrow> Command list \<times> SqSubscriber" where
  "drain_one now d u =
    (let h = d_header d in
     if d_size d < sizeof_SqHeader then ([], u)
     else if q_magic h \<noteq> kMagic \<or> q_kind h = kAck \<or> q_kind h = kRetransmit then ([], u)
     else if q_epoch h < u_min_epoch u \<or> (u_epoch u \<noteq> 0 \<and> q_epoch h < u_epoch u) then ([], u\<lparr>u_stale := u_stale u + 1\<rparr>)
     else
      let u = (if u_epoch u = 0 then u\<lparr>u_epoch := q_epoch h\<rparr> else u) in
      if q_epoch h > u_epoch u then ([], u\<lparr>u_superseded_by := max (u_superseded_by u) (q_epoch h)\<rparr>)
      else
        let u = u\<lparr>u_last_heard := now\<rparr> in
        if q_kind h = kData then on_data d u
        else if q_kind h = kHeartbeat then ([], u\<lparr>u_known_next := max (u_known_next u) (q_first_seq h)\<rparr>)
        else if q_kind h = kEnd then
          ([], u\<lparr>u_ended := True, u_end_seq := q_first_seq h, u_known_next := max (u_known_next u) (q_first_seq h)\<rparr>)
        else if q_kind h = kUnavailable then ([], u\<lparr>u_unavailable := True\<rparr>)
        else ([], u))"

primrec drain :: "(u64 \<times> Datagram) list \<Rightarrow> SqSubscriber \<Rightarrow> Command list \<times> SqSubscriber" where
  "drain [] u = ([], u)"
| "drain (d # ds) u = (let (out, u) = drain_one (fst d) (snd d) u; (outs, u) = drain ds u in (out @ outs, u))"

definition kReaskNs :: u64 where "kReaskNs = 20000000"

definition request_gap :: "u64 \<Rightarrow> SqSubscriber \<Rightarrow> Datagram list \<times> SqSubscriber" where
  "request_gap now u =
    (let gap_end = (case u_stash u of [] \<Rightarrow> u_known_next u | (k, _) # _ \<Rightarrow> k) in
     if gap_end \<le> u_expected u \<or> u_epoch u = 0 then ([], u)
     else if u_requested_from u = u_expected u \<and> now - u_requested_at u < kReaskNs then ([], u)
     else
      let count = ucast (min (gap_end - u_expected u) 4096) in
      ([control (sq_header kRetransmit (u_epoch u) (u_expected u) count)],
       u\<lparr>u_requests := u_requests u + 1, u_requested_from := u_expected u, u_requested_at := now\<rparr>))"

definition poll :: "u64 \<Rightarrow> (u64 \<times> Datagram) list \<Rightarrow> (u64 \<times> Datagram) list \<Rightarrow> SqSubscriber \<Rightarrow> Command list \<times> Datagram list \<times> SqSubscriber" where
  "poll now ms cs u =
    (let (a, u) = drain ms u; (b, u) = drain cs u; (req, u) = request_gap now u in (a @ b, req, u))"

definition sub_ack :: "u64 \<Rightarrow> SqSubscriber \<Rightarrow> Datagram list" where
  "sub_ack through u = (if u_epoch u = 0 then [] else [control (sq_header kAck (u_epoch u) through 0)])"

section \<open>The send loop terminates\<close>

lemmas kind_defs = kData_def kHeartbeat_def kEnd_def kRetransmit_def kAck_def kUnavailable_def

lemma kPerPacket_25: "kPerPacket = 25"
  by (simp add: kPerPacket_def kMaxDatagram_def sizeof_SqHeader_def sizeof_Command_def)

lemma unat_chunk: "unat (chunk x) = min 25 (unat x)"
proof -
  have m: "unat (min (25 :: u64) x) = min 25 (unat x)" by (simp add: min_def word_le_nat_alt)
  moreover have "min 25 (unat x) < 2 ^ 16" by (simp add: min_def)
  ultimately show ?thesis by (simp add: chunk_def kPerPacket_25 unsigned_ucast_eq take_bit_nat_eq_self_iff)
qed

lemma unat_chunk64: "unat (ucast (chunk x) :: u64) = min 25 (unat x)"
  using unat_chunk [of x] by (simp add: unsigned_ucast_eq take_bit_nat_eq_self_iff min_def)

lemma pending_advance:
  assumes "a < (b :: u64)"
  shows "unat (a + ucast (chunk (b - a))) = unat a + min 25 (unat b - unat a)"
proof -
  have d: "unat (b - a) = unat b - unat a" using assms by (intro unat_sub) simp
  have "unat a + min 25 (unat b - unat a) \<le> unat b" using assms by (simp add: word_less_nat_alt)
  also have "\<dots> < 2 ^ LENGTH(64)" by (rule unsigned_less)
  finally have "unat a + unat (ucast (chunk (b - a)) :: u64) < 2 ^ LENGTH(64)" by (simp add: unat_chunk64 d)
  then show ?thesis using unat_add_lem [of a "ucast (chunk (b - a))"] unat_chunk64 [of "b - a"] d by simp
qed

termination flush
proof (relation "measure (\<lambda>(lost, now, p). unat (p_next_seq p) - unat (p_pending_first p))")
  fix lost :: "u64 \<Rightarrow> bool" and now and p :: SqPublisher and n out q
  assume "p_pending_first p < p_next_seq p" "n = chunk (p_next_seq p - p_pending_first p)"
    "q = p\<lparr>p_dropped := (if lost (p_packets p) then p_dropped p + 1 else p_dropped p), p_packets := p_packets p + 1,
           p_pending_first := p_pending_first p + ucast n, p_last_send_ns := now\<rparr>"
  then show "((lost, now, q), (lost, now, p)) \<in> measure (\<lambda>(lost, now, p). unat (p_next_seq p) - unat (p_pending_first p))"
    using pending_advance [of "p_pending_first p" "p_next_seq p"] by (auto simp: word_less_nat_alt)
qed simp

declare flush.simps [simp del]

end
