(* ===== verification/Seqstream_Properties.thy ===== *)
theory Seqstream_Properties
  imports Seqstream
begin

text \<open>
  The sequenced stream's contract. \<open>log\<close> is the primary's order: the command of every sequence number. What the
  primary sends are segments of the log; a replica that receives any selection of them, repeated and in any
  order, among arbitrary datagrams of other primaries, delivers the log from its first sequence number on,
  each command once and in order; and one request and its answer close a gap.
\<close>

type_synonym log = "nat \<Rightarrow> Command"

section \<open>Specification\<close>

definition segment :: "log \<Rightarrow> nat \<Rightarrow> nat \<Rightarrow> Command list" where
  "segment log a b = map log [a..<b]"

text \<open>A data datagram carries the log's commands from its first sequence number on, below the bound \<open>n\<close>; a
  heartbeat and the end announce a next sequence number up to \<open>n\<close>.\<close>

definition genuine :: "log \<Rightarrow> nat \<Rightarrow> Datagram \<Rightarrow> bool" where
  "genuine log n d \<longleftrightarrow>
    (let h = d_header d; a = unat (q_first_seq h); b = a + unat (q_count h) in
     (q_kind h = kData \<longrightarrow> b \<le> n \<and> d_cmds d = segment log a b) \<and> (q_kind h = kHeartbeat \<or> q_kind h = kEnd \<longrightarrow> a \<le> n))"

definition pub_inv :: "log \<Rightarrow> SqPublisher \<Rightarrow> bool" where
  "pub_inv log p \<longleftrightarrow>
    (\<exists>k < 64. length (p_ring p) = 2 ^ k \<and> p_mask p = mask k) \<and>
    1 \<le> unat (p_history_from p) \<and> p_history_from p \<le> p_pending_first p \<and> p_pending_first p \<le> p_next_seq p \<and>
    p_acked p < p_next_seq p \<and> unat (p_next_seq p) + 25 \<le> 2 ^ 64 \<and>
    (\<forall>s. unat (oldest_held p) \<le> s \<and> s < unat (p_next_seq p) \<longrightarrow> p_ring p ! slot p (of_nat s) = log s)"

text \<open>The commands staged for the next flush are still in the ring.\<close>

definition flushable :: "SqPublisher \<Rightarrow> bool" where
  "flushable p \<longleftrightarrow> unat (p_next_seq p) - unat (p_pending_first p) \<le> length (p_ring p)"

text \<open>The primary's runs from \<open>p0\<close>: the gateway publishes the log in order and calls the other operations as it
  likes. \<open>out\<close> is everything sent.\<close>

inductive pub_reach :: "log \<Rightarrow> SqPublisher \<Rightarrow> sent \<Rightarrow> SqPublisher \<Rightarrow> bool" for log p0 where
  start: "pub_reach log p0 [] p0"
| publish: "pub_reach log p0 out p \<Longrightarrow> unat (p_next_seq p) + 26 \<le> 2 ^ 64 \<Longrightarrow>
    publish (log (unat (p_next_seq p))) p = Inr p' \<Longrightarrow> pub_reach log p0 out p'"
| flush: "pub_reach log p0 out p \<Longrightarrow> flushable p \<Longrightarrow> flush lost now p = (o', p') \<Longrightarrow> pub_reach log p0 (out @ o') p'"
| heartbeat: "pub_reach log p0 out p \<Longrightarrow> flushable p \<Longrightarrow> heartbeat_if_idle lost now iv p = (o', p') \<Longrightarrow> pub_reach log p0 (out @ o') p'"
| finish: "pub_reach log p0 out p \<Longrightarrow> flushable p \<Longrightarrow> end_stream lost now p = (o', p') \<Longrightarrow> pub_reach log p0 (out @ o') p'"
| service: "pub_reach log p0 out p \<Longrightarrow> service gs rs p = Some (o', p') \<Longrightarrow> pub_reach log p0 (out @ o') p'"

text \<open>What every operation keeps.\<close>

definition kept :: "SqPublisher \<Rightarrow> SqPublisher \<Rightarrow> bool" where
  "kept p p' \<longleftrightarrow> p_ring p' = p_ring p \<and> p_mask p' = p_mask p \<and> p_epoch p' = p_epoch p \<and> p_next_seq p' = p_next_seq p \<and>
    p_history_from p' = p_history_from p \<and> p_pending_first p \<le> p_pending_first p' \<and> p_pending_first p' \<le> p_next_seq p \<and>
    p_acked p \<le> p_acked p' \<and> p_acked p' < p_next_seq p \<and> p_fenced_by p \<le> p_fenced_by p'"

definition emits :: "log \<Rightarrow> SqPublisher \<Rightarrow> sent \<Rightarrow> bool" where
  "emits log p out \<longleftrightarrow> (\<forall>(dst, d) \<in> set out. genuine log (unat (p_next_seq p)) d \<and> q_epoch (d_header d) = p_epoch p)"

text \<open>A promoted backup seeds its ring from its journal before it publishes.\<close>

primrec seed_all :: "Command list \<Rightarrow> SqPublisher \<Rightarrow> sq_error + SqPublisher" where
  "seed_all [] p = Inr p"
| "seed_all (c # cs) p = (case seed_history c p of Inl e \<Rightarrow> Inl e | Inr p \<Rightarrow> seed_all cs p)"

text \<open>The datagrams of an answer to a request for the sequence numbers from \<open>a\<close> below \<open>b\<close>.\<close>

function answer :: "SqPublisher \<Rightarrow> nat \<Rightarrow> nat \<Rightarrow> Datagram list" where
  "answer p a b = (if a < b then send_data p (of_nat a) (chunk (of_nat (b - a))) # answer p (a + 25) b else [])"
  by auto
termination by (relation "measure (\<lambda>(p, a, b). b - a)") auto

definition stash_ok :: "log \<Rightarrow> nat \<Rightarrow> (u64 \<times> Command list) list \<Rightarrow> bool" where
  "stash_ok log n m \<longleftrightarrow> sorted_wrt (<) (map fst m) \<and>
    (\<forall>(k, v) \<in> set m. unat k + length v \<le> n \<and> v = segment log (unat k) (unat k + length v))"

definition sub_inv :: "log \<Rightarrow> nat \<Rightarrow> SqSubscriber \<Rightarrow> bool" where
  "sub_inv log n u \<longleftrightarrow> stash_ok log n (u_stash u) \<and> unat (u_known_next u) \<le> n \<and> (\<forall>(k, v) \<in> set (u_stash u). u_expected u < k)"

text \<open>A primary under epoch \<open>ep\<close> and one of its replicas. The primary starts with the log from \<open>a\<close> on in its ring
  and has sent \<open>out\<close>. The replica, which needs the log from \<open>first\<close> on, has received \<open>ds\<close>: of the primary's
  datagrams any, any number of times and in any order (some not at all), and anything under other epochs; it
  has locked on to the primary and delivered \<open>got\<close>.\<close>

definition started :: "log \<Rightarrow> Command \<Rightarrow> nat \<Rightarrow> nat \<Rightarrow> u64 \<Rightarrow> u32 \<Rightarrow> SqPublisher \<Rightarrow> bool" where
  "started log blank k a nx ep p0 \<longleftrightarrow>
    k < 64 \<and> 1 \<le> a \<and> a \<le> unat nx \<and> unat nx + 25 \<le> 2 ^ 64 \<and> (\<forall>s. a \<le> s \<and> s < unat nx \<longrightarrow> c_seq (log s) = of_nat s) \<and>
    seed_all (map log [a..<unat nx]) (pub_init blank k nx ep) = Inr p0"

definition received :: "u32 \<Rightarrow> sent \<Rightarrow> (u64 \<times> Datagram) list \<Rightarrow> bool" where
  "received ep out ds \<longleftrightarrow> (\<forall>(t, d) \<in> set ds. q_epoch (d_header d) = ep \<longrightarrow> d \<in> snd ` set out)"

definition session :: "log \<Rightarrow> SqPublisher \<Rightarrow> u64 \<Rightarrow> Command list \<Rightarrow> SqSubscriber \<Rightarrow> bool" where
  "session log p first got u \<longleftrightarrow>
    (\<exists>blank k a nx ep p0 out min_ep ds. started log blank k a nx ep p0 \<and> pub_reach log p0 out p \<and> received ep out ds \<and>
      0 < min_ep \<and> drain ds (sub_init first min_ep) = (got, u) \<and> u_epoch u = ep)"

definition sample_log :: log where
  "sample_log s = \<lparr>c_order_id = of_nat (100 + s), c_price = 10000, c_seq = of_nat s, c_ts = 0, c_qty = 5, c_owner = 1, c_symbol = 0,
     c_type = NewOrder, c_side = Buy, c_ord_type = Limit, c_tif = Day, c_flags = 0\<rparr>"

text \<open>A primary with a ring of four commands that has published two, and what it sends.\<close>

definition sample_primary :: SqPublisher where
  "sample_primary = (pub_init (sample_log 0) 2 1 1)\<lparr>p_ring := [sample_log 0, sample_log 1, sample_log 2, sample_log 0], p_next_seq := 3\<rparr>"

definition sample_data :: Datagram where
  "sample_data = send_data sample_primary 1 2"

text \<open>The outcome of one step: what is delivered is the log between the old and the new expected number.\<close>

definition advances :: "log \<Rightarrow> nat \<Rightarrow> SqSubscriber \<Rightarrow> Command list \<Rightarrow> SqSubscriber \<Rightarrow> bool" where
  "advances log n u out u' \<longleftrightarrow> out = segment log (unat (u_expected u)) (unat (u_expected u')) \<and> u_expected u \<le> u_expected u' \<and>
    unat (u_expected u') \<le> max n (unat (u_expected u)) \<and> sub_inv log n u' \<and> u_min_epoch u' = u_min_epoch u"

section \<open>Segments\<close>

lemma segment_simps [simp]: "length (segment log a b) = b - a" "segment log a a = []"
  by (simp_all add: segment_def)

lemma segment_append: "a \<le> b \<Longrightarrow> b \<le> c \<Longrightarrow> segment log a b @ segment log b c = segment log a c"
  by (metis (no_types, lifting) le_Suc_ex map_append segment_def upt_add_eq_append)

lemma drop_segment: "drop i (segment log a b) = segment log (a + i) b"
  by (simp add: segment_def drop_map)

section \<open>The primary\<close>

lemma slot_mod:
  assumes "p_mask p = mask k" and "k < 64"
  shows "slot p s = unat s mod 2 ^ k"
  using assms by (simp add: slot_def unat_and_mask)

lemma pub_inv_ring:
  assumes "pub_inv log p"
  obtains k where "k < 64" "length (p_ring p) = 2 ^ k" "p_mask p = mask k" "\<And>s. slot p s = unat s mod 2 ^ k"
  using assms slot_mod unfolding pub_inv_def by metis

lemma oldest_held_nat:
  assumes "k < 64" and "length (p_ring p) = 2 ^ k" and "1 \<le> unat (p_history_from p)"
  shows "unat (oldest_held p) = max (unat (p_next_seq p) - 2 ^ k) (unat (p_history_from p))"
proof -
  have "(2 :: nat) ^ k < 2 ^ 64" using assms(1) by (intro power_strict_increasing) simp_all
  then have u: "unat (of_nat (2 ^ k) :: u64) = 2 ^ k" by (rule unat_of_small)
  have "unat (if p_next_seq p > of_nat (2 ^ k) then p_next_seq p - of_nat (2 ^ k) else 1) =
    (if unat (p_next_seq p) > 2 ^ k then unat (p_next_seq p) - 2 ^ k else 1)"
    using u by (simp only: word_less_nat_alt) (simp add: unat_sub word_le_nat_alt)
  then show ?thesis unfolding oldest_held_def Let_def assms(2) using assms(3)
    by (simp only: max_def word_le_nat_alt) (auto split: if_splits)
qed

lemma send_data_genuine:
  assumes "pub_inv log p" and "unat (oldest_held p) \<le> unat first" and "unat first + unat n \<le> unat (p_next_seq p)"
  shows "genuine log (unat (p_next_seq p)) (send_data p first n)"
proof -
  have "p_ring p ! slot p (first + of_nat i) = log (unat first + i)" if "i < unat n" for i
  proof -
    have e: "first + of_nat i = of_nat (unat first + i)" by simp
    have "unat (oldest_held p) \<le> unat first + i" "unat first + i < unat (p_next_seq p)" using assms(2,3) that by simp_all
    then show ?thesis using assms(1) unfolding pub_inv_def e by blast
  qed
  then show ?thesis
    unfolding genuine_def send_data_def sq_header_def segment_def Let_def using assms(3)
    by (auto simp: kind_defs intro!: nth_equalityI)
qed

lemma genuine_mono: "genuine log n d \<Longrightarrow> n \<le> m \<Longrightarrow> genuine log m d"
  by (auto simp: genuine_def Let_def)

lemma control_genuine:
  "k \<noteq> kData \<Longrightarrow> k = kHeartbeat \<or> k = kEnd \<longrightarrow> unat s \<le> n \<Longrightarrow> genuine log n (control (sq_header k e s c))"
  by (simp add: genuine_def control_def sq_header_def Let_def)

lemma kept_refl: "pub_inv log p \<Longrightarrow> kept p p"
  by (simp add: kept_def pub_inv_def)

lemma kept_trans: "kept p q \<Longrightarrow> kept q r \<Longrightarrow> kept p r"
  unfolding kept_def by (auto intro: order_trans)

lemma kept_facts:
  assumes "kept p p'"
  shows "oldest_held p' = oldest_held p" "slot p' = slot p" "send_data p' = send_data p"
  using assms by (simp_all add: kept_def oldest_held_def slot_def send_data_def fun_eq_iff Let_def)

lemma kept_inv: "kept p p' \<Longrightarrow> pub_inv log p \<Longrightarrow> pub_inv log p'"
  using kept_facts [of p p'] unfolding pub_inv_def kept_def by (auto intro: order_trans)

lemma emits_simps [simp]:
  "emits log p []" "emits log p (a @ b) \<longleftrightarrow> emits log p a \<and> emits log p b"
  "emits log p (x # b) \<longleftrightarrow> genuine log (unat (p_next_seq p)) (snd x) \<and> q_epoch (d_header (snd x)) = p_epoch p \<and> emits log p b"
  by (auto simp: emits_def)

lemma emits_kept: "kept p p' \<Longrightarrow> emits log p' out = emits log p out"
  by (simp add: emits_def kept_def)

lemma header_epoch [simp]:
  "q_epoch (d_header (control (sq_header k e s c))) = e" "q_epoch (d_header (send_data p f n)) = p_epoch p"
  by (simp_all add: control_def sq_header_def send_data_def)

lemma flush_spec:
  assumes "pub_inv log p" and "unat (oldest_held p) \<le> unat (p_pending_first p)" and "flush lost now p = (out, p')"
  shows "kept p p'" "emits log p out" "p_pending_first p' = p_next_seq p"
proof -
  have "kept p p' \<and> emits log p out \<and> p_pending_first p' = p_next_seq p"
    using assms
  proof (induction lost now p arbitrary: out p' rule: flush.induct)
    case (1 lost now p)
    show ?case
    proof (cases "p_pending_first p < p_next_seq p")
      case False
      then have "out = []" "p' = p" using "1.prems"(3) by (simp_all add: flush.simps)
      moreover have "p_pending_first p = p_next_seq p" using False "1.prems"(1) by (simp add: pub_inv_def)
      ultimately show ?thesis using kept_refl [OF "1.prems"(1)] by simp
    next
      case True
      define n where "n = chunk (p_next_seq p - p_pending_first p)"
      define q where "q = p\<lparr>p_dropped := (if lost (p_packets p) then p_dropped p + 1 else p_dropped p), p_packets := p_packets p + 1,
        p_pending_first := p_pending_first p + ucast n, p_last_send_ns := now\<rparr>"
      obtain o' where f: "flush lost now q = (o', p')"
        and out: "out = (if lost (p_packets p) then [] else [(Group, send_data p (p_pending_first p) n)]) @ o'"
        using "1.prems"(3) True unfolding flush.simps [of lost now p] Let_def n_def [symmetric] q_def [symmetric]
        by (auto split: prod.splits)
      have adv: "unat (p_pending_first q) = unat (p_pending_first p) + min 25 (unat (p_next_seq p) - unat (p_pending_first p))"
        using pending_advance [OF True] by (simp add: q_def n_def)
      have q: "kept p q" using adv "1.prems"(1) True by (simp add: kept_def pub_inv_def q_def word_le_nat_alt word_less_nat_alt)
      note Q = kept_inv [OF q "1.prems"(1)] kept_facts(1) [OF q]
      have n: "unat n = min 25 (unat (p_next_seq p) - unat (p_pending_first p))"
        using True by (simp add: n_def unat_chunk unat_sub)
      have "genuine log (unat (p_next_seq p)) (send_data p (p_pending_first p) n)"
        by (rule send_data_genuine [OF "1.prems"(1,2)]) (use n True in \<open>simp add: word_less_nat_alt\<close>)
      moreover have "kept q p' \<and> emits log q o' \<and> p_pending_first p' = p_next_seq q"
        by (rule "1.IH" [OF True n_def refl q_def Q(1) _ f]) (use Q(2) adv "1.prems"(2) in simp)
      moreover have "p_next_seq q = p_next_seq p" by (simp add: q_def)
      ultimately show ?thesis using out emits_kept [OF q] kept_trans [OF q] by auto
    qed
  qed
  then show "kept p p'" "emits log p out" "p_pending_first p' = p_next_seq p" by simp_all
qed

lemma flushable_window:
  assumes "pub_inv log p" and "flushable p"
  shows "unat (oldest_held p) \<le> unat (p_pending_first p)"
proof -
  obtain k where k: "k < 64" "length (p_ring p) = 2 ^ k" using pub_inv_ring [OF assms(1)] by blast
  have h: "1 \<le> unat (p_history_from p)" "unat (p_history_from p) \<le> unat (p_pending_first p)"
    using assms(1) by (simp_all add: pub_inv_def word_le_nat_alt)
  show ?thesis using assms(2) h(2) unfolding oldest_held_nat [OF k h(1)] flushable_def k(2) by simp
qed

lemma heartbeat_spec:
  assumes "pub_inv log p" and "flushable p" and "heartbeat_if_idle lost now iv p = (out, p')"
  shows "kept p p' \<and> emits log p out"
proof (cases "now - p_last_send_ns p < iv \<or> fenced p")
  case False
  obtain o' q where f: "flush lost now p = (o', q)" by fastforce
  note F = flush_spec [OF assms(1) flushable_window [OF assms(1,2)] f]
  have "p' = q\<lparr>p_heartbeats := p_heartbeats q + 1, p_last_send_ns := now\<rparr>"
    and "out = o' @ [(Group, control (sq_header kHeartbeat (p_epoch q) (p_next_seq q) 0))]"
    using assms(3) False f by (simp_all add: heartbeat_if_idle_def)
  then show ?thesis using F(1,2) by (simp add: kept_def control_genuine kind_defs)
qed (use assms kept_refl in \<open>auto simp: heartbeat_if_idle_def\<close>)

lemma end_spec:
  assumes "pub_inv log p" and "flushable p" and "end_stream lost now p = (out, p')"
  shows "kept p p' \<and> emits log p out"
proof (cases "fenced p")
  case False
  obtain o' q where f: "flush lost now p = (o', q)" by fastforce
  note F = flush_spec [OF assms(1) flushable_window [OF assms(1,2)] f]
  have "p' = q" "out = o' @ replicate 3 (Group, control (sq_header kEnd (p_epoch q) (p_next_seq q) 0))"
    using assms(3) False f by (auto simp: end_stream_def)
  then show ?thesis using F(1,2) by (simp add: kept_def control_genuine kind_defs numeral_3_eq_3)
qed (use assms kept_refl in \<open>auto simp: end_stream_def\<close>)

declare answer.simps [simp del]

lemma answer_empty [simp]: "b \<le> a \<Longrightarrow> answer p a b = []"
  by (simp add: answer.simps)

lemma resend_answer:
  assumes "unat e + 25 \<le> 2 ^ 64"
  shows "resend p s e acc = Some (acc @ answer p (unat s) (unat e))"
  using assms
proof (induction "unat e - unat s" arbitrary: s acc rule: less_induct)
  case less
  show ?case
  proof (cases "s < e")
    case False
    then have "unat e \<le> unat s" by (simp add: not_less word_le_nat_alt)
    with False show ?thesis by (subst resend.simps) simp
  next
    case True
    then have lt: "unat s < unat e" by (simp add: word_less_nat_alt)
    have "unat s + unat (25 :: u64) < 2 ^ LENGTH(64)" using lt less.prems by simp
    then have s: "unat (s + 25) = unat s + 25" using unat_add_lem [of s "25 :: u64"] by simp
    have "resend p s e acc = resend p (s + 25) e (acc @ [send_data p s (chunk (e - s))])"
      using True by (subst resend.simps) (simp add: kPerPacket_25)
    also have "\<dots> = Some ((acc @ [send_data p s (chunk (e - s))]) @ answer p (unat s + 25) (unat e))"
      using less.hyps [of "s + 25"] lt less.prems by (simp add: s)
    also have "chunk (e - s) = chunk (of_nat (unat e - unat s))" using lt by (simp add: of_nat_diff)
    finally show ?thesis using lt by (simp add: answer.simps [of p "unat s"])
  qed
qed

lemma answer_emits:
  assumes "pub_inv log p" and "b \<le> unat (p_next_seq p)" and "unat (oldest_held p) \<le> a"
  shows "emits log p (map (Pair dst) (answer p a b))"
  using assms
proof (induction p a b rule: answer.induct)
  case (1 p a b)
  show ?case
  proof (cases "a < b")
    case True
    have "b < 2 ^ 64" using "1.prems"(1,2) by (simp add: pub_inv_def)
    then have a: "unat (of_nat a :: u64) = a" and d: "unat (of_nat (b - a) :: u64) = b - a" using True by (intro unat_of_small; simp)+
    have "genuine log (unat (p_next_seq p)) (send_data p (of_nat a) (chunk (of_nat (b - a))))"
      by (rule send_data_genuine [OF "1.prems"(1)]; unfold a d unat_chunk) (use "1.prems"(2,3) True in simp_all)
    then show ?thesis using "1.IH" [OF True "1.prems"(1,2)] "1.prems"(3) True by (simp add: answer.simps [of p a])
  qed simp
qed

lemma service_control_spec:
  assumes "pub_inv log p"
  shows "\<exists>out p'. service_control from d p = Some (out, p') \<and> kept p p' \<and> emits log p out"
proof -
  let ?h = "d_header d"
  have nx: "unat (p_next_seq p) + 25 \<le> 2 ^ 64" using assms by (simp add: pub_inv_def)
  consider (skip) "d_size d < sizeof_SqHeader \<or> q_magic ?h \<noteq> kMagic \<or> q_epoch ?h \<noteq> p_epoch p \<or> fenced p \<or> q_kind ?h \<noteq> kAck \<and> q_kind ?h \<noteq> kRetransmit"
    | (ack) "\<not> d_size d < sizeof_SqHeader" "q_magic ?h = kMagic" "q_epoch ?h = p_epoch p" "\<not> fenced p" "q_kind ?h = kAck"
    | (re) "\<not> d_size d < sizeof_SqHeader" "q_magic ?h = kMagic" "q_epoch ?h = p_epoch p" "\<not> fenced p" "q_kind ?h = kRetransmit" by blast
  then show ?thesis
  proof cases
    case skip
    then have "service_control from d p = Some ([], p)" by (auto simp: service_control_def Let_def)
    then show ?thesis using kept_refl [OF assms] by simp
  next
    case ack
    then show ?thesis using assms by (simp add: service_control_def kept_def pub_inv_def Let_def less_imp_le)
  next
    case re
    define q where "q = p\<lparr>p_retransmit_requests := p_retransmit_requests p + 1\<rparr>"
    define e where "e = min (q_first_seq ?h + ucast (q_count ?h)) (p_next_seq q)"
    have q: "kept p q" using assms by (simp add: q_def kept_def pub_inv_def)
    note Q = kept_inv [OF q assms] kept_facts(1) [OF q] emits_kept [OF q]
    have nq: "p_next_seq q = p_next_seq p" "p_epoch q = p_epoch p" by (simp_all add: q_def)
    have kr: "kRetransmit \<noteq> kAck" by (simp add: kind_defs)
    have eb: "unat e \<le> unat (p_next_seq q)" by (simp add: e_def word_le_nat_alt [symmetric])
    have r: "resend q (q_first_seq ?h) e [] = Some (answer q (unat (q_first_seq ?h)) (unat e))"
      using resend_answer [of e q "q_first_seq ?h" "[]"] eb nx nq by simp
    have sc: "service_control from d p =
      (if q_first_seq ?h < oldest_held q then
         Some ([(Peer from, control (sq_header kUnavailable (p_epoch q) (oldest_held q) 0))], q\<lparr>p_unavailable := p_unavailable q + 1\<rparr>)
       else do { ds \<leftarrow> resend q (q_first_seq ?h) e [];
         Some (map (Pair (Peer from)) ds, q\<lparr>p_retransmitted_packets := p_retransmitted_packets q + of_nat (length ds)\<rparr>) })"
      using re kr unfolding service_control_def Let_def q_def [symmetric] e_def [symmetric] by simp
    show ?thesis
    proof (cases "q_first_seq ?h < oldest_held q")
      case True
      then show ?thesis using sc q nq by (simp add: control_genuine kind_defs kept_def)
    next
      case False
      then have "emits log q (map (Pair (Peer from)) (answer q (unat (q_first_seq ?h)) (unat e)))"
        by (intro answer_emits [OF Q(1) eb]) (simp add: not_less word_le_nat_alt)
      then show ?thesis using sc r False q Q(3) by (simp add: kept_def)
    qed
  qed
qed

lemma service_group_kept: "pub_inv log p \<Longrightarrow> kept p (foldl (\<lambda>p d. service_group d p) p gs)"
proof (induction gs arbitrary: p)
  case (Cons d gs)
  have "kept p (service_group d p)" using Cons.prems by (auto simp: service_group_def kept_def pub_inv_def Let_def)
  then show ?case using Cons.IH [of "service_group d p"] Cons.prems kept_inv kept_trans by fastforce
qed (simp add: kept_refl)

lemma service_controls_spec:
  "pub_inv log p \<Longrightarrow> \<exists>out p'. service_controls rs p = Some (out, p') \<and> kept p p' \<and> emits log p out"
proof (induction rs arbitrary: p)
  case (Cons r rs)
  obtain o1 p1 where 1: "service_control (fst r) (snd r) p = Some (o1, p1)" "kept p p1" "emits log p o1"
    using service_control_spec [OF Cons.prems] by blast
  obtain o2 p2 where 2: "service_controls rs p1 = Some (o2, p2)" "kept p1 p2" "emits log p1 o2"
    using Cons.IH [OF kept_inv [OF 1(2) Cons.prems]] by blast
  show ?case using 1 2 kept_trans [OF 1(2) 2(2)] emits_kept [OF 1(2)] by simp
qed (simp add: kept_refl)

lemma service_spec:
  assumes "pub_inv log p"
  shows "\<exists>out p'. service gs rs p = Some (out, p') \<and> kept p p' \<and> emits log p out"
proof -
  note K = service_group_kept [OF assms, of gs]
  show ?thesis using service_controls_spec [OF kept_inv [OF K assms], of rs] kept_trans [OF K] emits_kept [OF K]
    unfolding service_def by metis
qed

lemma publish_spec:
  assumes "pub_inv log p" and "unat (p_next_seq p) + 26 \<le> 2 ^ 64" and "publish (log (unat (p_next_seq p))) p = Inr p'"
  shows "pub_inv log p' \<and> p_epoch p' = p_epoch p \<and> unat (p_next_seq p') = unat (p_next_seq p) + 1"
proof -
  let ?n = "unat (p_next_seq p)" and ?c = "log (unat (p_next_seq p))"
  obtain k where k: "k < 64" "length (p_ring p) = 2 ^ k" "p_mask p = mask k" "\<And>s. slot p s = unat s mod 2 ^ k"
    using pub_inv_ring [OF assms(1)] by blast
  have c: "c_seq ?c = p_next_seq p" and p': "p' = p\<lparr>p_ring := (p_ring p)[?n mod 2 ^ k := ?c], p_next_seq := p_next_seq p + 1\<rparr>"
    using assms(3) k(4) by (auto simp: publish_def split: if_splits)
  have n: "unat (p_next_seq p') = ?n + 1"
    using assms(2) unat_add_lem [of "p_next_seq p" 1] by (simp add: p')
  have h: "1 \<le> unat (p_history_from p)" using assms(1) by (simp add: pub_inv_def)
  have old: "unat (oldest_held p) = max (?n - 2 ^ k) (unat (p_history_from p))"
    "unat (oldest_held p') = max (?n + 1 - 2 ^ k) (unat (p_history_from p))"
    using oldest_held_nat [OF k(1,2) h] oldest_held_nat [of k p'] k(1,2) h n by (simp_all add: p')
  have sl: "slot p' s = unat s mod 2 ^ k" for s using slot_mod [of p' k] k(1,3) by (simp add: p')
  have ring: "p_ring p' ! slot p' (of_nat s) = log s" if s: "unat (oldest_held p') \<le> s" "s < unat (p_next_seq p')" for s
  proof -
    have u: "unat (of_nat s :: u64) = s" by (rule unat_of_small) (use s(2) n assms(2) in linarith)
    have lt: "?n mod 2 ^ k < length (p_ring p)" using k(2) by simp
    show ?thesis
    proof (cases "s = ?n")
      case True
      then have "slot p' (of_nat s) = ?n mod 2 ^ k" using sl u by simp
      then show ?thesis using lt True by (simp add: p')
    next
      case False
      then have s': "s < ?n" "?n < s + 2 ^ k" "unat (oldest_held p) \<le> s" using s n old by auto
      have "s mod 2 ^ k \<noteq> ?n mod 2 ^ k"
      proof
        assume "s mod 2 ^ k = ?n mod 2 ^ k"
        then have "2 ^ k dvd ?n - s" using s'(1) by (metis mod_eq_dvd_iff_nat less_imp_le)
        then show False using s' by (auto dest: dvd_imp_le)
      qed
      then have "p_ring p' ! slot p' (of_nat s) = p_ring p ! slot p (of_nat s)" unfolding sl k(4) u by (simp add: p')
      also have "\<dots> = log s" using s' assms(1) by (simp add: pub_inv_def)
      finally show ?thesis .
    qed
  qed
  have "p_next_seq p \<le> p_next_seq p'" using n by (simp add: word_le_nat_alt)
  then show ?thesis using assms(1,2) k(1-3) ring n unfolding pub_inv_def by (auto simp: p' intro: order_trans less_le_trans)
qed

lemma seed_all_append:
  "seed_all (cs @ ds) p = (case seed_all cs p of Inl e \<Rightarrow> Inl e | Inr q \<Rightarrow> seed_all ds q)"
  by (induction cs arbitrary: p) (auto split: sum.splits)

lemma seed_all_spec:
  assumes "k < 64" and "1 \<le> a" and "a \<le> b" and "b \<le> unat nx"
    and seqs: "\<forall>s. a \<le> s \<and> s < b \<longrightarrow> c_seq (log s) = of_nat s"
  shows "\<exists>r h. seed_all (map log [a..<b]) (pub_init blank k nx ep) = Inr ((pub_init blank k nx ep)\<lparr>p_ring := r, p_history_from := h\<rparr>) \<and>
    length r = 2 ^ k \<and> unat h = (if a < b then a else unat nx) \<and> (\<forall>s. a \<le> s \<and> b - 2 ^ k \<le> s \<and> s < b \<longrightarrow> r ! (s mod 2 ^ k) = log s)"
  using assms(3,4) seqs
proof (induction b rule: dec_induct)
  case base
  show ?case by (rule exI [of _ "replicate (2 ^ k) blank"], rule exI [of _ nx]) (auto simp: pub_init_def)
next
  case (step b)
  let ?p = "pub_init blank k nx ep"
  obtain r h where IH: "seed_all (map log [a..<b]) ?p = Inr (?p\<lparr>p_ring := r, p_history_from := h\<rparr>)" "length r = 2 ^ k"
    "unat h = (if a < b then a else unat nx)" "\<forall>s. a \<le> s \<and> b - 2 ^ k \<le> s \<and> s < b \<longrightarrow> r ! (s mod 2 ^ k) = log s"
    using step.IH step.prems by auto
  have "b < 2 ^ 64" using step.prems(1) unsigned_less [of nx, where 'a = nat] by simp
  then have u: "unat (of_nat b :: u64) = b" by (rule unat_of_small)
  have c: "c_seq (log b) = of_nat b" using step.prems(2) step.hyps by simp
  have lt: "\<not> of_nat b \<ge> nx" using step.prems(1) u by (simp add: word_le_nat_alt)
  let ?r = "r[b mod 2 ^ k := log b]" and ?h = "min h (of_nat b)"
  have sl: "slot (?p\<lparr>p_ring := r, p_history_from := h\<rparr>) (of_nat b) = b mod 2 ^ k"
    using slot_mod [of "?p\<lparr>p_ring := r, p_history_from := h\<rparr>" k "of_nat b"] assms(1) u by (simp add: pub_init_def)
  have "seed_history (log b) (?p\<lparr>p_ring := r, p_history_from := h\<rparr>) = Inr (?p\<lparr>p_ring := ?r, p_history_from := ?h\<rparr>)"
    using lt sl unfolding seed_history_def c by (simp add: pub_init_def)
  then have "seed_all (map log [a..<Suc b]) ?p = Inr (?p\<lparr>p_ring := ?r, p_history_from := ?h\<rparr>)"
    using IH(1) step.hyps by (simp add: seed_all_append)
  moreover have "unat ?h = a"
    using IH(3) u step.hyps step.prems(1) by (cases "a < b") (auto simp: min_def word_le_nat_alt)
  moreover have "?r ! (s mod 2 ^ k) = log s" if s: "a \<le> s" "Suc b - 2 ^ k \<le> s" "s < Suc b" for s
  proof (cases "s = b")
    case False
    then have s': "s < b" "b < s + 2 ^ k" using s by auto
    have "s mod 2 ^ k \<noteq> b mod 2 ^ k"
    proof
      assume "s mod 2 ^ k = b mod 2 ^ k"
      then have "2 ^ k dvd b - s" using s'(1) by (metis mod_eq_dvd_iff_nat less_imp_le)
      then show False using s' by (auto dest: dvd_imp_le)
    qed
    then show ?thesis using IH(4) s s' by simp
  qed (simp add: IH(2))
  ultimately show ?case using IH(2) step.hyps
    by (intro exI [of _ ?r] exI [of _ ?h]) auto
qed

lemma seeded_inv:
  assumes "k < 64" and "1 \<le> a" and "a \<le> unat nx" and "unat nx + 25 \<le> 2 ^ 64"
    and "\<forall>s. a \<le> s \<and> s < unat nx \<longrightarrow> c_seq (log s) = of_nat s"
    and "seed_all (map log [a..<unat nx]) (pub_init blank k nx ep) = Inr p"
  shows "pub_inv log p" "p_epoch p = ep" "p_next_seq p = nx"
proof -
  obtain r h where R: "seed_all (map log [a..<unat nx]) (pub_init blank k nx ep) = Inr ((pub_init blank k nx ep)\<lparr>p_ring := r, p_history_from := h\<rparr>)"
    "length r = 2 ^ k" "unat h = (if a < unat nx then a else unat nx)"
    "\<forall>s. a \<le> s \<and> unat nx - 2 ^ k \<le> s \<and> s < unat nx \<longrightarrow> r ! (s mod 2 ^ k) = log s"
    using seed_all_spec [OF assms(1-3) order_refl assms(5), of blank ep] by blast
  have S: "p = (pub_init blank k nx ep)\<lparr>p_ring := r, p_history_from := h\<rparr>" "length r = 2 ^ k" "unat h = a"
    "\<forall>s. a \<le> s \<and> unat nx - 2 ^ k \<le> s \<and> s < unat nx \<longrightarrow> r ! (s mod 2 ^ k) = log s"
    using R assms(3,6) by (simp_all split: if_splits)
  have old: "unat (oldest_held p) = max (unat nx - 2 ^ k) a"
    using oldest_held_nat [OF assms(1), of p] S assms(2) by (simp add: pub_init_def)
  have ring: "p_ring p ! slot p (of_nat s) = log s" if s: "unat (oldest_held p) \<le> s" "s < unat nx" for s
  proof -
    have "unat (of_nat s :: u64) = s" by (rule unat_of_small) (use s(2) assms(4) in linarith)
    then have "slot p (of_nat s) = s mod 2 ^ k" using slot_mod [of p k] assms(1) by (simp add: S(1) pub_init_def)
    then show ?thesis using S(1,4) s old by simp
  qed
  have "nx - 1 < nx" using assms(2,3) by (simp add: word_less_nat_alt unat_sub word_le_nat_alt)
  then show "pub_inv log p" using S(1-3) assms(1-4) ring unfolding pub_inv_def
    by (auto simp: pub_init_def word_le_nat_alt)
  show "p_epoch p = ep" "p_next_seq p = nx" by (simp_all add: S(1) pub_init_def)
qed

lemma emits_mono:
  "emits log p out \<Longrightarrow> p_next_seq p \<le> p_next_seq p' \<Longrightarrow> p_epoch p' = p_epoch p \<Longrightarrow> emits log p' out"
  by (auto simp: emits_def word_le_nat_alt intro: genuine_mono)

lemma pub_reach_inv:
  assumes "pub_reach log p0 out p" and "pub_inv log p0"
  shows "pub_inv log p \<and> emits log p out \<and> p_epoch p = p_epoch p0"
  using assms
proof induction
  case (publish out p p')
  have P: "pub_inv log p' \<and> p_epoch p' = p_epoch p \<and> unat (p_next_seq p') = unat (p_next_seq p) + 1"
    using publish_spec [of log p p'] publish.hyps(2,3) publish.IH publish.prems by blast
  then have "p_next_seq p \<le> p_next_seq p'" by (simp add: word_le_nat_alt)
  with P show ?case using publish.IH publish.prems emits_mono by metis
next
  case (flush out p lost now o' p')
  then have F: "kept p p'" "emits log p o'" using flush_spec flushable_window by blast+
  then show ?case using flush.IH flush.prems emits_kept [OF F(1)] kept_inv [OF F(1)] by (simp add: kept_def)
next
  case (heartbeat out p lost now iv o' p')
  then have F: "kept p p'" "emits log p o'" using heartbeat_spec by blast+
  then show ?case using heartbeat.IH heartbeat.prems emits_kept [OF F(1)] kept_inv [OF F(1)] by (simp add: kept_def)
next
  case (finish out p lost now o' p')
  then have F: "kept p p'" "emits log p o'" using end_spec by blast+
  then show ?case using finish.IH finish.prems emits_kept [OF F(1)] kept_inv [OF F(1)] by (simp add: kept_def)
next
  case (service out p gs rs o' p')
  then have F: "kept p p'" "emits log p o'" using service_spec [of log p gs rs] by auto
  then show ?case using service.IH service.prems emits_kept [OF F(1)] kept_inv [OF F(1)] by (simp add: kept_def)
qed simp

section \<open>The replica\<close>

lemma deliver_spec:
  assumes "v = segment log (unat k) (unat k + length v)" and "unat k + length v \<le> n" and "n < 2 ^ 64"
    and "k \<le> u_expected u" and "u_expected u < k + of_nat (length v)" and "deliver k v u = (out, u')"
  shows "out = segment log (unat (u_expected u)) (unat (u_expected u'))" "u_expected u < u_expected u'"
    "unat (u_expected u') = unat k + length v" "u_stash u' = u_stash u" "u_epoch u' = u_epoch u" "u_min_epoch u' = u_min_epoch u"
    "unat (u_known_next u) \<le> n \<Longrightarrow> unat (u_known_next u') \<le> n"
proof -
  have l: "unat (of_nat (length v) :: u64) = length v" by (rule unat_of_small) (use assms(2,3) in linarith)
  have e: "unat (k + of_nat (length v)) = unat k + length v"
    using unat_add_lem [of k "of_nat (length v)"] l assms(2,3) by simp
  have u': "u' = u\<lparr>u_expected := k + of_nat (length v), u_known_next := max (u_known_next u) (k + of_nat (length v))\<rparr>"
    and out: "out = drop (unat (u_expected u - k)) v" using assms(6) by (simp_all add: deliver_def Let_def)
  have d: "unat (u_expected u - k) = unat (u_expected u) - unat k" "unat k \<le> unat (u_expected u)"
    using assms(4) by (simp_all add: unat_sub word_le_nat_alt)
  show "unat (u_expected u') = unat k + length v" by (simp add: u' e)
  then show "out = segment log (unat (u_expected u)) (unat (u_expected u'))"
    unfolding out d(1) using arg_cong [OF assms(1), of "drop (unat (u_expected u) - unat k)", unfolded drop_segment] d(2) by simp
  show "unat (u_known_next u) \<le> n \<Longrightarrow> unat (u_known_next u') \<le> n" using e assms(2) by (simp add: u' max_def)
qed (use assms(5,6) in \<open>auto simp: deliver_def Let_def\<close>)

lemma deliver_stash_spec:
  assumes "stash_ok log n m" and "n < 2 ^ 64" and "deliver_stash m u = (out, u')" and "unat (u_known_next u) \<le> n"
  shows "out = segment log (unat (u_expected u)) (unat (u_expected u')) \<and> u_expected u \<le> u_expected u' \<and> sub_inv log n u' \<and>
    u_epoch u' = u_epoch u \<and> u_min_epoch u' = u_min_epoch u \<and> unat (u_expected u') \<le> max n (unat (u_expected u))"
  using assms
proof (induction m u arbitrary: out u' rule: deliver_stash.induct)
  case (1 u)
  then show ?case by (auto simp: sub_inv_def stash_ok_def)
next
  case (2 k v m u)
  have ok: "stash_ok log n m" "unat k + length v \<le> n" "v = segment log (unat k) (unat k + length v)"
    using "2.prems"(1) by (auto simp: stash_ok_def)
  consider (due) "k \<le> u_expected u" "u_expected u < k + of_nat (length v)"
    | (old) "k \<le> u_expected u" "\<not> u_expected u < k + of_nat (length v)" | (early) "u_expected u < k" by fastforce
  then show ?case
  proof cases
    case due
    obtain o1 u1 where d: "deliver k v u = (o1, u1)" by fastforce
    obtain o2 where s: "deliver_stash m u1 = (o2, u')" and out: "out = o1 @ o2"
      using "2.prems"(3) due d by (auto split: prod.splits)
    note D = deliver_spec [OF ok(3,2) "2.prems"(2) due d]
    have I: "o2 = segment log (unat (u_expected u1)) (unat (u_expected u')) \<and> u_expected u1 \<le> u_expected u' \<and> sub_inv log n u' \<and>
      u_epoch u' = u_epoch u1 \<and> u_min_epoch u' = u_min_epoch u1 \<and> unat (u_expected u') \<le> max n (unat (u_expected u1))"
      using "2.IH"(1) [OF due d [symmetric] refl ok(1) "2.prems"(2) s] d D(7) "2.prems"(4) by simp
    have "unat (u_expected u) \<le> unat (u_expected u1)" "unat (u_expected u1) \<le> unat (u_expected u')"
      using D(2) I by (simp_all add: word_le_nat_alt word_less_nat_alt)
    moreover have "unat (u_expected u1) \<le> n" using D(3) ok(2) by simp
    ultimately show ?thesis using D I out segment_append by (auto simp: word_le_nat_alt)
  next
    case old
    then show ?thesis using "2.IH"(2) [OF old ok(1) "2.prems"(2)] "2.prems"(3,4) by simp
  next
    case early
    then have "u' = u\<lparr>u_stash := (k, v) # m\<rparr>" "out = []" using "2.prems"(3) by (simp_all add: not_le [symmetric])
    moreover have "u_expected u < k'" if "(k', v') \<in> set m" for k' v'
      using that early "2.prems"(1) by (force simp: stash_ok_def)
    ultimately show ?thesis using "2.prems"(1,4) early by (auto simp: sub_inv_def)
  qed
qed

lemma stash_emplace_ok:
  assumes "stash_ok log n m" and "v = segment log (unat k) (unat k + length v)" and "unat k + length v \<le> n"
  shows "stash_ok log n (fst (stash_emplace k v m))"
    "set (fst (stash_emplace k v m)) \<subseteq> insert (k, v) (set m)"
proof -
  have s: "sorted_wrt (<) (map fst m)" using assms(1) by (simp add: stash_ok_def)
  show "set (fst (stash_emplace k v m)) \<subseteq> insert (k, v) (set m)"
    using set_om_alter [OF s, of k "case_option v (\<lambda>w. w)"] by (cases "map_of m k") (auto simp: stash_emplace_def dest: map_of_SomeD)
  then show "stash_ok log n (fst (stash_emplace k v m))"
    using assms sorted_om_alter [OF s, of k] unfolding stash_ok_def stash_emplace_def by auto
qed

lemma on_data_spec:
  assumes "sub_inv log n u" and "n < 2 ^ 64" and "genuine log n d" and "q_kind (d_header d) = kData" and "on_data d u = (out, u')"
  shows "advances log n u out u'" "u_epoch u' = u_epoch u"
    "d_size d = sizeof_SqHeader + unat (q_count (d_header d)) * sizeof_Command \<Longrightarrow> q_first_seq (d_header d) \<le> u_expected u \<Longrightarrow>
     unat (q_first_seq (d_header d)) + unat (q_count (d_header d)) \<le> unat (u_expected u')"
proof -
  let ?h = "d_header d"
  let ?f = "q_first_seq ?h" and ?c = "unat (q_count ?h)"
  have g: "unat ?f + ?c \<le> n" "d_cmds d = segment log (unat ?f) (unat ?f + ?c)"
    using assms(3,4) by (simp_all add: genuine_def Let_def)
  have t: "take ?c (d_cmds d) = d_cmds d" "length (d_cmds d) = ?c" by (simp_all add: g(2))
  have v: "d_cmds d = segment log (unat ?f) (unat ?f + length (d_cmds d))" by (simp only: t(2)) (rule g(2))
  have c: "(of_nat (length (d_cmds d)) :: u64) = ucast (q_count ?h)" unfolding t(2) by (simp add: of_nat_unat)
  have fc: "unat (?f + ucast (q_count ?h)) = unat ?f + ?c"
  proof -
    have "unat (ucast (q_count ?h) :: u64) = ?c" using unat_of_small [of ?c] g(1) assms(2) c t(2) by simp
    then show ?thesis using unat_add_lem [of ?f "ucast (q_count ?h)"] g(1) assms(2) by simp
  qed
  define w where "w = u\<lparr>u_packets := u_packets u + 1\<rparr>"
  have w: "u_expected w = u_expected u" "u_stash w = u_stash u" "u_epoch w = u_epoch u" "u_min_epoch w = u_min_epoch u"
    "u_known_next w = u_known_next u" by (simp_all add: w_def)
  have inv: "stash_ok log n (u_stash u)" "\<forall>(k, v) \<in> set (u_stash u). u_expected u < k" "unat (u_known_next u) \<le> n" using assms(1) by (auto simp: sub_inv_def)
  consider (bad) "d_size d \<noteq> sizeof_SqHeader + ?c * sizeof_Command"
    | (dup) "d_size d = sizeof_SqHeader + ?c * sizeof_Command" "?f + ucast (q_count ?h) \<le> u_expected u"
    | (early) "d_size d = sizeof_SqHeader + ?c * sizeof_Command" "\<not> ?f + ucast (q_count ?h) \<le> u_expected u" "u_expected u < ?f"
    | (due) "d_size d = sizeof_SqHeader + ?c * sizeof_Command" "\<not> ?f + ucast (q_count ?h) \<le> u_expected u" "?f \<le> u_expected u" by fastforce
  then have "advances log n u out u' \<and> u_epoch u' = u_epoch u \<and>
    (d_size d = sizeof_SqHeader + ?c * sizeof_Command \<longrightarrow> ?f \<le> u_expected u \<longrightarrow> unat ?f + ?c \<le> unat (u_expected u'))"
  proof cases
    case bad
    then show ?thesis using assms(1,5) by (simp add: on_data_def advances_def Let_def)
  next
    case dup
    have "unat ?f + ?c \<le> unat (u_expected u)" using dup(2) fc by (simp add: word_le_nat_alt)
    with dup show ?thesis using assms(1,5) by (auto simp: on_data_def advances_def sub_inv_def Let_def)
  next
    case early
    obtain m fr where m: "stash_emplace ?f (d_cmds d) (u_stash u) = (m, fr)" by fastforce
    have "out = []" "u_expected u' = u_expected u" "u_stash u' = m" "u_epoch u' = u_epoch u" "u_min_epoch u' = u_min_epoch u"
      "u_known_next u' = u_known_next u"
      using assms(5) early m by (auto simp: on_data_def t(1) Let_def)
    moreover have "stash_ok log n m" "set m \<subseteq> insert (?f, d_cmds d) (set (u_stash u))"
      using stash_emplace_ok [OF inv(1) v] g(1) t(2) m by simp_all
    ultimately show ?thesis using inv(2,3) early(3) by (auto simp: advances_def sub_inv_def)
  next
    case due
    obtain o1 u1 where d: "deliver ?f (d_cmds d) w = (o1, u1)" by fastforce
    have "\<not> u_expected w < ?f" "\<not> ?f + ucast (q_count ?h) \<le> u_expected w" using due w by auto
    then have "on_data d u = (let (outs, u) = deliver_stash (u_stash u1) u1 in (o1 @ outs, u))"
      using due(1) unfolding on_data_def Let_def t(1) w_def [symmetric] by (simp only: if_False if_True d not_True_eq_False prod.case simp_thms)
    then obtain o2 where s: "deliver_stash (u_stash u1) u1 = (o2, u')" and out: "out = o1 @ o2"
      using assms(5) by (cases "deliver_stash (u_stash u1) u1") simp
    have D: "o1 = segment log (unat (u_expected w)) (unat (u_expected u1))" "u_expected w < u_expected u1"
      "u_stash u1 = u_stash w" "u_epoch u1 = u_epoch w" "u_min_epoch u1 = u_min_epoch w" "unat (u_expected u1) = unat ?f + ?c"
      "unat (u_known_next u1) \<le> n"
      using deliver_spec [OF v _ assms(2) _ _ d] g(1) t(2) due(2,3) c w(1,5) inv(3) by (simp_all add: not_le)
    have S: "o2 = segment log (unat (u_expected u1)) (unat (u_expected u')) \<and> u_expected u1 \<le> u_expected u' \<and> sub_inv log n u' \<and>
      u_epoch u' = u_epoch u1 \<and> u_min_epoch u' = u_min_epoch u1 \<and> unat (u_expected u') \<le> max n (unat (u_expected u1))"
      by (rule deliver_stash_spec [OF _ assms(2) s]) (simp_all add: D(3,7) w inv(1))
    have "unat (u_expected u) \<le> unat (u_expected u1)" "unat (u_expected u1) \<le> unat (u_expected u')"
      using D(2) S w by (simp_all add: word_le_nat_alt word_less_nat_alt)
    moreover have "unat (u_expected u1) \<le> n" using D(6) g(1) by simp
    ultimately show ?thesis using D S w out segment_append by (auto simp: advances_def word_le_nat_alt)
  qed
  then show "advances log n u out u'" "u_epoch u' = u_epoch u"
    "d_size d = sizeof_SqHeader + ?c * sizeof_Command \<Longrightarrow> ?f \<le> u_expected u \<Longrightarrow> unat ?f + ?c \<le> unat (u_expected u')" by simp_all
qed

lemma deliver_stash_epochs: "u_epoch (snd (deliver_stash m u)) = u_epoch u \<and> u_min_epoch (snd (deliver_stash m u)) = u_min_epoch u"
  by (induction m u rule: deliver_stash.induct) (auto simp: deliver_def Let_def split: prod.splits)

lemma on_data_epoch: "u_epoch (snd (on_data d u)) = u_epoch u"
  and on_data_min: "u_min_epoch (snd (on_data d u)) = u_min_epoch u"
proof -
  have "u_epoch (snd (let (out, u) = deliver f c u; (outs, u) = deliver_stash (u_stash u) u in (out @ outs, u))) = u_epoch u"
    "u_min_epoch (snd (let (out, u) = deliver f c u; (outs, u) = deliver_stash (u_stash u) u in (out @ outs, u))) = u_min_epoch u" for f c u
    using deliver_stash_epochs by (simp_all add: deliver_def Let_def case_prod_beta)
  then show "u_epoch (snd (on_data d u)) = u_epoch u" "u_min_epoch (snd (on_data d u)) = u_min_epoch u"
    unfolding on_data_def by (simp_all add: Let_def stash_emplace_def case_prod_beta)
qed

lemma drain_one_spec:
  assumes "sub_inv log n u" and "n < 2 ^ 64" and "0 < u_min_epoch u" and "drain_one now d u = (out, u')"
    and "u_epoch u' \<noteq> 0 \<and> q_epoch (d_header d) = u_epoch u' \<longrightarrow> genuine log n d"
  shows "advances log n u out u'" "u_epoch u \<noteq> 0 \<Longrightarrow> u_epoch u' = u_epoch u"
proof -
  let ?h = "d_header d"
  define w where "w = (if u_epoch u = 0 then u\<lparr>u_epoch := q_epoch ?h\<rparr> else u)"
  define v where "v = w\<lparr>u_last_heard := now\<rparr>"
  have w: "u_expected w = u_expected u" "u_stash w = u_stash u" "u_min_epoch w = u_min_epoch u" "u_epoch u \<noteq> 0 \<Longrightarrow> u_epoch w = u_epoch u"
    "u_known_next w = u_known_next u"
    by (simp_all add: w_def)
  have idle: "advances log n u [] x \<and> (u_epoch u \<noteq> 0 \<longrightarrow> u_epoch x = u_epoch u)"
    if "u_expected x = u_expected u" "u_stash x = u_stash u" "u_min_epoch x = u_min_epoch u" "u_epoch u \<noteq> 0 \<Longrightarrow> u_epoch x = u_epoch u"
      "unat (u_known_next x) \<le> n" for x
    using that assms(1) by (simp add: advances_def sub_inv_def)
  have kn: "unat (u_known_next u) \<le> n" using assms(1) by (simp add: sub_inv_def)
  let ?skip = "d_size d < sizeof_SqHeader \<or> q_magic ?h \<noteq> kMagic \<or> q_kind ?h = kAck \<or> q_kind ?h = kRetransmit \<or>
    q_epoch ?h < u_min_epoch u \<or> u_epoch u \<noteq> 0 \<and> q_epoch ?h < u_epoch u \<or> q_epoch ?h > u_epoch w"
  have live: "\<not> ?skip \<Longrightarrow> q_epoch ?h = u_epoch v \<and> q_epoch ?h \<noteq> 0" using assms(3) by (auto simp: v_def w_def split: if_splits)
  consider (skip) ?skip | (ctl) "\<not> ?skip" "q_kind ?h \<noteq> kData" | (data) "\<not> ?skip" "q_kind ?h = kData" by blast
  then have "advances log n u out u' \<and> (u_epoch u \<noteq> 0 \<longrightarrow> u_epoch u' = u_epoch u)"
  proof cases
    case skip
    then have "out = []" "u_expected u' = u_expected u" "u_stash u' = u_stash u" "u_min_epoch u' = u_min_epoch u"
      "u_epoch u \<noteq> 0 \<Longrightarrow> u_epoch u' = u_epoch u" "u_known_next u' = u_known_next u"
      using assms(4) unfolding drain_one_def Let_def w_def [symmetric] by (auto simp: w split: if_splits)
    then show ?thesis using idle kn by auto
  next
    case ctl
    then have U: "out = []" "u_expected u' = u_expected u" "u_stash u' = u_stash u" "u_min_epoch u' = u_min_epoch u" "u_epoch u' = u_epoch v"
      "u_known_next u' = (if q_kind ?h = kHeartbeat \<or> q_kind ?h = kEnd then max (u_known_next u) (q_first_seq ?h) else u_known_next u)"
      using assms(4) unfolding drain_one_def Let_def w_def [symmetric] v_def [symmetric] by (auto simp: w v_def split: if_splits)
    then have "genuine log n d" using assms(5) live ctl(1) by simp
    then have "unat (u_known_next u') \<le> n" using kn U(6) by (auto simp: genuine_def Let_def max_def)
    then show ?thesis using idle U w(4) by (simp add: v_def)
  next
    case data
    then have d: "on_data d v = (out, u')"
      using assms(4) unfolding drain_one_def Let_def w_def [symmetric] v_def [symmetric] by auto
    then have "genuine log n d" using assms(5) on_data_epoch [of d v] live data(1) by simp
    moreover have "sub_inv log n v" using assms(1) w by (simp add: sub_inv_def v_def)
    ultimately have "advances log n v out u'" "u_epoch u' = u_epoch v" using on_data_spec [OF _ assms(2) _ _ d] data by blast+
    then show ?thesis using w by (simp add: advances_def v_def)
  qed
  then show "advances log n u out u'" "u_epoch u \<noteq> 0 \<Longrightarrow> u_epoch u' = u_epoch u" by simp_all
qed

lemma advances_trans:
  assumes "advances log n u a v" and "advances log n v b w"
  shows "advances log n u (a @ b) w"
  using assms segment_append [of "unat (u_expected u)" "unat (u_expected v)" "unat (u_expected w)" log]
  by (auto simp: advances_def word_le_nat_alt)

lemma drain_epoch:
  assumes "u_epoch u \<noteq> 0"
  shows "u_epoch (snd (drain ds u)) = u_epoch u"
  using assms
proof (induction ds arbitrary: u)
  case (Cons d ds)
  have "u_epoch (snd (drain_one (fst d) (snd d) u)) = u_epoch u"
    using Cons.prems on_data_epoch unfolding drain_one_def Let_def by simp
  then show ?case using Cons by (simp add: case_prod_beta Let_def)
qed simp

lemma drain_spec:
  assumes "sub_inv log n u" and "n < 2 ^ 64" and "0 < u_min_epoch u" and "drain ds u = (out, u')"
    and "\<forall>(t, d) \<in> set ds. q_epoch (d_header d) = u_epoch u' \<longrightarrow> genuine log n d"
  shows "advances log n u out u'"
  using assms
proof (induction ds arbitrary: u out)
  case Nil
  then show ?case by (simp add: advances_def)
next
  case (Cons d ds)
  obtain o1 u1 where 1: "drain_one (fst d) (snd d) u = (o1, u1)" by fastforce
  obtain o2 where 2: "drain ds u1 = (o2, u')" and out: "out = o1 @ o2"
    using Cons.prems(4) 1 by (auto split: prod.splits)
  have "genuine log n (snd d)" if "u_epoch u1 \<noteq> 0" "q_epoch (d_header (snd d)) = u_epoch u1"
    using Cons.prems(5) drain_epoch [OF that(1), of ds] that(2) 2 by auto
  then have A: "advances log n u o1 u1" using drain_one_spec(1) [OF Cons.prems(1-3) 1] by blast
  then have "advances log n u1 o2 u'"
    using Cons.IH [of u1 o2] Cons.prems(2,3,5) 2 by (auto simp: advances_def)
  then show ?case using advances_trans [OF A] out by simp
qed

section \<open>Closing a gap\<close>

text \<open>A replica that follows the primary takes in the primary's answer packet by packet.\<close>

lemma drain_data:
  assumes "d_size d = sizeof_SqHeader + unat (q_count (d_header d)) * sizeof_Command" and "q_magic (d_header d) = kMagic"
    and "q_kind (d_header d) = kData" and "q_epoch (d_header d) = u_epoch u" and "u_min_epoch u \<le> u_epoch u" and "0 < u_min_epoch u"
  shows "drain_one now d u = on_data d (u\<lparr>u_last_heard := now\<rparr>)"
  using assms unfolding drain_one_def Let_def by (auto simp: kind_defs not_less)

lemma drain_answer:
  assumes "pub_inv log p" and "b \<le> unat (p_next_seq p)" and "unat (oldest_held p) \<le> a"
    and "sub_inv log (unat (p_next_seq p)) u" and "0 < u_min_epoch u" and "u_min_epoch u \<le> u_epoch u" and "u_epoch u = p_epoch p"
    and "a \<le> unat (u_expected u)" and "drain (map (Pair t) (answer p a b)) u = (out, u')"
  shows "min b (unat (p_next_seq p)) \<le> unat (u_expected u') \<or> b \<le> a"
  using assms
proof (induction p a b arbitrary: u out rule: answer.induct)
  case (1 p a b)
  let ?n = "unat (p_next_seq p)"
  show ?case
  proof (cases "a < b")
    case True
    have n64: "?n < 2 ^ 64" using "1.prems"(1) by (simp add: pub_inv_def)
    have a: "unat (of_nat a :: u64) = a" and d: "unat (of_nat (b - a) :: u64) = b - a" using True "1.prems"(2) n64 by (intro unat_of_small; simp)+
    let ?d = "send_data p (of_nat a) (chunk (of_nat (b - a)))" and ?v = "u\<lparr>u_last_heard := t\<rparr>"
    have c: "unat (chunk (of_nat (b - a))) = min 25 (b - a)" unfolding unat_chunk d ..
    have g: "genuine log ?n ?d"
      by (rule send_data_genuine [OF "1.prems"(1)]; unfold a c) (use "1.prems"(2,3) True in simp_all)
    have "drain_one t ?d u = on_data ?d ?v"
      by (rule drain_data) (use "1.prems"(5-7) in \<open>simp_all add: send_data_def sq_header_def\<close>)
    then obtain o1 u1 where o: "on_data ?d ?v = (o1, u1)" "drain_one t ?d u = (o1, u1)" by fastforce
    obtain o2 where r: "drain (map (Pair t) (answer p (a + 25) b)) u1 = (o2, u')"
      using "1.prems"(9) True o(2) by (auto simp: answer.simps [of p a] split: prod.splits)
    have v: "sub_inv log ?n ?v" using "1.prems"(4) by (simp add: sub_inv_def)
    note O = on_data_spec [OF v n64 g _ o(1)]
    have A: "advances log ?n ?v o1 u1" "u_epoch u1 = u_epoch u" using O(1,2) by (simp_all add: send_data_def sq_header_def)
    have "(of_nat a :: u64) \<le> u_expected ?v" using "1.prems"(8) by (simp only: word_le_nat_alt a) simp
    then have reach: "a + min 25 (b - a) \<le> unat (u_expected u1)"
      using O(3) by (simp only: send_data_def sq_header_def SqHeader.select_convs Datagram.select_convs a c)
    show ?thesis
    proof (cases "a + 25 < b")
      case False
      have "advances log ?n u1 o2 u'" using r False A(1) by (simp add: advances_def)
      then have "unat (u_expected u1) \<le> unat (u_expected u')" by (simp add: advances_def word_le_nat_alt)
      then show ?thesis using reach False True by linarith
    next
      case lt: True
      have "min b ?n \<le> unat (u_expected u') \<or> b \<le> a + 25"
        by (rule "1.IH" [OF True "1.prems"(1,2) _ _ _ _ _ _ r])
          (use A "1.prems"(3,5-7) reach lt in \<open>simp_all add: advances_def\<close>)
      then show ?thesis using lt by simp
    qed
  qed simp
qed

lemma drain_min_epoch:
  assumes "u_epoch u = 0 \<or> u_min_epoch u \<le> u_epoch u"
  shows "u_epoch (snd (drain ds u)) = 0 \<or> u_min_epoch (snd (drain ds u)) \<le> u_epoch (snd (drain ds u))"
  using assms
proof (induction ds arbitrary: u)
  case (Cons d ds)
  have "u_epoch (snd (drain_one (fst d) (snd d) u)) = 0 \<or>
    u_min_epoch (snd (drain_one (fst d) (snd d) u)) \<le> u_epoch (snd (drain_one (fst d) (snd d) u))"
    using Cons.prems on_data_epoch on_data_min unfolding drain_one_def Let_def by (auto simp: not_less)
  then show ?case using Cons.IH by (simp add: case_prod_beta Let_def)
qed simp

lemma session_inv:
  assumes "session log p first got u"
  shows "pub_inv log p" "advances log (unat (p_next_seq p)) (sub_init first (u_min_epoch u)) got u" "sub_inv log (unat (p_next_seq p)) u"
    "0 < u_min_epoch u" "u_epoch u = p_epoch p" "u_epoch u = 0 \<or> u_min_epoch u \<le> u_epoch u"
proof -
  obtain blank k a nx ep p0 out min_ep ds where S: "started log blank k a nx ep p0" "pub_reach log p0 out p" "received ep out ds"
    "0 < min_ep" "drain ds (sub_init first min_ep) = (got, u)" "u_epoch u = ep"
    using assms unfolding session_def by blast
  have p0: "pub_inv log p0" "p_epoch p0 = ep" using S(1) seeded_inv [of k a nx log blank ep p0] by (simp_all add: started_def)
  have p: "pub_inv log p" "emits log p out" "p_epoch p = p_epoch p0" using pub_reach_inv [OF S(2) p0(1)] by simp_all
  have g: "\<forall>(t, d) \<in> set ds. q_epoch (d_header d) = u_epoch u \<longrightarrow> genuine log (unat (p_next_seq p)) d"
    using S(3,6) p(2) by (fastforce simp: received_def emits_def)
  have n: "unat (p_next_seq p) < 2 ^ 64" using p(1) by (simp add: pub_inv_def)
  have i: "sub_inv log (unat (p_next_seq p)) (sub_init first min_ep)" by (simp add: sub_inv_def stash_ok_def sub_init_def)
  have A: "advances log (unat (p_next_seq p)) (sub_init first min_ep) got u"
    using drain_spec [OF i n _ S(5) g] S(4) by (simp add: sub_init_def)
  then have "u_min_epoch u = min_ep" by (simp add: advances_def sub_init_def)
  then show "pub_inv log p" "advances log (unat (p_next_seq p)) (sub_init first (u_min_epoch u)) got u" "sub_inv log (unat (p_next_seq p)) u"
    "0 < u_min_epoch u" "u_epoch u = p_epoch p" "u_epoch u = 0 \<or> u_min_epoch u \<le> u_epoch u"
    using A p p0 S(4,6) drain_min_epoch [of "sub_init first min_ep" ds] S(5) by (simp_all add: advances_def sub_init_def)
qed

lemma sample_started: "started sample_log (sample_log 0) 2 1 1 1 (pub_init (sample_log 0) 2 1 1)"
  by (simp add: started_def)

lemma sample_published: "pub_reach sample_log (pub_init (sample_log 0) 2 1 1) [] sample_primary"
proof -
  let ?p0 = "pub_init (sample_log 0) 2 1 1"
  have p1: "publish (sample_log 1) ?p0 = Inr (?p0\<lparr>p_ring := [sample_log 0, sample_log 1, sample_log 0, sample_log 0], p_next_seq := 2\<rparr>)"
    by code_simp
  have p2: "publish (sample_log 2) (?p0\<lparr>p_ring := [sample_log 0, sample_log 1, sample_log 0, sample_log 0], p_next_seq := 2\<rparr>) = Inr sample_primary"
    by code_simp
  have r1: "pub_reach sample_log ?p0 [] (?p0\<lparr>p_ring := [sample_log 0, sample_log 1, sample_log 0, sample_log 0], p_next_seq := 2\<rparr>)"
    by (rule pub_reach.publish [OF pub_reach.start]) (use p1 in \<open>simp_all add: pub_init_def\<close>)
  show ?thesis by (rule pub_reach.publish [OF r1]) (use p2 in \<open>simp_all add: pub_init_def\<close>)
qed

lemma sample_flushable: "flushable sample_primary"
  by code_simp

lemma sample_reach:
  "\<exists>q. pub_reach sample_log (pub_init (sample_log 0) 2 1 1) [(Group, sample_data)] q \<and> p_next_seq q = 3"
proof -
  have "flush (\<lambda>_. False) 7 sample_primary = ([(Group, sample_data)], sample_primary\<lparr>p_packets := 1, p_pending_first := 3, p_last_send_ns := 7\<rparr>)"
    by code_simp
  then show ?thesis using pub_reach.flush [OF sample_published sample_flushable] by (force simp: sample_primary_def)
qed

text \<open>The two commands' datagram is lost; the heartbeat behind it arrives.\<close>

lemma sample_gap:
  "\<exists>p u. session sample_log p 1 [] u \<and> \<not> fenced p \<and> oldest_held p \<le> u_expected u \<and> u_expected u = 1 \<and> u_known_next u = 3 \<and>
    u_stash u = [] \<and> request_gap 99000000 u = ([control (sq_header kRetransmit 1 1 2)], snd (request_gap 99000000 u))"
proof -
  let ?p = "sample_primary\<lparr>p_packets := 1, p_dropped := 1, p_pending_first := 3, p_last_send_ns := 30000000, p_heartbeats := 1\<rparr>"
  let ?hb = "control (sq_header kHeartbeat 1 3 0)"
  have h: "heartbeat_if_idle (\<lambda>_. True) 30000000 20000000 sample_primary = ([(Group, ?hb)], ?p)" by code_simp
  have r: "pub_reach sample_log (pub_init (sample_log 0) 2 1 1) [(Group, ?hb)] ?p"
    using pub_reach.heartbeat [OF sample_published sample_flushable h] by simp
  let ?u = "(sub_init 1 1)\<lparr>u_epoch := 1, u_last_heard := 5, u_known_next := 3\<rparr>"
  have d: "drain [(5, ?hb)] (sub_init 1 1) = ([], ?u)" by code_simp
  have "session sample_log ?p 1 [] ?u"
    unfolding session_def
    by (intro exI [of _ "sample_log 0"] exI [of _ 2] exI [of _ 1] exI [of _ "pub_init (sample_log 0) 2 1 1"]
        exI [of _ "[(Group, ?hb)]"] exI [of _ "[(5, ?hb)]"] conjI sample_started r d) (simp_all add: received_def)
  moreover have "\<not> fenced ?p" "oldest_held ?p \<le> u_expected ?u" by code_simp+
  moreover have "fst (request_gap 99000000 ?u) = [control (sq_header kRetransmit 1 1 2)]" by code_simp
  ultimately show ?thesis by (intro exI [of _ ?p] exI [of _ ?u]) (simp add: sub_init_def prod_eq_iff)
qed

lemma sample_session:
  "\<exists>p u. session sample_log p 1 [sample_log 1, sample_log 2] u \<and> p_next_seq p = 3 \<and> u_expected u = 3"
proof -
  obtain q where q: "pub_reach sample_log (pub_init (sample_log 0) 2 1 1) [(Group, sample_data)] q" "p_next_seq q = 3"
    using sample_reach by blast
  let ?ds = "[(5, sample_data), (6, sample_data)]"
  have f: "fst (drain ?ds (sub_init 1 1)) = [sample_log 1, sample_log 2]" by code_simp
  have u: "u_epoch (snd (drain ?ds (sub_init 1 1))) = 1" "u_expected (snd (drain ?ds (sub_init 1 1))) = 3" by code_simp+
  have "session sample_log q 1 [sample_log 1, sample_log 2] (snd (drain ?ds (sub_init 1 1)))"
    unfolding session_def
    by (intro exI [of _ "sample_log 0"] exI [of _ 2] exI [of _ 1] exI [of _ "pub_init (sample_log 0) 2 1 1"]
        exI [of _ "[(Group, sample_data)]"] exI [of _ ?ds] conjI sample_started q(1) u(1) refl)
      (use f in \<open>simp_all add: received_def prod_eq_iff\<close>)
  then show ?thesis using q(2) u(2) by blast
qed

lemma request_gap_cases:
  assumes "request_gap now u = ([r], u')"
  obtains g where "g = (case u_stash u of [] \<Rightarrow> u_known_next u | (k, _) # _ \<Rightarrow> k)" "u_expected u < g"
    "r = control (sq_header kRetransmit (u_epoch u) (u_expected u) (ucast (min (g - u_expected u) 4096)))"
    "u_expected u' = u_expected u" "u_stash u' = u_stash u" "u_known_next u' = u_known_next u"
    "u_epoch u' = u_epoch u" "u_min_epoch u' = u_min_epoch u" "u_epoch u \<noteq> 0"
proof -
  define g where "g = (case u_stash u of [] \<Rightarrow> u_known_next u | (k, _) # _ \<Rightarrow> k)"
  show thesis
    by (rule that [OF g_def]) (use assms in \<open>auto simp: request_gap_def Let_def g_def [symmetric] split: if_splits\<close>)
qed

lemma unat_request_count:
  assumes "x < (g :: u64)"
  shows "unat (x + ucast (ucast (min (g - x) 4096) :: u16)) = unat x + min (unat g - unat x) 4096"
proof -
  have d: "unat (g - x) = unat g - unat x" using assms by (intro unat_sub) simp
  have m: "unat (min (g - x) (4096 :: u64)) = min (unat g - unat x) 4096" by (simp add: min_def word_le_nat_alt d)
  have c: "unat (ucast (ucast (min (g - x) 4096) :: u16) :: u64) = min (unat g - unat x) 4096"
  proof -
    have "unat (ucast (ucast y :: u16) :: u64) = unat y" if "unat y \<le> 4096" for y :: u64
      using that by (simp add: unsigned_ucast_eq unsigned_take_bit_eq take_bit_nat_eq_self_iff)
    from this [of "min (g - x) 4096"] show ?thesis unfolding m by simp
  qed
  have "unat x + min (unat g - unat x) 4096 \<le> unat g" using assms by (simp add: word_less_nat_alt)
  then have "unat x + unat (ucast (ucast (min (g - x) 4096) :: u16) :: u64) < 2 ^ LENGTH(64)"
    unfolding c using unsigned_less [of g, where 'a = nat] by simp
  then show ?thesis using unat_add_lem c by metis
qed

lemma service_group_fence:
  "p_epoch (foldl (\<lambda>p d. service_group d p) p gs) = p_epoch p \<and> p_acked (foldl (\<lambda>p d. service_group d p) p gs) = p_acked p \<and>
   (fenced (foldl (\<lambda>p d. service_group d p) p gs) \<longleftrightarrow>
     fenced p \<or> (\<exists>d \<in> set gs. sizeof_SqHeader \<le> d_size d \<and> q_magic (d_header d) = kMagic \<and> p_epoch p < q_epoch (d_header d)))"
proof (induction gs arbitrary: p)
  case (Cons d gs)
  have "fenced (service_group d p) \<longleftrightarrow> fenced p \<or> sizeof_SqHeader \<le> d_size d \<and> q_magic (d_header d) = kMagic \<and> p_epoch p < q_epoch (d_header d)"
    using word_greater_zero_iff by (auto simp: service_group_def fenced_def Let_def not_le [symmetric])
  moreover have "p_epoch (service_group d p) = p_epoch p" "p_acked (service_group d p) = p_acked p"
    by (simp_all add: service_group_def Let_def)
  ultimately show ?case using Cons.IH [of "service_group d p"] by auto
qed simp

lemma service_control_acks:
  assumes "service_control from d p = Some (out, p')"
  shows "p_epoch p' = p_epoch p \<and> fenced p' = fenced p \<and> (fenced p \<longrightarrow> out = [] \<and> p_acked p' = p_acked p) \<and>
    (p_acked p' = p_acked p \<or> q_kind (d_header d) = kAck \<and> q_epoch (d_header d) = p_epoch p \<and> q_first_seq (d_header d) = p_acked p')"
  using assms unfolding service_control_def Let_def fenced_def
  by (auto split: if_splits simp: bind_eq_Some_conv)

lemma service_controls_acks:
  assumes "service_controls rs p = Some (out, p')"
  shows "p_epoch p' = p_epoch p \<and> fenced p' = fenced p \<and> (fenced p \<longrightarrow> out = [] \<and> p_acked p' = p_acked p) \<and>
    (p_acked p' = p_acked p \<or>
     (\<exists>d \<in> snd ` set rs. q_kind (d_header d) = kAck \<and> q_epoch (d_header d) = p_epoch p \<and> q_first_seq (d_header d) = p_acked p'))"
  using assms
proof (induction rs arbitrary: p out)
  case (Cons r rs)
  obtain o1 p1 o2 where 1: "service_control (fst r) (snd r) p = Some (o1, p1)" and 2: "service_controls rs p1 = Some (o2, p')" and "out = o1 @ o2"
    using Cons.prems by (auto simp: bind_eq_Some_conv split: prod.splits)
  with service_control_acks [OF 1] Cons.IH [OF 2] show ?case by auto
qed simp

section \<open>Properties\<close>

text \<open>C33. Exactly-once, in-order delivery. Whatever the network loses, repeats and reorders of the primary's
  datagrams, and whatever stale or newer primaries send, a replica locked on to the primary has delivered
  exactly the primary's log from its first sequence number up to the number it expects next: nothing is
  skipped, repeated, reordered or invented.\<close>

theorem replication_exactly_once:
  assumes "session log p first got u"
  shows "got = map log [unat first..<unat (u_expected u)] \<and> first \<le> u_expected u \<and>
    unat (u_expected u) \<le> max (unat (p_next_seq p)) (unat first)"
  using session_inv(2) [OF assms] by (simp add: advances_def sub_init_def segment_def)

theorem replication_exactly_once_witness:
  "\<exists>p u. session sample_log p 1 [sample_log 1, sample_log 2] u \<and>
    [sample_log 1, sample_log 2] = map sample_log [1..<unat (u_expected u)]"
proof -
  obtain p u where S: "session sample_log p 1 [sample_log 1, sample_log 2] u" using sample_session by blast
  show ?thesis using replication_exactly_once [OF S] S by auto
qed

text \<open>C34. Recovery. When a replica of the session asks for a gap, the primary, as long as it is not fenced and its
  ring still holds the replica's next command, answers; and once the replica has taken in the answer it has
  delivered the log beyond the gap, or beyond 4096 commands of it. The next command of the answer is never
  Unavailable, and the primary's send loop returns.\<close>

theorem gap_is_closed:
  assumes "session log p first got u" and "\<not> fenced p" and "oldest_held p \<le> u_expected u" and "request_gap now u = ([r], u1)"
  defines "gap_end \<equiv> (case u_stash u of [] \<Rightarrow> u_known_next u | (k, _) # _ \<Rightarrow> k)"
  shows "\<exists>ans p' more u2. service [] [(peer, r)] p = Some (ans, p') \<and> drain (map (\<lambda>x. (t, snd x)) ans) u1 = (more, u2) \<and>
    more = map log [unat (u_expected u)..<unat (u_expected u2)] \<and>
    min (unat gap_end) (unat (u_expected u) + 4096) \<le> unat (u_expected u2)"
proof -
  note I = session_inv [OF assms(1)]
  let ?n = "unat (p_next_seq p)" and ?e = "u_expected u"
  obtain g where g: "g = gap_end" "?e < g" "r = control (sq_header kRetransmit (u_epoch u) ?e (ucast (min (g - ?e) 4096)))"
    and u1: "u_expected u1 = ?e" "u_stash u1 = u_stash u" "u_known_next u1 = u_known_next u" "u_epoch u1 = u_epoch u" "u_min_epoch u1 = u_min_epoch u" "u_epoch u \<noteq> 0"
    using request_gap_cases [OF assms(4)] unfolding gap_end_def by metis
  have gn: "unat g \<le> ?n" using I(3) unfolding g(1) gap_end_def
    by (auto simp: sub_inv_def stash_ok_def split: list.splits)
  define b where "b = unat ?e + min (unat g - unat ?e) 4096"
  have b: "unat ?e < b" "b \<le> ?n" "b = min (unat g) (unat ?e + 4096)" using g(2) gn by (auto simp: b_def word_less_nat_alt)
  define q where "q = p\<lparr>p_retransmit_requests := p_retransmit_requests p + 1\<rparr>"
  have q: "kept p q" using I(1) by (simp add: q_def kept_def pub_inv_def)
  note Q = kept_inv [OF q I(1)] kept_facts(1) [OF q]
  have nq: "p_next_seq q = p_next_seq p" "p_epoch q = p_epoch p" "fenced q = fenced p" by (simp_all add: q_def fenced_def)
  define e where "e = min (?e + ucast (ucast (min (g - ?e) 4096) :: u16)) (p_next_seq q)"
  have e: "unat e = b" unfolding e_def using unat_request_count [OF g(2)] b(2) nq by (simp add: b_def min_def word_le_nat_alt)
  have r: "resend q ?e e [] = Some (answer q (unat ?e) b)"
    using resend_answer [of e q ?e "[]"] e b(2) I(1) by (simp add: pub_inv_def)
  have "service_control peer r p = Some (map (Pair (Peer peer)) (answer q (unat ?e) b),
      q\<lparr>p_retransmitted_packets := p_retransmitted_packets q + of_nat (length (answer q (unat ?e) b))\<rparr>)"
    using assms(2,3) Q(2) r I(5) unfolding service_control_def Let_def q_def [symmetric] g(3)
    by (simp add: control_def sq_header_def kind_defs e_def [symmetric] not_less [symmetric])
  then have S: "service [] [(peer, r)] p = Some (map (Pair (Peer peer)) (answer q (unat ?e) b),
      q\<lparr>p_retransmitted_packets := p_retransmitted_packets q + of_nat (length (answer q (unat ?e) b))\<rparr>)"
    by (simp add: service_def)
  obtain more u2 where d: "drain (map (Pair t) (answer q (unat ?e) b)) u1 = (more, u2)" by fastforce
  have s1: "sub_inv log (unat (p_next_seq q)) u1" using I(3) u1 nq by (simp add: sub_inv_def)
  have old: "unat (oldest_held q) \<le> unat ?e" using assms(3) Q(2) by (simp add: word_le_nat_alt)
  have "min b (unat (p_next_seq q)) \<le> unat (u_expected u2) \<or> b \<le> unat ?e"
    by (rule drain_answer [OF Q(1) _ old s1 _ _ _ _ d]) (use b nq u1 I(4-6) in simp_all)
  then have "b \<le> unat (u_expected u2)" using b nq by simp
  moreover have "more = segment log (unat ?e) (unat (u_expected u2))"
  proof -
    have "emits log q (map (Pair (Peer peer)) (answer q (unat ?e) b))" by (rule answer_emits [OF Q(1) _ old]) (use b nq in simp)
    then have "\<forall>(t, d) \<in> set (map (Pair t) (answer q (unat ?e) b)). q_epoch (d_header d) = u_epoch u2 \<longrightarrow> genuine log (unat (p_next_seq q)) d"
      by (auto simp: emits_def)
    then have "advances log (unat (p_next_seq q)) u1 more u2"
      using drain_spec [OF s1 _ _ d] Q(1) I(4) u1 by (simp add: pub_inv_def)
    then show ?thesis using u1 by (simp add: advances_def)
  qed
  moreover have "drain (map (\<lambda>x. (t, snd x)) (map (Pair (Peer peer)) (answer q (unat ?e) b))) u1 = (more, u2)" using d by (simp add: comp_def)
  ultimately show ?thesis using S b(3) g(1) unfolding segment_def by metis
qed

theorem gap_is_closed_witness:
  "\<exists>p u r u1 ans p' more u2. session sample_log p 1 [] u \<and> request_gap 99000000 u = ([r], u1) \<and> service [] [(7, r)] p = Some (ans, p') \<and>
    drain (map (\<lambda>x. (8, snd x)) ans) u1 = (more, u2) \<and> more = map sample_log [1..<unat (u_expected u2)] \<and> 3 \<le> unat (u_expected u2)"
proof -
  obtain p u where S: "session sample_log p 1 [] u" "\<not> fenced p" "oldest_held p \<le> u_expected u" "u_expected u = 1" "u_known_next u = 3"
    "u_stash u = []" "request_gap 99000000 u = ([control (sq_header kRetransmit 1 1 2)], snd (request_gap 99000000 u))"
    using sample_gap by blast
  show ?thesis using gap_is_closed [OF S(1-3,7), of 7 8] S by simp blast
qed

text \<open>C35. Acknowledgements and fencing. In every run, servicing its sockets never lowers the primary's acknowledged
  number, keeps it below the next number to assign, and raises it only to a number that a received
  acknowledgement of its own epoch names; a newer epoch heard on the group, and nothing else, fences the
  primary, for good; and a fenced primary ignores acknowledgements and answers nothing.\<close>

theorem acks_and_fencing:
  assumes "started log blank k a nx ep p0" and "pub_reach log p0 out p" and "service gs rs p = Some (out', p')"
  shows "p_acked p \<le> p_acked p' \<and> p_acked p' < p_next_seq p' \<and>
    (p_acked p' = p_acked p \<or> (\<exists>d \<in> snd ` set rs. q_kind (d_header d) = kAck \<and> q_epoch (d_header d) = ep \<and> q_first_seq (d_header d) = p_acked p')) \<and>
    (fenced p' \<longleftrightarrow> fenced p \<or> (\<exists>d \<in> set gs. sizeof_SqHeader \<le> d_size d \<and> q_magic (d_header d) = kMagic \<and> ep < q_epoch (d_header d))) \<and>
    (fenced p' \<longrightarrow> out' = [] \<and> p_acked p' = p_acked p)"
proof -
  have p0: "pub_inv log p0" "p_epoch p0 = ep" using assms(1) seeded_inv [of k a nx log blank ep p0] by (simp_all add: started_def)
  have p: "pub_inv log p" "p_epoch p = ep" using pub_reach_inv [OF assms(2) p0(1)] p0(2) by simp_all
  have K: "kept p p'" using service_spec [OF p(1), of gs rs] assms(3) by auto
  define q where "q = foldl (\<lambda>p d. service_group d p) p gs"
  note G = service_group_fence [of p gs, folded q_def]
  have s: "service_controls rs q = Some (out', p')" using assms(3) by (simp add: service_def q_def)
  note C = service_controls_acks [OF s]
  show ?thesis using K G C p(2) unfolding kept_def by auto
qed

theorem acks_and_fencing_witness:
  "\<exists>p'. service [control (sq_header kHeartbeat 2 1 0)] [(4, control (sq_header kAck 1 2 0))] sample_primary = Some ([], p') \<and> fenced p' \<and> p_acked p' = 0"
proof -
  obtain o' p' where s: "service [control (sq_header kHeartbeat 2 1 0)] [(4, control (sq_header kAck 1 2 0))] sample_primary = Some (o', p')"
    using service_spec pub_reach_inv [OF sample_published] seeded_inv sample_started unfolding started_def by metis
  have "fenced p'" "p_acked p' = p_acked sample_primary" "o' = []"
    using acks_and_fencing [OF sample_started sample_published s]
    by (simp_all add: control_def sq_header_def sizeof_SqHeader_def)
  then show ?thesis using s by (simp add: sample_primary_def pub_init_def)
qed

end
