(* ===== verification/Md_Feed.thy ===== *)
theory Md_Feed
  imports Common
begin

text \<open>
  \<^verbatim>\<open>include/exsim/mdfeed.hpp\<close>: the public level-2 feed. As in the sequenced stream a packet is its size, its header and
  the entries behind it, the sockets are packet lists, the clock and the fault injector's draws are arguments. What
  the publisher reads of the engine is, per symbol, the listing its \<^verbatim>\<open>for_each_level\<close> visits: best price first.
\<close>

section \<open>Packets\<close>

definition kMdMagic :: u32 where "kMdMagic = 0x464D5845"

definition kIncremental :: u32 where "kIncremental = 1"
definition kSnapshot :: u32 where "kSnapshot = 2"
definition kMdHeartbeat :: u32 where "kMdHeartbeat = 3"
definition kMdEnd :: u32 where "kMdEnd = 4"

definition kLevel :: u8 where "kLevel = 1"
definition kTradeEntry :: u8 where "kTradeEntry = 2"

record MdHeader =
  m_magic :: u32
  m_kind :: u32
  m_seq :: u64
  m_snap_seq :: u64
  m_count :: u16
  m_part :: u16
  m_parts :: u16

record MdEntry =
  x_price :: Price
  x_qty :: Qty
  x_symbol :: SymbolId
  x_side :: Side
  x_type :: u8

text \<open>\<^verbatim>\<open>MdEntry{}\<close>, the placeholder for an empty snapshot.\<close>

definition blank_entry :: MdEntry where
  "blank_entry = \<lparr>x_price = 0, x_qty = 0, x_symbol = 0, x_side = Buy, x_type = 0\<rparr>"

definition sizeof_MdHeader :: nat where "sizeof_MdHeader = 32"
definition sizeof_MdEntry :: nat where "sizeof_MdEntry = 24"
definition kMdPerPacket :: nat where "kMdPerPacket = (1472 - sizeof_MdHeader) div sizeof_MdEntry"

record MdPacket =
  k_size :: nat
  k_header :: MdHeader
  k_entries :: "MdEntry list"

section \<open>The digest of a level-2 book\<close>

record L2Digest =
  l2_h :: u64
  l2_n :: u64

definition l2_init :: L2Digest where
  "l2_init = \<lparr>l2_h = 0x243F6A8885A308D3, l2_n = 0\<rparr>"

definition l2_add :: "SymbolId \<Rightarrow> Side \<Rightarrow> Price \<Rightarrow> Qty \<Rightarrow> L2Digest \<Rightarrow> L2Digest" where
  "l2_add sm side px qty d =
    (let w = [push_bit 1 (ucast sm) OR (if side = Buy then 0 else 1), word_of_int px, qty] in
     d\<lparr>l2_h := foldl (\<lambda>h x. word_rotl 29 ((h XOR x) * 0x9E3779B97F4A7C15)) (l2_h d) w, l2_n := l2_n d + 1\<rparr>)"

definition l2_value :: "L2Digest \<Rightarrow> u64" where
  "l2_value d = l2_h d XOR l2_n d"

text \<open>An engine as the feed sees it: for every symbol and side the levels in \<^verbatim>\<open>for_each_level\<close> order.\<close>

type_synonym engine_view = "(Side \<Rightarrow> (Price \<times> Qty) list) list"

definition level_entry :: "SymbolId \<Rightarrow> Side \<Rightarrow> Price \<times> Qty \<Rightarrow> MdEntry" where
  "level_entry sm side lv = \<lparr>x_price = fst lv, x_qty = snd lv, x_symbol = sm, x_side = side, x_type = kLevel\<rparr>"

definition engine_levels :: "engine_view \<Rightarrow> MdEntry list" where
  "engine_levels bs =
    concat (map (\<lambda>s. concat (map (\<lambda>side. map (level_entry (of_nat s) side) ((bs ! s) side)) [Buy, Sell])) [0..<length bs])"

definition digest_entries :: "MdEntry list \<Rightarrow> u64" where
  "digest_entries es = l2_value (foldl (\<lambda>d x. l2_add (x_symbol x) (x_side x) (x_price x) (x_qty x) d) l2_init es)"

definition engine_l2_digest :: "engine_view \<Rightarrow> u64" where
  "engine_l2_digest bs = digest_entries (engine_levels bs)"

section \<open>The publisher\<close>

record MdPublisher =
  mp_every :: u64
  mp_since_snapshot :: u64
  mp_seq :: u64
  mp_last_send_ns :: u64
  mp_staged :: "MdEntry list"
  mp_packets :: u64
  mp_dropped :: u64
  mp_snapshots :: u64
  mp_levels :: u64
  mp_trades :: u64

definition mp_init :: "u64 \<Rightarrow> MdPublisher" where
  "mp_init every =
    \<lparr>mp_every = every, mp_since_snapshot = 0, mp_seq = 0, mp_last_send_ns = 0, mp_staged = [], mp_packets = 0, mp_dropped = 0,
     mp_snapshots = 0, mp_levels = 0, mp_trades = 0\<rparr>"

definition mp_level :: "SymbolId \<Rightarrow> Side \<Rightarrow> Price \<Rightarrow> Qty \<Rightarrow> MdPublisher \<Rightarrow> MdPublisher" where
  "mp_level sm side px qty p = p\<lparr>mp_staged := mp_staged p @ [level_entry sm side (px, qty)], mp_levels := mp_levels p + 1\<rparr>"

definition mp_trade :: "SymbolId \<Rightarrow> Side \<Rightarrow> Price \<Rightarrow> Qty \<Rightarrow> MdPublisher \<Rightarrow> MdPublisher" where
  "mp_trade sm aggressor px qty p =
    p\<lparr>mp_staged := mp_staged p @ [\<lparr>x_price = px, x_qty = qty, x_symbol = sm, x_side = aggressor, x_type = kTradeEntry\<rparr>],
      mp_trades := mp_trades p + 1\<rparr>"

definition md_send :: "u32 \<Rightarrow> u64 \<Rightarrow> u64 \<Rightarrow> u16 \<Rightarrow> u16 \<Rightarrow> MdEntry list \<Rightarrow> MdPacket" where
  "md_send k sq snap_seq part parts es =
    \<lparr>k_size = sizeof_MdHeader + length es * sizeof_MdEntry,
     k_header = \<lparr>m_magic = kMdMagic, m_kind = k, m_seq = sq, m_snap_seq = snap_seq, m_count = of_nat (length es), m_part = part, m_parts = parts\<rparr>,
     k_entries = es\<rparr>"

definition md_part :: "MdEntry list \<Rightarrow> nat \<Rightarrow> MdEntry list" where
  "md_part es i = take kMdPerPacket (drop (i * kMdPerPacket) es)"

definition md_parts :: "MdEntry list \<Rightarrow> u16" where
  "md_parts es = of_nat (max 1 ((length es + kMdPerPacket - 1) div kMdPerPacket))"

definition mp_snapshot :: "engine_view \<Rightarrow> MdPublisher \<Rightarrow> MdPacket list \<times> MdPublisher" where
  "mp_snapshot engine p =
    (let all = engine_levels engine; parts = md_parts all in
     (map (\<lambda>i. md_send kSnapshot 0 (mp_seq p) (of_nat i) parts (md_part all i)) [0..<unat parts],
      p\<lparr>mp_snapshots := mp_snapshots p + 1, mp_since_snapshot := 0\<rparr>))"

text \<open>The loop of \<^verbatim>\<open>flush\<close> over what is left of the staged entries.\<close>

function flush_loop :: "(u64 \<Rightarrow> bool) \<Rightarrow> MdEntry list \<Rightarrow> MdPublisher \<Rightarrow> MdPacket list \<times> MdPublisher" where
  "flush_loop lost es p =
    (if es = [] then ([], p)
     else
      let p = p\<lparr>mp_seq := mp_seq p + 1\<rparr>;
          drop_it = lost (mp_packets p);
          out = (if drop_it then [] else [md_send kIncremental (mp_seq p) 0 0 1 (take kMdPerPacket es)]);
          p = p\<lparr>mp_dropped := (if drop_it then mp_dropped p + 1 else mp_dropped p), mp_packets := mp_packets p + 1,
                mp_since_snapshot := mp_since_snapshot p + 1\<rparr>;
          (outs, p) = flush_loop lost (drop kMdPerPacket es) p
      in (out @ outs, p))"
  by auto
termination
  by (relation "measure (\<lambda>(l, es, p). length es)") (auto simp: kMdPerPacket_def sizeof_MdHeader_def sizeof_MdEntry_def)

definition mp_flush :: "(u64 \<Rightarrow> bool) \<Rightarrow> u64 \<Rightarrow> engine_view \<Rightarrow> MdPublisher \<Rightarrow> MdPacket list \<times> MdPublisher" where
  "mp_flush lost now engine p =
    (let (out, p) = flush_loop lost (mp_staged p) p;
         (snap, p) = (if mp_every p \<noteq> 0 \<and> mp_since_snapshot p \<ge> mp_every p then mp_snapshot engine p else ([], p))
     in (out @ snap, p\<lparr>mp_staged := [], mp_last_send_ns := now\<rparr>))"

definition mp_heartbeat_if_idle :: "u64 \<Rightarrow> u64 \<Rightarrow> MdPublisher \<Rightarrow> MdPacket list \<times> MdPublisher" where
  "mp_heartbeat_if_idle now interval_ns p =
    (if now - mp_last_send_ns p < interval_ns then ([], p)
     else ([md_send kMdHeartbeat (mp_seq p) 0 0 1 []], p\<lparr>mp_last_send_ns := now\<rparr>))"

definition mp_end :: "engine_view \<Rightarrow> MdPublisher \<Rightarrow> MdPacket list \<times> MdPublisher" where
  "mp_end engine p =
    (let (out, p) = mp_snapshot engine p in (out @ replicate 3 (md_send kMdEnd (mp_seq p) (mp_seq p) 0 1 []), p))"

section \<open>The subscriber\<close>

record Sides =
  sd_bids :: "(Price \<times> Qty) list"
  sd_asks :: "(Price \<times> Qty) list"

text \<open>The maps are \<^verbatim>\<open>std::map\<close>s: ascending listings.\<close>

record MdBook =
  b_synced :: bool
  b_ended :: bool
  b_end_seen :: bool
  b_seq :: u64
  b_end_seq :: u64
  b_snap_id :: u64
  b_snap_have :: u64
  b_books :: "(SymbolId \<times> Sides) list"
  b_pending :: "(u64 \<times> MdEntry list) list"
  b_snap_parts :: "MdEntry list list"
  b_incrementals :: u64
  b_gaps :: u64
  b_snapshots_used :: u64
  b_trades :: u64
  b_buffered_max :: u64

definition mb_init :: MdBook where
  "mb_init =
    \<lparr>b_synced = False, b_ended = False, b_end_seen = False, b_seq = 0, b_end_seq = 0, b_snap_id = - 1, b_snap_have = 0, b_books = [],
     b_pending = [], b_snap_parts = [], b_incrementals = 0, b_gaps = 0, b_snapshots_used = 0, b_trades = 0, b_buffered_max = 0\<rparr>"

definition no_sides :: Sides where
  "no_sides = \<lparr>sd_bids = [], sd_asks = []\<rparr>"

definition put_level :: "Price \<Rightarrow> Qty \<Rightarrow> (Price \<times> Qty) list \<Rightarrow> (Price \<times> Qty) list" where
  "put_level px qty m = (if qty = 0 then om_erase px m else om_alter (<) px (\<lambda>_. qty) m)"

definition apply_entry :: "MdEntry \<Rightarrow> (SymbolId \<times> Sides) list \<Rightarrow> (SymbolId \<times> Sides) list" where
  "apply_entry x bs =
    (if x_type x \<noteq> kLevel then bs
     else
      om_alter (<) (x_symbol x)
        (\<lambda>old. let sd = (case old of None \<Rightarrow> no_sides | Some sd \<Rightarrow> sd) in
          if x_side x = Buy then sd\<lparr>sd_bids := put_level (x_price x) (x_qty x) (sd_bids sd)\<rparr>
          else sd\<lparr>sd_asks := put_level (x_price x) (x_qty x) (sd_asks sd)\<rparr>) bs)"

definition md_apply :: "MdEntry list \<Rightarrow> MdBook \<Rightarrow> MdBook" where
  "md_apply es b =
    b\<lparr>b_books := filter (\<lambda>(s, sd). \<not> (sd_bids sd = [] \<and> sd_asks sd = [])) (foldl (\<lambda>bs x. apply_entry x bs) (b_books b) es),
      b_trades := b_trades b + of_nat (length (filter (\<lambda>x. x_type x = kTradeEntry) es))\<rparr>"

definition mark_ended :: "MdBook \<Rightarrow> MdBook" where
  "mark_ended b = b\<lparr>b_ended := b_end_seen b \<and> b_synced b \<and> b_seq b \<ge> b_end_seq b\<rparr>"

definition lose_sync :: "MdBook \<Rightarrow> MdBook" where
  "lose_sync b = b\<lparr>b_gaps := b_gaps b + 1, b_synced := False, b_books := []\<rparr>"

text \<open>The two loops over the buffered packets of \<^verbatim>\<open>on_snapshot_part\<close>.\<close>

fun replay_pending :: "(u64 \<times> MdEntry list) list \<Rightarrow> MdBook \<Rightarrow> MdBook" where
  "replay_pending [] b = b\<lparr>b_pending := []\<rparr>"
| "replay_pending ((s, es) # m) b =
    (if s = b_seq b + 1 then
       replay_pending m ((md_apply es b)\<lparr>b_seq := s, b_incrementals := b_incrementals b + 1\<rparr>)
     else b\<lparr>b_pending := (s, es) # m\<rparr>)"

definition on_snapshot_part :: "MdHeader \<Rightarrow> MdEntry list \<Rightarrow> MdBook \<Rightarrow> MdBook" where
  "on_snapshot_part h es b =
    (let b = (if m_part h = 0 \<or> m_snap_seq h \<noteq> b_snap_id b
              then b\<lparr>b_snap_id := m_snap_seq h, b_snap_parts := replicate (unat (m_parts h)) [], b_snap_have := 0\<rparr> else b);
         i = unat (m_part h)
     in
     if i \<ge> length (b_snap_parts b) \<or> b_snap_parts b ! i \<noteq> [] \<or> (m_count h = 0 \<and> m_parts h > 1) then b
     else
      let b = b\<lparr>b_snap_parts := (b_snap_parts b)[i := if es = [] then [blank_entry] else es], b_snap_have := b_snap_have b + 1\<rparr> in
      if unat (b_snap_have b) < length (b_snap_parts b) then b
      else
        let b = foldl (\<lambda>b part. md_apply part b) (b\<lparr>b_books := []\<rparr>) (b_snap_parts b);
            b = b\<lparr>b_seq := m_snap_seq h, b_synced := True, b_snapshots_used := b_snapshots_used b + 1\<rparr>;
            b = replay_pending (dropWhile (\<lambda>p. fst p \<le> b_seq b) (b_pending b)) b;
            b = (if b_pending b \<noteq> [] then lose_sync b else b)
        in mark_ended b)"

definition on_packet :: "MdHeader \<Rightarrow> MdEntry list \<Rightarrow> MdBook \<Rightarrow> MdBook" where
  "on_packet h es b =
    (if m_kind h = kIncremental then
       if b_synced b \<and> m_seq h \<le> b_seq b then b
       else if b_synced b \<and> m_seq h = b_seq b + 1 then
         (md_apply es b)\<lparr>b_seq := m_seq h, b_incrementals := b_incrementals b + 1\<rparr>
       else
         let b = (if b_synced b then lose_sync b else b);
             b = b\<lparr>b_pending := om_alter (<) (m_seq h) (\<lambda>_. es) (b_pending b)\<rparr>
         in b\<lparr>b_buffered_max := max (b_buffered_max b) (of_nat (length (b_pending b)))\<rparr>
     else if m_kind h = kMdHeartbeat \<or> m_kind h = kMdEnd then
       let b = (if b_synced b \<and> m_seq h > b_seq b then lose_sync b else b);
           b = (if m_kind h = kMdEnd then b\<lparr>b_end_seq := m_seq h, b_end_seen := True\<rparr> else b)
       in mark_ended b
     else if m_kind h = kSnapshot then
       if b_synced b then b else mark_ended (on_snapshot_part h es b)
     else mark_ended b)"

definition md_poll_one :: "MdPacket \<Rightarrow> MdBook \<Rightarrow> MdBook" where
  "md_poll_one k b =
    (let h = k_header k in
     if k_size k < sizeof_MdHeader then b
     else if m_magic h \<noteq> kMdMagic \<or> k_size k \<noteq> sizeof_MdHeader + unat (m_count h) * sizeof_MdEntry then b
     else on_packet h (take (unat (m_count h)) (k_entries k)) b)"

definition md_poll :: "MdPacket list \<Rightarrow> MdBook \<Rightarrow> MdBook" where
  "md_poll ks b = foldl (\<lambda>b k. md_poll_one k b) b ks"

definition book_entries :: "(SymbolId \<times> Sides) list \<Rightarrow> MdEntry list" where
  "book_entries bs =
    concat (map (\<lambda>(s, sd). map (level_entry s Buy) (rev (sd_bids sd)) @ map (level_entry s Sell) (sd_asks sd)) bs)"

definition mb_digest :: "MdBook \<Rightarrow> u64" where
  "mb_digest b = digest_entries (book_entries (b_books b))"

end
