(* ===== verification/Md_Feed_Properties.thy ===== *)
theory Md_Feed_Properties
  imports Md_Feed
begin

text \<open>
  The feed's contract. The level-2 book is abstracted to the quantity at every symbol, side and price; \<open>l2_at\<close> is the
  book after every incremental packet. A subscriber that receives any selection of the publisher's packets, repeated
  and in any order, has the book of the sequence number it reports whenever it says it is in sync, and its digest is
  then the engine's.
\<close>

type_synonym l2 = "SymbolId \<Rightarrow> Side \<Rightarrow> Price \<Rightarrow> Qty"

section \<open>Specification\<close>

definition l2_apply :: "MdEntry \<Rightarrow> l2 \<Rightarrow> l2" where
  "l2_apply x A =
    (if x_type x \<noteq> kLevel then A
     else A(x_symbol x := (A (x_symbol x))(x_side x := (A (x_symbol x) (x_side x))(x_price x := x_qty x))))"

definition l2_applies :: "MdEntry list \<Rightarrow> l2 \<Rightarrow> l2" where
  "l2_applies es A = foldl (\<lambda>A x. l2_apply x A) A es"

definition l2_empty :: l2 where
  "l2_empty = (\<lambda>s d px. 0)"

text \<open>The book after packet \<open>s\<close>, where \<open>P s\<close> are the entries of packet \<open>s\<close> and \<open>A0\<close> is the book at the start.\<close>

primrec l2_at :: "l2 \<Rightarrow> (nat \<Rightarrow> MdEntry list) \<Rightarrow> nat \<Rightarrow> l2" where
  "l2_at A0 P 0 = A0"
| "l2_at A0 P (Suc s) = l2_applies (P (Suc s)) (l2_at A0 P s)"

text \<open>What the books' \<^verbatim>\<open>for_each_level\<close> gives: strictly from the best price on, no empty level; and few enough levels for
  the 16-bit part counter.\<close>

definition view_ok :: "engine_view \<Rightarrow> bool" where
  "view_ok bs \<longleftrightarrow> length bs \<le> 2 ^ 32 \<and> length (engine_levels bs) \<le> 65535 * 60 \<and>
    (\<forall>lv \<in> set bs. sorted_wrt (>) (map fst (lv Buy)) \<and> sorted_wrt (<) (map fst (lv Sell)) \<and>
      0 \<notin> snd ` set (lv Buy) \<and> 0 \<notin> snd ` set (lv Sell))"

text \<open>The engine's levels are the book after packet \<open>s\<close>.\<close>

definition shows_at :: "l2 \<Rightarrow> (nat \<Rightarrow> MdEntry list) \<Rightarrow> nat \<Rightarrow> engine_view \<Rightarrow> bool" where
  "shows_at A0 P s bs \<longleftrightarrow> view_ok bs \<and> l2_applies (engine_levels bs) l2_empty = l2_at A0 P s"

text \<open>The publisher's runs. Between flushes anything may be staged; a flush finds the engine in the state that the
  packets it is about to send lead to.\<close>

inductive md_run :: "l2 \<Rightarrow> (nat \<Rightarrow> MdEntry list) \<Rightarrow> MdPacket list \<Rightarrow> MdPublisher \<Rightarrow> bool" for A0 P where
  start: "md_run A0 P [] (mp_init every)"
| level: "md_run A0 P out p \<Longrightarrow> md_run A0 P out (mp_level sm side px qty p)"
| trade: "md_run A0 P out p \<Longrightarrow> md_run A0 P out (mp_trade sm side px qty p)"
| flush: "md_run A0 P out p \<Longrightarrow> n = (length (mp_staged p) + 59) div 60 \<Longrightarrow> unat (mp_seq p) + n < 2 ^ 64 - 1 \<Longrightarrow>
    \<forall>i < n. P (unat (mp_seq p) + 1 + i) = md_part (mp_staged p) i \<Longrightarrow> shows_at A0 P (unat (mp_seq p) + n) engine \<Longrightarrow>
    mp_flush lost now engine p = (out', p') \<Longrightarrow> md_run A0 P (out @ out') p'"
| heartbeat: "md_run A0 P out p \<Longrightarrow> mp_heartbeat_if_idle now iv p = (out', p') \<Longrightarrow> md_run A0 P (out @ out') p'"
| finish: "md_run A0 P out p \<Longrightarrow> shows_at A0 P (unat (mp_seq p)) engine \<Longrightarrow> mp_end engine p = (out', p') \<Longrightarrow> md_run A0 P (out @ out') p'"

definition l2_side :: "Side \<Rightarrow> Sides \<Rightarrow> (Price \<times> Qty) list" where
  "l2_side side sd = (if side = Buy then sd_bids sd else sd_asks sd)"

definition l2_of :: "(SymbolId \<times> Sides) list \<Rightarrow> l2" where
  "l2_of bs = (\<lambda>s side px. case map_of bs s of None \<Rightarrow> 0 | Some sd \<Rightarrow> (case map_of (l2_side side sd) px of None \<Rightarrow> 0 | Some q \<Rightarrow> q))"

definition side_ok :: "(Price \<times> Qty) list \<Rightarrow> bool" where
  "side_ok m \<longleftrightarrow> sorted_wrt (<) (map fst m) \<and> 0 \<notin> snd ` set m"

definition books_ok :: "(SymbolId \<times> Sides) list \<Rightarrow> bool" where
  "books_ok bs \<longleftrightarrow> sorted_wrt (<) (map fst bs) \<and> (\<forall>(s, sd) \<in> set bs. side_ok (sd_bids sd) \<and> side_ok (sd_asks sd))"

text \<open>The order of a listing: by symbol, bids before asks, best price first.\<close>

definition before :: "MdEntry \<Rightarrow> MdEntry \<Rightarrow> bool" where
  "before a b \<longleftrightarrow> x_symbol a < x_symbol b \<or>
    x_symbol a = x_symbol b \<and>
     (x_side a = Buy \<and> x_side b = Sell \<or>
      x_side a = x_side b \<and> (if x_side a = Buy then x_price b < x_price a else x_price a < x_price b))"

definition canon :: "MdEntry list \<Rightarrow> bool" where
  "canon es \<longleftrightarrow> sorted_wrt before es \<and> (\<forall>x \<in> set es. x_type x = kLevel \<and> x_qty x \<noteq> 0)"

text \<open>The part \<open>i\<close> of a snapshot as the subscriber keeps it.\<close>

definition kept_part :: "MdEntry list \<Rightarrow> nat \<Rightarrow> MdEntry list" where
  "kept_part es i = (if md_part es i = [] then [blank_entry] else md_part es i)"

definition genuine_md :: "l2 \<Rightarrow> (nat \<Rightarrow> MdEntry list) \<Rightarrow> nat \<Rightarrow> MdPacket \<Rightarrow> bool" where
  "genuine_md A0 P n k \<longleftrightarrow>
    (let h = k_header k in
     unat (m_count h) = length (k_entries k) \<and>
     (m_kind h = kIncremental \<longrightarrow> 1 \<le> unat (m_seq h) \<and> unat (m_seq h) \<le> n \<and> k_entries k = P (unat (m_seq h))) \<and>
     (m_kind h = kSnapshot \<longrightarrow>
       unat (m_snap_seq h) \<le> n \<and>
       (\<exists>bs. shows_at A0 P (unat (m_snap_seq h)) bs \<and> m_parts h = md_parts (engine_levels bs) \<and> m_part h < m_parts h \<and>
         k_entries k = md_part (engine_levels bs) (unat (m_part h)))))"

definition snap_ok :: "l2 \<Rightarrow> (nat \<Rightarrow> MdEntry list) \<Rightarrow> nat \<Rightarrow> MdBook \<Rightarrow> bool" where
  "snap_ok A0 P n b \<longleftrightarrow> b_snap_parts b = [] \<and> b_snap_id b = - 1 \<or>
    (\<exists>bs. shows_at A0 P (unat (b_snap_id b)) bs \<and> unat (b_snap_id b) \<le> n \<and>
      length (b_snap_parts b) = unat (md_parts (engine_levels bs)) \<and>
      (\<forall>i < length (b_snap_parts b). b_snap_parts b ! i \<noteq> [] \<longrightarrow> b_snap_parts b ! i = kept_part (engine_levels bs) i) \<and>
      unat (b_snap_have b) = length (filter (\<lambda>p. p \<noteq> []) (b_snap_parts b)))"

definition pending_ok :: "(nat \<Rightarrow> MdEntry list) \<Rightarrow> nat \<Rightarrow> (u64 \<times> MdEntry list) list \<Rightarrow> bool" where
  "pending_ok P n m \<longleftrightarrow> sorted_wrt (<) (map fst m) \<and> (\<forall>(s, es) \<in> set m. 1 \<le> unat s \<and> unat s \<le> n \<and> es = P (unat s))"

definition mb_inv :: "l2 \<Rightarrow> (nat \<Rightarrow> MdEntry list) \<Rightarrow> nat \<Rightarrow> MdBook \<Rightarrow> bool" where
  "mb_inv A0 P n b \<longleftrightarrow> books_ok (b_books b) \<and> pending_ok P n (b_pending b) \<and> snap_ok A0 P n b \<and>
    (b_synced b \<longrightarrow> b_pending b = [] \<and> unat (b_seq b) \<le> n \<and> l2_of (b_books b) = l2_at A0 P (unat (b_seq b)))"

text \<open>A datagram that is not a packet of the feed: too short, of another protocol, or cut.\<close>

definition not_md :: "MdPacket \<Rightarrow> bool" where
  "not_md k \<longleftrightarrow> k_size k < sizeof_MdHeader \<or> m_magic (k_header k) \<noteq> kMdMagic \<or>
    k_size k \<noteq> sizeof_MdHeader + unat (m_count (k_header k)) * sizeof_MdEntry"

text \<open>A small engine, the packet that leads to it, and the book.\<close>

definition sample_view :: engine_view where
  "sample_view = [\<lambda>side. if side = Buy then [(100, 5), (99, 7)] else [(101, 2)]]"

definition sample_packets :: "nat \<Rightarrow> MdEntry list" where
  "sample_packets s = [level_entry 0 Buy (100, 5), level_entry 0 Buy (99, 7), level_entry 0 Sell (101, 2)]"

definition sample_publisher :: MdPublisher where
  "sample_publisher = mp_level 0 Sell 101 2 (mp_level 0 Buy 99 7 (mp_level 0 Buy 100 5 (mp_init 1)))"

text \<open>The subscriber after the first \<open>j\<close> parts of a snapshot.\<close>

definition got_parts :: "u64 \<Rightarrow> MdEntry list \<Rightarrow> nat \<Rightarrow> (u64 \<times> MdEntry list) list \<Rightarrow> MdBook \<Rightarrow> bool" where
  "got_parts s L j m b \<longleftrightarrow> \<not> b_synced b \<and> b_snap_id b = s \<and> b_pending b = m \<and> unat (b_snap_have b) = j \<and>
    b_snap_parts b = map (kept_part L) [0..<j] @ replicate (unat (md_parts L) - j) []"

section \<open>The rebuilt book\<close>

lemma put_level_ok: "side_ok m \<Longrightarrow> side_ok (put_level px q m)"
  unfolding side_ok_def put_level_def
  using set_om_alter [of m px "\<lambda>_. q"] by (auto simp: sorted_om_alter sorted_om_erase set_om_erase)

lemma put_level_lookup:
  "side_ok m \<Longrightarrow> (case map_of (put_level px q m) y of None \<Rightarrow> 0 | Some v \<Rightarrow> v) =
    (if y = px then q else (case map_of m y of None \<Rightarrow> 0 | Some v \<Rightarrow> v))"
  unfolding side_ok_def put_level_def by (auto simp: lookup_om_alter map_of_om_erase)

lemma apply_entry_ok:
  assumes "books_ok bs"
  shows "books_ok (apply_entry x bs)" "l2_of (apply_entry x bs) = l2_apply x (l2_of bs)"
proof -
  have s: "sorted_wrt (<) (map fst bs)" using assms by (simp add: books_ok_def)
  define sd where "sd = (case map_of bs (x_symbol x) of None \<Rightarrow> no_sides | Some sd \<Rightarrow> sd)"
  have sd: "side_ok (sd_bids sd)" "side_ok (sd_asks sd)"
    using assms by (auto simp: sd_def books_ok_def no_sides_def side_ok_def split: option.splits dest!: map_of_SomeD)
  define f where "f = (\<lambda>old. let sd = (case old of None \<Rightarrow> no_sides | Some sd \<Rightarrow> sd) in
          if x_side x = Buy then sd\<lparr>sd_bids := put_level (x_price x) (x_qty x) (sd_bids sd)\<rparr>
          else sd\<lparr>sd_asks := put_level (x_price x) (x_qty x) (sd_asks sd)\<rparr>)"
  have f: "f (map_of bs (x_symbol x)) = (if x_side x = Buy then sd\<lparr>sd_bids := put_level (x_price x) (x_qty x) (sd_bids sd)\<rparr>
          else sd\<lparr>sd_asks := put_level (x_price x) (x_qty x) (sd_asks sd)\<rparr>)" by (simp add: f_def sd_def Let_def)
  have ae: "apply_entry x bs = (if x_type x \<noteq> kLevel then bs else om_alter (<) (x_symbol x) f bs)"
    by (simp add: apply_entry_def f_def)
  have sides: "side_ok (sd_bids (f (map_of bs (x_symbol x))))" "side_ok (sd_asks (f (map_of bs (x_symbol x))))"
    using sd by (simp_all add: f put_level_ok)
  show "books_ok (apply_entry x bs)"
    using assms set_om_alter [OF s, of "x_symbol x" f] sorted_om_alter [OF s, of "x_symbol x" f] sides
    unfolding ae books_ok_def by (auto split: if_splits)
  have old: "l2_of bs (x_symbol x) side px = (case map_of (l2_side side sd) px of None \<Rightarrow> 0 | Some q \<Rightarrow> q)" for side px
    by (simp add: l2_of_def sd_def l2_side_def no_sides_def split: option.splits)
  have new: "(case map_of (l2_side side (f (map_of bs (x_symbol x)))) px of None \<Rightarrow> 0 | Some q \<Rightarrow> q) =
    (if side = x_side x \<and> px = x_price x then x_qty x else l2_of bs (x_symbol x) side px)" for side px
    unfolding old f l2_side_def by (cases side; cases "x_side x") (simp_all add: put_level_lookup sd)
  show "l2_of (apply_entry x bs) = l2_apply x (l2_of bs)"
  proof (intro ext)
    fix s side px
    show "l2_of (apply_entry x bs) s side px = l2_apply x (l2_of bs) s side px"
      using new [of side px] unfolding ae l2_apply_def
      by (simp add: l2_of_def lookup_om_alter [OF s] split: option.splits)
  qed
qed

lemma map_of_filter_sorted:
  "sorted_wrt (<) (map fst (m :: ('k::linorder \<times> 'v) list)) \<Longrightarrow>
   map_of (filter (\<lambda>(k, v). Q v) m) k = (case map_of m k of None \<Rightarrow> None | Some v \<Rightarrow> if Q v then Some v else None)"
proof (induction m)
  case (Cons p m)
  obtain k' v where p: "p = (k', v)" by (cases p)
  have "map_of m k' = None" using Cons.prems by (force simp: p map_of_eq_None_iff)
  then show ?case using Cons by (auto simp: p split: option.splits)
qed simp

lemma applies_ok:
  "books_ok bs \<Longrightarrow> books_ok (foldl (\<lambda>bs x. apply_entry x bs) bs es) \<and>
   l2_of (foldl (\<lambda>bs x. apply_entry x bs) bs es) = l2_applies es (l2_of bs)"
  by (induction es arbitrary: bs) (simp_all add: l2_applies_def apply_entry_ok)

lemma prune_ok:
  assumes "books_ok bs"
  shows "books_ok (filter (\<lambda>(s, sd). \<not> (sd_bids sd = [] \<and> sd_asks sd = [])) bs)"
    "l2_of (filter (\<lambda>(s, sd). \<not> (sd_bids sd = [] \<and> sd_asks sd = [])) bs) = l2_of bs"
proof -
  have s: "sorted_wrt (<) (map fst bs)" using assms by (simp add: books_ok_def)
  have "sorted_wrt (<) (map fst (filter Q bs))" for Q using s by (induction bs) auto
  then show "books_ok (filter (\<lambda>(s, sd). \<not> (sd_bids sd = [] \<and> sd_asks sd = [])) bs)" using assms by (simp add: books_ok_def)
  show "l2_of (filter (\<lambda>(s, sd). \<not> (sd_bids sd = [] \<and> sd_asks sd = [])) bs) = l2_of bs"
    unfolding l2_of_def map_of_filter_sorted [OF s] by (intro ext) (auto simp: l2_side_def split: option.splits)
qed

lemma md_apply_ok:
  assumes "books_ok (b_books b)"
  shows "books_ok (b_books (md_apply es b))" "l2_of (b_books (md_apply es b)) = l2_applies es (l2_of (b_books b))"
  using applies_ok [OF assms, of es] prune_ok by (simp_all add: md_apply_def)

lemma md_apply_frame [simp]:
  "b_synced (md_apply es b) = b_synced b" "b_seq (md_apply es b) = b_seq b" "b_pending (md_apply es b) = b_pending b"
  "b_snap_parts (md_apply es b) = b_snap_parts b" "b_snap_id (md_apply es b) = b_snap_id b" "b_snap_have (md_apply es b) = b_snap_have b"
  by (simp_all add: md_apply_def)

lemma md_applies_ok:
  "books_ok (b_books b) \<Longrightarrow>
   books_ok (b_books (foldl (\<lambda>b part. md_apply part b) b parts)) \<and>
   l2_of (b_books (foldl (\<lambda>b part. md_apply part b) b parts)) = l2_applies (concat parts) (l2_of (b_books b))"
  by (induction parts arbitrary: b) (simp_all add: l2_applies_def md_apply_ok)

lemma md_applies_frame [simp]:
  "b_synced (foldl (\<lambda>b part. md_apply part b) b parts) = b_synced b" "b_seq (foldl (\<lambda>b part. md_apply part b) b parts) = b_seq b"
  "b_pending (foldl (\<lambda>b part. md_apply part b) b parts) = b_pending b" "b_snap_parts (foldl (\<lambda>b part. md_apply part b) b parts) = b_snap_parts b"
  "b_snap_id (foldl (\<lambda>b part. md_apply part b) b parts) = b_snap_id b" "b_snap_have (foldl (\<lambda>b part. md_apply part b) b parts) = b_snap_have b"
  by (induction parts arbitrary: b) simp_all

section \<open>Listings\<close>

lemma sorted_wrt_unique:
  assumes "\<And>a. \<not> R a a" and "\<And>a b c. R a b \<Longrightarrow> R b c \<Longrightarrow> R a c"
  shows "sorted_wrt R xs \<Longrightarrow> sorted_wrt R ys \<Longrightarrow> set xs = set ys \<Longrightarrow> xs = ys"
proof (induction xs arbitrary: ys)
  case (Cons x xs)
  obtain y zs where ys: "ys = y # zs" using Cons.prems(3) by (cases ys) auto
  have "x = y"
  proof (rule ccontr)
    assume ne: "x \<noteq> y"
    then have "R x y" using Cons.prems(1,3) unfolding ys by auto
    moreover have "R y x" using ne Cons.prems(2,3) unfolding ys by auto
    ultimately show False using assms by blast
  qed
  moreover have "x \<notin> set xs" "y \<notin> set zs" using Cons.prems(1,2) assms(1) unfolding ys by auto
  ultimately have "set xs = set zs" using Cons.prems(3) unfolding ys by auto
  then show ?case using Cons \<open>x = y\<close> unfolding ys by simp
qed simp

lemma before_irrefl: "\<not> before a a"
  by (auto simp: before_def)

lemma before_trans: "before a b \<Longrightarrow> before b c \<Longrightarrow> before a c"
  unfolding before_def by (auto split: if_splits)

lemma l2_applies_other:
  "(\<forall>x \<in> set es. x_type x = kLevel \<longrightarrow> \<not> (x_symbol x = s \<and> x_side x = d \<and> x_price x = px)) \<Longrightarrow> l2_applies es A s d px = A s d px"
proof (induction es arbitrary: A)
  case (Cons x es)
  have "l2_apply x A s d px = A s d px" using Cons.prems by (auto simp: l2_apply_def)
  then show ?case using Cons by (simp add: l2_applies_def)
qed (simp add: l2_applies_def)

lemma before_keys: "before a b \<Longrightarrow> \<not> (x_symbol a = x_symbol b \<and> x_side a = x_side b \<and> x_price a = x_price b)"
  by (auto simp: before_def split: if_splits)

lemma canon_lookup:
  assumes "canon es" and "x \<in> set es"
  shows "l2_applies es A (x_symbol x) (x_side x) (x_price x) = x_qty x"
proof -
  obtain as bs where es: "es = as @ x # bs" using assms(2) by (meson split_list)
  have t: "x_type x = kLevel" using assms by (simp add: canon_def)
  have "\<forall>y \<in> set bs. \<not> (x_symbol y = x_symbol x \<and> x_side y = x_side x \<and> x_price y = x_price x)"
    using assms(1) before_keys unfolding es canon_def by (fastforce simp: sorted_wrt_append)
  then have "l2_applies bs B (x_symbol x) (x_side x) (x_price x) = B (x_symbol x) (x_side x) (x_price x)" for B
    by (intro l2_applies_other) auto
  then show ?thesis unfolding es l2_applies_def by (simp add: l2_applies_def [symmetric] l2_apply_def t)
qed

lemma canon_mem:
  assumes "canon es"
  shows "x \<in> set es \<longleftrightarrow> x_type x = kLevel \<and> x_qty x \<noteq> 0 \<and> l2_applies es l2_empty (x_symbol x) (x_side x) (x_price x) = x_qty x"
proof
  assume "x \<in> set es"
  then show "x_type x = kLevel \<and> x_qty x \<noteq> 0 \<and> l2_applies es l2_empty (x_symbol x) (x_side x) (x_price x) = x_qty x"
    using assms canon_lookup [OF assms] by (auto simp: canon_def)
next
  assume a: "x_type x = kLevel \<and> x_qty x \<noteq> 0 \<and> l2_applies es l2_empty (x_symbol x) (x_side x) (x_price x) = x_qty x"
  have "\<exists>y \<in> set es. x_symbol y = x_symbol x \<and> x_side y = x_side x \<and> x_price y = x_price x"
  proof (rule ccontr)
    assume "\<not> ?thesis"
    then have "l2_applies es l2_empty (x_symbol x) (x_side x) (x_price x) = 0"
      using l2_applies_other [of es] by (simp add: l2_empty_def)
    with a show False by simp
  qed
  then obtain y where y: "y \<in> set es" "x_symbol y = x_symbol x" "x_side y = x_side x" "x_price y = x_price x" by blast
  then have "x_qty y = x_qty x" "x_type y = kLevel" using canon_lookup [OF assms y(1), of l2_empty] a assms by (simp_all add: canon_def)
  then have "y = x" using y a by (intro MdEntry.equality) simp_all
  then show "x \<in> set es" using y(1) by simp
qed

lemma canon_unique:
  assumes "canon es" and "canon fs" and "l2_applies es l2_empty = l2_applies fs l2_empty"
  shows "es = fs"
proof (rule sorted_wrt_unique [OF before_irrefl before_trans])
  show "sorted_wrt before es" "sorted_wrt before fs" using assms by (simp_all add: canon_def)
  show "set es = set fs" using canon_mem [OF assms(1)] canon_mem [OF assms(2)] assms(3) by auto
qed

lemma sorted_concat_map:
  "(\<forall>x \<in> set xs. sorted_wrt R (f x)) \<Longrightarrow> sorted_wrt (\<lambda>x y. \<forall>a \<in> set (f x). \<forall>b \<in> set (f y). R a b) xs \<Longrightarrow> sorted_wrt R (concat (map f xs))"
  by (induction xs) (auto simp: sorted_wrt_append)

lemma level_entry_simps [simp]:
  "x_symbol (level_entry s d lv) = s" "x_side (level_entry s d lv) = d" "x_price (level_entry s d lv) = fst lv" "x_qty (level_entry s d lv) = snd lv"
  "x_type (level_entry s d lv) = kLevel"
  by (simp_all add: level_entry_def)

lemma sides_sorted:
  assumes "sorted_wrt (>) (map fst bids)" and "sorted_wrt (<) (map fst asks)"
  shows "sorted_wrt before (map (level_entry s Buy) bids @ map (level_entry s Sell) asks)"
  using assms by (auto simp: sorted_wrt_append sorted_wrt_map before_def)

lemma engine_levels_canon:
  assumes "view_ok bs"
  shows "canon (engine_levels bs)"
proof -
  let ?f = "\<lambda>s. map (level_entry (of_nat s) Buy) ((bs ! s) Buy) @ map (level_entry (of_nat s) Sell) ((bs ! s) Sell)"
  have e: "engine_levels bs = concat (map ?f [0..<length bs])" by (simp add: engine_levels_def)
  have lv: "sorted_wrt (>) (map fst ((bs ! s) Buy))" "sorted_wrt (<) (map fst ((bs ! s) Sell))" "0 \<notin> snd ` set ((bs ! s) Buy)" "0 \<notin> snd ` set ((bs ! s) Sell)"
    if "s < length bs" for s using assms that by (simp_all add: view_ok_def)
  have "sorted_wrt before (concat (map ?f [0..<length bs]))"
  proof (rule sorted_concat_map)
    show "\<forall>s \<in> set [0..<length bs]. sorted_wrt before (?f s)" using lv sides_sorted by auto
    show "sorted_wrt (\<lambda>x y. \<forall>a \<in> set (?f x). \<forall>b \<in> set (?f y). before a b) [0..<length bs]"
    proof (rule sorted_wrt_mono_rel [OF _ sorted_wrt_upt])
      fix x y assume xy: "x \<in> set [0..<length bs]" "y \<in> set [0..<length bs]" "x < y"
      have "length bs \<le> 2 ^ 32" using assms by (simp add: view_ok_def)
      then have "unat (of_nat x :: u32) = x" "unat (of_nat y :: u32) = y" using xy by (simp_all add: unat_of_nat)
      then have "(of_nat x :: u32) < of_nat y" using xy(3) unfolding word_less_nat_alt by (simp only:)
      then show "\<forall>a \<in> set (?f x). \<forall>b \<in> set (?f y). before a b" by (auto simp: before_def)
    qed
  qed
  then show ?thesis using lv(3,4) unfolding e canon_def by (force simp: image_iff)
qed

lemma book_entries_canon:
  assumes "books_ok bs"
  shows "canon (book_entries bs)"
proof -
  let ?f = "\<lambda>(s, sd). map (level_entry s Buy) (rev (sd_bids sd)) @ map (level_entry s Sell) (sd_asks sd)"
  have ok: "side_ok (sd_bids sd)" "side_ok (sd_asks sd)" if "(s, sd) \<in> set bs" for s sd using assms that by (auto simp: books_ok_def)
  have "sorted_wrt before (concat (map ?f bs))"
  proof (rule sorted_concat_map)
    show "\<forall>p \<in> set bs. sorted_wrt before (?f p)"
    proof
      fix p assume p: "p \<in> set bs"
      obtain s sd where sd: "p = (s, sd)" by (cases p)
      have "sorted_wrt (>) (map fst (rev (sd_bids sd)))" "sorted_wrt (<) (map fst (sd_asks sd))"
        using ok [of s sd] p unfolding sd side_ok_def by (simp_all add: rev_map [symmetric] sorted_wrt_rev)
      then show "sorted_wrt before (?f p)" unfolding sd using sides_sorted by simp
    qed
    have "sorted_wrt (\<lambda>p q. fst p < fst q) bs" using assms by (simp add: books_ok_def sorted_wrt_map)
    then show "sorted_wrt (\<lambda>x y. \<forall>a \<in> set (?f x). \<forall>b \<in> set (?f y). before a b) bs"
      by (rule sorted_wrt_mono_rel [rotated]) (auto simp: before_def)
  qed
  then show ?thesis using ok unfolding canon_def book_entries_def by (force simp: side_ok_def image_iff)
qed

lemma book_entries_l2:
  assumes "books_ok bs"
  shows "l2_applies (book_entries bs) l2_empty = l2_of bs"
proof (intro ext)
  fix s d px
  note C = book_entries_canon [OF assms]
  have srt: "sorted_wrt (<) (map fst bs)" using assms by (simp add: books_ok_def)
  then have dist: "distinct (map fst bs)" by (simp add: strict_sorted_iff)
  show "l2_applies (book_entries bs) l2_empty s d px = l2_of bs s d px"
  proof (cases "\<exists>sd q. (s, sd) \<in> set bs \<and> (px, q) \<in> set (l2_side d sd)")
    case True
    then obtain sd q where m: "(s, sd) \<in> set bs" "(px, q) \<in> set (l2_side d sd)" by blast
    have "side_ok (l2_side d sd)" using assms m(1) by (auto simp: books_ok_def l2_side_def)
    then have "distinct (map fst (l2_side d sd))" by (simp add: side_ok_def strict_sorted_iff)
    then have "map_of (l2_side d sd) px = Some q" using m(2) by simp
    moreover have "map_of bs s = Some sd" using dist m(1) by simp
    ultimately have "l2_of bs s d px = q" by (simp add: l2_of_def)
    moreover have "level_entry s d (px, q) \<in> set (book_entries bs)"
      using m unfolding book_entries_def l2_side_def by (cases d) (force split: if_splits)+
    ultimately show ?thesis using canon_lookup [OF C, of "level_entry s d (px, q)" l2_empty] by simp
  next
    case False
    have "l2_applies (book_entries bs) l2_empty s d px = 0"
      using False by (subst l2_applies_other) (auto simp: book_entries_def l2_side_def l2_empty_def split: if_splits)
    moreover have "l2_of bs s d px = 0"
      using False by (auto simp: l2_of_def split: option.splits dest!: map_of_SomeD)
    ultimately show ?thesis by simp
  qed
qed

section \<open>Snapshot parts\<close>

lemma kMdPerPacket_60: "kMdPerPacket = 60"
  by (simp add: kMdPerPacket_def sizeof_MdHeader_def sizeof_MdEntry_def)

lemma concat_parts: "concat (map (md_part es) [0..<k]) = take (60 * k) es"
proof (induction k)
  case (Suc k)
  then show ?case by (simp add: md_part_def kMdPerPacket_60 take_add [symmetric] algebra_simps)
qed simp

lemma unat_md_parts: "length es \<le> 65535 * 60 \<Longrightarrow> unat (md_parts es) = max 1 ((length es + 59) div 60)"
proof -
  assume "length es \<le> 65535 * 60"
  then have "max 1 ((length es + 59) div 60) < 2 ^ 16" by (simp add: max_def less_mult_imp_div_less)
  then show ?thesis by (simp add: md_parts_def kMdPerPacket_60 unat_of_nat)
qed

lemma concat_all_parts: "length es \<le> 65535 * 60 \<Longrightarrow> concat (map (md_part es) [0..<unat (md_parts es)]) = es"
  unfolding concat_parts by (simp add: unat_md_parts)

lemma l2_applies_append [simp]: "l2_applies (as @ bs) A = l2_applies bs (l2_applies as A)"
  by (simp add: l2_applies_def)

lemma l2_applies_Nil [simp]: "l2_applies [] A = A"
  by (simp add: l2_applies_def)

lemma kept_part_l2: "l2_applies (kept_part es i) A = l2_applies (md_part es i) A"
  by (simp add: kept_part_def l2_applies_def l2_apply_def blank_entry_def kLevel_def)

lemma kept_parts_l2: "l2_applies (concat (map (kept_part es) is)) A = l2_applies (concat (map (md_part es) is)) A"
  by (induction "is" arbitrary: A) (simp_all add: kept_part_l2)

lemma length_filter_update:
  "i < length xs \<Longrightarrow> xs ! i = [] \<Longrightarrow> y \<noteq> [] \<Longrightarrow> length (filter (\<lambda>p. p \<noteq> []) (xs[i := y])) = Suc (length (filter (\<lambda>p. p \<noteq> []) xs))"
proof (induction xs arbitrary: i)
  case (Cons x xs)
  then show ?case by (cases i) auto
qed simp

lemma shows_at_unique:
  assumes "shows_at A0 P s bs" and "shows_at A0 P s bs'"
  shows "engine_levels bs = engine_levels bs'"
  using assms by (intro canon_unique) (simp_all add: shows_at_def engine_levels_canon)

lemma snapshot_l2:
  assumes "shows_at A0 P s bs" and "length ps = unat (md_parts (engine_levels bs))"
    and "\<forall>i < length ps. ps ! i = kept_part (engine_levels bs) i"
  shows "l2_applies (concat ps) l2_empty = l2_at A0 P s"
proof -
  have "ps = map (kept_part (engine_levels bs)) [0..<unat (md_parts (engine_levels bs))]"
    using assms(2,3) by (intro nth_equalityI) simp_all
  moreover have "length (engine_levels bs) \<le> 65535 * 60" using assms(1) by (simp add: shows_at_def view_ok_def)
  ultimately have "l2_applies (concat ps) l2_empty = l2_applies (engine_levels bs) l2_empty"
    using kept_parts_l2 concat_all_parts by simp
  then show ?thesis using assms(1) by (simp add: shows_at_def)
qed

section \<open>The subscriber's invariant\<close>

lemma l2_of_Nil [simp]: "l2_of [] = l2_empty"
  by (simp add: l2_of_def l2_empty_def)

lemma books_ok_Nil [simp]: "books_ok []"
  by (simp add: books_ok_def)

lemma replay_frame [simp]:
  "b_synced (replay_pending m b) = b_synced b" "b_snap_parts (replay_pending m b) = b_snap_parts b"
  "b_snap_id (replay_pending m b) = b_snap_id b" "b_snap_have (replay_pending m b) = b_snap_have b"
  by (induction m b rule: replay_pending.induct) simp_all

lemma replay_ok:
  assumes "pending_ok P n m" and "n < 2 ^ 64 - 1" and "books_ok (b_books b)" and "unat (b_seq b) \<le> n"
    and "l2_of (b_books b) = l2_at A0 P (unat (b_seq b))"
  shows "pending_ok P n (b_pending (replay_pending m b)) \<and> books_ok (b_books (replay_pending m b)) \<and>
    unat (b_seq (replay_pending m b)) \<le> n \<and> l2_of (b_books (replay_pending m b)) = l2_at A0 P (unat (b_seq (replay_pending m b)))"
  using assms
proof (induction m b rule: replay_pending.induct)
  case (2 s es m b)
  have ok: "pending_ok P n m" "unat s \<le> n" "es = P (unat s)" using "2.prems"(1) by (auto simp: pending_ok_def)
  show ?case
  proof (cases "s = b_seq b + 1")
    case True
    have "unat (b_seq b + 1) = unat (b_seq b) + 1"
      using unat_add_lem [of "b_seq b" 1] "2.prems"(2,4) by simp
    then have "unat s = Suc (unat (b_seq b))" using True by simp
    then have "l2_of (b_books (md_apply es b)) = l2_at A0 P (unat s)"
      using md_apply_ok(2) [OF "2.prems"(3), of es] "2.prems"(5) ok(3) by simp
    then show ?thesis using "2.IH" [OF True ok(1) "2.prems"(2)] md_apply_ok(1) [OF "2.prems"(3), of es] ok(2) True by simp
  next
    case False
    then show ?thesis using "2.prems" by simp
  qed
qed (simp_all add: pending_ok_def)

lemma pending_ok_Nil [simp]: "pending_ok P n []"
  by (simp add: pending_ok_def)

lemma pending_dropWhile:
  assumes "pending_ok P n m"
  shows "pending_ok P n (dropWhile Q m)"
proof -
  have "sorted_wrt (<) (map fst (dropWhile Q m))"
    using assms unfolding pending_ok_def dropWhile_eq_drop by (simp add: drop_map [symmetric] sorted_wrt_drop)
  then show ?thesis using assms set_dropWhileD [of _ Q m] by (auto simp: pending_ok_def)
qed

lemma complete_snapshot:
  assumes "n < 2 ^ 64 - 1" and "pending_ok P n (b_pending b)" and "shows_at A0 P (unat s) bs" and "unat s \<le> n"
    and "length (b_snap_parts b) = unat (md_parts (engine_levels bs))"
    and "\<forall>i < length (b_snap_parts b). b_snap_parts b ! i = kept_part (engine_levels bs) i" and "snap_ok A0 P n b"
  defines "r \<equiv> (foldl (\<lambda>b part. md_apply part b) (b\<lparr>b_books := []\<rparr>) (b_snap_parts b))"
  defines "r' \<equiv> r\<lparr>b_seq := s, b_synced := True, b_snapshots_used := b_snapshots_used r + 1\<rparr>"
  defines "q \<equiv> replay_pending (dropWhile (\<lambda>p. fst p \<le> b_seq r') (b_pending r')) r'"
  shows "mb_inv A0 P n (if b_pending q \<noteq> [] then lose_sync q else q)"
proof -
  have R: "books_ok (b_books r)" "l2_of (b_books r) = l2_at A0 P (unat s)"
    using md_applies_ok [of "b\<lparr>b_books := []\<rparr>" "b_snap_parts b"] snapshot_l2 [OF assms(3,5,6)] by (simp_all add: r_def)
  have F: "b_pending r' = b_pending b" "b_books r' = b_books r" "b_seq r' = s" by (simp_all add: r'_def r_def)
  have Q: "pending_ok P n (b_pending q)" "books_ok (b_books q)" "unat (b_seq q) \<le> n" "l2_of (b_books q) = l2_at A0 P (unat (b_seq q))"
    using replay_ok [OF pending_dropWhile [OF assms(2)] assms(1), of r' A0] R F assms(4) unfolding q_def by simp_all
  have "snap_ok A0 P n q" using assms(7) by (simp add: snap_ok_def q_def r'_def r_def)
  then show ?thesis using Q by (simp add: mb_inv_def lose_sync_def snap_ok_def)
qed

lemma on_snapshot_part_ok:
  assumes "mb_inv A0 P n b" and "n < 2 ^ 64 - 1" and "unat (m_snap_seq h) \<le> n"
    and g: "shows_at A0 P (unat (m_snap_seq h)) bs" "m_parts h = md_parts (engine_levels bs)" "m_part h < m_parts h"
      "es = md_part (engine_levels bs) (unat (m_part h))" and "\<not> b_synced b"
  shows "mb_inv A0 P n (on_snapshot_part h es b)"
proof -
  define c where "c = (if m_part h = 0 \<or> m_snap_seq h \<noteq> b_snap_id b
    then b\<lparr>b_snap_id := m_snap_seq h, b_snap_parts := replicate (unat (m_parts h)) [], b_snap_have := 0\<rparr> else b)"
  let ?i = "unat (m_part h)" and ?L = "engine_levels bs"
  have sc: "snap_ok A0 P n c"
  proof (cases "m_part h = 0 \<or> m_snap_seq h \<noteq> b_snap_id b")
    case True
    then show ?thesis using g(1,2) assms(3) unfolding snap_ok_def c_def by (auto intro!: exI [of _ bs])
  qed (use assms(1) in \<open>simp add: c_def mb_inv_def\<close>)
  have ci: "b_snap_id c = m_snap_seq h" by (simp add: c_def)
  have inv: "mb_inv A0 P n c" using assms(1,8) sc by (auto simp: mb_inv_def c_def)
  let ?skip = "?i \<ge> length (b_snap_parts c) \<or> b_snap_parts c ! ?i \<noteq> [] \<or> (m_count h = 0 \<and> m_parts h > 1)"
  define d where "d = c\<lparr>b_snap_parts := (b_snap_parts c)[?i := if es = [] then [blank_entry] else es], b_snap_have := b_snap_have c + 1\<rparr>"
  show ?thesis
  proof (cases ?skip)
    case True
    then have "on_snapshot_part h es b = c" unfolding on_snapshot_part_def Let_def c_def [symmetric] by simp
    then show ?thesis using inv by simp
  next
    case False
    then have ne: "b_snap_parts c \<noteq> []" by auto
    then obtain bs' where B: "shows_at A0 P (unat (b_snap_id c)) bs'" "length (b_snap_parts c) = unat (md_parts (engine_levels bs'))"
      "\<forall>i < length (b_snap_parts c). b_snap_parts c ! i \<noteq> [] \<longrightarrow> b_snap_parts c ! i = kept_part (engine_levels bs') i"
      "unat (b_snap_have c) = length (filter (\<lambda>p. p \<noteq> []) (b_snap_parts c))"
      using sc unfolding snap_ok_def by blast
    have L: "engine_levels bs' = ?L" using shows_at_unique [OF B(1)] g(1) ci by simp
    have e: "(if es = [] then [blank_entry] else es) = kept_part ?L ?i" by (simp add: kept_part_def g(4))
    have have1: "unat (b_snap_have d) = length (filter (\<lambda>p. p \<noteq> []) (b_snap_parts d))"
    proof -
      have "length (filter (\<lambda>p. p \<noteq> []) (b_snap_parts d)) = Suc (unat (b_snap_have c))"
        using False length_filter_update [of ?i "b_snap_parts c"] B(4) by (simp add: d_def)
      moreover have "unat (b_snap_have c) \<le> length (b_snap_parts c)" using B(4) by simp
      then have "unat (b_snap_have c) < 2 ^ 16" using B(2) unsigned_less [of "md_parts (engine_levels bs')", where 'a = nat] by simp
      then have "unat (b_snap_have c + 1) = unat (b_snap_have c) + 1" using unat_add_lem [of "b_snap_have c" 1] by simp
      ultimately show ?thesis by (simp add: d_def)
    qed
    have parts: "\<forall>i < length (b_snap_parts d). b_snap_parts d ! i \<noteq> [] \<longrightarrow> b_snap_parts d ! i = kept_part ?L i"
    proof (intro allI impI)
      fix i assume "i < length (b_snap_parts d)" "b_snap_parts d ! i \<noteq> []"
      then show "b_snap_parts d ! i = kept_part ?L i" using B(3) e L by (cases "i = ?i") (simp_all add: d_def)
    qed
    have len: "length (b_snap_parts d) = unat (md_parts ?L)" using B(2) L by (simp add: d_def)
    have sd: "snap_ok A0 P n d" using g(1) assms(3) ci len parts have1 unfolding snap_ok_def by (auto simp: d_def intro!: exI [of _ bs])
    have invd: "mb_inv A0 P n d" using inv sd assms(8) by (auto simp: mb_inv_def d_def c_def)
    show ?thesis
    proof (cases "unat (b_snap_have d) < length (b_snap_parts d)")
      case True
      then have "on_snapshot_part h es b = d"
        unfolding on_snapshot_part_def Let_def c_def [symmetric] d_def [symmetric] if_not_P [OF False] by simp
      then show ?thesis using invd by simp
    next
      case full: False
      then have "length (filter (\<lambda>p. p \<noteq> []) (b_snap_parts d)) = length (b_snap_parts d)"
        using have1 length_filter_le [of "\<lambda>p. p \<noteq> []" "b_snap_parts d"] by linarith
      then have "\<forall>p \<in> set (b_snap_parts d). p \<noteq> []"
        using length_filter_less [of _ "b_snap_parts d" "\<lambda>p. p \<noteq> []"] by fastforce
      then have all: "\<forall>i < length (b_snap_parts d). b_snap_parts d ! i = kept_part ?L i" using parts by auto
      have "pending_ok P n (b_pending d)" using invd by (simp add: mb_inv_def)
      note C = complete_snapshot [OF assms(2) this g(1) assms(3) len all sd]
      have "mb_inv A0 P n (mark_ended x) = mb_inv A0 P n x" for x by (simp add: mb_inv_def mark_ended_def snap_ok_def)
      then show ?thesis using full C unfolding on_snapshot_part_def Let_def c_def [symmetric] d_def [symmetric] if_not_P [OF False] by simp
    qed
  qed
qed

lemma mark_ended_inv [simp]: "mb_inv A0 P n (mark_ended b) = mb_inv A0 P n b"
  by (simp add: mb_inv_def mark_ended_def snap_ok_def)

lemma lose_sync_inv: "mb_inv A0 P n b \<Longrightarrow> mb_inv A0 P n (lose_sync b)"
  by (simp add: mb_inv_def lose_sync_def snap_ok_def)

lemma on_incremental_ok:
  assumes "mb_inv A0 P n b" and "n < 2 ^ 64 - 1" and "m_kind h = kIncremental" and "1 \<le> unat (m_seq h)" and "unat (m_seq h) \<le> n" and "es = P (unat (m_seq h))"
  shows "mb_inv A0 P n (on_packet h es b)"
proof -
  consider (dup) "b_synced b" "m_seq h \<le> b_seq b" | (nxt) "b_synced b" "\<not> m_seq h \<le> b_seq b" "m_seq h = b_seq b + 1"
    | (buf) "\<not> (b_synced b \<and> m_seq h \<le> b_seq b)" "\<not> (b_synced b \<and> m_seq h = b_seq b + 1)" by blast
  then show ?thesis
  proof cases
    case nxt
    have "unat (b_seq b + 1) = unat (b_seq b) + 1"
      using unat_add_lem [of "b_seq b" 1] assms(1,2) nxt(1) by (simp add: mb_inv_def)
    then have s: "unat (m_seq h) = Suc (unat (b_seq b))" using nxt(3) by simp
    have b: "books_ok (b_books b)" "l2_of (b_books b) = l2_at A0 P (unat (b_seq b))" using assms(1) nxt(1) by (simp_all add: mb_inv_def)
    have "l2_of (b_books (md_apply es b)) = l2_at A0 P (unat (m_seq h))" using md_apply_ok(2) [OF b(1)] b(2) assms(6) s by simp
    then have "mb_inv A0 P n ((md_apply es b)\<lparr>b_seq := m_seq h, b_incrementals := b_incrementals b + 1\<rparr>)"
      using assms(1,5) md_apply_ok(1) [OF b(1)] by (simp add: mb_inv_def snap_ok_def)
    moreover have "on_packet h es b = (md_apply es b)\<lparr>b_seq := m_seq h, b_incrementals := b_incrementals b + 1\<rparr>"
      using nxt assms(3) by (simp add: on_packet_def)
    ultimately show ?thesis by simp
  next
    case buf
    define c where "c = (if b_synced b then lose_sync b else b)"
    have c: "mb_inv A0 P n c" "\<not> b_synced c" using assms(1) lose_sync_inv by (auto simp: c_def lose_sync_def)
    let ?m = "om_alter (<) (m_seq h) (\<lambda>_. es) (b_pending c)"
    have srt: "sorted_wrt (<) (map fst (b_pending c))" using c by (simp add: mb_inv_def pending_ok_def)
    have "pending_ok P n ?m"
      using c(1) set_om_alter [OF srt, of "m_seq h" "\<lambda>_. es"] sorted_om_alter [OF srt] assms(4-6) unfolding pending_ok_def mb_inv_def by fastforce
    then have "mb_inv A0 P n (c\<lparr>b_pending := ?m, b_buffered_max := x\<rparr>)" for x using c by (simp add: mb_inv_def snap_ok_def)
    then show ?thesis unfolding on_packet_def Let_def c_def [symmetric] if_not_P [OF buf(1)] if_not_P [OF buf(2)] using assms(3) by simp
  qed (use assms in \<open>simp add: on_packet_def\<close>)
qed

lemma md_poll_one_ok:
  assumes "mb_inv A0 P n b" and "n < 2 ^ 64 - 1" and "genuine_md A0 P n k"
  shows "mb_inv A0 P n (md_poll_one k b)"
proof -
  let ?h = "k_header k" and ?es = "k_entries k"
  have t: "take (unat (m_count ?h)) ?es = ?es" using assms(3) by (simp add: genuine_md_def Let_def)
  have "mb_inv A0 P n (on_packet ?h ?es b)"
  proof -
    consider (inc) "m_kind ?h = kIncremental" | (hb) "m_kind ?h \<noteq> kIncremental" "m_kind ?h = kMdHeartbeat \<or> m_kind ?h = kMdEnd"
      | (snap) "m_kind ?h = kSnapshot" | (other) "m_kind ?h \<noteq> kIncremental" "m_kind ?h \<noteq> kMdHeartbeat" "m_kind ?h \<noteq> kMdEnd" "m_kind ?h \<noteq> kSnapshot"
      by blast
    then show ?thesis
    proof cases
      case inc
      then show ?thesis using assms(3) by (intro on_incremental_ok [OF assms(1,2)]) (simp_all add: genuine_md_def Let_def)
    next
      case hb
      define c where "c = (if b_synced b \<and> m_seq ?h > b_seq b then lose_sync b else b)"
      have "mb_inv A0 P n c" using assms(1) lose_sync_inv by (simp add: c_def)
      then have "mb_inv A0 P n (if m_kind ?h = kMdEnd then c\<lparr>b_end_seq := m_seq ?h, b_end_seen := True\<rparr> else c)"
        by (simp add: mb_inv_def snap_ok_def)
      then show ?thesis using hb unfolding on_packet_def Let_def c_def [symmetric] by simp
    next
      case snap
      have k: "kSnapshot \<noteq> kIncremental" "kSnapshot \<noteq> kMdHeartbeat" "kSnapshot \<noteq> kMdEnd"
        by (simp_all add: kSnapshot_def kIncremental_def kMdHeartbeat_def kMdEnd_def)
      obtain bs where g: "unat (m_snap_seq ?h) \<le> n" "shows_at A0 P (unat (m_snap_seq ?h)) bs" "m_parts ?h = md_parts (engine_levels bs)"
        "m_part ?h < m_parts ?h" "?es = md_part (engine_levels bs) (unat (m_part ?h))"
        using assms(3) snap by (auto simp: genuine_md_def Let_def)
      show ?thesis using on_snapshot_part_ok [OF assms(1,2) g] assms(1) snap k by (simp add: on_packet_def)
    qed (use assms(1) in \<open>simp add: on_packet_def\<close>)
  qed
  then show ?thesis using assms(1) by (simp add: md_poll_one_def Let_def t)
qed

lemma md_poll_ok:
  "mb_inv A0 P n b \<Longrightarrow> n < 2 ^ 64 - 1 \<Longrightarrow> \<forall>k \<in> set ks. genuine_md A0 P n k \<Longrightarrow> mb_inv A0 P n (md_poll ks b)"
  unfolding md_poll_def by (induction ks arbitrary: b) (simp_all add: md_poll_one_ok)

lemma mb_init_ok: "mb_inv A0 P n mb_init"
  by (simp add: mb_inv_def mb_init_def snap_ok_def)

section \<open>The publisher\<close>

declare flush_loop.simps [simp del]

lemma length_md_part: "length (md_part es i) \<le> 60"
  by (simp add: md_part_def kMdPerPacket_60)

lemma md_send_simps [simp]:
  "m_kind (k_header (md_send k sq sn pt ps es)) = k" "m_seq (k_header (md_send k sq sn pt ps es)) = sq"
  "m_snap_seq (k_header (md_send k sq sn pt ps es)) = sn" "m_part (k_header (md_send k sq sn pt ps es)) = pt"
  "m_parts (k_header (md_send k sq sn pt ps es)) = ps" "k_entries (md_send k sq sn pt ps es) = es"
  "m_count (k_header (md_send k sq sn pt ps es)) = of_nat (length es)"
  by (simp_all add: md_send_def)

lemma packet_count: "0 < l \<Longrightarrow> (l + 59) div 60 = Suc ((l - 60 + 59) div (60 :: nat))"
proof (cases "l \<le> 60")
  case True
  moreover assume "0 < l"
  ultimately have "(l + 59) div 60 = 1" by (intro div_nat_eqI) simp_all
  then show ?thesis using True by simp
qed (simp add: le_div_geq)

lemma flush_loop_spec:
  "flush_loop lost es p = (out, p') \<Longrightarrow>
   mp_seq p' = mp_seq p + of_nat ((length es + 59) div 60) \<and>
   (\<forall>k \<in> set out. \<exists>i < (length es + 59) div 60. k = md_send kIncremental (mp_seq p + 1 + of_nat i) 0 0 1 (md_part es i))"
proof (induction lost es p arbitrary: out p' rule: flush_loop.induct)
  case (1 lost es p)
  show ?case
  proof (cases "es = []")
    case True
    then show ?thesis using "1.prems" by (simp add: flush_loop.simps)
  next
    case False
    define q where "q = p\<lparr>mp_seq := mp_seq p + 1\<rparr>"
    define r where "r = q\<lparr>mp_dropped := (if lost (mp_packets q) then mp_dropped q + 1 else mp_dropped q), mp_packets := mp_packets q + 1,
      mp_since_snapshot := mp_since_snapshot q + 1\<rparr>"
    define o1 where "o1 = (if lost (mp_packets q) then [] else [md_send kIncremental (mp_seq q) 0 0 1 (take kMdPerPacket es)])"
    obtain o2 where f: "flush_loop lost (drop kMdPerPacket es) r = (o2, p')" and out: "out = o1 @ o2"
      using "1.prems" False unfolding flush_loop.simps [of lost es p] Let_def q_def [symmetric] r_def [symmetric] o1_def [symmetric]
      by (auto split: prod.splits)
    let ?n = "(length es + 59) div 60" and ?m = "(length (drop kMdPerPacket es) + 59) div 60"
    have n: "?n = Suc ?m" using False packet_count [of "length es"] by (simp add: kMdPerPacket_60)
    have IH: "mp_seq p' = mp_seq r + of_nat ?m \<and> (\<forall>k \<in> set o2. \<exists>i < ?m. k = md_send kIncremental (mp_seq r + 1 + of_nat i) 0 0 1 (md_part (drop kMdPerPacket es) i))"
      by (rule "1.IH" [OF False q_def refl _ r_def f]) (simp add: o1_def)
    have sr: "mp_seq r = mp_seq p + 1" "mp_seq q = mp_seq p + 1" by (simp_all add: r_def q_def)
    have md: "md_part (drop kMdPerPacket es) i = md_part es (Suc i)" for i by (simp add: md_part_def add.commute)
    have "\<exists>i < ?n. k = md_send kIncremental (mp_seq p + 1 + of_nat i) 0 0 1 (md_part es i)" if k: "k \<in> set out" for k
    proof (cases "k \<in> set o1")
      case True
      then show ?thesis by (intro exI [of _ 0]) (auto simp: o1_def n sr md_part_def split: if_splits)
    next
      case False
      then obtain i where "i < ?m" "k = md_send kIncremental (mp_seq r + 1 + of_nat i) 0 0 1 (md_part es (Suc i))"
        using IH k out md by auto
      then show ?thesis by (intro exI [of _ "Suc i"]) (simp add: n sr add.assoc)
    qed
    moreover have "mp_seq p' = mp_seq p + of_nat ?n" using IH by (simp add: n sr)
    ultimately show ?thesis by blast
  qed
qed

lemma genuine_md_mono: "genuine_md A0 P n k \<Longrightarrow> n \<le> m \<Longrightarrow> genuine_md A0 P m k"
  by (auto simp: genuine_md_def Let_def)

lemma small_count: "length es \<le> 60 \<Longrightarrow> unat (of_nat (length es) :: u16) = length es"
  by (simp add: unat_of_nat)

lemma incremental_genuine:
  assumes "unat (s :: u64) + n < 2 ^ 64 - 1" and "i < n" and "P (unat s + 1 + i) = md_part es i"
  shows "genuine_md A0 P (unat s + n) (md_send kIncremental (s + 1 + of_nat i) 0 0 1 (md_part es i))"
proof -
  have "s + 1 + of_nat i = of_nat (unat s + 1 + i)" by simp
  moreover have "unat (of_nat (unat s + 1 + i) :: u64) = unat s + 1 + i" by (rule unat_of_small) (use assms in linarith)
  ultimately have "unat (s + 1 + of_nat i) = unat s + 1 + i" by (simp only:)
  then show ?thesis using assms(2,3) small_count [OF length_md_part, of es i]
    by (simp add: genuine_md_def kIncremental_def kSnapshot_def)
qed

lemma snapshot_genuine:
  assumes "mp_snapshot engine p = (out, p')" and "shows_at A0 P (unat (mp_seq p)) engine"
  shows "\<forall>k \<in> set out. genuine_md A0 P (unat (mp_seq p)) k" "mp_seq p' = mp_seq p"
proof -
  let ?L = "engine_levels engine"
  have out: "out = map (\<lambda>i. md_send kSnapshot 0 (mp_seq p) (of_nat i) (md_parts ?L) (md_part ?L i)) [0..<unat (md_parts ?L)]"
    and "mp_seq p' = mp_seq p" using assms(1) by (auto simp: mp_snapshot_def Let_def)
  then show "mp_seq p' = mp_seq p" by simp
  show "\<forall>k \<in> set out. genuine_md A0 P (unat (mp_seq p)) k"
  proof
    fix k assume "k \<in> set out"
    then obtain i where i: "i < unat (md_parts ?L)" "k = md_send kSnapshot 0 (mp_seq p) (of_nat i) (md_parts ?L) (md_part ?L i)"
      unfolding out by auto
    have "i < 2 ^ 16" using i(1) unsigned_less [of "md_parts ?L", where 'a = nat] by simp
    then have u: "unat (of_nat i :: u16) = i" by (simp add: unat_of_nat)
    then have "(of_nat i :: u16) < md_parts ?L" unfolding word_less_nat_alt using i(1) by (simp only:)
    then show "genuine_md A0 P (unat (mp_seq p)) k"
      using assms(2) small_count [OF length_md_part, of ?L i] u unfolding i(2) genuine_md_def Let_def
      by (auto simp: kSnapshot_def kIncremental_def)
  qed
qed

lemma control_genuine_md: "k \<noteq> kIncremental \<Longrightarrow> k \<noteq> kSnapshot \<Longrightarrow> genuine_md A0 P n (md_send k sq sn pt ps [])"
  by (simp add: genuine_md_def)

lemma mp_flush_spec:
  assumes "unat (mp_seq p) + n < 2 ^ 64 - 1" and "n = (length (mp_staged p) + 59) div 60"
    and "\<forall>i < n. P (unat (mp_seq p) + 1 + i) = md_part (mp_staged p) i" and "shows_at A0 P (unat (mp_seq p) + n) engine"
    and "mp_flush lost now engine p = (out, p')"
  shows "unat (mp_seq p') = unat (mp_seq p) + n" "\<forall>k \<in> set out. genuine_md A0 P (unat (mp_seq p')) k"
proof -
  obtain o1 q where l: "flush_loop lost (mp_staged p) p = (o1, q)" by fastforce
  define sn where "sn = (if mp_every q \<noteq> 0 \<and> mp_since_snapshot q \<ge> mp_every q then mp_snapshot engine q else ([], q))"
  have p': "p' = (snd sn)\<lparr>mp_staged := [], mp_last_send_ns := now\<rparr>" and out: "out = o1 @ fst sn"
    using assms(5) l unfolding mp_flush_def sn_def by (auto split: prod.splits)
  note L = flush_loop_spec [OF l, folded assms(2)]
  have "mp_seq q = of_nat (unat (mp_seq p) + n)" using L by simp
  moreover have "unat (of_nat (unat (mp_seq p) + n) :: u64) = unat (mp_seq p) + n" by (rule unat_of_small) (use assms(1) in linarith)
  ultimately have sq: "unat (mp_seq q) = unat (mp_seq p) + n" by (simp only:)
  have sn: "\<forall>k \<in> set (fst sn). genuine_md A0 P (unat (mp_seq p) + n) k" "mp_seq (snd sn) = mp_seq q"
    using snapshot_genuine [of engine q "fst sn" "snd sn" A0 P] assms(4) unfolding sq sn_def by (simp_all split: if_splits)
  then show q: "unat (mp_seq p') = unat (mp_seq p) + n" using sq by (simp add: p')
  have "genuine_md A0 P (unat (mp_seq p) + n) k" if k: "k \<in> set o1" for k
  proof -
    obtain i where i: "i < n" "k = md_send kIncremental (mp_seq p + 1 + of_nat i) 0 0 1 (md_part (mp_staged p) i)"
      using bspec [OF conjunct2 [OF L] k] by (elim exE conjE)
    show ?thesis unfolding i(2) by (rule incremental_genuine [OF assms(1) i(1)]) (use assms(3) i(1) in simp)
  qed
  then show "\<forall>k \<in> set out. genuine_md A0 P (unat (mp_seq p')) k" using sn(1) unfolding q out by auto
qed

lemma md_run_inv:
  assumes "md_run A0 P out p"
  shows "unat (mp_seq p) < 2 ^ 64 - 1 \<and> (\<forall>k \<in> set out. genuine_md A0 P (unat (mp_seq p)) k)"
  using assms
proof induction
  case (flush out p n engine lost now out' p')
  note F = mp_flush_spec [OF flush.hyps(3,2,4,5,6)]
  have "\<forall>k \<in> set out. genuine_md A0 P (unat (mp_seq p')) k" using flush.IH genuine_md_mono unfolding F(1) by fastforce
  then show ?case using F flush.hyps(3) by auto
next
  case (heartbeat out p now iv out' p')
  then show ?case
    by (auto simp: mp_heartbeat_if_idle_def control_genuine_md kMdHeartbeat_def kIncremental_def kSnapshot_def split: if_splits)
next
  case (finish out p engine out' p')
  obtain o1 q where s: "mp_snapshot engine p = (o1, q)" by fastforce
  note S = snapshot_genuine [OF s finish.hyps(2)]
  have "p' = q" "out' = o1 @ replicate 3 (md_send kMdEnd (mp_seq q) (mp_seq q) 0 1 [])"
    using finish.hyps(3) s by (auto simp: mp_end_def)
  then show ?case using finish.IH S by (auto simp: control_genuine_md kMdEnd_def kIncremental_def kSnapshot_def)
qed (simp_all add: mp_init_def mp_level_def mp_trade_def)

section \<open>Receiving a whole snapshot\<close>

lemma part_nonempty:
  assumes "length es \<le> 65535 * 60" and "i < unat (md_parts es)" and "1 < unat (md_parts es)"
  shows "md_part es i \<noteq> []"
proof -
  have "i < (length es + 59) div 60" using assms by (simp add: unat_md_parts max_def split: if_splits)
  then have "Suc i * 60 \<le> length es + 59" using less_eq_div_iff_mult_less_eq [of 60 "Suc i" "length es + 59"] by simp
  then have "i * 60 < length es" by simp
  then show ?thesis by (simp add: md_part_def kMdPerPacket_60)
qed

lemma part_step:
  assumes "length L \<le> 65535 * 60" and "j < unat (md_parts L)" and "j = 0 \<and> \<not> b_synced b \<and> b_pending b = m \<or> 0 < j \<and> got_parts s L j m b"
  defines "k \<equiv> md_send kSnapshot 0 s (of_nat j) (md_parts L) (md_part L j)"
  shows "if Suc j < unat (md_parts L) then got_parts s L (Suc j) m (md_poll_one k b)
    else \<exists>r. b_pending r = m \<and> b_synced r \<and> b_seq r = s \<and>
      md_poll_one k b = mark_ended (mark_ended (let q = replay_pending (dropWhile (\<lambda>p. fst p \<le> b_seq r) (b_pending r)) r in
        if b_pending q \<noteq> [] then lose_sync q else q))"
proof -
  let ?n = "unat (md_parts L)" and ?h = "k_header k" and ?es = "md_part L j"
  have u: "unat (of_nat j :: u16) = j"
    using assms(2) unsigned_less [of "md_parts L", where 'a = nat] by (simp add: unat_of_nat)
  define c where "c = (if m_part ?h = 0 \<or> m_snap_seq ?h \<noteq> b_snap_id b
    then b\<lparr>b_snap_id := m_snap_seq ?h, b_snap_parts := replicate (unat (m_parts ?h)) [], b_snap_have := 0\<rparr> else b)"
  have j0: "(m_part ?h = 0) = (j = 0)" using u by (auto simp: k_def)
  have c: "got_parts s L j m c"
    using assms(3) j0 by (auto simp: c_def k_def got_parts_def)
  have i: "unat (m_part ?h) = j" by (simp add: k_def u)
  have cp: "b_snap_parts c = map (kept_part L) [0..<j] @ replicate (?n - j) []" and cs: "\<not> b_synced c" using c by (simp_all add: got_parts_def)
  have at: "b_snap_parts c ! j = []" "length (b_snap_parts c) = ?n" using assms(2) by (simp_all add: cp nth_append)
  have skip: "\<not> (unat (m_part ?h) \<ge> length (b_snap_parts c) \<or> b_snap_parts c ! unat (m_part ?h) \<noteq> [] \<or> (m_count ?h = 0 \<and> m_parts ?h > 1))"
  proof -
    have "m_count ?h \<noteq> 0" if "m_parts ?h > 1"
    proof -
      have "1 < ?n" using that by (simp add: k_def word_less_nat_alt)
      then have "0 < length ?es" using part_nonempty [OF assms(1,2)] by simp
      then have "0 < unat (of_nat (length ?es) :: u16)" using small_count [OF length_md_part, of L j] by simp
      then have "(of_nat (length ?es) :: u16) \<noteq> 0" by (metis less_irrefl unsigned_0)
      then show ?thesis by (simp add: k_def)
    qed
    then show ?thesis using at assms(2) i by auto
  qed
  define d where "d = c\<lparr>b_snap_parts := (b_snap_parts c)[unat (m_part ?h) := if ?es = [] then [blank_entry] else ?es], b_snap_have := b_snap_have c + 1\<rparr>"
  have "(if ?es = [] then [blank_entry] else ?es) = kept_part L j" by (simp add: kept_part_def)
  then have dp: "b_snap_parts d = map (kept_part L) [0..<Suc j] @ replicate (?n - Suc j) []"
    using assms(2) unfolding d_def i by (simp add: cp list_update_append replicate_Suc [symmetric] Suc_diff_Suc flip: replicate_Suc)
      (cases "?n - j"; simp)
  have "unat (b_snap_have c) = j" using c by (simp add: got_parts_def)
  moreover have "j < 2 ^ 16" using assms(2) unsigned_less [of "md_parts L", where 'a = nat] by simp
  ultimately have dh: "unat (b_snap_have d) = Suc j" using unat_add_lem [of "b_snap_have c" 1] by (simp add: d_def)
  have d: "\<not> b_synced d" "b_snap_id d = s" "b_pending d = m" using c by (simp_all add: d_def got_parts_def)
  have dl: "length (b_snap_parts d) = ?n" using assms(2) by (simp add: dp)
  have ns: "\<not> b_synced b" using assms(3) by (auto simp: got_parts_def)
  have po: "md_poll_one k b = mark_ended (on_snapshot_part ?h ?es b)"
    using ns small_count [OF length_md_part, of L j]
    by (simp add: md_poll_one_def on_packet_def k_def md_send_def Let_def kSnapshot_def kIncremental_def kMdHeartbeat_def kMdEnd_def)
  show ?thesis
  proof (cases "Suc j < ?n")
    case True
    then have "on_snapshot_part ?h ?es b = d"
      using dh dl unfolding on_snapshot_part_def Let_def c_def [symmetric] if_not_P [OF skip] d_def [symmetric] by simp
    then show ?thesis using True po d dh dp by (simp add: got_parts_def mark_ended_def)
  next
    case False
    define r where "r = (let b = foldl (\<lambda>b part. md_apply part b) (d\<lparr>b_books := []\<rparr>) (b_snap_parts d) in
      b\<lparr>b_seq := m_snap_seq ?h, b_synced := True, b_snapshots_used := b_snapshots_used b + 1\<rparr>)"
    have "\<not> unat (b_snap_have d) < length (b_snap_parts d)" using False dh dl by simp
    then have "on_snapshot_part ?h ?es b = mark_ended (let q = replay_pending (dropWhile (\<lambda>p. fst p \<le> b_seq r) (b_pending r)) r in
        if b_pending q \<noteq> [] then lose_sync q else q)"
      unfolding on_snapshot_part_def Let_def c_def [symmetric] if_not_P [OF skip] d_def [symmetric] r_def by simp
    moreover have "b_pending r = m" "b_synced r" "b_seq r = s" using d by (simp_all add: r_def Let_def k_def)
    ultimately show ?thesis using False po by auto
  qed
qed

lemma md_poll_snoc: "md_poll (ks @ [k]) b = md_poll_one k (md_poll ks b)"
  by (simp add: md_poll_def)

lemma parts_received:
  fixes s :: u64
  assumes "length L \<le> 65535 * 60" and "\<not> b_synced b" and "b_pending b = m"
  defines "pk \<equiv> \<lambda>i. md_send kSnapshot 0 s (of_nat i) (md_parts L) (md_part L i)"
  shows "0 < j \<Longrightarrow> j < unat (md_parts L) \<Longrightarrow> got_parts s L j m (md_poll (map pk [0..<j]) b)"
proof (induction j)
  case (Suc j)
  have "j = 0 \<and> \<not> b_synced (md_poll (map pk [0..<j]) b) \<and> b_pending (md_poll (map pk [0..<j]) b) = m \<or>
    0 < j \<and> got_parts s L j m (md_poll (map pk [0..<j]) b)"
    using Suc assms(2,3) by (cases "j = 0") (simp_all add: md_poll_def)
  from part_step [OF assms(1) _ this] show ?case using Suc.prems by (simp add: md_poll_snoc pk_def)
qed simp

lemma snapshot_received:
  assumes "length L \<le> 65535 * 60" and "\<not> b_synced b" and "\<forall>(k, es) \<in> set (b_pending b). k \<le> s"
  defines "pk \<equiv> \<lambda>i. md_send kSnapshot 0 s (of_nat i) (md_parts L) (md_part L i)"
  shows "b_synced (md_poll (map pk [0..<unat (md_parts L)]) b) \<and> b_seq (md_poll (map pk [0..<unat (md_parts L)]) b) = s"
proof -
  let ?n = "unat (md_parts L)" and ?m = "b_pending b"
  have n: "0 < ?n" using assms(1) by (simp add: unat_md_parts)
  define c where "c = md_poll (map pk [0..<?n - 1]) b"
  have "?n - 1 = 0 \<and> \<not> b_synced c \<and> b_pending c = ?m \<or> 0 < ?n - 1 \<and> got_parts s L (?n - 1) ?m c"
    using parts_received [OF assms(1,2) refl, of "?n - 1" s] assms(2) n unfolding c_def pk_def by (cases "?n = 1") (simp_all add: md_poll_def)
  from part_step [OF assms(1) _ this] obtain r where r: "b_pending r = ?m" "b_synced r" "b_seq r = s"
    "md_poll_one (pk (?n - 1)) c = mark_ended (mark_ended (let q = replay_pending (dropWhile (\<lambda>p. fst p \<le> b_seq r) (b_pending r)) r in
        if b_pending q \<noteq> [] then lose_sync q else q))"
    using n unfolding pk_def by auto
  have e: "dropWhile (\<lambda>p. fst p \<le> b_seq r) (b_pending r) = []" using assms(3) r(1,3) by (auto simp: dropWhile_eq_Nil_conv)
  have "md_poll_one (pk (?n - 1)) c = mark_ended (mark_ended (r\<lparr>b_pending := []\<rparr>))" using r(4) unfolding e by simp
  moreover have "[0..<?n] = [0..<?n - 1] @ [?n - 1]" using n by (metis Suc_pred' upt_Suc_append zero_le)
  ultimately have "md_poll (map pk [0..<?n]) b = mark_ended (mark_ended (r\<lparr>b_pending := []\<rparr>))"
    by (simp add: md_poll_snoc c_def)
  then show ?thesis using r(2,3) by (simp add: mark_ended_def)
qed

section \<open>Properties\<close>

lemma md_session_inv:
  assumes "md_run A0 P out p" and "\<forall>k \<in> set ks. k \<in> set out \<or> not_md k"
  shows "mb_inv A0 P (unat (mp_seq p)) (md_poll ks mb_init)"
proof -
  note R = md_run_inv [OF assms(1)]
  have "mb_inv A0 P (unat (mp_seq p)) (md_poll ks b)" if "mb_inv A0 P (unat (mp_seq p)) b" "\<forall>k \<in> set ks. k \<in> set out \<or> not_md k" for b
    using that
  proof (induction ks arbitrary: b)
    case (Cons k ks)
    have "md_poll_one k b = b" if "not_md k" using that by (auto simp: md_poll_one_def not_md_def Let_def)
    then have "mb_inv A0 P (unat (mp_seq p)) (md_poll_one k b)" using Cons.prems R md_poll_one_ok by auto
    then show ?case using Cons.IH Cons.prems(2) by (simp add: md_poll_def)
  qed (simp add: md_poll_def)
  then show ?thesis using mb_init_ok assms(2) by blast
qed

text \<open>C36. The feed never shows a wrong book. Whatever selection of the publisher's packets a subscriber has received, in
  whatever order, with repetitions and among other datagrams, if it reports to be in sync then its book is
  the publisher's book after exactly the packet whose number it reports, and its digest is that of any engine
  in that state.\<close>

theorem feed_book_exact:
  assumes "md_run A0 P out p" and "\<forall>k \<in> set ks. k \<in> set out \<or> not_md k" and "b_synced (md_poll ks mb_init)"
  shows "b_seq (md_poll ks mb_init) \<le> mp_seq p \<and>
    l2_of (b_books (md_poll ks mb_init)) = l2_at A0 P (unat (b_seq (md_poll ks mb_init))) \<and>
    (\<forall>engine. shows_at A0 P (unat (b_seq (md_poll ks mb_init))) engine \<longrightarrow> mb_digest (md_poll ks mb_init) = engine_l2_digest engine)"
proof -
  let ?b = "md_poll ks mb_init"
  have I: "books_ok (b_books ?b)" "unat (b_seq ?b) \<le> unat (mp_seq p)" "l2_of (b_books ?b) = l2_at A0 P (unat (b_seq ?b))"
    using md_session_inv [OF assms(1,2)] assms(3) by (simp_all add: mb_inv_def)
  have "book_entries (b_books ?b) = engine_levels engine" if "shows_at A0 P (unat (b_seq ?b)) engine" for engine
    using that I book_entries_l2 [OF I(1)]
    by (intro canon_unique) (simp_all add: book_entries_canon engine_levels_canon shows_at_def)
  then show ?thesis using I by (simp add: word_le_nat_alt mb_digest_def engine_l2_digest_def)
qed

lemma sample_shows: "shows_at l2_empty sample_packets 1 sample_view"
proof -
  have e: "engine_levels sample_view = sample_packets 1" by (simp add: engine_levels_def sample_view_def sample_packets_def)
  have "view_ok sample_view" unfolding view_ok_def e by (simp add: sample_view_def sample_packets_def)
  then show ?thesis unfolding shows_at_def e by simp
qed

lemma sample_staged: "md_run l2_empty sample_packets [] sample_publisher"
  unfolding sample_publisher_def by (intro md_run.level md_run.start)

lemma sample_flush:
  "md_run l2_empty sample_packets ([] @ fst (mp_flush (\<lambda>_. True) 9 sample_view sample_publisher)) (snd (mp_flush (\<lambda>_. True) 9 sample_view sample_publisher))"
proof (rule md_run.flush [OF sample_staged refl])
  show "\<forall>i < (length (mp_staged sample_publisher) + 59) div 60. sample_packets (unat (mp_seq sample_publisher) + 1 + i) = md_part (mp_staged sample_publisher) i"
    by (simp add: sample_publisher_def mp_level_def mp_init_def md_part_def kMdPerPacket_60 sample_packets_def level_entry_def)
  show "shows_at l2_empty sample_packets (unat (mp_seq sample_publisher) + (length (mp_staged sample_publisher) + 59) div 60) sample_view"
    using sample_shows by (simp add: sample_publisher_def mp_level_def mp_init_def)
  show "mp_flush (\<lambda>_. True) 9 sample_view sample_publisher = (fst (mp_flush (\<lambda>_. True) 9 sample_view sample_publisher), snd (mp_flush (\<lambda>_. True) 9 sample_view sample_publisher))"
    by simp
qed (simp add: sample_publisher_def mp_level_def mp_init_def)

text \<open>The incremental packet is lost, the snapshot behind it arrives.\<close>

theorem feed_book_exact_witness:
  "b_synced (md_poll (fst (mp_flush (\<lambda>_. True) 9 sample_view sample_publisher)) mb_init) \<and>
   mb_digest (md_poll (fst (mp_flush (\<lambda>_. True) 9 sample_view sample_publisher)) mb_init) = engine_l2_digest sample_view"
proof -
  let ?ks = "fst (mp_flush (\<lambda>_. True) 9 sample_view sample_publisher)"
  have s: "b_synced (md_poll ?ks mb_init)" "b_seq (md_poll ?ks mb_init) = 1" by code_simp+
  show ?thesis using feed_book_exact [OF sample_flush _ s(1)] s sample_shows by auto
qed

text \<open>C37. Recovery. A subscriber that is out of sync, however it came to be, is in sync at the publisher's sequence
  number once it receives the parts of the publisher's current snapshot.\<close>

theorem snapshot_resyncs:
  assumes "md_run A0 P out p" and "\<forall>k \<in> set ks. k \<in> set out \<or> not_md k" and "\<not> b_synced (md_poll ks mb_init)"
    and "view_ok engine" and "mp_snapshot engine p = (snap, p')"
  shows "b_synced (md_poll snap (md_poll ks mb_init)) \<and> b_seq (md_poll snap (md_poll ks mb_init)) = mp_seq p"
proof -
  let ?L = "engine_levels engine"
  have snap: "snap = map (\<lambda>i. md_send kSnapshot 0 (mp_seq p) (of_nat i) (md_parts ?L) (md_part ?L i)) [0..<unat (md_parts ?L)]"
    using assms(5) by (simp add: mp_snapshot_def Let_def)
  have "\<forall>(k, es) \<in> set (b_pending (md_poll ks mb_init)). k \<le> mp_seq p"
    using md_session_inv [OF assms(1,2)] by (auto simp: mb_inv_def pending_ok_def word_le_nat_alt)
  then show ?thesis unfolding snap using assms(3,4) by (intro snapshot_received) (simp_all add: view_ok_def)
qed

theorem snapshot_resyncs_witness:
  "b_synced (md_poll (fst (mp_snapshot sample_view sample_publisher)) (md_poll [] mb_init)) \<and>
   b_seq (md_poll (fst (mp_snapshot sample_view sample_publisher)) (md_poll [] mb_init)) = 0"
proof -
  have "b_synced (md_poll (fst (mp_snapshot sample_view sample_publisher)) (md_poll [] mb_init)) \<and>
    b_seq (md_poll (fst (mp_snapshot sample_view sample_publisher)) (md_poll [] mb_init)) = mp_seq sample_publisher"
    by (rule snapshot_resyncs [OF sample_staged, where engine = sample_view and p' = "snd (mp_snapshot sample_view sample_publisher)"])
      (use sample_shows in \<open>simp_all add: md_poll_def mb_init_def shows_at_def\<close>)
  then show ?thesis by (simp add: sample_publisher_def mp_level_def mp_init_def)
qed

end
