(* ===== verification/L3.thy ===== *)
theory L3
  imports Bytes Reference_Props "HOL-Library.Monad_Syntax"
begin

text \<open>
  \<^verbatim>\<open>include/exsim/l3.hpp\<close>: the order-by-order record stream, its buffered reader, and the truth book. A \<^verbatim>\<open>std::list\<close>
  node keeps its identity while its neighbours come and go: a queue is a list of numbered nodes and an iterator is
  a node's number. Dereferencing an iterator or a level that is not there is undefined in the source; the
  operations that dereference return \<open>None\<close> then.
\<close>

section \<open>Records\<close>

definition SnapOrder :: u8 where "SnapOrder = 1"
definition SnapEnd :: u8 where "SnapEnd = 2"
definition Received :: u8 where "Received = 3"
definition Open :: u8 where "Open = 4"
definition Done :: u8 where "Done = 5"
definition Match :: u8 where "Match = 6"
definition Change :: u8 where "Change = 7"

definition FundsOnly :: u8 where "FundsOnly = 1"
definition FCanceled :: u8 where "FCanceled = 2"
definition FStp :: u8 where "FStp = 4"
definition FundsChange :: u8 where "FundsChange = 8"
definition HasPrice :: u8 where "HasPrice = 16"

record Rec =
  l_seq :: u64
  l_ts :: u64
  l_id :: u64
  l_id2 :: u64
  l_px :: int
  l_px2 :: int
  l_q :: u64
  l_q2 :: u64
  l_kind :: u8
  l_side :: u8
  l_otype :: u8
  l_flags :: u8
  l_pad :: u32

definition put_Rec :: "Rec \<Rightarrow> bytes" where
  "put_Rec r = put_le 8 (l_seq r) @ put_le 8 (l_ts r) @ put_le 8 (l_id r) @ put_le 8 (l_id2 r) @ put_i64 (l_px r) @ put_i64 (l_px2 r) @
    put_le 8 (l_q r) @ put_le 8 (l_q2 r) @ [l_kind r, l_side r, l_otype r, l_flags r] @ put_le 4 (l_pad r)"

definition get_Rec :: "bytes \<Rightarrow> Rec" where
  "get_Rec p =
    \<lparr>l_seq = le_at 0 8 p, l_ts = le_at 8 8 p, l_id = le_at 16 8 p, l_id2 = le_at 24 8 p, l_px = i64_at 32 p, l_px2 = i64_at 40 p,
     l_q = le_at 48 8 p, l_q2 = le_at 56 8 p, l_kind = byte_at 64 p, l_side = byte_at 65 p, l_otype = byte_at 66 p, l_flags = byte_at 67 p,
     l_pad = le_at 68 4 p\<rparr>"

definition sizeof_Rec :: nat where "sizeof_Rec = 72"

section \<open>The reader\<close>

datatype l3_error = CannotOpen | NotExl3

text \<open>\<open>rd_rest\<close> is what the file still holds. \<^verbatim>\<open>fread\<close> returns the whole records it could read.\<close>

record Reader =
  rd_rest :: bytes
  rd_buf :: "Rec list"
  rd_pos :: nat
  rd_len :: nat
  rd_price_dec :: u32
  rd_qty_dec :: u32

definition kBatch :: nat where "kBatch = 65536"

definition exl3_magic :: bytes where "exl3_magic = [0x45, 0x58, 0x4C, 0x33]"

definition rd_open :: "bytes option \<Rightarrow> l3_error + Reader" where
  "rd_open file =
    (case file of
       None \<Rightarrow> Inl CannotOpen
     | Some hdr \<Rightarrow>
         if length hdr < 16 \<or> take 4 hdr \<noteq> exl3_magic then Inl NotExl3
         else Inr \<lparr>rd_rest = drop 16 hdr, rd_buf = [], rd_pos = 0, rd_len = 0, rd_price_dec = le_at 8 4 hdr, rd_qty_dec = le_at 12 4 hdr\<rparr>)"

definition fread_recs :: "nat \<Rightarrow> bytes \<Rightarrow> Rec list \<times> bytes" where
  "fread_recs n bs =
    (let k = min n (length bs div sizeof_Rec) in
     (map (\<lambda>i. get_Rec (drop (i * sizeof_Rec) bs)) [0..<k], if k < n then [] else drop (k * sizeof_Rec) bs))"

definition rd_next :: "Reader \<Rightarrow> Rec option \<times> Reader" where
  "rd_next r =
    (let r = (if rd_pos r = rd_len r then
                let (recs, rest) = fread_recs kBatch (rd_rest r)
                in r\<lparr>rd_buf := recs, rd_rest := rest, rd_len := length recs, rd_pos := 0\<rparr>
              else r)
     in if rd_len r = 0 then (None, r) else (Some (rd_buf r ! rd_pos r), r\<lparr>rd_pos := rd_pos r + 1\<rparr>))"

section \<open>The truth book\<close>

record TOrder =
  to_id :: OrderId
  to_qty :: Qty
  to_since :: u64

type_synonym TQueue = "(nat \<times> TOrder) list"

record TLoc =
  tl_side :: Side
  tl_px :: Price
  tl_it :: nat

text \<open>\<open>tb_node\<close> numbers the next list node; \<open>tb_where\<close> lists an unordered map.\<close>

record TruthBook =
  tb_bids :: "(Price \<times> TQueue) list"
  tb_asks :: "(Price \<times> TQueue) list"
  tb_where :: "(OrderId \<times> TLoc) list"
  tb_bid_qty :: "Price \<rightharpoonup> Qty"
  tb_ask_qty :: "Price \<rightharpoonup> Qty"
  tb_node :: nat

definition tb_clear :: "TruthBook \<Rightarrow> TruthBook" where
  "tb_clear t = t\<lparr>tb_bids := [], tb_asks := [], tb_where := [], tb_bid_qty := Map.empty, tb_ask_qty := Map.empty\<rparr>"

definition tb_empty :: TruthBook where
  "tb_empty = \<lparr>tb_bids = [], tb_asks = [], tb_where = [], tb_bid_qty = Map.empty, tb_ask_qty = Map.empty, tb_node = 0\<rparr>"

definition levels :: "Side \<Rightarrow> TruthBook \<Rightarrow> (Price \<times> TQueue) list" where
  "levels side t = (if side = Buy then tb_bids t else tb_asks t)"

definition set_levels :: "Side \<Rightarrow> (Price \<times> TQueue) list \<Rightarrow> TruthBook \<Rightarrow> TruthBook" where
  "set_levels side l t = (if side = Buy then t\<lparr>tb_bids := l\<rparr> else t\<lparr>tb_asks := l\<rparr>)"

definition totals :: "Side \<Rightarrow> TruthBook \<Rightarrow> Price \<rightharpoonup> Qty" where
  "totals side t = (if side = Buy then tb_bid_qty t else tb_ask_qty t)"

definition set_totals :: "Side \<Rightarrow> (Price \<rightharpoonup> Qty) \<Rightarrow> TruthBook \<Rightarrow> TruthBook" where
  "set_totals side m t = (if side = Buy then t\<lparr>tb_bid_qty := m\<rparr> else t\<lparr>tb_ask_qty := m\<rparr>)"

definition or_zero :: "Qty option \<Rightarrow> Qty" where
  "or_zero x = (case x of None \<Rightarrow> 0 | Some q \<Rightarrow> q)"

definition tb_add :: "OrderId \<Rightarrow> Side \<Rightarrow> Price \<Rightarrow> Qty \<Rightarrow> u64 \<Rightarrow> TruthBook \<Rightarrow> TruthBook" where
  "tb_add i side px qty ts t =
    (let n = tb_node t;
         t = set_levels side (om_alter (px_before side) px
               (\<lambda>old. (case old of None \<Rightarrow> [] | Some q \<Rightarrow> q) @ [(n, \<lparr>to_id = i, to_qty = qty, to_since = ts\<rparr>)]) (levels side t)) t;
         t = t\<lparr>tb_where := (i, \<lparr>tl_side = side, tl_px = px, tl_it = n\<rparr>) # om_erase i (tb_where t), tb_node := n + 1\<rparr>
     in set_totals side ((totals side t)(px \<mapsto> or_zero (totals side t px) + qty)) t)"

text \<open>The order a location's iterator points to.\<close>

definition deref_loc :: "TLoc \<Rightarrow> TruthBook \<Rightarrow> TOrder option" where
  "deref_loc lc t = Option.bind (map_of (levels (tl_side lc) t) (tl_px lc)) (\<lambda>q. map_of q (tl_it lc))"

definition set_qty_at :: "TLoc \<Rightarrow> Qty \<Rightarrow> TruthBook \<Rightarrow> TruthBook" where
  "set_qty_at lc qty t =
    set_levels (tl_side lc) (map (\<lambda>(px, q). (px, if px = tl_px lc then map (\<lambda>(n, x). (n, if n = tl_it lc then x\<lparr>to_qty := qty\<rparr> else x)) q else q))
      (levels (tl_side lc) t)) t"

definition tb_fill :: "OrderId \<Rightarrow> Qty \<Rightarrow> TruthBook \<Rightarrow> (bool \<times> TruthBook) option" where
  "tb_fill maker qty t =
    (case map_of (tb_where t) maker of
       None \<Rightarrow> Some (False, t)
     | Some lc \<Rightarrow>
         do { x \<leftarrow> deref_loc lc t;
              if to_qty x < qty then Some (False, t)
              else
                let t = set_qty_at lc (to_qty x - qty) t;
                    m = totals (tl_side lc) t
                in Some (True, set_totals (tl_side lc) (m(tl_px lc \<mapsto> or_zero (m (tl_px lc)) - qty)) t) })"

definition tb_level_qty :: "Side \<Rightarrow> Price \<Rightarrow> TruthBook \<Rightarrow> Qty" where
  "tb_level_qty side px t = or_zero (totals side t px)"

definition tb_for_each_level :: "Side \<Rightarrow> nat \<Rightarrow> TruthBook \<Rightarrow> (Price \<times> Qty) list option" where
  "tb_for_each_level side n t =
    those (map (\<lambda>(px, q). map_option (Pair px) (totals side t px)) (take n (levels side t)))"

definition erase_at :: "TLoc \<Rightarrow> TruthBook \<Rightarrow> TruthBook option" where
  "erase_at lc t =
    (let side = tl_side lc; px = tl_px lc in
     do { tq \<leftarrow> totals side t px;
          x \<leftarrow> deref_loc lc t;
          q \<leftarrow> map_of (levels side t) px;
          let q = filter (\<lambda>(n, x). n \<noteq> tl_it lc) q;
          let m = (totals side t)(px \<mapsto> tq - to_qty x);
          Some (if q = [] then set_totals side (m(px := None)) (set_levels side (om_erase px (levels side t)) t)
                else set_totals side m (set_levels side (om_alter (px_before side) px (\<lambda>_. q) (levels side t)) t)) })"

definition tb_remove :: "OrderId \<Rightarrow> TruthBook \<Rightarrow> TruthBook option" where
  "tb_remove i t =
    (case map_of (tb_where t) i of
       None \<Rightarrow> Some t
     | Some lc \<Rightarrow> do { t \<leftarrow> erase_at lc t; Some (t\<lparr>tb_where := om_erase i (tb_where t)\<rparr>) })"

definition tb_change :: "OrderId \<Rightarrow> Price \<Rightarrow> Qty \<Rightarrow> u64 \<Rightarrow> TruthBook \<Rightarrow> TruthBook option" where
  "tb_change i new_px new_qty ts t =
    (case map_of (tb_where t) i of
       None \<Rightarrow> Some t
     | Some lc \<Rightarrow>
         do { x \<leftarrow> deref_loc lc t;
              if new_px = tl_px lc \<and> new_qty \<le> to_qty x then
                let m = totals (tl_side lc) t;
                    t = set_totals (tl_side lc) (m(tl_px lc \<mapsto> or_zero (m (tl_px lc)) - (to_qty x - new_qty))) t
                in Some (set_qty_at lc new_qty t)
              else
                do { t \<leftarrow> erase_at lc t;
                     Some (tb_add i (tl_side lc) new_px new_qty ts (t\<lparr>tb_where := om_erase i (tb_where t)\<rparr>)) } })"

definition tb_contains :: "OrderId \<Rightarrow> TruthBook \<Rightarrow> bool" where
  "tb_contains i t \<longleftrightarrow> map_of (tb_where t) i \<noteq> None"

definition tb_find :: "OrderId \<Rightarrow> TruthBook \<Rightarrow> (Side \<times> Price \<times> TOrder option) option" where
  "tb_find i t = map_option (\<lambda>lc. (tl_side lc, tl_px lc, deref_loc lc t)) (map_of (tb_where t) i)"

definition tb_size :: "TruthBook \<Rightarrow> nat" where
  "tb_size t = length (tb_where t)"

definition tb_for_each :: "Side \<Rightarrow> TruthBook \<Rightarrow> (Price \<times> TOrder) list" where
  "tb_for_each side t = concat (map (\<lambda>(px, q). map (\<lambda>(n, x). (px, x)) q) (levels side t))"

definition tb_queue :: "Side \<Rightarrow> Price \<Rightarrow> TruthBook \<Rightarrow> TOrder list option" where
  "tb_queue side px t = map_option (map snd) (map_of (levels side t) px)"

definition tb_best :: "Side \<Rightarrow> TruthBook \<Rightarrow> Price option" where
  "tb_best side t = (case levels side t of [] \<Rightarrow> None | (px, q) # _ \<Rightarrow> Some px)"

interpretation l3rec: struct_codec 72 "\<lambda>r. i64_range (l_px r) \<and> i64_range (l_px2 r)" put_Rec get_Rec
  by unfold_locales (simp_all add: put_Rec_def get_Rec_def struct_simps)

end
