(* ===== verification/L3_Accounts.thy ===== *)
theory L3_Accounts
  imports Common "HOL-Library.AList" "HOL-Library.Monad_Syntax"
begin

text \<open>
  \<^verbatim>\<open>Accounts\<close> of \<^verbatim>\<open>tools/exsim_l3replay.cpp\<close>: the union-find over order ids that pass one fills with the evidence of
  self-trade prevention. \<^verbatim>\<open>find\<close> follows parents with path compression; nothing in its text bounds the recursion, so
  it is a partial function here, and that it returns is proved from the order of parent and child.
\<close>

section \<open>Model\<close>

type_synonym Accounts = "(OrderId \<times> OrderId) list"

partial_function (option) ac_find :: "OrderId \<Rightarrow> Accounts \<Rightarrow> (OrderId \<times> Accounts) option" where
  "ac_find x parent =
    (case map_of parent x of
       None \<Rightarrow> Some (x, parent)
     | Some p \<Rightarrow> do { rp \<leftarrow> ac_find p parent; Some (fst rp, AList.update x (fst rp) (snd rp)) })"

definition ac_link :: "OrderId \<Rightarrow> OrderId \<Rightarrow> Accounts \<Rightarrow> Accounts option" where
  "ac_link a b parent =
    do { (ra, parent) \<leftarrow> ac_find a parent;
         (rb, parent) \<leftarrow> ac_find b parent;
         Some (if ra \<noteq> rb then AList.update (max ra rb) (min ra rb) parent else parent) }"

definition ac_owner :: "OrderId \<Rightarrow> Accounts \<Rightarrow> (OwnerId \<times> Accounts) option" where
  "ac_owner i parent = do { (r, parent) \<leftarrow> ac_find i parent; Some (ucast (r AND 0xFFFFFFFF), parent) }"

definition ac_linked :: "Accounts \<Rightarrow> nat" where
  "ac_linked parent = length parent"

section \<open>Specification\<close>

text \<open>Parents are smaller than their children.\<close>

definition ac_ok :: "Accounts \<Rightarrow> bool" where
  "ac_ok parent \<longleftrightarrow> (\<forall>x p. map_of parent x = Some p \<longrightarrow> p < x)"

text \<open>The representative of an id: the end of its chain of smaller parents.\<close>

function root :: "(OrderId \<rightharpoonup> OrderId) \<Rightarrow> OrderId \<Rightarrow> OrderId" where
  "root m x = (case m x of None \<Rightarrow> x | Some p \<Rightarrow> if p < x then root m p else x)"
  by pat_completeness auto
termination by (relation "measure (\<lambda>(m, x). unat x)") (auto simp: word_less_nat_alt)

declare root.simps [simp del]

datatype ac_op = ALink OrderId OrderId | AFind OrderId

fun ac_step :: "ac_op \<Rightarrow> Accounts \<Rightarrow> Accounts option" where
  "ac_step (ALink a b) parent = ac_link a b parent"
| "ac_step (AFind a) parent = map_option snd (ac_find a parent)"

primrec ac_run :: "ac_op list \<Rightarrow> Accounts \<Rightarrow> Accounts option" where
  "ac_run [] parent = Some parent"
| "ac_run (x # xs) parent = Option.bind (ac_step x parent) (ac_run xs)"

text \<open>The evidence of a history as a relation, and being one account by it.\<close>

definition links :: "ac_op list \<Rightarrow> (OrderId \<times> OrderId) set" where
  "links xs = {(a, b). ALink a b \<in> set xs \<or> ALink b a \<in> set xs}"

definition same_root :: "Accounts \<Rightarrow> OrderId \<Rightarrow> OrderId \<Rightarrow> bool" where
  "same_root parent x y \<longleftrightarrow> root (map_of parent) x = root (map_of parent) y"

section \<open>Representatives\<close>

lemma root_None: "m x = None \<Longrightarrow> root m x = x"
  by (subst root.simps) simp

lemma root_Some: "m x = Some p \<Longrightarrow> p < x \<Longrightarrow> root m x = root m p"
  by (subst root.simps) simp

text \<open>Induction along the chain of an id.\<close>

lemma chain_induct [consumes 1, case_names root child]:
  assumes ok: "ac_ok parent"
    and "\<And>x. map_of parent x = None \<Longrightarrow> P x"
    and "\<And>x p. map_of parent x = Some p \<Longrightarrow> p < x \<Longrightarrow> P p \<Longrightarrow> P x"
  shows "P x"
proof (induction x rule: measure_induct_rule [of unat])
  case (less x)
  show ?case
  proof (cases "map_of parent x")
    case (Some p)
    then have "p < x" using ok by (simp add: ac_ok_def)
    then show ?thesis using assms(3) [OF Some] less by (simp add: word_less_nat_alt)
  qed (rule assms(2))
qed

lemma root_is_root: "ac_ok parent \<Longrightarrow> map_of parent (root (map_of parent) x) = None \<and> root (map_of parent) x \<le> x"
  by (induction x rule: chain_induct) (auto simp: root_None root_Some)

lemma root_of_root: "ac_ok parent \<Longrightarrow> root (map_of parent) (root (map_of parent) x) = root (map_of parent) x"
  using root_is_root root_None by blast

text \<open>Path compression moves no id to another representative.\<close>

lemma root_compress:
  assumes ok: "ac_ok parent" and x: "map_of parent x = Some p"
  shows "ac_ok (AList.update x (root (map_of parent) x) parent)"
    "root (map_of (AList.update x (root (map_of parent) x) parent)) y = root (map_of parent) y"
proof -
  let ?r = "root (map_of parent) x" and ?m = "AList.update x (root (map_of parent) x) parent"
  have "p < x" using ok x by (simp add: ac_ok_def)
  then have r: "?r < x" "map_of parent ?r = None" using root_is_root [OF ok, of p] root_is_root [OF ok, of x] root_Some [of "map_of parent", OF x] by auto
  show ok': "ac_ok ?m" using ok r(1) by (simp add: ac_ok_def update_conv')
  have rr: "root (map_of ?m) ?r = ?r" using r by (intro root_None) (simp add: update_conv')
  show "root (map_of ?m) y = root (map_of parent) y" using ok
  proof (induction y rule: chain_induct)
    case (root y)
    then have "map_of ?m y = None" using x by (auto simp: update_conv')
    then show ?case using root_None [of "map_of ?m" y] root_None [of "map_of parent" y, OF root] by metis
  next
    case (child y q)
    show ?case
    proof (cases "y = x")
      case True
      have "root (map_of ?m) x = root (map_of ?m) ?r" by (rule root_Some) (simp_all add: update_conv' r(1))
      then show ?thesis using rr True by metis
    next
      case False
      then show ?thesis using child root_Some [of "map_of ?m" y q] by (simp add: update_conv' root_Some)
    qed
  qed
qed

lemma root_join:
  assumes ok: "ac_ok parent" and hi: "map_of parent hi = None" and lo: "map_of parent lo = None" and "lo < hi"
  shows "ac_ok (AList.update hi lo parent)"
    "root (map_of (AList.update hi lo parent)) y = (if root (map_of parent) y = hi then lo else root (map_of parent) y)"
proof -
  let ?m = "AList.update hi lo parent"
  show "ac_ok ?m" using ok assms(4) by (simp add: ac_ok_def update_conv')
  have rlo: "root (map_of ?m) lo = lo" using lo assms(4) by (intro root_None) (simp add: update_conv')
  have rhi: "root (map_of ?m) hi = lo" using root_Some [of "map_of ?m" hi lo] assms(4) rlo by (simp add: update_conv')
  show "root (map_of ?m) y = (if root (map_of parent) y = hi then lo else root (map_of parent) y)" using ok
  proof (induction y rule: chain_induct)
    case (root y)
    have "root (map_of ?m) y = y" if "y \<noteq> hi" using root that by (intro root_None) (simp add: update_conv')
    then show ?case using rhi root_None [of "map_of parent" y, OF root] by metis
  next
    case (child y q)
    then have "y \<noteq> hi" using hi by auto
    then show ?case using child root_Some [of "map_of ?m" y q] by (simp add: update_conv' root_Some)
  qed
qed

section \<open>Operations\<close>

lemma ac_find_ok:
  assumes "ac_ok parent"
  shows "\<exists>parent'. ac_find x parent = Some (root (map_of parent) x, parent') \<and> ac_ok parent' \<and> same_root parent' = same_root parent \<and>
    root (map_of parent') = root (map_of parent)"
  using assms
proof (induction x rule: chain_induct)
  case (root x)
  then show ?case using assms root_None [of "map_of parent" x, OF root] by (subst ac_find.simps) simp
next
  case (child x p)
  let ?r = "root (map_of parent) x"
  obtain m where m: "ac_find p parent = Some (?r, m)" "ac_ok m" "root (map_of m) = root (map_of parent)"
    using child by (auto simp: root_Some)
  have "map_of m x \<noteq> None"
  proof
    assume "map_of m x = None"
    then have "?r = x" using m(3) root_None [of "map_of m" x] by simp
    then show False using child root_is_root [OF assms, of p] by (simp add: root_Some)
  qed
  then obtain q where q: "map_of m x = Some q" by blast
  show ?case by (subst ac_find.simps) (use child(1) m root_compress [OF m(2) q] in \<open>simp add: same_root_def fun_eq_iff\<close>)
qed

lemma ac_link_ok:
  assumes "ac_ok parent"
  shows "\<exists>parent'. ac_link a b parent = Some parent' \<and> ac_ok parent' \<and>
    (\<forall>x y. same_root parent' x y \<longleftrightarrow> same_root parent x y \<or>
       same_root parent x a \<and> same_root parent b y \<or> same_root parent x b \<and> same_root parent a y)"
proof -
  let ?ra = "root (map_of parent) a" and ?rb = "root (map_of parent) b"
  obtain m1 where m1: "ac_find a parent = Some (?ra, m1)" "ac_ok m1" "root (map_of m1) = root (map_of parent)"
    using ac_find_ok [OF assms] by metis
  obtain m2 where m2: "ac_find b m1 = Some (?rb, m2)" "ac_ok m2" "root (map_of m2) = root (map_of parent)"
    using ac_find_ok [OF m1(2)] m1(3) by metis
  note roots = root_is_root [OF m2(2), unfolded m2(3)]
  show ?thesis
  proof (cases "?ra = ?rb")
    case True
    then show ?thesis using m1(1) m2 by (auto simp: ac_link_def same_root_def)
  next
    case False
    let ?hi = "max ?ra ?rb" and ?lo = "min ?ra ?rb"
    have "map_of m2 ?hi = None" "map_of m2 ?lo = None" "?lo < ?hi" using roots [of a] roots [of b] False by (auto simp: max_def min_def)
    note j = root_join [OF m2(2) this]
    have "ac_link a b parent = Some (AList.update ?hi ?lo m2)" using m1(1) m2(1) False by (simp add: ac_link_def)
    moreover have "same_root (AList.update ?hi ?lo m2) x y \<longleftrightarrow> same_root parent x y \<or>
       same_root parent x a \<and> same_root parent b y \<or> same_root parent x b \<and> same_root parent a y" for x y
      unfolding same_root_def j(2) m2(3) using False by (auto simp: max_def min_def)
    ultimately show ?thesis using j(1) by blast
  qed
qed

section \<open>Classes\<close>

lemma links_simps: "links [] = {}" "links (ALink a b # xs) = insert (a, b) (insert (b, a) (links xs))" "links (AFind a # xs) = links xs"
  by (auto simp: links_def)

text \<open>Joining two classes of an equivalence is closing it under one more pair.\<close>

lemma rtrancl_join:
  assumes "sym E"
  shows "(x, y) \<in> (insert (a, b) (insert (b, a) E))\<^sup>* \<longleftrightarrow>
    (x, y) \<in> E\<^sup>* \<or> (x, a) \<in> E\<^sup>* \<and> (b, y) \<in> E\<^sup>* \<or> (x, b) \<in> E\<^sup>* \<and> (a, y) \<in> E\<^sup>*" (is "?l \<longleftrightarrow> ?r")
proof
  have s: "(u, v) \<in> E\<^sup>* \<Longrightarrow> (v, u) \<in> E\<^sup>*" for u v using sym_rtrancl [OF assms] by (simp add: sym_def)
  show ?r if ?l using that
  proof (induction rule: rtrancl_induct)
    case (step y z)
    show ?case using step(2)
    proof (elim insertE)
      assume "(y, z) \<in> E"
      then show ?thesis using step(3) by (meson rtrancl.rtrancl_into_rtrancl)
    qed (use step(3) s in \<open>auto intro: rtrancl_trans\<close>)
  qed simp
next
  let ?F = "insert (a, b) (insert (b, a) E)"
  have m: "(u, v) \<in> E\<^sup>* \<Longrightarrow> (u, v) \<in> ?F\<^sup>*" for u v using rtrancl_mono [of E ?F] by blast
  have "(a, b) \<in> ?F\<^sup>*" "(b, a) \<in> ?F\<^sup>*" by blast+
  then show ?l if ?r using that m by (meson rtrancl_trans)
qed

lemma sym_links: "sym (links xs)"
  by (auto simp: links_def sym_def)

lemma ac_run_ok:
  "ac_ok parent \<Longrightarrow> sym E \<Longrightarrow> (\<And>x y. same_root parent x y \<longleftrightarrow> (x, y) \<in> E\<^sup>*) \<Longrightarrow>
   \<exists>parent'. ac_run xs parent = Some parent' \<and> ac_ok parent' \<and> (\<forall>x y. same_root parent' x y \<longleftrightarrow> (x, y) \<in> (links xs \<union> E)\<^sup>*)"
proof (induction xs arbitrary: parent E)
  case Nil
  then show ?case by (simp add: links_simps)
next
  case (Cons z xs)
  show ?case
  proof (cases z)
    case (ALink a b)
    obtain m where m: "ac_link a b parent = Some m" "ac_ok m" "\<And>x y. same_root m x y \<longleftrightarrow> same_root parent x y \<or>
       same_root parent x a \<and> same_root parent b y \<or> same_root parent x b \<and> same_root parent a y"
      using ac_link_ok [OF Cons.prems(1)] by blast
    let ?F = "insert (a, b) (insert (b, a) E)"
    have "sym ?F" using Cons.prems(2) by (auto simp: sym_def)
    moreover have "same_root m x y \<longleftrightarrow> (x, y) \<in> ?F\<^sup>*" for x y unfolding m(3) rtrancl_join [OF Cons.prems(2)] Cons.prems(3) ..
    moreover have "links (z # xs) \<union> E = links xs \<union> ?F" by (auto simp: ALink links_simps)
    ultimately show ?thesis using Cons.IH [OF m(2), of ?F] m(1) by (simp add: ALink)
  next
    case (AFind a)
    then show ?thesis using ac_find_ok [OF Cons.prems(1), of a] Cons.IH [of _ E] Cons.prems(2,3) by (auto simp: links_simps)
  qed
qed

section \<open>Properties\<close>

text \<open>
  C39: over any history of links and finds the structure stays sound: every \<^verbatim>\<open>find\<close> returns, two ids have the same
  representative exactly when the evidence connects them, and the representative is a member of the class no greater than
  the id, so the owner of an id that was never linked is taken from the id itself.
\<close>

theorem accounts_are_classes:
  "\<exists>parent. ac_run xs [] = Some parent \<and>
    (\<forall>x y. \<exists>rx ry p p'. ac_find x parent = Some (rx, p) \<and> ac_find y parent = Some (ry, p') \<and>
       (rx = ry \<longleftrightarrow> (x, y) \<in> (links xs)\<^sup>*) \<and> rx \<le> x \<and> (x, rx) \<in> (links xs)\<^sup>* \<and>
       ac_owner x parent = Some (ucast (rx AND 0xFFFFFFFF), p))"
proof -
  have "root Map.empty = id" by (simp add: fun_eq_iff root_None)
  then obtain m where m: "ac_run xs [] = Some m" "ac_ok m" "\<And>x y. same_root m x y \<longleftrightarrow> (x, y) \<in> (links xs)\<^sup>*"
    using ac_run_ok [of "[]" "{}" xs] by (auto simp: ac_ok_def sym_def same_root_def)
  have "\<exists>rx ry p p'. ac_find x m = Some (rx, p) \<and> ac_find y m = Some (ry, p') \<and> (rx = ry \<longleftrightarrow> (x, y) \<in> (links xs)\<^sup>*) \<and>
      rx \<le> x \<and> (x, rx) \<in> (links xs)\<^sup>* \<and> ac_owner x m = Some (ucast (rx AND 0xFFFFFFFF), p)" for x y
  proof -
    let ?r = "root (map_of m)"
    obtain p where p: "ac_find x m = Some (?r x, p)" using ac_find_ok [OF m(2)] by blast
    obtain p' where p': "ac_find y m = Some (?r y, p')" using ac_find_ok [OF m(2)] by blast
    have "?r x = ?r y \<longleftrightarrow> (x, y) \<in> (links xs)\<^sup>*" "(x, ?r x) \<in> (links xs)\<^sup>*"
      using m(3) [of x y] m(3) [of x "?r x"] root_of_root [OF m(2), of x] unfolding same_root_def by simp_all
    then show ?thesis using p p' root_is_root [OF m(2), of x] by (simp add: ac_owner_def)
  qed
  then show ?thesis using m(1) by blast
qed

end
