(* ===== verification/L3_Inference.thy ===== *)
theory L3_Inference
  imports L3 L3_Accounts
begin

text \<open>
  Pass one of \<^verbatim>\<open>tools/exsim_l3replay.cpp\<close>: the class \<^verbatim>\<open>Inference\<close>, which gathers each order's lifecycle and the evidence
  of self-trade prevention, and keeps a truth book of its own. An id without an entry in \<open>in_life\<close> reads as
  a fresh \<open>Life\<close>, which is also what \<^verbatim>\<open>operator[]\<close> puts there. \<open>None\<close> is undefined behaviour (a dangling
  iterator, a missing level, an endless \<^verbatim>\<open>find\<close>).
\<close>

section \<open>Records\<close>

record Life =
  lf_opened :: bool
  lf_changed :: bool
  lf_taker_filled :: Qty
  lf_stp_cancelled :: Qty
  lf_stp :: Stp

definition new_Life :: Life where
  "new_Life = \<lparr>lf_opened = False, lf_changed = False, lf_taker_filled = 0, lf_stp_cancelled = 0, lf_stp = StpNone\<rparr>"

definition life_at :: "(OrderId \<rightharpoonup> Life) \<Rightarrow> OrderId \<Rightarrow> Life" where
  "life_at m i = (case m i of None \<Rightarrow> new_Life | Some l \<Rightarrow> l)"

definition rec_side :: "Rec \<Rightarrow> Side" where
  "rec_side r = (if l_side r \<noteq> 0 then Sell else Buy)"

definition has_flag :: "u8 \<Rightarrow> Rec \<Rightarrow> bool" where
  "has_flag f r \<longleftrightarrow> l_flags r AND f \<noteq> 0"

record Inference =
  in_life :: "OrderId \<rightharpoonup> Life"
  in_accounts :: Accounts
  in_links :: u64
  in_cn_links :: u64
  in_cb_orders :: u64
  in_book :: TruthBook
  in_loading :: bool
  in_synced :: bool
  in_snap_seq :: u64
  in_last_seq :: u64
  in_pre :: "Rec list"
  in_block :: OrderId
  in_block_side :: Side
  in_block_px :: Price
  in_block_market :: bool
  in_block_funds :: bool
  in_block_filled :: Qty
  in_block_cancelled_own :: bool
  in_block_traded_after_cancel :: bool

definition in_init :: Inference where
  "in_init =
    \<lparr>in_life = Map.empty, in_accounts = [], in_links = 0, in_cn_links = 0, in_cb_orders = 0, in_book = tb_empty, in_loading = False,
     in_synced = False, in_snap_seq = 0, in_last_seq = 0, in_pre = [], in_block = 0, in_block_side = Buy, in_block_px = 0,
     in_block_market = False, in_block_funds = False, in_block_filled = 0, in_block_cancelled_own = False, in_block_traded_after_cancel = False\<rparr>"

section \<open>Lifecycle facts\<close>

definition upd_life :: "OrderId \<Rightarrow> (Life \<Rightarrow> Life) \<Rightarrow> Inference \<Rightarrow> Inference" where
  "upd_life i f st = st\<lparr>in_life := (in_life st)(i \<mapsto> f (life_at (in_life st) i))\<rparr>"

definition in_begin_block :: "Rec \<Rightarrow> Inference \<Rightarrow> Inference" where
  "in_begin_block r st = st\<lparr>in_block := l_id r, in_block_side := rec_side r, in_block_px := l_px r, in_block_market := (l_otype r = 1),
     in_block_funds := has_flag FundsOnly r, in_block_filled := 0, in_block_cancelled_own := False, in_block_traded_after_cancel := False\<rparr>"

definition in_mark :: "Stp \<Rightarrow> Inference \<Rightarrow> Inference" where
  "in_mark md st = upd_life (in_block st) (\<lambda>l. if lf_stp l \<noteq> DecrementCancel then l\<lparr>lf_stp := md\<rparr> else l) st"

definition in_link :: "OrderId \<Rightarrow> Inference \<Rightarrow> Inference option" where
  "in_link i st = do { acc \<leftarrow> ac_link (in_block st) i (in_accounts st); Some (st\<lparr>in_accounts := acc, in_links := in_links st + 1\<rparr>) }"

text \<open>A cancelled arrival that traded: is there liquidity left that it could have taken?\<close>

definition in_cancel_newest :: "Inference \<Rightarrow> Inference option" where
  "in_cancel_newest st =
    (let opp = opposite (in_block_side st) in
     case tb_best opp (in_book st) of
       None \<Rightarrow> Some st
     | Some best \<Rightarrow>
         if (in_block_market st \<or> (if in_block_side st = Buy then best \<le> in_block_px st else best \<ge> in_block_px st)) then
           (case tb_queue opp best (in_book st) of
              Some (front # _) \<Rightarrow>
                do { st \<leftarrow> in_link (to_id front) st;
                     let st = st\<lparr>in_cn_links := in_cn_links st + 1\<rparr>;
                     Some (if lf_stp (life_at (in_life st) (in_block st)) = StpNone
                           then upd_life (in_block st) (\<lambda>l. l\<lparr>lf_stp := CancelIncoming\<rparr>) st else st) }
            | _ \<Rightarrow> Some st)
         else Some st)"

definition in_evidence :: "Rec \<Rightarrow> Inference \<Rightarrow> Inference option" where
  "in_evidence r st =
    (if l_kind r = Open then Some (upd_life (l_id r) (\<lambda>l. l\<lparr>lf_opened := True\<rparr>) st)
     else if l_kind r = Match then
       let st = upd_life (l_id r) (\<lambda>l. l\<lparr>lf_taker_filled := lf_taker_filled l + l_q r\<rparr>) st
       in Some (if l_id r = in_block st then
                  st\<lparr>in_block_filled := in_block_filled st + l_q r,
                     in_block_traded_after_cancel := (in_block_cancelled_own st \<or> in_block_traded_after_cancel st)\<rparr>
                else st)
     else if l_kind r = Change then
       let st = upd_life (l_id r) (\<lambda>l. l\<lparr>lf_changed := True\<rparr>) st
       in if has_flag FStp r \<and> in_block st \<noteq> 0 then
            do { st \<leftarrow> (if l_id r \<noteq> in_block st then in_link (l_id r) st else Some st); Some (in_mark DecrementCancel st) }
          else Some st
     else if l_kind r = Done \<and> in_block st \<noteq> 0 \<and> l_id r \<noteq> in_block st \<and> has_flag FCanceled r then
       do { st \<leftarrow> in_link (l_id r) st;
            let st = in_mark CancelResting st;
            let st = upd_life (in_block st) (\<lambda>l. l\<lparr>lf_stp_cancelled := lf_stp_cancelled l + l_q r\<rparr>) st;
            Some (st\<lparr>in_block_cancelled_own := True\<rparr>) }
     else if l_kind r = Done \<and> l_id r = in_block st \<and> has_flag FCanceled r \<and> l_q r > 0 \<and>
             lf_stp (life_at (in_life st) (in_block st)) = CancelResting \<and> in_block_cancelled_own st \<and> \<not> in_block_traded_after_cancel st then
       Some ((upd_life (in_block st) (\<lambda>l. l\<lparr>lf_stp := CancelIncoming\<rparr>) st)\<lparr>in_cb_orders := in_cb_orders st + 1\<rparr>)
     else if l_kind r = Done \<and> l_id r = in_block st \<and> has_flag FCanceled r \<and> in_block_filled st > 0 \<and> \<not> in_block_funds st \<and>
             l_q r > 0 \<and> in_synced st \<and> l_seq r = in_last_seq st + 1 then
       in_cancel_newest st
     else Some st)"

definition in_facts :: "Rec \<Rightarrow> Inference \<Rightarrow> Inference option" where
  "in_facts r st =
    do { let st = (if l_kind r = Received then in_begin_block r st else st);
         st \<leftarrow> in_evidence r st;
         Some (if (l_kind r = Open \<or> l_kind r = Done) \<and> l_id r = in_block st then st\<lparr>in_block := 0\<rparr> else st) }"

section \<open>The book of pass one\<close>

text \<open>A message of the feed applied literally to a truth book; \<open>ts\<close> is what the caller records as the time of rest.\<close>

definition book_msg :: "u64 \<Rightarrow> Rec \<Rightarrow> TruthBook \<Rightarrow> TruthBook option" where
  "book_msg ts r t =
    (if l_kind r = Open then Some (tb_add (l_id r) (rec_side r) (l_px r) (l_q r) ts t)
     else if l_kind r = Match then map_option snd (tb_fill (l_id2 r) (l_q r) t)
     else if l_kind r = Done then tb_remove (l_id r) t
     else if l_kind r = Change then
       (if \<not> has_flag FundsChange r then
          (case tb_find (l_id r) t of
             None \<Rightarrow> Some t
           | Some (side, old_px, _) \<Rightarrow> tb_change (l_id r) (if l_px r \<noteq> 0 then l_px r else old_px) (l_q r) ts t)
        else Some t)
     else Some t)"

definition in_apply :: "Rec \<Rightarrow> Inference \<Rightarrow> Inference option" where
  "in_apply r st = do { t \<leftarrow> book_msg (l_seq r) r (in_book st); Some (st\<lparr>in_last_seq := l_seq r, in_book := t\<rparr>) }"

primrec for_each :: "('a \<Rightarrow> 's \<Rightarrow> 's option) \<Rightarrow> 'a list \<Rightarrow> 's \<Rightarrow> 's option" where
  "for_each f [] s = Some s"
| "for_each f (x # xs) s = Option.bind (f x s) (for_each f xs)"

text \<open>\<^verbatim>\<open>std::sort\<close> by sequence number; the file order stands for the order it leaves among equal numbers.\<close>

definition in_snap_end :: "Rec \<Rightarrow> Inference \<Rightarrow> Inference option" where
  "in_snap_end r st =
    (let early = sort_key l_seq (in_pre st);
         st = st\<lparr>in_loading := False, in_synced := True, in_snap_seq := l_seq r, in_last_seq := l_seq r, in_pre := []\<rparr>
     in for_each in_apply (filter (\<lambda>e. l_seq e > in_snap_seq st) early) st)"

definition in_on :: "Rec \<Rightarrow> Inference \<Rightarrow> Inference option" where
  "in_on r st =
    (if l_kind r = SnapOrder then
       (if in_synced st then Some st
        else
          let st = (if \<not> in_loading st then st\<lparr>in_book := tb_clear (in_book st), in_loading := True\<rparr> else st)
          in Some (st\<lparr>in_book := tb_add (l_id r) (rec_side r) (l_px r) (l_q r) 0 (in_book st)\<rparr>))
     else if l_kind r = SnapEnd then
       (if in_synced st then Some st else in_snap_end r st)
     else
       do { st \<leftarrow> in_facts r st;
            if \<not> in_synced st then Some (st\<lparr>in_pre := in_pre st @ [r]\<rparr>)
            else if l_seq r \<le> in_snap_seq st then Some st
            else if l_seq r \<noteq> in_last_seq st + 1 then Some (st\<lparr>in_synced := False, in_pre := in_pre st @ [r]\<rparr>)
            else in_apply r st })"

end
