(* ===== verification/L3_Replay.thy ===== *)
theory L3_Replay
  imports L3_Inference Order_Book
begin

text \<open>
  Pass two of \<^verbatim>\<open>tools/exsim_l3replay.cpp\<close>: the class \<^verbatim>\<open>Replay\<close>, which runs the matching engine beside the truth book, scores
  each arrival's predicted trades against the exchange's, and repairs the engine from the truth book after a
  divergence. The engine is the model of \<^verbatim>\<open>OrderBook<AosStore>\<close>; printing and the trace ring are left out. \<open>rp_emit\<close> is what
  \<^verbatim>\<open>--emit-commands\<close> records. \<open>None\<close> is undefined behaviour.
\<close>

section \<open>State\<close>

record EpTrade =
  et_maker :: OrderId
  et_px :: Price
  et_qty :: Qty

record Stats =
  s_records :: u64
  s_received :: u64
  s_received_market :: u64
  s_funds_derived :: u64
  s_post_only_inferred :: u64
  s_ioc_inferred :: u64
  s_out_of_band :: u64
  s_cancels :: u64
  s_modifies :: u64
  s_stp_changes :: u64
  s_episodes :: u64
  s_trading_episodes :: u64
  s_exact :: u64
  s_mismatched :: u64
  s_mismatched_stp :: u64
  s_cb_matches :: u64
  s_matched_exact :: u64
  s_rest_checked :: u64
  s_rest_mismatch :: u64
  s_book_checks :: u64
  s_book_check_failures :: u64
  s_rebuilds :: u64
  s_repairs :: u64
  s_gaps :: u64
  s_truth_errors :: u64
  s_resyncs :: u64
  s_abandoned :: u64
  s_unreplayed :: u64
  s_unmatched_fill_done :: u64
  s_unmatched_fill_qty :: u64
  s_orphan_matches :: u64
  s_clamped :: u64
  s_fill_modifies :: u64
  s_modify_out_of_band :: u64
  s_stp_orders :: u64

definition new_Stats :: Stats where
  "new_Stats =
    \<lparr>s_records = 0, s_received = 0, s_received_market = 0, s_funds_derived = 0, s_post_only_inferred = 0, s_ioc_inferred = 0, s_out_of_band = 0,
     s_cancels = 0, s_modifies = 0, s_stp_changes = 0, s_episodes = 0, s_trading_episodes = 0, s_exact = 0, s_mismatched = 0,
     s_mismatched_stp = 0, s_cb_matches = 0, s_matched_exact = 0, s_rest_checked = 0, s_rest_mismatch = 0, s_book_checks = 0,
     s_book_check_failures = 0, s_rebuilds = 0, s_repairs = 0, s_gaps = 0, s_truth_errors = 0, s_resyncs = 0, s_abandoned = 0,
     s_unreplayed = 0, s_unmatched_fill_done = 0, s_unmatched_fill_qty = 0, s_orphan_matches = 0, s_clamped = 0, s_fill_modifies = 0,
     s_modify_out_of_band = 0, s_stp_orders = 0\<rparr>"

definition kLevels :: nat where "kLevels = 2 ^ 24"
definition kMaxOrders :: nat where "kMaxOrders = 2 ^ 21"

type_synonym engine = "AosOrder list OrderBook"

datatype emit_line = EmitConfig BookConfig | EmitCommand Command

record Replay =
  rp_life :: "OrderId \<rightharpoonup> Life"
  rp_accounts :: Accounts
  rp_stp :: bool
  rp_check_every :: u64
  rp_drop_cancel_every :: u64
  rp_cancel_count :: u64
  rp_truth :: TruthBook
  rp_engine :: "engine option"
  rp_emit :: "emit_line list"
  rp_min_px :: Price
  rp_loading_snap :: bool
  rp_synced :: bool
  rp_need_rebuild :: bool
  rp_snap_seq :: u64
  rp_last_seq :: u64
  ep_active :: bool
  ep_stp :: bool
  ep_rest_known :: bool
  ep_taker_rested :: bool
  ep_taker :: OrderId
  ep_seq :: u64
  ep_pred :: "EpTrade list"
  ep_actual :: "EpTrade list"
  ep_taker_px :: Price
  rp_pre_snapshot :: "Rec list"
  rp_repair_px :: "Price list"
  rp_modify_fills :: "OrderId \<rightharpoonup> EpTrade list"
  rp_last_check :: u64
  rp_pending_check :: bool
  rp_st :: Stats

definition rp_init :: "(OrderId \<rightharpoonup> Life) \<Rightarrow> Accounts \<Rightarrow> bool \<Rightarrow> u64 \<Rightarrow> u64 \<Rightarrow> Replay" where
  "rp_init lf acc stp check_every drop_every =
    \<lparr>rp_life = lf, rp_accounts = acc, rp_stp = stp, rp_check_every = check_every, rp_drop_cancel_every = drop_every, rp_cancel_count = 0,
     rp_truth = tb_empty, rp_engine = None, rp_emit = [], rp_min_px = 0, rp_loading_snap = False, rp_synced = False, rp_need_rebuild = False,
     rp_snap_seq = 0, rp_last_seq = 0, ep_active = False, ep_stp = False, ep_rest_known = False, ep_taker_rested = False, ep_taker = 0,
     ep_seq = 0, ep_pred = [], ep_actual = [], ep_taker_px = 0, rp_pre_snapshot = [], rp_repair_px = [], rp_modify_fills = Map.empty,
     rp_last_check = 0, rp_pending_check = False, rp_st = new_Stats\<rparr>"

definition stat :: "(Stats \<Rightarrow> Stats) \<Rightarrow> Replay \<Rightarrow> Replay" where
  "stat f st = st\<lparr>rp_st := f (rp_st st)\<rparr>"

definition rp_ok :: "Replay \<Rightarrow> bool" where
  "rp_ok st \<longleftrightarrow> s_mismatched (rp_st st) = s_mismatched_stp (rp_st st) \<and> s_book_check_failures (rp_st st) = 0 \<and> rp_synced st"

section \<open>Commands to the engine\<close>

definition new_order :: "OrderId \<Rightarrow> Side \<Rightarrow> Price \<Rightarrow> Qty \<Rightarrow> OwnerId \<Rightarrow> Command" where
  "new_order i side px qty own =
    \<lparr>c_order_id = i, c_price = px, c_seq = 0, c_ts = 0, c_qty = qty, c_owner = own, c_symbol = 0, c_type = NewOrder, c_side = side,
     c_ord_type = Limit, c_tif = Day, c_flags = 0\<rparr>"

definition cancel_order :: "OrderId \<Rightarrow> Command" where
  "cancel_order i = (new_order i Buy 0 0 0)\<lparr>c_type := Cancel\<rparr>"

definition modify_order :: "OrderId \<Rightarrow> Price \<Rightarrow> Qty \<Rightarrow> Command" where
  "modify_order i px qty = (new_order i Buy px qty 0)\<lparr>c_type := Modify\<rparr>"

definition make_engine :: "Replay \<Rightarrow> Replay option" where
  "make_engine st =
    (let cfg = \<lparr>cfg_min_price = 0, cfg_num_levels = kLevels, cfg_max_orders = kMaxOrders, cfg_stp = (if rp_stp st then CancelResting else StpNone)\<rparr> in
     do { e \<leftarrow> ob_init AosStore locality_fingerprint 0 cfg;
          Some (st\<lparr>rp_engine := Some e, rp_min_px := cfg_min_price cfg, rp_emit := rp_emit st @ [EmitConfig cfg]\<rparr>) })"

definition eng :: "(Command \<Rightarrow> engine \<Rightarrow> (engine \<times> Event list) option) \<Rightarrow> Command \<Rightarrow> Replay \<Rightarrow> (Event list \<times> Replay) option" where
  "eng f c st =
    do { e \<leftarrow> rp_engine st;
         (e, ev) \<leftarrow> f c e;
         Some (ev, st\<lparr>rp_engine := Some e, rp_emit := rp_emit st @ [EmitCommand c]\<rparr>) }"

definition eng_add :: "Command \<Rightarrow> Replay \<Rightarrow> (Event list \<times> Replay) option" where
  "eng_add = eng (ob_add AosStore)"

definition eng_cancel :: "Command \<Rightarrow> Replay \<Rightarrow> (Event list \<times> Replay) option" where
  "eng_cancel = eng (ob_cancel AosStore)"

definition eng_modify :: "Command \<Rightarrow> Replay \<Rightarrow> (Event list \<times> Replay) option" where
  "eng_modify = eng (ob_modify AosStore)"

definition rp_owner :: "OrderId \<Rightarrow> Replay \<Rightarrow> (OwnerId \<times> Replay) option" where
  "rp_owner i st = do { (own, acc) \<leftarrow> ac_owner i (rp_accounts st); Some (own, st\<lparr>rp_accounts := acc\<rparr>) }"

definition in_band :: "Price \<Rightarrow> Replay \<Rightarrow> bool" where
  "in_band px st \<longleftrightarrow> px \<ge> rp_min_px st \<and> px < rp_min_px st + int kLevels"

text \<open>A loop whose steps send events to one sink.\<close>

primrec collect :: "('a \<Rightarrow> 's \<Rightarrow> ('e list \<times> 's) option) \<Rightarrow> 'a list \<Rightarrow> 's \<Rightarrow> ('e list \<times> 's) option" where
  "collect f [] s = Some ([], s)"
| "collect f (x # xs) s = do { (ev, s) \<leftarrow> f x s; (ev', s) \<leftarrow> collect f xs s; Some (ev @ ev', s) }"

section \<open>Repair from the truth book\<close>

definition cancel_id :: "OrderId \<Rightarrow> Replay \<Rightarrow> (Event list \<times> Replay) option" where
  "cancel_id i = eng_cancel (cancel_order i)"

definition seed_order :: "Side \<Rightarrow> Price \<times> TOrder \<Rightarrow> Replay \<Rightarrow> (Event list \<times> Replay) option" where
  "seed_order s po st =
    (case po of (px, x) \<Rightarrow>
     if to_qty x = 0 \<or> \<not> in_band px st then Some ([], st)
     else do { (own, st) \<leftarrow> rp_owner (to_id x) st; eng_add (new_order (to_id x) s px (to_qty x) own) st })"

definition rebuild_from_truth :: "Replay \<Rightarrow> Replay option" where
  "rebuild_from_truth st =
    do { let st = stat (\<lambda>s. s\<lparr>s_rebuilds := s_rebuilds s + 1\<rparr>) st;
         e \<leftarrow> rp_engine st;
         bids \<leftarrow> ob_for_each_order AosStore Buy e;
         asks \<leftarrow> ob_for_each_order AosStore Sell e;
         (_, st) \<leftarrow> collect cancel_id (map (\<lambda>(px, i, q). i) (bids @ asks)) st;
         (_, st) \<leftarrow> collect (\<lambda>s st. collect (seed_order s) (tb_for_each s (rp_truth st)) st) [Buy, Sell] st;
         Some st }"

definition clear_level :: "Price \<Rightarrow> Replay \<Rightarrow> (Event list \<times> Replay) option" where
  "clear_level px st =
    do { e \<leftarrow> rp_engine st;
         xs \<leftarrow> ob_for_each_order_at AosStore px e;
         collect cancel_id (map fst xs) st }"

definition restore_order :: "Side \<Rightarrow> Price \<Rightarrow> TOrder \<Rightarrow> Replay \<Rightarrow> (Event list \<times> Replay) option" where
  "restore_order s px x st =
    (if to_qty x = 0 then Some ([], st)
     else
       do { e \<leftarrow> rp_engine st;
            present \<leftarrow> ob_contains AosStore (to_id x) e;
            (ev, st) \<leftarrow> (if present then cancel_id (to_id x) st else Some ([], st));
            (own, st) \<leftarrow> rp_owner (to_id x) st;
            (ev', st) \<leftarrow> eng_add (new_order (to_id x) s px (to_qty x) own) st;
            Some (ev @ ev', st) })"

definition restore_level :: "Price \<Rightarrow> Replay \<Rightarrow> (Event list \<times> Replay) option" where
  "restore_level px st =
    (if \<not> in_band px st then Some ([], st)
     else collect (\<lambda>s st. case tb_queue s px (rp_truth st) of None \<Rightarrow> Some ([], st) | Some q \<Rightarrow> collect (restore_order s px) q st) [Buy, Sell] st)"

definition repair_levels :: "Price list \<Rightarrow> Replay \<Rightarrow> (bool \<times> Replay) option" where
  "repair_levels pxs st =
    do { let st = stat (\<lambda>s. s\<lparr>s_repairs := s_repairs s + 1\<rparr>) st;
         (ev, st) \<leftarrow> collect clear_level pxs st;
         (ev', st) \<leftarrow> collect restore_level pxs st;
         Some (\<forall>e \<in> set (ev @ ev'). e_type e \<noteq> Trade, st) }"

definition truth_listing :: "Side \<Rightarrow> Replay \<Rightarrow> (Price \<times> OrderId \<times> Qty) list" where
  "truth_listing s st = map (\<lambda>(px, x). (px, to_id x, to_qty x)) (filter (\<lambda>(px, x). to_qty x \<noteq> 0 \<and> in_band px st) (tb_for_each s (rp_truth st)))"

definition books_equal :: "Replay \<Rightarrow> bool option" where
  "books_equal st =
    do { e \<leftarrow> rp_engine st;
         bids \<leftarrow> ob_for_each_order AosStore Buy e;
         if bids \<noteq> truth_listing Buy st then Some False
         else do { asks \<leftarrow> ob_for_each_order AosStore Sell e; Some (asks = truth_listing Sell st) } }"

definition full_check :: "Replay \<Rightarrow> Replay option" where
  "full_check st =
    do { let st = stat (\<lambda>s. s\<lparr>s_book_checks := s_book_checks s + 1\<rparr>) st;
         eq \<leftarrow> books_equal st;
         if \<not> eq then rebuild_from_truth (stat (\<lambda>s. s\<lparr>s_book_check_failures := s_book_check_failures s + 1\<rparr>) st) else Some st }"

section \<open>Episodes\<close>

fun common_prefix :: "'a list \<Rightarrow> 'a list \<Rightarrow> nat" where
  "common_prefix (x # xs) (y # ys) = (if x = y then Suc (common_prefix xs ys) else 0)"
| "common_prefix _ _ = 0"

definition abandon_episode :: "Replay \<Rightarrow> Replay" where
  "abandon_episode st =
    (if \<not> ep_active st then st
     else stat (\<lambda>s. s\<lparr>s_episodes := s_episodes s - 1, s_abandoned := s_abandoned s + 1\<rparr>) (st\<lparr>ep_active := False\<rparr>))"

definition trade_prices :: "EpTrade list \<Rightarrow> Price list" where
  "trade_prices ts = filter (\<lambda>p. p \<ge> 0) (map et_px ts)"

definition close_episode :: "Replay \<Rightarrow> Replay" where
  "close_episode st =
    (if \<not> ep_active st then st
     else
       let st = st\<lparr>ep_active := False\<rparr>;
           st = (if ep_pred st \<noteq> [] \<or> ep_actual st \<noteq> [] then stat (\<lambda>s. s\<lparr>s_trading_episodes := s_trading_episodes s + 1\<rparr>) st else st);
           st = stat (\<lambda>s. s\<lparr>s_cb_matches := s_cb_matches s + of_nat (length (ep_actual st))\<rparr>) st;
           same = (ep_pred st = ep_actual st);
           k = (if same then length (ep_actual st) else common_prefix (ep_pred st) (ep_actual st));
           st = stat (\<lambda>s. s\<lparr>s_matched_exact := s_matched_exact s + of_nat k\<rparr>) st
       in if same then stat (\<lambda>s. s\<lparr>s_exact := s_exact s + 1\<rparr>) st
          else
            let st = stat (\<lambda>s. s\<lparr>s_mismatched := s_mismatched s + 1\<rparr>) st;
                st = (if ep_stp st then stat (\<lambda>s. s\<lparr>s_mismatched_stp := s_mismatched_stp s + 1\<rparr>) st else st)
            in st\<lparr>rp_repair_px := rp_repair_px st @ trade_prices (ep_pred st) @ trade_prices (ep_actual st) @
                    (if ep_taker_px st \<noteq> 0 then [ep_taker_px st] else []),
                  rp_need_rebuild := True\<rparr>)"

definition predicted :: "Event list \<Rightarrow> EpTrade list" where
  "predicted ev = map (\<lambda>e. \<lparr>et_maker = e_maker_id e, et_px = e_price e, et_qty = e_qty e\<rparr>) (filter (\<lambda>e. e_type e = Trade) ev)"

definition open_episode :: "OrderId \<Rightarrow> Event list \<Rightarrow> bool \<Rightarrow> Replay \<Rightarrow> Replay" where
  "open_episode taker ev known st =
    (let st = close_episode st;
         st = st\<lparr>ep_active := True, ep_taker := taker, ep_pred := predicted ev, ep_actual := [], ep_stp := False, ep_taker_rested := False,
                 ep_rest_known := known\<rparr>
     in stat (\<lambda>s. s\<lparr>s_episodes := s_episodes s + 1\<rparr>) st)"

definition in_episode :: "Rec \<Rightarrow> Replay \<Rightarrow> bool" where
  "in_episode r st \<longleftrightarrow>
    (if \<not> ep_active st then False
     else if l_kind r = Match then l_id r = ep_taker st \<and> \<not> ep_taker_rested st
     else if l_kind r = Done \<or> l_kind r = Open then True
     else if l_kind r = Change then has_flag FStp r
     else False)"

section \<open>Arrivals and modifies\<close>

definition clamp_px :: "Price \<Rightarrow> Replay \<Rightarrow> Price" where
  "clamp_px px st = (if px < rp_min_px st then rp_min_px st else rp_min_px st + int kLevels - 1)"

text \<open>The command an arrival becomes, or \<open>None\<close> when it rests outside the band.\<close>

definition market_command :: "Rec \<Rightarrow> Life \<Rightarrow> Command \<Rightarrow> Replay \<Rightarrow> Command \<times> Replay" where
  "market_command r info c st =
    (let st = stat (\<lambda>s. s\<lparr>s_received_market := s_received_market s + 1\<rparr>) st;
         c = c\<lparr>c_ord_type := Market, c_qty := l_q r\<rparr>
     in if has_flag FundsOnly r then
          (c\<lparr>c_qty := lf_taker_filled info + (if lf_stp info = DecrementCancel then lf_stp_cancelled info else 0)\<rparr>,
           stat (\<lambda>s. s\<lparr>s_funds_derived := s_funds_derived s + 1\<rparr>) st)
        else (c, st))"

definition limit_command :: "Rec \<Rightarrow> Life \<Rightarrow> Command \<Rightarrow> Replay \<Rightarrow> Command option \<times> Replay" where
  "limit_command r info c st =
    (let c = c\<lparr>c_ord_type := Limit, c_price := l_px r, c_qty := l_q r\<rparr> in
     if \<not> in_band (l_px r) st \<and> lf_opened info then (None, stat (\<lambda>s. s\<lparr>s_out_of_band := s_out_of_band s + 1\<rparr>) st)
     else
       let (c, st) = (if \<not> in_band (l_px r) st then (c\<lparr>c_price := clamp_px (l_px r) st\<rparr>, stat (\<lambda>s. s\<lparr>s_clamped := s_clamped s + 1\<rparr>) st) else (c, st))
       in if lf_opened info then (Some c, st)
          else if lf_taker_filled info = 0 \<and> \<not> lf_changed info then
            (Some (c\<lparr>c_flags := c_flags c OR kFlagPostOnly, c_tif := Ioc\<rparr>), stat (\<lambda>s. s\<lparr>s_post_only_inferred := s_post_only_inferred s + 1\<rparr>) st)
          else (Some (c\<lparr>c_tif := Ioc\<rparr>), stat (\<lambda>s. s\<lparr>s_ioc_inferred := s_ioc_inferred s + 1\<rparr>) st))"

definition arrival_command :: "Rec \<Rightarrow> Side \<Rightarrow> OwnerId \<Rightarrow> Replay \<Rightarrow> Command option \<times> Replay" where
  "arrival_command r side own st =
    (let info = life_at (rp_life st) (l_id r);
         c = new_order (l_id r) side 0 0 own;
         (c, st) = (if lf_stp info \<noteq> StpNone
                    then (c\<lparr>c_flags := c_flags c OR stp_flag (lf_stp info)\<rparr>, stat (\<lambda>s. s\<lparr>s_stp_orders := s_stp_orders s + 1\<rparr>) st) else (c, st))
     in if l_otype r = 1 then map_prod Some id (market_command r info c st) else limit_command r info c st)"

definition on_received :: "Rec \<Rightarrow> Side \<Rightarrow> Replay \<Rightarrow> Replay option" where
  "on_received r side st =
    do { let st = stat (\<lambda>s. s\<lparr>s_received := s_received s + 1\<rparr>) st;
         (own, st) \<leftarrow> rp_owner (l_id r) st;
         case arrival_command r side own st of
           (None, st) \<Rightarrow> Some st
         | (Some c, st) \<Rightarrow>
             if c_qty c = 0 then Some ((open_episode (l_id r) [] False st)\<lparr>ep_seq := l_seq r\<rparr>)
             else
               do { (ev, st) \<leftarrow> eng_add c st;
                    Some ((open_episode (l_id r) ev True st)\<lparr>ep_seq := l_seq r, ep_taker_px := (if c_ord_type c = Limit then c_price c else 0)\<rparr>) } }"

definition modify_command :: "OrderId \<Rightarrow> Side \<Rightarrow> Price \<Rightarrow> Qty \<Rightarrow> Replay \<Rightarrow> (Event list \<times> Replay) option" where
  "modify_command i side px qty st =
    (if \<not> in_band px st then
       do { (_, st) \<leftarrow> eng_cancel (cancel_order i) (stat (\<lambda>s. s\<lparr>s_modify_out_of_band := s_modify_out_of_band s + 1\<rparr>) st); Some ([], st) }
     else
       do { e \<leftarrow> rp_engine st;
            present \<leftarrow> ob_contains AosStore i e;
            if \<not> present then do { (own, st) \<leftarrow> rp_owner i st; eng_add (new_order i side px qty own) st }
            else eng_modify (modify_order i px qty) st })"

definition modify_episode :: "OrderId \<Rightarrow> Side \<Rightarrow> Price \<Rightarrow> Price \<Rightarrow> Qty \<Rightarrow> u64 \<Rightarrow> Replay \<Rightarrow> Replay option" where
  "modify_episode i side new_px old_px remainder sq st =
    do { let fills = (case rp_modify_fills st i of None \<Rightarrow> [] | Some f \<Rightarrow> f);
         let st = st\<lparr>rp_modify_fills := (rp_modify_fills st)(i := None)\<rparr>;
         let filled = sum_list (map et_qty fills);
         let (px, st) = (if \<not> in_band new_px st \<and> remainder = 0 \<and> filled > 0
                         then (clamp_px new_px st, stat (\<lambda>s. s\<lparr>s_clamped := s_clamped s + 1\<rparr>) st) else (new_px, st));
         (ev, st) \<leftarrow> modify_command i side px (remainder + filled) st;
         let st = (open_episode i ev True st)\<lparr>ep_actual := fills\<rparr>;
         (_, st) \<leftarrow> (if remainder = 0 then eng_cancel (cancel_order i) st else Some ([], st));
         Some (st\<lparr>ep_seq := sq, ep_taker_px := px, rp_repair_px := rp_repair_px st @ [old_px]\<rparr>) }"

definition on_change :: "Rec \<Rightarrow> Replay \<Rightarrow> Replay option" where
  "on_change r st =
    (if has_flag FundsChange r then Some st
     else
       case tb_find (l_id r) (rp_truth st) of
         None \<Rightarrow> Some st
       | Some (side, old_px, _) \<Rightarrow>
           let new_px = (if l_px r \<noteq> 0 then l_px r else old_px) in
           do { t \<leftarrow> tb_change (l_id r) new_px (l_q r) (l_ts r) (rp_truth st);
                let st = st\<lparr>rp_truth := t\<rparr>;
                if has_flag FStp r then
                  do { let st = stat (\<lambda>s. s\<lparr>s_stp_changes := s_stp_changes s + 1\<rparr>) st;
                       let st = (if ep_active st then st\<lparr>ep_stp := True\<rparr> else st);
                       (_, st) \<leftarrow> eng_modify (modify_order (l_id r) new_px (l_q r)) st;
                       Some st }
                else
                  modify_episode (l_id r) side new_px old_px (l_q r) (l_seq r) (stat (\<lambda>s. s\<lparr>s_modifies := s_modifies s + 1\<rparr>) st) })"

section \<open>Messages\<close>

definition on_open :: "Rec \<Rightarrow> Side \<Rightarrow> Replay \<Rightarrow> Replay option" where
  "on_open r side st =
    do { let st = st\<lparr>rp_truth := tb_add (l_id r) side (l_px r) (l_q r) (l_ts r) (rp_truth st)\<rparr>;
         let st = (if ep_active st \<and> l_id r = ep_taker st then st\<lparr>ep_taker_rested := True\<rparr> else st);
         if ep_active st \<and> l_id r = ep_taker st \<and> in_band (l_px r) st then
           do { let st = stat (\<lambda>s. s\<lparr>s_rest_checked := s_rest_checked s + 1\<rparr>) st;
                e \<leftarrow> rp_engine st;
                v \<leftarrow> ob_find_order AosStore (l_id r) e;
                Some (if (case v of None \<Rightarrow> True | Some w \<Rightarrow> ov_qty w \<noteq> l_q r \<or> ov_price w \<noteq> l_px r) then
                        let st = stat (\<lambda>s. s\<lparr>s_rest_mismatch := s_rest_mismatch s + 1\<rparr>) st
                        in if ep_pred st = ep_actual st then st\<lparr>ep_actual := ep_actual st @ [\<lparr>et_maker = 0, et_px = - 1, et_qty = 0\<rparr>]\<rparr> else st
                      else st) }
         else Some st }"

text \<open>A resting order reported filled with size its matches leave: the engine drops the remainder too.\<close>

definition drop_unmatched :: "OrderId \<Rightarrow> Replay \<Rightarrow> Replay option" where
  "drop_unmatched i st =
    (case tb_find i (rp_truth st) of
       None \<Rightarrow> Some st
     | Some (_, _, x) \<Rightarrow>
         do { x \<leftarrow> x;
              if to_qty x > 0 then
                do { let st = stat (\<lambda>s. s\<lparr>s_unmatched_fill_done := s_unmatched_fill_done s + 1,
                                          s_unmatched_fill_qty := s_unmatched_fill_qty s + to_qty x\<rparr>) st;
                     (_, st) \<leftarrow> eng_cancel (cancel_order i) st;
                     Some st }
              else Some st })"

definition cancel_resting :: "OrderId \<Rightarrow> Replay \<Rightarrow> Replay option" where
  "cancel_resting i st =
    do { let st = stat (\<lambda>s. s\<lparr>s_cancels := s_cancels s + 1\<rparr>) st;
         let st = (if ep_active st \<and> i \<noteq> ep_taker st \<and> ep_actual st \<noteq> [] then st\<lparr>ep_stp := True\<rparr> else st);
         if rp_drop_cancel_every st = 0 then do { (_, st) \<leftarrow> eng_cancel (cancel_order i) st; Some st }
         else
           do { let st = st\<lparr>rp_cancel_count := rp_cancel_count st + 1\<rparr>;
                if rp_cancel_count st mod rp_drop_cancel_every st \<noteq> 0 then do { (_, st) \<leftarrow> eng_cancel (cancel_order i) st; Some st }
                else Some st } }"

definition on_done :: "Rec \<Rightarrow> Replay \<Rightarrow> Replay option" where
  "on_done r st =
    do { let fill_modify = (rp_modify_fills st (l_id r) \<noteq> None);
         st \<leftarrow> (if fill_modify then
                  let (mside, old_px) = (case tb_find (l_id r) (rp_truth st) of None \<Rightarrow> (Buy, 0) | Some (s, p, _) \<Rightarrow> (s, p));
                      st = stat (\<lambda>s. s\<lparr>s_modifies := s_modifies s + 1, s_fill_modifies := s_fill_modifies s + 1\<rparr>) st
                  in modify_episode (l_id r) mside (l_px r) old_px 0 (l_seq r) st
                else Some st);
         let was_resting = tb_contains (l_id r) (rp_truth st);
         st \<leftarrow> (if \<not> has_flag FCanceled r \<and> was_resting \<and> \<not> fill_modify then drop_unmatched (l_id r) st else Some st);
         t \<leftarrow> tb_remove (l_id r) (rp_truth st);
         let st = st\<lparr>rp_truth := t\<rparr>;
         if has_flag FCanceled r \<and> was_resting then cancel_resting (l_id r) st else Some st }"

definition on_match :: "Rec \<Rightarrow> Replay \<Rightarrow> Replay option" where
  "on_match r st =
    do { (ok, t) \<leftarrow> tb_fill (l_id2 r) (l_q r) (rp_truth st);
         let st = st\<lparr>rp_truth := t\<rparr>;
         let st = (if ok then st else stat (\<lambda>s. s\<lparr>s_truth_errors := s_truth_errors s + 1\<rparr>) st);
         let x = \<lparr>et_maker = l_id2 r, et_px = l_px r, et_qty = l_q r\<rparr>;
         Some (if ep_active st \<and> l_id r = ep_taker st then st\<lparr>ep_actual := ep_actual st @ [x]\<rparr>
               else if tb_contains (l_id r) (rp_truth st) then
                 st\<lparr>rp_modify_fills := (rp_modify_fills st)(l_id r \<mapsto> (case rp_modify_fills st (l_id r) of None \<Rightarrow> [] | Some f \<Rightarrow> f) @ [x])\<rparr>
               else stat (\<lambda>s. s\<lparr>s_orphan_matches := s_orphan_matches s + 1\<rparr>) st) }"

text \<open>The repair and the whole-book check that run before an arrival or a modify touches either book.\<close>

definition starts_episode :: "Rec \<Rightarrow> bool" where
  "starts_episode r \<longleftrightarrow> l_kind r = Received \<or> l_kind r = Change \<and> \<not> has_flag FStp r"

definition repair_pending :: "Rec \<Rightarrow> Replay \<Rightarrow> Replay option" where
  "repair_pending r st =
    (if rp_need_rebuild st \<and> starts_episode r then
       do { (ok, st) \<leftarrow> repair_levels (remdups_adj (sort (rp_repair_px st))) (st\<lparr>rp_need_rebuild := False\<rparr>);
            st \<leftarrow> (if \<not> ok then rebuild_from_truth st else Some st);
            Some (st\<lparr>rp_repair_px := []\<rparr>) }
     else Some st)"

definition check_pending :: "Rec \<Rightarrow> Replay \<Rightarrow> Replay option" where
  "check_pending r st = (if rp_pending_check st \<and> starts_episode r then full_check (st\<lparr>rp_pending_check := False\<rparr>) else Some st)"

definition dispatch :: "Rec \<Rightarrow> Replay \<Rightarrow> Replay option" where
  "dispatch r st =
    (let side = rec_side r in
     if l_kind r = Received then on_received r side st
     else if l_kind r = Open then on_open r side st
     else if l_kind r = Done then on_done r st
     else if l_kind r = Match then on_match r st
     else if l_kind r = Change then on_change r st
     else Some st)"

definition lose_feed :: "Rec \<Rightarrow> Replay \<Rightarrow> Replay" where
  "lose_feed r st =
    (let st = abandon_episode (stat (\<lambda>s. s\<lparr>s_gaps := s_gaps s + 1\<rparr>) st)
     in st\<lparr>rp_modify_fills := Map.empty, rp_need_rebuild := False, rp_repair_px := [], rp_synced := False,
           rp_pre_snapshot := rp_pre_snapshot st @ [r]\<rparr>)"

definition on_msg :: "Rec \<Rightarrow> Replay \<Rightarrow> Replay option" where
  "on_msg r st =
    (if \<not> rp_synced st then Some (st\<lparr>rp_pre_snapshot := rp_pre_snapshot st @ [r]\<rparr>)
     else if l_seq r \<le> rp_snap_seq st then Some st
     else if l_seq r \<noteq> rp_last_seq st + 1 then Some (lose_feed r st)
     else
       do { let st = st\<lparr>rp_last_seq := l_seq r\<rparr>;
            let st = (if \<not> in_episode r st then close_episode st else st);
            st \<leftarrow> repair_pending r st;
            st \<leftarrow> check_pending r st;
            st \<leftarrow> dispatch r st;
            Some (if rp_check_every st \<noteq> 0 \<and> s_records (rp_st st) - rp_last_check st \<ge> rp_check_every st \<and> l_kind r = Received
                  then st\<lparr>rp_last_check := s_records (rp_st st), rp_pending_check := True\<rparr> else st) })"

definition on_snap_order :: "Rec \<Rightarrow> Replay \<Rightarrow> Replay" where
  "on_snap_order r st =
    (if rp_synced st then st
     else
       let st = (if \<not> rp_loading_snap st then st\<lparr>rp_truth := tb_clear (rp_truth st), rp_loading_snap := True\<rparr> else st)
       in st\<lparr>rp_truth := tb_add (l_id r) (rec_side r) (l_px r) (l_q r) (l_ts r) (rp_truth st)\<rparr>)"

text \<open>
  The buffered messages are fed back to \<^verbatim>\<open>on\<close>; a snapshot record is never buffered, so the part of \<^verbatim>\<open>on\<close> behind the
  snapshot cases is what they reach. The mid price reads both touches and adds them in 64 bits; nothing uses it.
\<close>

definition on_snap_end :: "Rec \<Rightarrow> Replay \<Rightarrow> Replay option" where
  "on_snap_end r st =
    (if rp_synced st then Some st
     else
       do { let resync = (rp_snap_seq st \<noteq> 0);
            let st = st\<lparr>rp_loading_snap := False, rp_synced := True, rp_snap_seq := l_seq r, rp_last_seq := l_seq r\<rparr>;
            bid \<leftarrow> tb_best Buy (rp_truth st);
            ask \<leftarrow> tb_best Sell (rp_truth st);
            _ \<leftarrow> checked_i64 (bid + ask);
            st \<leftarrow> make_engine st;
            st \<leftarrow> rebuild_from_truth st;
            let st = stat (\<lambda>s. s\<lparr>s_rebuilds := s_rebuilds s - 1\<rparr>) st;
            let st = (if resync then stat (\<lambda>s. s\<lparr>s_resyncs := s_resyncs s + 1\<rparr>) st else st);
            let early = sort_key l_seq (rp_pre_snapshot st);
            let used = filter (\<lambda>e. l_seq e > rp_snap_seq st) early;
            st \<leftarrow> for_each on_msg used (st\<lparr>rp_pre_snapshot := []\<rparr>);
            Some (stat (\<lambda>s. s\<lparr>s_unreplayed := s_unreplayed s + of_nat (length early - length used)\<rparr>) st) })"

definition rp_on :: "Rec \<Rightarrow> Replay \<Rightarrow> Replay option" where
  "rp_on r st =
    (if l_kind r = SnapOrder then Some (on_snap_order r st)
     else if l_kind r = SnapEnd then on_snap_end r st
     else on_msg r st)"

fun rp_loop :: "u64 \<Rightarrow> Rec list \<Rightarrow> Replay \<Rightarrow> Replay option" where
  "rp_loop max_records [] st = Some st"
| "rp_loop max_records (r # rs) st =
    (if max_records \<noteq> 0 \<and> s_records (rp_st st) \<ge> max_records then Some st
     else do { st \<leftarrow> rp_on r (stat (\<lambda>s. s\<lparr>s_records := s_records s + 1\<rparr>) st); rp_loop max_records rs st })"

definition rp_run :: "u64 \<Rightarrow> Rec list \<Rightarrow> Replay \<Rightarrow> Replay option" where
  "rp_run max_records rs st = map_option close_episode (rp_loop max_records rs st)"

section \<open>The tool\<close>

text \<open>\<^verbatim>\<open>main\<close>: pass one over the file, then pass two with the lifecycles and accounts it inferred.\<close>

definition pass_one :: "u64 \<Rightarrow> Rec list \<Rightarrow> Inference option" where
  "pass_one max_records rs = for_each in_on (if max_records \<noteq> 0 then take (unat max_records) rs else rs) in_init"

definition l3replay :: "bool \<Rightarrow> u64 \<Rightarrow> u64 \<Rightarrow> u64 \<Rightarrow> Rec list \<Rightarrow> Replay option" where
  "l3replay stp check_every drop_every max_records rs =
    do { inf \<leftarrow> pass_one max_records rs;
         rp_run max_records rs (rp_init (in_life inf) (in_accounts inf) stp check_every drop_every) }"

end
