(* ===== verification/L3_Properties.thy ===== *)
theory L3_Properties
  imports L3
begin

text \<open>
  The truth book's contract: abstractly it is the queue of orders at every side and price. Every operation, over any
  sequence in which an id is not opened twice while live, does to the queues what its message says; no iterator
  dangles, and the level totals and the touch are those of the queues.
\<close>

section \<open>Specification\<close>

type_synonym abook = "Side \<Rightarrow> Price \<Rightarrow> TOrder list"

datatype l3_op = LAdd OrderId Side Price Qty u64 | LFill OrderId Qty | LRemove OrderId | LChange OrderId Price Qty u64

definition tb_abs :: "TruthBook \<Rightarrow> abook" where
  "tb_abs t side px = (case map_of (levels side t) px of None \<Rightarrow> [] | Some q \<Rightarrow> map snd q)"

definition ab_add :: "OrderId \<Rightarrow> Side \<Rightarrow> Price \<Rightarrow> Qty \<Rightarrow> u64 \<Rightarrow> abook \<Rightarrow> abook" where
  "ab_add i side px qty ts A = A(side := (A side)(px := A side px @ [\<lparr>to_id = i, to_qty = qty, to_since = ts\<rparr>]))"

definition ab_remove :: "OrderId \<Rightarrow> abook \<Rightarrow> abook" where
  "ab_remove i A = (\<lambda>s p. filter (\<lambda>x. to_id x \<noteq> i) (A s p))"

definition ab_set :: "OrderId \<Rightarrow> (TOrder \<Rightarrow> TOrder) \<Rightarrow> abook \<Rightarrow> abook" where
  "ab_set i f A = (\<lambda>s p. map (\<lambda>x. if to_id x = i then f x else x) (A s p))"

definition ab_live :: "OrderId \<Rightarrow> abook \<Rightarrow> bool" where
  "ab_live i A \<longleftrightarrow> (\<exists>s p. i \<in> to_id ` set (A s p))"

text \<open>A size decrease at the same price keeps the place in the queue, any other change moves to the back.\<close>

definition ab_change :: "OrderId \<Rightarrow> Price \<Rightarrow> Qty \<Rightarrow> u64 \<Rightarrow> abook \<Rightarrow> abook" where
  "ab_change i px qty ts A =
    (if \<exists>s. \<exists>x \<in> set (A s px). to_id x = i \<and> qty \<le> to_qty x then ab_set i (\<lambda>x. x\<lparr>to_qty := qty\<rparr>) A
     else (\<lambda>s p. ab_remove i A s p @
       (if p = px \<and> (\<exists>p'. i \<in> to_id ` set (A s p')) then [\<lparr>to_id = i, to_qty = qty, to_since = ts\<rparr>] else [])))"

fun ab_step :: "l3_op \<Rightarrow> abook \<Rightarrow> abook" where
  "ab_step (LAdd i side px qty ts) A = ab_add i side px qty ts A"
| "ab_step (LFill i qty) A = ab_set i (\<lambda>x. if to_qty x < qty then x else x\<lparr>to_qty := to_qty x - qty\<rparr>) A"
| "ab_step (LRemove i) A = ab_remove i A"
| "ab_step (LChange i px qty ts) A = ab_change i px qty ts A"

fun tb_step :: "l3_op \<Rightarrow> TruthBook \<Rightarrow> TruthBook option" where
  "tb_step (LAdd i side px qty ts) t = Some (tb_add i side px qty ts t)"
| "tb_step (LFill i qty) t = map_option snd (tb_fill i qty t)"
| "tb_step (LRemove i) t = tb_remove i t"
| "tb_step (LChange i px qty ts) t = tb_change i px qty ts t"

primrec tb_run :: "l3_op list \<Rightarrow> TruthBook \<Rightarrow> TruthBook option" where
  "tb_run [] t = Some t"
| "tb_run (x # xs) t = Option.bind (tb_step x t) (tb_run xs)"

primrec ab_run :: "l3_op list \<Rightarrow> abook \<Rightarrow> abook" where
  "ab_run [] A = A"
| "ab_run (x # xs) A = ab_run xs (ab_step x A)"

text \<open>No id is added while it is live.\<close>

fun fresh_op :: "l3_op \<Rightarrow> abook \<Rightarrow> bool" where
  "fresh_op (LAdd i side px qty ts) A \<longleftrightarrow> \<not> ab_live i A"
| "fresh_op _ A \<longleftrightarrow> True"

primrec fresh_ops :: "l3_op list \<Rightarrow> abook \<Rightarrow> bool" where
  "fresh_ops [] A \<longleftrightarrow> True"
| "fresh_ops (x # xs) A \<longleftrightarrow> fresh_op x A \<and> fresh_ops xs (ab_step x A)"

definition ab_empty :: abook where
  "ab_empty = (\<lambda>s p. [])"

definition sample_ops :: "l3_op list" where
  "sample_ops = [LAdd 1 Buy 100 5 10, LAdd 2 Buy 100 7 11, LAdd 3 Sell 101 4 12, LFill 1 5, LRemove 1, LChange 2 99 7 13]"

text \<open>The records of a file, as they lie behind its header.\<close>

definition file_recs :: "bytes \<Rightarrow> Rec list" where
  "file_recs bs = map (\<lambda>i. get_Rec (drop (i * sizeof_Rec) bs)) [0..<length bs div sizeof_Rec]"

text \<open>What a reader has still to deliver.\<close>

definition rd_left :: "Reader \<Rightarrow> Rec list" where
  "rd_left r = drop (rd_pos r) (rd_buf r) @ file_recs (rd_rest r)"

definition rd_ok :: "Reader \<Rightarrow> bool" where
  "rd_ok r \<longleftrightarrow> rd_len r = length (rd_buf r) \<and> rd_pos r \<le> rd_len r"

text \<open>A loop over \<open>rd_next\<close> until it reports the end of the file, at most \<open>n\<close> calls.\<close>

primrec rd_all :: "nat \<Rightarrow> Reader \<Rightarrow> Rec list" where
  "rd_all 0 r = []"
| "rd_all (Suc n) r = (case rd_next r of (None, _) \<Rightarrow> [] | (Some x, r) \<Rightarrow> x # rd_all n r)"

definition queue_total :: "TQueue \<Rightarrow> Qty" where
  "queue_total q = sum_list (map (\<lambda>(n, x). to_qty x) q)"

definition queue_ok :: "TruthBook \<Rightarrow> Side \<Rightarrow> Price \<Rightarrow> TQueue \<Rightarrow> bool" where
  "queue_ok t side px q \<longleftrightarrow> q \<noteq> [] \<and> distinct (map fst q) \<and>
    (\<forall>n x. (n, x) \<in> set q \<longrightarrow> n < tb_node t \<and> map_of (tb_where t) (to_id x) = Some \<lparr>tl_side = side, tl_px = px, tl_it = n\<rparr>)"

definition tb_inv :: "TruthBook \<Rightarrow> bool" where
  "tb_inv t \<longleftrightarrow>
    (\<forall>side. sorted_wrt (px_before side) (map fst (levels side t))) \<and>
    (\<forall>side px q. map_of (levels side t) px = Some q \<longrightarrow> queue_ok t side px q) \<and>
    (\<forall>i lc. map_of (tb_where t) i = Some lc \<longrightarrow> (\<exists>x. deref_loc lc t = Some x \<and> to_id x = i)) \<and>
    (\<forall>side. totals side t = (\<lambda>px. map_option queue_total (map_of (levels side t) px)))"

section \<open>Levels and totals\<close>

lemma frame_simps [simp]:
  "levels s (set_levels s' l t) = (if s = s' then l else levels s t)" "totals s (set_levels s' l t) = totals s t"
  "levels s (set_totals s' m t) = levels s t" "totals s (set_totals s' m t) = (if s = s' then m else totals s t)"
  "tb_where (set_levels s l t) = tb_where t" "tb_where (set_totals s m t) = tb_where t"
  "tb_node (set_levels s l t) = tb_node t" "tb_node (set_totals s m t) = tb_node t"
  "levels s (t\<lparr>tb_where := w\<rparr>) = levels s t" "totals s (t\<lparr>tb_where := w\<rparr>) = totals s t"
  "levels s (t\<lparr>tb_node := k\<rparr>) = levels s t" "totals s (t\<lparr>tb_node := k\<rparr>) = totals s t"
  by (cases s; cases s'; simp add: levels_def set_levels_def totals_def set_totals_def)+

lemma deref_frame [simp]:
  "deref_loc lc (set_totals s m t) = deref_loc lc t" "deref_loc lc (t\<lparr>tb_where := w\<rparr>) = deref_loc lc t"
  by (simp_all add: deref_loc_def)

lemma lookup_alter:
  "sorted_wrt (px_before s) (map fst m) \<Longrightarrow> map_of (om_alter (px_before s) k f m) = (map_of m)(k \<mapsto> f (map_of m k))"
  by (rule map_of_om_alter) (auto intro: px_before_trans simp: px_before_simps)

lemma sorted_alter:
  "sorted_wrt (px_before s) (map fst m) \<Longrightarrow> sorted_wrt (px_before s) (map fst (om_alter (px_before s) k f m))"
proof (induction m)
  case (Cons p m)
  obtain k' v where p: "p = (k', v)" by (cases p)
  have "set (map fst (om_alter (px_before s) k f m)) = insert k (fst ` set m)" by (simp add: set_om_alter_keys)
  then show ?case using Cons by (auto simp: p intro: px_before_trans dest: px_before_cases)
qed simp

lemma sorted_erase: "sorted_wrt R (map fst m) \<Longrightarrow> sorted_wrt R (map fst (om_erase k m))"
  by (induction m) (auto simp: om_erase_def)

lemma tb_invD:
  assumes "tb_inv t"
  shows "sorted_wrt (px_before side) (map fst (levels side t))" "map_of (levels side t) px = Some q \<Longrightarrow> queue_ok t side px q"
    "map_of (tb_where t) i = Some lc \<Longrightarrow> \<exists>x. deref_loc lc t = Some x \<and> to_id x = i"
    "totals side t px = map_option queue_total (map_of (levels side t) px)"
  using assms unfolding tb_inv_def by auto

text \<open>A located order: its queue is split at its node, and its id occurs nowhere else.\<close>

lemma located:
  assumes "tb_inv t" and "map_of (tb_where t) i = Some lc"
  obtains as x bs where "map_of (levels (tl_side lc) t) (tl_px lc) = Some (as @ (tl_it lc, x) # bs)" "deref_loc lc t = Some x" "to_id x = i"
    "\<forall>n y. (n, y) \<in> set as \<union> set bs \<longrightarrow> n \<noteq> tl_it lc \<and> to_id y \<noteq> i"
    "\<forall>side px q n y. map_of (levels side t) px = Some q \<longrightarrow> (n, y) \<in> set q \<longrightarrow> to_id y = i \<longrightarrow> side = tl_side lc \<and> px = tl_px lc"
proof -
  obtain x where x: "deref_loc lc t = Some x" "to_id x = i" using tb_invD(3) [OF assms] by blast
  then obtain q where q: "map_of (levels (tl_side lc) t) (tl_px lc) = Some q" "map_of q (tl_it lc) = Some x"
    by (auto simp: deref_loc_def bind_eq_Some_conv)
  obtain as bs where s: "q = as @ (tl_it lc, x) # bs" using map_of_SomeD [OF q(2)] by (meson split_list)
  note Q = tb_invD(2) [OF assms(1) q(1)]
  have where_is: "tl_side lc = side \<and> tl_px lc = px \<and> tl_it lc = n"
    if "map_of (levels side t) px = Some q'" "(n, y) \<in> set q'" "to_id y = i" for side px q' n y
  proof -
    have "map_of (tb_where t) (to_id y) = Some \<lparr>tl_side = side, tl_px = px, tl_it = n\<rparr>"
      using tb_invD(2) [OF assms(1) that(1)] that(2) by (force simp: queue_ok_def)
    then show ?thesis using assms(2) that(3) by simp
  qed
  have "n \<noteq> tl_it lc \<and> to_id y \<noteq> i" if m: "(n, y) \<in> set as \<union> set bs" for n y
  proof -
    have "tl_it lc \<notin> fst ` set as" "tl_it lc \<notin> fst ` set bs" using Q by (simp_all add: queue_ok_def s)
    then have "n \<noteq> tl_it lc" using m by force
    then show ?thesis using where_is [OF q(1), of n y] m unfolding s by auto
  qed
  then have "\<forall>n y. (n, y) \<in> set as \<union> set bs \<longrightarrow> n \<noteq> tl_it lc \<and> to_id y \<noteq> i" by blast
  moreover have "\<forall>side px q n y. map_of (levels side t) px = Some q \<longrightarrow> (n, y) \<in> set q \<longrightarrow> to_id y = i \<longrightarrow> side = tl_side lc \<and> px = tl_px lc"
    using where_is by blast
  ultimately show thesis using that [of as x bs] q(1) x unfolding s by simp
qed

lemma not_located:
  assumes "tb_inv t" and "map_of (tb_where t) i = None" and "map_of (levels side t) px = Some q" and "(n, y) \<in> set q"
  shows "to_id y \<noteq> i"
  using tb_invD(2) [OF assms(1,3)] assms(2,4) by (auto simp: queue_ok_def)

lemma abs_live: "tb_inv t \<Longrightarrow> ab_live i (tb_abs t) \<longleftrightarrow> map_of (tb_where t) i \<noteq> None"
proof
  assume t: "tb_inv t" and "ab_live i (tb_abs t)"
  then obtain s p where sp: "i \<in> to_id ` set (tb_abs t s p)" by (auto simp: ab_live_def)
  then obtain q where q: "map_of (levels s t) p = Some q" by (cases "map_of (levels s t) p") (simp_all add: tb_abs_def)
  then obtain n y where "(n, y) \<in> set q" "to_id y = i" using sp by (auto simp: tb_abs_def)
  then show "map_of (tb_where t) i \<noteq> None" using not_located [OF t _ q] by blast
next
  assume t: "tb_inv t" and "map_of (tb_where t) i \<noteq> None"
  then obtain lc where lc: "map_of (tb_where t) i = Some lc" by blast
  obtain as x bs where "map_of (levels (tl_side lc) t) (tl_px lc) = Some (as @ (tl_it lc, x) # bs)" "to_id x = i"
    using located [OF t lc] by metis
  then show "ab_live i (tb_abs t)" unfolding ab_live_def tb_abs_def by (intro exI [of _ "tl_side lc"] exI [of _ "tl_px lc"]) auto
qed

section \<open>Operations\<close>

text \<open>A change of one level: what has to be shown of it for the invariant.\<close>

lemma tb_inv_level:
  assumes "tb_inv t" and srt: "\<And>s. sorted_wrt (px_before s) (map fst (levels s t'))"
    and lv: "\<And>s p. map_of (levels s t') p = (if s = side \<and> p = px then nq else map_of (levels s t) p)"
    and tot: "\<And>s p. totals s t' p = (if s = side \<and> p = px then map_option queue_total nq else totals s t p)"
    and node: "tb_node t \<le> tb_node t'"
    and other: "\<And>s p q n y. map_of (levels s t) p = Some q \<Longrightarrow> (n, y) \<in> set q \<Longrightarrow> (s, p) \<noteq> (side, px) \<Longrightarrow> map_of (tb_where t') (to_id y) = map_of (tb_where t) (to_id y)"
    and new: "\<And>q. nq = Some q \<Longrightarrow> queue_ok t' side px q"
    and loc': "\<And>i lc. map_of (tb_where t') i = Some lc \<Longrightarrow> \<exists>x. deref_loc lc t' = Some x \<and> to_id x = i"
  shows "tb_inv t'"
  unfolding tb_inv_def
proof (intro conjI allI impI srt)
  show "queue_ok t' s p q" if "map_of (levels s t') p = Some q" for s p q
  proof (cases "s = side \<and> p = px")
    case False
    then have q: "map_of (levels s t) p = Some q" using that by (auto simp: lv)
    note Q = tb_invD(2) [OF assms(1) q]
    have "n < tb_node t' \<and> map_of (tb_where t') (to_id y) = Some \<lparr>tl_side = s, tl_px = p, tl_it = n\<rparr>" if m: "(n, y) \<in> set q" for n y
      using Q m other [OF q m] False node by (force simp: queue_ok_def)
    then show ?thesis using Q by (auto simp: queue_ok_def)
  qed (use that new in \<open>simp add: lv\<close>)
  show "\<exists>x. deref_loc lc t' = Some x \<and> to_id x = i" if "map_of (tb_where t') i = Some lc" for i lc using loc' that by blast
  show "totals s t' = (\<lambda>p. map_option queue_total (map_of (levels s t') p))" for s
    using tb_invD(4) [OF assms(1)] by (intro ext) (simp add: lv tot)
qed

lemma queue_total_simps [simp]:
  "queue_total [] = 0" "queue_total ((n, x) # q) = to_qty x + queue_total q" "queue_total (a @ b) = queue_total a + queue_total b"
  by (simp_all add: queue_total_def)

lemma tb_add_ok:
  assumes "tb_inv t" and "map_of (tb_where t) i = None"
  shows "tb_inv (tb_add i side px qty ts t)" "tb_abs (tb_add i side px qty ts t) = ab_add i side px qty ts (tb_abs t)"
proof -
  let ?n = "tb_node t" and ?o = "\<lparr>to_id = i, to_qty = qty, to_since = ts\<rparr>" and ?l = "\<lparr>tl_side = side, tl_px = px, tl_it = tb_node t\<rparr>"
  let ?t = "tb_add i side px qty ts t"
  define old where "old = (case map_of (levels side t) px of None \<Rightarrow> [] | Some q \<Rightarrow> q)"
  note srt = tb_invD(1) [OF assms(1)]
  have t: "tb_where ?t = (i, ?l) # om_erase i (tb_where t)" "tb_node ?t = ?n + 1"
    "levels s ?t = (if s = side then om_alter (px_before side) px (\<lambda>old. (case old of None \<Rightarrow> [] | Some q \<Rightarrow> q) @ [(?n, ?o)]) (levels side t) else levels s t)"
    "totals s ?t = (if s = side then (totals side t)(px \<mapsto> or_zero (totals side t px) + qty) else totals s t)" for s
    by (simp_all add: tb_add_def Let_def)
  have lv: "map_of (levels s ?t) p = (if s = side \<and> p = px then Some (old @ [(?n, ?o)]) else map_of (levels s t) p)" for s p
    by (simp add: t lookup_alter [OF srt] old_def)
  have total: "or_zero (totals side t px) = queue_total old"
    using tb_invD(4) [OF assms(1), of side px] by (simp add: old_def or_zero_def split: option.splits)
  have oldq: "n < ?n \<and> to_id y \<noteq> i \<and> map_of (tb_where t) (to_id y) = Some \<lparr>tl_side = side, tl_px = px, tl_it = n\<rparr>" if m: "(n, y) \<in> set old" for n y
  proof -
    obtain q where q: "map_of (levels side t) px = Some q" "old = q" using m by (cases "map_of (levels side t) px") (simp_all add: old_def)
    show ?thesis using tb_invD(2) [OF assms(1) q(1)] not_located [OF assms q(1)] m q(2) by (force simp: queue_ok_def)
  qed
  have dist: "distinct (map fst old)" using tb_invD(2) [OF assms(1), of side px] by (auto simp: old_def queue_ok_def split: option.splits)
  show "tb_inv ?t"
  proof (rule tb_inv_level [OF assms(1) _ lv])
    show "sorted_wrt (px_before s) (map fst (levels s ?t))" for s using srt by (simp add: t sorted_alter)
    show "totals s ?t p = (if s = side \<and> p = px then map_option queue_total (Some (old @ [(?n, ?o)])) else totals s t p)" for s p
      by (simp add: t total)
    show "map_of (tb_where ?t) (to_id y) = map_of (tb_where t) (to_id y)" if "map_of (levels s t) p = Some q" "(n, y) \<in> set q" for s p q n y
      using not_located [OF assms that] by (simp add: t map_of_om_erase)
    show "queue_ok ?t side px q" if "Some (old @ [(?n, ?o)]) = Some q" for q
    proof -
      have "?n \<notin> fst ` set old" using oldq by force
      then have "distinct (map fst q)" using that dist by auto
      moreover have "n < tb_node ?t \<and> map_of (tb_where ?t) (to_id y) = Some \<lparr>tl_side = side, tl_px = px, tl_it = n\<rparr>" if "(n, y) \<in> set q" for n y
        using that \<open>Some (old @ [(?n, ?o)]) = Some q\<close> oldq [of n y] by (auto simp: t map_of_om_erase)
      ultimately show ?thesis using that by (auto simp: queue_ok_def)
    qed
    show "\<exists>x. deref_loc lc ?t = Some x \<and> to_id x = j" if j: "map_of (tb_where ?t) j = Some lc" for j lc
    proof (cases "j = i")
      case True
      then have lc: "lc = ?l" using j by (simp add: t)
      have "?n \<notin> fst ` set old" using oldq by force
      then have "map_of (old @ [(?n, ?o)]) ?n = Some ?o" by (simp add: map_of_eq_None_iff [symmetric] map_add_def)
      then show ?thesis using True by (simp add: lc deref_loc_def lv)
    next
      case False
      then obtain x where x: "deref_loc lc t = Some x" "to_id x = j" using j tb_invD(3) [OF assms(1), of j lc] by (auto simp: t map_of_om_erase)
      then have "deref_loc lc ?t = Some x"
        by (auto simp: deref_loc_def lv old_def bind_eq_Some_conv map_add_Some_iff dest: map_of_SomeD split: option.splits if_splits)
      then show ?thesis using x by simp
    qed
  qed (simp add: t)
  show "tb_abs ?t = ab_add i side px qty ts (tb_abs t)"
    by (intro ext) (auto simp: tb_abs_def lv ab_add_def old_def split: option.splits)
qed

lemma erase_at_ok:
  assumes "tb_inv t" and "map_of (tb_where t) i = Some lc"
  shows "\<exists>t'. erase_at lc t = Some t' \<and> tb_inv (t'\<lparr>tb_where := om_erase i (tb_where t)\<rparr>) \<and> tb_abs t' = ab_remove i (tb_abs t) \<and>
    tb_where t' = tb_where t"
proof -
  let ?s = "tl_side lc" and ?p = "tl_px lc"
  obtain as x bs where L: "map_of (levels ?s t) ?p = Some (as @ (tl_it lc, x) # bs)" "deref_loc lc t = Some x" "to_id x = i"
    "\<forall>n y. (n, y) \<in> set as \<union> set bs \<longrightarrow> n \<noteq> tl_it lc \<and> to_id y \<noteq> i"
    "\<forall>side px q n y. map_of (levels side t) px = Some q \<longrightarrow> (n, y) \<in> set q \<longrightarrow> to_id y = i \<longrightarrow> side = ?s \<and> px = ?p"
    by (rule located [OF assms])
  note srt = tb_invD(1) [OF assms(1)]
  let ?q = "as @ bs" and ?m = "(totals ?s t)(?p \<mapsto> queue_total (as @ (tl_it lc, x) # bs) - to_qty x)"
  define t' where "t' = (if ?q = [] then set_totals ?s (?m(?p := None)) (set_levels ?s (om_erase ?p (levels ?s t)) t)
    else set_totals ?s ?m (set_levels ?s (om_alter (px_before ?s) ?p (\<lambda>_. ?q) (levels ?s t)) t))"
  have f: "filter (\<lambda>(n, x). n \<noteq> tl_it lc) (as @ (tl_it lc, x) # bs) = ?q"
  proof -
    have "filter (\<lambda>(n, x). n \<noteq> tl_it lc) as = as" "filter (\<lambda>(n, x). n \<noteq> tl_it lc) bs = bs" using L(4) by (auto simp: filter_id_conv)
    then show ?thesis by simp
  qed
  have tot: "totals ?s t ?p = Some (queue_total (as @ (tl_it lc, x) # bs))" using tb_invD(4) [OF assms(1)] L(1) by simp
  have e: "erase_at lc t = Some t'" unfolding erase_at_def Let_def tot L(1,2) t'_def by (simp add: f del: filter_append)
  let ?t = "t'\<lparr>tb_where := om_erase i (tb_where t)\<rparr>"
  define nq where "nq = (if ?q = [] then None else Some ?q)"
  have lv: "map_of (levels s ?t) p = (if s = ?s \<and> p = ?p then nq else map_of (levels s t) p)" for s p
    by (simp add: t'_def nq_def lookup_alter [OF srt] map_of_om_erase)
  have w: "tb_where t' = tb_where t" "tb_node t' = tb_node t" by (simp_all add: t'_def)
  have Q: "queue_ok t ?s ?p (as @ (tl_it lc, x) # bs)" using tb_invD(2) [OF assms(1) L(1)] .
  have inv: "tb_inv ?t"
  proof (rule tb_inv_level [OF assms(1) _ lv])
    show "sorted_wrt (px_before s) (map fst (levels s ?t))" for s using srt by (simp add: t'_def sorted_alter sorted_erase)
    show "totals s ?t p = (if s = ?s \<and> p = ?p then map_option queue_total nq else totals s t p)" for s p
      by (simp add: t'_def nq_def)
    show "map_of (tb_where ?t) (to_id y) = map_of (tb_where t) (to_id y)"
      if "map_of (levels s t) p = Some q" "(n, y) \<in> set q" "(s, p) \<noteq> (?s, ?p)" for s p q n y
      using L(5) that by (auto simp: map_of_om_erase)
    show "queue_ok ?t ?s ?p q" if "nq = Some q" for q
    proof -
      have q: "q = ?q" "q \<noteq> []" using that by (auto simp: nq_def split: if_splits)
      have "distinct (map fst ?q)" using Q by (simp add: queue_ok_def)
      moreover have "n < tb_node t \<and> map_of (om_erase i (tb_where t)) (to_id y) = Some \<lparr>tl_side = ?s, tl_px = ?p, tl_it = n\<rparr>"
        if "(n, y) \<in> set as \<union> set bs" for n y
        using that Q L(4) by (auto simp: queue_ok_def map_of_om_erase)
      ultimately show ?thesis using q by (simp add: queue_ok_def w)
    qed
    show "\<exists>y. deref_loc lc' ?t = Some y \<and> to_id y = j" if j: "map_of (tb_where ?t) j = Some lc'" for j lc'
    proof -
      have ji: "j \<noteq> i" "map_of (tb_where t) j = Some lc'" using j by (simp_all add: map_of_om_erase split: if_splits)
      obtain y where y: "deref_loc lc' t = Some y" "to_id y = j" using tb_invD(3) [OF assms(1) ji(2)] by blast
      have "deref_loc lc' ?t = Some y"
      proof (cases "tl_side lc' = ?s \<and> tl_px lc' = ?p")
        case True
        then have y': "map_of (as @ (tl_it lc, x) # bs) (tl_it lc') = Some y" using y(1) L(1) by (simp add: deref_loc_def)
        have "map_of as (tl_it lc) = None" using Q by (simp add: queue_ok_def map_of_eq_None_iff)
        then have "tl_it lc' \<noteq> tl_it lc" using y' y(2) ji(1) L(3) by (auto simp: map_add_def)
        then have "map_of ?q (tl_it lc') = Some y" using y' by (simp add: map_add_def split: option.splits)
        then show ?thesis using True unfolding deref_loc_def lv nq_def by auto
      next
        case False
        then show ?thesis using y(1) unfolding deref_loc_def lv by auto
      qed
      then show ?thesis using y(2) by blast
    qed
  qed (simp add: w)
  have ab: "tb_abs t' = ab_remove i (tb_abs t)"
  proof (intro ext)
    fix s p
    have lv': "map_of (levels s t') p = (if s = ?s \<and> p = ?p then nq else map_of (levels s t) p)" using lv [of s p] by simp
    have "to_id z \<noteq> i" if "z \<in> set (map snd as) \<or> z \<in> set (map snd bs)" for z using that L(4) by fastforce
    then have "filter (\<lambda>x. to_id x \<noteq> i) (map snd as) = map snd as" "filter (\<lambda>x. to_id x \<noteq> i) (map snd bs) = map snd bs"
      by (simp_all add: filter_id_conv)
    moreover have "filter (\<lambda>x. to_id x \<noteq> i) (map snd q) = map snd q" if "map_of (levels s t) p = Some q" "\<not> (s = ?s \<and> p = ?p)" for q
      using L(5) that by (force simp: filter_id_conv)
    ultimately show "tb_abs t' s p = ab_remove i (tb_abs t) s p"
      using L(1,3) unfolding tb_abs_def lv' ab_remove_def nq_def by (cases "s = ?s \<and> p = ?p") (auto split: option.splits)
  qed
  show ?thesis using e inv ab w(1) by blast
qed

lemma resize_ok:
  assumes "tb_inv t" and "map_of (tb_where t) i = Some lc" and "deref_loc lc t = Some x"
    and t': "\<And>s. levels s t' = levels s (set_qty_at lc qty t)" "\<And>s. totals s t' = (if s = tl_side lc then (totals s t)(tl_px lc \<mapsto> tot) else totals s t)"
      "tb_where t' = tb_where t" "tb_node t' = tb_node t"
    and tot: "tot = or_zero (totals (tl_side lc) t (tl_px lc)) - to_qty x + qty"
  shows "tb_inv t' \<and> tb_abs t' = ab_set i (\<lambda>x. x\<lparr>to_qty := qty\<rparr>) (tb_abs t)"
proof -
  let ?s = "tl_side lc" and ?p = "tl_px lc"
  obtain as y bs where L: "map_of (levels ?s t) ?p = Some (as @ (tl_it lc, y) # bs)" "deref_loc lc t = Some y" "to_id y = i"
    "\<forall>n y. (n, y) \<in> set as \<union> set bs \<longrightarrow> n \<noteq> tl_it lc \<and> to_id y \<noteq> i"
    "\<forall>side px q n y. map_of (levels side t) px = Some q \<longrightarrow> (n, y) \<in> set q \<longrightarrow> to_id y = i \<longrightarrow> side = ?s \<and> px = ?p"
    by (rule located [OF assms(1,2)])
  have y: "y = x" using L(2) assms(3) by simp
  note srt = tb_invD(1) [OF assms(1)]
  let ?g = "map (\<lambda>(n, x). (n, if n = tl_it lc then x\<lparr>to_qty := qty\<rparr> else x))"
  let ?q = "as @ (tl_it lc, x\<lparr>to_qty := qty\<rparr>) # bs"
  have id: "?g as = as" "?g bs = bs" using L(4) by (auto intro!: map_idI)
  have mo: "map_of (map (\<lambda>(px, q). (px, if px = ?p then ?g q else q)) m) p = map_option (\<lambda>q. if p = ?p then ?g q else q) (map_of m p)" for m p
    by (induction m) auto
  have lv: "map_of (levels s t') p = (if s = ?s \<and> p = ?p then Some ?q else map_of (levels s t) p)" for s p
    using L(1) id by (auto simp: t'(1) set_qty_at_def mo y option.map_ident)
  have keys: "map fst (map (\<lambda>(px, q). (px, if px = ?p then ?g q else q)) m) = map fst m" for m by (induction m) auto
  have Q: "queue_ok t ?s ?p (as @ (tl_it lc, x) # bs)" using tb_invD(2) [OF assms(1) L(1)] y by simp
  have inv: "tb_inv t'"
  proof (rule tb_inv_level [OF assms(1) _ lv])
    show "sorted_wrt (px_before s) (map fst (levels s t'))" for s using srt by (simp add: t'(1) set_qty_at_def keys del: map_map)
    have "or_zero (totals ?s t ?p) = queue_total (as @ (tl_it lc, x) # bs)"
      using tb_invD(4) [OF assms(1), of ?s ?p] L(1) y by (simp add: or_zero_def)
    then show "totals s t' p = (if s = ?s \<and> p = ?p then map_option queue_total (Some ?q) else totals s t p)" for s p
      by (simp add: t'(2) tot)
    show "queue_ok t' ?s ?p q" if "Some ?q = Some q" for q
      using that Q by (auto simp: queue_ok_def t'(3,4))
    show "\<exists>z. deref_loc lc' t' = Some z \<and> to_id z = j" if j: "map_of (tb_where t') j = Some lc'" for j lc'
    proof -
      obtain z where z: "deref_loc lc' t = Some z" "to_id z = j" using tb_invD(3) [OF assms(1)] j by (auto simp: t'(3))
      have na: "map_of as (tl_it lc) = None" using Q by (simp add: queue_ok_def map_of_eq_None_iff)
      show ?thesis
      proof (cases "tl_side lc' = ?s \<and> tl_px lc' = ?p")
        case True
        then have zq: "map_of (as @ (tl_it lc, x) # bs) (tl_it lc') = Some z" using z(1) L(1) y by (simp add: deref_loc_def)
        have "deref_loc lc' t' = map_of ?q (tl_it lc')" using True by (simp add: deref_loc_def lv)
        also have "\<dots> = Some (if tl_it lc' = tl_it lc then x\<lparr>to_qty := qty\<rparr> else z)"
          using zq na by (cases "tl_it lc' = tl_it lc") (simp_all add: map_add_def split: option.splits)
        finally show ?thesis using zq na z(2) by (cases "tl_it lc' = tl_it lc") (simp_all add: map_add_def)
      next
        case False
        then have "deref_loc lc' t' = deref_loc lc' t" unfolding deref_loc_def lv by auto
        then show ?thesis using z by simp
      qed
    qed
  qed (simp_all add: t'(3,4))
  have ab: "tb_abs t' = ab_set i (\<lambda>x. x\<lparr>to_qty := qty\<rparr>) (tb_abs t)"
  proof (intro ext)
    fix s p
    have "to_id z \<noteq> i" if "z \<in> set (map snd as) \<or> z \<in> set (map snd bs)" for z using that L(4) by fastforce
    then have "map (\<lambda>x. if to_id x = i then x\<lparr>to_qty := qty\<rparr> else x) (map snd as) = map snd as"
      "map (\<lambda>x. if to_id x = i then x\<lparr>to_qty := qty\<rparr> else x) (map snd bs) = map snd bs"
      by (intro map_idI; simp)+
    moreover have "map (\<lambda>x. if to_id x = i then x\<lparr>to_qty := qty\<rparr> else x) (map snd q) = map snd q"
      if "map_of (levels s t) p = Some q" "\<not> (s = ?s \<and> p = ?p)" for q
      using L(5) that by (force intro!: map_idI)
    ultimately show "tb_abs t' s p = ab_set i (\<lambda>x. x\<lparr>to_qty := qty\<rparr>) (tb_abs t) s p"
      using L(1,3) y unfolding tb_abs_def lv ab_set_def by (cases "s = ?s \<and> p = ?p") (auto split: option.splits simp del: map_map)
  qed
  show ?thesis using inv ab by blast
qed

text \<open>An operation on an id that is not live does nothing.\<close>

lemma dead_ids:
  assumes "tb_inv t" and "map_of (tb_where t) i = None"
  shows "ab_remove i (tb_abs t) = tb_abs t" "ab_set i f (tb_abs t) = tb_abs t" "to_id x = i \<Longrightarrow> x \<notin> set (tb_abs t s p)"
proof -
  have d: "to_id x \<noteq> i" if x: "x \<in> set (tb_abs t s p)" for s p x
  proof (cases "map_of (levels s t) p")
    case (Some q)
    then obtain n where "(n, x) \<in> set q" using x by (auto simp: tb_abs_def)
    then show ?thesis by (rule not_located [OF assms Some])
  qed (use that in \<open>simp add: tb_abs_def\<close>)
  then show "to_id x = i \<Longrightarrow> x \<notin> set (tb_abs t s p)" by blast
  have "filter (\<lambda>x. to_id x \<noteq> i) (tb_abs t s p) = tb_abs t s p" "map (\<lambda>x. if to_id x = i then f x else x) (tb_abs t s p) = tb_abs t s p" for s p
    using d by (auto simp: filter_id_conv intro!: map_idI)
  then show "ab_remove i (tb_abs t) = tb_abs t" "ab_set i f (tb_abs t) = tb_abs t" by (simp_all add: ab_remove_def ab_set_def)
qed

text \<open>Only the located order has the id.\<close>

lemma only_located:
  assumes "tb_inv t" and "map_of (tb_where t) i = Some lc" and "deref_loc lc t = Some x"
  shows "y \<in> set (tb_abs t s p) \<and> to_id y = i \<longleftrightarrow> s = tl_side lc \<and> p = tl_px lc \<and> y = x"
proof -
  obtain as z bs where L: "map_of (levels (tl_side lc) t) (tl_px lc) = Some (as @ (tl_it lc, z) # bs)" "deref_loc lc t = Some z" "to_id z = i"
    "\<forall>n y. (n, y) \<in> set as \<union> set bs \<longrightarrow> n \<noteq> tl_it lc \<and> to_id y \<noteq> i"
    "\<forall>side px q n y. map_of (levels side t) px = Some q \<longrightarrow> (n, y) \<in> set q \<longrightarrow> to_id y = i \<longrightarrow> side = tl_side lc \<and> px = tl_px lc"
    by (rule located [OF assms(1,2)])
  have z: "z = x" using L(2) assms(3) by simp
  show ?thesis
  proof
    assume a: "y \<in> set (tb_abs t s p) \<and> to_id y = i"
    then obtain q where q: "map_of (levels s t) p = Some q" by (cases "map_of (levels s t) p") (simp_all add: tb_abs_def)
    then obtain n where n: "(n, y) \<in> set q" using a by (auto simp: tb_abs_def)
    then have sp: "s = tl_side lc" "p = tl_px lc" using L(5) q a by blast+
    then have "(n, y) \<in> set as \<union> set bs \<or> y = x" using n q L(1) z by auto
    then have "y = x" using L(4) a by blast
    then show "s = tl_side lc \<and> p = tl_px lc \<and> y = x" using sp by simp
  qed (use L(1,3) z in \<open>auto simp: tb_abs_def\<close>)
qed

lemma ab_set_cong:
  assumes "\<And>s p x. x \<in> set (A s p) \<Longrightarrow> to_id x = i \<Longrightarrow> f x = g x"
  shows "ab_set i f A = ab_set i g A"
  unfolding ab_set_def by (intro ext map_cong) (simp_all add: assms)

lemma tb_fill_ok:
  assumes "tb_inv t"
  shows "\<exists>t'. tb_step (LFill i qty) t = Some t' \<and> tb_inv t' \<and> tb_abs t' = ab_step (LFill i qty) (tb_abs t)"
proof (cases "map_of (tb_where t) i")
  case None
  then show ?thesis using assms dead_ids(2) [OF assms None] by (simp add: tb_fill_def)
next
  case (Some lc)
  obtain x where x: "deref_loc lc t = Some x" "to_id x = i" using tb_invD(3) [OF assms Some] by blast
  note O = only_located [OF assms Some x(1)]
  show ?thesis
  proof (cases "to_qty x < qty")
    case True
    have "ab_set i (\<lambda>x. if to_qty x < qty then x else x\<lparr>to_qty := to_qty x - qty\<rparr>) (tb_abs t) = ab_set i (\<lambda>x. x) (tb_abs t)"
      by (rule ab_set_cong) (use O True in metis)
    then show ?thesis using True Some x assms by (simp add: tb_fill_def ab_set_def)
  next
    case False
    let ?r = "set_qty_at lc (to_qty x - qty) t"
    let ?t = "set_totals (tl_side lc) ((totals (tl_side lc) ?r)(tl_px lc \<mapsto> or_zero (totals (tl_side lc) ?r (tl_px lc)) - qty)) ?r"
    have "tb_inv ?t \<and> tb_abs ?t = ab_set i (\<lambda>z. z\<lparr>to_qty := to_qty x - qty\<rparr>) (tb_abs t)"
      by (rule resize_ok [OF assms Some x(1)]) (simp_all add: set_qty_at_def)
    moreover have "ab_set i (\<lambda>z. z\<lparr>to_qty := to_qty x - qty\<rparr>) (tb_abs t) = ab_set i (\<lambda>x. if to_qty x < qty then x else x\<lparr>to_qty := to_qty x - qty\<rparr>) (tb_abs t)"
      by (rule ab_set_cong) (use O False in metis)
    ultimately show ?thesis using False Some x by (simp add: tb_fill_def Let_def)
  qed
qed

lemma tb_remove_ok:
  assumes "tb_inv t"
  shows "\<exists>t'. tb_remove i t = Some t' \<and> tb_inv t' \<and> tb_abs t' = ab_remove i (tb_abs t)"
proof (cases "map_of (tb_where t) i")
  case None
  then show ?thesis using assms dead_ids(1) [OF assms None] by (simp add: tb_remove_def)
next
  case (Some lc)
  obtain t' where t': "erase_at lc t = Some t'" "tb_inv (t'\<lparr>tb_where := om_erase i (tb_where t)\<rparr>)" "tb_abs t' = ab_remove i (tb_abs t)" "tb_where t' = tb_where t"
    using erase_at_ok [OF assms Some] by blast
  moreover have "tb_abs (t'\<lparr>tb_where := w\<rparr>) = tb_abs t'" for w by (simp add: tb_abs_def fun_eq_iff)
  ultimately show ?thesis using Some by (simp add: tb_remove_def)
qed

lemma tb_change_ok:
  assumes "tb_inv t"
  shows "\<exists>t'. tb_change i px qty ts t = Some t' \<and> tb_inv t' \<and> tb_abs t' = ab_change i px qty ts (tb_abs t)"
proof (cases "map_of (tb_where t) i")
  case None
  have "i \<notin> to_id ` set (tb_abs t s p)" for s p using dead_ids(3) [OF assms None] by auto
  then have "ab_change i px qty ts (tb_abs t) = tb_abs t" using dead_ids(1) [OF assms None] unfolding ab_change_def by (auto simp: image_iff)
  then show ?thesis using assms None by (simp add: tb_change_def)
next
  case (Some lc)
  obtain x where x: "deref_loc lc t = Some x" "to_id x = i" using tb_invD(3) [OF assms Some] by blast
  note O = only_located [OF assms Some x(1)]
  have cond: "(\<exists>s. \<exists>y \<in> set (tb_abs t s px). to_id y = i \<and> qty \<le> to_qty y) \<longleftrightarrow> px = tl_px lc \<and> qty \<le> to_qty x" using O x(2) by metis
  show ?thesis
  proof (cases "px = tl_px lc \<and> qty \<le> to_qty x")
    case True
    let ?m = "totals (tl_side lc) t"
    let ?t = "set_qty_at lc qty (set_totals (tl_side lc) (?m(tl_px lc \<mapsto> or_zero (?m (tl_px lc)) - (to_qty x - qty))) t)"
    have "tb_inv ?t \<and> tb_abs ?t = ab_set i (\<lambda>z. z\<lparr>to_qty := qty\<rparr>) (tb_abs t)"
      by (rule resize_ok [OF assms Some x(1), where tot = "or_zero (?m (tl_px lc)) - (to_qty x - qty)"]) (simp_all add: set_qty_at_def)
    then show ?thesis using True Some x(1) cond by (simp add: tb_change_def ab_change_def Let_def)
  next
    case False
    obtain t' where t': "erase_at lc t = Some t'" "tb_inv (t'\<lparr>tb_where := om_erase i (tb_where t)\<rparr>)" "tb_abs t' = ab_remove i (tb_abs t)" "tb_where t' = tb_where t"
      using erase_at_ok [OF assms Some] by blast
    let ?u = "t'\<lparr>tb_where := om_erase i (tb_where t)\<rparr>"
    have "map_of (tb_where ?u) i = None" by (simp add: map_of_om_erase)
    note A = tb_add_ok [OF t'(2) this, of "tl_side lc" px qty ts]
    have "tb_abs ?u = ab_remove i (tb_abs t)" using t'(3) by (simp add: tb_abs_def fun_eq_iff)
    moreover have "(\<exists>p'. i \<in> to_id ` set (tb_abs t s p')) \<longleftrightarrow> s = tl_side lc" for s
      using O [of _ s] O [of x "tl_side lc" "tl_px lc"] x(2) unfolding image_iff by metis
    ultimately have "tb_abs (tb_add i (tl_side lc) px qty ts ?u) = ab_change i px qty ts (tb_abs t)"
      using A(2) unfolding ab_change_def cond if_not_P [OF False] by (intro ext) (simp add: ab_add_def)
    moreover have "tb_change i px qty ts t = Some (tb_add i (tl_side lc) px qty ts ?u)" using False Some x(1) t'(1,4) by (auto simp: tb_change_def)
    ultimately show ?thesis using A(1) by blast
  qed
qed

lemma tb_step_ok:
  assumes "tb_inv t" and "fresh_op x (tb_abs t)"
  shows "\<exists>t'. tb_step x t = Some t' \<and> tb_inv t' \<and> tb_abs t' = ab_step x (tb_abs t)"
proof (cases x)
  case (LAdd i side px qty ts)
  then show ?thesis using assms tb_add_ok [OF assms(1), of i] abs_live [OF assms(1)] by simp
next
  case (LFill i qty)
  then show ?thesis using tb_fill_ok [OF assms(1)] by blast
next
  case (LRemove i)
  then show ?thesis using tb_remove_ok [OF assms(1)] by simp
next
  case (LChange i px qty ts)
  then show ?thesis using tb_change_ok [OF assms(1)] by simp
qed

lemma tb_run_ok:
  "tb_inv t \<Longrightarrow> fresh_ops xs (tb_abs t) \<Longrightarrow> \<exists>t'. tb_run xs t = Some t' \<and> tb_inv t' \<and> tb_abs t' = ab_run xs (tb_abs t)"
proof (induction xs arbitrary: t)
  case (Cons x xs)
  obtain u where "tb_step x t = Some u" "tb_inv u" "tb_abs u = ab_step x (tb_abs t)" using tb_step_ok [of t x] Cons.prems by auto
  then show ?case using Cons.IH [of u] Cons.prems(2) by simp
qed simp

lemma tb_empty_ok: "tb_inv tb_empty" "tb_abs tb_empty = ab_empty"
  by (simp_all add: tb_inv_def tb_empty_def levels_def totals_def tb_abs_def ab_empty_def fun_eq_iff)

lemma abs_total:
  assumes "tb_inv t"
  shows "tb_level_qty side px t = sum_list (map to_qty (tb_abs t side px))"
proof -
  have "queue_total q = sum_list (map to_qty (map snd q))" for q by (induction q) auto
  then show ?thesis using tb_invD(4) [OF assms, of side px] by (simp add: tb_level_qty_def tb_abs_def or_zero_def split: option.splits)
qed

lemma abs_best:
  assumes "tb_inv t"
  shows "tb_best side t = Some px \<longleftrightarrow> tb_abs t side px \<noteq> [] \<and> (\<forall>p. tb_abs t side p \<noteq> [] \<longrightarrow> p = px \<or> px_before side px p)"
proof -
  have ne: "tb_abs t side p \<noteq> [] \<longleftrightarrow> p \<in> fst ` set (levels side t)" for p
  proof (cases "map_of (levels side t) p")
    case (Some q)
    then have "q \<noteq> []" using tb_invD(2) [OF assms Some] by (simp add: queue_ok_def)
    then show ?thesis using Some by (force simp: tb_abs_def dest: map_of_SomeD)
  next
    case None
    then show ?thesis unfolding map_of_eq_None_iff [symmetric] by (simp add: tb_abs_def None map_of_eq_None_iff [symmetric])
  qed
  show ?thesis
  proof (cases "levels side t")
    case Nil
    then show ?thesis using ne [of px] by (simp add: tb_best_def)
  next
    case (Cons l ls)
    obtain p0 q0 where l: "l = (p0, q0)" by (cases l)
    have lt: "px_before side p0 p" if "p \<in> fst ` set ls" for p using tb_invD(1) [OF assms, of side] that by (auto simp: Cons l)
    have "\<not> px_before side px p0" if "px \<in> fst ` set ls" using lt [OF that] px_before_trans px_before_simps(1) by metis
    then show ?thesis unfolding ne tb_best_def Cons l using lt by (auto simp: px_before_simps)
  qed
qed

section \<open>The reader\<close>

lemma file_recs_chunk:
  assumes "fread_recs n bs = (recs, rest)"
  shows "file_recs bs = recs @ file_recs rest"
proof -
  let ?m = "length bs div sizeof_Rec" and ?k = "min n (length bs div sizeof_Rec)"
  have r: "recs = map (\<lambda>i. get_Rec (drop (i * sizeof_Rec) bs)) [0..<?k]" "rest = (if ?k < n then [] else drop (?k * sizeof_Rec) bs)"
    using assms by (auto simp: fread_recs_def Let_def)
  show ?thesis
  proof (cases "?k < n")
    case True
    then have "?k = ?m" by simp
    then show ?thesis using True by (simp add: r file_recs_def)
  next
    case False
    then have k: "?k = n" "n \<le> ?m" by simp_all
    have "length (drop (n * sizeof_Rec) bs) div sizeof_Rec = ?m - n" 
      using div_mult_self1 [of sizeof_Rec "length bs - n * sizeof_Rec" n] k(2) by (simp add: sizeof_Rec_def)
    moreover have "[0..<?m] = [0..<n] @ map (\<lambda>i. i + n) [0..<?m - n]" 
      using upt_add_eq_append [of 0 n "?m - n"] k(2) by (simp add: map_add_upt)
    ultimately show ?thesis using False k by (simp add: r file_recs_def add_mult_distrib add.commute)
  qed
qed

lemma rd_next_ok:
  assumes "rd_ok r" and "rd_next r = (o', r')"
  shows "rd_ok r'" "rd_left r = (case o' of None \<Rightarrow> [] | Some x \<Rightarrow> x # rd_left r')"
proof -
  obtain recs rest where f: "fread_recs kBatch (rd_rest r) = (recs, rest)" by fastforce
  have nil: "recs = [] \<Longrightarrow> rest = []" using f by (auto simp: fread_recs_def Let_def kBatch_def split: if_splits)
  note c = file_recs_chunk [OF f]
  have cons: "drop n xs = xs ! n # drop (Suc n) xs" if "n < length xs" for n and xs :: "Rec list" using that by (rule Cons_nth_drop_Suc [symmetric])
  have "rd_ok r' \<and> rd_left r = (case o' of None \<Rightarrow> [] | Some x \<Rightarrow> x # rd_left r')"
  proof (cases "rd_pos r = rd_len r")
    case True
    then show ?thesis using assms f nil c cons [of 0 recs]
      by (cases recs) (auto simp: rd_next_def rd_ok_def rd_left_def Let_def file_recs_def)
  next
    case False
    then show ?thesis using assms cons [of "rd_pos r" "rd_buf r"] by (auto simp: rd_next_def rd_ok_def rd_left_def Let_def split: if_splits)
  qed
  then show "rd_ok r'" "rd_left r = (case o' of None \<Rightarrow> [] | Some x \<Rightarrow> x # rd_left r')" by blast+
qed

lemma rd_all_left: "rd_ok r \<Longrightarrow> length (rd_left r) < n \<Longrightarrow> rd_all n r = rd_left r"
proof (induction n arbitrary: r)
  case (Suc n)
  obtain o' r' where e: "rd_next r = (o', r')" by fastforce
  show ?case using rd_next_ok [OF Suc.prems(1) e] Suc.IH [of r'] Suc.prems(2) e by (cases o') auto
qed simp

section \<open>Properties\<close>

text \<open>
  C38: over any feed in which no id is opened while it is live, every operation of the truth book is defined (no
  iterator dangles, no level is missing), the queues are those the messages describe, in time priority, the quantity
  kept per level is the sum over its queue, and the touch is the best price with an order.
\<close>

theorem truth_book_tracks:
  assumes "fresh_ops xs ab_empty"
  shows "\<exists>t. tb_run xs tb_empty = Some t \<and> tb_abs t = ab_run xs ab_empty \<and>
    (\<forall>side px. tb_level_qty side px t = sum_list (map to_qty (ab_run xs ab_empty side px))) \<and>
    (\<forall>side px. tb_best side t = Some px \<longleftrightarrow> ab_run xs ab_empty side px \<noteq> [] \<and>
       (\<forall>p. ab_run xs ab_empty side p \<noteq> [] \<longrightarrow> p = px \<or> px_before side px p))"
proof -
  obtain t where "tb_run xs tb_empty = Some t" "tb_inv t" "tb_abs t = ab_run xs ab_empty"
    using tb_run_ok [of tb_empty xs] assms tb_empty_ok by auto
  then show ?thesis using abs_total [of t] abs_best [of t] by auto
qed

theorem truth_book_tracks_witness:
  "fresh_ops sample_ops ab_empty \<and>
   (\<exists>t. tb_run sample_ops tb_empty = Some t \<and> tb_level_qty Buy 99 t = 7 \<and> tb_level_qty Buy 100 t = 0)"
proof -
  have f: "fresh_ops sample_ops ab_empty"
    by (auto simp add: sample_ops_def ab_live_def ab_add_def ab_empty_def ab_set_def)
  let ?o = "\<lparr>to_id = 2, to_qty = 7, to_since = 11\<rparr>" and ?A = "ab_run (butlast sample_ops) ab_empty"
  have A: "?A Buy = (\<lambda>p. if p = 100 then [?o] else [])"
    by (auto simp: sample_ops_def ab_add_def ab_empty_def ab_set_def ab_remove_def fun_eq_iff)
  have S: "\<not> (\<exists>x \<in> set (?A s 99). to_id x = 2 \<and> 7 \<le> to_qty x)" for s
    by (cases s) (auto simp: A, simp add: sample_ops_def ab_add_def ab_empty_def ab_set_def ab_remove_def)
  have m: "2 \<in> to_id ` set (?A Buy 100)" by (simp add: A)
  have "ab_run sample_ops ab_empty = ab_step (LChange 2 99 7 13) ?A" by (simp add: sample_ops_def)
  then have r: "ab_run sample_ops ab_empty Buy 99 = [\<lparr>to_id = 2, to_qty = 7, to_since = 13\<rparr>]" "ab_run sample_ops ab_empty Buy 100 = []"
    using S m by (auto simp: ab_change_def ab_remove_def A)
  show ?thesis using truth_book_tracks [OF f] f r by auto
qed

end
