(* ===== verification/L3_Safe.thy ===== *)
theory L3_Safe
  imports L3_Properties
begin

text \<open>
  The truth book on any message stream whatever, ids opened twice included: no operation dereferences a dangling
  iterator or a missing level. This needs less than the contract of \<open>L3_Properties\<close>: an overwritten index entry
  only leaves its old node without an owner.
\<close>

definition tb_safe :: "TruthBook \<Rightarrow> bool" where
  "tb_safe t \<longleftrightarrow>
    (\<forall>side. sorted_wrt (px_before side) (map fst (levels side t))) \<and>
    (\<forall>side px q n y. map_of (levels side t) px = Some q \<longrightarrow> (n, y) \<in> set q \<longrightarrow> n < tb_node t) \<and>
    (\<forall>i lc. map_of (tb_where t) i = Some lc \<longrightarrow> (\<exists>x. deref_loc lc t = Some x \<and> to_id x = i)) \<and>
    (\<forall>side px. map_of (levels side t) px \<noteq> None \<longrightarrow> totals side t px \<noteq> None)"

lemma tb_safeD:
  assumes "tb_safe t"
  shows "sorted_wrt (px_before side) (map fst (levels side t))" "map_of (levels side t) px = Some q \<Longrightarrow> (n, y) \<in> set q \<Longrightarrow> n < tb_node t"
    "map_of (tb_where t) i = Some lc \<Longrightarrow> \<exists>x. deref_loc lc t = Some x \<and> to_id x = i"
    "map_of (levels side t) px = Some q \<Longrightarrow> \<exists>n. totals side t px = Some n"
  using assms unfolding tb_safe_def by blast+

lemma tb_safe_init: "tb_safe tb_empty" "tb_safe (tb_clear t)"
  by (simp_all add: tb_safe_def tb_empty_def tb_clear_def levels_def totals_def)

lemma deref_SomeE:
  assumes "deref_loc lc t = Some x"
  obtains q where "map_of (levels (tl_side lc) t) (tl_px lc) = Some q" "map_of q (tl_it lc) = Some x"
  using assms by (auto simp: deref_loc_def bind_eq_Some_conv)

lemma tb_add_safe:
  assumes "tb_safe t"
  shows "tb_safe (tb_add i side px qty ts t)"
proof -
  let ?n = "tb_node t" and ?o = "\<lparr>to_id = i, to_qty = qty, to_since = ts\<rparr>" and ?t = "tb_add i side px qty ts t"
  define old where "old = (case map_of (levels side t) px of None \<Rightarrow> [] | Some q \<Rightarrow> q)"
  note D = tb_safeD [OF assms]
  have t: "tb_where ?t = (i, \<lparr>tl_side = side, tl_px = px, tl_it = ?n\<rparr>) # om_erase i (tb_where t)" "tb_node ?t = ?n + 1"
    "levels s ?t = (if s = side then om_alter (px_before side) px (\<lambda>old. (case old of None \<Rightarrow> [] | Some q \<Rightarrow> q) @ [(?n, ?o)]) (levels side t) else levels s t)"
    "totals s ?t = (if s = side then (totals side t)(px \<mapsto> or_zero (totals side t px) + qty) else totals s t)" for s
    by (simp_all add: tb_add_def Let_def)
  have lv: "map_of (levels s ?t) p = (if s = side \<and> p = px then Some (old @ [(?n, ?o)]) else map_of (levels s t) p)" for s p
    by (simp add: t lookup_alter [OF D(1)] old_def)
  have lt: "n < ?n" if "(n, y) \<in> set old" for n y using D(2) [of side px _ n y] that by (cases "map_of (levels side t) px") (auto simp: old_def)
  then have fresh: "map_of old ?n = None" by (fastforce simp: map_of_eq_None_iff)
  have keep: "deref_loc lc ?t = Some x" if "deref_loc lc t = Some x" for lc x
    using that fresh by (auto simp: deref_loc_def lv old_def bind_eq_Some_conv map_add_Some_iff split: option.splits if_splits)
  show ?thesis unfolding tb_safe_def
  proof (intro conjI allI impI)
    show "sorted_wrt (px_before s) (map fst (levels s ?t))" for s using D(1) by (simp add: t sorted_alter)
    show "n < tb_node ?t" if "map_of (levels s ?t) p = Some q" "(n, y) \<in> set q" for s p q n y
      using that lt [of n y] D(2) [of s p q n y] by (auto simp: lv t(2) split: if_splits)
    show "\<exists>x. deref_loc lc ?t = Some x \<and> to_id x = j" if "map_of (tb_where ?t) j = Some lc" for j lc
    proof (cases "j = i")
      case True
      then have "lc = \<lparr>tl_side = side, tl_px = px, tl_it = ?n\<rparr>" using that by (simp add: t(1))
      then have "deref_loc lc ?t = Some ?o" using fresh by (simp add: deref_loc_def lv map_add_def)
      then show ?thesis using True by simp
    next
      case False
      then show ?thesis using that keep D(3) [of j lc] by (auto simp: t(1) map_of_om_erase)
    qed
    show "totals s ?t p \<noteq> None" if "map_of (levels s ?t) p \<noteq> None" for s p using that D(4) [of s p] by (auto simp: lv t(4) split: if_splits)
  qed
qed

text \<open>A change of quantities, wherever it is, keeps every node.\<close>

lemma requantify_safe:
  assumes "tb_safe t" and "\<And>s. levels s t' = levels s (set_qty_at lc qty t)" "\<And>s p. totals s t p \<noteq> None \<Longrightarrow> totals s t' p \<noteq> None"
    "tb_where t' = tb_where t" "tb_node t' = tb_node t"
  shows "tb_safe t'"
proof -
  note D = tb_safeD [OF assms(1)]
  let ?g = "map (\<lambda>(n, x). (n, if n = tl_it lc then x\<lparr>to_qty := qty\<rparr> else x))"
  let ?lv = "\<lambda>m. map (\<lambda>(px, q). (px, if px = tl_px lc then ?g q else q)) m"
  have mo: "map_of (?lv m) p = map_option (\<lambda>q. if p = tl_px lc then ?g q else q) (map_of m p)" for m p by (induction m) auto
  have keys: "map fst (?lv m) = map fst m" for m by (induction m) auto
  have l: "levels s t' = (if s = tl_side lc then ?lv (levels s t) else levels s t)" for s by (simp add: assms(2) set_qty_at_def)
  have node: "fst ` set (?g q) = fst ` set q" for q by (force simp: image_iff)
  have g: "map_of (?g q) n = map_option (\<lambda>x. if n = tl_it lc then x\<lparr>to_qty := qty\<rparr> else x) (map_of q n)" for q n by (induction q) auto
  have keep: "\<exists>y. deref_loc lc' t' = Some y \<and> to_id y = to_id x" if "deref_loc lc' t = Some x" for lc' x
  proof -
    obtain q where q: "map_of (levels (tl_side lc') t) (tl_px lc') = Some q" "map_of q (tl_it lc') = Some x" using \<open>deref_loc lc' t = Some x\<close> by (rule deref_SomeE)
    show ?thesis
    proof (cases "tl_side lc' = tl_side lc \<and> tl_px lc' = tl_px lc")
      case True
      then show ?thesis using q by (simp add: deref_loc_def l mo g)
    qed (use q in \<open>auto simp: deref_loc_def l mo\<close>)
  qed
  show ?thesis unfolding tb_safe_def
  proof (intro conjI allI impI)
    show "sorted_wrt (px_before s) (map fst (levels s t'))" for s using D(1) [of s] by (cases "s = tl_side lc") (simp_all only: l keys if_True if_False refl)
    show "n < tb_node t'" if h: "map_of (levels s t') p = Some q" "(n, y) \<in> set q" for s p q n y
    proof -
      obtain q' where q': "map_of (levels s t) p = Some q'" "q = q' \<or> q = ?g q'"
        using h(1) unfolding l by (cases "s = tl_side lc"; cases "p = tl_px lc") (auto simp: mo)
      then have "fst ` set q = fst ` set q'" using q'(2) node [of q'] by (elim disjE) (simp_all only:)
      then obtain y' where "(n, y') \<in> set q'" using imageI [OF h(2), of fst] by auto
      then show ?thesis using D(2) [OF q'(1)] assms(5) by simp
    qed
    show "\<exists>x. deref_loc lc' t' = Some x \<and> to_id x = j" if "map_of (tb_where t') j = Some lc'" for j lc'
      using D(3) [of j lc'] keep that assms(4) by fastforce
    show "totals s t' p \<noteq> None" if "map_of (levels s t') p \<noteq> None" for s p
      using that D(4) [of s p] assms(3) unfolding l by (auto simp: mo split: if_splits)
  qed
qed

lemma erase_at_safe:
  assumes "tb_safe t" and "map_of (tb_where t) i = Some lc"
  shows "\<exists>t'. erase_at lc t = Some t' \<and> tb_where t' = tb_where t \<and> tb_safe (t'\<lparr>tb_where := om_erase i (tb_where t)\<rparr>)"
proof -
  let ?s = "tl_side lc" and ?p = "tl_px lc"
  note D = tb_safeD [OF assms(1)]
  obtain x where x: "deref_loc lc t = Some x" "to_id x = i" using D(3) [OF assms(2)] by blast
  obtain q where q: "map_of (levels ?s t) ?p = Some q" "map_of q (tl_it lc) = Some x" using x(1) by (rule deref_SomeE)
  obtain tq where tq: "totals ?s t ?p = Some tq" using D(4) [OF q(1)] by blast
  define q' where "q' = filter (\<lambda>(n, x). n \<noteq> tl_it lc) q"
  let ?m = "(totals ?s t)(?p \<mapsto> tq - to_qty x)"
  define t' where "t' = (if q' = [] then set_totals ?s (?m(?p := None)) (set_levels ?s (om_erase ?p (levels ?s t)) t)
    else set_totals ?s ?m (set_levels ?s (om_alter (px_before ?s) ?p (\<lambda>_. q') (levels ?s t)) t))"
  have e: "erase_at lc t = Some t'" using tq x q by (simp add: erase_at_def Let_def t'_def q'_def)
  have lv: "map_of (levels s t') p = (if s = ?s \<and> p = ?p then (if q' = [] then None else Some q') else map_of (levels s t) p)" for s p
    by (simp add: t'_def lookup_alter [OF D(1)] map_of_om_erase)
  have w: "tb_where t' = tb_where t" "tb_node t' = tb_node t" by (simp_all add: t'_def)
  have mq: "map_of q' n = (if n = tl_it lc then None else map_of q n)" for n by (simp add: q'_def) (induction q, auto)
  have keep: "deref_loc lc' t' = Some y" if "deref_loc lc' t = Some y" "to_id y \<noteq> i" for lc' y
  proof (cases "tl_side lc' = ?s \<and> tl_px lc' = ?p")
    case True
    then have "map_of q (tl_it lc') = Some y" using that(1) q(1) by (simp add: deref_loc_def)
    then have "map_of q' (tl_it lc') = Some y" using that(2) q(2) x(2) by (auto simp: mq)
    then show ?thesis using True by (auto simp: deref_loc_def lv)
  qed (use that in \<open>auto simp: deref_loc_def lv\<close>)
  have "tb_safe (t'\<lparr>tb_where := om_erase i (tb_where t)\<rparr>)" unfolding tb_safe_def
  proof (intro conjI allI impI, unfold frame_simps deref_frame)
    show "sorted_wrt (px_before s) (map fst (levels s t'))" for s using D(1) by (simp add: t'_def sorted_alter sorted_erase)
    show "n < tb_node (t'\<lparr>tb_where := om_erase i (tb_where t)\<rparr>)" if "map_of (levels s t') p = Some r" "(n, y) \<in> set r" for s p r n y
      using that D(2) [of s p r n y] D(2) [OF q(1), of n y] by (auto simp: lv w(2) q'_def split: if_splits)
    show "\<exists>y. deref_loc lc' t' = Some y \<and> to_id y = j" if "map_of (tb_where (t'\<lparr>tb_where := om_erase i (tb_where t)\<rparr>)) j = Some lc'" for j lc'
      using that D(3) [of j lc'] keep by (auto simp: map_of_om_erase split: if_splits)
    show "totals s t' p \<noteq> None" if "map_of (levels s t') p \<noteq> None" for s p
    proof -
      have "totals s t' p = (if s = ?s \<and> p = ?p then (if q' = [] then None else Some (tq - to_qty x)) else totals s t p)" by (simp add: t'_def)
      then show ?thesis using that D(4) [of s p] by (auto simp: lv split: if_splits)
    qed
  qed
  then show ?thesis using e w(1) by blast
qed

lemma tb_fill_safe:
  assumes "tb_safe t"
  shows "\<exists>ok t'. tb_fill i qty t = Some (ok, t') \<and> tb_safe t'"
proof (cases "map_of (tb_where t) i")
  case (Some lc)
  obtain x where x: "deref_loc lc t = Some x" using tb_safeD(3) [OF assms Some] by blast
  show ?thesis
  proof (cases "to_qty x < qty")
    case False
    let ?r = "set_qty_at lc (to_qty x - qty) t"
    let ?t = "set_totals (tl_side lc) ((totals (tl_side lc) ?r)(tl_px lc \<mapsto> or_zero (totals (tl_side lc) ?r (tl_px lc)) - qty)) ?r"
    have "tb_safe ?t" by (rule requantify_safe [OF assms, of _ lc "to_qty x - qty"]) (auto simp: set_qty_at_def)
    then show ?thesis using False Some x by (auto simp: tb_fill_def Let_def)
  qed (use Some x assms in \<open>auto simp: tb_fill_def\<close>)
qed (use assms in \<open>auto simp: tb_fill_def\<close>)

lemma tb_remove_safe:
  assumes "tb_safe t"
  shows "\<exists>t'. tb_remove i t = Some t' \<and> tb_safe t'"
  using assms erase_at_safe [OF assms, of i] by (cases "map_of (tb_where t) i") (fastforce simp: tb_remove_def)+

lemma tb_change_safe:
  assumes "tb_safe t"
  shows "\<exists>t'. tb_change i px qty ts t = Some t' \<and> tb_safe t'"
proof (cases "map_of (tb_where t) i")
  case (Some lc)
  obtain x where x: "deref_loc lc t = Some x" using tb_safeD(3) [OF assms Some] by blast
  show ?thesis
  proof (cases "px = tl_px lc \<and> qty \<le> to_qty x")
    case True
    let ?m = "totals (tl_side lc) t"
    let ?t = "set_qty_at lc qty (set_totals (tl_side lc) (?m(tl_px lc \<mapsto> or_zero (?m (tl_px lc)) - (to_qty x - qty))) t)"
    have "tb_safe ?t" by (rule requantify_safe [OF assms, of _ lc qty]) (auto simp: set_qty_at_def)
    then show ?thesis using True Some x by (simp add: tb_change_def Let_def)
  next
    case False
    obtain t' where t': "erase_at lc t = Some t'" "tb_where t' = tb_where t" "tb_safe (t'\<lparr>tb_where := om_erase i (tb_where t)\<rparr>)"
      using erase_at_safe [OF assms Some] by blast
    have "tb_change i px qty ts t = Some (tb_add i (tl_side lc) px qty ts (t'\<lparr>tb_where := om_erase i (tb_where t)\<rparr>))"
      using False Some x t'(1,2) by (auto simp: tb_change_def)
    then show ?thesis using tb_add_safe [OF t'(3)] by blast
  qed
qed (use assms in \<open>simp add: tb_change_def\<close>)

lemma tb_find_safe:
  "tb_safe t \<Longrightarrow> tb_find i t = Some (side, px, x) \<Longrightarrow> x \<noteq> None"
  using tb_safeD(3) [of t i] by (auto simp: tb_find_def)

end
