(* ===== verification/L3_Replay_Properties.thy ===== *)
theory L3_Replay_Properties
  imports L3_Replay L3_Safe Book_Queries
begin

text \<open>
  Pass two on any file: it is defined unless a snapshot leaves a side of the book empty, its engine is at every moment
  what the emitted commands make of a fresh book, and its score sheet balances.
\<close>

section \<open>Invariant\<close>

text \<open>The engine is the run of what was emitted since its configuration line.\<close>

definition logged :: "engine option \<Rightarrow> emit_line list \<Rightarrow> bool" where
  "logged eo log \<longleftrightarrow> (\<forall>e. eo = Some e \<longrightarrow> (\<exists>pre cfg cmds e0 evs. log = pre @ EmitConfig cfg # map EmitCommand cmds \<and>
     ob_init AosStore locality_fingerprint 0 cfg = Some e0 \<and> ob_run AosStore e0 cmds = Some (e, evs) \<and> (\<forall>c \<in> set cmds. c_tif c \<noteq> Fok)))"

definition tally :: "Stats \<Rightarrow> bool \<Rightarrow> bool" where
  "tally s active \<longleftrightarrow> s_episodes s = s_exact s + s_mismatched s + (if active then 1 else 0)"

definition rp_inv :: "Replay \<Rightarrow> bool" where
  "rp_inv st \<longleftrightarrow> tb_safe (rp_truth st) \<and> ac_ok (rp_accounts st) \<and> logged (rp_engine st) (rp_emit st) \<and>
    (rp_synced st \<longrightarrow> rp_engine st \<noteq> None) \<and> tally (rp_st st) (ep_active st) \<and>
    (\<forall>r \<in> set (rp_pre_snapshot st). l_kind r \<noteq> SnapOrder \<and> l_kind r \<noteq> SnapEnd)"

text \<open>What the repair loops do to the state: only the engine, its log and the compressed accounts move.\<close>

definition eng_step :: "Replay \<Rightarrow> Replay \<Rightarrow> bool" where
  "eng_step st st' \<longleftrightarrow> (\<exists>e em ac. st' = st\<lparr>rp_engine := Some e, rp_emit := em, rp_accounts := ac\<rparr> \<and> logged (Some e) em \<and> ac_ok ac)"

definition fine :: "Replay option \<Rightarrow> bool" where
  "fine x \<longleftrightarrow> (\<exists>st. x = Some st \<and> rp_inv st \<and> rp_engine st \<noteq> None)"

definition steps :: "Replay \<Rightarrow> ('a \<times> Replay) option \<Rightarrow> bool" where
  "steps st x \<longleftrightarrow> (\<exists>a st'. x = Some (a, st') \<and> eng_step st st')"

text \<open>Sample records.\<close>

definition snap_rec :: "u8 \<Rightarrow> u64 \<Rightarrow> u64 \<Rightarrow> Price \<Rightarrow> u8 \<Rightarrow> Rec" where
  "snap_rec k n i px side = \<lparr>l_seq = n, l_ts = 0, l_id = i, l_id2 = 0, l_px = px, l_px2 = 0, l_q = 5, l_q2 = 0, l_kind = k, l_side = side,
     l_otype = 0, l_flags = 0, l_pad = 0\<rparr>"

section \<open>The engine\<close>

lemma ob_run_snoc:
  "ob_run ops b cs = Some (b', evs) \<Longrightarrow> ob_process ops c b' = Some (b'', ev) \<Longrightarrow> ob_run ops b (cs @ [c]) = Some (b'', evs @ ev)"
  by (induction cs arbitrary: b evs) (auto split: bind_splits)

lemma ob_run_refines:
  "aos.refines n Q F b rb \<Longrightarrow> \<forall>c \<in> set cs. c_tif c \<noteq> Fok \<Longrightarrow> ob_run AosStore b cs = Some (b', evs) \<Longrightarrow> \<exists>Q F rb. aos.refines n Q F b' rb"
proof (induction cs arbitrary: b rb Q F evs)
  case (Cons c cs)
  have "aos.fok_safe rb c" using Cons.prems(2) by (simp add: aos.fok_safe_def)
  then obtain b1 Q1 F1 ev where "ob_process AosStore c b = Some (b1, ev)" "aos.refines n Q1 F1 b1 (fst (rb_process rb c))"
    using aos.process_sim [OF Cons.prems(1), of c] by (metis prod.collapse)
  then show ?case using Cons.IH [of Q1 F1 b1] Cons.prems(2,3) by (auto split: bind_splits)
qed auto

lemma logged_refines:
  assumes "logged (Some e) log"
  obtains n Q F rb where "aos.refines n Q F e rb"
  using assms ob_run_refines aos.init_refines unfolding logged_def by metis

lemma at_price_defined:
  assumes "aos.refines n Q F e rb"
  shows "ob_for_each_order_at AosStore px e \<noteq> None"
proof -
  note D = aos.refinesD [OF assms]
  note S = aos.struct_invD [OF D(2)]
  let ?i = "nat (px - ob_min_price e)"
  show ?thesis
  proof (cases "px - ob_min_price e < 0 \<or> px - ob_min_price e \<ge> ob_n e")
    case False
    then have "?i < n" using S(2) by linarith
    from S(3) [OF this] show ?thesis using False aos.visit_slots_eq by (auto simp: ob_for_each_order_at_def aos.queue_links_def aos.heads_def)
  qed (simp add: ob_for_each_order_at_def)
qed

lemma eng_queries:
  assumes "logged (Some e) log"
  shows "\<exists>l. ob_for_each_order AosStore s e = Some l" "\<exists>v. ob_find_order AosStore i e = Some v" "\<exists>v. ob_contains AosStore i e = Some v"
    "\<exists>l. ob_for_each_order_at AosStore px e = Some l"
proof -
  obtain n Q F rb where R: "aos.refines n Q F e rb" using assms by (rule logged_refines)
  show "\<exists>l. ob_for_each_order AosStore s e = Some l" "\<exists>v. ob_find_order AosStore i e = Some v" "\<exists>v. ob_contains AosStore i e = Some v"
    using aos.for_each_agrees [OF R] aos.find_agrees [OF R] by blast+
  show "\<exists>l. ob_for_each_order_at AosStore px e = Some l" using at_price_defined [OF R] by blast
qed

lemma eng_stepI:
  "logged (Some e) em \<Longrightarrow> ac_ok (rp_accounts st) \<Longrightarrow> eng_step st (st\<lparr>rp_engine := Some e, rp_emit := em\<rparr>)"
  unfolding eng_step_def by (intro exI [of _ e] exI [of _ em] exI [of _ "rp_accounts st"]) simp

lemma eng_step_refl:
  assumes "rp_engine st \<noteq> None" and "logged (rp_engine st) (rp_emit st)" and "ac_ok (rp_accounts st)"
  shows "eng_step st st"
proof -
  obtain e where e: "rp_engine st = Some e" using assms(1) by blast
  have "eng_step st (st\<lparr>rp_engine := Some e, rp_emit := rp_emit st\<rparr>)" using assms e by (intro eng_stepI) simp_all
  then show ?thesis unfolding e [symmetric] by simp
qed

lemma eng_step_trans: "eng_step st st' \<Longrightarrow> eng_step st' st'' \<Longrightarrow> eng_step st st''"
  unfolding eng_step_def by (elim exE conjE) (intro exI conjI, simp, assumption, assumption)

lemma eng_step_here: "eng_step st0 st \<Longrightarrow> eng_step st st"
  by (rule eng_step_refl) (auto simp: eng_step_def)

lemma eng_ok:
  assumes "eng_step st0 st" and "f c = ob_process AosStore c" and "c_tif c \<noteq> Fok"
  shows "steps st (eng f c st)"
proof -
  obtain e where e: "rp_engine st = Some e" "logged (Some e) (rp_emit st)" "ac_ok (rp_accounts st)" using assms(1) by (auto simp: eng_step_def)
  obtain n Q F rb where R: "aos.refines n Q F e rb" using e(2) by (rule logged_refines)
  have "aos.fok_safe rb c" using assms(3) by (simp add: aos.fok_safe_def)
  then obtain e' ev where p: "ob_process AosStore c e = Some (e', ev)"
    using aos.process_sim [OF R, of c] by (metis prod.collapse)
  obtain pre cfg cmds e0 evs where L: "rp_emit st = pre @ EmitConfig cfg # map EmitCommand cmds"
    "ob_init AosStore locality_fingerprint 0 cfg = Some e0" "ob_run AosStore e0 cmds = Some (e, evs)" "\<forall>c \<in> set cmds. c_tif c \<noteq> Fok"
    using e(2) unfolding logged_def by blast
  have r: "ob_run AosStore e0 (cmds @ [c]) = Some (e', evs @ ev)" by (rule ob_run_snoc [OF L(3) p])
  have l: "rp_emit st @ [EmitCommand c] = pre @ EmitConfig cfg # map EmitCommand (cmds @ [c])" by (simp add: L(1))
  have "logged (Some e') (rp_emit st @ [EmitCommand c])"
    unfolding logged_def l using L(2,4) r assms(3) by (metis (no_types, lifting) Un_iff empty_iff empty_set list.set(2) option.inject set_append singletonD)
  then show ?thesis using e p assms(2) by (auto simp: steps_def eng_def intro: eng_stepI)
qed

lemma eng_cmds:
  assumes "eng_step st0 st"
  shows "c_type c = NewOrder \<Longrightarrow> c_tif c \<noteq> Fok \<Longrightarrow> steps st (eng_add c st)" "steps st (eng_cancel (cancel_order i) st)"
    "steps st (eng_modify (modify_order i px qty) st)" "steps st (cancel_id i st)"
  using assms unfolding eng_add_def eng_cancel_def eng_modify_def cancel_id_def
  by (auto intro!: eng_ok simp: ob_process_def fun_eq_iff cancel_order_def modify_order_def new_order_def)

lemma owner_ok: "eng_step st0 st \<Longrightarrow> steps st (rp_owner i st)"
proof -
  assume s: "eng_step st0 st"
  then obtain e where e: "rp_engine st = Some e" "logged (Some e) (rp_emit st)" "ac_ok (rp_accounts st)" by (auto simp: eng_step_def)
  obtain r ac where "ac_find i (rp_accounts st) = Some (r, ac)" "ac_ok ac" using ac_find_ok [OF e(3)] by blast
  moreover have "st\<lparr>rp_accounts := ac\<rparr> = st\<lparr>rp_engine := Some e, rp_emit := rp_emit st, rp_accounts := ac\<rparr>" unfolding e(1) [symmetric] by simp
  then have "eng_step st (st\<lparr>rp_accounts := ac\<rparr>)" if "ac_ok ac" using e(2) that unfolding eng_step_def by metis
  ultimately show ?thesis unfolding steps_def rp_owner_def ac_owner_def by simp
qed

section \<open>Loops\<close>

lemma steps_bind:
  assumes "steps st x" and "\<And>a st'. eng_step st st' \<Longrightarrow> steps st' (f (a, st'))"
  shows "steps st (Option.bind x f)"
  using assms eng_step_trans unfolding steps_def by fastforce

lemma steps_Some: "eng_step st0 st \<Longrightarrow> steps st (Some (a, st))"
  using eng_step_here by (auto simp: steps_def)

lemma steps_collect:
  "eng_step st0 st \<Longrightarrow> (\<And>x s. x \<in> set xs \<Longrightarrow> eng_step s s \<Longrightarrow> steps s (f x s)) \<Longrightarrow> steps st (collect f xs st)"
proof (induction xs arbitrary: st0 st)
  case Nil
  then show ?case using steps_Some by simp
next
  case (Cons x xs)
  show ?case unfolding collect.simps
  proof (rule steps_bind)
    show "steps st (f x st)" using Cons.prems eng_step_here by simp
    fix a s assume s: "eng_step st s"
    have "steps s (collect f xs s)" using Cons.IH [OF s] Cons.prems(2) by simp
    then show "steps s (case (a, s) of (ev, s) \<Rightarrow> collect f xs s \<bind> (\<lambda>(ev', s). Some (ev @ ev', s)))"
      unfolding prod.case by (rule steps_bind) (simp add: steps_Some)
  qed
qed

lemma seed_order_ok: "eng_step s0 s \<Longrightarrow> steps s (seed_order side po s)"
  by (auto simp: seed_order_def new_order_def split: prod.splits intro!: steps_bind steps_Some owner_ok eng_cmds(1) dest: eng_step_here)

lemma clear_level_ok:
  assumes "eng_step s0 s"
  shows "steps s (clear_level px s)"
proof -
  obtain e where e: "rp_engine s = Some e" "logged (Some e) (rp_emit s)" using assms by (auto simp: eng_step_def)
  then obtain l where "ob_for_each_order_at AosStore px e = Some l" using eng_queries(4) by blast
  then show ?thesis using e(1) assms by (auto simp: clear_level_def intro: steps_collect eng_cmds(4))
qed

lemma restore_order_ok:
  assumes "eng_step s0 s"
  shows "steps s (restore_order side px x s)"
proof -
  obtain e where e: "rp_engine s = Some e" "logged (Some e) (rp_emit s)" using assms by (auto simp: eng_step_def)
  obtain p where p: "ob_contains AosStore (to_id x) e = Some p" using eng_queries(3) [OF e(2)] by blast
  show ?thesis unfolding restore_order_def using e p assms
    by (auto simp: new_order_def intro!: steps_bind steps_Some owner_ok eng_cmds(1,4))
qed

lemma restore_level_ok:
  assumes "eng_step s0 s"
  shows "steps s (restore_level px s)"
proof (cases "in_band px s")
  case True
  have "steps s (case q of None \<Rightarrow> Some ([], s) | Some q \<Rightarrow> collect (restore_order side px) q s)" if "eng_step s s" for side q s
    using that by (cases q) (auto intro: steps_Some steps_collect restore_order_ok)
  then show ?thesis using True assms unfolding restore_level_def by (simp only: not_True_eq_False if_False) (rule steps_collect)
qed (use assms in \<open>simp add: restore_level_def steps_Some\<close>)

lemma rebuild_ok:
  assumes "eng_step s0 s"
  shows "\<exists>s'. rebuild_from_truth s = Some s' \<and> eng_step (stat (\<lambda>z. z\<lparr>s_rebuilds := s_rebuilds z + 1\<rparr>) s) s'"
proof -
  let ?s = "stat (\<lambda>z. z\<lparr>s_rebuilds := s_rebuilds z + 1\<rparr>) s"
  obtain e where e: "rp_engine s = Some e" "logged (Some e) (rp_emit s)" "ac_ok (rp_accounts s)" using assms by (auto simp: eng_step_def)
  have h: "eng_step ?s ?s" by (rule eng_step_refl) (simp_all add: stat_def e)
  obtain b a where ba: "ob_for_each_order AosStore Buy e = Some b" "ob_for_each_order AosStore Sell e = Some a" using eng_queries(1) [OF e(2)] by blast
  let ?ids = "map (\<lambda>(px, i, q). i) (b @ a)" and ?seed = "\<lambda>s st. collect (seed_order s) (tb_for_each s (rp_truth st)) st"
  have "steps ?s (collect cancel_id ?ids ?s)" by (rule steps_collect [OF h]) (rule eng_cmds(4))
  then obtain ev s1 where s1: "collect cancel_id ?ids ?s = Some (ev, s1)" "eng_step ?s s1" by (auto simp: steps_def)
  have "steps s1 (collect ?seed [Buy, Sell] s1)" by (rule steps_collect [OF s1(2)]) (rule steps_collect, assumption, rule seed_order_ok)
  then obtain ev' s2 where s2: "collect ?seed [Buy, Sell] s1 = Some (ev', s2)" "eng_step s1 s2" by (auto simp: steps_def)
  have "rp_engine ?s = Some e" by (simp add: stat_def e)
  then have "rebuild_from_truth s = Some s2" unfolding rebuild_from_truth_def Let_def by (simp only: bind.bind_lunit ba s1(1) s2(1) prod.case)
  then show ?thesis using eng_step_trans [OF s1(2) s2(2)] by blast
qed

lemma repair_ok:
  assumes "eng_step s0 s"
  shows "steps (stat (\<lambda>z. z\<lparr>s_repairs := s_repairs z + 1\<rparr>) s) (repair_levels pxs s)"
proof -
  let ?s = "stat (\<lambda>z. z\<lparr>s_repairs := s_repairs z + 1\<rparr>) s"
  have h: "eng_step ?s ?s" using assms by (intro eng_step_refl) (auto simp: stat_def eng_step_def)
  show ?thesis unfolding repair_levels_def Let_def
  proof (rule steps_bind)
    show "steps ?s (collect clear_level pxs ?s)" by (rule steps_collect [OF h]) (rule clear_level_ok)
    fix ev s1 assume s1: "eng_step ?s s1"
    have "steps s1 (collect restore_level pxs s1)" by (rule steps_collect [OF s1]) (rule restore_level_ok)
    then show "steps s1 (case (ev, s1) of (ev, st) \<Rightarrow> collect restore_level pxs st \<bind> (\<lambda>(ev', st). Some (\<forall>e \<in> set (ev @ ev'). e_type e \<noteq> Trade, st)))"
      unfolding prod.case by (rule steps_bind) (simp add: steps_Some)
  qed
qed

section \<open>Handlers\<close>

lemma stat_frame [simp]:
  "rp_truth (stat f st) = rp_truth st" "rp_accounts (stat f st) = rp_accounts st" "rp_engine (stat f st) = rp_engine st"
  "rp_emit (stat f st) = rp_emit st" "rp_synced (stat f st) = rp_synced st" "rp_pre_snapshot (stat f st) = rp_pre_snapshot st"
  "ep_active (stat f st) = ep_active st" "rp_st (stat f st) = f (rp_st st)"
  by (simp_all add: stat_def)

lemma inv_stat [simp]:
  "s_episodes (f (rp_st st)) = s_episodes (rp_st st) \<Longrightarrow> s_exact (f (rp_st st)) = s_exact (rp_st st) \<Longrightarrow>
   s_mismatched (f (rp_st st)) = s_mismatched (rp_st st) \<Longrightarrow> rp_inv (stat f st) = rp_inv st"
  by (simp add: rp_inv_def tally_def)

text \<open>Fields the invariant does not read.\<close>

lemma inv_frame [simp]:
  "rp_inv (st\<lparr>rp_modify_fills := v1\<rparr>) = rp_inv st" "rp_inv (st\<lparr>ep_actual := v2\<rparr>) = rp_inv st" "rp_inv (st\<lparr>ep_seq := v3\<rparr>) = rp_inv st"
  "rp_inv (st\<lparr>ep_taker_px := v4\<rparr>) = rp_inv st" "rp_inv (st\<lparr>rp_repair_px := v5\<rparr>) = rp_inv st" "rp_inv (st\<lparr>ep_stp := v6\<rparr>) = rp_inv st"
  "rp_inv (st\<lparr>ep_taker_rested := v6\<rparr>) = rp_inv st" "rp_inv (st\<lparr>rp_cancel_count := v3\<rparr>) = rp_inv st" "rp_inv (st\<lparr>rp_need_rebuild := v6\<rparr>) = rp_inv st"
  "rp_inv (st\<lparr>rp_pending_check := v6\<rparr>) = rp_inv st" "rp_inv (st\<lparr>rp_last_seq := v3\<rparr>) = rp_inv st" "rp_inv (st\<lparr>rp_last_check := v3\<rparr>) = rp_inv st"
  by (simp_all add: rp_inv_def)

lemma inv_truth: "rp_inv st \<Longrightarrow> tb_safe t \<Longrightarrow> rp_inv (st\<lparr>rp_truth := t\<rparr>)"
  by (simp add: rp_inv_def)

lemma inv_safe: "rp_inv st \<Longrightarrow> tb_safe (rp_truth st)"
  by (simp add: rp_inv_def)

lemma inv_here: "rp_inv st \<Longrightarrow> rp_engine st \<noteq> None \<Longrightarrow> eng_step st st"
  by (rule eng_step_refl) (simp_all add: rp_inv_def)

lemma inv_step: "rp_inv st \<Longrightarrow> eng_step st st' \<Longrightarrow> rp_inv st' \<and> rp_engine st' \<noteq> None"
  by (auto simp: rp_inv_def eng_step_def)

lemma inv_engine: "rp_inv st \<Longrightarrow> rp_engine st = Some e \<Longrightarrow> logged (Some e) (rp_emit st)"
  by (simp add: rp_inv_def)

lemma fine_Some [simp]: "fine (Some st) \<longleftrightarrow> rp_inv st \<and> rp_engine st \<noteq> None"
  by (simp add: fine_def)

lemma fine_bind: "fine x \<Longrightarrow> (\<And>s. rp_inv s \<Longrightarrow> rp_engine s \<noteq> None \<Longrightarrow> fine (f s)) \<Longrightarrow> fine (Option.bind x f)"
  by (auto simp: fine_def)

lemma fine_steps:
  "rp_inv st \<Longrightarrow> steps st x \<Longrightarrow> (\<And>a s. rp_inv s \<Longrightarrow> rp_engine s \<noteq> None \<Longrightarrow> eng_step st s \<Longrightarrow> fine (f (a, s))) \<Longrightarrow> fine (Option.bind x f)"
  using inv_step unfolding steps_def by fastforce

lemma close_ok: "rp_inv st \<Longrightarrow> rp_inv (close_episode st)" "rp_engine (close_episode st) = rp_engine st" "ep_active (close_episode st) = False"
proof -
  show "rp_inv (close_episode st)" if "rp_inv st"
    using that by (cases "ep_pred st = ep_actual st") (simp_all add: close_episode_def Let_def rp_inv_def tally_def)
qed (simp_all add: close_episode_def Let_def)

lemma close_frame [simp]:
  "rp_truth (close_episode st) = rp_truth st" "rp_accounts (close_episode st) = rp_accounts st" "rp_emit (close_episode st) = rp_emit st"
  "rp_synced (close_episode st) = rp_synced st" "rp_pre_snapshot (close_episode st) = rp_pre_snapshot st"
  by (simp_all add: close_episode_def Let_def)

lemma open_ok [simp]: "rp_engine (open_episode i ev k st) = rp_engine st"
  by (simp add: open_episode_def Let_def close_ok)

lemma open_inv: "rp_inv st \<Longrightarrow> rp_inv (open_episode i ev k st)"
  using close_ok(1,3) [of st] by (simp add: open_episode_def Let_def rp_inv_def tally_def)

lemma market_command_ok:
  "market_command r info c st = (c', st') \<Longrightarrow> c_type c' = c_type c \<and> c_tif c' = c_tif c \<and> rp_inv st' = rp_inv st \<and> rp_engine st' = rp_engine st"
  by (auto simp: market_command_def Let_def split: if_splits)

lemma limit_command_ok:
  "limit_command r info c st = (cmd, st') \<Longrightarrow> rp_inv st' = rp_inv st \<and> rp_engine st' = rp_engine st \<and>
   (\<forall>c'. cmd = Some c' \<longrightarrow> c_type c' = c_type c \<and> (c_tif c' = c_tif c \<or> c_tif c' = Ioc))"
  by (auto simp: limit_command_def Let_def split: if_splits)

lemma arrival_command_ok:
  assumes "arrival_command r side own st = (cmd, st')"
  shows "rp_inv st' = rp_inv st" "rp_engine st' = rp_engine st" "cmd = Some c \<Longrightarrow> c_type c = NewOrder \<and> c_tif c \<noteq> Fok"
proof -
  let ?info = "life_at (rp_life st) (l_id r)" and ?c = "new_order (l_id r) side 0 0 own"
  obtain c1 s1 where p: "(if lf_stp ?info \<noteq> StpNone
      then (?c\<lparr>c_flags := c_flags ?c OR stp_flag (lf_stp ?info)\<rparr>, stat (\<lambda>s. s\<lparr>s_stp_orders := s_stp_orders s + 1\<rparr>) st) else (?c, st)) = (c1, s1)"
    by (rule prod.exhaust)
  have c1: "c_type c1 = NewOrder" "c_tif c1 = Day" "rp_inv s1 = rp_inv st" "rp_engine s1 = rp_engine st"
    using p by (auto simp: new_order_def split: if_splits)
  have a: "(if l_otype r = 1 then map_prod Some id (market_command r ?info c1 s1) else limit_command r ?info c1 s1) = (cmd, st')"
    using assms unfolding arrival_command_def Let_def p prod.case .
  obtain cm sm where m: "market_command r ?info c1 s1 = (cm, sm)" by (rule prod.exhaust)
  note M = market_command_ok [OF m] and L = limit_command_ok [of r ?info c1 s1 cmd st']
  show "rp_inv st' = rp_inv st" "rp_engine st' = rp_engine st"
    using a M L c1 by (cases "l_otype r = 1"; simp add: m; metis)+
  show "c_type c = NewOrder \<and> c_tif c \<noteq> Fok" if "cmd = Some c"
    using a M L c1(1,2) that by (cases "l_otype r = 1") (auto simp: m)
qed

lemma fine_episode:
  assumes "rp_inv s" and "rp_engine s \<noteq> None" and "c_type c = NewOrder" and "c_tif c \<noteq> Fok"
  shows "fine (eng_add c s \<bind> (\<lambda>(ev, st). Some ((open_episode i ev True st)\<lparr>ep_seq := n, ep_taker_px := p\<rparr>)))"
  using assms by (intro fine_steps [OF assms(1)] eng_cmds(1) [OF inv_here]) (simp_all add: open_inv)

lemma received_ok:
  assumes "rp_inv st" and "rp_engine st \<noteq> None"
  shows "fine (on_received r side st)"
  unfolding on_received_def Let_def
proof (rule fine_steps)
  let ?st = "stat (\<lambda>s. s\<lparr>s_received := s_received s + 1\<rparr>) st"
  show i: "rp_inv ?st" using assms by simp
  show "steps ?st (rp_owner (l_id r) ?st)" by (rule owner_ok [OF inv_here [OF i]]) (simp add: assms)
next
  fix own s assume s: "rp_inv s" "rp_engine s \<noteq> None"
  obtain cmd s2 where cmd: "arrival_command r side own s = (cmd, s2)" by (rule prod.exhaust)
  note A = arrival_command_ok [OF cmd]
  show "fine (case (own, s) of (own, st) \<Rightarrow> case arrival_command r side own st of (None, st) \<Rightarrow> Some st
      | (Some c, st) \<Rightarrow> if c_qty c = 0 then Some ((open_episode (l_id r) [] False st)\<lparr>ep_seq := l_seq r\<rparr>)
          else eng_add c st \<bind> (\<lambda>(ev, st). Some ((open_episode (l_id r) ev True st)\<lparr>ep_seq := l_seq r, ep_taker_px := if c_ord_type c = Limit then c_price c else 0\<rparr>)))"
  proof (cases cmd)
    case (Some c)
    show ?thesis unfolding prod.case cmd Some option.case
      using A(3) [OF Some] s fine_episode [of s2 c] by (simp add: A(1,2) open_inv)
  qed (use s A(1,2) in \<open>simp add: cmd\<close>)
qed

lemma fine_then:
  assumes "rp_inv st" and "steps st x" and "\<And>s. rp_inv s \<Longrightarrow> rp_engine s \<noteq> None \<Longrightarrow> fine (f s)"
  shows "fine (x \<bind> (\<lambda>(_, s). f s))"
  by (rule fine_steps [OF assms(1,2)]) (simp add: assms(3))

lemma modify_command_ok:
  assumes "rp_inv st" and "rp_engine st \<noteq> None"
  shows "\<exists>st1. rp_inv st1 \<and> steps st1 (modify_command i side px qty st)"
proof (cases "in_band px st")
  case False
  let ?st = "stat (\<lambda>s. s\<lparr>s_modify_out_of_band := s_modify_out_of_band s + 1\<rparr>) st"
  have i: "rp_inv ?st" "eng_step ?st ?st" using assms inv_here [of ?st] by simp_all
  have "steps ?st (modify_command i side px qty st)" unfolding modify_command_def using False
    by (simp only: not_False_eq_True if_True) (rule steps_bind [OF eng_cmds(2) [OF i(2)]], simp add: steps_Some)
  then show ?thesis using i(1) by blast
next
  case True
  obtain e where e: "rp_engine st = Some e" using assms(2) by blast
  obtain p where p: "ob_contains AosStore i e = Some p" using eng_queries(3) [OF inv_engine [OF assms(1) e]] by blast
  note h = inv_here [OF assms]
  have "steps st (rp_owner i st \<bind> (\<lambda>(own, st). eng_add (new_order i side px qty own) st))"
    by (rule steps_bind [OF owner_ok [OF h]]) (simp add: eng_cmds(1) new_order_def)
  then have "steps st (modify_command i side px qty st)" using True e p eng_cmds(3) [OF h] by (simp add: modify_command_def)
  then show ?thesis using assms(1) by blast
qed

lemma modify_episode_ok:
  assumes "rp_inv st" and "rp_engine st \<noteq> None"
  shows "fine (modify_episode i side new_px old_px remainder sq st)"
proof -
  let ?fills = "case rp_modify_fills st i of None \<Rightarrow> [] | Some f \<Rightarrow> f"
  let ?st = "st\<lparr>rp_modify_fills := (rp_modify_fills st)(i := None)\<rparr>" and ?filled = "sum_list (map et_qty ?fills)"
  obtain px s1 where p: "(if \<not> in_band new_px ?st \<and> remainder = 0 \<and> ?filled > 0
      then (clamp_px new_px ?st, stat (\<lambda>s. s\<lparr>s_clamped := s_clamped s + 1\<rparr>) ?st) else (new_px, ?st)) = (px, s1)"
    by (rule prod.exhaust)
  have s1: "rp_inv s1" "rp_engine s1 \<noteq> None" using p assms by (auto split: if_splits)
  obtain s0 where s0: "rp_inv s0" "steps s0 (modify_command i side px (remainder + ?filled) s1)" using modify_command_ok [OF s1] by blast
  show ?thesis unfolding modify_episode_def Let_def p prod.case
  proof (rule fine_steps [OF s0])
    fix ev s assume s: "rp_inv s" "rp_engine s \<noteq> None"
    let ?s = "(open_episode i ev True s)\<lparr>ep_actual := ?fills\<rparr>"
    have i: "rp_inv ?s" "rp_engine ?s \<noteq> None" using s by (simp_all add: open_inv)
    have "steps ?s (if remainder = 0 then eng_cancel (cancel_order i) ?s else Some ([], ?s))"
      by (simp add: eng_cmds(2) [OF inv_here [OF i]] steps_Some [OF inv_here [OF i]])
    then show "fine (case (ev, s) of (ev, st) \<Rightarrow> (if remainder = 0 then eng_cancel (cancel_order i) ((open_episode i ev True st)\<lparr>ep_actual := ?fills\<rparr>)
        else Some ([], (open_episode i ev True st)\<lparr>ep_actual := ?fills\<rparr>)) \<bind>
        (\<lambda>(_, st). Some (st\<lparr>ep_seq := sq, ep_taker_px := px, rp_repair_px := rp_repair_px st @ [old_px]\<rparr>)))"
      unfolding prod.case by (rule fine_then [OF i(1)]) simp
  qed
qed

lemma change_ok:
  assumes "rp_inv st" and "rp_engine st \<noteq> None"
  shows "fine (on_change r st)"
proof (cases "has_flag FundsChange r \<or> tb_find (l_id r) (rp_truth st) = None")
  case False
  then obtain side old_px x where f: "\<not> has_flag FundsChange r" "tb_find (l_id r) (rp_truth st) = Some (side, old_px, x)" by auto
  let ?px = "if l_px r \<noteq> 0 then l_px r else old_px"
  obtain t where t: "tb_change (l_id r) ?px (l_q r) (l_ts r) (rp_truth st) = Some t" "tb_safe t"
    using tb_change_safe [OF inv_safe [OF assms(1)]] by metis
  let ?st = "st\<lparr>rp_truth := t\<rparr>"
  have i: "rp_inv ?st" "rp_engine ?st \<noteq> None" using assms t(2) by (simp_all add: inv_truth)
  show ?thesis
  proof (cases "has_flag FStp r")
    case True
    let ?s = "stat (\<lambda>s. s\<lparr>s_stp_changes := s_stp_changes s + 1\<rparr>) ?st"
    let ?s = "if ep_active ?s then ?s\<lparr>ep_stp := True\<rparr> else ?s"
    have j: "rp_inv ?s" "rp_engine ?s \<noteq> None" using i by (simp_all del: stat_frame add: stat_def) (simp_all add: rp_inv_def tally_def)
    have "fine (eng_modify (modify_order (l_id r) ?px (l_q r)) ?s \<bind> (\<lambda>(_, st). Some st))"
      by (rule fine_then [OF j(1) eng_cmds(3) [OF inv_here [OF j]]]) simp
    then show ?thesis using f t(1) True by (simp add: on_change_def Let_def)
  next
    case False
    let ?s = "stat (\<lambda>s. s\<lparr>s_modifies := s_modifies s + 1\<rparr>) ?st"
    have "fine (modify_episode (l_id r) side ?px old_px (l_q r) (l_seq r) ?s)" using i by (intro modify_episode_ok) simp_all
    then show ?thesis using f t(1) False by (simp add: on_change_def Let_def)
  qed
qed (use assms in \<open>auto simp: on_change_def\<close>)

lemma open_msg_ok:
  assumes "rp_inv st" and "rp_engine st \<noteq> None"
  shows "fine (on_open r side st)"
proof -
  let ?st = "st\<lparr>rp_truth := tb_add (l_id r) side (l_px r) (l_q r) (l_ts r) (rp_truth st)\<rparr>"
  have i: "rp_inv ?st" using assms(1) by (intro inv_truth tb_add_safe inv_safe)
  obtain e where e: "rp_engine st = Some e" using assms(2) by blast
  obtain v where v: "ob_find_order AosStore (l_id r) e = Some v" using eng_queries(2) [OF inv_engine [OF assms(1) e]] by blast
  show ?thesis
  proof (cases "ep_active ?st \<and> l_id r = ep_taker ?st")
    case True
    then show ?thesis using i e v by (simp add: on_open_def Let_def)
  next
    case False
    then show ?thesis using i e by (auto simp: on_open_def Let_def)
  qed
qed

lemma fine_cancel: "rp_inv st \<Longrightarrow> rp_engine st \<noteq> None \<Longrightarrow> fine (eng_cancel (cancel_order i) st \<bind> (\<lambda>(_, st). Some st))"
  by (rule fine_then [OF _ eng_cmds(2) [OF inv_here]]) simp_all

lemma drop_unmatched_ok:
  assumes "rp_inv st" and "rp_engine st \<noteq> None"
  shows "fine (drop_unmatched i st)"
proof (cases "tb_find i (rp_truth st)")
  case (Some f)
  then obtain s p x where "f = (s, p, Some x)" using tb_find_safe [OF inv_safe [OF assms(1)]] by (cases f) force
  then show ?thesis using Some assms fine_cancel by (simp add: drop_unmatched_def Let_def)
qed (use assms in \<open>simp add: drop_unmatched_def\<close>)

lemma cancel_resting_ok:
  assumes "rp_inv st" and "rp_engine st \<noteq> None"
  shows "fine (cancel_resting i st)"
proof -
  define s where "s = (let st = stat (\<lambda>s. s\<lparr>s_cancels := s_cancels s + 1\<rparr>) st
    in if ep_active st \<and> i \<noteq> ep_taker st \<and> ep_actual st \<noteq> [] then st\<lparr>ep_stp := True\<rparr> else st)"
  have s: "rp_inv s" "rp_engine s \<noteq> None" using assms by (auto simp: s_def Let_def)
  let ?s = "s\<lparr>rp_cancel_count := rp_cancel_count s + 1\<rparr>"
  have t: "rp_inv ?s" "rp_engine ?s \<noteq> None" using s by simp_all
  show ?thesis unfolding cancel_resting_def Let_def s_def [unfolded Let_def, symmetric]
    using fine_cancel [OF s] fine_cancel [OF t] t by (cases "rp_drop_cancel_every s = 0") (simp_all del: inv_frame)
qed

lemma done_ok:
  assumes "rp_inv st" and "rp_engine st \<noteq> None"
  shows "fine (on_done r st)"
proof -
  have m: "fine (if rp_modify_fills st (l_id r) \<noteq> None
      then let (mside, old_px) = (case tb_find (l_id r) (rp_truth st) of None \<Rightarrow> (Buy, 0) | Some (s, p, _) \<Rightarrow> (s, p));
               st = stat (\<lambda>s. s\<lparr>s_modifies := s_modifies s + 1, s_fill_modifies := s_fill_modifies s + 1\<rparr>) st
           in modify_episode (l_id r) mside (l_px r) old_px 0 (l_seq r) st
      else Some st)" (is "fine ?m")
    using assms by (auto simp: Let_def intro!: modify_episode_ok split: prod.split)
  let ?fm = "rp_modify_fills st (l_id r) \<noteq> None"
  have d: "fine ((if c then drop_unmatched (l_id r) s else Some s) \<bind> (\<lambda>st. tb_remove (l_id r) (rp_truth st) \<bind> (\<lambda>t.
      if b then cancel_resting (l_id r) (st\<lparr>rp_truth := t\<rparr>) else Some (st\<lparr>rp_truth := t\<rparr>))))"
    if "rp_inv s" "rp_engine s \<noteq> None" for c b s
  proof (rule fine_bind)
    show "fine (if c then drop_unmatched (l_id r) s else Some s)" using that drop_unmatched_ok by simp
  next
    fix s assume s: "rp_inv s" "rp_engine s \<noteq> None"
    obtain t where t: "tb_remove (l_id r) (rp_truth s) = Some t" "tb_safe t" using tb_remove_safe [OF inv_safe [OF s(1)]] by blast
    have "rp_inv (s\<lparr>rp_truth := t\<rparr>)" "rp_engine (s\<lparr>rp_truth := t\<rparr>) \<noteq> None" using s t(2) by (simp_all add: inv_truth)
    then show "fine (tb_remove (l_id r) (rp_truth s) \<bind> (\<lambda>t. if b then cancel_resting (l_id r) (s\<lparr>rp_truth := t\<rparr>) else Some (s\<lparr>rp_truth := t\<rparr>)))"
      using cancel_resting_ok [of "s\<lparr>rp_truth := t\<rparr>"] t(1) by simp
  qed
  show ?thesis unfolding on_done_def Let_def by (rule fine_bind [OF m [unfolded Let_def]]) (rule d)
qed

lemma match_ok:
  assumes "rp_inv st" and "rp_engine st \<noteq> None"
  shows "fine (on_match r st)"
proof -
  obtain b t where t: "tb_fill (l_id2 r) (l_q r) (rp_truth st) = Some (b, t)" "tb_safe t" using tb_fill_safe [OF inv_safe [OF assms(1)]] by blast
  then have "rp_inv (st\<lparr>rp_truth := t\<rparr>)" using assms(1) by (simp add: inv_truth)
  then show ?thesis using t(1) assms(2) by (simp add: on_match_def Let_def)
qed

lemma rebuild_fine:
  assumes "rp_inv st" and "rp_engine st \<noteq> None"
  shows "fine (rebuild_from_truth st)"
proof -
  obtain s where s: "rebuild_from_truth st = Some s" "eng_step (stat (\<lambda>z. z\<lparr>s_rebuilds := s_rebuilds z + 1\<rparr>) st) s"
    using rebuild_ok [OF inv_here [OF assms]] by blast
  have "rp_inv (stat (\<lambda>z. z\<lparr>s_rebuilds := s_rebuilds z + 1\<rparr>) st)" using assms(1) by simp
  then show ?thesis using inv_step [OF _ s(2)] s(1) by simp
qed

lemma repair_pending_ok:
  assumes "rp_inv st" and "rp_engine st \<noteq> None"
  shows "fine (repair_pending r st)"
proof (cases "rp_need_rebuild st \<and> starts_episode r")
  case True
  let ?st = "st\<lparr>rp_need_rebuild := False\<rparr>"
  let ?s = "stat (\<lambda>z. z\<lparr>s_repairs := s_repairs z + 1\<rparr>) ?st"
  have i: "rp_inv ?st" "rp_engine ?st \<noteq> None" using assms by simp_all
  have j: "rp_inv ?s" using i(1) by (simp del: inv_frame)
  show ?thesis unfolding repair_pending_def if_P [OF True]
  proof (rule fine_steps [OF j repair_ok [OF inv_here [OF i]]])
    fix ok s assume s: "rp_inv s" "rp_engine s \<noteq> None"
    have "fine (if \<not> ok then rebuild_from_truth s else Some s)" using rebuild_fine [OF s] s by simp
    then show "fine (case (ok, s) of (ok, st) \<Rightarrow> (if \<not> ok then rebuild_from_truth st else Some st) \<bind> (\<lambda>st. Some (st\<lparr>rp_repair_px := []\<rparr>)))"
      unfolding prod.case by (rule fine_bind) simp
  qed
qed (use assms in \<open>auto simp: repair_pending_def\<close>)

lemma check_pending_ok:
  assumes "rp_inv st" and "rp_engine st \<noteq> None"
  shows "fine (check_pending r st)"
proof -
  have "fine (full_check s)" if s: "rp_inv s" "rp_engine s \<noteq> None" for s
  proof -
    let ?s = "stat (\<lambda>s. s\<lparr>s_book_checks := s_book_checks s + 1\<rparr>) s"
    obtain e where e: "rp_engine s = Some e" using s(2) by blast
    obtain b a where "ob_for_each_order AosStore Buy e = Some b" "ob_for_each_order AosStore Sell e = Some a"
      using eng_queries(1) [OF inv_engine [OF s(1) e]] by blast
    then obtain q where q: "books_equal ?s = Some q" using e by (cases "b \<noteq> truth_listing Buy ?s") (simp_all add: books_equal_def)
    have "fine (rebuild_from_truth (stat (\<lambda>s. s\<lparr>s_book_check_failures := s_book_check_failures s + 1\<rparr>) ?s))"
      using s by (intro rebuild_fine) simp_all
    then show ?thesis using s q by (simp add: full_check_def Let_def)
  qed
  from this [of "st\<lparr>rp_pending_check := False\<rparr>"] show ?thesis using assms by (simp add: check_pending_def)
qed

lemma dispatch_ok: "rp_inv st \<Longrightarrow> rp_engine st \<noteq> None \<Longrightarrow> fine (dispatch r st)"
  using received_ok open_msg_ok done_ok match_ok change_ok by (simp add: dispatch_def Let_def)

section \<open>Messages and snapshots\<close>

lemma on_msg_ok:
  assumes "rp_inv st" and k: "l_kind r \<noteq> SnapOrder" "l_kind r \<noteq> SnapEnd"
  shows "\<exists>st'. on_msg r st = Some st' \<and> rp_inv st'"
proof (cases "rp_synced st \<and> l_seq r > rp_snap_seq st \<and> l_seq r = rp_last_seq st + 1")
  case True
  define s where "s = (let st = st\<lparr>rp_last_seq := l_seq r\<rparr> in if \<not> in_episode r st then close_episode st else st)"
  have "rp_engine st \<noteq> None" using assms(1) True by (simp add: rp_inv_def)
  then have s: "rp_inv s" "rp_engine s \<noteq> None" using close_ok [of "st\<lparr>rp_last_seq := l_seq r\<rparr>"] assms(1) by (auto simp: s_def Let_def)
  let ?last = "\<lambda>st. if rp_check_every st \<noteq> 0 \<and> s_records (rp_st st) - rp_last_check st \<ge> rp_check_every st \<and> l_kind r = Received
    then st\<lparr>rp_last_check := s_records (rp_st st), rp_pending_check := True\<rparr> else st"
  have "fine (repair_pending r s \<bind> (\<lambda>st. check_pending r st \<bind> (\<lambda>st. dispatch r st \<bind> (\<lambda>st. Some (?last st)))))"
    by (intro fine_bind repair_pending_ok [OF s] check_pending_ok dispatch_ok) simp_all
  moreover have "\<not> l_seq r \<le> rp_snap_seq st" using True unfolding not_le by blast
  then have "on_msg r st = repair_pending r s \<bind> (\<lambda>st. check_pending r st \<bind> (\<lambda>st. dispatch r st \<bind> (\<lambda>st. Some (?last st))))"
    unfolding on_msg_def s_def Let_def using True by simp
  ultimately show ?thesis unfolding fine_def by metis
next
  case False
  have "rp_inv (lose_feed r st)" using assms by (auto simp: lose_feed_def abandon_episode_def Let_def rp_inv_def tally_def)
  moreover have "rp_inv (st\<lparr>rp_pre_snapshot := rp_pre_snapshot st @ [r]\<rparr>)" using assms by (auto simp: rp_inv_def)
  ultimately show ?thesis using False assms(1) by (auto simp: on_msg_def)
qed

lemma each_msg_ok:
  "rp_inv st \<Longrightarrow> \<forall>r \<in> set rs. l_kind r \<noteq> SnapOrder \<and> l_kind r \<noteq> SnapEnd \<Longrightarrow> \<exists>st'. for_each on_msg rs st = Some st' \<and> rp_inv st'"
proof (induction rs arbitrary: st)
  case (Cons r rs)
  then show ?case using on_msg_ok [of st r] by fastforce
qed simp

lemma make_engine_ok:
  assumes "rp_inv st"
  shows "fine (make_engine st)"
proof -
  let ?cfg = "\<lparr>cfg_min_price = 0, cfg_num_levels = kLevels, cfg_max_orders = kMaxOrders, cfg_stp = (if rp_stp st then CancelResting else StpNone)\<rparr>"
  obtain e where e: "ob_init AosStore locality_fingerprint 0 ?cfg = Some e"
    by (simp add: ob_init_def pb_init_def kLevels_def kMaxOrders_def kNil_def)
  have "logged (Some e) (rp_emit st @ EmitConfig ?cfg # map EmitCommand [])"
    unfolding logged_def using e by (metis empty_iff empty_set ob_run.simps(1) option.inject)
  then have "logged (Some e) (rp_emit st @ [EmitConfig ?cfg])" by simp
  then show ?thesis using assms e by (simp add: make_engine_def Let_def rp_inv_def)
qed

lemma snap_order_ok: "rp_inv st \<Longrightarrow> rp_inv (on_snap_order r st)"
  by (simp add: on_snap_order_def Let_def inv_truth rp_inv_def tb_add_safe tb_safe_init)

lemma snap_end_ok:
  assumes "rp_inv st" and "\<not> rp_synced st \<longrightarrow> (\<exists>b a. tb_best Buy (rp_truth st) = Some b \<and> tb_best Sell (rp_truth st) = Some a \<and> i64_range (b + a))"
  shows "\<exists>st'. on_snap_end r st = Some st' \<and> rp_inv st'"
proof (cases "rp_synced st")
  case False
  let ?st = "st\<lparr>rp_loading_snap := False, rp_synced := True, rp_snap_seq := l_seq r, rp_last_seq := l_seq r\<rparr>"
  obtain b a where ba: "tb_best Buy (rp_truth ?st) = Some b" "tb_best Sell (rp_truth ?st) = Some a" "checked_i64 (b + a) = Some (b + a)"
    using assms(2) False by (auto simp: checked_i64_def)
  have p: "\<forall>r \<in> set (rp_pre_snapshot st). l_kind r \<noteq> SnapOrder \<and> l_kind r \<noteq> SnapEnd" using assms(1) by (simp add: rp_inv_def)
  let ?u = "?st\<lparr>rp_synced := False\<rparr>"
  have "rp_inv ?u" using assms(1) False by (simp add: rp_inv_def)
  then have mu: "fine (make_engine ?u)" by (rule make_engine_ok)
  then obtain s1 where s1: "make_engine ?st = Some s1" "rp_inv s1" "rp_engine s1 \<noteq> None"
    by (auto simp: fine_def make_engine_def Let_def rp_inv_def bind_eq_Some_conv)
  obtain s2 where s2: "rebuild_from_truth s1 = Some s2" "rp_inv s2" using rebuild_fine [OF s1(2,3)] by (auto simp: fine_def)
  define s3 where "s3 = (let st' = stat (\<lambda>s. s\<lparr>s_rebuilds := s_rebuilds s - 1\<rparr>) s2
    in if rp_snap_seq st \<noteq> 0 then stat (\<lambda>s. s\<lparr>s_resyncs := s_resyncs s + 1\<rparr>) st' else st')"
  have i3: "rp_inv s3" using s2(2) by (simp add: s3_def Let_def)
  let ?early = "sort_key l_seq (rp_pre_snapshot s3)"
  let ?used = "filter (\<lambda>e. l_seq e > rp_snap_seq s3) ?early"
  have "rp_inv (s3\<lparr>rp_pre_snapshot := []\<rparr>)" "\<forall>r \<in> set ?used. l_kind r \<noteq> SnapOrder \<and> l_kind r \<noteq> SnapEnd"
    using i3 by (auto simp: rp_inv_def)
  then obtain s4 where s4: "for_each on_msg ?used (s3\<lparr>rp_pre_snapshot := []\<rparr>) = Some s4" "rp_inv s4" using each_msg_ok by blast
  have "on_snap_end r st = Some (stat (\<lambda>s. s\<lparr>s_unreplayed := s_unreplayed s + of_nat (length ?early - length ?used)\<rparr>) s4)"
    unfolding on_snap_end_def if_not_P [OF False] Let_def ba s1(1) s2(1) bind.bind_lunit s3_def [unfolded Let_def, symmetric] s4(1) ..
  then show ?thesis using s4(2) by simp
qed (use assms in \<open>simp add: on_snap_end_def\<close>)

text \<open>A record the replay can take: only the end of a snapshot whose mid price is undefined is excluded, for want of a touch or because the sum of the two overflows.\<close>

definition mid_defined :: "Replay \<Rightarrow> bool" where
  "mid_defined st \<longleftrightarrow> (case (tb_best Buy (rp_truth st), tb_best Sell (rp_truth st)) of (Some b, Some a) \<Rightarrow> i64_range (b + a) | _ \<Rightarrow> False)"

definition takes :: "Rec \<Rightarrow> Replay \<Rightarrow> bool" where
  "takes r st \<longleftrightarrow> \<not> (l_kind r = SnapEnd \<and> \<not> rp_synced st \<and> \<not> mid_defined st)"

lemma on_ok: "rp_inv st \<Longrightarrow> takes r st \<Longrightarrow> \<exists>st'. rp_on r st = Some st' \<and> rp_inv st'"
  using snap_order_ok snap_end_ok [of st r] on_msg_ok [of st r] by (auto simp: rp_on_def takes_def mid_defined_def split: option.splits)

lemma loop_ok:
  "rp_inv st \<Longrightarrow> rp_loop mx rs st = None \<Longrightarrow>
   \<exists>rs1 r rs2 st'. rs = rs1 @ r # rs2 \<and> rp_loop mx rs1 st = Some st' \<and> \<not> takes r st'"
proof (induction rs arbitrary: st)
  case (Cons r rs)
  let ?st = "stat (\<lambda>s. s\<lparr>s_records := s_records s + 1\<rparr>) st"
  have n: "\<not> (mx \<noteq> 0 \<and> s_records (rp_st st) \<ge> mx)" using Cons.prems(2) by auto
  have i: "rp_inv ?st" using Cons.prems(1) by simp
  show ?case
  proof (cases "takes r ?st")
    case False
    then have "\<not> takes r st" by (simp add: takes_def mid_defined_def)
    then show ?thesis by (intro exI [of _ "[]"]) auto
  next
    case True
    then obtain s where s: "rp_on r ?st = Some s" "rp_inv s" using on_ok [OF i] by blast
    have "rp_loop mx rs s = None" using Cons.prems(2) s(1) n by simp
    then obtain rs1 r' rs2 st' where h: "rs = rs1 @ r' # rs2" "rp_loop mx rs1 s = Some st'" "\<not> takes r' st'" using Cons.IH [OF s(2)] by blast
    have "rp_loop mx (r # rs1) st = Some st'" using h(2) s(1) unfolding rp_loop.simps if_not_P [OF n] by simp
    then show ?thesis using h(1,3) by (intro exI [of _ "r # rs1"]) auto
  qed
qed simp

lemma loop_inv: "rp_inv st \<Longrightarrow> rp_loop mx rs st = Some st' \<Longrightarrow> rp_inv st'"
proof (induction rs arbitrary: st)
  case (Cons r rs)
  let ?st = "stat (\<lambda>s. s\<lparr>s_records := s_records s + 1\<rparr>) st"
  have i: "rp_inv ?st" using Cons.prems(1) by simp
  show ?case
  proof (cases "mx \<noteq> 0 \<and> s_records (rp_st st) \<ge> mx")
    case False
    then obtain s where s: "rp_on r ?st = Some s" "rp_loop mx rs s = Some st'" using Cons.prems(2) by (auto simp: bind_eq_Some_conv)
    have "takes r ?st" using s(1) by (auto simp: takes_def mid_defined_def rp_on_def on_snap_end_def Let_def SnapOrder_def SnapEnd_def checked_i64_def split: if_splits)
    then have "rp_inv s" using on_ok [OF i] s(1) by force
    then show ?thesis using Cons.IH s(2) by blast
  qed (use Cons.prems in simp)
qed simp

section \<open>Pass one\<close>

definition in_inv :: "Inference \<Rightarrow> bool" where
  "in_inv st \<longleftrightarrow> tb_safe (in_book st) \<and> ac_ok (in_accounts st)"

definition in_fine :: "Inference option \<Rightarrow> bool" where
  "in_fine x \<longleftrightarrow> (\<exists>st. x = Some st \<and> in_inv st)"

lemma in_fine_Some [simp]: "in_fine (Some st) = in_inv st"
  by (simp add: in_fine_def)

lemma in_fine_bind: "in_fine x \<Longrightarrow> (\<And>s. in_inv s \<Longrightarrow> in_fine (f s)) \<Longrightarrow> in_fine (Option.bind x f)"
  by (auto simp: in_fine_def)

lemma in_fine_if: "(b \<Longrightarrow> in_fine x) \<Longrightarrow> (\<not> b \<Longrightarrow> in_fine y) \<Longrightarrow> in_fine (if b then x else y)"
  by simp

lemma in_frame [simp]:
  "in_inv (upd_life i f st) = in_inv st" "in_inv (in_mark md st) = in_inv st" "in_inv (in_begin_block r st) = in_inv st"
  "in_inv (st\<lparr>in_block := v1\<rparr>) = in_inv st" "in_inv (st\<lparr>in_cn_links := v2\<rparr>) = in_inv st" "in_inv (st\<lparr>in_cb_orders := v2\<rparr>) = in_inv st"
  "in_inv (st\<lparr>in_block_cancelled_own := v3\<rparr>) = in_inv st" "in_inv (st\<lparr>in_pre := v4\<rparr>) = in_inv st" "in_inv (st\<lparr>in_synced := v3\<rparr>) = in_inv st"
  "in_inv (st\<lparr>in_block_filled := v2\<rparr>) = in_inv st" "in_inv (st\<lparr>in_block_traded_after_cancel := v3\<rparr>) = in_inv st"
  by (simp_all add: in_inv_def upd_life_def in_mark_def in_begin_block_def)

lemma in_link_ok:
  assumes "in_inv st"
  shows "in_fine (in_link i st)"
proof -
  obtain ac where "ac_link (in_block st) i (in_accounts st) = Some ac" "ac_ok ac"
    using ac_link_ok [of "in_accounts st"] assms unfolding in_inv_def by blast
  then show ?thesis using assms by (simp add: in_link_def in_inv_def)
qed

lemma cancel_newest_ok:
  assumes "in_inv st"
  shows "in_fine (in_cancel_newest st)"
proof -
  have "in_fine (in_link i st \<bind> (\<lambda>st. Some (if lf_stp (life_at (in_life (st\<lparr>in_cn_links := in_cn_links st + 1\<rparr>)) (in_block (st\<lparr>in_cn_links := in_cn_links st + 1\<rparr>))) = StpNone
      then upd_life (in_block (st\<lparr>in_cn_links := in_cn_links st + 1\<rparr>)) (\<lambda>l. l\<lparr>lf_stp := CancelIncoming\<rparr>) (st\<lparr>in_cn_links := in_cn_links st + 1\<rparr>)
      else st\<lparr>in_cn_links := in_cn_links st + 1\<rparr>)))" for i
    by (rule in_fine_bind [OF in_link_ok [OF assms]]) simp
  then show ?thesis using assms by (simp add: in_cancel_newest_def Let_def split: option.split list.split)
qed

lemma evidence_ok:
  assumes "in_inv st"
  shows "in_fine (in_evidence r st)"
  unfolding in_evidence_def Let_def using assms
  by (intro in_fine_if in_fine_bind in_link_ok cancel_newest_ok) simp_all

lemma facts_ok: "in_inv st \<Longrightarrow> in_fine (in_facts r st)"
  unfolding in_facts_def Let_def by (intro in_fine_bind evidence_ok) simp_all

lemma book_msg_ok: "tb_safe t \<Longrightarrow> \<exists>t'. book_msg ts r t = Some t' \<and> tb_safe t'"
  using tb_add_safe tb_remove_safe tb_change_safe tb_fill_safe [of t "l_id2 r" "l_q r"]
  by (auto simp: book_msg_def split: option.split prod.split)

lemma apply_ok:
  assumes "in_inv st"
  shows "in_fine (in_apply r st)"
proof -
  obtain t where "book_msg (l_seq r) r (in_book st) = Some t" "tb_safe t" using book_msg_ok assms unfolding in_inv_def by blast
  then show ?thesis using assms by (simp add: in_apply_def in_inv_def)
qed

lemma for_each_ok: "in_inv st \<Longrightarrow> (\<And>x s. in_inv s \<Longrightarrow> in_fine (f x s)) \<Longrightarrow> in_fine (for_each f xs st)"
  by (induction xs arbitrary: st) (simp_all add: in_fine_bind)

lemma in_on_ok:
  assumes "in_inv st"
  shows "in_fine (in_on r st)"
proof -
  have e: "in_fine (in_snap_end r st)" unfolding in_snap_end_def Let_def
    by (rule for_each_ok) (use assms apply_ok in \<open>simp_all add: in_inv_def\<close>)
  have m: "in_fine (in_facts r st \<bind> (\<lambda>st. if \<not> in_synced st then Some (st\<lparr>in_pre := in_pre st @ [r]\<rparr>)
      else if l_seq r \<le> in_snap_seq st then Some st
      else if l_seq r \<noteq> in_last_seq st + 1 then Some (st\<lparr>in_synced := False, in_pre := in_pre st @ [r]\<rparr>) else in_apply r st))"
    by (rule in_fine_bind [OF facts_ok [OF assms]]) (simp add: apply_ok)
  show ?thesis using e m assms unfolding in_on_def Let_def by (simp add: in_inv_def tb_add_safe tb_safe_init)
qed

lemma pass_one_ok: "\<exists>inf. pass_one mx rs = Some inf \<and> ac_ok (in_accounts inf)"
proof -
  have "in_inv in_init" by (simp add: in_inv_def in_init_def tb_safe_init ac_ok_def)
  then have "in_fine (pass_one mx rs)" unfolding pass_one_def by (intro for_each_ok in_on_ok)
  then show ?thesis by (auto simp: in_fine_def in_inv_def)
qed

lemma init_inv: "ac_ok acc \<Longrightarrow> rp_inv (rp_init lf acc stp every drop_every)"
  by (simp add: rp_inv_def rp_init_def tb_safe_init logged_def tally_def new_Stats_def)

lemma replay_undefined:
  assumes "l3replay stp every drop_every mx rs = None"
  obtains inf rs1 r rs2 st where "pass_one mx rs = Some inf" "rs = rs1 @ r # rs2"
    "rp_loop mx rs1 (rp_init (in_life inf) (in_accounts inf) stp every drop_every) = Some st" "\<not> takes r st"
proof -
  obtain inf where i: "pass_one mx rs = Some inf" "ac_ok (in_accounts inf)" using pass_one_ok by blast
  let ?s = "rp_init (in_life inf) (in_accounts inf) stp every drop_every"
  have "rp_loop mx rs ?s = None" using assms i(1) by (simp add: l3replay_def rp_run_def)
  from loop_ok [OF init_inv [OF i(2)] this] show thesis using that i(1) by blast
qed

lemma replay_defined:
  assumes "\<And>rs1 r rs2 lf acc st. rs = rs1 @ r # rs2 \<Longrightarrow> rp_loop mx rs1 (rp_init lf acc stp every drop_every) = Some st \<Longrightarrow> takes r st"
  shows "\<exists>st. l3replay stp every drop_every mx rs = Some st"
  using assms replay_undefined [of stp every drop_every mx rs] by (metis option.exhaust)

section \<open>Properties\<close>

text \<open>
  C40: whatever the file holds, pass one returns and pass two is defined up to its end, unless a snapshot that is to be loaded ends in a truth book whose mid price is
  undefined: one of its sides is empty, so that a touch is read that is not there, or the sum of the two touches does not fit in 64 signed bits. No iterator, level,
  index entry or engine slot dangles, and no account lookup runs forever.
\<close>

theorem replay_only_fails_at_mid:
  assumes "l3replay stp every drop_every mx rs = None"
  shows "\<exists>inf rs1 r rs2 st. pass_one mx rs = Some inf \<and> rs = rs1 @ r # rs2 \<and>
    rp_loop mx rs1 (rp_init (in_life inf) (in_accounts inf) stp every drop_every) = Some st \<and> l_kind r = SnapEnd \<and> \<not> rp_synced st \<and>
    (tb_best Buy (rp_truth st) = None \<or> tb_best Sell (rp_truth st) = None \<or>
     (\<exists>b a. tb_best Buy (rp_truth st) = Some b \<and> tb_best Sell (rp_truth st) = Some a \<and> \<not> i64_range (b + a)))"
proof -
  obtain inf rs1 r rs2 st where u: "pass_one mx rs = Some inf" "rs = rs1 @ r # rs2"
    "rp_loop mx rs1 (rp_init (in_life inf) (in_accounts inf) stp every drop_every) = Some st" "\<not> takes r st"
    using assms by (rule replay_undefined)
  then have "l_kind r = SnapEnd \<and> \<not> rp_synced st \<and> (tb_best Buy (rp_truth st) = None \<or> tb_best Sell (rp_truth st) = None \<or>
     (\<exists>b a. tb_best Buy (rp_truth st) = Some b \<and> tb_best Sell (rp_truth st) = Some a \<and> \<not> i64_range (b + a)))"
    by (simp add: takes_def mid_defined_def split: option.splits)
  with u show ?thesis by blast
qed

theorem replay_only_fails_at_mid_witness:
  "l3replay True 0 0 0 [snap_rec SnapEnd 7 0 0 0] = None \<and>
   (\<exists>inf. pass_one 0 [snap_rec SnapEnd 7 0 0 0] = Some inf \<and>
      tb_best Buy (rp_truth (rp_init (in_life inf) (in_accounts inf) True 0 0)) = None)"
proof -
  let ?rs = "[snap_rec SnapEnd 7 0 0 0]"
  have n: "l3replay True 0 0 0 ?rs = None"
    by (simp add: l3replay_def pass_one_def in_on_def in_snap_end_def in_init_def snap_rec_def SnapOrder_def SnapEnd_def rp_run_def
        rp_on_def on_snap_end_def rp_init_def stat_def tb_best_def tb_empty_def levels_def Let_def)
  obtain inf where "pass_one 0 ?rs = Some inf" using replay_only_fails_at_mid [OF n] by blast
  moreover have "tb_best Buy (rp_truth (rp_init (in_life inf) (in_accounts inf) True 0 0)) = None"
    by (simp add: rp_init_def tb_best_def tb_empty_def levels_def)
  ultimately show ?thesis using n by blast
qed

text \<open>
  C32: when the replay ends, every episode was scored exactly once, as reproduced or as diverged (up to the width of the
  counters), and the engine is bit for bit the book that the emitted command stream builds from its last configuration line, so
  that a second implementation fed with it sees what this engine saw.
\<close>

theorem replay_score_and_log:
  assumes "l3replay stp every drop_every mx rs = Some st"
  shows "\<not> ep_active st \<and> s_episodes (rp_st st) = s_exact (rp_st st) + s_mismatched (rp_st st) \<and>
    (\<forall>e. rp_engine st = Some e \<longrightarrow> (\<exists>pre cfg cmds e0 evs. rp_emit st = pre @ EmitConfig cfg # map EmitCommand cmds \<and>
       ob_init AosStore locality_fingerprint 0 cfg = Some e0 \<and> ob_run AosStore e0 cmds = Some (e, evs)))"
proof -
  obtain inf where i: "pass_one mx rs = Some inf" "ac_ok (in_accounts inf)" using pass_one_ok by blast
  then obtain s where s: "rp_loop mx rs (rp_init (in_life inf) (in_accounts inf) stp every drop_every) = Some s" "st = close_episode s"
    using assms by (auto simp: l3replay_def rp_run_def)
  have "rp_inv st" using close_ok(1) [OF loop_inv [OF init_inv [OF i(2)] s(1)]] s(2) by simp
  moreover have "\<not> ep_active st" using close_ok(3) s(2) by simp
  ultimately have t: "tally (rp_st st) False" "logged (rp_engine st) (rp_emit st)" by (simp_all add: rp_inv_def)
  show ?thesis using \<open>\<not> ep_active st\<close> t(1) t(2) [unfolded logged_def] unfolding tally_def by (simp only: if_False add_0_right) metis
qed

theorem replay_score_and_log_witness:
  "\<exists>st. l3replay True 0 0 0 [snap_rec SnapOrder 7 1 100 0, snap_rec SnapOrder 7 2 101 1, snap_rec SnapEnd 7 0 0 0] = Some st \<and>
    s_episodes (rp_st st) = s_exact (rp_st st) + s_mismatched (rp_st st)"
proof -
  let ?rs = "[snap_rec SnapOrder 7 1 100 0, snap_rec SnapOrder 7 2 101 1, snap_rec SnapEnd 7 0 0 0]"
  have "\<exists>st. l3replay True 0 0 0 ?rs = Some st"
  proof (rule replay_defined)
    fix rs1 r rs2 lf acc st
    assume "?rs = rs1 @ r # rs2" and l: "rp_loop 0 rs1 (rp_init lf acc True 0 0) = Some st"
    then consider "r \<noteq> snap_rec SnapEnd 7 0 0 0" "l_kind r = SnapOrder"
      | "r = snap_rec SnapEnd 7 0 0 0" "rs1 = [snap_rec SnapOrder 7 1 100 0, snap_rec SnapOrder 7 2 101 1]"
      by (auto simp: Cons_eq_append_conv snap_rec_def)
    then show "takes r st"
    proof cases
      case 2
      have "tb_best Buy (rp_truth st) = Some 100" "tb_best Sell (rp_truth st) = Some 101" using l
        by (auto simp: 2 snap_rec_def rp_on_def on_snap_order_def rp_init_def stat_def tb_add_def tb_clear_def tb_empty_def tb_best_def
            levels_def set_levels_def totals_def set_totals_def rec_side_def Let_def)
      then show ?thesis by (simp add: takes_def mid_defined_def i64_range_def)
    qed (simp add: takes_def SnapOrder_def SnapEnd_def)
  qed
  then show ?thesis using replay_score_and_log by metis
qed

end
