(* ===== verification/Gateway.thy ===== *)
theory Gateway
  imports Risk Client_Ids Journal Sinks Seqstream Md_Feed Order_Book "HOL-Library.Product_Lexorder"
begin

text \<open>
  \<^verbatim>\<open>tools/gateway.hpp\<close>: the order-entry loop that puts decoder, id map, sequencer, journal, publisher, risk gate, engine and
  market data together. One turn of the loop is a list of what \<^verbatim>\<open>epoll_wait\<close> reported. The world outside is a
  parameter: what a socket takes or delivers comes with the event, and \<open>io\<close> gives, for each sequence number, the
  clock when it is assigned and what the journal's write and sync of that command do. A descriptor is a number.
  \<open>None\<close> is an exception that leaves the loop, or a wait that has not ended. Printing is left out.
\<close>

section \<open>State\<close>

datatype sync_mode = SyncOs | SyncBatch | SyncEvery

datatype halt = Fenced | JournalError | ReplicaLost

record GatewayConfig =
  gc_sync_mode :: sync_mode
  gc_batch :: u64
  gc_wait_replica :: bool
  gc_halt_on_replica_loss :: bool
  gc_trust_client_ids :: bool

record Conn =
  cn_owner :: OwnerId
  cn_in :: bytes
  cn_out :: bytes
  cn_out_off :: nat
  cn_want_out :: bool
  cn_paused :: bool

definition new_Conn :: "OwnerId \<Rightarrow> Conn" where
  "new_Conn own = \<lparr>cn_owner = own, cn_in = [], cn_out = [], cn_out_off = 0, cn_want_out = False, cn_paused = False\<rparr>"

type_synonym MdLevel = "SymbolId \<times> Side \<times> Price"

record MdBatch =
  bt_levels :: "MdLevel list"
  bt_trades :: "Event list"

record cmd_io =
  io_now :: u64
  io_write :: nat
  io_flush :: bool
  io_fsync :: bool

text \<open>\<open>gw_sent\<close> collects what each descriptor's socket has taken, \<open>gw_net\<close> and \<open>gw_feed\<close> the datagrams sent.\<close>

record 'd Gateway =
  gw_cfg :: GatewayConfig
  gw_gate :: "'d OrderBook list RiskGate"
  gw_journal :: JournalWriter
  gw_digest :: EventDigest
  gw_seq :: u64
  gw_next_owner :: OwnerId
  gw_conns :: "nat \<rightharpoonup> Conn"
  gw_owner_fd :: "OwnerId \<rightharpoonup> nat"
  gw_ids :: ClientIdMap
  gw_pub :: "SqPublisher option"
  gw_md :: "MdPublisher option"
  gw_md_batch :: MdBatch
  gw_handled :: u64
  gw_since_sync :: u64
  gw_malformed :: u64
  gw_replica_lost :: bool
  gw_halted :: "halt option"
  gw_journal_failed :: bool
  gw_sent :: "nat \<Rightarrow> bytes"
  gw_net :: sent
  gw_feed :: "MdPacket list"

definition gw_init ::
    "GatewayConfig \<Rightarrow> 'd OrderBook list RiskGate \<Rightarrow> JournalWriter \<Rightarrow> EventDigest \<Rightarrow> u64 \<Rightarrow> OwnerId \<Rightarrow> OrderId \<Rightarrow> SqPublisher option \<Rightarrow>
     MdPublisher option \<Rightarrow> 'd Gateway" where
  "gw_init cfg gate journal digest sq next_owner first_exchange_id pub md =
    \<lparr>gw_cfg = cfg, gw_gate = gate, gw_journal = journal, gw_digest = digest, gw_seq = sq, gw_next_owner = next_owner, gw_conns = Map.empty,
     gw_owner_fd = Map.empty, gw_ids = cm_init first_exchange_id, gw_pub = pub, gw_md = md, gw_md_batch = \<lparr>bt_levels = [], bt_trades = []\<rparr>,
     gw_handled = 0, gw_since_sync = 0, gw_malformed = 0, gw_replica_lost = False, gw_halted = None, gw_journal_failed = False,
     gw_sent = (\<lambda>_. []), gw_net = [], gw_feed = []\<rparr>"

abbreviation books :: "'d Gateway \<Rightarrow> 'd OrderBook list" where
  "books st \<equiv> rg_engine (gw_gate st)"

definition gate_machine :: "'d store_ops \<Rightarrow> 'd OrderBook list RiskGate machine" where
  "gate_machine ops = rg_process (me_process (ob_process ops))"

section \<open>Reports\<close>

definition append_report :: "Event \<Rightarrow> u64 \<Rightarrow> bytes \<Rightarrow> bytes" where
  "append_report e client_seq out = out @ encode_report e client_seq"

definition md_note :: "Event \<Rightarrow> MdBatch \<Rightarrow> MdBatch" where
  "md_note e b =
    (if e_type e = Trade then b\<lparr>bt_levels := bt_levels b @ [(e_symbol e, opposite (e_side e), e_price e)], bt_trades := bt_trades b @ [e]\<rparr>
     else if (e_type e = Accepted \<or> e_type e = Canceled \<or> e_type e = Modified) \<and> e_price e \<noteq> 0
     then b\<lparr>bt_levels := bt_levels b @ [(e_symbol e, e_side e, e_price e)]\<rparr>
     else b)"

definition write_to :: "nat \<Rightarrow> Event \<Rightarrow> u64 \<Rightarrow> 'd Gateway \<Rightarrow> 'd Gateway option" where
  "write_to fd e client_seq st =
    do { c \<leftarrow> gw_conns st fd; Some (st\<lparr>gw_conns := (gw_conns st)(fd \<mapsto> c\<lparr>cn_out := append_report e client_seq (cn_out c)\<rparr>)\<rparr>) }"

text \<open>\<^verbatim>\<open>ReportSink::on_event\<close>. The sink threads the ids it mentioned and the descriptors it touched.\<close>

record sink =
  k_fd :: nat
  k_owner_id :: OwnerId
  k_client_seq :: u64
  k_client :: OrderId
  k_exchange_id :: OrderId

type_synonym 'd sinking = "OrderId list \<times> nat list \<times> 'd Gateway"

definition report_maker :: "sink \<Rightarrow> Event \<Rightarrow> 'd sinking \<Rightarrow> 'd sinking option" where
  "report_maker k e s =
    (case s of (mentioned, touched, st) \<Rightarrow>
       let maker_owner = owner_of (e_maker_id e) (gw_ids st) in
       if e_type e \<noteq> Trade \<or> maker_owner = k_owner_id k then Some (mentioned, touched, st)
       else
         case gw_owner_fd st maker_owner of
           None \<Rightarrow> Some (mentioned, touched, st)
         | Some fd \<Rightarrow>
             do { st \<leftarrow> write_to fd (e\<lparr>e_order_id := 0, e_maker_id := to_client (e_maker_id e) maker_owner (gw_ids st)\<rparr>) 0 st;
                  Some (mentioned, touched @ [fd], st) })"

definition rs_on_event :: "sink \<Rightarrow> Event \<Rightarrow> 'd sinking \<Rightarrow> 'd sinking option" where
  "rs_on_event k e s =
    (case s of (mentioned, touched, st) \<Rightarrow>
       let st = st\<lparr>gw_digest := ed_on_event e (gw_digest st), gw_md_batch := (if gw_md st \<noteq> None then md_note e (gw_md_batch st) else gw_md_batch st)\<rparr>
       in if gc_trust_client_ids (gw_cfg st) then do { st \<leftarrow> write_to (k_fd k) e (k_client_seq k) st; Some (mentioned, touched, st) }
          else
            do { let r = e\<lparr>e_order_id := (if e_order_id e = k_exchange_id k then k_client k else to_client (e_order_id e) (k_owner_id k) (gw_ids st)),
                           e_maker_id := (if e_maker_id e \<noteq> 0 then to_client (e_maker_id e) (k_owner_id k) (gw_ids st) else e_maker_id e)\<rparr>;
                 st \<leftarrow> write_to (k_fd k) r (k_client_seq k) st;
                 let mentioned = (if e_order_id e \<noteq> k_exchange_id k then mentioned @ [e_order_id e] else mentioned);
                 if e_maker_id e = 0 then Some (mentioned, touched, st) else report_maker k e (mentioned @ [e_maker_id e], touched, st) })"

primrec rs_events :: "sink \<Rightarrow> Event list \<Rightarrow> 'd sinking \<Rightarrow> 'd sinking option" where
  "rs_events k [] s = Some s"
| "rs_events k (e # es) s = Option.bind (rs_on_event k e s) (rs_events k es)"

section \<open>One command\<close>

definition fence_check :: "'d Gateway \<Rightarrow> 'd Gateway" where
  "fence_check st =
    (case gw_pub st of
       Some p \<Rightarrow> if fenced p \<and> gw_halted st = None then st\<lparr>gw_halted := Some Fenced\<rparr> else st
     | None \<Rightarrow> st)"

definition journal_io :: "(JournalWriter \<Rightarrow> JournalWriter + JournalWriter) \<Rightarrow> 'd Gateway \<Rightarrow> bool \<times> 'd Gateway" where
  "journal_io f st =
    (if gw_journal_failed st then (False, st)
     else
       case f (gw_journal st) of
         Inr w \<Rightarrow> (True, st\<lparr>gw_journal := w\<rparr>)
       | Inl w \<Rightarrow> (False, st\<lparr>gw_journal := w, gw_journal_failed := True, gw_halted := Some JournalError\<rparr>))"

definition assign_id :: "Command \<Rightarrow> OwnerId \<Rightarrow> 'd Gateway \<Rightarrow> OrderId \<times> 'd Gateway" where
  "assign_id c own st =
    (let key = \<lparr>k_client_id = c_order_id c, k_symbol = c_symbol c, k_owner = own\<rparr> in
     if gc_trust_client_ids (gw_cfg st) then (c_order_id c, st)
     else if c_type c = NewOrder then (case for_new key (gw_ids st) of (x, ids) \<Rightarrow> (x, st\<lparr>gw_ids := ids\<rparr>))
     else (cm_find key (gw_ids st), st))"

definition stamp :: "(u64 \<Rightarrow> cmd_io) \<Rightarrow> OwnerId \<Rightarrow> Command \<Rightarrow> 'd Gateway \<Rightarrow> Command \<times> 'd Gateway" where
  "stamp io own c st =
    (case assign_id c own st of (x, st) \<Rightarrow>
       let sq = gw_seq st + 1
       in (c\<lparr>c_order_id := x, c_seq := sq, c_owner := own, c_ts := io_now (io sq)\<rparr>, st\<lparr>gw_seq := sq\<rparr>))"

definition publish_cmd :: "Command \<Rightarrow> 'd Gateway \<Rightarrow> 'd Gateway option" where
  "publish_cmd c st =
    (case gw_pub st of
       None \<Rightarrow> Some st
     | Some p \<Rightarrow> (case publish c p of Inl _ \<Rightarrow> None | Inr p \<Rightarrow> Some (st\<lparr>gw_pub := Some p\<rparr>)))"

definition note_modify :: "'d store_ops \<Rightarrow> Command \<Rightarrow> 'd Gateway \<Rightarrow> 'd Gateway option" where
  "note_modify ops c st =
    (if gw_md st \<noteq> None \<and> c_type c = Modify \<and> unat (c_symbol c) < length (books st) then
       do { v \<leftarrow> ob_find_order ops (c_order_id c) (books st ! unat (c_symbol c));
            Some (case v of
                    None \<Rightarrow> st
                  | Some w \<Rightarrow> st\<lparr>gw_md_batch := (gw_md_batch st)\<lparr>bt_levels := bt_levels (gw_md_batch st) @ [(c_symbol c, ov_side w, ov_price w)]\<rparr>\<rparr>) }
     else Some st)"

definition retire_dead :: "'d store_ops \<Rightarrow> SymbolId \<Rightarrow> OrderId \<Rightarrow> 'd Gateway \<Rightarrow> 'd Gateway option" where
  "retire_dead ops sm x st =
    (if x = 0 then Some st
     else if unat sm \<ge> length (books st) then Some (st\<lparr>gw_ids := retire x (gw_ids st)\<rparr>)
     else do { live \<leftarrow> ob_contains ops x (books st ! unat sm); Some (if \<not> live then st\<lparr>gw_ids := retire x (gw_ids st)\<rparr> else st) })"

primrec retire_all :: "'d store_ops \<Rightarrow> SymbolId \<Rightarrow> OrderId list \<Rightarrow> 'd Gateway \<Rightarrow> 'd Gateway option" where
  "retire_all ops sm [] st = Some st"
| "retire_all ops sm (x # xs) st = Option.bind (retire_dead ops sm x st) (retire_all ops sm xs)"

text \<open>The sync policy after a command; the flag says whether the loop goes on.\<close>

definition sync_policy :: "cmd_io \<Rightarrow> 'd Gateway \<Rightarrow> bool \<times> 'd Gateway" where
  "sync_policy i st =
    (let st = (if gc_sync_mode (gw_cfg st) = SyncBatch then st\<lparr>gw_since_sync := gw_since_sync st + 1\<rparr> else st) in
     if gc_sync_mode (gw_cfg st) = SyncEvery \<or> gc_sync_mode (gw_cfg st) = SyncBatch \<and> gw_since_sync st \<ge> gc_batch (gw_cfg st)
     then journal_io (jw_sync (io_flush i) (io_fsync i)) (st\<lparr>gw_since_sync := 0\<rparr>)
     else (True, st))"

text \<open>Everything between a decoded command and the next one: the touched descriptors, whether a command was journaled, and whether to go on.\<close>

record turn =
  t_touched :: "nat list"
  t_journaled :: bool

definition run_command :: "'d store_ops \<Rightarrow> nat \<Rightarrow> OwnerId \<Rightarrow> Command \<Rightarrow> Command \<Rightarrow> nat list \<Rightarrow> 'd Gateway \<Rightarrow> (nat list \<times> 'd Gateway) option" where
  "run_command ops fd own raw c touched st =
    do { st \<leftarrow> publish_cmd c st;
         st \<leftarrow> note_modify ops c st;
         (gate, evs) \<leftarrow> gate_machine ops c (gw_gate st);
         let k = \<lparr>k_fd = fd, k_owner_id = own, k_client_seq = c_seq raw, k_client = c_order_id raw, k_exchange_id = c_order_id c\<rparr>;
         (mentioned, touched, st) \<leftarrow> rs_events k evs ([], touched, st\<lparr>gw_gate := gate\<rparr>);
         st \<leftarrow> (if gc_trust_client_ids (gw_cfg st) then Some st else retire_all ops (c_symbol c) (mentioned @ [c_order_id c]) st);
         conn \<leftarrow> gw_conns st fd;
         Some (touched, st\<lparr>gw_conns := (gw_conns st)(fd \<mapsto> conn\<lparr>cn_out := cn_out conn @ encode_done (c_symbol c) (c_seq raw)\<rparr>),
                           gw_handled := gw_handled st + 1\<rparr>) }"

definition on_command :: "'d store_ops \<Rightarrow> (u64 \<Rightarrow> cmd_io) \<Rightarrow> nat \<Rightarrow> OwnerId \<Rightarrow> Command \<Rightarrow> turn \<Rightarrow> 'd Gateway \<Rightarrow> (bool \<times> turn \<times> 'd Gateway) option" where
  "on_command ops io fd own raw t st =
    (let (c, st) = stamp io own raw st;
         (logged, st) = journal_io (jw_append (io_write (io (c_seq c))) c) st
     in if \<not> logged then Some (False, t, st)
        else
          do { (touched, st) \<leftarrow> run_command ops fd own raw c (t_touched t) st;
               let (go, st) = sync_policy (io (c_seq c)) st;
               Some (go, t\<lparr>t_touched := touched, t_journaled := True\<rparr>, st) })"

section \<open>Connections\<close>

text \<open>The receive loop over the buffered bytes: whether framing was lost, and the bytes that stay.\<close>

function read_loop :: "'d store_ops \<Rightarrow> (u64 \<Rightarrow> cmd_io) \<Rightarrow> nat \<Rightarrow> OwnerId \<Rightarrow> bytes \<Rightarrow> turn \<Rightarrow> 'd Gateway \<Rightarrow> (bool \<times> bytes \<times> turn \<times> 'd Gateway) option" where
  "read_loop ops io fd own p t st =
    (if p = [] then Some (False, [], t, st)
     else
      (case decode p of (r, c) \<Rightarrow>
         if d_status r = Incomplete then Some (False, p, t, st)
         else if d_status r = Malformed then
           (let st = st\<lparr>gw_malformed := gw_malformed st + 1\<rparr> in
            if d_consumed r = 0 then Some (True, p, t, st) else read_loop ops io fd own (drop (d_consumed r) p) t st)
         else
           do { (go, t, st) \<leftarrow> on_command ops io fd own (the c) t st;
                if go then read_loop ops io fd own (drop (d_consumed r) p) t st
                else Some (False, drop (d_consumed r) p, t, st) }))"
  by pat_completeness auto
termination
proof (relation "measure (\<lambda>(ops, io, fd, own, p, t, st). length p)")
  fix p :: bytes and r c and t t' :: turn and st st' :: "'d Gateway" and ops :: "'d store_ops" and io fd own
  assume p: "p \<noteq> []" and d: "(r, c) = decode p" and s: "d_status r \<noteq> Incomplete" "d_status r \<noteq> Malformed"
  then have "d_status r = DOk" by (cases "d_status r") auto
  then have "0 < d_consumed r" using decode_consumed(2) [of p] by (simp flip: d)
  with p show "((ops, io, fd, own, drop (d_consumed r) p, t', st'), ops, io, fd, own, p, t, st) \<in> measure (\<lambda>(ops, io, fd, own, p, t, st). length p)"
    by simp
qed auto

declare read_loop.simps [simp del]

definition close_conn :: "nat \<Rightarrow> 'd Gateway \<Rightarrow> 'd Gateway" where
  "close_conn fd st =
    (case gw_conns st fd of
       None \<Rightarrow> st
     | Some c \<Rightarrow> st\<lparr>gw_owner_fd := (gw_owner_fd st)(cn_owner c := None), gw_conns := (gw_conns st)(fd := None)\<rparr>)"

text \<open>What a socket does with a write: how many bytes it takes in all, and whether it then reports an error.\<close>

type_synonym send_result = "nat \<times> bool"

definition try_write :: "send_result \<Rightarrow> nat \<Rightarrow> Conn \<Rightarrow> 'd Gateway \<Rightarrow> bool \<times> 'd Gateway" where
  "try_write w fd c st =
    (let k = min (fst w) (length (cn_out c) - cn_out_off c);
         st = st\<lparr>gw_sent := (gw_sent st)(fd := gw_sent st fd @ take k (drop (cn_out_off c) (cn_out c)))\<rparr>;
         c = c\<lparr>cn_out_off := cn_out_off c + k\<rparr>
     in if cn_out_off c < length (cn_out c) \<and> snd w then (False, st\<lparr>gw_conns := (gw_conns st)(fd \<mapsto> c)\<rparr>)
        else
          let c = (if cn_out_off c = length (cn_out c) then c\<lparr>cn_out := [], cn_out_off := 0\<rparr> else c);
              c = c\<lparr>cn_want_out := (cn_out_off c < length (cn_out c)), cn_paused := (length (cn_out c) - cn_out_off c > 16 * 2 ^ 20)\<rparr>
          in (True, st\<lparr>gw_conns := (gw_conns st)(fd \<mapsto> c)\<rparr>))"

datatype recv = RecvClosed | RecvAgain | RecvData bytes

text \<open>What \<^verbatim>\<open>epoll_wait\<close> reports: pending connections, datagrams for the publisher, or a descriptor that is writable, readable or both.\<close>

datatype gw_event =
    EvAccept "nat list"
  | EvControl "Datagram list" "(nat \<times> Datagram) list"
  | EvConn nat "send_result option" "recv option"

definition accept_conn :: "'d Gateway \<Rightarrow> nat \<Rightarrow> 'd Gateway" where
  "accept_conn st cfd =
    (let own = gw_next_owner st in
     st\<lparr>gw_next_owner := own + 1, gw_owner_fd := (gw_owner_fd st)(own \<mapsto> cfd),
        gw_conns := (case gw_conns st cfd of None \<Rightarrow> (gw_conns st)(cfd \<mapsto> new_Conn own) | Some _ \<Rightarrow> gw_conns st)\<rparr>)"

definition service_pub :: "Datagram list \<Rightarrow> (nat \<times> Datagram) list \<Rightarrow> 'd Gateway \<Rightarrow> 'd Gateway option" where
  "service_pub gs rs st =
    (case gw_pub st of
       None \<Rightarrow> Some st
     | Some p \<Rightarrow> do { (out, p) \<leftarrow> service gs rs p; Some (fence_check (st\<lparr>gw_pub := Some p, gw_net := gw_net st @ out\<rparr>)) })"

text \<open>Received bytes. The flag says that the turn stops here.\<close>

definition on_data_in :: "'d store_ops \<Rightarrow> (u64 \<Rightarrow> cmd_io) \<Rightarrow> nat \<Rightarrow> bytes \<Rightarrow> turn \<Rightarrow> 'd Gateway \<Rightarrow> (bool \<times> turn \<times> 'd Gateway) option" where
  "on_data_in ops io fd bs t st =
    (case gw_conns st fd of
       None \<Rightarrow> Some (False, t, st)
     | Some c \<Rightarrow>
         do { (broken, left, t, st) \<leftarrow> read_loop ops io fd (cn_owner c) (cn_in c @ bs) t st;
              if gw_halted st \<noteq> None then Some (True, t, st)
              else if broken then Some (False, t, close_conn fd st)
              else
                do { c \<leftarrow> gw_conns st fd;
                     Some (False, t\<lparr>t_touched := t_touched t @ [fd]\<rparr>, st\<lparr>gw_conns := (gw_conns st)(fd \<mapsto> c\<lparr>cn_in := left\<rparr>)\<rparr>) } })"

definition on_conn :: "'d store_ops \<Rightarrow> (u64 \<Rightarrow> cmd_io) \<Rightarrow> nat \<Rightarrow> send_result option \<Rightarrow> recv option \<Rightarrow> turn \<Rightarrow> 'd Gateway \<Rightarrow> (bool \<times> turn \<times> 'd Gateway) option" where
  "on_conn ops io fd wr rd t st =
    (case gw_conns st fd of
       None \<Rightarrow> Some (False, t, st)
     | Some c \<Rightarrow>
         let (ok, st) = (case wr of None \<Rightarrow> (True, st) | Some w \<Rightarrow> try_write w fd c st)
         in if \<not> ok then Some (False, t, close_conn fd st)
            else
              case rd of
                None \<Rightarrow> Some (False, t, st)
              | Some RecvClosed \<Rightarrow> Some (False, t, close_conn fd st)
              | Some RecvAgain \<Rightarrow> Some (False, t, st)
              | Some (RecvData bs) \<Rightarrow> on_data_in ops io fd bs t st)"

fun on_event :: "'d store_ops \<Rightarrow> (u64 \<Rightarrow> cmd_io) \<Rightarrow> gw_event \<Rightarrow> turn \<Rightarrow> 'd Gateway \<Rightarrow> (bool \<times> turn \<times> 'd Gateway) option" where
  "on_event ops io (EvAccept cfds) t st = Some (False, t, foldl accept_conn st cfds)"
| "on_event ops io (EvControl gs rs) t st = map_option (\<lambda>st. (False, t, st)) (service_pub gs rs st)"
| "on_event ops io (EvConn fd wr rd) t st = (if gw_halted st \<noteq> None then Some (False, t, st) else on_conn ops io fd wr rd t st)"

fun event_loop :: "'d store_ops \<Rightarrow> (u64 \<Rightarrow> cmd_io) \<Rightarrow> gw_event list \<Rightarrow> turn \<Rightarrow> 'd Gateway \<Rightarrow> (turn \<times> 'd Gateway) option" where
  "event_loop ops io [] t st = Some (t, st)"
| "event_loop ops io (ev # evs) t st =
    do { (stop, t, st) \<leftarrow> on_event ops io ev t st;
         if stop then Some (t, st) else event_loop ops io evs t st }"

section \<open>Commit\<close>

text \<open>A round of the wait for a replica: what the sockets hold, the clock, and whether the timeout has passed, with what then arrives.\<close>

record wait_round =
  w_group :: "Datagram list"
  w_control :: "(nat \<times> Datagram) list"
  w_now :: u64
  w_late :: "(Datagram list \<times> (nat \<times> Datagram) list) option"

definition acked :: "'d Gateway \<Rightarrow> u64" where
  "acked st = (case gw_pub st of None \<Rightarrow> 0 | Some p \<Rightarrow> p_acked p)"

definition heartbeat_pub :: "(u64 \<Rightarrow> bool) \<Rightarrow> u64 \<Rightarrow> u64 \<Rightarrow> 'd Gateway \<Rightarrow> 'd Gateway" where
  "heartbeat_pub lost now interval st =
    (case gw_pub st of
       None \<Rightarrow> st
     | Some p \<Rightarrow> (case heartbeat_if_idle lost now interval p of (out, p) \<Rightarrow> st\<lparr>gw_pub := Some p, gw_net := gw_net st @ out\<rparr>))"

primrec wait_for_replica :: "(u64 \<Rightarrow> bool) \<Rightarrow> u64 \<Rightarrow> wait_round list \<Rightarrow> 'd Gateway \<Rightarrow> 'd Gateway option" where
  "wait_for_replica lost through [] st = (if acked st < through then None else Some st)"
| "wait_for_replica lost through (r # rs) st =
    (if \<not> acked st < through then Some st
     else
       do { p \<leftarrow> gw_pub st;
            (out, p) \<leftarrow> service (w_group r) (w_control r) p;
            let st = st\<lparr>gw_pub := Some p, gw_net := gw_net st @ out\<rparr>;
            if acked st \<ge> through then Some st
            else
              do { let st = fence_check st;
                   if gw_halted st \<noteq> None then Some st
                   else
                     case w_late r of
                       Some (gs, rs') \<Rightarrow>
                         do { st \<leftarrow> service_pub gs rs' st;
                              Some (if gw_halted st \<noteq> None then st
                                    else if gc_halt_on_replica_loss (gw_cfg st) then st\<lparr>gw_halted := Some ReplicaLost\<rparr>
                                    else st\<lparr>gw_replica_lost := True\<rparr>) }
                     | None \<Rightarrow> wait_for_replica lost through rs (heartbeat_pub lost (w_now r) 2000000 st) } })"

definition level_key :: "MdLevel \<Rightarrow> SymbolId \<times> u8 \<times> Price" where
  "level_key l = (case l of (sm, side, px) \<Rightarrow> (sm, side_code side, px))"

definition book_view :: "'d OrderBook list \<Rightarrow> engine_view option" where
  "book_view bs =
    those (map (\<lambda>b. do { bids \<leftarrow> ob_for_each_level Buy b; asks \<leftarrow> ob_for_each_level Sell b; Some (\<lambda>side. if side = Buy then bids else asks) }) bs)"

definition publish_md :: "(u64 \<Rightarrow> bool) \<Rightarrow> u64 \<Rightarrow> 'd Gateway \<Rightarrow> 'd Gateway option" where
  "publish_md lost now st =
    (case gw_md st of
       None \<Rightarrow> Some st
     | Some m \<Rightarrow>
         do { view \<leftarrow> book_view (books st);
              let lv = remdups_adj (sort_key level_key (bt_levels (gw_md_batch st)));
              let m = foldl (\<lambda>m e. mp_trade (e_symbol e) (e_side e) (e_price e) (e_qty e) m) m (bt_trades (gw_md_batch st));
              let m = foldl (\<lambda>m (sm, side, px). mp_level sm side px (ob_level_qty side px (books st ! unat sm)) m) m lv;
              let (out, m) = mp_flush lost now view m;
              Some (st\<lparr>gw_md := Some m, gw_feed := gw_feed st @ out, gw_md_batch := \<lparr>bt_levels = [], bt_trades = []\<rparr>\<rparr>) })"

definition heartbeat_md :: "u64 \<Rightarrow> 'd Gateway \<Rightarrow> 'd Gateway" where
  "heartbeat_md now st =
    (case gw_md st of
       None \<Rightarrow> st
     | Some m \<Rightarrow> (case mp_heartbeat_if_idle now 50000000 m of (out, m) \<Rightarrow> st\<lparr>gw_md := Some m, gw_feed := gw_feed st @ out\<rparr>))"

primrec write_touched :: "(nat \<Rightarrow> send_result) \<Rightarrow> nat list \<Rightarrow> 'd Gateway \<Rightarrow> 'd Gateway" where
  "write_touched w [] st = st"
| "write_touched w (fd # fds) st =
    write_touched w fds
      (case gw_conns st fd of
         None \<Rightarrow> st
       | Some c \<Rightarrow> (case try_write (w fd) fd c st of (ok, st) \<Rightarrow> if ok then st else close_conn fd st))"

record turn_io =
  n_flush :: bool
  n_lost :: "u64 \<Rightarrow> bool"
  n_md_lost :: "u64 \<Rightarrow> bool"
  n_now :: u64
  n_wait :: "wait_round list"
  n_send :: "nat \<Rightarrow> send_result"

text \<open>The journal is flushed and the batch handed to the replicas.\<close>

definition make_durable :: "turn_io \<Rightarrow> turn \<Rightarrow> 'd Gateway \<Rightarrow> 'd Gateway option" where
  "make_durable n t st =
    (if \<not> t_journaled t then Some st
     else
       (case journal_io (jw_flush (n_flush n)) st of
          (False, st) \<Rightarrow> Some st
        | (True, st) \<Rightarrow>
            (case gw_pub st of
               None \<Rightarrow> Some st
             | Some p \<Rightarrow>
                 let st = (if \<not> fenced p then (case flush (n_lost n) (n_now n) p of (out, p) \<Rightarrow> st\<lparr>gw_pub := Some p, gw_net := gw_net st @ out\<rparr>) else st)
                 in if gc_wait_replica (gw_cfg st) \<and> \<not> gw_replica_lost st \<and> gw_halted st = None
                    then wait_for_replica (n_lost n) (gw_seq st) (n_wait n) st else Some st)))"

definition close_all :: "'d Gateway \<Rightarrow> 'd Gateway" where
  "close_all st = st\<lparr>gw_conns := Map.empty, gw_owner_fd := Map.empty\<rparr>"

text \<open>Behind the event loop: make the batch durable, then either halt or publish and answer.\<close>

definition respond :: "turn_io \<Rightarrow> turn \<Rightarrow> 'd Gateway \<Rightarrow> 'd Gateway option" where
  "respond n t st =
    (if gw_halted st \<noteq> None then Some (close_all st)
     else
       do { st \<leftarrow> (if t_journaled t then publish_md (n_md_lost n) (n_now n) st else Some st);
            let st = heartbeat_pub (n_lost n) (n_now n) 20000000 (heartbeat_md (n_now n) st);
            Some (write_touched (n_send n) (t_touched t) st) })"

definition gw_turn :: "'d store_ops \<Rightarrow> (u64 \<Rightarrow> cmd_io) \<Rightarrow> turn_io \<Rightarrow> gw_event list \<Rightarrow> 'd Gateway \<Rightarrow> 'd Gateway option" where
  "gw_turn ops io n evs st =
    do { (t, st) \<leftarrow> event_loop ops io evs \<lparr>t_touched = [], t_journaled = False\<rparr> st;
         st \<leftarrow> make_durable n t st;
         respond n t st }"

text \<open>The loop: it leaves after a turn that halts.\<close>

fun gw_run :: "'d store_ops \<Rightarrow> (u64 \<Rightarrow> cmd_io) \<Rightarrow> (turn_io \<times> gw_event list) list \<Rightarrow> 'd Gateway \<Rightarrow> 'd Gateway option" where
  "gw_run ops io [] st = Some st"
| "gw_run ops io ((n, evs) # ns) st =
    do { st \<leftarrow> gw_turn ops io n evs st; if gw_halted st \<noteq> None then Some st else gw_run ops io ns st }"

text \<open>After the loop: sync the journal, end both streams; the exit status tells whether the gateway had halted.\<close>

definition gw_stop :: "cmd_io \<Rightarrow> turn_io \<Rightarrow> 'd Gateway \<Rightarrow> (nat \<times> 'd Gateway) option" where
  "gw_stop i n st =
    (let st = snd (journal_io (jw_sync (io_flush i) (io_fsync i)) st);
         st = (case gw_pub st of
                 None \<Rightarrow> st
               | Some p \<Rightarrow> (case end_stream (n_lost n) (n_now n) p of (out, p) \<Rightarrow> st\<lparr>gw_pub := Some p, gw_net := gw_net st @ out\<rparr>))
     in do { st \<leftarrow> (case gw_md st of
                     None \<Rightarrow> Some st
                   | Some m \<Rightarrow>
                       if gw_halted st \<noteq> None then Some st
                       else do { view \<leftarrow> book_view (books st);
                                 let (out, m) = mp_end view m;
                                 Some (st\<lparr>gw_md := Some m, gw_feed := gw_feed st @ out\<rparr>) });
             Some (if gw_halted st \<noteq> None then 3 else 0, st) })"

end
