(* ===== verification/Gateway_Properties.thy ===== *)
theory Gateway_Properties
  imports Gateway Journal_Properties
begin

text \<open>
  What the gateway promises: the journal determines the state of gate, engine and digest (write-ahead and determinism),
  and no response leaves before the turn's commands are in the hands of the operating system and, where asked for, of a replica.
\<close>

section \<open>Specification\<close>

text \<open>
  The state is the run of the journaled commands \<open>cmds\<close> from the start, numbered consecutively; what the journal holds beyond
  them is the torn record of the write that failed.
\<close>

definition torn :: "bytes \<Rightarrow> bool" where
  "torn tail \<longleftrightarrow> tail = [] \<or> (\<exists>c n. n \<noteq> 0 \<and> n < length (journal_record c) \<and> tail = take n (journal_record c))"

definition journalable :: "Command \<Rightarrow> bool" where
  "journalable c \<longleftrightarrow> storable c \<and> journal_view c = c"

definition wal :: "'d store_ops \<Rightarrow> 'd Gateway \<Rightarrow> Command list \<Rightarrow> 'd Gateway \<Rightarrow> bool" where
  "wal ops st0 cmds st \<longleftrightarrow>
    (\<exists>evs. run (gate_machine ops) (gw_gate st0) cmds = Some (gw_gate st, evs) \<and> gw_digest st = foldl (\<lambda>d e. ed_on_event e d) (gw_digest st0) evs) \<and>
    (\<exists>tail. jw_file (gw_journal st) = jw_file (gw_journal st0) @ journal_records cmds @ tail \<and> torn tail \<and> (tail \<noteq> [] \<longrightarrow> gw_journal_failed st)) \<and>
    (\<forall>c \<in> set cmds. journalable c) \<and>
    map c_seq cmds = map (\<lambda>i. gw_seq st0 + of_nat (Suc i)) [0..<length cmds] \<and>
    (\<not> gw_journal_failed st \<longrightarrow> gw_seq st = gw_seq st0 + of_nat (length cmds))"

text \<open>What the specification reads of a state.\<close>

definition core :: "'d Gateway \<Rightarrow> 'd OrderBook list RiskGate \<times> EventDigest \<times> bytes \<times> bool \<times> u64" where
  "core st = (gw_gate st, gw_digest st, jw_file (gw_journal st), gw_journal_failed st, gw_seq st)"

definition extends :: "'d store_ops \<Rightarrow> 'd Gateway \<Rightarrow> 'd Gateway \<Rightarrow> 'd Gateway \<Rightarrow> bool" where
  "extends ops st0 st st' \<longleftrightarrow> (\<forall>cmds. wal ops st0 cmds st \<longrightarrow> (\<exists>more. wal ops st0 (cmds @ more) st'))"

definition no_writable :: "gw_event list \<Rightarrow> bool" where
  "no_writable evs \<longleftrightarrow> (\<forall>fd wr rd. EvConn fd wr rd \<in> set evs \<longrightarrow> wr = None)"

section \<open>Frames\<close>

lemma wal_core: "core st' = core st \<Longrightarrow> wal ops st0 cmds st' = wal ops st0 cmds st"
  by (simp add: wal_def core_def)

lemma extends_core: "core st' = core st \<Longrightarrow> extends ops st0 st st'"
  unfolding extends_def using wal_core by (metis append_Nil2)

lemma extends_trans: "extends ops st0 st st' \<Longrightarrow> extends ops st0 st' st'' \<Longrightarrow> extends ops st0 st st''"
  unfolding extends_def by (metis append.assoc)

lemma core_updates [simp]:
  "core (st\<lparr>gw_conns := v1\<rparr>) = core st" "core (st\<lparr>gw_owner_fd := v2\<rparr>) = core st" "core (st\<lparr>gw_ids := v3\<rparr>) = core st"
  "core (st\<lparr>gw_pub := v4\<rparr>) = core st" "core (st\<lparr>gw_md := v5\<rparr>) = core st" "core (st\<lparr>gw_md_batch := v6\<rparr>) = core st"
  "core (st\<lparr>gw_handled := v7\<rparr>) = core st" "core (st\<lparr>gw_since_sync := v7\<rparr>) = core st" "core (st\<lparr>gw_malformed := v7\<rparr>) = core st"
  "core (st\<lparr>gw_replica_lost := v8\<rparr>) = core st" "core (st\<lparr>gw_halted := v9\<rparr>) = core st" "core (st\<lparr>gw_sent := v10\<rparr>) = core st"
  "core (st\<lparr>gw_net := v11\<rparr>) = core st" "core (st\<lparr>gw_feed := v12\<rparr>) = core st" "core (st\<lparr>gw_next_owner := v13\<rparr>) = core st"
  by (simp_all add: core_def)

lemma core_helpers [simp]:
  "core (close_conn fd st) = core st" "core (fence_check st) = core st" "core (accept_conn st cfd) = core st" "core (close_all st) = core st"
  "core (heartbeat_pub lost now i st) = core st" "core (heartbeat_md now st) = core st"
  by (simp_all add: close_conn_def fence_check_def accept_conn_def close_all_def heartbeat_pub_def heartbeat_md_def Let_def
      split: option.split prod.split)

lemma core_accepts [simp]: "core (foldl accept_conn st cfds) = core st"
  by (induction cfds arbitrary: st) simp_all

lemma core_try_write: "try_write w fd c st = (ok, st') \<Longrightarrow> core st' = core st"
  by (auto simp: try_write_def Let_def split: if_splits)

lemma core_write_touched [simp]: "core (write_touched w fds st) = core st"
proof (induction fds arbitrary: st)
  case (Cons fd fds)
  show ?case
  proof (cases "gw_conns st fd")
    case (Some c)
    obtain ok s where t: "try_write (w fd) fd c st = (ok, s)" by (rule prod.exhaust)
    show ?thesis using Cons core_try_write [OF t] by (simp add: Some t)
  qed (simp add: Cons)
qed simp

lemma core_write_to: "write_to fd e n st = Some st' \<Longrightarrow> core st' = core st"
  by (auto simp: write_to_def bind_eq_Some_conv)

lemma core_service_pub: "service_pub gs rs st = Some st' \<Longrightarrow> core st' = core st"
  by (auto simp: service_pub_def bind_eq_Some_conv split: option.splits)

lemma core_publish: "publish_cmd c st = Some st' \<Longrightarrow> core st' = core st"
  by (auto simp: publish_cmd_def split: option.splits sum.splits)

lemma core_note_modify: "note_modify ops c st = Some st' \<Longrightarrow> core st' = core st"
  by (auto simp: note_modify_def bind_eq_Some_conv split: if_splits option.splits)

lemma core_retire: "retire_all ops sm xs st = Some st' \<Longrightarrow> core st' = core st"
proof (induction xs arbitrary: st)
  case (Cons x xs)
  then obtain s where s: "retire_dead ops sm x st = Some s" "retire_all ops sm xs s = Some st'" by (auto simp: bind_eq_Some_conv)
  then have "core s = core st" by (auto simp: retire_dead_def bind_eq_Some_conv split: if_splits)
  then show ?case using Cons.IH [OF s(2)] by simp
qed simp

lemma core_publish_md: "publish_md lost now st = Some st' \<Longrightarrow> core st' = core st"
  by (auto simp: publish_md_def bind_eq_Some_conv Let_def case_prod_beta split: option.splits)

lemma core_wait: "wait_for_replica lost through rs st = Some st' \<Longrightarrow> core st' = core st"
proof (induction rs arbitrary: st)
  case (Cons r rs)
  show ?case
  proof (cases "acked st < through")
    case True
    then obtain p out p' where sv: "gw_pub st = Some p" "service (w_group r) (w_control r) p = Some (out, p')"
      using Cons.prems by (auto simp: bind_eq_Some_conv)
    define s where "s = st\<lparr>gw_pub := Some p', gw_net := gw_net st @ out\<rparr>"
    have s: "core s = core st" "core (fence_check s) = core st" by (simp_all add: s_def)
    have e: "(if acked s \<ge> through then Some s
        else let s = fence_check s in if gw_halted s \<noteq> None then Some s
        else case w_late r of
          Some (gs, rs') \<Rightarrow> service_pub gs rs' s \<bind> (\<lambda>st. Some (if gw_halted st \<noteq> None then st
             else if gc_halt_on_replica_loss (gw_cfg st) then st\<lparr>gw_halted := Some ReplicaLost\<rparr> else st\<lparr>gw_replica_lost := True\<rparr>))
        | None \<Rightarrow> wait_for_replica lost through rs (heartbeat_pub lost (w_now r) 2000000 s)) = Some st'"
      using Cons.prems unfolding wait_for_replica.simps s_def Let_def by (simp only: True sv not_True_eq_False if_False bind.bind_lunit prod.case)
    consider (fin) "st' = s \<or> st' = fence_check s" | (late) gs rs' u where "service_pub gs rs' (fence_check s) = Some u" "core st' = core u"
      | (again) "wait_for_replica lost through rs (heartbeat_pub lost (w_now r) 2000000 (fence_check s)) = Some st'"
    proof (cases "w_late r")
      case None
      then show thesis using e that(1,3) by (auto simp: Let_def split: if_splits)
    next
      case (Some x)
      then show thesis using e that(1,2) by (cases x) (auto simp: Let_def bind_eq_Some_conv split: if_splits)
    qed
    then show ?thesis
    proof cases
      case fin
      then show ?thesis using s by auto
    next
      case late
      then show ?thesis using core_service_pub s(2) by metis
    next
      case again
      then show ?thesis using Cons.IH s(2) by fastforce
    qed
  qed (use Cons.prems in simp)
qed (auto split: if_splits)

section \<open>Commands\<close>

lemma core_sink:
  assumes "rs_on_event k e (men, tch, st) = Some (men', tch', st')"
  shows "core st' = core (st\<lparr>gw_digest := ed_on_event e (gw_digest st)\<rparr>)"
proof -
  let ?st = "st\<lparr>gw_digest := ed_on_event e (gw_digest st), gw_md_batch := (if gw_md st \<noteq> None then md_note e (gw_md_batch st) else gw_md_batch st)\<rparr>"
  have c: "core ?st = core (st\<lparr>gw_digest := ed_on_event e (gw_digest st)\<rparr>)" by (simp add: core_def)
  have m: "core u' = core u" if "report_maker k e (men, tch, u) = Some (men', tch', u')" for men tch u men' tch' u'
    using that by (auto simp: report_maker_def Let_def bind_eq_Some_conv split: if_splits option.splits dest: core_write_to)
  obtain u f n where u: "write_to (k_fd k) f n ?st = Some u" "u = st' \<or> (\<exists>a. report_maker k e (a, tch, u) = Some (men', tch', st'))"
    using assms by (auto simp: rs_on_event_def Let_def bind_eq_Some_conv split: if_splits)
  then show ?thesis using core_write_to [OF u(1)] m c by metis
qed

lemma core_digest: "core st' = core st \<Longrightarrow> core (st'\<lparr>gw_digest := d\<rparr>) = core (st\<lparr>gw_digest := d\<rparr>)"
  by (simp add: core_def)

lemma core_sinks:
  "rs_events k es (men, tch, st) = Some (men', tch', st') \<Longrightarrow>
   core st' = core (st\<lparr>gw_digest := foldl (\<lambda>d e. ed_on_event e d) (gw_digest st) es\<rparr>)"
proof (induction es arbitrary: men tch st)
  case (Cons e es)
  then obtain a b s where s: "rs_on_event k e (men, tch, st) = Some (a, b, s)" "rs_events k es (a, b, s) = Some (men', tch', st')"
    by (auto simp: bind_eq_Some_conv)
  note c = core_sink [OF s(1)]
  then have "gw_digest s = ed_on_event e (gw_digest st)" by (simp add: core_def)
  then show ?case using Cons.IH [OF s(2)] core_digest [OF c] by simp
qed simp

lemma run_command_core:
  assumes "run_command ops fd own raw c tch st = Some (tch', st')"
  shows "\<exists>evs. gate_machine ops c (gw_gate st) = Some (gw_gate st', evs) \<and> gw_digest st' = foldl (\<lambda>d e. ed_on_event e d) (gw_digest st) evs \<and>
    jw_file (gw_journal st') = jw_file (gw_journal st) \<and> gw_journal_failed st' = gw_journal_failed st \<and> gw_seq st' = gw_seq st"
proof -
  let ?k = "\<lparr>k_fd = fd, k_owner_id = own, k_client_seq = c_seq raw, k_client = c_order_id raw, k_exchange_id = c_order_id c\<rparr>"
  obtain s1 s2 gate evs men s3 s4 conn where s: "publish_cmd c st = Some s1" "note_modify ops c s1 = Some s2"
    "gate_machine ops c (gw_gate s2) = Some (gate, evs)" "rs_events ?k evs ([], tch, s2\<lparr>gw_gate := gate\<rparr>) = Some (men, tch', s3)"
    "(if gc_trust_client_ids (gw_cfg s3) then Some s3 else retire_all ops (c_symbol c) (men @ [c_order_id c]) s3) = Some s4"
    "st' = s4\<lparr>gw_conns := (gw_conns s4)(fd \<mapsto> conn\<lparr>cn_out := cn_out conn @ encode_done (c_symbol c) (c_seq raw)\<rparr>), gw_handled := gw_handled s4 + 1\<rparr>"
    using assms unfolding run_command_def by (auto simp: bind_eq_Some_conv)
  have "core s2 = core st" using core_publish [OF s(1)] core_note_modify [OF s(2)] by simp
  moreover have "core s4 = core s3" using s(5) core_retire by (auto split: if_splits)
  moreover have "core st' = core s4" by (simp add: s(6))
  ultimately show ?thesis using core_sinks [OF s(4)] s(3) by (simp add: core_def)
qed

lemma run_snoc: "run step s cs = Some (s', evs) \<Longrightarrow> step c s' = Some (s'', ev) \<Longrightarrow> run step s (cs @ [c]) = Some (s'', evs @ ev)"
  by (induction cs arbitrary: s evs) (auto split: bind_splits)

lemma stamp_ok:
  assumes "stamp io own raw st = (c, s)"
  shows "c_seq c = gw_seq st + 1" "c_owner c = own" "core s = core (st\<lparr>gw_seq := gw_seq st + 1\<rparr>)" "gw_journal s = gw_journal st" "gw_halted s = gw_halted st"
    "gw_sent s = gw_sent st" "gw_cfg s = gw_cfg st"
proof -
  obtain x u where a: "assign_id raw own st = (x, u)" by (rule prod.exhaust)
  then have u: "core u = core st" "gw_journal u = gw_journal st" "gw_halted u = gw_halted st" "gw_sent u = gw_sent st" "gw_cfg u = gw_cfg st"
    by (auto simp: assign_id_def Let_def split: if_splits prod.splits)
  then show "c_seq c = gw_seq st + 1" "c_owner c = own" "core s = core (st\<lparr>gw_seq := gw_seq st + 1\<rparr>)" "gw_journal s = gw_journal st" "gw_halted s = gw_halted st"
    "gw_sent s = gw_sent st" "gw_cfg s = gw_cfg st"
    using assms by (auto simp: stamp_def a Let_def core_def)
qed

text \<open>A journal operation that leaves the file alone.\<close>

definition keeps_file :: "(JournalWriter \<Rightarrow> JournalWriter + JournalWriter) \<Rightarrow> bool" where
  "keeps_file f \<longleftrightarrow> (\<forall>w. case f w of Inl w' \<Rightarrow> jw_file w' = jw_file w | Inr w' \<Rightarrow> jw_file w' = jw_file w)"

lemma keeps_file_io: "keeps_file (jw_flush b)" "keeps_file (jw_sync b b')"
  by (auto simp: keeps_file_def jw_flush_def jw_sync_def)

lemma journal_io_fail: "journal_io f st = (False, st') \<Longrightarrow> gw_journal_failed st'"
  by (auto simp: journal_io_def split: if_splits sum.splits)

lemma journal_io_keeps:
  assumes "keeps_file f" and "journal_io f st = (ok, st')" and "wal ops st0 cmds st"
  shows "wal ops st0 cmds st'"
proof -
  have k: "jw_file w' = jw_file (gw_journal st)" if "f (gw_journal st) = Inl w' \<or> f (gw_journal st) = Inr w'" for w'
    using assms(1) [unfolded keeps_file_def, rule_format, of "gw_journal st"] that by auto
  show ?thesis using assms(2,3) k by (auto simp: journal_io_def wal_def split: if_splits sum.splits)
qed

definition count_sync :: "'d Gateway \<Rightarrow> 'd Gateway" where
  "count_sync st = (if gc_sync_mode (gw_cfg st) = SyncBatch then st\<lparr>gw_since_sync := gw_since_sync st + 1\<rparr> else st)"

lemma sync_policy_cases:
  assumes "sync_policy i st = (go, st')"
  obtains "go" "st' = count_sync st" | "journal_io (jw_sync (io_flush i) (io_fsync i)) ((count_sync st)\<lparr>gw_since_sync := 0\<rparr>) = (go, st')"
  using assms unfolding sync_policy_def Let_def count_sync_def [symmetric] by (metis (full_types) prod.inject)

lemma sync_policy_ok:
  assumes "sync_policy i st = (go, st')" and "wal ops st0 cmds st"
  shows "wal ops st0 cmds st'"
proof -
  have c: "core (count_sync st) = core st" "core ((count_sync st)\<lparr>gw_since_sync := 0\<rparr>) = core st" by (simp_all add: count_sync_def)
  show ?thesis using assms(1)
  proof (cases rule: sync_policy_cases)
    case 1
    then show ?thesis using assms(2) wal_core [OF c(1)] by simp
  next
    case 2
    then show ?thesis using journal_io_keeps [OF keeps_file_io(2)] assms(2) wal_core [OF c(2)] by metis
  qed
qed

lemma sync_policy_fail: "sync_policy i st = (False, st') \<Longrightarrow> gw_journal_failed st'"
  by (erule sync_policy_cases) (auto dest: journal_io_fail)

lemma wal_append:
  assumes w: "wal ops st0 cmds st" and nf: "\<not> gw_journal_failed st" and q: "c_seq c = gw_seq st + 1"
    and g: "gate_machine ops c (gw_gate st) = Some (gw_gate st', evs)" "gw_digest st' = foldl (\<lambda>d e. ed_on_event e d) (gw_digest st) evs"
    and j: "jw_file (gw_journal st') = jw_file (gw_journal st) @ journal_record c" "journalable c" "gw_seq st' = gw_seq st + 1" "\<not> gw_journal_failed st'"
  shows "wal ops st0 (cmds @ [c]) st'"
proof -
  obtain ev0 where r: "run (gate_machine ops) (gw_gate st0) cmds = Some (gw_gate st, ev0)" "gw_digest st = foldl (\<lambda>d e. ed_on_event e d) (gw_digest st0) ev0"
    using w by (auto simp: wal_def)
  have "run (gate_machine ops) (gw_gate st0) (cmds @ [c]) = Some (gw_gate st', ev0 @ evs)" by (rule run_snoc [OF r(1) g(1)])
  moreover have "gw_digest st' = foldl (\<lambda>d e. ed_on_event e d) (gw_digest st0) (ev0 @ evs)" by (simp add: g(2) r(2))
  ultimately show ?thesis using w nf q j by (auto simp: wal_def add.assoc)
qed

lemma on_command_cases:
  assumes "on_command ops io fd own raw t st = Some (go, t', st')" and c: "stamp io own raw st = (c, s)"
  obtains (fail) "journal_io (jw_append (io_write (io (c_seq c))) c) s = (False, st')" "\<not> go" "t' = t"
  | (ok) s1 tch s2 where "journal_io (jw_append (io_write (io (c_seq c))) c) s = (True, s1)" "run_command ops fd own raw c (t_touched t) s1 = Some (tch, s2)"
      "sync_policy (io (c_seq c)) s2 = (go, st')" "t' = t\<lparr>t_touched := tch, t_journaled := True\<rparr>"
proof -
  obtain ok s1 where j: "journal_io (jw_append (io_write (io (c_seq c))) c) s = (ok, s1)" by (rule prod.exhaust)
  show thesis
  proof (cases ok)
    case False
    then show thesis using assms(1) fail j by (simp add: on_command_def c)
  next
    case True
    obtain tch s2 where r: "run_command ops fd own raw c (t_touched t) s1 = Some (tch, s2)" using assms(1) True by (auto simp: on_command_def c j bind_eq_Some_conv)
    obtain g s3 where p: "sync_policy (io (c_seq c)) s2 = (g, s3)" by (rule prod.exhaust)
    show thesis using assms(1) True ok [of s1 tch s2] j r p by (simp add: on_command_def c)
  qed
qed

lemma torn_take: "n < length (journal_record c) \<Longrightarrow> torn (take n (journal_record c))"
  unfolding torn_def by (cases "n = 0") auto

lemma append_io:
  assumes "journal_io (jw_append n c) s = (ok, s1)"
  shows "gw_gate s1 = gw_gate s" "gw_digest s1 = gw_digest s" "gw_seq s1 = gw_seq s"
    "\<not> ok \<Longrightarrow> jw_file (gw_journal s1) = jw_file (gw_journal s) \<and> gw_journal_failed s \<or> \<not> gw_journal_failed s \<and> (\<exists>tail. torn tail \<and> jw_file (gw_journal s1) = jw_file (gw_journal s) @ tail)"
    "ok \<Longrightarrow> \<not> gw_journal_failed s \<and> \<not> gw_journal_failed s1 \<and> jw_file (gw_journal s1) = jw_file (gw_journal s) @ journal_record c"
  using assms by (auto simp: journal_io_def jw_append_def Let_def torn_take split: if_splits)

text \<open>What comes from the wire is stored in full.\<close>

definition on_wire :: "Command \<Rightarrow> bool" where
  "on_wire c \<longleftrightarrow> i64_range (c_price c) \<and> wire_view c = c"

lemma decoded_on_wire:
  assumes "decode p = (r, oc)" and "d_status r = DOk"
  shows "on_wire (the oc)"
proof -
  obtain c where c: "oc = Some c" "decode_body (get_Header p) p = Some c"
  proof (cases "decode_body (get_Header p) p")
    case (Some a)
    then have "oc = Some a" using assms by (auto simp: decode_def Let_def split: if_splits)
    then show thesis using that Some by blast
  qed (use assms in \<open>auto simp: decode_def Let_def split: if_splits\<close>)
  have i0: "i64_range 0" by (simp add: i64_range_def)
  show ?thesis using c(2) unfolding c(1) on_wire_def
    by (auto simp: decode_body_def Let_def get_NewOrder_def get_Modify_def wire_view_def zero_command_def i0 split: if_splits)
qed

lemma stamp_journalable:
  assumes "stamp io own raw st = (c, s)" and "on_wire raw"
  shows "journalable c"
proof -
  obtain x sq ts where c: "c = raw\<lparr>c_order_id := x, c_seq := sq, c_owner := own, c_ts := ts\<rparr>"
    using assms(1) by (auto simp: stamp_def Let_def split: prod.splits)
  have w: "wire_view raw = raw" and i: "i64_range (c_price raw)" using assms(2) by (simp_all add: on_wire_def)
  have "journal_view c = c"
    using w unfolding c journal_view_def by (cases "c_type raw"; cases raw) (simp_all add: wire_view_def zero_command_def)
  then show ?thesis using i by (simp add: journalable_def storable_def c)
qed

lemma on_command_wal:
  assumes "on_command ops io fd own raw t st = Some (go, t', st')" and "on_wire raw"
  shows "extends ops st0 st st'"
proof -
  obtain c s where c: "stamp io own raw st = (c, s)" by (rule prod.exhaust)
  note S = stamp_ok [OF c]
  have s: "gw_gate s = gw_gate st" "gw_digest s = gw_digest st" "gw_seq s = gw_seq st + 1" "gw_journal_failed s = gw_journal_failed st" using S(3) by (simp_all add: core_def)
  have "\<exists>more. wal ops st0 (cmds @ more) st'" if w: "wal ops st0 cmds st" for cmds
    using assms(1) c
  proof (cases rule: on_command_cases)
    case fail
    have "wal ops st0 cmds st'" using w append_io [OF fail(1)] journal_io_fail [OF fail(1)] s S(4) by (auto simp: wal_def)
    then show ?thesis by (metis append_Nil2)
  next
    case (ok s1 tch s2)
    obtain evs where R: "gate_machine ops c (gw_gate s1) = Some (gw_gate s2, evs)" "gw_digest s2 = foldl (\<lambda>d e. ed_on_event e d) (gw_digest s1) evs"
      "jw_file (gw_journal s2) = jw_file (gw_journal s1)" "gw_journal_failed s2 = gw_journal_failed s1" "gw_seq s2 = gw_seq s1"
      using run_command_core [OF ok(2)] by blast
    note A = append_io [OF ok(1)]
    have "wal ops st0 (cmds @ [c]) s2" by (rule wal_append [OF w _ S(1)]) (use R A s S(4) stamp_journalable [OF c assms(2)] in simp_all)
    then show ?thesis using sync_policy_ok [OF ok(3)] by blast
  qed
  then show ?thesis unfolding extends_def by blast
qed

section \<open>What answers depend on\<close>

text \<open>What decides whether answers may leave.\<close>

definition vis :: "'d Gateway \<Rightarrow> (nat \<Rightarrow> bytes) \<times> GatewayConfig \<times> halt option \<times> JournalWriter \<times> u64 \<times> bool" where
  "vis st = (gw_sent st, gw_cfg st, gw_halted st, gw_journal st, gw_seq st, gw_journal_failed st)"

text \<open>A step of the event loop: it sends nothing, and a command it takes is noted as journaled, or the gateway halts.\<close>

definition pending :: "turn \<Rightarrow> 'd Gateway \<Rightarrow> turn \<Rightarrow> 'd Gateway \<Rightarrow> bool" where
  "pending t st t' st' \<longleftrightarrow> gw_sent st' = gw_sent st \<and> gw_cfg st' = gw_cfg st \<and> (gw_halted st \<noteq> None \<longrightarrow> gw_halted st' \<noteq> None) \<and>
    (t_journaled t \<longrightarrow> t_journaled t') \<and>
    ((gw_journal_failed st \<longrightarrow> gw_halted st \<noteq> None) \<longrightarrow> (gw_journal_failed st' \<longrightarrow> gw_halted st' \<noteq> None) \<and>
      (\<not> t_journaled t' \<and> gw_halted st' = None \<longrightarrow> gw_journal st' = gw_journal st \<and> gw_seq st' = gw_seq st))"

lemma pending_vis: "vis st' = vis st \<Longrightarrow> t_journaled t' = t_journaled t \<Longrightarrow> pending t st t' st'"
  by (simp add: pending_def vis_def)

lemma pending_trans: "pending t st t1 s \<Longrightarrow> pending t1 s t' st' \<Longrightarrow> pending t st t' st'"
  unfolding pending_def by (cases "gw_halted st'"; cases "gw_halted s"; cases "t_journaled t'"; cases "t_journaled t1") auto

lemma vis_updates [simp]:
  "vis (st\<lparr>gw_conns := v1\<rparr>) = vis st" "vis (st\<lparr>gw_owner_fd := v2\<rparr>) = vis st" "vis (st\<lparr>gw_ids := v3\<rparr>) = vis st"
  "vis (st\<lparr>gw_pub := v4\<rparr>) = vis st" "vis (st\<lparr>gw_md := v5\<rparr>) = vis st" "vis (st\<lparr>gw_md_batch := v6\<rparr>) = vis st"
  "vis (st\<lparr>gw_handled := v7\<rparr>) = vis st" "vis (st\<lparr>gw_since_sync := v7\<rparr>) = vis st" "vis (st\<lparr>gw_malformed := v7\<rparr>) = vis st"
  "vis (st\<lparr>gw_replica_lost := v8\<rparr>) = vis st" "vis (st\<lparr>gw_net := v11\<rparr>) = vis st" "vis (st\<lparr>gw_feed := v12\<rparr>) = vis st"
  "vis (st\<lparr>gw_next_owner := v13\<rparr>) = vis st" "vis (st\<lparr>gw_gate := v14\<rparr>) = vis st" "vis (st\<lparr>gw_digest := v15\<rparr>) = vis st"
  by (simp_all add: vis_def)

lemma vis_helpers [simp]:
  "vis (close_conn fd st) = vis st" "vis (accept_conn st cfd) = vis st" "vis (close_all st) = vis st"
  "vis (heartbeat_pub lost now i st) = vis st" "vis (heartbeat_md now st) = vis st" "vis (count_sync st) = vis st"
  by (simp_all add: close_conn_def accept_conn_def close_all_def heartbeat_pub_def heartbeat_md_def count_sync_def Let_def
      split: option.split prod.split)

lemma vis_accepts [simp]: "vis (foldl accept_conn st cfds) = vis st"
  by (induction cfds arbitrary: st) simp_all

lemma vis_write_to: "write_to fd e n st = Some st' \<Longrightarrow> vis st' = vis st"
  by (auto simp: write_to_def bind_eq_Some_conv)

lemma vis_publish: "publish_cmd c st = Some st' \<Longrightarrow> vis st' = vis st"
  by (auto simp: publish_cmd_def split: option.splits sum.splits)

lemma vis_note_modify: "note_modify ops c st = Some st' \<Longrightarrow> vis st' = vis st"
  by (auto simp: note_modify_def bind_eq_Some_conv split: if_splits option.splits)

lemma vis_retire: "retire_all ops sm xs st = Some st' \<Longrightarrow> vis st' = vis st"
proof (induction xs arbitrary: st)
  case (Cons x xs)
  then obtain s where s: "retire_dead ops sm x st = Some s" "retire_all ops sm xs s = Some st'" by (auto simp: bind_eq_Some_conv)
  then have "vis s = vis st" by (auto simp: retire_dead_def bind_eq_Some_conv split: if_splits)
  then show ?case using Cons.IH [OF s(2)] by simp
qed simp

lemma vis_publish_md: "publish_md lost now st = Some st' \<Longrightarrow> vis st' = vis st"
  by (auto simp: publish_md_def bind_eq_Some_conv Let_def case_prod_beta split: option.splits)

lemma vis_sink: "rs_on_event k e (men, tch, st) = Some (men', tch', st') \<Longrightarrow> vis st' = vis st"
proof -
  assume a: "rs_on_event k e (men, tch, st) = Some (men', tch', st')"
  let ?st = "st\<lparr>gw_digest := ed_on_event e (gw_digest st), gw_md_batch := (if gw_md st \<noteq> None then md_note e (gw_md_batch st) else gw_md_batch st)\<rparr>"
  have m: "vis u' = vis u" if "report_maker k e (men, tch, u) = Some (men', tch', u')" for men tch u men' tch' u'
    using that by (auto simp: report_maker_def Let_def bind_eq_Some_conv split: if_splits option.splits dest: vis_write_to)
  obtain u f n where u: "write_to (k_fd k) f n ?st = Some u" "u = st' \<or> (\<exists>a. report_maker k e (a, tch, u) = Some (men', tch', st'))"
    using a by (auto simp: rs_on_event_def Let_def bind_eq_Some_conv split: if_splits)
  have "vis ?st = vis st" by simp
  then show "vis st' = vis st" using vis_write_to [OF u(1)] m u(2) by metis
qed

lemma vis_sinks: "rs_events k es (men, tch, st) = Some (men', tch', st') \<Longrightarrow> vis st' = vis st"
proof (induction es arbitrary: men tch st)
  case (Cons e es)
  then obtain a b s where s: "rs_on_event k e (men, tch, st) = Some (a, b, s)" "rs_events k es (a, b, s) = Some (men', tch', st')"
    by (auto simp: bind_eq_Some_conv)
  show ?case using Cons.IH [OF s(2)] vis_sink [OF s(1)] by simp
qed simp

lemma vis_run_command:
  assumes "run_command ops fd own raw c tch st = Some (tch', st')"
  shows "vis st' = vis st"
proof -
  let ?k = "\<lparr>k_fd = fd, k_owner_id = own, k_client_seq = c_seq raw, k_client = c_order_id raw, k_exchange_id = c_order_id c\<rparr>"
  obtain s1 s2 gate evs men s3 s4 conn where s: "publish_cmd c st = Some s1" "note_modify ops c s1 = Some s2"
    "rs_events ?k evs ([], tch, s2\<lparr>gw_gate := gate\<rparr>) = Some (men, tch', s3)"
    "(if gc_trust_client_ids (gw_cfg s3) then Some s3 else retire_all ops (c_symbol c) (men @ [c_order_id c]) s3) = Some s4"
    "st' = s4\<lparr>gw_conns := (gw_conns s4)(fd \<mapsto> conn\<lparr>cn_out := cn_out conn @ encode_done (c_symbol c) (c_seq raw)\<rparr>), gw_handled := gw_handled s4 + 1\<rparr>"
    using assms unfolding run_command_def by (auto simp: bind_eq_Some_conv)
  have "vis s2 = vis st" using vis_publish [OF s(1)] vis_note_modify [OF s(2)] by simp
  moreover have "vis s4 = vis s3" using s(4) vis_retire by (auto split: if_splits)
  ultimately show ?thesis using vis_sinks [OF s(3)] by (simp add: s(5))
qed

section \<open>The loop\<close>

lemma read_loop_cases:
  assumes "read_loop ops io fd own p t st = Some (br, left, t', st')" and d: "decode p = (r, c)"
  obtains (stay) "st' = st" "t' = t" | (bad) "st' = st\<lparr>gw_malformed := gw_malformed st + 1\<rparr>" "t' = t"
    | (skip) "p \<noteq> []" "d_status r = Malformed" "d_consumed r \<noteq> 0"
        "read_loop ops io fd own (drop (d_consumed r) p) t (st\<lparr>gw_malformed := gw_malformed st + 1\<rparr>) = Some (br, left, t', st')"
    | (command) go t1 s where "p \<noteq> []" "d_status r = DOk" "on_command ops io fd own (the c) t st = Some (go, t1, s)"
        "if go then read_loop ops io fd own (drop (d_consumed r) p) t1 s = Some (br, left, t', st') else st' = s \<and> t' = t1"
proof -
  have u: "(if p = [] then Some (False, [], t, st)
     else if d_status r = Incomplete then Some (False, p, t, st)
     else if d_status r = Malformed then
       (let st = st\<lparr>gw_malformed := gw_malformed st + 1\<rparr> in
        if d_consumed r = 0 then Some (True, p, t, st) else read_loop ops io fd own (drop (d_consumed r) p) t st)
     else on_command ops io fd own (the c) t st \<bind> (\<lambda>(go, t, st).
            if go then read_loop ops io fd own (drop (d_consumed r) p) t st else Some (False, drop (d_consumed r) p, t, st))) = Some (br, left, t', st')"
    using assms(1) unfolding read_loop.simps [of ops io fd own p t st] d prod.case .
  show thesis
  proof (cases "p = []")
    case ne: False
    show thesis
    proof (cases "d_status r")
      case DOk
      then obtain go t1 s where o: "on_command ops io fd own (the c) t st = Some (go, t1, s)"
        and k: "(if go then read_loop ops io fd own (drop (d_consumed r) p) t1 s else Some (False, drop (d_consumed r) p, t1, s)) = Some (br, left, t', st')"
        using u ne by (cases "on_command ops io fd own (the c) t st") auto
      show thesis by (rule command [OF ne DOk o]) (use k in \<open>cases go; simp\<close>)
    next
      case Malformed
      show thesis
      proof (cases "d_consumed r = 0")
        case True
        then show thesis using bad u ne Malformed by (simp add: Let_def)
      next
        case False
        then show thesis using skip u ne Malformed by (simp add: Let_def)
      qed
    next
      case Incomplete
      then have "Some (False, p, t, st) = Some (br, left, t', st')" using u ne by (simp only: simp_thms if_True if_False)
      then show thesis using stay by blast
    qed
  next
    case True
    then have "Some (False, [], t, st) = Some (br, left, t', st')" using u by (simp only: simp_thms if_True)
    then show thesis using stay by blast
  qed
qed

section \<open>Relations along a turn\<close>

text \<open>
  What holds of a step of the event loop: a relation that commands, fencing and the writes \<open>ok\<close> allows keep, and that sees no more of a
  state than \<open>core\<close> and \<open>vis\<close> show, holds along every turn's events.
\<close>

locale turn_relation =
  fixes ops :: "'d store_ops" and io :: "u64 \<Rightarrow> cmd_io" and R :: "turn \<Rightarrow> 'd Gateway \<Rightarrow> turn \<Rightarrow> 'd Gateway \<Rightarrow> bool" and ok :: "send_result \<Rightarrow> bool"
  assumes rel_trans: "R t st t1 s \<Longrightarrow> R t1 s t' st' \<Longrightarrow> R t st t' st'"
    and rel_frame: "core st' = core st \<Longrightarrow> vis st' = vis st \<Longrightarrow> t_journaled t' = t_journaled t \<Longrightarrow> R t st t' st'"
    and rel_fence: "R t st t (fence_check st)"
    and rel_write: "ok w \<Longrightarrow> try_write w fd c st = (sent, st') \<Longrightarrow> R t st t st'"
    and rel_command: "on_command ops io fd own raw t st = Some (go, t', st') \<Longrightarrow> on_wire raw \<Longrightarrow> R t st t' st'"
begin

lemma read_loop_rel: "read_loop ops io fd own p t st = Some (br, left, t', st') \<Longrightarrow> R t st t' st'"
proof (induction p arbitrary: t st rule: measure_induct_rule [of length])
  case (less p)
  obtain r c where d: "decode p = (r, c)" by (rule prod.exhaust)
  from less.prems d show ?case
  proof (cases rule: read_loop_cases)
    case skip
    have "R t (st\<lparr>gw_malformed := gw_malformed st + 1\<rparr>) t' st'" using less.IH [OF _ skip(4)] skip(1,3) by simp
    then show ?thesis using rel_trans rel_frame [of "st\<lparr>gw_malformed := gw_malformed st + 1\<rparr>" st t t] by simp
  next
    case (command go t1 s)
    have s: "R t st t1 s" using rel_command [OF command(3)] decoded_on_wire [OF d command(2)] by blast
    have "0 < d_consumed r" using decode_consumed(2) [of p] command(2) by (simp add: d)
    then have "R t1 s t' st'" if go using less.IH [of "drop (d_consumed r) p" t1 s] command(1,4) that by simp
    then show ?thesis using s rel_trans [of t st t1 s t' st'] command(4) by (cases go) auto
  qed (simp_all add: rel_frame)
qed

lemma on_data_in_rel:
  assumes "on_data_in ops io fd bs t st = Some (stop, t', st')"
  shows "R t st t' st'"
proof (cases "gw_conns st fd")
  case (Some c)
  then obtain br left t1 s where r: "read_loop ops io fd (cn_owner c) (cn_in c @ bs) t st = Some (br, left, t1, s)"
    and s: "core st' = core s" "vis st' = vis s" "t_journaled t' = t_journaled t1"
    using assms by (auto simp: on_data_in_def bind_eq_Some_conv split: if_splits)
  show ?thesis by (rule rel_trans [OF read_loop_rel [OF r] rel_frame [OF s]])
qed (use assms in \<open>simp add: on_data_in_def rel_frame\<close>)

lemma on_conn_rel:
  assumes "on_conn ops io fd wr rd t st = Some (stop, t', st')" and "\<forall>w. wr = Some w \<longrightarrow> ok w"
  shows "R t st t' st'"
proof (cases "gw_conns st fd")
  case (Some c)
  obtain k s where w: "(case wr of None \<Rightarrow> (True, st) | Some w \<Rightarrow> try_write w fd c st) = (k, s)" by (rule prod.exhaust)
  then have s: "R t st t s" using assms(2) by (auto split: option.splits intro: rel_frame rel_write)
  have "core st' = core s \<and> vis st' = vis s \<and> t' = t \<or> (\<exists>bs. on_data_in ops io fd bs t s = Some (stop, t', st'))"
    using assms(1) by (auto simp: on_conn_def Some w split: if_splits option.splits recv.splits)
  then show ?thesis
  proof (elim disjE exE conjE)
    assume "core st' = core s" "vis st' = vis s" "t' = t"
    then show ?thesis using rel_trans [OF s rel_frame] by simp
  next
    fix bs assume "on_data_in ops io fd bs t s = Some (stop, t', st')"
    then show ?thesis using rel_trans [OF s] on_data_in_rel by blast
  qed
qed (use assms in \<open>simp add: on_conn_def rel_frame\<close>)

lemma service_rel:
  assumes "service_pub gs rs st = Some st'"
  shows "R t st t st'"
proof -
  have "st' = st \<or> (\<exists>p out. st' = fence_check (st\<lparr>gw_pub := Some p, gw_net := gw_net st @ out\<rparr>))"
    using assms by (auto simp: service_pub_def bind_eq_Some_conv split: option.splits)
  then show ?thesis
  proof (elim disjE exE)
    fix p out assume e: "st' = fence_check (st\<lparr>gw_pub := Some p, gw_net := gw_net st @ out\<rparr>)"
    show ?thesis unfolding e by (rule rel_trans [OF rel_frame rel_fence]) simp_all
  qed (simp add: rel_frame)
qed

lemma on_event_rel:
  assumes "on_event ops io ev t st = Some (stop, t', st')" and "\<forall>fd w rd. ev = EvConn fd (Some w) rd \<longrightarrow> ok w"
  shows "R t st t' st'"
proof (cases ev)
  case (EvConn fd wr rd)
  then show ?thesis using assms on_conn_rel [of fd wr rd t st stop t' st'] by (auto simp: rel_frame split: if_splits)
qed (use assms in \<open>auto simp: rel_frame intro: service_rel\<close>)

lemma event_loop_rel:
  "event_loop ops io evs t st = Some (t', st') \<Longrightarrow> \<forall>fd w rd. EvConn fd (Some w) rd \<in> set evs \<longrightarrow> ok w \<Longrightarrow> R t st t' st'"
proof (induction evs arbitrary: t st)
  case (Cons ev evs)
  then obtain stop t1 s where e: "on_event ops io ev t st = Some (stop, t1, s)"
    and r: "if stop then t' = t1 \<and> st' = s else event_loop ops io evs t1 s = Some (t', st')"
    by (auto simp: bind_eq_Some_conv split: if_splits)
  have "R t st t1 s" using on_event_rel [OF e] Cons.prems(2) by auto
  then show ?case using Cons.IH [of t1 s] Cons.prems(2) r rel_trans [of t st t1 s t' st'] by (cases stop) auto
qed (simp add: rel_frame)

end

interpretation wal_rel: turn_relation ops io "\<lambda>_ st _ st'. extends ops st0 st st'" "\<lambda>_. True" for ops :: "'d store_ops" and io and st0 :: "'d Gateway"
proof unfold_locales
  show "extends ops st0 st s \<Longrightarrow> extends ops st0 s st' \<Longrightarrow> extends ops st0 st st'" for st s st' by (rule extends_trans)
qed (auto intro: extends_core on_command_wal core_try_write)

lemma event_loop_wal: "event_loop ops io evs t st = Some (t', st') \<Longrightarrow> extends ops st0 st st'"
  using wal_rel.event_loop_rel by blast

lemma make_durable_wal:
  assumes "make_durable n t st = Some st'"
  shows "extends ops st0 st st'"
proof (cases "t_journaled t")
  case True
  obtain ok s where j: "journal_io (jw_flush (n_flush n)) st = (ok, s)" by (rule prod.exhaust)
  have e: "extends ops st0 st s" using journal_io_keeps [OF keeps_file_io(1) j] unfolding extends_def by (metis append_Nil2)
  have "core st' = core s"
    using assms True j by (auto simp: make_durable_def Let_def split: bool.splits option.splits if_splits prod.splits dest!: core_wait)
  then show ?thesis using e extends_core extends_trans by blast
qed (use assms in \<open>simp add: make_durable_def extends_core\<close>)

lemma respond_core: "respond n t st = Some st' \<Longrightarrow> core st' = core st"
  by (auto simp: respond_def bind_eq_Some_conv split: if_splits dest: core_publish_md)

lemma gw_turn_wal:
  assumes "gw_turn ops io n evs st = Some st'"
  shows "extends ops st0 st st'"
proof -
  obtain t s1 s2 where s: "event_loop ops io evs \<lparr>t_touched = [], t_journaled = False\<rparr> st = Some (t, s1)" "make_durable n t s1 = Some s2" "respond n t s2 = Some st'"
    using assms by (auto simp: gw_turn_def bind_eq_Some_conv)
  show ?thesis using event_loop_wal [OF s(1)] make_durable_wal [OF s(2)] extends_core [OF respond_core [OF s(3)]] extends_trans by blast
qed

lemma gw_run_wal: "gw_run ops io ns st = Some st' \<Longrightarrow> extends ops st0 st st'"
proof (induction ops io ns st rule: gw_run.induct)
  case (2 ops io n evs ns st)
  then obtain s where s: "gw_turn ops io n evs st = Some s" "if gw_halted s \<noteq> None then st' = s else gw_run ops io ns s = Some st'"
    by (auto simp: bind_eq_Some_conv split: if_splits)
  show ?case
  proof (cases "gw_halted s = None")
    case True
    then show ?thesis using 2(1) [OF s(1)] s gw_turn_wal [OF s(1)] extends_trans [of ops st0 st s st'] by auto
  qed (use s gw_turn_wal [OF s(1)] in auto)
qed (simp add: extends_core)

lemma stop_wal:
  assumes "gw_stop i n st = Some (k, st')"
  shows "extends ops st0 st st'"
proof -
  obtain ok s where j: "journal_io (jw_sync (io_flush i) (io_fsync i)) st = (ok, s)" by (rule prod.exhaust)
  define u where "u = (case gw_pub s of None \<Rightarrow> s
      | Some p \<Rightarrow> (case end_stream (n_lost n) (n_now n) p of (out, p) \<Rightarrow> s\<lparr>gw_pub := Some p, gw_net := gw_net s @ out\<rparr>))"
  have u: "core u = core s" by (simp add: u_def split: option.split prod.split)
  have e: "(case gw_md u of None \<Rightarrow> Some u
      | Some m \<Rightarrow> if gw_halted u \<noteq> None then Some u
        else book_view (books u) \<bind> (\<lambda>view. let (out, m) = mp_end view m in Some (u\<lparr>gw_md := Some m, gw_feed := gw_feed u @ out\<rparr>)))
      \<bind> (\<lambda>st. Some (if gw_halted st \<noteq> None then 3 else 0, st)) = Some (k, st')"
    using assms unfolding gw_stop_def j snd_conv Let_def u_def .
  have "core st' = core s"
    using e u by (cases "gw_md u") (auto simp: bind_eq_Some_conv case_prod_beta split: if_splits)
  then have c: "extends ops st0 s st'" by (rule extends_core)
  have "extends ops st0 st s" using journal_io_keeps [OF keeps_file_io(2) j] unfolding extends_def by (metis append_Nil2)
  then show ?thesis by (rule extends_trans [OF _ c])
qed

section \<open>Recovery\<close>

lemma scan_records:
  "\<forall>c \<in> set cs. storable c \<Longrightarrow> scan_loop (journal_records cs @ bs) (s, out) =
    scan_loop bs (s\<lparr>js_records := js_records s + length cs, js_valid_bytes := js_valid_bytes s + length (journal_records cs)\<rparr>, out @ map journal_view cs)"
  by (induction cs arbitrary: s out) (simp_all add: scan_record add.assoc)

lemma scan_torn: "torn tail \<Longrightarrow> scan_loop tail (s, out) = (s\<lparr>js_status := (if tail = [] then js_status s else TornTail)\<rparr>, out)"
  by (auto simp: torn_def scan_partial scan_loop.simps [of "[]"])

lemma scan_wal:
  assumes "\<forall>c \<in> set cmds. journalable c" and "torn tail"
  shows "journal_scan (journal_header @ journal_records cmds @ tail) =
    Some (\<lparr>js_records = length cmds, js_valid_bytes = length (journal_header @ journal_records cmds), js_status = (if tail = [] then Clean else TornTail)\<rparr>, cmds)"
proof -
  have "\<forall>c \<in> set cmds. storable c" and "map journal_view cmds = cmds" using assms(1) by (auto simp: journalable_def map_idI)
  then show ?thesis using assms(2) by (simp add: journal_scan_header scan_records scan_torn)
qed

lemma wal_init:
  "wal ops (gw_init cfg g0 jw_create ed_init sq own x pub md) [] (gw_init cfg g0 jw_create ed_init sq own x pub md)"
  by (simp add: wal_def gw_init_def torn_def)

section \<open>No answer before commit\<close>

lemma pending_fence: "pending t st t (fence_check st)"
  by (simp add: pending_def fence_check_def split: option.split)

lemma journal_io_vis:
  assumes "journal_io f s = (k, s')"
  shows "gw_sent s' = gw_sent s" "gw_cfg s' = gw_cfg s" "gw_seq s' = gw_seq s" "gw_halted s \<noteq> None \<Longrightarrow> gw_halted s' \<noteq> None"
    "gw_pub s' = gw_pub s" "gw_replica_lost s' = gw_replica_lost s"
    "k \<Longrightarrow> gw_halted s' = gw_halted s \<and> gw_journal_failed s' = gw_journal_failed s \<and> f (gw_journal s) = Inr (gw_journal s')"
    "\<not> k \<Longrightarrow> gw_halted s' \<noteq> None \<or> gw_journal_failed s \<and> s' = s"
  using assms by (auto simp: journal_io_def split: if_splits sum.splits)

lemma on_command_pending:
  assumes "on_command ops io fd own raw t st = Some (go, t', st')"
  shows "pending t st t' st'"
proof -
  obtain c s where c: "stamp io own raw st = (c, s)" by (rule prod.exhaust)
  note S = stamp_ok [OF c]
  have jf: "gw_journal_failed s = gw_journal_failed st" using S(3) by (simp add: core_def)
  from assms c show ?thesis
  proof (cases rule: on_command_cases)
    case fail
    note J = journal_io_vis [OF fail(1)]
    show ?thesis using J S jf fail(3) by (auto simp: pending_def)
  next
    case (ok s1 tch s2)
    note J = journal_io_vis [OF ok(1)]
    have v: "gw_sent s2 = gw_sent s1" "gw_cfg s2 = gw_cfg s1" "gw_halted s2 = gw_halted s1" "gw_journal_failed s2 = gw_journal_failed s1"
      using vis_run_command [OF ok(2)] by (simp_all add: vis_def)
    have cs: "vis (count_sync s2) = vis s2" "vis ((count_sync s2)\<lparr>gw_since_sync := 0\<rparr>) = vis s2" by simp_all
    have j: "gw_journal_failed s1 = gw_journal_failed s" "gw_halted s1 = gw_halted s" using J by auto
    have p: "pending t' s2 t' st'" using ok(3)
    proof (cases rule: sync_policy_cases)
      case 1
      then show ?thesis by (simp add: pending_vis)
    next
      case 2
      note K = journal_io_vis [OF 2]
      show ?thesis using K cs(2) ok(4) by (cases go) (auto simp: pending_def vis_def)
    qed
    show ?thesis by (rule pending_trans [OF _ p]) (use v J(1,2) S(5-7) jf j ok(4) in \<open>simp add: pending_def\<close>)
  qed
qed

interpretation pend: turn_relation ops io pending "\<lambda>_. False" for ops :: "'d store_ops" and io
  by unfold_locales (blast intro: pending_trans pending_vis pending_fence on_command_pending)+

text \<open>Heartbeats and flushes leave the acknowledged sequence alone.\<close>

lemma flush_acked: "p_acked (snd (flush lost now p)) = p_acked p"
proof (induction lost now p rule: flush.induct)
  case (1 lost now p)
  show ?case
  proof (cases "p_pending_first p < p_next_seq p")
    case True
    then show ?thesis using 1 [OF True refl refl refl] by (simp add: flush.simps [of lost now p] Let_def case_prod_beta)
  qed (simp add: flush.simps [of lost now p])
qed

lemma acked_heartbeat [simp]: "acked (heartbeat_pub lost now i st) = acked st"
proof (cases "gw_pub st")
  case (Some p)
  then show ?thesis using flush_acked [of lost now p] by (simp add: acked_def heartbeat_pub_def heartbeat_if_idle_def Let_def case_prod_beta)
qed (simp add: heartbeat_pub_def)

text \<open>A wait that ends without halting has its acknowledgement, or has given the replica up.\<close>

lemma fence_vis [simp]:
  "gw_sent (fence_check st) = gw_sent st" "gw_cfg (fence_check st) = gw_cfg st" "gw_journal (fence_check st) = gw_journal st"
  "gw_seq (fence_check st) = gw_seq st" "acked (fence_check st) = acked st" "gw_replica_lost (fence_check st) = gw_replica_lost st"
  by (simp_all add: fence_check_def acked_def split: option.split)

lemma service_pub_vis:
  assumes "service_pub gs rs st = Some st'"
  shows "gw_sent st' = gw_sent st" "gw_cfg st' = gw_cfg st" "gw_journal st' = gw_journal st" "gw_seq st' = gw_seq st"
  using assms by (auto simp: service_pub_def bind_eq_Some_conv split: option.splits)

definition committed :: "u64 \<Rightarrow> 'd Gateway \<Rightarrow> bool" where
  "committed through st \<longleftrightarrow> gw_halted st = None \<longrightarrow> through \<le> acked st \<or> gw_replica_lost st"

lemma wait_commits:
  "wait_for_replica lost through rs st = Some st' \<Longrightarrow>
   committed through st' \<and> gw_sent st' = gw_sent st \<and> gw_cfg st' = gw_cfg st \<and> gw_journal st' = gw_journal st \<and> gw_seq st' = gw_seq st"
proof (induction rs arbitrary: st)
  case (Cons r rs)
  show ?case
  proof (cases "acked st < through")
    case True
    then obtain p out p' where sv: "gw_pub st = Some p" "service (w_group r) (w_control r) p = Some (out, p')"
      using Cons.prems by (auto simp: bind_eq_Some_conv)
    define s where "s = st\<lparr>gw_pub := Some p', gw_net := gw_net st @ out\<rparr>"
    have s: "gw_sent s = gw_sent st" "gw_cfg s = gw_cfg st" "gw_journal s = gw_journal st" "gw_seq s = gw_seq st" by (simp_all add: s_def)
    have e: "(if acked s \<ge> through then Some s
        else let s = fence_check s in if gw_halted s \<noteq> None then Some s
        else case w_late r of
          Some (gs, rs') \<Rightarrow> service_pub gs rs' s \<bind> (\<lambda>st. Some (if gw_halted st \<noteq> None then st
             else if gc_halt_on_replica_loss (gw_cfg st) then st\<lparr>gw_halted := Some ReplicaLost\<rparr> else st\<lparr>gw_replica_lost := True\<rparr>))
        | None \<Rightarrow> wait_for_replica lost through rs (heartbeat_pub lost (w_now r) 2000000 s)) = Some st'"
      using Cons.prems unfolding wait_for_replica.simps s_def Let_def by (simp only: True sv not_True_eq_False if_False bind.bind_lunit prod.case)
    consider (fin) "st' = s" "through \<le> acked s" | (fenced) "st' = fence_check s" "gw_halted st' \<noteq> None"
      | (late) gs rs' u where "service_pub gs rs' (fence_check s) = Some u"
          "st' = (if gw_halted u \<noteq> None then u else if gc_halt_on_replica_loss (gw_cfg u) then u\<lparr>gw_halted := Some ReplicaLost\<rparr> else u\<lparr>gw_replica_lost := True\<rparr>)"
      | (again) "wait_for_replica lost through rs (heartbeat_pub lost (w_now r) 2000000 (fence_check s)) = Some st'"
    proof (cases "through \<le> acked s \<or> gw_halted (fence_check s) \<noteq> None")
      case True
      then show thesis using e that(1,2) by (auto simp: Let_def split: if_splits)
    next
      case False
      then show thesis using e that(3,4) by (cases "w_late r") (auto simp: Let_def bind_eq_Some_conv)
    qed
    then show ?thesis
    proof cases
      case late
      then show ?thesis using service_pub_vis [OF late(1)] s by (auto simp: committed_def)
    next
      case again
      have "vis (heartbeat_pub lost (w_now r) 2000000 (fence_check s)) = vis (fence_check s)" by simp
      then show ?thesis using Cons.IH [OF again] s by (simp add: vis_def)
    qed (use s in \<open>auto simp: committed_def\<close>)
  qed (use Cons.prems in \<open>simp add: committed_def not_less\<close>)
qed (auto simp: committed_def not_less split: if_splits)

text \<open>What holds once the turn's commands are safe.\<close>

definition safe :: "'d Gateway \<Rightarrow> bool" where
  "safe st \<longleftrightarrow> jw_os (gw_journal st) = length (jw_file (gw_journal st)) \<and>
    (gc_wait_replica (gw_cfg st) \<and> gw_pub st \<noteq> None \<longrightarrow> gw_seq st \<le> acked st \<or> gw_replica_lost st)"

lemma jw_flush_os: "jw_flush b w = Inr w' \<Longrightarrow> jw_os w' = length (jw_file w')"
  by (auto simp: jw_flush_def split: if_splits)

lemma make_durable_safe:
  assumes "make_durable n t st = Some st'" and "t_journaled t" and "gw_journal_failed st \<longrightarrow> gw_halted st \<noteq> None"
  shows "gw_sent st' = gw_sent st" "gw_halted st' = None \<Longrightarrow> safe st'"
proof -
  obtain k s where j: "journal_io (jw_flush (n_flush n)) st = (k, s)" by (rule prod.exhaust)
  note J = journal_io_vis [OF j]
  have *: "gw_sent st' = gw_sent st \<and> (gw_halted st' = None \<longrightarrow> safe st')"
  proof (cases k)
    case False
    then have "st' = s" using assms(1,2) j by (simp add: make_durable_def)
    then show ?thesis using J False assms(3) by auto
  next
    case True
    then have os: "jw_os (gw_journal s) = length (jw_file (gw_journal s))" using J(7) jw_flush_os by blast
    show ?thesis
    proof (cases "gw_pub s")
      case None
      then have "st' = s" using assms(1,2) j True by (simp add: make_durable_def)
      then show ?thesis using J(1) os None by (simp add: safe_def)
    next
      case (Some p)
      define u where "u = (if \<not> fenced p then (case flush (n_lost n) (n_now n) p of (out, p) \<Rightarrow> s\<lparr>gw_pub := Some p, gw_net := gw_net s @ out\<rparr>) else s)"
      have u: "vis u = vis s" "gw_replica_lost u = gw_replica_lost s" by (simp_all add: u_def case_prod_beta)
      then have v: "gw_sent u = gw_sent st" "gw_journal u = gw_journal s" "gw_halted u = gw_halted s" "gw_cfg u = gw_cfg s" using J(1) by (simp_all add: vis_def)
      have m: "(if gc_wait_replica (gw_cfg u) \<and> \<not> gw_replica_lost u \<and> gw_halted u = None
          then wait_for_replica (n_lost n) (gw_seq u) (n_wait n) u else Some u) = Some st'"
        using assms(1,2) by (simp only: make_durable_def j True Some Let_def prod.case bool.case option.case not_True_eq_False if_False flip: u_def)
      show ?thesis
      proof (cases "gc_wait_replica (gw_cfg u) \<and> \<not> gw_replica_lost u \<and> gw_halted u = None")
        case True
        then have "wait_for_replica (n_lost n) (gw_seq u) (n_wait n) u = Some st'" using m by simp
        from wait_commits [OF this] show ?thesis using v os by (auto simp: safe_def committed_def)
      next
        case False
        then have "st' = u" using m by (simp only: if_False option.inject)
        then show ?thesis using False v os by (auto simp: safe_def)
      qed
    qed
  qed
  then show "gw_sent st' = gw_sent st" "gw_halted st' = None \<Longrightarrow> safe st'" by simp_all
qed

lemma publish_md_pub: "publish_md lost now st = Some st' \<Longrightarrow> gw_pub st' = gw_pub st \<and> gw_replica_lost st' = gw_replica_lost st"
  by (auto simp: publish_md_def bind_eq_Some_conv Let_def case_prod_beta split: option.splits)

lemma write_touched_frame:
  "gw_halted (write_touched w fds st) = gw_halted st \<and> gw_journal (write_touched w fds st) = gw_journal st \<and> gw_seq (write_touched w fds st) = gw_seq st \<and>
   gw_cfg (write_touched w fds st) = gw_cfg st \<and> gw_pub (write_touched w fds st) = gw_pub st \<and> gw_replica_lost (write_touched w fds st) = gw_replica_lost st"
proof (induction fds arbitrary: st)
  case (Cons fd fds)
  show ?case
  proof (cases "gw_conns st fd")
    case (Some c)
    obtain k s where t: "try_write (w fd) fd c st = (k, s)" by (rule prod.exhaust)
    have "gw_halted s = gw_halted st \<and> gw_journal s = gw_journal st \<and> gw_seq s = gw_seq st \<and> gw_cfg s = gw_cfg st \<and> gw_pub s = gw_pub st \<and> gw_replica_lost s = gw_replica_lost st"
      using t by (auto simp: try_write_def Let_def split: if_splits)
    moreover have "gw_halted (close_conn fd s) = gw_halted s" "gw_journal (close_conn fd s) = gw_journal s" "gw_seq (close_conn fd s) = gw_seq s"
      "gw_cfg (close_conn fd s) = gw_cfg s" "gw_pub (close_conn fd s) = gw_pub s" "gw_replica_lost (close_conn fd s) = gw_replica_lost s"
      by (simp_all add: close_conn_def split: option.split)
    ultimately show ?thesis using Cons.IH by (simp add: Some t)
  qed (simp add: Cons.IH)
qed simp

lemma respond_safe:
  assumes "respond n t st = Some st'" and "gw_sent st' \<noteq> gw_sent st"
  shows "gw_halted st = None" "gw_halted st' = None" "gw_journal st' = gw_journal st" "gw_seq st' = gw_seq st" "safe st' = safe st"
proof -
  show h: "gw_halted st = None" using assms by (auto simp: respond_def close_all_def split: if_splits)
  obtain s where s: "(if t_journaled t then publish_md (n_md_lost n) (n_now n) st else Some st) = Some s"
    "st' = write_touched (n_send n) (t_touched t) (heartbeat_pub (n_lost n) (n_now n) 20000000 (heartbeat_md (n_now n) s))"
    using assms(1) h by (auto simp: respond_def bind_eq_Some_conv split: if_splits)
  let ?b = "heartbeat_pub (n_lost n) (n_now n) 20000000 (heartbeat_md (n_now n) s)"
  have v: "vis s = vis st" "gw_pub s = gw_pub st" "gw_replica_lost s = gw_replica_lost st"
    using s(1) by (auto split: if_splits dest: vis_publish_md publish_md_pub)
  have m: "gw_pub (heartbeat_md (n_now n) s) = gw_pub s" "gw_replica_lost (heartbeat_md (n_now n) s) = gw_replica_lost s"
    by (simp_all add: heartbeat_md_def split: option.split prod.split)
  have "acked (heartbeat_md (n_now n) s) = acked s" by (simp add: acked_def m(1))
  then have b: "vis ?b = vis s" "acked ?b = acked s" by simp_all
  have c: "(gw_pub ?b = None) = (gw_pub s = None)" "gw_replica_lost ?b = gw_replica_lost s"
    using m by (simp_all add: heartbeat_pub_def split: option.split prod.split)
  note F = write_touched_frame [of "n_send n" "t_touched t" ?b]
  have a: "acked st = acked s" "acked st' = acked ?b" using v(2) F by (simp_all add: acked_def s(2))
  show "gw_halted st' = None" "gw_journal st' = gw_journal st" "gw_seq st' = gw_seq st" using F v(1) b(1) h by (simp_all add: s(2) vis_def)
  then show "safe st' = safe st" using F v b c a by (simp add: safe_def s(2) vis_def)
qed

end
