(* ===== verification/Gateway_Liveness.thy ===== *)
theory Gateway_Liveness
  imports Gateway_Properties Engine_Properties
begin

text \<open>
  The gateway does not get stuck: without replication, and with a quantity limit in the gate that keeps the books' totals in 64 bits, every
  turn ends, whatever the clients send.
\<close>

section \<open>What the gateway asks of its books\<close>

locale lively_books =
  fixes ops :: "'d store_ops" and good :: "'d OrderBook \<Rightarrow> bool" and M :: nat
  assumes book_process: "good b \<Longrightarrow> unat (c_qty c) \<le> M \<Longrightarrow> \<exists>b' evs. ob_process ops c b = Some (b', evs) \<and> good b'"
    and book_find: "good b \<Longrightarrow> \<exists>v. ob_find_order ops x b = Some v"
    and book_contains: "good b \<Longrightarrow> \<exists>v. ob_contains ops x b = Some v"
    and book_levels: "good b \<Longrightarrow> \<exists>v. ob_for_each_level t b = Some v"

context order_store
begin

lemma lively: "lively_books ops (\<lambda>b. \<exists>rb. book_rel M b rb) M"
proof
  show "\<exists>b' evs. ob_process ops c b = Some (b', evs) \<and> (\<exists>rb. book_rel M b' rb)" if "\<exists>rb. book_rel M b rb" "unat (c_qty c) \<le> M" for b c
    using that machine_sim.sim [OF book_sim] by blast
qed (use find_agrees for_each_agrees in \<open>auto simp: book_rel_def\<close>)

end

section \<open>Serving connections\<close>

text \<open>Every owner with a descriptor has a connection there, and its own.\<close>

definition linked :: "'d Gateway \<Rightarrow> bool" where
  "linked st \<longleftrightarrow> (\<forall>own fd. gw_owner_fd st own = Some fd \<longrightarrow> map_option cn_owner (gw_conns st fd) = Some own)"

definition links :: "'d Gateway \<Rightarrow> (nat \<Rightarrow> OwnerId option) \<times> (OwnerId \<rightharpoonup> nat) \<times> SqPublisher option" where
  "links st = (\<lambda>fd. map_option cn_owner (gw_conns st fd), gw_owner_fd st, gw_pub st)"

text \<open>Where nothing is sent to replicas, a state that differs in neither links nor gate.\<close>

definition same :: "'d Gateway \<Rightarrow> 'd Gateway \<Rightarrow> bool" where
  "same st st' \<longleftrightarrow> links st' = links st \<and> gw_gate st' = gw_gate st"

lemma same_refl [simp]: "same st st" and same_trans: "same st s \<Longrightarrow> same s st' \<Longrightarrow> same st st'"
  by (simp_all add: same_def)

lemma same_updates [simp]:
  "same st (s\<lparr>gw_ids := v3\<rparr>) = same st s" "same st (s\<lparr>gw_md := v5\<rparr>) = same st s" "same st (s\<lparr>gw_md_batch := v6\<rparr>) = same st s"
  "same st (s\<lparr>gw_handled := v7\<rparr>) = same st s" "same st (s\<lparr>gw_since_sync := v7\<rparr>) = same st s" "same st (s\<lparr>gw_malformed := v7\<rparr>) = same st s"
  "same st (s\<lparr>gw_halted := v9\<rparr>) = same st s" "same st (s\<lparr>gw_sent := v10\<rparr>) = same st s" "same st (s\<lparr>gw_journal := v11\<rparr>) = same st s"
  "same st (s\<lparr>gw_feed := v12\<rparr>) = same st s" "same st (s\<lparr>gw_seq := v13\<rparr>) = same st s" "same st (s\<lparr>gw_digest := v15\<rparr>) = same st s"
  "same st (s\<lparr>gw_journal_failed := v16\<rparr>) = same st s"
  by (simp_all add: same_def links_def)

lemma same_conn: "gw_conns st fd = Some c \<Longrightarrow> cn_owner c' = cn_owner c \<Longrightarrow> same st (st\<lparr>gw_conns := (gw_conns st)(fd \<mapsto> c')\<rparr>)"
  by (auto simp: same_def links_def)

lemma same_open: "same st st' \<Longrightarrow> (gw_conns st' fd = None) = (gw_conns st fd = None)"
  by (auto simp: same_def links_def fun_eq_iff dest: spec [of _ fd])

lemma same_linked: "same st st' \<Longrightarrow> linked st' = linked st"
  by (auto simp: same_def links_def linked_def fun_eq_iff)

lemma write_to_total:
  assumes "gw_conns st fd \<noteq> None"
  shows "\<exists>st'. write_to fd e n st = Some st' \<and> same st st'"
  using assms by (auto simp: write_to_def same_conn)

lemma report_maker_total:
  assumes "linked st"
  shows "\<exists>men' tch' st'. report_maker k e (men, tch, st) = Some (men', tch', st') \<and> same st st'"
proof -
  have w: "\<exists>st'. write_to fd e n st = Some st' \<and> same st st'" if "gw_owner_fd st own = Some fd" for fd e n own
    using assms that write_to_total [of st fd] by (force simp: linked_def)
  show ?thesis
  proof (cases "e_type e \<noteq> Trade \<or> owner_of (e_maker_id e) (gw_ids st) = k_owner_id k \<or> gw_owner_fd st (owner_of (e_maker_id e) (gw_ids st)) = None")
    case True
    then show ?thesis by (auto simp: report_maker_def Let_def)
  next
    case False
    then obtain fd where "gw_owner_fd st (owner_of (e_maker_id e) (gw_ids st)) = Some fd" by auto
    from w [OF this] this False show ?thesis by (fastforce simp: report_maker_def Let_def)
  qed
qed

lemma sink_total:
  assumes "linked st" and "gw_conns st (k_fd k) \<noteq> None"
  shows "\<exists>men' tch' st'. rs_on_event k e (men, tch, st) = Some (men', tch', st') \<and> same st st'"
proof -
  define u where "u = st\<lparr>gw_digest := ed_on_event e (gw_digest st), gw_md_batch := (if gw_md st \<noteq> None then md_note e (gw_md_batch st) else gw_md_batch st)\<rparr>"
  have u: "same st u" by (simp add: u_def)
  have w: "\<exists>s. write_to (k_fd k) f n u = Some s \<and> same st s \<and> linked s" for f n
    using write_to_total [of u "k_fd k" f n] same_open [OF u] assms same_linked u same_trans by metis
  have d: "rs_on_event k e (men, tch, st) =
    (if gc_trust_client_ids (gw_cfg u) then write_to (k_fd k) e (k_client_seq k) u \<bind> (\<lambda>st. Some (men, tch, st))
     else write_to (k_fd k) (e\<lparr>e_order_id := (if e_order_id e = k_exchange_id k then k_client k else to_client (e_order_id e) (k_owner_id k) (gw_ids u)),
              e_maker_id := (if e_maker_id e \<noteq> 0 then to_client (e_maker_id e) (k_owner_id k) (gw_ids u) else e_maker_id e)\<rparr>) (k_client_seq k) u \<bind> (\<lambda>st.
            let mentioned = (if e_order_id e \<noteq> k_exchange_id k then men @ [e_order_id e] else men) in
            if e_maker_id e = 0 then Some (mentioned, tch, st) else report_maker k e (mentioned @ [e_maker_id e], tch, st)))"
    unfolding rs_on_event_def prod.case Let_def u_def [symmetric] by (rule refl)
  show ?thesis
  proof (cases "gc_trust_client_ids (gw_cfg u)")
    case True
    then show ?thesis using w [of e "k_client_seq k"] by (auto simp: d)
  next
    case False
    obtain s where s: "write_to (k_fd k) (e\<lparr>e_order_id := (if e_order_id e = k_exchange_id k then k_client k else to_client (e_order_id e) (k_owner_id k) (gw_ids u)),
              e_maker_id := (if e_maker_id e \<noteq> 0 then to_client (e_maker_id e) (k_owner_id k) (gw_ids u) else e_maker_id e)\<rparr>) (k_client_seq k) u = Some s"
      "same st s" "linked s"
      using w by blast
    define men1 where "men1 = (if e_order_id e \<noteq> k_exchange_id k then men @ [e_order_id e] else men)"
    obtain a b s' where m: "report_maker k e (men1 @ [e_maker_id e], tch, s) = Some (a, b, s')" "same s s'" using report_maker_total [OF s(3)] by blast
    have e: "rs_on_event k e (men, tch, st) = (if e_maker_id e = 0 then Some (men1, tch, s) else report_maker k e (men1 @ [e_maker_id e], tch, s))"
      unfolding d using False s(1) by (simp only: if_False bind.bind_lunit Let_def men1_def [symmetric])
    show ?thesis using m s(2) same_trans [OF s(2) m(2)] by (cases "e_maker_id e = 0") (simp_all add: e)
  qed
qed

lemma sinks_total:
  "linked st \<Longrightarrow> gw_conns st (k_fd k) \<noteq> None \<Longrightarrow> \<exists>men' tch' st'. rs_events k es (men, tch, st) = Some (men', tch', st') \<and> same st st'"
proof (induction es arbitrary: men tch st)
  case (Cons e es)
  obtain a b s where s: "rs_on_event k e (men, tch, st) = Some (a, b, s)" "same st s" using sink_total [OF Cons.prems] by blast
  have l: "linked s" "gw_conns s (k_fd k) \<noteq> None" using Cons.prems same_linked [OF s(2)] same_open [OF s(2), of "k_fd k"] by auto
  show ?case using Cons.IH [OF l, of a b] s same_trans by fastforce
qed simp

text \<open>Closing, accepting and writing keep the links.\<close>

lemma linked_close: "linked st \<Longrightarrow> linked (close_conn fd st)"
  by (fastforce simp: linked_def close_conn_def split: option.splits)

lemma linked_accept: "linked st \<Longrightarrow> gw_conns st cfd = None \<Longrightarrow> linked (accept_conn st cfd)"
  by (fastforce simp: linked_def accept_conn_def new_Conn_def Let_def)

lemma linked_accepts: "linked st \<Longrightarrow> distinct cfds \<Longrightarrow> \<forall>fd \<in> set cfds. gw_conns st fd = None \<Longrightarrow> linked (foldl accept_conn st cfds)"
proof (induction cfds arbitrary: st)
  case (Cons fd fds)
  have "\<forall>f \<in> set fds. gw_conns (accept_conn st fd) f = None" using Cons.prems by (auto simp: accept_conn_def Let_def split: option.split)
  then show ?case using Cons.IH [OF linked_accept] Cons.prems by simp
qed simp

lemma try_write_same: "gw_conns st fd = Some c \<Longrightarrow> try_write w fd c st = (k, st') \<Longrightarrow> same st st'"
  by (auto simp: try_write_def Let_def same_def links_def split: if_splits)

section \<open>The kernel\<close>

text \<open>What \<^verbatim>\<open>accept\<close> returns is no descriptor that is open, event by event and turn by turn.\<close>

fun kernel_ok :: "'d store_ops \<Rightarrow> (u64 \<Rightarrow> cmd_io) \<Rightarrow> gw_event list \<Rightarrow> turn \<Rightarrow> 'd Gateway \<Rightarrow> bool" where
  "kernel_ok ops io [] t st = True"
| "kernel_ok ops io (ev # evs) t st =
    ((case ev of EvAccept cfds \<Rightarrow> distinct cfds \<and> (\<forall>fd \<in> set cfds. gw_conns st fd = None) | _ \<Rightarrow> True) \<and>
     (case on_event ops io ev t st of None \<Rightarrow> True | Some (stop, t, st) \<Rightarrow> stop \<or> kernel_ok ops io evs t st))"

fun kernel_run :: "'d store_ops \<Rightarrow> (u64 \<Rightarrow> cmd_io) \<Rightarrow> (turn_io \<times> gw_event list) list \<Rightarrow> 'd Gateway \<Rightarrow> bool" where
  "kernel_run ops io [] st = True"
| "kernel_run ops io ((n, evs) # ns) st =
    (kernel_ok ops io evs \<lparr>t_touched = [], t_journaled = False\<rparr> st \<and>
     (case gw_turn ops io n evs st of None \<Rightarrow> True | Some st \<Rightarrow> gw_halted st \<noteq> None \<or> kernel_run ops io ns st))"

section \<open>Commands\<close>

context lively_books
begin

definition gate_good :: "'d OrderBook list RiskGate \<Rightarrow> bool" where
  "gate_good g \<longleftrightarrow> (\<forall>b \<in> set (rg_engine g). good b) \<and> length (rg_last_px g) = length (rg_engine g) \<and> unat (rc_max_qty (rg_cfg g)) \<le> M"

lemma gate_total:
  assumes g: "gate_good g" and c: "c_type c = Cancel \<longrightarrow> c_qty c = 0"
  shows "\<exists>g' evs. gate_machine ops c g = Some (g', evs) \<and> gate_good g' \<and> length (rg_engine g') = length (rg_engine g)"
proof -
  obtain r g1 where ck: "(if c_type c \<noteq> Cancel then rg_check g c else (RNone, g)) = (r, g1)" by (rule prod.exhaust)
  have f: "rg_engine g1 = rg_engine g" "rg_last_px g1 = rg_last_px g" "rg_cfg g1 = rg_cfg g"
    using ck rg_check_frame [of g c r g1] by (auto split: if_splits)
  show ?thesis
  proof (cases "r = RNone")
    case True
    have q: "unat (c_qty c) \<le> M" if s: "unat (c_symbol c) < length (rg_engine g)"
    proof (cases "c_type c = Cancel")
      case False
      then have "rg_check g c = (RNone, g1)" using ck True by simp
      then have "\<not> c_qty c > rc_max_qty (rg_cfg g)" using s g by (auto simp: rg_check_def Let_def gate_good_def split: if_splits)
      then show ?thesis using g by (simp add: gate_good_def word_less_nat_alt)
    qed (simp add: c)
    have "\<exists>en evs. me_process (ob_process ops) c (rg_engine g) = Some (en, evs) \<and> (\<forall>b \<in> set en. good b) \<and> length en = length (rg_engine g)"
    proof (cases "unat (c_symbol c) < length (rg_engine g)")
      case True
      then have "good (rg_engine g ! unat (c_symbol c))" using g by (simp add: gate_good_def)
      then obtain b evs where "ob_process ops c (rg_engine g ! unat (c_symbol c)) = Some (b, evs)" "good b" using book_process q True by blast
      then show ?thesis using True g by (auto simp: me_process_def Let_def gate_good_def dest: set_update_subset_insert [THEN subsetD])
    qed (use g in \<open>simp add: me_process_def gate_good_def\<close>)
    then show ?thesis using g ck True f by (auto simp: gate_machine_def rg_process_def gate_good_def)
  qed (use g ck f in \<open>auto simp: gate_machine_def rg_process_def gate_good_def\<close>)
qed

definition served :: "'d Gateway \<Rightarrow> bool" where
  "served st \<longleftrightarrow> gw_pub st = None \<and> linked st \<and> gate_good (gw_gate st)"

lemma served_same: "same st st' \<Longrightarrow> served st' = served st"
  using same_linked by (auto simp: served_def same_def links_def)

lemma served_book: "served st \<Longrightarrow> unat sm < length (books st) \<Longrightarrow> good (books st ! unat sm)"
  by (simp add: served_def gate_good_def)

lemma note_modify_total:
  assumes "served st"
  shows "\<exists>st'. note_modify ops c st = Some st' \<and> same st st'"
proof (cases "unat (c_symbol c) < length (books st)")
  case True
  then obtain v where "ob_find_order ops (c_order_id c) (books st ! unat (c_symbol c)) = Some v" using book_find served_book [OF assms] by blast
  then show ?thesis by (auto simp: note_modify_def split: option.split)
qed (simp add: note_modify_def)

lemma retire_dead_total:
  assumes "served st"
  shows "\<exists>st'. retire_dead ops sm x st = Some st' \<and> same st st'"
proof (cases "unat sm < length (books st)")
  case True
  then obtain v where "ob_contains ops x (books st ! unat sm) = Some v" using book_contains served_book [OF assms] by blast
  then show ?thesis using True by (auto simp: retire_dead_def)
qed (simp add: retire_dead_def)

lemma retire_total: "served st \<Longrightarrow> \<exists>st'. retire_all ops sm xs st = Some st' \<and> same st st'"
proof (induction xs arbitrary: st)
  case (Cons x xs)
  obtain s where s: "retire_dead ops sm x st = Some s" "same st s" using retire_dead_total [OF Cons.prems] by blast
  then show ?case using Cons.IH [of s] served_same [OF s(2)] Cons.prems same_trans by fastforce
qed simp

lemma run_command_total:
  assumes v: "served st" and o: "gw_conns st fd \<noteq> None" and c: "c_type c = Cancel \<longrightarrow> c_qty c = 0"
  shows "\<exists>tch' st'. run_command ops fd own raw c tch st = Some (tch', st') \<and> served st' \<and> links st' = links st"
proof -
  let ?k = "\<lparr>k_fd = fd, k_owner_id = own, k_client_seq = c_seq raw, k_client = c_order_id raw, k_exchange_id = c_order_id c\<rparr>"
  have p: "publish_cmd c st = Some st" using v by (simp add: publish_cmd_def served_def)
  obtain s1 where s1: "note_modify ops c st = Some s1" "same st s1" using note_modify_total [OF v] by blast
  obtain g evs where g: "gate_machine ops c (gw_gate s1) = Some (g, evs)" "gate_good g"
    using gate_total [OF _ c, of "gw_gate st"] v s1(2) by (auto simp: served_def same_def)
  let ?s = "s1\<lparr>gw_gate := g\<rparr>"
  have l: "links ?s = links st" using s1(2) by (simp add: same_def links_def)
  have s: "linked ?s" "gw_conns ?s (k_fd ?k) \<noteq> None" "gw_pub ?s = None"
    using v o s1(2) same_linked [OF s1(2)] same_open [OF s1(2), of fd] by (auto simp: served_def linked_def same_def links_def)
  obtain men tch' s2 where s2: "rs_events ?k evs ([], tch, ?s) = Some (men, tch', s2)" "same ?s s2" using sinks_total [OF s(1,2)] by blast
  have v2: "served s2" using s s2(2) g(2) served_same [OF s2(2)] by (simp add: served_def)
  obtain s3 where s3: "(if gc_trust_client_ids (gw_cfg s2) then Some s2 else retire_all ops (c_symbol c) (men @ [c_order_id c]) s2) = Some s3" "same s2 s3"
    using retire_total [OF v2] by (cases "gc_trust_client_ids (gw_cfg s2)") auto
  have s23: "same ?s s3" by (rule same_trans [OF s2(2) s3(2)])
  obtain conn where conn: "gw_conns s3 fd = Some conn" using s(2) same_open [OF s23, of fd] by auto
  let ?f = "s3\<lparr>gw_conns := (gw_conns s3)(fd \<mapsto> conn\<lparr>cn_out := cn_out conn @ encode_done (c_symbol c) (c_seq raw)\<rparr>), gw_handled := gw_handled s3 + 1\<rparr>"
  have f: "same s3 ?f" using same_conn [OF conn] by simp
  have r: "run_command ops fd own raw c tch st = Some (tch', ?f)"
    unfolding run_command_def p s1(1) g(1) bind.bind_lunit prod.case Let_def s2(1) s3(1) conn by (rule refl)
  have "served ?f" using served_same [OF f] served_same [OF s3(2)] v2 by simp
  moreover have "links ?f = links st" using f s23 l by (simp add: same_def)
  ultimately show ?thesis using r by blast
qed

lemma journal_io_same: "journal_io f st = (k, st') \<Longrightarrow> same st st'"
  by (auto simp: journal_io_def split: if_splits sum.splits)

lemma sync_policy_same: "sync_policy i st = (go, st') \<Longrightarrow> same st st'"
  by (erule sync_policy_cases) (auto simp: count_sync_def dest!: journal_io_same split: if_splits, simp_all add: same_def links_def)

lemma stamp_same:
  assumes "stamp io own raw st = (c, s)"
  shows "same st s" "c_type c = c_type raw" "c_qty c = c_qty raw"
  using assms by (auto simp: stamp_def assign_id_def Let_def split: if_splits prod.splits)

lemma on_command_total:
  assumes v: "served st" and o: "gw_conns st fd \<noteq> None" and w: "on_wire raw"
  shows "\<exists>go t' st'. on_command ops io fd own raw t st = Some (go, t', st') \<and> served st' \<and> links st' = links st"
proof -
  obtain c s where c: "stamp io own raw st = (c, s)" by (rule prod.exhaust)
  note S = stamp_same [OF c]
  have q: "c_type c = Cancel \<longrightarrow> c_qty c = 0"
  proof
    assume t: "c_type c = Cancel"
    have "c_qty raw = c_qty (wire_view raw)" using w by (simp add: on_wire_def)
    then show "c_qty c = 0" using t S(2,3) by (simp add: wire_view_def zero_command_def)
  qed
  obtain k s1 where j: "journal_io (jw_append (io_write (io (c_seq c))) c) s = (k, s1)" by (rule prod.exhaust)
  have s1: "same st s1" by (rule same_trans [OF S(1) journal_io_same [OF j]])
  show ?thesis
  proof (cases k)
    case False
    then have "on_command ops io fd own raw t st = Some (False, t, s1)" by (simp add: on_command_def c j)
    then show ?thesis using s1 served_same [OF s1] v by (auto simp: same_def)
  next
    case True
    have "served s1" "gw_conns s1 fd \<noteq> None" using served_same [OF s1] same_open [OF s1, of fd] v o by auto
    from run_command_total [OF this q] obtain tch s2 where r: "run_command ops fd own raw c (t_touched t) s1 = Some (tch, s2)" "served s2" "links s2 = links s1"
      by blast
    obtain go s3 where p: "sync_policy (io (c_seq c)) s2 = (go, s3)" by (rule prod.exhaust)
    have s3: "same s2 s3" by (rule sync_policy_same [OF p])
    have "on_command ops io fd own raw t st = Some (go, t\<lparr>t_touched := tch, t_journaled := True\<rparr>, s3)" using True by (simp add: on_command_def c j r(1) p)
    moreover have "served s3" "links s3 = links st" using s3 served_same [OF s3] r s1 by (simp_all add: same_def)
    ultimately show ?thesis by blast
  qed
qed

lemma links_open: "links st' = links st \<Longrightarrow> (gw_conns st' fd = None) = (gw_conns st fd = None)"
  by (auto simp: links_def fun_eq_iff dest: spec [of _ fd])

lemma read_loop_total:
  "served st \<Longrightarrow> gw_conns st fd \<noteq> None \<Longrightarrow>
   \<exists>br left t' st'. read_loop ops io fd own p t st = Some (br, left, t', st') \<and> served st' \<and> links st' = links st"
proof (induction p arbitrary: t st rule: measure_induct_rule [of length])
  case (less p)
  obtain r c where d: "decode p = (r, c)" by (rule prod.exhaust)
  let ?m = "st\<lparr>gw_malformed := gw_malformed st + 1\<rparr>"
  have m: "served ?m" "gw_conns ?m fd \<noteq> None" "links ?m = links st" using less.prems served_same [of st ?m] by (simp_all add: links_def)
  show ?case
  proof (cases "p = [] \<or> d_status r = Incomplete \<or> d_status r = Malformed \<and> d_consumed r = 0")
    case True
    then show ?thesis using less.prems(1) m by (auto simp: read_loop.simps [of ops io fd own p] d)
  next
    case ne: False
    show ?thesis
    proof (cases "d_status r")
      case Malformed
      then have l: "length (drop (d_consumed r) p) < length p" using ne by simp
      have "read_loop ops io fd own p t st = read_loop ops io fd own (drop (d_consumed r) p) t ?m" using ne Malformed by (simp add: read_loop.simps [of ops io fd own p] d)
      then show ?thesis using less.IH [OF l m(1,2)] m(3) by simp
    next
      case DOk
      then have "0 < d_consumed r" using decode_consumed(2) [of p] by (simp add: d)
      then have l: "length (drop (d_consumed r) p) < length p" using ne by simp
      obtain go t1 s where o: "on_command ops io fd own (the c) t st = Some (go, t1, s)" "served s" "links s = links st"
        using on_command_total [OF less.prems decoded_on_wire [OF d DOk]] by blast
      have e: "read_loop ops io fd own p t st =
        (if go then read_loop ops io fd own (drop (d_consumed r) p) t1 s else Some (False, drop (d_consumed r) p, t1, s))"
        using ne DOk o(1) by (simp add: read_loop.simps [of ops io fd own p] d)
      show ?thesis
      proof (cases go)
        case True
        have "gw_conns s fd \<noteq> None" using links_open [OF o(3)] less.prems(2) by simp
        from less.IH [OF l o(2) this] show ?thesis using e True o(3) by simp
      qed (use e o in auto)
    qed (use ne in simp)
  qed
qed

lemma served_close: "served st \<Longrightarrow> served (close_conn fd st)"
proof -
  have "gw_pub (close_conn fd st) = gw_pub st" "gw_gate (close_conn fd st) = gw_gate st" by (simp_all add: close_conn_def split: option.split)
  then show "served st \<Longrightarrow> served (close_conn fd st)" using linked_close [of st fd] by (simp add: served_def)
qed

lemma on_data_in_total:
  assumes v: "served st"
  shows "\<exists>stop t' st'. on_data_in ops io fd bs t st = Some (stop, t', st') \<and> served st'"
proof (cases "gw_conns st fd")
  case (Some c)
  then obtain br left t1 s where r: "read_loop ops io fd (cn_owner c) (cn_in c @ bs) t st = Some (br, left, t1, s)" "served s" "links s = links st"
    using read_loop_total [OF v, of fd] by blast
  obtain c1 where c1: "gw_conns s fd = Some c1" using links_open [OF r(3), of fd] Some by auto
  have "served (s\<lparr>gw_conns := (gw_conns s)(fd \<mapsto> c1\<lparr>cn_in := left\<rparr>)\<rparr>)" using served_same [OF same_conn [OF c1]] r(2) by simp
  then show ?thesis using r(1,2) served_close [OF r(2)] by (cases "gw_halted s"; cases br) (auto simp: on_data_in_def Some c1)
qed (use v in \<open>auto simp: on_data_in_def\<close>)

lemma on_conn_total:
  assumes v: "served st"
  shows "\<exists>stop t' st'. on_conn ops io fd wr rd t st = Some (stop, t', st') \<and> served st'"
proof (cases "gw_conns st fd")
  case (Some c)
  obtain k s where w: "(case wr of None \<Rightarrow> (True, st) | Some w \<Rightarrow> try_write w fd c st) = (k, s)" by (rule prod.exhaust)
  have "same st s" using w try_write_same [OF Some] by (auto split: option.splits)
  then have s: "served s" "served (close_conn fd s)" using served_same v served_close by blast+
  show ?thesis
  proof (cases "k \<and> (\<exists>bs. rd = Some (RecvData bs))")
    case True
    then obtain bs where "rd = Some (RecvData bs)" by blast
    then show ?thesis using on_data_in_total [OF s(1)] True by (simp add: on_conn_def Some w)
  next
    case False
    then show ?thesis using s by (cases k) (auto simp: on_conn_def Some w split: option.split recv.split)
  qed
qed (use v in \<open>auto simp: on_conn_def\<close>)

lemma accepts_frame: "gw_pub (foldl accept_conn st cfds) = gw_pub st \<and> gw_gate (foldl accept_conn st cfds) = gw_gate st"
  by (induction cfds arbitrary: st) (simp_all add: accept_conn_def Let_def)

lemma on_event_total:
  assumes v: "served st" and k: "case ev of EvAccept cfds \<Rightarrow> distinct cfds \<and> (\<forall>fd \<in> set cfds. gw_conns st fd = None) | _ \<Rightarrow> True"
  shows "\<exists>stop t' st'. on_event ops io ev t st = Some (stop, t', st') \<and> served st'"
proof (cases ev)
  case (EvAccept cfds)
  then show ?thesis using v k linked_accepts [of st cfds] accepts_frame [of st cfds] by (auto simp: served_def)
next
  case (EvControl gs rs)
  then show ?thesis using v by (auto simp: service_pub_def served_def)
next
  case (EvConn fd wr rd)
  then show ?thesis using v on_conn_total [OF v] by (cases "gw_halted st") auto
qed

lemma event_loop_total:
  "served st \<Longrightarrow> kernel_ok ops io evs t st \<Longrightarrow> \<exists>t' st'. event_loop ops io evs t st = Some (t', st') \<and> served st'"
proof (induction evs arbitrary: t st)
  case (Cons ev evs)
  obtain stop t1 s where e: "on_event ops io ev t st = Some (stop, t1, s)" "served s" using on_event_total [of st ev] Cons.prems by fastforce
  show ?case using Cons.IH [OF e(2), of t1] Cons.prems(2) e by (cases stop) auto
qed simp

lemma make_durable_total:
  assumes "served st"
  shows "\<exists>st'. make_durable n t st = Some st' \<and> served st'"
proof -
  obtain k s where j: "journal_io (jw_flush (n_flush n)) st = (k, s)" by (rule prod.exhaust)
  have s: "served s" using served_same [OF journal_io_same [OF j]] assms by simp
  then have "gw_pub s = None" by (simp add: served_def)
  then show ?thesis using assms s j by (cases k) (simp_all add: make_durable_def)
qed

lemma view_total: "(\<forall>b \<in> set bs. good b) \<Longrightarrow> \<exists>v. book_view bs = Some v"
proof (induction bs)
  case (Cons b bs)
  obtain x y where "ob_for_each_level Buy b = Some x" "ob_for_each_level Sell b = Some y" using book_levels Cons.prems by (meson list.set_intros(1))
  then show ?case using Cons by (auto simp: book_view_def)
qed (simp add: book_view_def)

lemma publish_md_total:
  assumes "served st"
  shows "\<exists>st'. publish_md lost now st = Some st' \<and> same st st'"
proof -
  obtain v where "book_view (books st) = Some v" using view_total assms by (auto simp: served_def gate_good_def)
  then show ?thesis by (auto simp: publish_md_def Let_def case_prod_beta split: option.split)
qed

lemma write_touched_served: "served st \<Longrightarrow> served (write_touched w fds st)"
proof (induction fds arbitrary: st)
  case (Cons fd fds)
  show ?case
  proof (cases "gw_conns st fd")
    case (Some c)
    obtain k s where t: "try_write (w fd) fd c st = (k, s)" by (rule prod.exhaust)
    have "served s" using served_same [OF try_write_same [OF Some t]] Cons.prems by simp
    then show ?thesis using Cons.IH served_close by (simp add: Some t)
  qed (use Cons in simp)
qed simp

lemma respond_total:
  assumes v: "served st"
  shows "\<exists>st'. respond n t st = Some st' \<and> served st'"
proof (cases "gw_halted st")
  case None
  obtain s where s: "(if t_journaled t then publish_md (n_md_lost n) (n_now n) st else Some st) = Some s" "same st s"
    using publish_md_total [OF v] by (cases "t_journaled t") auto
  then have "served s" using served_same v by blast
  moreover have "same s (heartbeat_md (n_now n) s)" by (simp add: heartbeat_md_def split: option.split prod.split)
  ultimately have h: "served (heartbeat_md (n_now n) s)" using served_same by blast
  then have "heartbeat_pub (n_lost n) (n_now n) 20000000 (heartbeat_md (n_now n) s) = heartbeat_md (n_now n) s" by (simp add: heartbeat_pub_def served_def)
  then show ?thesis using write_touched_served [OF h] None s(1) by (simp add: respond_def)
qed (use v in \<open>simp add: respond_def served_def close_all_def linked_def\<close>)

lemma turn_total:
  assumes "served st" and "kernel_ok ops io evs \<lparr>t_touched = [], t_journaled = False\<rparr> st"
  shows "\<exists>st'. gw_turn ops io n evs st = Some st' \<and> served st'"
proof -
  obtain t s where s: "event_loop ops io evs \<lparr>t_touched = [], t_journaled = False\<rparr> st = Some (t, s)" "served s" using event_loop_total [OF assms] by blast
  obtain u where u: "make_durable n t s = Some u" "served u" using make_durable_total [OF s(2)] by blast
  show ?thesis using respond_total [OF u(2), of n t] by (simp add: gw_turn_def s(1) u(1))
qed

lemma run_total: "served st \<Longrightarrow> kernel_run ops io ns st \<Longrightarrow> \<exists>st'. gw_run ops io ns st = Some st'"
proof (induction ns arbitrary: st)
  case (Cons x ns)
  obtain n evs where x: "x = (n, evs)" by (rule prod.exhaust)
  obtain s where s: "gw_turn ops io n evs st = Some s" "served s" using turn_total [of st io evs n] Cons.prems x by auto
  then show ?case using Cons.IH [OF s(2)] Cons.prems(2) by (cases "gw_halted s") (simp_all add: x)
qed simp

end

interpretation aos_lively: lively_books AosStore "\<lambda>b. \<exists>rb. aos.book_rel M b rb" M for M
  by (rule aos.lively)

interpretation soa_lively: lively_books SoaStore "\<lambda>b. \<exists>rb. soa.book_rel M b rb" M for M
  by (rule soa.lively)

interpretation hybrid_lively: lively_books HybridStore "\<lambda>b. \<exists>rb. hybrid.book_rel M b rb" M for M
  by (rule hybrid.lively)

lemma aos_start_served:
  assumes "me_init (ob_init AosStore h) n cfg = Some bs" and "cfg_max_orders cfg * unat (rc_max_qty rc) < 2 ^ 64"
  shows "aos_lively.served (unat (rc_max_qty rc)) (gw_init gc (rg_init bs n rc) j d sq own x None md)"
proof -
  have r: "list_all2 (aos.book_rel (unat (rc_max_qty rc))) bs (the (me_init (\<lambda>s c. Some (rb_init s c)) n cfg))" by (rule aos_engine_init [OF assms])
  then have "\<exists>rb. aos.book_rel (unat (rc_max_qty rc)) b rb" if "b \<in> set bs" for b using that by (auto simp: list_all2_conv_all_nth in_set_conv_nth)
  moreover have "length bs = n"
    using those_map_all2 [OF assms(1) [unfolded me_init_def], where P = "\<lambda>_ _. True" and g = "\<lambda>_. ()", THEN list_all2_lengthD] by simp
  ultimately show ?thesis by (simp add: aos_lively.served_def aos_lively.gate_good_def gw_init_def rg_init_def linked_def)
qed

end
