(* ===== verification/Server.thy ===== *)
theory Server
  imports Gateway Seqstream_Properties
begin

text \<open>
  \<^verbatim>\<open>tools/exsim_server.cpp\<close>: the primary's start. With \<^verbatim>\<open>--recover\<close> the journal is replayed into a fresh gate and engine and reopened for append; then the
  gateway runs from there. \<open>None\<close> is an exception, or \<^verbatim>\<open>Args::die\<close>. Argument parsing and printing are left out.
\<close>

record 'd Recovered =
  sv_gate :: "'d OrderBook list RiskGate"
  sv_digest :: EventDigest
  sv_seq :: u64
  sv_max_owner :: OwnerId
  sv_max_order_id :: OrderId

definition fresh :: "'d OrderBook list RiskGate \<Rightarrow> 'd Recovered" where
  "fresh gate = \<lparr>sv_gate = gate, sv_digest = ed_init, sv_seq = 0, sv_max_owner = 0, sv_max_order_id = 0\<rparr>"

primrec replay_all :: "'d store_ops \<Rightarrow> Command list \<Rightarrow> 'd Recovered \<Rightarrow> 'd Recovered option" where
  "replay_all ops [] s = Some s"
| "replay_all ops (c # cs) s =
    do { (gate, evs) \<leftarrow> gate_machine ops c (sv_gate s);
         replay_all ops cs (s\<lparr>sv_gate := gate, sv_digest := foldl (\<lambda>d e. ed_on_event e d) (sv_digest s) evs, sv_seq := c_seq c,
           sv_max_owner := max (sv_max_owner s) (c_owner c), sv_max_order_id := max (sv_max_order_id s) (c_order_id c)\<rparr>) }"

text \<open>\<open>file\<close> is what \<^verbatim>\<open>--recover\<close> finds at the journal's path.\<close>

definition recover_all :: "'d store_ops \<Rightarrow> bytes option \<Rightarrow> 'd OrderBook list RiskGate \<Rightarrow> ('d Recovered \<times> JournalWriter) option" where
  "recover_all ops file gate =
    (case file of
       None \<Rightarrow> Some (fresh gate, jw_create)
     | Some bs \<Rightarrow>
         do { (_, cmds) \<leftarrow> journal_scan bs;
              s \<leftarrow> replay_all ops cmds (fresh gate);
              (_, w) \<leftarrow> jw_recover bs;
              Some (s, w) })"

definition blank_command :: Command where
  "blank_command = zero_command NewOrder"

definition server_main ::
    "'d store_ops \<Rightarrow> GatewayConfig \<Rightarrow> bytes option \<Rightarrow> (nat \<times> u32) option \<Rightarrow> u64 option \<Rightarrow> 'd OrderBook list RiskGate \<Rightarrow> 'd Gateway option" where
  "server_main ops cfg file stream md_every gate =
    do { (s, journal) \<leftarrow> recover_all ops file gate;
         if stream = None \<and> gc_wait_replica cfg then None
         else
           Some (gw_init cfg (sv_gate s) journal (sv_digest s) (sv_seq s) (sv_max_owner s + 1) (sv_max_order_id s + 1)
                   (map_option (\<lambda>(ring_log2, epoch). pub_init blank_command ring_log2 (sv_seq s + 1) epoch) stream) (map_option mp_init md_every)) }"

end
