(* ===== verification/Recovery.thy ===== *)
theory Recovery
  imports Gateway_Properties Server
begin

text \<open>
  The primary across crashes: whatever prefix of its journal's file a crash leaves, a restart rebuilds the state that the surviving commands make of a
  fresh gate and engine, and goes on numbering behind them.
\<close>

section \<open>Replay\<close>

lemma run_cons: "run step s (c # cs) = Some (s', evs) \<longleftrightarrow> (\<exists>s1 e1 e2. step c s = Some (s1, e1) \<and> run step s1 cs = Some (s', e2) \<and> evs = e1 @ e2)"
  by (auto simp: bind_eq_Some_conv)

lemma run_take: "run step s cs = Some (s', evs) \<Longrightarrow> \<exists>s1 e1. run step s (take k cs) = Some (s1, e1)"
proof (induction cs arbitrary: s evs k)
  case (Cons c cs)
  obtain s1 e1 e2 where r: "step c s = Some (s1, e1)" "run step s1 cs = Some (s', e2)" using Cons.prems run_cons by metis
  show ?case
  proof (cases k)
    case (Suc j)
    then show ?thesis using Cons.IH [OF r(2), of j] r(1) by auto
  qed simp
qed simp

lemma replay_all_run:
  "run (gate_machine ops) (sv_gate s) cmds = Some (g, evs) \<Longrightarrow>
   \<exists>s'. replay_all ops cmds s = Some s' \<and> sv_gate s' = g \<and> sv_digest s' = foldl (\<lambda>d e. ed_on_event e d) (sv_digest s) evs \<and>
     sv_seq s' = (if cmds = [] then sv_seq s else c_seq (last cmds))"
proof (induction cmds arbitrary: s evs)
  case (Cons c cs)
  obtain g1 e1 e2 where r: "gate_machine ops c (sv_gate s) = Some (g1, e1)" "run (gate_machine ops) g1 cs = Some (g, e2)" "evs = e1 @ e2"
    using Cons.prems run_cons by metis
  let ?s = "s\<lparr>sv_gate := g1, sv_digest := foldl (\<lambda>d e. ed_on_event e d) (sv_digest s) e1, sv_seq := c_seq c,
           sv_max_owner := max (sv_max_owner s) (c_owner c), sv_max_order_id := max (sv_max_order_id s) (c_order_id c)\<rparr>"
  show ?case using Cons.IH [of ?s e2] r by (cases "cs = []") auto
qed simp

section \<open>Cuts\<close>

text \<open>The scan of any prefix of the file.\<close>

lemma torn_prefix: "torn tail \<Longrightarrow> torn (take j tail)"
proof (cases "tail = []")
  case False
  moreover assume "torn tail"
  ultimately obtain c n where t: "n < length (journal_record c)" "tail = take n (journal_record c)" by (auto simp: torn_def)
  then have "take j tail = take (min j n) (journal_record c)" by simp
  then show ?thesis using torn_take [of "min j n" c] t(1) by simp
qed simp

lemma crash_scan:
  assumes J: "\<forall>c \<in> set cmds. journalable c" and T: "torn tail" and F: "file = journal_header @ journal_records cmds @ tail"
  obtains k s where "k \<le> length cmds" "journal_scan (take m file) = Some (s, take k cmds)"
    "js_valid_bytes s = (if m < 8 then 0 else 8 + length (journal_records (take k cmds)))"
    "m \<ge> 8 \<Longrightarrow> take (js_valid_bytes s) (take m file) = journal_header @ journal_records (take k cmds)"
    "\<forall>x \<le> length cmds. 8 + length (journal_records (take x cmds)) \<le> m \<longrightarrow> x \<le> k"
proof (cases "m < 8")
  case True
  then have "journal_scan (take m file) = Some (\<lparr>js_records = 0, js_valid_bytes = 0, js_status = TornTail\<rparr>, take 0 cmds)"
    by (simp add: F journal_scan_def kJournalHeaderBytes_def)
  then show thesis by (rule that [OF le0]) (use True in auto)
next
  case False
  have st: "\<forall>c \<in> set cmds. storable c" and v: "map journal_view (take k cmds) = take k cmds" for k
    using J by (auto simp: journalable_def intro!: map_idI dest: in_set_takeD)
  have tk: "take m file = journal_header @ take (m - 8) (journal_records cmds @ tail)" using False by (simp add: F)
  show thesis
  proof (cases "m - 8 \<le> length (journal_records cmds)")
    case True
    let ?s0 = "\<lparr>js_records = 0, js_valid_bytes = 8, js_status = Clean\<rparr>"
    obtain k where k: "k \<le> length cmds" "length (journal_records (take k cmds)) \<le> m - 8"
      "k < length cmds \<longrightarrow> m - 8 < length (journal_records (take (Suc k) cmds))"
      "scan_loop (take (m - 8) (journal_records cmds)) (?s0, []) =
        (?s0\<lparr>js_records := js_records ?s0 + k, js_valid_bytes := js_valid_bytes ?s0 + length (journal_records (take k cmds)),
           js_status := (if length (journal_records (take k cmds)) = m - 8 then js_status ?s0 else TornTail)\<rparr>, [] @ map journal_view (take k cmds))"
      by (rule scan_cut [OF st True])
    have e: "take m file = journal_header @ take (m - 8) (journal_records cmds)" using tk True by simp
    have sp: "journal_records cmds = journal_records (take k cmds) @ journal_records (drop k cmds)"
      using journal_records_simps(3) [of "take k cmds" "drop k cmds"] by simp
    show thesis
    proof (rule that [OF k(1)])
      show "journal_scan (take m file) = Some (\<lparr>js_records = k, js_valid_bytes = 8 + length (journal_records (take k cmds)),
          js_status = (if length (journal_records (take k cmds)) = m - 8 then Clean else TornTail)\<rparr>, take k cmds)"
        unfolding e journal_scan_header k(4) v by simp
      show "\<forall>x \<le> length cmds. 8 + length (journal_records (take x cmds)) \<le> m \<longrightarrow> x \<le> k"
        using cut_keeps [of _ cmds "m - 8" k] k(1,3) by auto
      show "take (js_valid_bytes \<lparr>js_records = k, js_valid_bytes = 8 + length (journal_records (take k cmds)),
          js_status = (if length (journal_records (take k cmds)) = m - 8 then Clean else TornTail)\<rparr>) (take m file) = journal_header @ journal_records (take k cmds)"
        unfolding e using k(2) by (subst sp) simp
    qed (use False in simp)
  next
    case b: False
    have e: "take m file = journal_header @ journal_records cmds @ take (m - 8 - length (journal_records cmds)) tail" using tk b by simp
    obtain s where s: "journal_scan (take m file) = Some (s, cmds)" "js_valid_bytes s = 8 + length (journal_records cmds)"
      using scan_wal [OF J torn_prefix [OF T, of "m - 8 - length (journal_records cmds)"]] unfolding e by simp
    show thesis by (rule that [of "length cmds" s]) (use False s in \<open>simp_all add: e\<close>)
  qed
qed

section \<open>Restarts\<close>

text \<open>The state of a primary that has never run.\<close>

definition origin :: "'d OrderBook list RiskGate \<Rightarrow> 'd Gateway" where
  "origin g0 = gw_init \<lparr>gc_sync_mode = SyncOs, gc_batch = 1000, gc_wait_replica = False, gc_halt_on_replica_loss = True, gc_trust_client_ids = False\<rparr>
     g0 jw_create ed_init 0 1 1 None None"

text \<open>A primary's life: it starts on a new journal, serves, stops, and after a crash that left any prefix of the file starts again from that.\<close>

inductive life :: "'d store_ops \<Rightarrow> 'd OrderBook list RiskGate \<Rightarrow> 'd Gateway \<Rightarrow> bool" for ops g0 where
  boot: "server_main ops cfg None stream md g0 = Some st \<Longrightarrow> life ops g0 st"
| serve: "life ops g0 st \<Longrightarrow> gw_halted st = None \<Longrightarrow> gw_run ops io ns st = Some st' \<Longrightarrow> life ops g0 st'"
| stop: "life ops g0 st \<Longrightarrow> gw_stop i n st = Some (code, st') \<Longrightarrow> life ops g0 st'"
| restart: "life ops g0 st \<Longrightarrow> server_main ops cfg (Some (take m (jw_file (gw_journal st)))) stream md g0 = Some st' \<Longrightarrow> life ops g0 st'"

lemma wal_gw_init:
  assumes "run (gate_machine ops) g0 cmds = Some (g, evs)" and "\<forall>c \<in> set cmds. journalable c"
    and "map c_seq cmds = map (\<lambda>i. of_nat (Suc i)) [0..<length cmds]" and "jw_file w = journal_header @ journal_records cmds"
  shows "wal ops (origin g0) cmds (gw_init cfg g w (digest_of evs) (of_nat (length cmds)) own x pub md)"
  using assms by (simp add: wal_def origin_def gw_init_def digest_of_def torn_def jw_create_def)

lemma origin_simps [simp]:
  "gw_gate (origin g0) = g0" "gw_digest (origin g0) = ed_init" "gw_seq (origin g0) = 0" "jw_file (gw_journal (origin g0)) = journal_header"
  by (simp_all add: origin_def gw_init_def jw_create_def)

text \<open>What the specification says of a state, in terms of the origin.\<close>

lemma walD:
  assumes "wal ops (origin g0) cmds st"
  obtains evs tail where "run (gate_machine ops) g0 cmds = Some (gw_gate st, evs)" "gw_digest st = digest_of evs"
    "jw_file (gw_journal st) = journal_header @ journal_records cmds @ tail" "torn tail" "tail \<noteq> [] \<longrightarrow> gw_journal_failed st"
    "\<forall>c \<in> set cmds. journalable c" "map c_seq cmds = map (\<lambda>i. of_nat (Suc i)) [0..<length cmds]"
    "\<not> gw_journal_failed st \<longrightarrow> gw_seq st = of_nat (length cmds)"
  using assms by (auto simp: wal_def digest_of_def)

lemma numbered_take:
  assumes "map c_seq cmds = map (\<lambda>i. of_nat (Suc i)) [0..<length cmds]" and "k \<le> length cmds"
  shows "map c_seq (take k cmds) = map (\<lambda>i. of_nat (Suc i)) [0..<length (take k cmds)]"
    "k \<noteq> 0 \<Longrightarrow> c_seq (last (take k cmds)) = of_nat k"
proof -
  have "take k (map c_seq cmds) = take k (map (\<lambda>i. of_nat (Suc i)) [0..<length cmds])" by (simp only: assms(1))
  then show t: "map c_seq (take k cmds) = map (\<lambda>i. of_nat (Suc i)) [0..<length (take k cmds)]" using assms(2) by (simp add: take_map)
  assume k: "k \<noteq> 0"
  then have ne: "take k cmds \<noteq> []" using assms(2) by auto
  have "c_seq (last (take k cmds)) = last (map c_seq (take k cmds))" by (simp only: last_map [OF ne])
  also have "\<dots> = of_nat k" unfolding t using k assms(2) by (simp add: last_map min_absorb2)
  finally show "c_seq (last (take k cmds)) = of_nat k" .
qed

lemma restart_ok:
  assumes w: "wal ops (origin g0) cmds st" and d: "stream \<noteq> None \<or> \<not> gc_wait_replica cfg"
  shows "\<exists>k st'. k \<le> length cmds \<and> server_main ops cfg (Some (take m (jw_file (gw_journal st)))) stream md g0 = Some st' \<and>
    wal ops (origin g0) (take k cmds) st' \<and> \<not> gw_journal_failed st' \<and> (\<forall>x \<le> length cmds. length (journal_header @ journal_records (take x cmds)) \<le> m \<longrightarrow> x \<le> k)"
proof -
  from w obtain evs tail where W: "run (gate_machine ops) g0 cmds = Some (gw_gate st, evs)"
    "jw_file (gw_journal st) = journal_header @ journal_records cmds @ tail" "torn tail" "\<forall>c \<in> set cmds. journalable c"
    "map c_seq cmds = map (\<lambda>i. of_nat (Suc i)) [0..<length cmds]"
    by (rule walD)
  let ?img = "take m (jw_file (gw_journal st))"
  obtain k s where k: "k \<le> length cmds" "journal_scan ?img = Some (s, take k cmds)"
    "js_valid_bytes s = (if m < 8 then 0 else 8 + length (journal_records (take k cmds)))"
    "m \<ge> 8 \<Longrightarrow> take (js_valid_bytes s) ?img = journal_header @ journal_records (take k cmds)"
    "\<forall>x \<le> length cmds. 8 + length (journal_records (take x cmds)) \<le> m \<longrightarrow> x \<le> k"
    using crash_scan [OF W(4,3,2)] by blast
  obtain g1 e1 where r: "run (gate_machine ops) g0 (take k cmds) = Some (g1, e1)" using run_take [OF W(1)] by blast
  obtain v where v: "replay_all ops (take k cmds) (fresh g0) = Some v" "sv_gate v = g1" "sv_digest v = digest_of e1"
    "sv_seq v = (if take k cmds = [] then 0 else c_seq (last (take k cmds)))"
    using replay_all_run [of ops "fresh g0" "take k cmds" g1 e1] r by (auto simp: fresh_def digest_of_def)
  have sq: "sv_seq v = of_nat (length (take k cmds))" using v(4) numbered_take(2) [OF W(5) k(1)] k(1) by (auto split: if_splits)
  obtain j where j: "jw_recover ?img = Some (s, j)" "jw_file j = journal_header @ journal_records (take k cmds)"
  proof (cases "m < 8")
    case True
    then have "take k cmds = []" using k(2) by (simp add: journal_scan_def kJournalHeaderBytes_def W(2))
    then have e: "journal_records (take k cmds) = []" by (simp only: journal_records_simps)
    show thesis using True k(2,3) that [of jw_create] by (simp add: jw_recover_def kJournalHeaderBytes_def jw_create_def e)
  next
    case False
    then show thesis using k(2-4) that by (simp add: jw_recover_def kJournalHeaderBytes_def Let_def)
  qed
  have jn: "\<forall>c \<in> set (take k cmds). journalable c" using W(4) by (auto dest: in_set_takeD)
  define st' where "st' = gw_init cfg g1 j (digest_of e1) (of_nat (length (take k cmds))) (sv_max_owner v + 1) (sv_max_order_id v + 1)
    (map_option (\<lambda>(ring_log2, epoch). pub_init blank_command ring_log2 (sv_seq v + 1) epoch) stream) (map_option mp_init md)"
  have "server_main ops cfg (Some ?img) stream md g0 = Some st'"
    using d by (simp add: server_main_def recover_all_def k(2) v(1-3) j(1) sq st'_def)
  moreover have "wal ops (origin g0) (take k cmds) st'" unfolding st'_def by (rule wal_gw_init [OF r jn numbered_take(1) [OF W(5) k(1)] j(2)])
  moreover have "\<not> gw_journal_failed st'" by (simp add: st'_def gw_init_def)
  ultimately show ?thesis using k(1,5) by auto
qed

lemma server_main_alive: "server_main ops cfg file stream md g0 = Some st \<Longrightarrow> stream \<noteq> None \<or> \<not> gc_wait_replica cfg"
  by (auto simp: server_main_def bind_eq_Some_conv split: if_splits)

lemma life_wal: "life ops g0 st \<Longrightarrow> \<exists>cmds. wal ops (origin g0) cmds st"
proof (induction rule: life.induct)
  case (boot cfg stream md st)
  then have e: "st = gw_init cfg g0 jw_create (digest_of []) (of_nat (length ([] :: Command list))) 1 1
      (map_option (\<lambda>(ring_log2, epoch). pub_init blank_command ring_log2 1 epoch) stream) (map_option mp_init md)"
    by (auto simp: server_main_def recover_all_def fresh_def digest_of_def bind_eq_Some_conv split: if_splits)
  have "wal ops (origin g0) [] st" unfolding e by (rule wal_gw_init) (simp_all add: jw_create_def)
  then show ?case by blast
next
  case (serve st io ns st')
  then show ?case using gw_run_wal [of ops io ns st st' "origin g0"] unfolding extends_def by blast
next
  case (stop st i n code st')
  then show ?case using stop_wal [of i n st code st' ops "origin g0"] unfolding extends_def by blast
next
  case (restart st cfg m stream md st')
  then obtain cmds where "wal ops (origin g0) cmds st" by blast
  from restart_ok [OF this server_main_alive [OF restart.hyps(2)], of m md] restart.hyps(2) show ?case by auto
qed

end
