(* ===== verification/Replica.thy ===== *)
theory Replica
  imports Server
begin

text \<open>
  \<^verbatim>\<open>tools/exsim_replica.cpp\<close>: the hot backup. It applies the stream to a gate and engine of its own, journals it, acknowledges what its journal
  has handed to the operating system, and may promote itself to a gateway. What the sockets deliver, the clock and the outcome of the journal's
  operations are parameters. \<open>None\<close> is an exception that ends the process. Printing and argument parsing are left out.
\<close>

section \<open>State\<close>

record 'd Replica =
  re_gate :: "'d OrderBook list RiskGate"
  re_journal :: JournalWriter
  re_digest :: EventDigest
  re_seq :: u64
  re_last_ack_ns :: u64
  re_max_owner :: OwnerId
  re_max_order_id :: OrderId
  re_sub :: SqSubscriber
  re_sent :: "Datagram list"

definition re_init :: "'d OrderBook list RiskGate \<Rightarrow> 'd Replica" where
  "re_init gate =
    \<lparr>re_gate = gate, re_journal = jw_create, re_digest = ed_init, re_seq = 0, re_last_ack_ns = 0, re_max_owner = 0, re_max_order_id = 0,
     re_sub = sub_init 1 1, re_sent = []\<rparr>"

section \<open>Commands\<close>

text \<open>\<open>wr\<close> gives, for a sequence number, how many bytes of its record the journal's file takes.\<close>

definition re_apply :: "'d store_ops \<Rightarrow> (u64 \<Rightarrow> nat) \<Rightarrow> Command \<Rightarrow> 'd Replica \<Rightarrow> 'd Replica option" where
  "re_apply ops wr c r =
    (case jw_append (wr (c_seq c)) c (re_journal r) of
       Inl _ \<Rightarrow> None
     | Inr w \<Rightarrow>
         do { (gate, evs) \<leftarrow> gate_machine ops c (re_gate r);
              Some (r\<lparr>re_journal := w, re_gate := gate, re_digest := foldl (\<lambda>d e. ed_on_event e d) (re_digest r) evs, re_seq := c_seq c,
                      re_max_owner := (if c_owner c > re_max_owner r then c_owner c else re_max_owner r),
                      re_max_order_id := (if c_order_id c > re_max_order_id r then c_order_id c else re_max_order_id r)\<rparr>) })"

primrec re_apply_all :: "'d store_ops \<Rightarrow> (u64 \<Rightarrow> nat) \<Rightarrow> Command list \<Rightarrow> 'd Replica \<Rightarrow> 'd Replica option" where
  "re_apply_all ops wr [] r = Some r"
| "re_apply_all ops wr (c # cs) r = Option.bind (re_apply ops wr c r) (re_apply_all ops wr cs)"

definition re_flush :: "bool \<Rightarrow> 'd Replica \<Rightarrow> 'd Replica option" where
  "re_flush ok r = (case jw_flush ok (re_journal r) of Inl _ \<Rightarrow> None | Inr w \<Rightarrow> Some (r\<lparr>re_journal := w\<rparr>))"

definition re_sync :: "bool \<Rightarrow> 'd Replica \<Rightarrow> 'd Replica option" where
  "re_sync ok r = (case jw_sync ok ok (re_journal r) of Inl _ \<Rightarrow> None | Inr w \<Rightarrow> Some (r\<lparr>re_journal := w\<rparr>))"

text \<open>Log shipping: the commands of a copied journal that continue the sequence.\<close>

primrec re_catch_up :: "'d store_ops \<Rightarrow> (u64 \<Rightarrow> nat) \<Rightarrow> Command list \<Rightarrow> 'd Replica \<Rightarrow> 'd Replica option" where
  "re_catch_up ops wr [] r = Some r"
| "re_catch_up ops wr (c # cs) r =
    Option.bind (if c_seq c = re_seq r + 1 then re_apply ops wr c r else Some r) (re_catch_up ops wr cs)"

definition re_bootstrap :: "'d store_ops \<Rightarrow> (u64 \<Rightarrow> nat) \<Rightarrow> bool \<Rightarrow> bytes option \<Rightarrow> 'd Replica \<Rightarrow> 'd Replica option" where
  "re_bootstrap ops wr ok file r =
    do { r \<leftarrow> (case file of
                 None \<Rightarrow> Some r
               | Some bs \<Rightarrow> do { (_, cmds) \<leftarrow> journal_scan bs; r \<leftarrow> re_catch_up ops wr cmds r; re_flush ok r });
         Some (r\<lparr>re_sub := sub_init (re_seq r + 1) 1\<rparr>) }"

section \<open>The loop\<close>

record re_config =
  ec_silence_ns :: u64
  ec_standby :: bool
  ec_promote_pub :: "nat option"
  ec_promote_wait :: bool

record re_io =
  ei_group :: "(u64 \<times> Datagram) list"
  ei_control :: "(u64 \<times> Datagram) list"
  ei_poll_now :: u64
  ei_now :: u64
  ei_ok :: bool

datatype 'd re_result = Following "'d Replica" | Exit nat "'d Replica" | Promoted "'d Gateway"

text \<open>The gateway a promoted replica opens: its gate, journal, digest and number as they are.\<close>

definition promote_config :: "bool \<Rightarrow> GatewayConfig" where
  "promote_config wait =
    \<lparr>gc_sync_mode = SyncOs, gc_batch = 1000, gc_wait_replica = wait, gc_halt_on_replica_loss = True, gc_trust_client_ids = False\<rparr>"

definition promote :: "re_config \<Rightarrow> 'd Replica \<Rightarrow> 'd Gateway option" where
  "promote cfg r =
    (let open = (\<lambda>pub wait. gw_init (promote_config wait) (re_gate r) (re_journal r) (re_digest r) (re_seq r) (re_max_owner r + 1) (re_max_order_id r + 1) pub None)
     in case ec_promote_pub cfg of
          None \<Rightarrow> Some (open None False)
        | Some ring_log2 \<Rightarrow>
            do { (_, cmds) \<leftarrow> journal_scan (jw_file (re_journal r));
                 case seed_all cmds (pub_init blank_command ring_log2 (re_seq r + 1) (u_epoch (re_sub r) + 1)) of
                   Inl _ \<Rightarrow> None
                 | Inr p \<Rightarrow> Some (open (Some p) (ec_promote_wait cfg)) })"

text \<open>Apply what has arrived, flush it, acknowledge.\<close>

definition re_follow :: "'d store_ops \<Rightarrow> (u64 \<Rightarrow> nat) \<Rightarrow> re_io \<Rightarrow> 'd Replica \<Rightarrow> 'd Replica option" where
  "re_follow ops wr n r =
    (let (cmds, req, u) = poll (ei_poll_now n) (ei_group n) (ei_control n) (re_sub r)
     in do { r \<leftarrow> re_apply_all ops wr cmds (r\<lparr>re_sub := u, re_sent := re_sent r @ req\<rparr>);
             if cmds \<noteq> [] \<or> ei_now n - re_last_ack_ns r > 5000000 then
               do { r \<leftarrow> (if cmds \<noteq> [] then re_flush (ei_ok n) r else Some r);
                    Some (r\<lparr>re_sent := re_sent r @ sub_ack (re_seq r) (re_sub r), re_last_ack_ns := ei_now n\<rparr>) }
             else Some r })"

definition re_step :: "'d store_ops \<Rightarrow> (u64 \<Rightarrow> nat) \<Rightarrow> re_config \<Rightarrow> re_io \<Rightarrow> 'd Replica \<Rightarrow> 'd re_result option" where
  "re_step ops wr cfg n r =
    do { r \<leftarrow> re_follow ops wr n r;
         if u_unavailable (re_sub r) then Some (Exit 1 r)
         else if u_superseded_by (re_sub r) \<noteq> 0 then do { r \<leftarrow> re_sync (ei_ok n) r; Some (Exit 4 r) }
         else if sub_ended (re_sub r) then do { r \<leftarrow> re_sync (ei_ok n) r; Some (Exit 0 r) }
         else if ec_standby cfg \<and> u_epoch (re_sub r) \<noteq> 0 \<and> ei_now n - u_last_heard (re_sub r) > ec_silence_ns cfg then
           do { r \<leftarrow> re_sync (ei_ok n) r; map_option Promoted (promote cfg r) }
         else Some (Following r) }"

primrec re_loop :: "'d store_ops \<Rightarrow> (u64 \<Rightarrow> nat) \<Rightarrow> re_config \<Rightarrow> re_io list \<Rightarrow> 'd Replica \<Rightarrow> 'd re_result option" where
  "re_loop ops wr cfg [] r = Some (Following r)"
| "re_loop ops wr cfg (n # ns) r =
    do { x \<leftarrow> re_step ops wr cfg n r;
         (case x of Following r \<Rightarrow> re_loop ops wr cfg ns r | _ \<Rightarrow> Some x) }"

text \<open>The program: start, follow, and on the stop signal sync the journal.\<close>

definition re_main :: "'d store_ops \<Rightarrow> (u64 \<Rightarrow> nat) \<Rightarrow> re_config \<Rightarrow> bool \<Rightarrow> bytes option \<Rightarrow> re_io list \<Rightarrow> bool \<Rightarrow> 'd OrderBook list RiskGate \<Rightarrow> 'd re_result option" where
  "re_main ops wr cfg ok file ns ok_stop gate =
    do { r \<leftarrow> re_bootstrap ops wr ok file (re_init gate);
         x \<leftarrow> re_loop ops wr cfg ns r;
         (case x of Following r \<Rightarrow> do { r \<leftarrow> re_sync ok_stop r; Some (Exit 0 r) } | _ \<Rightarrow> Some x) }"

end
