(* ===== verification/Replica_Properties.thy ===== *)
theory Replica_Properties
  imports Replica Gateway_Properties
begin

text \<open>
  A replica is its primary: its gate, digest and journal are what the prefix of the primary's log it has delivered makes of a fresh start, and it
  acknowledges only numbers whose commands its journal has handed over.
\<close>

section \<open>Requests do not matter to delivery\<close>

text \<open>Subscribers that differ in their book-keeping of requests only.\<close>

definition unasked :: "SqSubscriber \<Rightarrow> SqSubscriber" where
  "unasked u = u\<lparr>u_requests := 0, u_requested_from := 0, u_requested_at := 0\<rparr>"

lemma unasked_simps [simp]:
  "u_expected (unasked u) = u_expected u" "u_known_next (unasked u) = u_known_next u" "u_epoch (unasked u) = u_epoch u"
  "u_min_epoch (unasked u) = u_min_epoch u" "u_stash (unasked u) = u_stash u" "u_superseded_by (unasked u) = u_superseded_by u"
  "u_packets (unasked u) = u_packets u" "u_duplicates (unasked u) = u_duplicates u" "u_gaps (unasked u) = u_gaps u"
  "u_stashed_max (unasked u) = u_stashed_max u" "u_stale (unasked u) = u_stale u" "unasked (unasked u) = unasked u"
  by (simp_all add: unasked_def)

lemma deliver_unasked: "deliver f cs (unasked u) = (fst (deliver f cs u), unasked (snd (deliver f cs u)))"
  by (simp add: deliver_def Let_def unasked_def)

lemma deliver_stash_unasked: "deliver_stash m (unasked u) = (fst (deliver_stash m u), unasked (snd (deliver_stash m u)))"
proof (induction m arbitrary: u)
  case (Cons x m)
  obtain k v where x: "x = (k, v)" by (rule prod.exhaust)
  show ?case
    using Cons.IH [of "snd (deliver k v u)"] Cons.IH [of u] by (auto simp: x Let_def case_prod_beta deliver_unasked) (simp_all add: unasked_def)
qed (simp add: unasked_def)

lemma on_data_unasked: "on_data d (unasked u) = (fst (on_data d u), unasked (snd (on_data d u)))"
proof -
  let ?u = "u\<lparr>u_packets := u_packets u + 1\<rparr>"
  have u: "(unasked u)\<lparr>u_packets := u_packets u + 1\<rparr> = unasked ?u" by (simp add: unasked_def)
  show ?thesis
    unfolding on_data_def Let_def unasked_simps u
    by (simp add: case_prod_beta deliver_unasked deliver_stash_unasked) (simp add: unasked_def)
qed

lemma drain_one_unasked: "drain_one now d (unasked u) = (fst (drain_one now d u), unasked (snd (drain_one now d u)))"
proof -
  define v where "v = (if u_epoch u = 0 then u\<lparr>u_epoch := q_epoch (d_header d)\<rparr> else u)"
  have v: "(if u_epoch u = 0 then (unasked u)\<lparr>u_epoch := q_epoch (d_header d)\<rparr> else unasked u) = unasked v" by (simp add: v_def unasked_def)
  have w: "(unasked v)\<lparr>u_last_heard := now\<rparr> = unasked (v\<lparr>u_last_heard := now\<rparr>)" by (simp add: unasked_def)
  have k: "(unasked x)\<lparr>u_stale := n\<rparr> = unasked (x\<lparr>u_stale := n\<rparr>)" "(unasked x)\<lparr>u_superseded_by := e\<rparr> = unasked (x\<lparr>u_superseded_by := e\<rparr>)"
    "(unasked x)\<lparr>u_known_next := n\<rparr> = unasked (x\<lparr>u_known_next := n\<rparr>)" "(unasked x)\<lparr>u_unavailable := b\<rparr> = unasked (x\<lparr>u_unavailable := b\<rparr>)"
    "(unasked x)\<lparr>u_ended := b, u_end_seq := n, u_known_next := n'\<rparr> = unasked (x\<lparr>u_ended := b, u_end_seq := n, u_known_next := n'\<rparr>)" for x n n' e b
    by (simp_all add: unasked_def)
  define t where "t = v\<lparr>u_last_heard := now\<rparr>"
  have if_pair: "(if c then (a, unasked x) else (fst y, unasked (snd y))) = (fst (if c then (a, x) else y), unasked (snd (if c then (a, x) else y)))" for c a x and y :: "Command list \<times> SqSubscriber"
    by simp
  show ?thesis
    unfolding drain_one_def Let_def unasked_simps v v_def [symmetric] w t_def [symmetric] k on_data_unasked
    by (cases "q_kind (d_header d) = kData") (simp_all only: if_True if_False if_pair, auto)
qed

lemma drain_unasked: "drain ds (unasked u) = (fst (drain ds u), unasked (snd (drain ds u)))"
proof (induction ds arbitrary: u)
  case (Cons d ds)
  show ?case using Cons.IH [of "snd (drain_one (fst d) (snd d) u)"] by (simp add: Let_def case_prod_beta drain_one_unasked)
qed simp

lemma drain_append: "drain (xs @ ys) u = (fst (drain xs u) @ fst (drain ys (snd (drain xs u))), snd (drain ys (snd (drain xs u))))"
  by (induction xs arbitrary: u) (simp_all add: Let_def case_prod_beta)

lemma request_gap_unasked: "unasked (snd (request_gap now u)) = unasked u"
  by (simp add: request_gap_def Let_def unasked_def)

lemma request_kind: "request_gap now u = (req, u') \<Longrightarrow> d \<in> set req \<Longrightarrow> q_kind (d_header d) \<noteq> kAck"
  by (auto simp: request_gap_def Let_def control_def sq_header_def kind_defs split: if_splits)

text \<open>A poll after others delivers what one drain of everything would.\<close>

lemma poll_drain:
  assumes "poll now ms cs u = (cmds, req, u')" and "unasked u = unasked (snd (drain ds v))"
  shows "fst (drain (ds @ ms @ cs) v) = fst (drain ds v) @ cmds" "unasked u' = unasked (snd (drain (ds @ ms @ cs) v))"
proof -
  have e: "fst (drain xs u) = fst (drain xs (snd (drain ds v)))" "unasked (snd (drain xs u)) = unasked (snd (drain xs (snd (drain ds v))))" for xs
    using drain_unasked [of xs u] drain_unasked [of xs "snd (drain ds v)"] assms(2) by simp_all
  have p: "cmds = fst (drain (ms @ cs) u)" "u' = snd (request_gap now (snd (drain (ms @ cs) u)))"
    using assms(1) by (auto simp: poll_def Let_def case_prod_beta drain_append)
  show "fst (drain (ds @ ms @ cs) v) = fst (drain ds v) @ cmds" unfolding p(1) e drain_append [of ds] by simp
  show "unasked u' = unasked (snd (drain (ds @ ms @ cs) v))" unfolding p(2) request_gap_unasked e drain_append [of ds] by simp
qed

section \<open>Applying\<close>

text \<open>The state is what the delivered commands make of a fresh start.\<close>

definition mirrors :: "'d store_ops \<Rightarrow> 'd OrderBook list RiskGate \<Rightarrow> Command list \<Rightarrow> 'd Replica \<Rightarrow> bool" where
  "mirrors ops g0 cmds r \<longleftrightarrow>
    (\<exists>evs. run (gate_machine ops) g0 cmds = Some (re_gate r, evs) \<and> re_digest r = digest_of evs) \<and>
    jw_file (re_journal r) = journal_header @ journal_records cmds \<and> re_seq r = (if cmds = [] then 0 else c_seq (last cmds))"

lemma apply_mirrors:
  assumes "re_apply ops wr c r = Some r'" and m: "mirrors ops g0 cmds r"
  shows "mirrors ops g0 (cmds @ [c]) r'" "re_sub r' = re_sub r" "re_sent r' = re_sent r" "re_last_ack_ns r' = re_last_ack_ns r"
proof -
  obtain w g ev where a: "jw_append (wr (c_seq c)) c (re_journal r) = Inr w" "gate_machine ops c (re_gate r) = Some (g, ev)"
    "r' = r\<lparr>re_journal := w, re_gate := g, re_digest := foldl (\<lambda>d e. ed_on_event e d) (re_digest r) ev, re_seq := c_seq c,
        re_max_owner := (if c_owner c > re_max_owner r then c_owner c else re_max_owner r),
        re_max_order_id := (if c_order_id c > re_max_order_id r then c_order_id c else re_max_order_id r)\<rparr>"
    using assms(1) by (auto simp: re_apply_def bind_eq_Some_conv split: sum.splits)
  have f: "jw_file w = jw_file (re_journal r) @ journal_record c" using a(1) by (auto simp: jw_append_def Let_def split: if_splits)
  obtain evs where e: "run (gate_machine ops) g0 cmds = Some (re_gate r, evs)" "re_digest r = digest_of evs" using m by (auto simp: mirrors_def)
  show "mirrors ops g0 (cmds @ [c]) r'"
    using run_snoc [OF e(1) a(2)] e(2) m f by (simp add: mirrors_def a(3) digest_of_append)
  show "re_sub r' = re_sub r" "re_sent r' = re_sent r" "re_last_ack_ns r' = re_last_ack_ns r" by (simp_all add: a(3))
qed

lemma apply_all_mirrors:
  "re_apply_all ops wr cs r = Some r' \<Longrightarrow> mirrors ops g0 cmds r \<Longrightarrow>
   mirrors ops g0 (cmds @ cs) r' \<and> re_sub r' = re_sub r \<and> re_sent r' = re_sent r \<and> re_last_ack_ns r' = re_last_ack_ns r"
proof (induction cs arbitrary: r cmds)
  case (Cons c cs)
  then obtain s where s: "re_apply ops wr c r = Some s" "re_apply_all ops wr cs s = Some r'" by (auto simp: bind_eq_Some_conv)
  note A = apply_mirrors [OF s(1) Cons.prems(2)]
  show ?case using Cons.IH [OF s(2) A(1)] A by simp
qed simp

section \<open>Following\<close>

abbreviation delivered :: "(u64 \<times> Datagram) list \<Rightarrow> Command list" where
  "delivered ds \<equiv> fst (drain ds (sub_init 1 1))"

definition follows :: "'d store_ops \<Rightarrow> 'd OrderBook list RiskGate \<Rightarrow> (u64 \<times> Datagram) list \<Rightarrow> 'd Replica \<Rightarrow> bool" where
  "follows ops g0 ds r \<longleftrightarrow> unasked (re_sub r) = unasked (snd (drain ds (sub_init 1 1))) \<and> mirrors ops g0 (delivered ds) r \<and>
    jw_os (re_journal r) = length (jw_file (re_journal r)) \<and>
    (\<forall>d \<in> set (re_sent r). q_kind (d_header d) = kAck \<longrightarrow> q_first_seq (d_header d) = 0 \<or> q_first_seq (d_header d) \<in> c_seq ` set (delivered ds))"

lemma follows_init: "follows ops g0 [] (re_init g0)"
  by (simp add: follows_def re_init_def mirrors_def digest_of_def jw_create_def)

lemma re_flush_ok:
  assumes "re_flush b r = Some r'"
  shows "\<exists>w. r' = r\<lparr>re_journal := w\<rparr> \<and> jw_file w = jw_file (re_journal r) \<and> jw_os w = length (jw_file w)"
  using assms by (auto simp: re_flush_def jw_flush_def split: if_splits)

lemma re_sync_ok:
  assumes "re_sync b r = Some r'"
  shows "\<exists>w. r' = r\<lparr>re_journal := w\<rparr> \<and> jw_file w = jw_file (re_journal r) \<and> jw_os w = length (jw_file w)"
  using assms by (auto simp: re_sync_def jw_sync_def jw_flush_def split: if_splits)

lemma follows_journal:
  "follows ops g0 ds r \<Longrightarrow> jw_file w = jw_file (re_journal r) \<Longrightarrow> jw_os w = length (jw_file w) \<Longrightarrow> follows ops g0 ds (r\<lparr>re_journal := w\<rparr>)"
  by (simp add: follows_def mirrors_def)

lemma mirrors_seq: "mirrors ops g0 cmds r \<Longrightarrow> re_seq r = 0 \<or> re_seq r \<in> c_seq ` set cmds"
  by (auto simp: mirrors_def)

lemma follow_step:
  assumes "re_follow ops wr n r = Some r'" and F: "follows ops g0 ds r"
  shows "follows ops g0 (ds @ ei_group n @ ei_control n) r'"
proof -
  obtain cmds req u where p: "poll (ei_poll_now n) (ei_group n) (ei_control n) (re_sub r) = (cmds, req, u)" by (metis prod.exhaust)
  let ?ds = "ds @ ei_group n @ ei_control n" and ?r = "r\<lparr>re_sub := u, re_sent := re_sent r @ req\<rparr>"
  have d: "delivered ?ds = delivered ds @ cmds" "unasked u = unasked (snd (drain ?ds (sub_init 1 1)))"
    using poll_drain [OF p] F by (simp_all add: follows_def)
  have q: "q_kind (d_header x) \<noteq> kAck" if "x \<in> set req" for x
    using p that request_kind by (auto simp: poll_def Let_def split: prod.splits)
  obtain s where s: "re_apply_all ops wr cmds ?r = Some s"
    "(if cmds \<noteq> [] \<or> ei_now n - re_last_ack_ns s > 5000000 then
        (if cmds \<noteq> [] then re_flush (ei_ok n) s else Some s) \<bind> (\<lambda>r. Some (r\<lparr>re_sent := re_sent r @ sub_ack (re_seq r) (re_sub r), re_last_ack_ns := ei_now n\<rparr>))
      else Some s) = Some r'"
    using assms(1) by (auto simp: re_follow_def p bind_eq_Some_conv)
  have "mirrors ops g0 (delivered ds) ?r" using F by (simp add: follows_def mirrors_def)
  note A = apply_all_mirrors [OF s(1) this]
  obtain t where t: "(if cmds \<noteq> [] then re_flush (ei_ok n) s else Some s) = Some t" "r' = t \<or> r' = t\<lparr>re_sent := re_sent t @ sub_ack (re_seq t) (re_sub t), re_last_ack_ns := ei_now n\<rparr>"
    using s(2) by (cases "cmds = []") (auto simp: bind_eq_Some_conv split: if_splits)
  have T: "jw_file (re_journal t) = jw_file (re_journal s) \<and> jw_os (re_journal t) = length (jw_file (re_journal t)) \<and>
      re_gate t = re_gate s \<and> re_digest t = re_digest s \<and> re_seq t = re_seq s \<and> re_sub t = re_sub s \<and> re_sent t = re_sent s"
  proof (cases "cmds = []")
    case True
    then have "t = s" "s = ?r" using t(1) s(1) by simp_all
    then show ?thesis using F by (simp add: follows_def)
  next
    case False
    then show ?thesis using t(1) re_flush_ok [of "ei_ok n" s t] by auto
  qed
  have M: "mirrors ops g0 (delivered ?ds) t" using A T by (simp add: mirrors_def d(1))
  have "follows ops g0 ?ds t" using M T A F q d by (auto simp: follows_def)
  moreover have "follows ops g0 ?ds (t\<lparr>re_sent := re_sent t @ sub_ack (re_seq t) (re_sub t), re_last_ack_ns := ei_now n\<rparr>)"
    using calculation mirrors_seq [OF M] M by (auto simp: follows_def mirrors_def sub_ack_def control_def sq_header_def)
  ultimately show ?thesis using t(2) by auto
qed

text \<open>What the process holds, also after it has stopped or promoted itself.\<close>

definition holds :: "'d re_result \<Rightarrow> 'd OrderBook list RiskGate \<times> EventDigest \<times> bytes \<times> u64" where
  "holds x =
    (case x of
       Following r \<Rightarrow> (re_gate r, re_digest r, jw_file (re_journal r), re_seq r)
     | Exit _ r \<Rightarrow> (re_gate r, re_digest r, jw_file (re_journal r), re_seq r)
     | Promoted g \<Rightarrow> (gw_gate g, gw_digest g, jw_file (gw_journal g), gw_seq g))"

lemma promote_holds:
  assumes "promote cfg r = Some g"
  shows "holds (Promoted g) = (re_gate r, re_digest r, jw_file (re_journal r), re_seq r)"
proof -
  obtain p w where g: "g = gw_init (promote_config w) (re_gate r) (re_journal r) (re_digest r) (re_seq r) (re_max_owner r + 1) (re_max_order_id r + 1) p None"
  proof (cases "ec_promote_pub cfg")
    case (Some k)
    then obtain cmds where c: "(case seed_all cmds (pub_init blank_command k (re_seq r + 1) (u_epoch (re_sub r) + 1)) of Inl _ \<Rightarrow> None
        | Inr p \<Rightarrow> Some (gw_init (promote_config (ec_promote_wait cfg)) (re_gate r) (re_journal r) (re_digest r) (re_seq r) (re_max_owner r + 1) (re_max_order_id r + 1) (Some p) None)) = Some g"
      using assms unfolding promote_def Let_def by (auto simp: bind_eq_Some_conv)
    then show thesis using that by (cases "seed_all cmds (pub_init blank_command k (re_seq r + 1) (u_epoch (re_sub r) + 1))") auto
  qed (use assms that in \<open>auto simp: promote_def Let_def\<close>)
  show ?thesis by (simp add: g holds_def gw_init_def)
qed

lemma step_holds:
  assumes "re_step ops wr cfg n r = Some x" and F: "follows ops g0 ds r"
  shows "\<exists>r'. follows ops g0 (ds @ ei_group n @ ei_control n) r' \<and> holds x = (re_gate r', re_digest r', jw_file (re_journal r'), re_seq r') \<and>
    (\<forall>r''. x = Following r'' \<longrightarrow> r'' = r')"
proof -
  obtain s where s: "re_follow ops wr n r = Some s" using assms(1) by (auto simp: re_step_def bind_eq_Some_conv)
  note S = follow_step [OF s F]
  have y: "\<exists>t. re_sync (ei_ok n) s = Some t \<and> (x = Exit 4 t \<or> x = Exit 0 t \<or> (\<exists>g. promote cfg t = Some g \<and> x = Promoted g)) \<or> x = Exit 1 s \<or> x = Following s"
    using assms(1) s by (auto simp: re_step_def bind_eq_Some_conv split: if_splits)
  have t: "follows ops g0 (ds @ ei_group n @ ei_control n) t" if "re_sync (ei_ok n) s = Some t" for t
    using re_sync_ok [OF that] follows_journal [OF S] by auto
  from y show ?thesis using S t promote_holds by (elim exE disjE conjE) (fastforce simp: holds_def)+
qed

lemma loop_follows:
  "re_loop ops wr cfg ns r = Some (Following r') \<Longrightarrow> follows ops g0 ds r \<Longrightarrow> follows ops g0 (ds @ concat (map (\<lambda>n. ei_group n @ ei_control n) ns)) r'"
proof (induction ns arbitrary: r ds)
  case (Cons n ns)
  obtain x where x: "re_step ops wr cfg n r = Some x" "(case x of Following r \<Rightarrow> re_loop ops wr cfg ns r | _ \<Rightarrow> Some x) = Some (Following r')"
    using Cons.prems(1) by (auto simp: bind_eq_Some_conv)
  then obtain s where s: "re_step ops wr cfg n r = Some (Following s)" "re_loop ops wr cfg ns s = Some (Following r')" by (cases x) auto
  then have "follows ops g0 (ds @ ei_group n @ ei_control n) s" using step_holds [OF s(1) Cons.prems(2)] by auto
  from Cons.IH [OF s(2) this] show ?case by simp
qed simp

end
