(* ===== verification/Md_Mirror.thy ===== *)
theory Md_Mirror
  imports Order_Book Sinks Bytes
begin

text \<open>
  \<^verbatim>\<open>include/exsim/md.hpp\<close> and \<^verbatim>\<open>include/exsim/md_mirror.hpp\<close>: captures of level-2 data, and the mirror that rebuilds the exchange's book in the engine, one synthetic
  order per price level. A capture is its bytes. The parser copies fields before it has compared the record's length with what its kind needs; a copy that
  runs past the end of the buffer is the error \<open>OverRead\<close>.
\<close>

section \<open>Captures\<close>

datatype md_kind = DiffRec | TradeRec | SnapshotRec

record LevelUpdate =
  lu_px :: Price
  lu_qty :: u64

record MdRecord =
  cr_kind :: md_kind
  cr_rx_ns :: u64
  cr_first_id :: u64
  cr_last_id :: u64
  cr_n_bids :: u32
  cr_n_asks :: u32
  cr_levels :: bytes
  cr_trade_px :: Price
  cr_trade_qty :: u64
  cr_buyer_is_maker :: bool

definition blank_record :: "md_kind \<Rightarrow> u64 \<Rightarrow> MdRecord" where
  "blank_record k rx =
    \<lparr>cr_kind = k, cr_rx_ns = rx, cr_first_id = 0, cr_last_id = 0, cr_n_bids = 0, cr_n_asks = 0, cr_levels = [], cr_trade_px = 0, cr_trade_qty = 0,
     cr_buyer_is_maker = False\<rparr>"

definition sizeof_LevelUpdate :: nat where "sizeof_LevelUpdate = 16"

definition cr_level :: "MdRecord \<Rightarrow> nat \<Rightarrow> LevelUpdate" where
  "cr_level r i = \<lparr>lu_px = i64_at (i * sizeof_LevelUpdate) (cr_levels r), lu_qty = le_at (i * sizeof_LevelUpdate + 8) 8 (cr_levels r)\<rparr>"

definition cr_bid :: "MdRecord \<Rightarrow> nat \<Rightarrow> LevelUpdate" where
  "cr_bid r i = cr_level r i"

definition cr_ask :: "MdRecord \<Rightarrow> nat \<Rightarrow> LevelUpdate" where
  "cr_ask r i = cr_level r (unat (cr_n_bids r) + i)"

datatype md_error = NotExmd | BadVersion | TruncatedRecord | LengthMismatch | UnknownKind | OverRead

definition levels_bytes :: "MdRecord \<Rightarrow> nat" where
  "levels_bytes r = (unat (cr_n_bids r) + unat (cr_n_asks r)) * sizeof_LevelUpdate"

text \<open>\<open>p\<close> is the buffer from the record's body on, \<open>len\<close> the body's length.\<close>

definition parse_record :: "bytes \<Rightarrow> nat \<Rightarrow> md_error + MdRecord" where
  "parse_record p len =
    (let k = byte_at 0 p; rx = le_at 4 8 p; q = drop 12 p in
     if k = 1 then
       (if length q < 24 then Inl OverRead
        else
         let r = (blank_record DiffRec rx)\<lparr>cr_first_id := le_at 0 8 q, cr_last_id := le_at 8 8 q, cr_n_bids := le_at 16 4 q, cr_n_asks := le_at 20 4 q,
                   cr_levels := drop 24 q\<rparr>
         in if len \<noteq> 12 + 24 + levels_bytes r then Inl LengthMismatch else Inr r)
     else if k = 3 then
       (if length q < 16 then Inl OverRead
        else
         let r = (blank_record SnapshotRec rx)\<lparr>cr_last_id := le_at 0 8 q, cr_n_bids := le_at 8 4 q, cr_n_asks := le_at 12 4 q, cr_levels := drop 16 q\<rparr>
         in if len \<noteq> 12 + 16 + levels_bytes r then Inl LengthMismatch else Inr r)
     else if k = 2 then
       (if length q < 17 then Inl OverRead
        else if len \<noteq> 12 + 24 then Inl LengthMismatch
        else Inr ((blank_record TradeRec rx)\<lparr>cr_trade_px := i64_at 0 q, cr_trade_qty := le_at 8 8 q, cr_buyer_is_maker := (byte_at 16 q \<noteq> 0)\<rparr>))
     else Inl UnknownKind)"

function parse_all :: "bytes \<Rightarrow> md_error + MdRecord list" where
  "parse_all p =
    (if length p < 4 then Inr []
     else
      (let len = unat (le_at 0 4 p :: u32) in
       if length p < 4 + len \<or> len < 12 then Inl TruncatedRecord
       else
        (case parse_record (drop 4 p) len of
           Inl e \<Rightarrow> Inl e
         | Inr r \<Rightarrow> (case parse_all (drop (4 + len) p) of Inl e \<Rightarrow> Inl e | Inr rs \<Rightarrow> Inr (r # rs)))))"
  by pat_completeness auto
termination by (relation "measure length") auto

declare parse_all.simps [simp del]

record Capture =
  cp_records :: "MdRecord list"
  cp_price_dec :: u32
  cp_qty_dec :: u32

definition open_capture :: "bytes \<Rightarrow> md_error + Capture" where
  "open_capture buf =
    (if length buf < 16 \<or> take 4 buf \<noteq> [0x45, 0x58, 0x4D, 0x44] then Inl NotExmd
     else if le_at 4 4 buf \<noteq> (1 :: u32) then Inl BadVersion
     else
      (case parse_all (drop 16 buf) of
         Inl e \<Rightarrow> Inl e
       | Inr rs \<Rightarrow> Inr \<lparr>cp_records = rs, cp_price_dec = le_at 8 4 buf, cp_qty_dec = le_at 12 4 buf\<rparr>))"

text \<open>The first diff that straddles a snapshot, if no gap comes first; then the first snapshot that has one.\<close>

primrec straddling :: "MdRecord list \<Rightarrow> u64 \<Rightarrow> nat list \<Rightarrow> nat option" where
  "straddling recs want [] = None"
| "straddling recs want (d # ds) =
    (if cr_last_id (recs ! d) < want then straddling recs want ds
     else if cr_first_id (recs ! d) > want then None
     else Some d)"

primrec find_seed :: "MdRecord list \<Rightarrow> nat list \<Rightarrow> nat list \<Rightarrow> nat \<Rightarrow> (nat \<times> nat) option" where
  "find_seed recs diffs [] from = None"
| "find_seed recs diffs (s # ss) from =
    (case straddling recs (cr_last_id (recs ! s) + 1) (drop from diffs) of
       Some d \<Rightarrow> Some (s, d)
     | None \<Rightarrow> find_seed recs diffs ss from)"

section \<open>The mirror\<close>

record 'd BookMirror =
  bm_min_px :: Price
  bm_n :: nat
  bm_max_orders :: nat
  bm_bid_qty :: "u64 list"
  bm_ask_qty :: "u64 list"
  bm_book :: "'d OrderBook"
  bm_sink :: CountingSink
  bm_updates :: u64
  bm_out_of_band :: u64
  bm_book_full :: u64
  bm_drop_counter :: u64
  bm_bid_horizon :: Price
  bm_ask_horizon :: Price
  bm_bid_span0 :: int
  bm_ask_span0 :: int

definition mirror_config :: "Price \<Rightarrow> nat \<Rightarrow> nat \<Rightarrow> BookConfig" where
  "mirror_config min_px n max_orders = \<lparr>cfg_min_price = min_px, cfg_num_levels = n, cfg_max_orders = max_orders, cfg_stp = StpNone\<rparr>"

definition new_book :: "'d store_ops \<Rightarrow> (OrderId \<Rightarrow> nat \<Rightarrow> u32) \<Rightarrow> Price \<Rightarrow> nat \<Rightarrow> nat \<Rightarrow> 'd OrderBook option" where
  "new_book ops h min_px n max_orders = ob_init ops h 0 (mirror_config min_px n max_orders)"

definition reset_book :: "'d store_ops \<Rightarrow> (OrderId \<Rightarrow> nat \<Rightarrow> u32) \<Rightarrow> 'd BookMirror \<Rightarrow> 'd BookMirror option" where
  "reset_book ops h m = do { b \<leftarrow> new_book ops h (bm_min_px m) (bm_n m) (bm_max_orders m); Some (m\<lparr>bm_book := b, bm_sink := cs_init\<rparr>) }"

definition bm_init :: "'d store_ops \<Rightarrow> (OrderId \<Rightarrow> nat \<Rightarrow> u32) \<Rightarrow> Price \<Rightarrow> nat \<Rightarrow> nat \<Rightarrow> 'd BookMirror option" where
  "bm_init ops h center_px num_levels max_orders =
    (let min_px = center_px - int (num_levels div 2)
     in do { b \<leftarrow> new_book ops h min_px num_levels max_orders;
             Some \<lparr>bm_min_px = min_px, bm_n = num_levels, bm_max_orders = max_orders, bm_bid_qty = replicate num_levels 0,
               bm_ask_qty = replicate num_levels 0, bm_book = b, bm_sink = cs_init, bm_updates = 0, bm_out_of_band = 0, bm_book_full = 0,
               bm_drop_counter = 0, bm_bid_horizon = 0, bm_ask_horizon = 0, bm_bid_span0 = 0, bm_ask_span0 = 0\<rparr> })"

definition id_for :: "int \<Rightarrow> Side \<Rightarrow> OrderId" where
  "id_for rel side = (push_bit 1 (of_int rel) OR (if side = Sell then 1 else 0)) + 1"

definition bm_in_band :: "'d BookMirror \<Rightarrow> Price \<Rightarrow> bool" where
  "bm_in_band m px \<longleftrightarrow> 0 \<le> px - bm_min_px m \<and> px - bm_min_px m < int (bm_n m)"

fun bm_slots :: "Side \<Rightarrow> 'd BookMirror \<Rightarrow> u64 list" where
  "bm_slots Buy m = bm_bid_qty m"
| "bm_slots Sell m = bm_ask_qty m"

fun set_slot :: "Side \<Rightarrow> nat \<Rightarrow> u64 \<Rightarrow> 'd BookMirror \<Rightarrow> 'd BookMirror" where
  "set_slot Buy i q m = m\<lparr>bm_bid_qty := (bm_bid_qty m)[i := q]\<rparr>"
| "set_slot Sell i q m = m\<lparr>bm_ask_qty := (bm_ask_qty m)[i := q]\<rparr>"

definition qty_at :: "Side \<Rightarrow> Price \<Rightarrow> 'd BookMirror \<Rightarrow> u64" where
  "qty_at side px m = (if bm_in_band m px then bm_slots side m ! nat (px - bm_min_px m) else 0)"

definition level_command :: "MsgType \<Rightarrow> Side \<Rightarrow> LevelUpdate \<Rightarrow> Price \<Rightarrow> Command" where
  "level_command t side u min_px =
    \<lparr>c_order_id = id_for (lu_px u - min_px) side, c_price = lu_px u, c_seq = 0, c_ts = 0, c_qty = lu_qty u, c_owner = 0, c_symbol = 0, c_type = t,
     c_side = side, c_ord_type = Limit, c_tif = Day, c_flags = 0\<rparr>"

definition to_sink :: "'d OrderBook \<times> Event list \<Rightarrow> 'd BookMirror \<Rightarrow> 'd BookMirror" where
  "to_sink r m = m\<lparr>bm_book := fst r, bm_sink := foldl (\<lambda>s e. cs_on_event e s) (bm_sink m) (snd r)\<rparr>"

definition set_level :: "'d store_ops \<Rightarrow> Side \<Rightarrow> LevelUpdate \<Rightarrow> bool \<Rightarrow> 'd BookMirror \<Rightarrow> 'd BookMirror option" where
  "set_level ops side u allow_add m =
    (let rel = lu_px u - bm_min_px m in
     if rel < 0 \<or> rel \<ge> int (bm_n m) then Some (m\<lparr>bm_out_of_band := bm_out_of_band m + 1\<rparr>)
     else
      let m = m\<lparr>bm_updates := bm_updates m + 1\<rparr>;
          cur = bm_slots side m ! nat rel;
          c = (\<lambda>t. level_command t side u (bm_min_px m));
          store = set_slot side (nat rel) (lu_qty u)
      in if lu_qty u = 0 then
           (if cur \<noteq> 0 then do { r \<leftarrow> ob_cancel ops (c Cancel) (bm_book m); Some (store (to_sink r m)) } else Some (store m))
         else if cur = 0 then
           (if \<not> allow_add then Some m
            else
              do { r \<leftarrow> ob_add ops (c NewOrder) (bm_book m);
                   let m = to_sink r m;
                   there \<leftarrow> ob_contains ops (id_for rel side) (bm_book m);
                   Some (store (if \<not> there then m\<lparr>bm_book_full := bm_book_full m + 1\<rparr> else m)) })
         else do { r \<leftarrow> ob_modify ops (c Modify) (bm_book m); Some (store (to_sink r m)) })"

primrec bm_set_levels :: "'d store_ops \<Rightarrow> Side \<Rightarrow> LevelUpdate list \<Rightarrow> 'd BookMirror \<Rightarrow> 'd BookMirror option" where
  "bm_set_levels ops side [] m = Some m"
| "bm_set_levels ops side (u # us) m = Option.bind (set_level ops side u True m) (bm_set_levels ops side us)"

definition cr_bids :: "MdRecord \<Rightarrow> LevelUpdate list" where
  "cr_bids r = map (cr_bid r) [0..<unat (cr_n_bids r)]"

definition cr_asks :: "MdRecord \<Rightarrow> LevelUpdate list" where
  "cr_asks r = map (cr_ask r) [0..<unat (cr_n_asks r)]"

definition bm_seed :: "'d store_ops \<Rightarrow> (OrderId \<Rightarrow> nat \<Rightarrow> u32) \<Rightarrow> MdRecord \<Rightarrow> 'd BookMirror \<Rightarrow> 'd BookMirror option" where
  "bm_seed ops h snap m =
    do { m \<leftarrow> reset_book ops h (m\<lparr>bm_bid_qty := replicate (length (bm_bid_qty m)) 0, bm_ask_qty := replicate (length (bm_ask_qty m)) 0\<rparr>);
         m \<leftarrow> bm_set_levels ops Buy (cr_bids snap) m;
         m \<leftarrow> bm_set_levels ops Sell (cr_asks snap) m;
         let nb = unat (cr_n_bids snap); na = unat (cr_n_asks snap);
             bid_h = (if nb \<noteq> 0 then lu_px (cr_bid snap (nb - 1)) else bm_min_px m);
             ask_h = (if na \<noteq> 0 then lu_px (cr_ask snap (na - 1)) else bm_min_px m + int (bm_n m))
         in Some (m\<lparr>bm_bid_horizon := bid_h, bm_ask_horizon := ask_h, bm_bid_span0 := (if nb \<noteq> 0 then wrap_i64 (lu_px (cr_bid snap 0) - bid_h) else 0),
                    bm_ask_span0 := (if na \<noteq> 0 then wrap_i64 (ask_h - lu_px (cr_ask snap 0)) else 0)\<rparr>) }"

definition needs_reseed :: "'d BookMirror \<Rightarrow> bool" where
  "needs_reseed m =
    (case (ob_best_bid_px (bm_book m), ob_best_ask_px (bm_book m)) of
       (Some bb, Some ba) \<Rightarrow> wrap_i64 (wrap_i64 (bm_ask_horizon m - ba) * 2) < bm_ask_span0 m \<or> wrap_i64 (wrap_i64 (bb - bm_bid_horizon m) * 2) < bm_bid_span0 m
     | _ \<Rightarrow> True)"

definition touch :: "'d store_ops \<Rightarrow> nat \<Rightarrow> u64 \<Rightarrow> Side \<Rightarrow> LevelUpdate \<Rightarrow> 'd BookMirror \<Rightarrow> 'd BookMirror option" where
  "touch ops pass drop_every side u m =
    (let m = (if drop_every \<noteq> 0 then m\<lparr>bm_drop_counter := bm_drop_counter m + 1\<rparr> else m) in
     if drop_every \<noteq> 0 \<and> bm_drop_counter m mod drop_every = 0 then Some m
     else
      let rel = lu_px u - bm_min_px m in
      if rel < 0 \<or> rel \<ge> int (bm_n m) then Some (if pass = 0 then m\<lparr>bm_out_of_band := bm_out_of_band m + 1\<rparr> else m)
      else
        let reduces = lu_qty u < bm_slots side m ! nat rel in
        if pass = 0 \<and> reduces then set_level ops side u False m
        else if pass = 1 \<and> \<not> reduces then set_level ops side u True m
        else Some m)"

primrec touches :: "'d store_ops \<Rightarrow> nat \<Rightarrow> u64 \<Rightarrow> (Side \<times> LevelUpdate) list \<Rightarrow> 'd BookMirror \<Rightarrow> 'd BookMirror option" where
  "touches ops pass drop_every [] m = Some m"
| "touches ops pass drop_every (x # xs) m = Option.bind (touch ops pass drop_every (fst x) (snd x) m) (touches ops pass drop_every xs)"

definition diff_updates :: "MdRecord \<Rightarrow> (Side \<times> LevelUpdate) list" where
  "diff_updates r = map (Pair Buy) (cr_bids r) @ map (Pair Sell) (cr_asks r)"

definition bm_apply :: "'d store_ops \<Rightarrow> MdRecord \<Rightarrow> u64 \<Rightarrow> 'd BookMirror \<Rightarrow> 'd BookMirror option" where
  "bm_apply ops diff drop_every m = do { m \<leftarrow> touches ops 0 drop_every (diff_updates diff) m; touches ops 1 drop_every (diff_updates diff) m }"

text \<open>The top of one side; the totals of a level's orders are summed.\<close>

fun top_add :: "nat \<Rightarrow> LevelUpdate list \<Rightarrow> Price \<times> OrderId \<times> Qty \<Rightarrow> LevelUpdate list" where
  "top_add n out (p, _, q) =
    (if out \<noteq> [] \<and> lu_px (last out) = p then butlast out @ [(last out)\<lparr>lu_qty := lu_qty (last out) + q\<rparr>]
     else if length out < n then out @ [\<lparr>lu_px = p, lu_qty = q\<rparr>]
     else out)"

definition bm_top :: "'d store_ops \<Rightarrow> Side \<Rightarrow> nat \<Rightarrow> bool \<Rightarrow> 'd BookMirror \<Rightarrow> LevelUpdate list option" where
  "bm_top ops side n within_horizon m =
    do { os \<leftarrow> ob_for_each_order ops side (bm_book m);
         Some (foldl (top_add n) []
           (filter (\<lambda>(p, _, _). \<not> (within_horizon \<and> (if side = Buy then p < bm_bid_horizon m else p > bm_ask_horizon m))) os)) }"

definition phantom_trades :: "'d BookMirror \<Rightarrow> u64" where
  "phantom_trades m = cs_count Trade (bm_sink m)"

definition mirror_rejects :: "'d BookMirror \<Rightarrow> u64" where
  "mirror_rejects m = cs_count Rejected (bm_sink m)"

end
