(* ===== verification/Md_Mirror_Properties.thy ===== *)
theory Md_Mirror_Properties
  imports Md_Mirror Matching_Engine Book_Queries
begin

text \<open>
  The mirror's promise: as long as the exchange's book is uncrossed after every diff and fits the engine, the engine's book has exactly the exchange's levels, and no
  command of the mirror ever trades or is rejected, although within a diff levels change in any order.
\<close>

section \<open>Captures\<close>

text \<open>The seed found: the diff to start from straddles the snapshot, and all the diffs before it are older than the snapshot, so that none is lost.\<close>

lemma straddlingD:
  assumes "straddling recs want ds = Some d"
  shows "\<exists>pre post. ds = pre @ d # post \<and> cr_first_id (recs ! d) \<le> want \<and> want \<le> cr_last_id (recs ! d) \<and> (\<forall>x \<in> set pre. cr_last_id (recs ! x) < want)"
  using assms
proof (induction ds)
  case (Cons x ds)
  show ?case
  proof (cases "cr_last_id (recs ! x) < want")
    case True
    then obtain pre post where "ds = pre @ d # post" "cr_first_id (recs ! d) \<le> want" "want \<le> cr_last_id (recs ! d)" "\<forall>x \<in> set pre. cr_last_id (recs ! x) < want"
      using Cons by auto
    with True show ?thesis by (intro exI [of _ "x # pre"] exI [of _ post]) simp
  next
    case False
    then show ?thesis using Cons.prems by (intro exI [of _ "[]"] exI [of _ ds]) (auto split: if_splits)
  qed
qed simp

lemma find_seed_straddles:
  assumes "find_seed recs diffs snaps from = Some (s, d)"
  shows "s \<in> set snaps \<and> (\<exists>pre post. drop from diffs = pre @ d # post \<and> cr_first_id (recs ! d) \<le> cr_last_id (recs ! s) + 1 \<and>
    cr_last_id (recs ! s) + 1 \<le> cr_last_id (recs ! d) \<and> (\<forall>x \<in> set pre. cr_last_id (recs ! x) < cr_last_id (recs ! s) + 1))"
  using assms
proof (induction snaps)
  case (Cons x snaps)
  show ?case
  proof (cases "straddling recs (cr_last_id (recs ! x) + 1) (drop from diffs)")
    case (Some e)
    then have "x = s" "e = d" using Cons.prems by simp_all
    then show ?thesis using straddlingD [OF Some] by simp
  qed (use Cons in simp)
qed simp

text \<open>A diff record of 12 bytes at the end of a file: the parser reads its ids and counts behind the buffer before it compares the length.\<close>

lemma short_record_over_read:
  "open_capture ([0x45, 0x58, 0x4D, 0x44, 1, 0, 0, 0, 2, 0, 0, 0, 2, 0, 0, 0] @ [12, 0, 0, 0] @ [1, 0, 0, 0, 0, 0, 0, 0, 0, 0, 0, 0]) = Inl OverRead"
  by (simp add: open_capture_def parse_all.simps parse_record_def Let_def le_at_def byte_at_def)

section \<open>Ids\<close>

lemma id_for_eq: "id_for a s = of_int (2 * a + (if s = Sell then 1 else 0) + 1)"
proof -
  have "push_bit 1 (of_int a :: u64) OR 1 = push_bit 1 (of_int a) + 1"
    by (simp add: or_one_eq push_bit_eq_mult)
  then show ?thesis by (simp add: id_for_def push_bit_eq_mult)
qed

lemma uint_of_int64: "0 \<le> x \<Longrightarrow> x < 2 ^ 64 \<Longrightarrow> uint (of_int x :: u64) = x"
  by (simp add: uint_word_of_int mod_pos_pos_trivial)

lemma id_for_inj:
  assumes "id_for a s = id_for b t" and "0 \<le> a" "a < 2 ^ 62" "0 \<le> b" "b < 2 ^ 62"
  shows "a = b \<and> s = t"
proof -
  let ?f = "\<lambda>a s. 2 * a + (if s = Sell then 1 else 0) + 1 :: int"
  have u: "uint (of_int (?f c r) :: u64) = ?f c r" if "0 \<le> c" "c < 2 ^ 62" for c r
    using that by (intro uint_of_int64) auto
  have "uint (of_int (?f a s) :: u64) = uint (of_int (?f b t) :: u64)" using assms(1) by (simp only: id_for_eq)
  then have "?f a s = ?f b t" using u assms by metis
  then show ?thesis by (cases s; cases t) (simp_all, presburger+)
qed

lemma id_for_nz: "0 \<le> a \<Longrightarrow> a < 2 ^ 62 \<Longrightarrow> id_for a s \<noteq> 0"
proof
  assume a: "0 \<le> a" "a < 2 ^ 62" and "id_for a s = 0"
  then have "uint (of_int (2 * a + (if s = Sell then 1 else 0) + 1) :: u64) = 0" by (simp only: id_for_eq uint_0_eq)
  moreover have "uint (of_int (2 * a + (if s = Sell then 1 else 0) + 1) :: u64) = 2 * a + (if s = Sell then 1 else 0) + 1"
    using a by (intro uint_of_int64) auto
  ultimately show False using a by (simp split: if_splits)
qed

section \<open>A book with one order per level\<close>

type_synonym amounts = "Side \<Rightarrow> Price \<Rightarrow> u64"

definition lone :: "amounts \<Rightarrow> Price \<Rightarrow> Side \<Rightarrow> Price \<Rightarrow> RefOrder" where
  "lone A mn t p = \<lparr>ro_id = id_for (p - mn) t, ro_qty = A t p, ro_owner = 0\<rparr>"

definition mirrored :: "amounts \<Rightarrow> ReferenceBook \<Rightarrow> bool" where
  "mirrored A b \<longleftrightarrow> rb_inv b \<and> rb_max_price b - rb_min_price b < 2 ^ 62 \<and> rb_stp b = StpNone \<and>
    (\<forall>t p. map_of (rb_levels t b) p = (if A t p = 0 then None else Some [lone A (rb_min_price b) t p]))"

lemma mirrored_level: "mirrored A b \<Longrightarrow> map_of (rb_levels t b) p = (if A t p = 0 then None else Some [lone A (rb_min_price b) t p])"
  by (simp add: mirrored_def)

lemma mirrored_in: "mirrored A b \<Longrightarrow> (p, q) \<in> set (rb_levels t b) \<longleftrightarrow> A t p \<noteq> 0 \<and> q = [lone A (rb_min_price b) t p]"
proof -
  assume m: "mirrored A b"
  have "distinct (map fst (rb_levels t b))" using m by (auto simp: mirrored_def intro: levels_ok_distinct rb_invD(1))
  then have "(p, q) \<in> set (rb_levels t b) \<longleftrightarrow> map_of (rb_levels t b) p = Some q" by (simp add: map_of_eq_Some_iff)
  then show ?thesis using mirrored_level [OF m, of t p] by auto
qed

lemma mirrored_prices: "mirrored A b \<Longrightarrow> prices (rb_levels t b) = {p. A t p \<noteq> 0}"
proof -
  assume m: "mirrored A b"
  have "p \<in> prices (rb_levels t b) \<longleftrightarrow> (\<exists>q. (p, q) \<in> set (rb_levels t b))" for p by (force simp: prices_def)
  then show ?thesis by (auto simp: mirrored_in [OF m])
qed

lemma mirrored_band: "mirrored A b \<Longrightarrow> A t p \<noteq> 0 \<Longrightarrow> rb_min_price b \<le> p \<and> p \<le> rb_max_price b"
  using mirrored_prices [of A b t] rb_invD(6) [of b p t] by (auto simp: mirrored_def)

lemma mirrored_index:
  assumes m: "mirrored A b" and p: "rb_min_price b \<le> p" "p \<le> rb_max_price b"
  shows "map_of (rb_index b) (id_for (p - rb_min_price b) t) = (if A t p = 0 then None else Some (loc t p))"
proof -
  have I: "rb_inv b" "rb_max_price b - rb_min_price b < 2 ^ 62" using m by (simp_all add: mirrored_def)
  have set: "set (rb_index b) = {(id_for (p - rb_min_price b) t, loc t p) |t p. A t p \<noteq> 0}"
  proof -
    have e: "set (entries s (rb_levels s b)) = {(id_for (p - rb_min_price b) s, loc s p) |p. A s p \<noteq> 0}" for s
    proof -
      have "(i, l) \<in> set (entries s (rb_levels s b)) \<longleftrightarrow> (\<exists>p. A s p \<noteq> 0 \<and> i = id_for (p - rb_min_price b) s \<and> l = loc s p)" for i l
        unfolding entries_loc in_orders mirrored_in [OF m] by (auto simp: lone_def)
      then show ?thesis by auto
    qed
    have "set (rb_index b) = set (entries Buy (rb_levels Buy b)) \<union> set (entries Sell (rb_levels Sell b))"
      using arg_cong [OF rb_invD(3) [OF I(1), of Buy], of set_mset] by simp
    also have "\<dots> = {(id_for (p - rb_min_price b) t, loc t p) |t p. A t p \<noteq> 0}" proof -
      have "(UNIV :: Side set) = {Buy, Sell}" using Side.exhaust by blast
      then have "{(id_for (p - rb_min_price b) t, loc t p) |t p. A t p \<noteq> 0} = (\<Union>t \<in> {Buy, Sell}. {(id_for (p - rb_min_price b) t, loc t p) |p. A t p \<noteq> 0})" by blast
      then show ?thesis unfolding e by simp
    qed
    finally show ?thesis .
  qed
  show ?thesis
  proof (cases "A t p = 0")
    case False
    then have "(id_for (p - rb_min_price b) t, loc t p) \<in> set (rb_index b)" unfolding set by blast
    then show ?thesis using False rb_invD(4) [OF I(1)] by (simp add: map_of_eq_Some_iff)
  next
    case True
    have "id_for (p - rb_min_price b) t \<notin> fst ` set (rb_index b)"
    proof
      assume "id_for (p - rb_min_price b) t \<in> fst ` set (rb_index b)"
      then obtain t' p' where q: "A t' p' \<noteq> 0" "id_for (p - rb_min_price b) t = id_for (p' - rb_min_price b) t'" unfolding set by auto
      then have "p - rb_min_price b = p' - rb_min_price b \<and> t = t'"
        using mirrored_band [OF m q(1)] p I(2) by (intro id_for_inj) auto
      then show False using q(1) True by simp
    qed
    then show ?thesis using True by (simp add: not_indexed)
  qed
qed

lemma mirrored_count:
  assumes m: "mirrored A b"
  shows "length (rb_index b) = card {p. A Buy p \<noteq> 0} + card {p. A Sell p \<noteq> 0}" "finite {p. A t p \<noteq> 0}"
proof -
  have I: "rb_inv b" using m by (simp add: mirrored_def)
  have l: "length (orders lv) = length lv" if "\<forall>(p, q) \<in> set lv. length q = 1" for lv using that by (induction lv) auto
  have "length (entries s (rb_levels s b)) = card {p. A s p \<noteq> 0}" for s
  proof -
    have "length (entries s (rb_levels s b)) = length (rb_levels s b)" unfolding entries_def length_map by (rule l) (auto simp: mirrored_in [OF m])
    also have "\<dots> = card (fst ` set (rb_levels s b))" using levels_ok_distinct [OF rb_invD(1) [OF I]] by (metis distinct_card length_map set_map)
    also have "fst ` set (rb_levels s b) = {p. A s p \<noteq> 0}" using mirrored_prices [OF m] by (simp add: prices_def)
    finally show ?thesis .
  qed
  moreover have "length (rb_index b) = length (entries Buy (rb_levels Buy b)) + length (entries Sell (rb_levels Sell b))"
    using arg_cong [OF rb_invD(3) [OF I, of Buy], of size] by simp
  ultimately show "length (rb_index b) = card {p. A Buy p \<noteq> 0} + card {p. A Sell p \<noteq> 0}" by (simp only:)
  show "finite {p. A t p \<noteq> 0}" using mirrored_prices [OF m, of t] by (auto simp: prices_def dest: sym)
qed

section \<open>One command\<close>

definition put_amt :: "Side \<Rightarrow> Price \<Rightarrow> u64 \<Rightarrow> amounts \<Rightarrow> amounts" where
  "put_amt t p q A = A(t := (A t)(p := q))"

lemma put_amt_simps [simp]: "put_amt t p q A t' p' = (if t' = t \<and> p' = p then q else A t' p')"
  by (simp add: put_amt_def)

lemma lone_put [simp]: "\<not> (t' = t \<and> p' = p) \<Longrightarrow> lone (put_amt t p q A) mn t' p' = lone A mn t' p'"
  by (auto simp: lone_def)

lemma map_of_remove_level:
  "distinct (map fst lv) \<Longrightarrow> map_of (remove_level oid px lv) p =
    (case map_of lv p of None \<Rightarrow> None
     | Some q \<Rightarrow> let q' = (if p = px then filter (\<lambda>r. ro_id r \<noteq> oid) q else q) in if q' = [] then None else Some q')"
proof (induction lv)
  case (Cons x lv)
  obtain p' q' where x: "x = (p', q')" by (rule prod.exhaust)
  have "map_of lv p' = None" using Cons.prems by (simp add: x map_of_eq_None_iff)
  then show ?case using Cons by (auto simp: x Let_def)
qed simp

lemma map_of_amend_level:
  "map_of (amend_level oid px q lv) p =
    map_option (\<lambda>v. if p = px then map (\<lambda>r. if ro_id r = oid then r\<lparr>ro_qty := q\<rparr> else r) v else v) (map_of lv p)"
  by (induction lv) auto

lemma rb_match_none:
  assumes "\<forall>p \<in> prices (rb_levels (opposite t) b). \<not> in_range t limit p"
  shows "rb_match b i ow t limit q stp = (b, q, False, [])"
proof -
  have m: "match_side sm i ow t limit stp lv ix q = (lv, ix, q, False, [])" if "\<forall>p \<in> prices lv. \<not> in_range t limit p" for sm lv ix
    using that by (cases lv) auto
  have "(rb_set_levels (opposite t) (rb_levels (opposite t) b) b)\<lparr>rb_index := rb_index b\<rparr> = b" by (cases t) simp_all
  then show ?thesis using m [OF assms] by (simp add: rb_match_def)
qed

lemma rb_match_uncrossed:
  assumes "mirrored A b" and "\<forall>p'. A (opposite t) p' \<noteq> 0 \<longrightarrow> \<not> in_range t p p'"
  shows "\<forall>p' \<in> prices (rb_levels (opposite t) b). \<not> in_range t p p'"
  using mirrored_prices [OF assms(1)] assms(2) by auto

text \<open>What keeps a book a mirror: the levels of one side change at one price.\<close>

lemma mirroredI:
  assumes m: "mirrored A b" and i: "rb_inv b'" and c: "rb_config b' = rb_config b"
    and o: "rb_levels (opposite t) b' = rb_levels (opposite t) b"
    and l: "map_of (rb_levels t b') = (map_of (rb_levels t b))(p := (if q = 0 then None else Some [lone (put_amt t p q A) (rb_min_price b) t p]))"
  shows "mirrored (put_amt t p q A) b'"
proof -
  have mn: "rb_min_price b' = rb_min_price b" "rb_max_price b' = rb_max_price b" "rb_stp b' = rb_stp b" using c by (simp_all add: rb_config_def)
  have "map_of (rb_levels t' b') p' = (if put_amt t p q A t' p' = 0 then None else Some [lone (put_amt t p q A) (rb_min_price b) t' p'])" for t' p'
  proof (cases "t' = t")
    case True
    then show ?thesis using mirrored_level [OF m, of t p'] by (simp add: l)
  next
    case False
    then have "t' = opposite t" by (cases t; cases t') simp_all
    then show ?thesis using mirrored_level [OF m, of t' p'] False by (simp add: o)
  qed
  then show ?thesis using m i mn by (simp add: mirrored_def)
qed

lemma mirrored_distinct: "mirrored A b \<Longrightarrow> distinct (map fst (rb_levels t b))"
  by (auto simp: mirrored_def intro: levels_ok_distinct rb_invD(1))

lemma mirrored_deref: "mirrored A b \<Longrightarrow> A t p \<noteq> 0 \<Longrightarrow> deref b (id_for (p - rb_min_price b) t) (loc t p) = Some (lone A (rb_min_price b) t p)"
  by (simp add: deref_def mirrored_level) (simp add: lone_def)

text \<open>No event of the mirror's commands is a trade or a rejection.\<close>

definition quiet :: "Event list \<Rightarrow> bool" where
  "quiet evs \<longleftrightarrow> (\<forall>e \<in> set evs. e_type e \<noteq> Trade \<and> e_type e \<noteq> Rejected)"

lemma mirror_cancel:
  assumes m: "mirrored A b" and a: "A t p \<noteq> 0" and c: "c_type c = Cancel" "c_order_id c = id_for (p - rb_min_price b) t"
  shows "\<exists>b' evs. rb_process b c = (b', evs) \<and> mirrored (put_amt t p 0 A) b' \<and> quiet evs"
proof -
  let ?i = "id_for (p - rb_min_price b) t"
  have ix: "map_of (rb_index b) ?i = Some (loc t p)" using mirrored_index [OF m] mirrored_band [OF m a] a by simp
  define b' where "b' = (rb_remove b ?i (loc t p))\<lparr>rb_index := om_erase ?i (rb_index b)\<rparr>"
  obtain evs where r: "rb_process b c = (b', evs)" "quiet evs"
    using c ix mirrored_deref [OF m a] by (simp add: rb_cancel_def b'_def quiet_def canceled_event_def)
  have "mirrored (put_amt t p 0 A) b'"
  proof (rule mirroredI [OF m rb_process_inv [OF r(1)] rb_process_config [OF r(1)]])
    show "rb_levels (opposite t) b' = rb_levels (opposite t) b" by (simp add: b'_def rb_remove_def)
    show "map_of (rb_levels t b') = (map_of (rb_levels t b))(p := if (0 :: u64) = 0 then None else Some [lone (put_amt t p 0 A) (rb_min_price b) t p])"
      using mirrored_level [OF m, of t] a by (auto simp: b'_def rb_remove_def map_of_remove_level [OF mirrored_distinct [OF m]] fun_eq_iff lone_def)
  qed (use m in \<open>simp add: mirrored_def\<close>)
  then show ?thesis using r by blast
qed

lemma mirror_amend:
  assumes m: "mirrored A b" and a: "A t p \<noteq> 0"
    and c: "c_type c = Modify" "c_order_id c = id_for (p - rb_min_price b) t" "c_price c = p" "c_qty c \<noteq> 0" "c_qty c \<le> A t p"
  shows "\<exists>b' evs. rb_process b c = (b', evs) \<and> mirrored (put_amt t p (c_qty c) A) b' \<and> quiet evs"
proof -
  let ?i = "id_for (p - rb_min_price b) t"
  have ix: "map_of (rb_index b) ?i = Some (loc t p)" using mirrored_index [OF m] mirrored_band [OF m a] a by simp
  define b' where "b' = rb_set_levels t (amend_level ?i p (c_qty c) (rb_levels t b)) b"
  obtain evs where r: "rb_process b c = (b', evs)" "quiet evs"
    using c ix mirrored_deref [OF m a] mirrored_band [OF m a]
    by (simp add: rb_modify_def b'_def quiet_def modified_event_def lone_def Let_def)
  have "mirrored (put_amt t p (c_qty c) A) b'"
  proof (rule mirroredI [OF m rb_process_inv [OF r(1)] rb_process_config [OF r(1)]])
    show "rb_levels (opposite t) b' = rb_levels (opposite t) b" by (simp add: b'_def)
    show "map_of (rb_levels t b') = (map_of (rb_levels t b))(p := if c_qty c = 0 then None else Some [lone (put_amt t p (c_qty c) A) (rb_min_price b) t p])"
      using mirrored_level [OF m, of t] a c(4) by (auto simp: b'_def map_of_amend_level fun_eq_iff lone_def)
  qed (use m in \<open>simp add: mirrored_def\<close>)
  then show ?thesis using r by blast
qed

lemma rest_level:
  assumes "levels_ok t lv"
  shows "map_of (om_alter (px_before t) p f lv) = (map_of lv)(p \<mapsto> f (map_of lv p))"
  by (rule map_of_om_alter) (use assms px_before_trans px_before_simps(2) in \<open>auto simp: levels_ok_def\<close>)

lemma mirror_grow:
  assumes m: "mirrored A b" and a: "A t p \<noteq> 0"
    and c: "c_type c = Modify" "c_order_id c = id_for (p - rb_min_price b) t" "c_price c = p" "A t p < c_qty c"
    and u: "\<forall>p'. A (opposite t) p' \<noteq> 0 \<longrightarrow> \<not> in_range t p p'"
  shows "\<exists>b' evs. rb_process b c = (b', evs) \<and> mirrored (put_amt t p (c_qty c) A) b' \<and> quiet evs"
proof -
  let ?i = "id_for (p - rb_min_price b) t"
  have I: "rb_inv b" using m by (simp add: mirrored_def)
  have ix: "map_of (rb_index b) ?i = Some (loc t p)" using mirrored_index [OF m] mirrored_band [OF m a] a by simp
  have nz: "c_qty c \<noteq> 0" using c(4) by (metis word_not_simps(1))
  define b1 where "b1 = (rb_remove b ?i (loc t p))\<lparr>rb_index := om_erase ?i (rb_index b)\<rparr>"
  note R = rb_remove_inv [OF I ix b1_def]
  have l1: "rb_levels (opposite t) b1 = rb_levels (opposite t) b" "rb_levels t b1 = remove_level ?i p (rb_levels t b)" "rb_symbol b1 = rb_symbol b"
    by (simp_all add: b1_def rb_remove_def)
  have mt: "rb_match b1 ?i 0 t p (c_qty c) (rb_stp b) = (b1, c_qty c, False, [])"
    by (rule rb_match_none) (use rb_match_uncrossed [OF m u] l1 in simp)
  define b' where "b' = fst (rb_rest b1 ?i 0 t p (c_qty c))"
  have rs: "rb_rest b1 ?i 0 t p (c_qty c) = (b', [])" using R(2) by (simp add: b'_def rb_rest_def Let_def)
  obtain evs where r: "rb_process b c = (b', evs)" "quiet evs"
  proof (rule that)
    have "\<not> c_qty c \<le> A t p" using c(4) by simp
    then show "rb_process b c = (b', [modified_event (rb_symbol b) ?i t p (c_qty c)])"
      using c(1-3) nz ix mirrored_deref [OF m a] mirrored_band [OF m a] mt rs
      by (simp add: rb_modify_def Let_def lone_def flip: b1_def)
  qed (simp add: quiet_def modified_event_def)
  have "mirrored (put_amt t p (c_qty c) A) b'"
  proof (rule mirroredI [OF m rb_process_inv [OF r(1) I] rb_process_config [OF r(1)]])
    have b': "rb_levels t b' = om_alter (px_before t) p (\<lambda>q. (case q of None \<Rightarrow> [] | Some q \<Rightarrow> q) @ [\<lparr>ro_id = ?i, ro_qty = c_qty c, ro_owner = 0\<rparr>]) (rb_levels t b1)"
      "rb_levels (opposite t) b' = rb_levels (opposite t) b1"
      using R(2) by (simp_all add: b'_def rb_rest_def Let_def)
    show "rb_levels (opposite t) b' = rb_levels (opposite t) b" by (simp add: b' l1)
    have gone: "map_of (rb_levels t b1) = (map_of (rb_levels t b))(p := None)"
      using mirrored_level [OF m, of t] a by (auto simp: l1 map_of_remove_level [OF mirrored_distinct [OF m]] fun_eq_iff lone_def)
    show "map_of (rb_levels t b') = (map_of (rb_levels t b))(p := if c_qty c = 0 then None else Some [lone (put_amt t p (c_qty c) A) (rb_min_price b) t p])"
      unfolding b' rest_level [OF rb_invD(1) [OF R(1)]] gone using nz by (simp add: lone_def)
  qed
  then show ?thesis using r by blast
qed

lemma mirror_add:
  assumes m: "mirrored A b" and a: "A t p = 0" and p: "rb_min_price b \<le> p" "p \<le> rb_max_price b"
    and c: "c_type c = NewOrder" "c_order_id c = id_for (p - rb_min_price b) t" "c_price c = p" "c_qty c \<noteq> 0" "c_side c = t" "c_ord_type c = Limit" "c_tif c = Day"
      "c_flags c = 0" "c_owner c = 0"
    and u: "\<forall>p'. A (opposite t) p' \<noteq> 0 \<longrightarrow> \<not> in_range t p p'" and cap: "length (rb_index b) < rb_capacity b"
  shows "\<exists>b' evs. rb_process b c = (b', evs) \<and> mirrored (put_amt t p (c_qty c) A) b' \<and> quiet evs"
proof -
  let ?i = "id_for (p - rb_min_price b) t"
  have I: "rb_inv b" "rb_max_price b - rb_min_price b < 2 ^ 62" using m by (simp_all add: mirrored_def)
  have ix: "map_of (rb_index b) ?i = None" using mirrored_index [OF m p, of t] a by simp
  have i0: "?i \<noteq> 0" using p I(2) by (intro id_for_nz) auto
  have mt: "rb_match b ?i 0 t p (c_qty c) stp = (b, c_qty c, False, [])" for stp
    by (rule rb_match_none) (use rb_match_uncrossed [OF m u] in simp)
  define b' where "b' = fst (rb_rest b ?i 0 t p (c_qty c))"
  have rs: "rb_rest b ?i 0 t p (c_qty c) = (b', [])" using cap by (simp add: b'_def rb_rest_def Let_def)
  obtain evs where r: "rb_process b c = (b', evs)" "quiet evs"
  proof (rule that)
    show "rb_process b c = (b', [accepted_event (rb_symbol b) ?i t p (c_qty c)])"
      using c ix p i0 mt rs by (simp add: rb_add_def Let_def)
  qed (simp add: quiet_def accepted_event_def)
  have "mirrored (put_amt t p (c_qty c) A) b'"
  proof (rule mirroredI [OF m rb_process_inv [OF r(1) I(1)] rb_process_config [OF r(1)]])
    have b': "rb_levels t b' = om_alter (px_before t) p (\<lambda>q. (case q of None \<Rightarrow> [] | Some q \<Rightarrow> q) @ [\<lparr>ro_id = ?i, ro_qty = c_qty c, ro_owner = 0\<rparr>]) (rb_levels t b)"
      "rb_levels (opposite t) b' = rb_levels (opposite t) b"
      using cap by (simp_all add: b'_def rb_rest_def Let_def)
    show "rb_levels (opposite t) b' = rb_levels (opposite t) b" by (simp add: b')
    show "map_of (rb_levels t b') = (map_of (rb_levels t b))(p := if c_qty c = 0 then None else Some [lone (put_amt t p (c_qty c) A) (rb_min_price b) t p])"
      unfolding b' rest_level [OF rb_invD(1) [OF I(1)]] using c(4) mirrored_level [OF m, of t p] a by (simp add: lone_def)
  qed
  then show ?thesis using r by blast
qed

end
