(* ===== verification/Md_Mirror_Run.thy ===== *)
theory Md_Mirror_Run
  imports Md_Mirror_Properties
begin

text \<open>
  The mirror over the engine's book: every command it sends returns, keeps the book in step with the slots and is quiet. A diff is two monotone passes, first down to
  the meet of the old and the new book, then up to the new one; both stay below an uncrossed book.
\<close>

section \<open>A mirror in step with its book\<close>

definition amt :: "'d BookMirror \<Rightarrow> amounts" where
  "amt m t p = qty_at t p m"

definition quiet_sink :: "CountingSink \<Rightarrow> bool" where
  "quiet_sink s \<longleftrightarrow> length (cs_by_type s) = 8 \<and> cs_count Trade s = 0 \<and> cs_count Rejected s = 0"

lemma quiet_sink_init: "quiet_sink cs_init"
  by (simp add: quiet_sink_def cs_init_def cs_count_def)

lemma quiet_sink_fold: "quiet evs \<Longrightarrow> quiet_sink s \<Longrightarrow> quiet_sink (foldl (\<lambda>s e. cs_on_event e s) s evs)"
proof (induction evs arbitrary: s)
  case (Cons e evs)
  then have "quiet_sink (cs_on_event e s)" by (simp add: quiet_sink_def quiet_def cs_count_step cs_other_step)
  moreover have "quiet evs" using Cons.prems(1) by (simp add: quiet_def)
  ultimately show ?case using Cons.IH by simp
qed simp

text \<open>What no command changes.\<close>

definition frame :: "'d BookMirror \<Rightarrow> Price \<times> nat \<times> nat \<times> u64" where
  "frame m = (bm_min_px m, bm_n m, bm_max_orders m, bm_book_full m)"

lemma frame_set_slot [simp]: "frame (set_slot t i q m) = frame m" "bm_book (set_slot t i q m) = bm_book m" "bm_sink (set_slot t i q m) = bm_sink m"
    "bm_min_px (set_slot t i q m) = bm_min_px m" "bm_n (set_slot t i q m) = bm_n m" "bm_max_orders (set_slot t i q m) = bm_max_orders m"
  by (cases t; simp add: frame_def)+

lemma bm_slots_set_slot [simp]: "bm_slots t' (set_slot t i q m) = (if t' = t then (bm_slots t m)[i := q] else bm_slots t' m)"
  by (cases t; cases t') simp_all

lemma bm_slots_cong: "bm_bid_qty m' = bm_bid_qty m \<Longrightarrow> bm_ask_qty m' = bm_ask_qty m \<Longrightarrow> bm_slots t m' = bm_slots t m"
  by (cases t) simp_all

lemma bm_in_band_frame: "frame m' = frame m \<Longrightarrow> bm_in_band m' p = bm_in_band m p"
  by (simp add: frame_def bm_in_band_def)

definition shaped :: "'d BookMirror \<Rightarrow> bool" where
  "shaped m \<longleftrightarrow> (\<forall>t. length (bm_slots t m) = bm_n m) \<and> bm_n m < 2 ^ 62"

lemma amt_set_slot:
  assumes "shaped m" "bm_in_band m p"
  shows "amt (set_slot t (nat (p - bm_min_px m)) q m) = put_amt t p q (amt m)"
proof (intro ext)
  fix t' p'
  show "amt (set_slot t (nat (p - bm_min_px m)) q m) t' p' = put_amt t p q (amt m) t' p'"
    using assms by (auto simp: amt_def qty_at_def bm_in_band_def shaped_def nth_list_update nat_eq_iff)
qed

lemma amt_band: "amt m t p \<noteq> 0 \<Longrightarrow> bm_in_band m p"
  by (simp add: amt_def qty_at_def split: if_splits)

lemma amt_in: "bm_in_band m p \<Longrightarrow> bm_slots t m ! nat (p - bm_min_px m) = amt m t p"
  by (simp add: amt_def qty_at_def)

lemma level_command_fields [simp]:
  "c_type (level_command ty t u mn) = ty" "c_order_id (level_command ty t u mn) = id_for (lu_px u - mn) t" "c_price (level_command ty t u mn) = lu_px u"
  "c_qty (level_command ty t u mn) = lu_qty u" "c_side (level_command ty t u mn) = t" "c_ord_type (level_command ty t u mn) = Limit"
  "c_tif (level_command ty t u mn) = Day" "c_flags (level_command ty t u mn) = 0" "c_owner (level_command ty t u mn) = 0"
  by (simp_all add: level_command_def)

lemma amt_counters [simp]:
  "amt (m\<lparr>bm_updates := x\<rparr>) = amt m" "bm_in_band (m\<lparr>bm_updates := x\<rparr>) p = bm_in_band m p" "shaped (m\<lparr>bm_updates := x\<rparr>) = shaped m"
  "amt (m\<lparr>bm_out_of_band := x\<rparr>) = amt m" "bm_in_band (m\<lparr>bm_out_of_band := x\<rparr>) p = bm_in_band m p" "shaped (m\<lparr>bm_out_of_band := x\<rparr>) = shaped m"
  using bm_slots_cong [of "m\<lparr>bm_updates := x\<rparr>" m] bm_slots_cong [of "m\<lparr>bm_out_of_band := x\<rparr>" m]
  by (simp_all add: amt_def qty_at_def bm_in_band_def shaped_def fun_eq_iff)

lemma amt_horizons [simp]:
  "amt (m\<lparr>bm_bid_horizon := a, bm_ask_horizon := b, bm_bid_span0 := c, bm_ask_span0 := d\<rparr>) = amt m"
  "shaped (m\<lparr>bm_bid_horizon := a, bm_ask_horizon := b, bm_bid_span0 := c, bm_ask_span0 := d\<rparr>) = shaped m"
  "frame (m\<lparr>bm_bid_horizon := a, bm_ask_horizon := b, bm_bid_span0 := c, bm_ask_span0 := d\<rparr>) = frame m"
  using bm_slots_cong [of "m\<lparr>bm_bid_horizon := a, bm_ask_horizon := b, bm_bid_span0 := c, bm_ask_span0 := d\<rparr>" m]
  by (simp_all add: amt_def qty_at_def bm_in_band_def shaped_def frame_def fun_eq_iff)

context order_store
begin

definition in_step :: "nat \<Rightarrow> 'd BookMirror \<Rightarrow> bool" where
  "in_step M m \<longleftrightarrow> shaped m \<and> quiet_sink (bm_sink m) \<and>
    (\<exists>rb. book_rel M (bm_book m) rb \<and> mirrored (amt m) rb \<and> rb_min_price rb = bm_min_px m \<and> rb_max_price rb = bm_min_px m + int (bm_n m) - 1 \<and>
       rb_capacity rb = bm_max_orders m)"

lemma in_step_shaped: "in_step M m \<Longrightarrow> shaped m"
  by (simp add: in_step_def)

lemma in_step_counters [simp]: "in_step M (m\<lparr>bm_updates := x\<rparr>) = in_step M m" "in_step M (m\<lparr>bm_out_of_band := x\<rparr>) = in_step M m"
  by (simp_all add: in_step_def)

lemma horizons_free [simp]:
  "in_step M (m\<lparr>bm_bid_horizon := a, bm_ask_horizon := b, bm_bid_span0 := c, bm_ask_span0 := d\<rparr>) = in_step M m"
  by (simp add: in_step_def)

lemma command_in_step:
  assumes s: "in_step M m" and p: "bm_in_band m p" and c: "unat (c_qty c) \<le> M"
    and r: "\<And>rb. mirrored (amt m) rb \<Longrightarrow> rb_min_price rb = bm_min_px m \<Longrightarrow> rb_max_price rb = bm_min_px m + int (bm_n m) - 1 \<Longrightarrow>
      rb_capacity rb = bm_max_orders m \<Longrightarrow> \<exists>b' evs. rb_process rb c = (b', evs) \<and> mirrored (put_amt t p q (amt m)) b' \<and> quiet evs"
  shows "\<exists>x. ob_process ops c (bm_book m) = Some x \<and> in_step M (set_slot t (nat (p - bm_min_px m)) q (to_sink x m)) \<and>
    (q \<noteq> 0 \<longrightarrow> ob_contains ops (id_for (p - bm_min_px m) t) (fst x) = Some True)"
proof -
  obtain rb where rb: "book_rel M (bm_book m) rb" "mirrored (amt m) rb" "rb_min_price rb = bm_min_px m" "rb_max_price rb = bm_min_px m + int (bm_n m) - 1"
    "rb_capacity rb = bm_max_orders m" using s by (auto simp: in_step_def)
  obtain b' evs where b': "rb_process rb c = (b', evs)" "mirrored (put_amt t p q (amt m)) b'" "quiet evs" using r [OF rb(2-5)] by blast
  obtain x where x: "ob_process ops c (bm_book m) = Some (x, evs)" "book_rel M x b'"
    using machine_sim.sim [OF book_sim rb(1) c] b'(1) by (auto simp: rb_machine_def)
  have cf: "rb_min_price b' = bm_min_px m" "rb_max_price b' = bm_min_px m + int (bm_n m) - 1" "rb_capacity b' = bm_max_orders m"
    using rb_process_config [OF b'(1)] rb by (simp_all add: rb_config_def)
  let ?m = "to_sink (x, evs) m"
  have sh: "shaped ?m" "bm_in_band ?m p" "amt ?m = amt m" "bm_min_px ?m = bm_min_px m" "bm_n ?m = bm_n m" "bm_max_orders ?m = bm_max_orders m"
    using s p bm_slots_cong [of ?m m] by (auto simp: in_step_def shaped_def to_sink_def bm_in_band_def amt_def qty_at_def fun_eq_iff)
  have sl: "amt (set_slot t (nat (p - bm_min_px m)) q ?m) = put_amt t p q (amt m)" using amt_set_slot [OF sh(1,2)] sh(3,4) by simp
  have "in_step M (set_slot t (nat (p - bm_min_px m)) q ?m)"
    unfolding in_step_def
  proof (intro conjI exI)
    show "shaped (set_slot t (nat (p - bm_min_px m)) q ?m)" using sh by (simp add: shaped_def)
    show "quiet_sink (bm_sink (set_slot t (nat (p - bm_min_px m)) q ?m))" using s b'(3) by (simp add: to_sink_def in_step_def quiet_sink_fold)
    show "book_rel M (bm_book (set_slot t (nat (p - bm_min_px m)) q ?m)) b'" using x by (simp add: to_sink_def)
    show "mirrored (amt (set_slot t (nat (p - bm_min_px m)) q ?m)) b'" using b' sl by simp
  qed (simp_all add: sh cf)
  moreover have "ob_contains ops (id_for (p - bm_min_px m) t) x = Some True" if "q \<noteq> 0"
  proof -
    obtain n Q F where R: "refines n Q F x b'" using x(2) by (auto simp: book_rel_def)
    have "map_of (rb_index b') (id_for (p - bm_min_px m) t) = Some (loc t p)"
      using mirrored_index [OF b'(2), of p t] cf p that by (auto simp: bm_in_band_def)
    then show ?thesis using find_agrees(2) [OF R] by (simp add: rb_contains_def)
  qed
  ultimately show ?thesis using x by auto
qed

lemma set_level_in_step:
  assumes s: "in_step M m" and p: "bm_in_band m (lu_px u)" and q: "unat (lu_qty u) \<le> M"
    and g: "amt m t (lu_px u) < lu_qty u \<Longrightarrow> allow_add \<and> (\<forall>p'. amt m (opposite t) p' \<noteq> 0 \<longrightarrow> \<not> in_range t (lu_px u) p') \<and>
      (amt m t (lu_px u) = 0 \<longrightarrow> card {p. amt m Buy p \<noteq> 0} + card {p. amt m Sell p \<noteq> 0} < bm_max_orders m)"
  shows "\<exists>m'. set_level ops t u allow_add m = Some m' \<and> in_step M m' \<and> amt m' = put_amt t (lu_px u) (lu_qty u) (amt m) \<and> frame m' = frame m"
proof -
  let ?p = "lu_px u" and ?q = "lu_qty u" and ?m = "m\<lparr>bm_updates := bm_updates m + 1\<rparr>"
  let ?c = "\<lambda>ty. level_command ty t u (bm_min_px m)"
  have m: "in_step M ?m" "bm_in_band ?m ?p" "amt ?m = amt m" "bm_min_px ?m = bm_min_px m" "bm_n ?m = bm_n m" "bm_max_orders ?m = bm_max_orders m" using s p by simp_all
  have band: "\<not> ?p < bm_min_px m" "\<not> int (bm_n m) \<le> ?p - bm_min_px m" using p by (auto simp: bm_in_band_def)
  have cur: "bm_slots t ?m ! nat (?p - bm_min_px m) = amt m t ?p" using amt_in [OF m(2)] by (simp add: m)
  have cq: "unat (c_qty (?c ty)) \<le> M" for ty using q by (simp add: level_command_def)
  define slot :: "'d BookMirror \<Rightarrow> 'd BookMirror" where "slot = set_slot t (nat (?p - bm_min_px m)) ?q"
  have fin: "amt (slot x) = put_amt t ?p ?q (amt m) \<and> frame (slot x) = frame m" if "bm_bid_qty x = bm_bid_qty m" "bm_ask_qty x = bm_ask_qty m" "frame x = frame m" for x
  proof -
    have "shaped x" "bm_in_band x ?p" "amt x = amt m" "bm_min_px x = bm_min_px m"
      using that in_step_shaped [OF s] p bm_slots_cong [OF that(1,2)] by (auto simp: shaped_def frame_def bm_in_band_def amt_def qty_at_def fun_eq_iff)
    then show ?thesis using amt_set_slot [of x ?p t ?q] that(3) by (simp add: slot_def)
  qed
  have to: "bm_bid_qty (to_sink x ?m) = bm_bid_qty m" "bm_ask_qty (to_sink x ?m) = bm_ask_qty m" "frame (to_sink x ?m) = frame m" for x
    by (simp_all add: to_sink_def frame_def)
  note run = command_in_step [OF m(1,2) cq, where t = t and q = ?q, unfolded m, folded slot_def]
  note unf = set_level_def Let_def band cur
  consider (same) "?q = 0" "amt m t ?p = 0" | (cancel) "?q = 0" "amt m t ?p \<noteq> 0" | (add) "?q \<noteq> 0" "amt m t ?p = 0"
    | (amend) "?q \<noteq> 0" "amt m t ?p \<noteq> 0" by blast
  then show ?thesis
  proof cases
    case same
    have "in_step M (slot ?m)"
    proof -
      have "put_amt t ?p 0 (amt m) = amt m" using same by (auto simp: put_amt_def fun_eq_iff)
      then show ?thesis using m(1) fin [of ?m] same by (auto simp: in_step_def shaped_def slot_def frame_def)
    qed
    then show ?thesis using same fin [of ?m] by (auto simp: unf slot_def frame_def)
  next
    case cancel
    have "\<exists>x. ob_process ops (?c Cancel) (bm_book ?m) = Some x \<and> in_step M (slot (to_sink x ?m)) \<and> (?q \<noteq> 0 \<longrightarrow> ob_contains ops (id_for (?p - bm_min_px m) t) (fst x) = Some True)"
    proof (rule run)
      fix rb assume rb: "mirrored (amt m) rb" "rb_min_price rb = bm_min_px m"
      show "\<exists>b' evs. rb_process rb (?c Cancel) = (b', evs) \<and> mirrored (put_amt t ?p ?q (amt m)) b' \<and> quiet evs"
        unfolding cancel(1) by (rule mirror_cancel [OF rb(1) cancel(2)]) (simp_all add: rb)
    qed
    then show ?thesis using cancel fin [OF to] by (auto simp: unf slot_def ob_process_def)
  next
    case add
    then have g: "allow_add" "\<forall>p'. amt m (opposite t) p' \<noteq> 0 \<longrightarrow> \<not> in_range t ?p p'" "card {p. amt m Buy p \<noteq> 0} + card {p. amt m Sell p \<noteq> 0} < bm_max_orders m"
      using g by (auto simp: word_gt_0)
    have "\<exists>x. ob_process ops (?c NewOrder) (bm_book ?m) = Some x \<and> in_step M (slot (to_sink x ?m)) \<and> (?q \<noteq> 0 \<longrightarrow> ob_contains ops (id_for (?p - bm_min_px m) t) (fst x) = Some True)"
    proof (rule run)
      fix rb assume rb: "mirrored (amt m) rb" "rb_min_price rb = bm_min_px m" "rb_max_price rb = bm_min_px m + int (bm_n m) - 1" "rb_capacity rb = bm_max_orders m"
      have "\<exists>b' evs. rb_process rb (?c NewOrder) = (b', evs) \<and> mirrored (put_amt t ?p (c_qty (?c NewOrder)) (amt m)) b' \<and> quiet evs"
        by (rule mirror_add [OF rb(1) add(2)]) (use p add(1) g(2,3) mirrored_count(1) [OF rb(1)] in \<open>auto simp: rb bm_in_band_def\<close>)
      then show "\<exists>b' evs. rb_process rb (?c NewOrder) = (b', evs) \<and> mirrored (put_amt t ?p ?q (amt m)) b' \<and> quiet evs" by (simp only: level_command_fields)
    qed
    then obtain x where x: "ob_add ops (?c NewOrder) (bm_book m) = Some x" "in_step M (slot (to_sink x ?m))"
      "ob_contains ops (id_for (?p - bm_min_px m) t) (fst x) = Some True" using add(1) by (auto simp: ob_process_def)
    have "bm_book (to_sink x ?m) = fst x" by (simp add: to_sink_def)
    then have "set_level ops t u allow_add m = Some (slot (to_sink x ?m))" using add g(1) x(1,3) by (simp add: unf slot_def)
    then show ?thesis using x(2) fin [OF to] by blast
  next
    case amend
    have "\<exists>x. ob_process ops (?c Modify) (bm_book ?m) = Some x \<and> in_step M (slot (to_sink x ?m)) \<and> (?q \<noteq> 0 \<longrightarrow> ob_contains ops (id_for (?p - bm_min_px m) t) (fst x) = Some True)"
    proof (rule run)
      fix rb assume rb: "mirrored (amt m) rb" "rb_min_price rb = bm_min_px m"
      show "\<exists>b' evs. rb_process rb (?c Modify) = (b', evs) \<and> mirrored (put_amt t ?p ?q (amt m)) b' \<and> quiet evs"
      proof (cases "?q \<le> amt m t ?p")
        case True
        then show ?thesis using mirror_amend [OF rb(1) amend(2), of "?c Modify"] amend rb(2) by simp
      next
        case False
        then show ?thesis using mirror_grow [OF rb(1) amend(2), of "?c Modify"] g rb(2) by (simp add: not_le)
      qed
    qed
    then show ?thesis using amend fin [OF to] by (auto simp: unf slot_def ob_process_def)
  qed
qed

end

section \<open>Up to a book, and down to a meet\<close>

definition apart :: "amounts \<Rightarrow> bool" where
  "apart A \<longleftrightarrow> (\<forall>p p'. A Buy p \<noteq> 0 \<longrightarrow> A Sell p' \<noteq> 0 \<longrightarrow> p < p')"

definition level_count :: "amounts \<Rightarrow> nat" where
  "level_count A = card {p. A Buy p \<noteq> 0} + card {p. A Sell p \<noteq> 0}"

definition below :: "'d BookMirror \<Rightarrow> amounts \<Rightarrow> bool" where
  "below m T \<longleftrightarrow> (\<forall>t p. amt m t p \<le> T t p) \<and> apart T \<and> (\<forall>t. finite {p. T t p \<noteq> 0}) \<and> level_count T \<le> bm_max_orders m"

lemma belowD: "below m T \<Longrightarrow> amt m t p \<noteq> 0 \<Longrightarrow> T t p \<noteq> 0"
  by (metis below_def word_le_0_iff)

lemma apart_side: "apart A \<Longrightarrow> A t p \<noteq> 0 \<Longrightarrow> A (opposite t) p' \<noteq> 0 \<Longrightarrow> \<not> in_range t p p'"
  by (cases t) (force simp: apart_def)+

lemma below_count:
  assumes b: "below m T" and p: "amt m t p = 0" "T t p \<noteq> 0"
  shows "level_count (amt m) < bm_max_orders m"
proof -
  have sub: "{p. amt m t p \<noteq> 0} \<subseteq> {p. T t p \<noteq> 0}" for t using belowD [OF b] by auto
  have fin: "finite {p. T t p \<noteq> 0}" for t using b by (simp add: below_def)
  have le: "card {p. amt m t p \<noteq> 0} \<le> card {p. T t p \<noteq> 0}" for t by (rule card_mono [OF fin sub])
  have "{p. amt m t p \<noteq> 0} \<subset> {p. T t p \<noteq> 0}" using sub p by blast
  then have "card {p. amt m t p \<noteq> 0} < card {p. T t p \<noteq> 0}" by (rule psubset_card_mono [OF fin])
  then have "level_count (amt m) < level_count T" using le [of Buy] le [of Sell] by (cases t) (simp_all add: level_count_def)
  then show ?thesis using b by (simp add: below_def)
qed

text \<open>Every update names a level of a book.\<close>

definition names :: "nat \<Rightarrow> (Side \<times> LevelUpdate) list \<Rightarrow> amounts \<Rightarrow> bool" where
  "names M us T \<longleftrightarrow> (\<forall>(t, u) \<in> set us. T t (lu_px u) = lu_qty u \<and> unat (lu_qty u) \<le> M)"

definition named :: "(Side \<times> LevelUpdate) list \<Rightarrow> Side \<Rightarrow> Price \<Rightarrow> bool" where
  "named us t p \<longleftrightarrow> (\<exists>u. (t, u) \<in> set us \<and> lu_px u = p)"

lemma names_Cons: "names M ((t, u) # us) T \<longleftrightarrow> T t (lu_px u) = lu_qty u \<and> unat (lu_qty u) \<le> M \<and> names M us T"
  by (simp add: names_def)

lemma named_simps: "\<not> named [] t p" "named ((t', u) # us) t p \<longleftrightarrow> t' = t \<and> lu_px u = p \<or> named us t p"
  by (auto simp: named_def)

definition clip :: "'d BookMirror \<Rightarrow> amounts \<Rightarrow> amounts" where
  "clip m E t p = (if bm_in_band m p then E t p else 0)"

lemma clip_frame: "frame m' = frame m \<Longrightarrow> clip m' E = clip m E"
  using bm_in_band_frame [of m' m] by (simp add: clip_def fun_eq_iff)

context order_store
begin

lemma grow_step:
  assumes s: "in_step M m" and b: "below m T" and u: "bm_in_band m (lu_px u)" "T t (lu_px u) = lu_qty u" "unat (lu_qty u) \<le> M"
  shows "\<exists>m'. set_level ops t u True m = Some m' \<and> in_step M m' \<and> amt m' = put_amt t (lu_px u) (lu_qty u) (amt m) \<and> frame m' = frame m \<and> below m' T"
proof -
  have "apart T" using b by (simp add: below_def)
  have "\<exists>m'. set_level ops t u True m = Some m' \<and> in_step M m' \<and> amt m' = put_amt t (lu_px u) (lu_qty u) (amt m) \<and> frame m' = frame m"
  proof (rule set_level_in_step [OF s u(1,3)])
    assume "amt m t (lu_px u) < lu_qty u"
    then have q: "T t (lu_px u) \<noteq> 0" using u(2) by (metis word_not_simps(1))
    have "\<forall>p'. amt m (opposite t) p' \<noteq> 0 \<longrightarrow> \<not> in_range t (lu_px u) p'" using belowD [OF b] apart_side [OF \<open>apart T\<close> q] by blast
    then show "True \<and> (\<forall>p'. amt m (opposite t) p' \<noteq> 0 \<longrightarrow> \<not> in_range t (lu_px u) p') \<and>
      (amt m t (lu_px u) = 0 \<longrightarrow> card {p. amt m Buy p \<noteq> 0} + card {p. amt m Sell p \<noteq> 0} < bm_max_orders m)"
      using below_count [OF b _ q] by (simp add: level_count_def)
  qed
  then obtain m' where m': "set_level ops t u True m = Some m'" "in_step M m'" "amt m' = put_amt t (lu_px u) (lu_qty u) (amt m)" "frame m' = frame m" by blast
  moreover have "below m' T" using b u(2) m'(3,4) by (auto simp: below_def frame_def)
  ultimately show ?thesis by blast
qed

lemma grow_clip:
  assumes "in_step M m" "below m (clip m T)" "bm_in_band m (lu_px u)" "T t (lu_px u) = lu_qty u" "unat (lu_qty u) \<le> M"
  shows "\<exists>m'. set_level ops t u True m = Some m' \<and> in_step M m' \<and> amt m' = put_amt t (lu_px u) (lu_qty u) (amt m) \<and> frame m' = frame m \<and> below m' (clip m' T)"
proof -
  have "clip m T t (lu_px u) = lu_qty u" using assms by (simp add: clip_def)
  then show ?thesis using grow_step [OF assms(1-3) _ assms(5)] clip_frame by metis
qed

lemma rise:
  assumes "in_step M m" and "below m (clip m T)" and "names M us T"
  shows "\<exists>m'. touches ops 1 0 us m = Some m' \<and> in_step M m' \<and> frame m' = frame m \<and>
    (\<forall>t p. amt m' t p = (if named us t p \<and> bm_in_band m p then T t p else amt m t p))"
  using assms
proof (induction us arbitrary: m)
  case (Cons x us)
  obtain t u where x: "x = (t, u)" by (rule prod.exhaust)
  have n: "T t (lu_px u) = lu_qty u" "unat (lu_qty u) \<le> M" "names M us T" using Cons.prems(3) by (simp_all add: x names_Cons)
  show ?case
  proof (cases "bm_in_band m (lu_px u)")
    case False
    then have "touch ops 1 0 t u m = Some m" by (auto simp: touch_def bm_in_band_def Let_def)
    then show ?thesis using Cons.IH [OF Cons.prems(1,2) n(3)] False by (auto simp: x named_simps)
  next
    case True
    obtain m1 where m1: "set_level ops t u True m = Some m1" "in_step M m1" "amt m1 = put_amt t (lu_px u) (lu_qty u) (amt m)" "frame m1 = frame m" "below m1 (clip m1 T)"
      using grow_clip [OF Cons.prems(1,2) True n(1,2)] by blast
    have "\<not> lu_qty u < amt m t (lu_px u)" using Cons.prems(2) n(1) True by (metis below_def clip_def not_le)
    then have "touch ops 1 0 t u m = Some m1" using True m1(1) amt_in [OF True] by (auto simp: touch_def bm_in_band_def Let_def)
    then show ?thesis using Cons.IH [OF m1(2,5) n(3)] m1(3,4) bm_in_band_frame [OF m1(4)] n(1) True by (auto simp: x named_simps)
  qed
qed (auto simp: named_simps)

lemma rise_side:
  assumes "in_step M m" and "below m (clip m T)" and "names M (map (Pair t) us) T"
  shows "\<exists>m'. bm_set_levels ops t us m = Some m' \<and> in_step M m' \<and> frame m' = frame m \<and> below m' (clip m T) \<and>
    (\<forall>t' p. amt m' t' p = (if named (map (Pair t) us) t' p \<and> bm_in_band m p then T t' p else amt m t' p))"
  using assms
proof (induction us arbitrary: m)
  case (Cons u us)
  have n: "T t (lu_px u) = lu_qty u" "unat (lu_qty u) \<le> M" "names M (map (Pair t) us) T" using Cons.prems(3) by (simp_all add: names_Cons)
  show ?case
  proof (cases "bm_in_band m (lu_px u)")
    case False
    let ?m = "m\<lparr>bm_out_of_band := bm_out_of_band m + 1\<rparr>"
    have "set_level ops t u True m = Some ?m" using False by (auto simp: set_level_def bm_in_band_def Let_def)
    moreover have "in_step M ?m" "below ?m (clip ?m T)" "clip ?m T = clip m T" using Cons.prems clip_frame [of ?m m T] by (simp_all add: below_def frame_def)
    ultimately show ?thesis using Cons.IH [of ?m] n(3) False by (auto simp: named_simps frame_def)
  next
    case True
    obtain m1 where m1: "set_level ops t u True m = Some m1" "in_step M m1" "amt m1 = put_amt t (lu_px u) (lu_qty u) (amt m)" "frame m1 = frame m" "below m1 (clip m1 T)"
      using grow_clip [OF Cons.prems(1,2) True n(1,2)] by blast
    then show ?thesis using Cons.IH [OF m1(2,5) n(3)] m1(1,3,4) bm_in_band_frame [OF m1(4)] clip_frame [OF m1(4)] n(1) True by (auto simp: named_simps)
  qed
qed (auto simp: named_simps)

lemma descend:
  assumes "in_step M m" and "names M us T"
  shows "\<exists>m'. touches ops 0 0 us m = Some m' \<and> in_step M m' \<and> frame m' = frame m \<and>
    (\<forall>t p. amt m' t p = (if named us t p then min (amt m t p) (T t p) else amt m t p))"
  using assms
proof (induction us arbitrary: m)
  case (Cons x us)
  obtain t u where x: "x = (t, u)" by (rule prod.exhaust)
  have n: "T t (lu_px u) = lu_qty u" "unat (lu_qty u) \<le> M" "names M us T" using Cons.prems(2) by (simp_all add: x names_Cons)
  have "\<exists>m1. touch ops 0 0 t u m = Some m1 \<and> in_step M m1 \<and> frame m1 = frame m \<and> amt m1 = put_amt t (lu_px u) (min (amt m t (lu_px u)) (lu_qty u)) (amt m)"
  proof (cases "bm_in_band m (lu_px u)")
    case False
    then have "touch ops 0 0 t u m = Some (m\<lparr>bm_out_of_band := bm_out_of_band m + 1\<rparr>)" "amt m t (lu_px u) = 0"
      using amt_band by (auto simp: touch_def bm_in_band_def Let_def) 
    then show ?thesis using Cons.prems(1) by (auto simp: frame_def fun_eq_iff)
  next
    case True
    note t = touch_def Let_def amt_in [OF True]
    have i: "\<not> lu_px u < bm_min_px m" "\<not> int (bm_n m) \<le> lu_px u - bm_min_px m" using True by (auto simp: bm_in_band_def)
    show ?thesis
    proof (cases "lu_qty u < amt m t (lu_px u)")
      case True
      have "\<exists>m'. set_level ops t u False m = Some m' \<and> in_step M m' \<and> amt m' = put_amt t (lu_px u) (lu_qty u) (amt m) \<and> frame m' = frame m"
        using True by (intro set_level_in_step Cons.prems(1) \<open>bm_in_band m (lu_px u)\<close> n(2)) auto
      then show ?thesis using True i by (auto simp: t min_def)
    next
      case False
      then have "put_amt t (lu_px u) (min (amt m t (lu_px u)) (lu_qty u)) (amt m) = amt m" by (auto simp: fun_eq_iff min_def)
      then show ?thesis using False i Cons.prems(1) by (simp add: t)
    qed
  qed
  then obtain m1 where m1: "touch ops 0 0 t u m = Some m1" "in_step M m1" "frame m1 = frame m"
    "amt m1 = put_amt t (lu_px u) (min (amt m t (lu_px u)) (lu_qty u)) (amt m)" by blast
  then show ?case using Cons.IH [OF m1(2) n(3)] n(1) by (auto simp: x named_simps)
qed (auto simp: named_simps)

end

section \<open>The exchange's book\<close>

text \<open>A snapshot states the book, a diff the new totals of the levels that changed.\<close>

definition put_levels :: "(Side \<times> LevelUpdate) list \<Rightarrow> amounts \<Rightarrow> amounts" where
  "put_levels us E = foldl (\<lambda>E (t, u). put_amt t (lu_px u) (lu_qty u) E) E us"

definition disclose :: "amounts \<Rightarrow> MdRecord \<Rightarrow> amounts" where
  "disclose E r = put_levels (diff_updates r) (if cr_kind r = SnapshotRec then (\<lambda>_ _. 0) else E)"

definition venue :: "MdRecord list \<Rightarrow> amounts" where
  "venue rs = foldl disclose (\<lambda>_ _. 0) rs"

text \<open>A record names a level once; the engine has room for the totals and for the number of levels in the band; and the exchange's book is not crossed.\<close>

definition sound_record :: "nat \<Rightarrow> MdRecord \<Rightarrow> bool" where
  "sound_record M r \<longleftrightarrow> distinct (map (\<lambda>(t, u). (t, lu_px u)) (diff_updates r)) \<and> (\<forall>(t, u) \<in> set (diff_updates r). unat (lu_qty u) \<le> M)"

definition fits :: "'d BookMirror \<Rightarrow> amounts \<Rightarrow> bool" where
  "fits m E \<longleftrightarrow> apart (clip m E) \<and> level_count (clip m E) \<le> bm_max_orders m"

text \<open>The caller feeds the mirror the snapshots it seeds from and the diffs after them.\<close>

definition bm_feed :: "'d store_ops \<Rightarrow> (OrderId \<Rightarrow> nat \<Rightarrow> u32) \<Rightarrow> MdRecord \<Rightarrow> 'd BookMirror \<Rightarrow> 'd BookMirror option" where
  "bm_feed ops h r m = (if cr_kind r = SnapshotRec then bm_seed ops h r m else bm_apply ops r 0 m)"

primrec bm_feeds :: "'d store_ops \<Rightarrow> (OrderId \<Rightarrow> nat \<Rightarrow> u32) \<Rightarrow> MdRecord list \<Rightarrow> 'd BookMirror \<Rightarrow> 'd BookMirror option" where
  "bm_feeds ops h [] m = Some m"
| "bm_feeds ops h (r # rs) m = Option.bind (bm_feed ops h r m) (bm_feeds ops h rs)"

lemma top_take_from:
  "distinct (map fst xs) \<Longrightarrow> out \<noteq> [] \<longrightarrow> lu_px (last out) \<notin> fst ` set xs \<Longrightarrow> length out \<le> k \<Longrightarrow>
   foldl (top_add k) out xs = out @ take (k - length out) (map (\<lambda>(p, _, q). \<lparr>lu_px = p, lu_qty = q\<rparr>) xs)"
proof (induction xs arbitrary: out)
  case (Cons x xs)
  obtain p i q where x: "x = (p, i, q)" by (rule prod_cases3)
  have ne: "\<not> (out \<noteq> [] \<and> lu_px (last out) = p)" using Cons.prems(2) by (auto simp: x)
  show ?case
  proof (cases "length out < k")
    case True
    then show ?thesis using Cons.IH [of "out @ [\<lparr>lu_px = p, lu_qty = q\<rparr>]"] Cons.prems ne
      by (auto simp: x take_Cons' Suc_diff_Suc)
  next
    case False
    then show ?thesis using Cons.IH [of out] Cons.prems ne by (auto simp: x)
  qed
qed simp

lemma top_take: "distinct (map fst xs) \<Longrightarrow> foldl (top_add k) [] xs = take k (map (\<lambda>(p, _, q). \<lparr>lu_px = p, lu_qty = q\<rparr>) xs)"
  using top_take_from [of xs "[]" k] by simp

lemma put_levels_simps: "put_levels [] E = E" "put_levels ((t, u) # us) E = put_levels us (put_amt t (lu_px u) (lu_qty u) E)"
  by (simp_all add: put_levels_def)

lemma put_levels_other: "\<not> named us t p \<Longrightarrow> put_levels us E t p = E t p"
  by (induction us arbitrary: E) (auto simp: put_levels_simps named_simps)

lemma put_levels_named:
  "distinct (map (\<lambda>(t, u). (t, lu_px u)) us) \<Longrightarrow> (t, u) \<in> set us \<Longrightarrow> put_levels us E t (lu_px u) = lu_qty u"
proof (induction us arbitrary: E)
  case (Cons x us)
  obtain t' u' where x: "x = (t', u')" by (rule prod.exhaust)
  show ?case
  proof (cases "(t, u) \<in> set us")
    case False
    then have "t' = t" "u' = u" "\<not> named us t (lu_px u)" using Cons.prems by (auto simp: x named_def rev_image_eqI)
    then show ?thesis by (simp add: x put_levels_simps put_levels_other)
  qed (use Cons in \<open>simp add: x put_levels_simps\<close>)
qed simp

lemma sound_names: "sound_record M r \<Longrightarrow> names M (diff_updates r) (disclose E r)"
  by (auto simp: sound_record_def names_def disclose_def put_levels_named)

lemma disclose_other: "\<not> named (diff_updates r) t p \<Longrightarrow> disclose E r t p = (if cr_kind r = SnapshotRec then 0 else E t p)"
  by (simp add: disclose_def put_levels_other)

lemma clip_finite: "finite {p. clip m E t p \<noteq> 0}"
  by (rule finite_subset [of _ "{bm_min_px m ..< bm_min_px m + int (bm_n m)}"]) (auto simp: clip_def bm_in_band_def split: if_splits)

lemma fits_frame: "frame m' = frame m \<Longrightarrow> fits m' E = fits m E"
  using clip_frame [of m' m E] by (simp add: fits_def frame_def)

lemma below_fits: "fits m E \<Longrightarrow> (\<And>t p. amt m t p \<le> clip m E t p) \<Longrightarrow> below m (clip m E)"
  by (simp add: below_def fits_def clip_finite)

lemma named_append: "named (us @ vs) t p \<longleftrightarrow> named us t p \<or> named vs t p"
  by (auto simp: named_def)

context order_store
begin

lemma apply_follows:
  assumes s: "in_step M m" "amt m = clip m E" and r: "sound_record M r" "cr_kind r \<noteq> SnapshotRec" and f: "fits m (disclose E r)"
  shows "\<exists>m'. bm_apply ops r 0 m = Some m' \<and> in_step M m' \<and> frame m' = frame m \<and> amt m' = clip m (disclose E r)"
proof -
  let ?T = "disclose E r" and ?us = "diff_updates r"
  obtain m1 where m1: "touches ops 0 0 ?us m = Some m1" "in_step M m1" "frame m1 = frame m"
    and a1: "\<And>t p. amt m1 t p = (if named ?us t p then min (amt m t p) (?T t p) else amt m t p)"
    using descend [OF s(1) sound_names [OF r(1), of E]] by blast
  have old: "amt m t p = clip m ?T t p" if "\<not> named ?us t p" for t p using that s(2) r(2) by (simp add: clip_def disclose_other)
  have "below m1 (clip m1 ?T)"
  proof (rule below_fits)
    show "fits m1 ?T" using f fits_frame [OF m1(3)] by blast
    show "amt m1 t p \<le> clip m1 ?T t p" for t p
      using old [of t p] s(2) bm_in_band_frame [OF m1(3), of p] by (cases "bm_in_band m p"; cases "named ?us t p") (simp_all add: a1 clip_def)
  qed
  then obtain m2 where "touches ops 1 0 ?us m1 = Some m2" "in_step M m2" "frame m2 = frame m1"
    and a2: "\<And>t p. amt m2 t p = (if named ?us t p \<and> bm_in_band m1 p then ?T t p else amt m1 t p)"
    using rise [OF m1(2) _ sound_names [OF r(1)]] by blast
  moreover have "amt m2 t p = clip m ?T t p" for t p
    using old [of t p] s(2) bm_in_band_frame [OF m1(3), of p] by (auto simp: a1 a2 clip_def)
  ultimately show ?thesis using m1 by (auto simp: bm_apply_def fun_eq_iff)
qed

lemma fresh_in_step:
  assumes "shaped m" and "\<forall>t p. amt m t p = 0" and "new_book ops h (bm_min_px m) (bm_n m) (bm_max_orders m) = Some (bm_book m)" and "bm_sink m = cs_init"
    and "bm_max_orders m * M < 2 ^ 64"
  shows "in_step M m"
  unfolding in_step_def
proof (intro conjI exI)
  let ?cfg = "mirror_config (bm_min_px m) (bm_n m) (bm_max_orders m)"
  show "book_rel M (bm_book m) (rb_init 0 ?cfg)"
    by (rule book_rel_init) (use assms in \<open>simp_all add: new_book_def mirror_config_def\<close>)
  show "mirrored (amt m) (rb_init 0 ?cfg)"
    using assms(1,2) rb_init_inv [of 0 ?cfg] by (simp add: mirrored_def rb_init_levels) (simp add: rb_init_def mirror_config_def shaped_def)
qed (use assms quiet_sink_init in \<open>simp_all add: rb_init_def mirror_config_def\<close>)

lemma seed_follows:
  assumes s: "shaped m" "new_book ops h (bm_min_px m) (bm_n m) (bm_max_orders m) \<noteq> None" "bm_max_orders m * M < 2 ^ 64"
    and r: "sound_record M r" "cr_kind r = SnapshotRec" and f: "fits m (disclose E r)"
  shows "\<exists>m'. bm_seed ops h r m = Some m' \<and> in_step M m' \<and> frame m' = frame m \<and> amt m' = clip m (disclose E r)"
proof -
  let ?T = "disclose E r" and ?bs = "map (Pair Buy) (cr_bids r)" and ?as = "map (Pair Sell) (cr_asks r)"
  obtain b where b: "new_book ops h (bm_min_px m) (bm_n m) (bm_max_orders m) = Some b" using s(2) by blast
  define m0 where "m0 = m\<lparr>bm_bid_qty := replicate (length (bm_bid_qty m)) 0, bm_ask_qty := replicate (length (bm_ask_qty m)) 0, bm_book := b, bm_sink := cs_init\<rparr>"
  have len: "length (bm_bid_qty m) = bm_n m" "length (bm_ask_qty m) = bm_n m" using s(1) bm_slots.simps unfolding shaped_def by metis+
  have sl: "bm_slots t m0 = replicate (bm_n m) 0" for t by (cases t) (simp_all add: m0_def len)
  have fr: "frame m0 = frame m" by (simp add: m0_def frame_def)
  have z: "amt m0 t p = 0" for t p using fr by (auto simp: amt_def qty_at_def sl bm_in_band_def frame_def)
  have i0: "in_step M m0"
    by (rule fresh_in_step [where h = h]) (use s sl z b fr in \<open>simp_all add: shaped_def frame_def\<close>, simp_all add: m0_def)
  have ns: "names M ?bs ?T" "names M ?as ?T" using sound_names [OF r(1), of E] by (auto simp: names_def diff_updates_def)
  have "below m0 (clip m0 ?T)" by (rule below_fits) (use f fits_frame [OF fr] z in \<open>simp_all\<close>)
  then obtain m1 where m1: "bm_set_levels ops Buy (cr_bids r) m0 = Some m1" "in_step M m1" "frame m1 = frame m0" "below m1 (clip m0 ?T)"
    and a1: "\<And>t p. amt m1 t p = (if named ?bs t p \<and> bm_in_band m0 p then ?T t p else amt m0 t p)"
    using rise_side [OF i0 _ ns(1)] by blast
  obtain m2 where m2: "bm_set_levels ops Sell (cr_asks r) m1 = Some m2" "in_step M m2" "frame m2 = frame m1"
    and a2: "\<And>t p. amt m2 t p = (if named ?as t p \<and> bm_in_band m1 p then ?T t p else amt m1 t p)"
    using rise_side [OF m1(2) _ ns(2)] m1(4) clip_frame [OF m1(3), of ?T] by auto
  have "amt m2 t p = clip m ?T t p" for t p
    using disclose_other [of r t p E] r(2) z bm_in_band_frame [OF fr, of p] bm_in_band_frame [OF m1(3), of p]
    by (auto simp: a1 a2 clip_def diff_updates_def named_append)
  moreover have "reset_book ops h (m\<lparr>bm_bid_qty := replicate (length (bm_bid_qty m)) 0, bm_ask_qty := replicate (length (bm_ask_qty m)) 0\<rparr>) = Some m0"
    using b by (simp add: reset_book_def m0_def)
  ultimately show ?thesis
    using m1 m2 fr horizons_free by (auto simp: bm_seed_def Let_def fun_eq_iff)
qed

lemma feed_follows:
  assumes "in_step M m" "amt m = clip m E" "new_book ops h (bm_min_px m) (bm_n m) (bm_max_orders m) \<noteq> None" "bm_max_orders m * M < 2 ^ 64"
    and "sound_record M r" "fits m (disclose E r)"
  shows "\<exists>m'. bm_feed ops h r m = Some m' \<and> in_step M m' \<and> frame m' = frame m \<and> amt m' = clip m (disclose E r)"
  using apply_follows [OF assms(1,2,5) _ assms(6)] seed_follows [OF in_step_shaped [OF assms(1)] assms(3,4,5) _ assms(6)]
  by (cases "cr_kind r = SnapshotRec") (simp_all add: bm_feed_def)

lemma feeds_follow:
  assumes "in_step M m" "amt m = clip m E" "new_book ops h (bm_min_px m) (bm_n m) (bm_max_orders m) \<noteq> None" "bm_max_orders m * M < 2 ^ 64"
    and "\<forall>r \<in> set rs. sound_record M r" and "\<forall>k \<le> length rs. fits m (foldl disclose E (take k rs))"
  shows "\<exists>m'. bm_feeds ops h rs m = Some m' \<and> in_step M m' \<and> frame m' = frame m \<and> amt m' = clip m (foldl disclose E rs)"
  using assms
proof (induction rs arbitrary: m E)
  case (Cons r rs)
  have f: "fits m (foldl disclose (disclose E r) (take k rs))" if "k \<le> length rs" for k
    using Cons.prems(6) that by (metis Suc_le_mono foldl_Cons length_Cons take_Suc_Cons)
  have "sound_record M r" using Cons.prems(5) by simp
  then obtain m1 where m1: "bm_feed ops h r m = Some m1" "in_step M m1" "frame m1 = frame m" "amt m1 = clip m (disclose E r)"
    using feed_follows [OF Cons.prems(1-4), of r] f [of 0] by auto
  have c: "clip m1 F = clip m F" "fits m1 F = fits m F" for F using clip_frame [OF m1(3)] fits_frame [OF m1(3)] by blast+
  have fr: "bm_min_px m1 = bm_min_px m" "bm_n m1 = bm_n m" "bm_max_orders m1 = bm_max_orders m" using m1(3) by (simp_all add: frame_def)
  have "\<exists>m'. bm_feeds ops h rs m1 = Some m' \<and> in_step M m' \<and> frame m' = frame m1 \<and> amt m' = clip m1 (foldl disclose (disclose E r) rs)"
    by (rule Cons.IH) (use m1 c f Cons.prems(3-5) in \<open>simp_all add: fr\<close>)
  then show ?case using m1(1,3) by (simp add: c)
qed simp

text \<open>What a mirror in step shows of its book.\<close>

lemma in_step_levels:
  assumes "in_step M m"
  shows "\<exists>lv. ob_for_each_level t (bm_book m) = Some lv \<and> sorted_wrt (px_before t) (map fst lv) \<and> set lv = {(p, q). q = qty_at t p m \<and> q \<noteq> 0} \<and>
    (\<forall>k. bm_top ops t k False m = Some (map (\<lambda>(p, q). \<lparr>lu_px = p, lu_qty = q\<rparr>) (take k lv)))"
proof -
  obtain rb where rb: "book_rel M (bm_book m) rb" "mirrored (amt m) rb" using assms by (auto simp: in_step_def)
  obtain n Q F where R: "refines n Q F (bm_book m) rb" using rb(1) by (auto simp: book_rel_def)
  let ?ls = "rb_levels t rb"
  let ?lv = "map (\<lambda>(p, q). (p, rb_level_qty q)) ?ls"
  note one = mirrored_in [OF rb(2), of _ _ t]
  have lo: "levels_ok t ?ls" using rb(2) by (simp add: mirrored_def rb_invD(1))
  have mf: "map fst ?lv = map fst ?ls" by (simp add: comp_def case_prod_beta)
  have q: "rb_level_qty q = amt m t p" if "(p, q) \<in> set ?ls" for p q using that one by (simp add: rb_level_qty_def lone_def)
  have os: "rb_for_each_order rb t = map (\<lambda>(p, q). (p, ro_id (hd q), ro_qty (hd q))) ?ls"
  proof -
    have "orders lv = map (\<lambda>(p, q). (p, hd q)) lv" if "\<forall>(p, q) \<in> set lv. length q = 1" for lv
      using that by (induction lv) (auto simp: length_Suc_conv)
    moreover have "\<forall>(p, q) \<in> set ?ls. length q = 1" using one by auto
    ultimately show ?thesis by (simp add: rb_for_each_order_def comp_def case_prod_beta)
  qed
  have hd: "map (\<lambda>(p, q). \<lparr>lu_px = p, lu_qty = ro_qty (hd q)\<rparr>) ?ls = map (\<lambda>(p, q). \<lparr>lu_px = p, lu_qty = rb_level_qty q\<rparr>) ?ls"
    using one by (auto simp: rb_level_qty_def)
  have "bm_top ops t k False m = Some (map (\<lambda>(p, q). \<lparr>lu_px = p, lu_qty = q\<rparr>) (take k ?lv))" for k
  proof -
    have "foldl (top_add k) [] (rb_for_each_order rb t) = take k (map (\<lambda>(p, _, q). \<lparr>lu_px = p, lu_qty = q\<rparr>) (rb_for_each_order rb t))"
      by (rule top_take) (use mirrored_distinct [OF rb(2), of t] in \<open>simp add: os comp_def case_prod_beta\<close>)
    also have "\<dots> = map (\<lambda>(p, q). \<lparr>lu_px = p, lu_qty = q\<rparr>) (take k ?lv)"
      using hd by (auto simp: os comp_def case_prod_beta take_map dest: in_set_takeD)
    finally show ?thesis using for_each_agrees(1) [OF R, of t] by (simp add: bm_top_def)
  qed
  moreover have "set ?lv = {(p, q). q = qty_at t p m \<and> q \<noteq> 0}"
  proof -
    have "(p, v) \<in> set ?lv \<longleftrightarrow> v = amt m t p \<and> v \<noteq> 0" for p v
    proof
      assume "(p, v) \<in> set ?lv"
      then obtain l where "(p, l) \<in> set ?ls" "v = rb_level_qty l" by auto
      then show "v = amt m t p \<and> v \<noteq> 0" using q one by auto
    next
      assume v: "v = amt m t p \<and> v \<noteq> 0"
      then have "(p, [lone (amt m) (rb_min_price rb) t p]) \<in> set ?ls" using one by auto
      then show "(p, v) \<in> set ?lv" using q v by (auto intro: image_eqI [where x = "(p, [lone (amt m) (rb_min_price rb) t p])"])
    qed
    then show ?thesis by (auto simp: amt_def simp del: set_map)
  qed
  moreover have "sorted_wrt (px_before t) (map fst ?lv)" unfolding mf using lo by (simp add: levels_ok_def)
  ultimately show ?thesis using for_each_agrees(2) [OF R, of t] by blast
qed

end

section \<open>The mirror is the exchange's book\<close>

lemma init_in_step:
  assumes "bm_init HybridStore h center n mx = Some m0" and "n < 2 ^ 32" and "mx * M < 2 ^ 64"
  shows "hybrid.in_step M m0" "amt m0 = (\<lambda>_ _. 0)" "new_book HybridStore h (bm_min_px m0) (bm_n m0) (bm_max_orders m0) \<noteq> None" "bm_max_orders m0 = mx" "bm_book_full m0 = 0"
proof -
  obtain b where b: "new_book HybridStore h (center - int (n div 2)) n mx = Some b" using assms(1) by (auto simp: bm_init_def Let_def split: bind_splits)
  then have m0: "bm_min_px m0 = center - int (n div 2)" "bm_n m0 = n" "bm_max_orders m0 = mx" "bm_book m0 = b" "bm_sink m0 = cs_init" "bm_book_full m0 = 0"
      "bm_bid_qty m0 = replicate n 0" "bm_ask_qty m0 = replicate n 0"
    using assms(1) by (auto simp: bm_init_def Let_def)
  have sl: "bm_slots t m0 = replicate n 0" for t using m0 by (cases t) simp_all
  show z: "amt m0 = (\<lambda>_ _. 0)" using m0 by (auto simp: amt_def qty_at_def bm_in_band_def fun_eq_iff sl)
  show "hybrid.in_step M m0"
    by (rule hybrid.fresh_in_step [where h = h]) (use m0 b assms(2,3) z sl in \<open>simp_all add: shaped_def\<close>)
  show "new_book HybridStore h (bm_min_px m0) (bm_n m0) (bm_max_orders m0) \<noteq> None" "bm_max_orders m0 = mx" "bm_book_full m0 = 0" using m0 b by simp_all
qed

text \<open>
  C16. The promise of \<^verbatim>\<open>md_mirror.hpp\<close>. Feed a new mirror any snapshots and diffs such that no record names a level twice, the totals and the number of levels in the
  band fit the engine, and the exchange's book is uncrossed after every record. Then every record is processed; the mirror's quantities are the exchange's at every
  price of the band; the engine's book has exactly these levels, best first, and \<^verbatim>\<open>top\<close> lists the best of them; and the engine never traded, never rejected a
  command and never ran out of room, although one diff may move the whole book through its old touch.
\<close>

theorem mirror_follows_exchange:
  assumes "bm_init HybridStore h center n mx = Some m0" and "n < 2 ^ 32"
    and "\<forall>r \<in> set rs. sound_record M r" and "mx * M < 2 ^ 64"
    and "\<forall>k \<le> length rs. fits m0 (venue (take k rs))"
  shows "\<exists>m. bm_feeds HybridStore h rs m0 = Some m \<and> (\<forall>t p. qty_at t p m = (if bm_in_band m0 p then venue rs t p else 0)) \<and>
    (\<forall>t. \<exists>lv. ob_for_each_level t (bm_book m) = Some lv \<and> sorted_wrt (px_before t) (map fst lv) \<and>
      set lv = {(p, q). bm_in_band m0 p \<and> q = venue rs t p \<and> q \<noteq> 0} \<and>
      (\<forall>k. bm_top HybridStore t k False m = Some (map (\<lambda>(p, q). \<lparr>lu_px = p, lu_qty = q\<rparr>) (take k lv)))) \<and>
    phantom_trades m = 0 \<and> mirror_rejects m = 0 \<and> bm_book_full m = 0"
proof -
  note I = init_in_step [OF assms(1,2,4)]
  obtain m where m: "bm_feeds HybridStore h rs m0 = Some m" "hybrid.in_step M m" "frame m = frame m0" "amt m = clip m0 (venue rs)"
  proof -
    have "amt m0 = clip m0 (\<lambda>_ _. 0)" by (simp add: I(2) clip_def fun_eq_iff)
    from hybrid.feeds_follow [OF I(1) this I(3) _ assms(3)] assms(4,5) I(4) show ?thesis using that by (auto simp: venue_def)
  qed
  have q: "qty_at t p m = (if bm_in_band m0 p then venue rs t p else 0)" for t p using m(4) by (metis amt_def clip_def)
  have "phantom_trades m = 0" "mirror_rejects m = 0" using m(2) by (simp_all add: hybrid.in_step_def quiet_sink_def phantom_trades_def mirror_rejects_def)
  moreover have "bm_book_full m = 0" using m(3) I(5) by (simp add: frame_def)
  moreover have "{(p, v). v = qty_at t p m \<and> v \<noteq> 0} = {(p, v). bm_in_band m0 p \<and> v = venue rs t p \<and> v \<noteq> 0}" for t by (auto simp: q split: if_splits)
  then have "\<exists>lv. ob_for_each_level t (bm_book m) = Some lv \<and> sorted_wrt (px_before t) (map fst lv) \<and> set lv = {(p, q). bm_in_band m0 p \<and> q = venue rs t p \<and> q \<noteq> 0} \<and>
    (\<forall>k. bm_top HybridStore t k False m = Some (map (\<lambda>(p, q). \<lparr>lu_px = p, lu_qty = q\<rparr>) (take k lv)))" for t
    using hybrid.in_step_levels [OF m(2), of t] by simp
  ultimately show ?thesis using m(1) q by blast
qed

text \<open>A market that ticks up in one diff: the old ask disappears and a bid appears at its price.\<close>

definition level_image :: "int \<times> u64 \<Rightarrow> bytes" where
  "level_image pq = put_le 8 (of_int (fst pq) :: u64) @ put_le 8 (snd pq)"

definition snap0 :: MdRecord where
  "snap0 = (blank_record SnapshotRec 1)\<lparr>cr_last_id := 7, cr_n_bids := 1, cr_n_asks := 1, cr_levels := level_image (100, 5) @ level_image (101, 3)\<rparr>"

definition diff0 :: MdRecord where
  "diff0 = (blank_record DiffRec 2)\<lparr>cr_first_id := 8, cr_last_id := 9, cr_n_bids := 1, cr_n_asks := 2,
     cr_levels := level_image (101, 4) @ level_image (101, 0) @ level_image (102, 6)\<rparr>"

lemma updates0:
  "diff_updates snap0 = [(Buy, \<lparr>lu_px = 100, lu_qty = 5\<rparr>), (Sell, \<lparr>lu_px = 101, lu_qty = 3\<rparr>)]"
  "diff_updates diff0 = [(Buy, \<lparr>lu_px = 101, lu_qty = 4\<rparr>), (Sell, \<lparr>lu_px = 101, lu_qty = 0\<rparr>), (Sell, \<lparr>lu_px = 102, lu_qty = 6\<rparr>)]"
  using le_at_put(3) [of _ "[]"]
  by (simp_all add: diff_updates_def cr_bids_def cr_asks_def cr_bid_def cr_ask_def cr_level_def snap0_def diff0_def level_image_def blank_record_def sizeof_LevelUpdate_def
    i64_at_def upt_rec)

lemma level_count_le:
  assumes "\<And>p. A Buy p \<noteq> 0 \<Longrightarrow> p \<in> set bs" and "\<And>p. A Sell p \<noteq> 0 \<Longrightarrow> p \<in> set as"
  shows "level_count A \<le> length bs + length as"
proof -
  have "card {p. A Buy p \<noteq> 0} \<le> card (set bs)" "card {p. A Sell p \<noteq> 0} \<le> card (set as)" using assms by (auto intro!: card_mono)
  then show ?thesis using card_length [of bs] card_length [of as] by (simp add: level_count_def)
qed

theorem mirror_follows_exchange_witness:
  "\<exists>m. bm_feeds HybridStore scatter_fingerprint [snap0, diff0] (the (bm_init HybridStore scatter_fingerprint 100 64 4)) = Some m \<and>
    qty_at Buy 101 m = 4 \<and> qty_at Sell 101 m = 0 \<and> qty_at Sell 102 m = 6 \<and> phantom_trades m = 0"
proof -
  obtain m0 where m0: "bm_init HybridStore scatter_fingerprint 100 64 4 = Some m0" "bm_min_px m0 = 68" "bm_n m0 = 64" "bm_max_orders m0 = 4"
    by (simp add: bm_init_def new_book_def mirror_config_def ob_init_def pb_init_def kNil_def)
  have snd: "\<forall>r \<in> set [snap0, diff0]. sound_record 10 r" by (simp add: sound_record_def updates0)
  have k: "cr_kind snap0 = SnapshotRec" "cr_kind diff0 \<noteq> SnapshotRec" by (simp_all add: snap0_def diff0_def blank_record_def)
  have v1: "venue [snap0] = put_amt Sell 101 3 (put_amt Buy 100 5 (\<lambda>_ _. 0))" by (simp add: venue_def disclose_def updates0 put_levels_simps k)
  have v2: "venue [snap0, diff0] = put_amt Sell 102 6 (put_amt Sell 101 0 (put_amt Buy 101 4 (venue [snap0])))"
    unfolding v1 by (simp add: venue_def disclose_def updates0 put_levels_simps k)
  have "fits m0 (venue [])" by (simp add: fits_def venue_def apart_def clip_def level_count_def)
  moreover have "level_count (clip m0 (venue [snap0])) \<le> length [100 :: int] + length [101 :: int]"
    by (rule level_count_le) (auto simp: clip_def v1 split: if_splits)
  then have "fits m0 (venue [snap0])" using m0(4) by (simp add: fits_def) (auto simp: apart_def clip_def v1 split: if_splits)
  moreover have "level_count (clip m0 (venue [snap0, diff0])) \<le> length [100, 101 :: int] + length [102 :: int]"
    by (rule level_count_le) (auto simp: clip_def v1 v2 split: if_splits)
  then have "fits m0 (venue [snap0, diff0])" using m0(4) by (simp add: fits_def) (auto simp: apart_def clip_def v1 v2 split: if_splits)
  ultimately have "\<forall>k \<le> length [snap0, diff0]. fits m0 (venue (take k [snap0, diff0]))"
    by (auto simp: le_Suc_eq numeral_2_eq_2)
  from mirror_follows_exchange [OF m0(1) _ snd _ this] obtain m
    where m: "bm_feeds HybridStore scatter_fingerprint [snap0, diff0] m0 = Some m" "phantom_trades m = 0"
      and q: "\<And>t p. qty_at t p m = (if bm_in_band m0 p then venue [snap0, diff0] t p else 0)" by auto
  have "bm_in_band m0 101" "bm_in_band m0 102" by (simp_all add: bm_in_band_def m0)
  then have "qty_at Buy 101 m = 4 \<and> qty_at Sell 101 m = 0 \<and> qty_at Sell 102 m = 6" by (simp add: q v1 v2)
  then show ?thesis using m m0(1) by (metis option.sel)
qed

end
