(* ===== verification/Spec2Isabelle.thy ===== *)
theory Spec2Isabelle
  imports Matching_Properties Engine_Properties Journal_Properties Client_Ids Spsc_Queue Latency_Histogram Sinks
    Seqstream_Properties Md_Feed_Properties L3_Replay_Properties Gateway_Liveness Recovery Replica_Properties Md_Mirror_Run
begin

text \<open>
  A verification development for the exchange simulator in this repository: a price-time priority matching engine in C++20, the order-entry gateway and the
  replication around it, and the tools that replay recorded exchange data through it.

  \<^bold>\<open>How the program works.\<close> A client's bytes are decoded (\<^verbatim>\<open>protocol.hpp\<close>), its order ids are translated to exchange ids (\<^verbatim>\<open>client_ids.hpp\<close>), the command is
  numbered, appended to a journal (\<^verbatim>\<open>journal.hpp\<close>), staged for the replicas (\<^verbatim>\<open>seqstream.hpp\<close>), checked by the risk gate (\<^verbatim>\<open>risk.hpp\<close>) and matched by the engine
  (\<^verbatim>\<open>matching_engine.hpp\<close>) in the book of its symbol (\<^verbatim>\<open>order_book.hpp\<close> over \<^verbatim>\<open>order_store.hpp\<close>, \<^verbatim>\<open>order_index.hpp\<close> and \<^verbatim>\<open>price_bitmap.hpp\<close>). The events are folded into a
  digest (\<^verbatim>\<open>sinks.hpp\<close>), written as reports to both parties and, once the turn's commands are durable, sent; changed levels go out on a public feed
  (\<^verbatim>\<open>mdfeed.hpp\<close>). The loop is \<^verbatim>\<open>tools/gateway.hpp\<close>, started by \<^verbatim>\<open>tools/exsim_server.cpp\<close> and by a promoted \<^verbatim>\<open>tools/exsim_replica.cpp\<close>. \<^verbatim>\<open>reference_book.hpp\<close> is the
  naive book the fast one is tested against. \<^verbatim>\<open>tools/exsim_l3replay.cpp\<close> runs recorded order-by-order data (\<^verbatim>\<open>l3.hpp\<close>) through the book and scores it;
  \<^verbatim>\<open>md_mirror.hpp\<close> rebuilds an exchange's book from recorded level totals (\<^verbatim>\<open>md.hpp\<close>).

  \<^bold>\<open>The theories\<close> (sources under \<^verbatim>\<open>src/include/exsim\<close> where no directory is given; a definition has the name of the C++ entity, with a prefix where several classes
  share one, such as \<open>ob_\<close> for \<^verbatim>\<open>OrderBook\<close>, \<open>rb_\<close> for \<^verbatim>\<open>ReferenceBook\<close>, \<open>rg_\<close> for \<^verbatim>\<open>RiskGate\<close>, \<open>jw_\<close> for \<^verbatim>\<open>JournalWriter\<close>, \<open>gw_\<close> for the gateway, \<open>re_\<close> for the replica):
  \<^item> \<open>Prelude\<close>, \<open>Common\<close>: machine types, association lists for \<^verbatim>\<open>std::map\<close>, linked chains; \<^verbatim>\<open>common.hpp\<close>.
  \<^item> \<open>Reference_Book\<close>, \<open>Reference_Props\<close>, \<open>Reference_Bounds\<close>, \<open>Matching_Spec\<close>: \<^verbatim>\<open>reference_book.hpp\<close>, its invariant, its bounds, and what its matching loops trade as an
    allocation over the list of resting orders.
  \<^item> \<open>Order_Index\<close>, \<open>Price_Bitmap\<close>, \<open>Order_Store\<close>: the three structures below the ladder book. The store's accessors are the interface \<open>order_store\<close>, a locale interpreted for
    the three layouts of the source.
  \<^item> \<open>Order_Book\<close>, \<open>Book_Invariant\<close>, \<open>Book_Refinement\<close>, \<open>Book_Queries\<close>, \<open>Book_Properties\<close>, \<open>Matching_Properties\<close>: \<^verbatim>\<open>order_book.hpp\<close>. On related states every operation of the
    ladder book returns, emits the events of the reference book and ends related (C1 to C3); the reference book matches by price-time priority, conserves quantity and
    honours every order type, in every self-trade mode (C5 to C10, C12 to C14).
  \<^item> \<open>Bytes\<close>, \<open>Protocol\<close>, \<open>Wire_Properties\<close>: \<^verbatim>\<open>protocol.hpp\<close> and \<^verbatim>\<open>wire_file.hpp\<close>. The structs are interpretations of one codec locale (C4, C15).
  \<^item> \<open>Matching_Engine\<close>, \<open>Risk\<close>, \<open>Engine_Properties\<close>: \<^verbatim>\<open>matching_engine.hpp\<close>, \<^verbatim>\<open>risk.hpp\<close>. The locale \<open>machine_sim\<close> lifts the refinement of one book to the engine and the gate (C19 to C23).
  \<^item> \<open>Journal\<close>, \<open>Crc_Props\<close>, \<open>Journal_Properties\<close>: \<^verbatim>\<open>journal.hpp\<close>, crashes at any byte, damage (C24 to C26).
  \<^item> \<open>Client_Ids\<close>, \<open>Sinks\<close>, \<open>Latency_Histogram\<close>, \<open>Spsc_Queue\<close>: the headers of those names. The queue is a step relation that interleaves single shared accesses, with stale acquire
    loads (C27, C28); the histogram's percentile is within one part in 32 (C29).
  \<^item> \<open>Seqstream\<close>, \<open>Seqstream_Properties\<close>: \<^verbatim>\<open>seqstream.hpp\<close>: exactly-once delivery, closing of gaps, acknowledgements and fencing (C33 to C35).
  \<^item> \<open>Md_Feed\<close>, \<open>Md_Feed_Properties\<close>: \<^verbatim>\<open>mdfeed.hpp\<close>: a subscriber in sync has the publisher's book, and a snapshot brings it in sync (C36, C37).
  \<^item> \<open>Md_Mirror\<close>, \<open>Md_Mirror_Properties\<close>, \<open>Md_Mirror_Run\<close>: \<^verbatim>\<open>md.hpp\<close> and \<^verbatim>\<open>md_mirror.hpp\<close>: recorded level-2 data, and the mirror that rebuilds the exchange's book in the engine without ever
    trading (C16).
  \<^item> \<open>L3\<close>, \<open>L3_Properties\<close>, \<open>L3_Safe\<close>, \<open>L3_Accounts\<close>, \<open>L3_Inference\<close>, \<open>L3_Replay\<close>, \<open>L3_Replay_Properties\<close>: \<^verbatim>\<open>l3.hpp\<close> and \<^verbatim>\<open>tools/exsim_l3replay.cpp\<close> (C32, C38 to C40).
  \<^item> \<open>Gateway\<close>, \<open>Gateway_Properties\<close>, \<open>Gateway_Liveness\<close>: \<^verbatim>\<open>tools/gateway.hpp\<close>. The locale \<open>turn_relation\<close> carries a relation along a turn's events and is interpreted for the write-ahead
    specification and for the commit discipline; the locale \<open>lively_books\<close> is what the gateway asks of its books, interpreted for the three store layouts.
  \<^item> \<open>Server\<close>, \<open>Recovery\<close>: \<^verbatim>\<open>tools/exsim_server.cpp\<close> and a primary's life across crashes and restarts, an inductive relation. \<open>Replica\<close>, \<open>Replica_Properties\<close>: \<^verbatim>\<open>tools/exsim_replica.cpp\<close>.
  \<^item> This theory: the properties that span components. The journal determines the exchange (C30), a restart loses nothing handed over (C31), no answer leaves before commit (C11), the gateway
    never gets stuck (C18), a replica is its primary (C17).

  \<^bold>\<open>How code is modelled.\<close> A struct or class is a record and its members are functions that return the new state; an event sink is the list of events emitted. Machine
  integers are words of their width, so wrap-around is the source's; prices are integers, and the signed subtractions of the book and of the mirror's band are
  computed without overflow; the collar of the risk gate and the mirror's reseed test wrap in two's complement, and the mid price of the replay is undefined when it overflows. A loop whose text
  does not bound it (queue walks, bitmap scans, probing, union-find, waiting) is a partial function into options, and the theorems prove that it returns; where the recursion
  has a measure it is a total function. No function takes fuel. \<open>None\<close> stands for an exception that leaves the component, for undefined behaviour, or for a loop
  that does not end, as each theory says. An \<^verbatim>\<open>std::map\<close> is an ordered association list, an \<^verbatim>\<open>std::unordered_map\<close> an association list or a map.

  \<^bold>\<open>The world outside\<close> is an argument: what the sockets deliver and take, which datagrams are lost, the clock, whether a write, flush or sync of the journal succeeds, the hash of the index.
  What is asked of it is a named hypothesis: \<open>kernel_run\<close> (\<^verbatim>\<open>accept\<close> returns no open descriptor), \<open>received\<close> (datagrams of an epoch come from its primary), \<open>crash_image\<close>
  and the prefix a crash leaves of a file.

  \<^bold>\<open>Bounds.\<close> The refinement of the ladder book assumes that the capacity of the book times the largest quantity fits in 64 bits, which the risk gate's limit ensures for whatever commands come (C19) and
  so in the gateway; \<open>fok_aggregate_wraps\<close> shows that without it the level totals wrap. C21 assumes that the distance of a price to the last trade fits in 64 signed bits. The stream's theorems assume sequence numbers below 2 to the 64.

  \<^bold>\<open>Not modelled.\<close> \<^verbatim>\<open>clock.hpp\<close>, \<^verbatim>\<open>cpu.hpp\<close>, \<^verbatim>\<open>memory.hpp\<close> (hardware and operating system access without functional behaviour); \<^verbatim>\<open>mm.hpp\<close> and \<^verbatim>\<open>mm_sim.hpp\<close> (floating point
  strategies and their simulator); the workload generator (\<^verbatim>\<open>workload.hpp\<close>, floating point draws), the remaining command line tools,
  benchmarks, fuzz drivers and the WebAssembly binding (statistics, printing and glue around the components above); socket set-up, argument parsing and printing everywhere; the file reading of
  \<^verbatim>\<open>wire_file.hpp\<close> and the floating point mean and rank of the histogram.
\<close>

section \<open>The primary\<close>

text \<open>A small session: two clients connect, one sells and the other buys.\<close>

definition config0 :: GatewayConfig where
  "config0 = \<lparr>gc_sync_mode = SyncOs, gc_batch = 0, gc_wait_replica = False, gc_halt_on_replica_loss = False, gc_trust_client_ids = False\<rparr>"

definition gateway0 :: "AosOrder list Gateway" where
  "gateway0 = gw_init config0 (rg_init (the (me_init (ob_init AosStore scatter_fingerprint) 2 cfg0)) 2 default_RiskConfig) jw_create ed_init 0 1 1 None None"

definition io0 :: "u64 \<Rightarrow> cmd_io" where
  "io0 sq = \<lparr>io_now = sq, io_write = 100, io_flush = True, io_fsync = True\<rparr>"

definition turn0 :: turn_io where
  "turn0 = \<lparr>n_flush = True, n_lost = (\<lambda>_. False), n_md_lost = (\<lambda>_. False), n_now = 9, n_wait = [], n_send = (\<lambda>_. (1000, False))\<rparr>"

definition session0 :: "(turn_io \<times> gw_event list) list" where
  "session0 = [(turn0, [EvAccept [5, 6]]), (turn0, [EvConn 5 None (Some (RecvData (encode (limit_order 7 Sell 110 5 Day 0 0))))]),
     (turn0, [EvConn 6 None (Some (RecvData (encode (limit_order 7 Buy 110 3 Day 0 0))))])]"

lemma gateway0_boot: "server_main AosStore config0 None None None (gw_gate gateway0) = Some gateway0"
  by (simp add: server_main_def recover_all_def fresh_def gateway0_def gw_init_def config0_def)

lemma session0_life: "gw_run AosStore io0 session0 gateway0 = Some st \<Longrightarrow> life AosStore (gw_gate gateway0) st"
  by (rule life.serve [OF life.boot [OF gateway0_boot]]) (simp_all add: gateway0_def gw_init_def)

lemma kernel_conn_only: "\<forall>ev \<in> set evs. \<exists>fd wr rd. ev = EvConn fd wr rd \<Longrightarrow> kernel_ok ops io evs t st"
  by (induction evs arbitrary: t st) (fastforce split: option.split prod.split)+

lemma session0_kernel: "kernel_run AosStore io0 session0 gateway0"
  by (simp add: session0_def kernel_conn_only gateway0_def gw_init_def split: option.split)

lemma session0_returns: "\<exists>st. gw_run AosStore io0 session0 gateway0 = Some st"
proof -
  obtain bs where bs: "me_init (ob_init AosStore scatter_fingerprint) 2 cfg0 = Some bs" using engine0 by blast
  have "aos_lively.served (unat (rc_max_qty default_RiskConfig)) gateway0"
    unfolding gateway0_def bs option.sel by (rule aos_start_served [OF bs]) (simp add: cfg0_def default_RiskConfig_def)
  from aos_lively.run_total [OF this session0_kernel] show ?thesis .
qed

text \<open>
  C30. The journal is the exchange. Whatever the clients send, however the sockets behave and whenever the journal's device fails, through any number of sessions,
  shutdowns, crashes that leave any prefix of the file, and restarts with \<^verbatim>\<open>--recover\<close>: at every point between two turns the journal on file scans without
  corruption, with at most the torn record of a failed write at its end, to commands numbered 1, 2, 3 and so on, and running these through a fresh gate and engine
  gives the gate, the books and the event digest the gateway holds.
\<close>

theorem journal_is_the_exchange:
  assumes "life ops g0 st"
  shows "\<exists>scan cmds evs. journal_scan (jw_file (gw_journal st)) = Some (scan, cmds) \<and> js_status scan \<noteq> Corrupt \<and>
    (js_status scan = TornTail \<longrightarrow> gw_journal_failed st) \<and>
    run (gate_machine ops) g0 cmds = Some (gw_gate st, evs) \<and> gw_digest st = digest_of evs \<and>
    map c_seq cmds = map (\<lambda>i. of_nat (Suc i)) [0..<length cmds] \<and> (\<not> gw_journal_failed st \<longrightarrow> gw_seq st = of_nat (length cmds))"
proof -
  obtain cmds where w: "wal ops (origin g0) cmds st" using life_wal [OF assms] by blast
  then obtain evs tail where W: "run (gate_machine ops) g0 cmds = Some (gw_gate st, evs)" "gw_digest st = digest_of evs"
    "jw_file (gw_journal st) = journal_header @ journal_records cmds @ tail" "torn tail" "tail \<noteq> [] \<longrightarrow> gw_journal_failed st"
    "\<forall>c \<in> set cmds. journalable c" "map c_seq cmds = map (\<lambda>i. of_nat (Suc i)) [0..<length cmds]"
    "\<not> gw_journal_failed st \<longrightarrow> gw_seq st = of_nat (length cmds)" by (rule walD)
  show ?thesis using scan_wal [OF W(6,4)] W unfolding W(3) by (cases "tail = []") auto
qed

theorem journal_is_the_exchange_witness:
  "\<exists>st scan cmds evs. gw_run AosStore io0 session0 gateway0 = Some st \<and> journal_scan (jw_file (gw_journal st)) = Some (scan, cmds) \<and>
    run (gate_machine AosStore) (gw_gate gateway0) cmds = Some (gw_gate st, evs) \<and> gw_digest st = digest_of evs"
proof -
  obtain st where r: "gw_run AosStore io0 session0 gateway0 = Some st" using session0_returns by blast
  show ?thesis using journal_is_the_exchange [OF session0_life [OF r]] r by blast
qed

text \<open>
  C31. A restart loses nothing that was handed over. From any point of a primary's life, after a crash that left the first \<open>m\<close> bytes of the journal's file, the server starts: it
  replays the commands of a prefix of the journal that has every record lying within those bytes, holds exactly the gate, books and digest they make of a fresh start,
  goes on numbering behind them, and its journal holds exactly their records.
\<close>

theorem restart_loses_nothing_flushed:
  assumes "life ops g0 st" and "stream \<noteq> None \<or> \<not> gc_wait_replica cfg"
  shows "\<exists>scan cmds k st' evs. journal_scan (jw_file (gw_journal st)) = Some (scan, cmds) \<and>
    server_main ops cfg (Some (take m (jw_file (gw_journal st)))) stream md g0 = Some st' \<and>
    run (gate_machine ops) g0 (take k cmds) = Some (gw_gate st', evs) \<and> gw_digest st' = digest_of evs \<and> k \<le> length cmds \<and> gw_seq st' = of_nat k \<and>
    jw_file (gw_journal st') = journal_header @ journal_records (take k cmds) \<and>
    (\<forall>x \<le> length cmds. length (journal_header @ journal_records (take x cmds)) \<le> m \<longrightarrow> x \<le> k)"
proof -
  obtain cmds where w: "wal ops (origin g0) cmds st" using life_wal [OF assms(1)] by blast
  obtain k st' where k: "k \<le> length cmds" "server_main ops cfg (Some (take m (jw_file (gw_journal st)))) stream md g0 = Some st'"
    "wal ops (origin g0) (take k cmds) st'" "\<not> gw_journal_failed st'" "\<forall>x \<le> length cmds. length (journal_header @ journal_records (take x cmds)) \<le> m \<longrightarrow> x \<le> k"
    using restart_ok [OF w assms(2)] by blast
  from w obtain tail where t: "jw_file (gw_journal st) = journal_header @ journal_records cmds @ tail" "torn tail" "\<forall>c \<in> set cmds. journalable c" by (rule walD)
  from k(3) obtain evs tail' where K: "run (gate_machine ops) g0 (take k cmds) = Some (gw_gate st', evs)" "gw_digest st' = digest_of evs"
    "jw_file (gw_journal st') = journal_header @ journal_records (take k cmds) @ tail'" "tail' \<noteq> [] \<longrightarrow> gw_journal_failed st'"
    "\<not> gw_journal_failed st' \<longrightarrow> gw_seq st' = of_nat (length (take k cmds))" by (rule walD)
  have "tail' = []" "gw_seq st' = of_nat k" using K(4,5) k(1,4) by auto
  then show ?thesis using k(1,2,5) K(1-3) scan_wal [OF t(3,2), folded t(1)] by auto
qed

theorem restart_loses_nothing_flushed_witness:
  "\<exists>st st' cmds k evs. gw_run AosStore io0 session0 gateway0 = Some st \<and>
    server_main AosStore config0 (Some (take 100 (jw_file (gw_journal st)))) None None (gw_gate gateway0) = Some st' \<and>
    run (gate_machine AosStore) (gw_gate gateway0) (take k cmds) = Some (gw_gate st', evs)"
proof -
  obtain st where r: "gw_run AosStore io0 session0 gateway0 = Some st" using session0_returns by blast
  have "(None :: (nat \<times> u32) option) \<noteq> None \<or> \<not> gc_wait_replica config0" by (simp add: config0_def)
  from restart_loses_nothing_flushed [OF session0_life [OF r] this, of 100 None] r show ?thesis by blast
qed

text \<open>
  C11. No answer before commit. In a turn in which no connection reports that it has become writable again, bytes leave on a socket only when the gateway
  has not halted, everything the journal was given is with the operating system and, when a command was numbered in the turn and an
  acknowledgement is asked for, a replica has acknowledged that command or has been given up as lost.
\<close>

theorem responses_after_commit:
  assumes "gw_turn ops io n evs st = Some st'" and "no_writable evs" and "gw_halted st = None" and "\<not> gw_journal_failed st"
    and "jw_os (gw_journal st) = length (jw_file (gw_journal st))" and "gw_sent st' \<noteq> gw_sent st"
  shows "gw_halted st' = None \<and> jw_os (gw_journal st') = length (jw_file (gw_journal st')) \<and>
    (gw_seq st' \<noteq> gw_seq st \<and> gc_wait_replica (gw_cfg st') \<and> gw_pub st' \<noteq> None \<longrightarrow> gw_seq st' \<le> acked st' \<or> gw_replica_lost st')"
proof -
  obtain t s1 s2 where s: "event_loop ops io evs \<lparr>t_touched = [], t_journaled = False\<rparr> st = Some (t, s1)" "make_durable n t s1 = Some s2" "respond n t s2 = Some st'"
    using assms(1) by (auto simp: gw_turn_def bind_eq_Some_conv)
  have p: "pending \<lparr>t_touched = [], t_journaled = False\<rparr> st t s1"
    using pend.event_loop_rel [OF s(1)] assms(2) by (auto simp: no_writable_def)
  show ?thesis
  proof (cases "t_journaled t")
    case True
    have m: "gw_sent s2 = gw_sent st" "gw_halted s2 = None \<Longrightarrow> safe s2"
      using make_durable_safe [OF s(2) True] p assms(4) by (auto simp: pending_def)
    note R = respond_safe [OF s(3)]
    have "gw_sent st' \<noteq> gw_sent s2" using assms(6) m(1) by simp
    then show ?thesis using R m(2) by (simp add: safe_def)
  next
    case False
    then have e: "s2 = s1" using s(2) by (simp add: make_durable_def)
    note R = respond_safe [OF s(3)]
    have "gw_sent st' \<noteq> gw_sent s2" using assms(6) p e by (simp add: pending_def)
    then show ?thesis using R p False assms(4,5) e by (auto simp: pending_def)
  qed
qed

text \<open>A turn on a gateway without symbols: the order is journaled, refused and answered.\<close>

definition gateway1 :: "AosOrder list Gateway" where
  "gateway1 = accept_conn (gw_init (config0\<lparr>gc_trust_client_ids := True\<rparr>) (rg_init [] 0 default_RiskConfig) jw_create ed_init 0 1 1 None None) 5"

definition order1 :: Command where
  "order1 = limit_order 7 Sell 110 5 Day 0 0"

lemma order1_read: "decode (encode order1) = (\<lparr>d_status = DOk, d_consumed = 48\<rparr>, Some order1)"
proof -
  have "i64_range (c_price order1)" "wire_view order1 = order1" "length (encode order1) = 48"
    by (simp_all add: order1_def limit_order_def i64_range_def wire_view_def size_defs)
  then show ?thesis using decode_encode_append [of order1 "[]"] by simp
qed

lemma order1_command:
  "\<exists>st. on_command AosStore io0 5 1 order1 \<lparr>t_touched = [], t_journaled = False\<rparr> gateway1 = Some (True, \<lparr>t_touched = [], t_journaled = True\<rparr>, st) \<and>
     gw_seq st = 1 \<and> gw_halted st = None \<and> gw_pub st = None \<and> gw_md st = None \<and> \<not> gw_journal_failed st \<and> gw_sent st = (\<lambda>_. []) \<and>
     (\<exists>c. gw_conns st 5 = Some c \<and> cn_out_off c = 0 \<and> cn_out c = encode_report (rejected_event (order1\<lparr>c_seq := 1, c_owner := 1, c_ts := 1\<rparr>) UnknownSymbol) 0 @ encode_done 0 0)"
  by (simp add: on_command_def stamp_def assign_id_def journal_io_def jw_append_def length_journal_record size_defs io0_def gateway1_def accept_conn_def
      gw_init_def config0_def Let_def run_command_def publish_cmd_def note_modify_def gate_machine_def rg_process_def rg_check_def me_process_def rg_init_def
      rs_on_event_def write_to_def append_report_def new_Conn_def sync_policy_def order1_def limit_order_def jw_create_def)

theorem responses_after_commit_witness:
  "\<exists>st'. gw_turn AosStore io0 turn0 [EvConn 5 None (Some (RecvData (encode order1)))] gateway1 = Some st' \<and> gw_sent st' \<noteq> gw_sent gateway1 \<and>
    jw_os (gw_journal st') = length (jw_file (gw_journal st'))"
proof -
  obtain st c where o: "on_command AosStore io0 5 1 order1 \<lparr>t_touched = [], t_journaled = False\<rparr> gateway1 = Some (True, \<lparr>t_touched = [], t_journaled = True\<rparr>, st)"
    "gw_seq st = 1" "gw_halted st = None" "gw_pub st = None" "gw_md st = None" "\<not> gw_journal_failed st" "gw_sent st = (\<lambda>_. [])" "gw_conns st 5 = Some c"
    "cn_out_off c = 0" "cn_out c = encode_report (rejected_event (order1\<lparr>c_seq := 1, c_owner := 1, c_ts := 1\<rparr>) UnknownSymbol) 0 @ encode_done 0 0"
    using order1_command by blast
  have g: "gw_conns gateway1 5 = Some (new_Conn 1)" "gw_halted gateway1 = None" "\<not> gw_journal_failed gateway1"
    "jw_os (gw_journal gateway1) = length (jw_file (gw_journal gateway1))" "gw_sent gateway1 = (\<lambda>_. [])"
    by (simp_all add: gateway1_def accept_conn_def gw_init_def jw_create_def Let_def)
  have r: "read_loop AosStore io0 5 1 (encode order1) \<lparr>t_touched = [], t_journaled = False\<rparr> gateway1 = Some (False, [], \<lparr>t_touched = [], t_journaled = True\<rparr>, st)"
    using o(1) by (subst read_loop.simps) (simp add: order1_read encode_size read_loop.simps [of _ _ _ _ "[]"], simp add: order1_def limit_order_def size_defs read_loop.simps [of _ _ _ _ "[]"])
  have n: "length (encode_report e k) = 64" "length (encode_done sm k) = 64" for e k sm by (simp_all add: encode_report_def encode_done_def)
  then have ne: "encode_report e k \<noteq> []" for e k by (metis list.size(3) zero_neq_numeral)
  obtain st' where t: "gw_turn AosStore io0 turn0 [EvConn 5 None (Some (RecvData (encode order1)))] gateway1 = Some st'" "gw_sent st' 5 \<noteq> []"
    by (simp add: gw_turn_def on_conn_def on_data_in_def g(1,2) r o(3-8) new_Conn_def make_durable_def journal_io_def jw_flush_def turn0_def respond_def
      publish_md_def heartbeat_md_def heartbeat_pub_def try_write_def Let_def o(9,10) n ne)
  have w: "no_writable [EvConn 5 None (Some (RecvData (encode order1)))]" by (simp add: no_writable_def)
  have d: "gw_sent st' \<noteq> gw_sent gateway1" using t(2) g(5) by auto
  show ?thesis using responses_after_commit [OF t(1) w g(2-4) d] t(1) d by blast
qed

text \<open>
  C18. The gateway never gets stuck. Without replication, and with a quantity limit in the risk gate that keeps the books' totals within 64 bits, every
  session ends its turns, whatever bytes the clients send in whatever pieces, whatever the sockets take, and also when the journal's device
  fails: no loop runs away, no lookup of a connection, an order or a level misses. The kernel is only asked not to hand out an open descriptor again.
\<close>

theorem gateway_never_stuck:
  assumes "me_init (ob_init AosStore h) n cfg = Some bs" and "cfg_max_orders cfg * unat (rc_max_qty rc) < 2 ^ 64"
    and "kernel_run AosStore io ns (gw_init gc (rg_init bs n rc) j d sq own x None md)"
  shows "\<exists>st. gw_run AosStore io ns (gw_init gc (rg_init bs n rc) j d sq own x None md) = Some st"
  by (rule aos_lively.run_total [OF aos_start_served [OF assms(1,2)] assms(3)])

theorem gateway_never_stuck_witness: "\<exists>st. gw_run AosStore io0 session0 gateway0 = Some st"
proof -
  obtain bs where bs: "me_init (ob_init AosStore scatter_fingerprint) 2 cfg0 = Some bs" using engine0 by blast
  have m: "cfg_max_orders cfg0 * unat (rc_max_qty default_RiskConfig) < 2 ^ 64" by (simp add: cfg0_def default_RiskConfig_def)
  show ?thesis using gateway_never_stuck [OF bs m] session0_kernel unfolding gateway0_def bs option.sel by blast
qed

section \<open>The replica\<close>

text \<open>
  C17. A replica is its primary. Take a primary that publishes the log \<open>log\<close> under epoch \<open>ep\<close>, and a replica started empty that has locked on to it and whose sockets delivered any selection of
  the primary's datagrams, repeated and reordered, among others of stale and newer primaries. Whatever the replica's next turn comes to (following on, stopping, or promoting itself to a gateway), the gate, the books, the event digest
  and the number it then holds are what the first \<open>n - 1\<close> commands of the log make of a fresh start, its journal holds exactly their records, and \<open>n\<close> is beyond every number it has acknowledged.
  So a promoted replica has every command whose acknowledgement released an answer.
\<close>

theorem replica_is_primary:
  assumes P: "started log blank k a nx ep p0" "pub_reach log p0 out p" and numbered: "\<forall>s. c_seq (log s) = of_nat s"
    and R: "re_loop ops wr cfg ns (re_init g0) = Some (Following r)" "re_step ops wr cfg n r = Some x"
    and D: "ds = concat (map (\<lambda>n. ei_group n @ ei_control n) (ns @ [n]))" "received ep out ds" "u_epoch (snd (drain ds (sub_init 1 1))) = ep"
    and H: "holds x = (g, d, jf, sq)"
  shows "\<exists>m evs. 1 \<le> m \<and> m \<le> max 1 (unat (p_next_seq p)) \<and> run (gate_machine ops) g0 (map log [1..<m]) = Some (g, evs) \<and> d = digest_of evs \<and>
    jf = journal_header @ journal_records (map log [1..<m]) \<and> sq = of_nat (m - 1) \<and>
    jw_os (re_journal r) = length (jw_file (re_journal r)) \<and> (\<forall>a \<in> set (re_sent r). q_kind (d_header a) = kAck \<longrightarrow> unat (q_first_seq (d_header a)) < m)"
proof -
  let ?ds = "concat (map (\<lambda>n. ei_group n @ ei_control n) ns)"
  have F: "follows ops g0 ?ds r" using loop_follows [OF R(1) follows_init] by simp
  have ds: "ds = ?ds @ ei_group n @ ei_control n" by (simp add: D(1))
  obtain r' where F': "follows ops g0 ds r'" "holds x = (re_gate r', re_digest r', jw_file (re_journal r'), re_seq r')"
    using step_holds [OF R(2) F] unfolding ds by blast
  obtain got u where g: "drain ds (sub_init 1 1) = (got, u)" by (rule prod.exhaust)
  have "session log p 1 got u" unfolding session_def
    by (intro exI [of _ blank] exI [of _ k] exI [of _ a] exI [of _ nx] exI [of _ ep] exI [of _ p0] exI [of _ out] exI [of _ 1] exI [of _ ds] conjI P D(2) g)
      (use D(3) g in simp_all)
  note I = session_inv(2) [OF this]
  define m where "m = unat (u_expected u)"
  have m: "got = map log [1..<m]" "1 \<le> m" "m \<le> max 1 (unat (p_next_seq p))"
    using I by (auto simp: advances_def sub_init_def segment_def m_def word_le_nat_alt max.commute)
  have m64: "m < 2 ^ 64" unfolding m_def using unsigned_less [of "u_expected u"] by simp
  have M: "mirrors ops g0 (map log [1..<m]) r'" using F'(1) m(1) g by (simp add: follows_def)
  then obtain evs where e: "run (gate_machine ops) g0 (map log [1..<m]) = Some (g, evs)" "d = digest_of evs"
    "jf = journal_header @ journal_records (map log [1..<m])" "sq = (if map log [1..<m] = [] then 0 else c_seq (last (map log [1..<m])))"
    using F'(2) H by (auto simp: mirrors_def)
  have sq: "sq = of_nat (m - 1)" using e(4) numbered m(2) by (cases "m = 1") (auto simp: last_map)
  have "delivered ds = delivered ?ds @ fst (drain (ei_group n @ ei_control n) (snd (drain ?ds (sub_init 1 1))))" unfolding ds drain_append [of ?ds] by simp
  then have "got = delivered ?ds @ fst (drain (ei_group n @ ei_control n) (snd (drain ?ds (sub_init 1 1))))" using g by simp
  then have "set (delivered ?ds) \<subseteq> set got" by (simp only: set_append Un_upper1)
  then have sub: "set (delivered ?ds) \<subseteq> set (map log [1..<m])" unfolding m(1) .
  have "unat (q_first_seq (d_header y)) < m" if "y \<in> set (re_sent r)" "q_kind (d_header y) = kAck" for y
  proof -
    from F that consider "q_first_seq (d_header y) = 0" | c where "c \<in> set (delivered ?ds)" "q_first_seq (d_header y) = c_seq c" by (auto simp: follows_def)
    then show ?thesis
    proof cases
      case 2
      have "c \<in> set (map log [1..<m])" by (rule subsetD [OF sub 2(1)])
      then obtain s where "s < m" "c = log s" by auto
      then have "s < m" "q_first_seq (d_header y) = of_nat s" using numbered 2(2) by simp_all
      then show ?thesis using m64 by (simp add: unat_of_nat)
    qed (use m(2) in simp)
  qed
  then show ?thesis using m e sq F by (auto simp: follows_def)
qed

definition poll0 :: re_io where
  "poll0 = \<lparr>ei_group = [(5, sample_data)], ei_control = [], ei_poll_now = 7, ei_now = 8, ei_ok = True\<rparr>"

definition standby0 :: re_config where
  "standby0 = \<lparr>ec_silence_ns = 300000000, ec_standby = True, ec_promote_pub = None, ec_promote_wait = False\<rparr>"

lemma poll0_drain:
  "delivered [(5, sample_data)] = [sample_log 1, sample_log 2]" "u_epoch (snd (drain [(5, sample_data)] (sub_init 1 1))) = 1"
  by code_simp+

lemma poll0_step: "\<exists>x. re_step AosStore (\<lambda>_. 100) standby0 poll0 (re_init (rg_init [] 0 default_RiskConfig)) = Some x"
proof -
  obtain req u where p: "poll 7 [(5, sample_data)] [] (sub_init 1 1) = ([sample_log 1, sample_log 2], req, u)"
    using poll0_drain(1) that [of "fst (request_gap 7 (snd (drain [(5, sample_data)] (sub_init 1 1))))" "snd (request_gap 7 (snd (drain [(5, sample_data)] (sub_init 1 1))))"]
    by (simp add: poll_def Let_def case_prod_beta)
  have l: "length (journal_record (sample_log s)) = 72" for s by (simp add: length_journal_record sample_log_def size_defs)
  have g: "gate_machine AosStore (sample_log s) (rg_init [] 0 default_RiskConfig) = Some (rg_init [] 0 default_RiskConfig, [rejected_event (sample_log s) UnknownSymbol])" for s
    by (simp add: gate_machine_def rg_process_def rg_check_def me_process_def rg_init_def sample_log_def tap_event_def)
  show ?thesis
    by (simp add: re_step_def re_follow_def poll0_def re_init_def p re_apply_def jw_append_def l g Let_def re_flush_def jw_flush_def re_sync_def jw_sync_def
        standby0_def promote_def)
qed

theorem replica_is_primary_witness:
  "\<exists>x m evs g d jf sq. re_step AosStore (\<lambda>_. 100) standby0 poll0 (re_init (rg_init [] 0 default_RiskConfig)) = Some x \<and> holds x = (g, d, jf, sq) \<and>
    run (gate_machine AosStore) (rg_init [] 0 default_RiskConfig) (map sample_log [1..<m]) = Some (g, evs) \<and> d = digest_of evs"
proof -
  obtain q where q: "pub_reach sample_log (pub_init (sample_log 0) 2 1 1) [(Group, sample_data)] q" using sample_reach by blast
  obtain x where x: "re_step AosStore (\<lambda>_. 100) standby0 poll0 (re_init (rg_init [] 0 default_RiskConfig)) = Some x" using poll0_step by blast
  obtain g d jf sq where h: "holds x = (g, d, jf, sq)" by (metis prod.exhaust)
  have r: "re_loop AosStore (\<lambda>_. 100) standby0 [] (re_init (rg_init [] 0 default_RiskConfig)) = Some (Following (re_init (rg_init [] 0 default_RiskConfig)))" by simp
  have n: "\<forall>s. c_seq (sample_log s) = of_nat s" by (simp add: sample_log_def)
  have c: "[(5, sample_data)] = concat (map (\<lambda>n. ei_group n @ ei_control n) ([] @ [poll0]))" by (simp add: poll0_def)
  have "received 1 [(Group, sample_data)] [(5, sample_data)]" by (simp add: received_def)
  from replica_is_primary [OF sample_started q n r x c this poll0_drain(2) h] x h show ?thesis by blast
qed

end
